(* ===== verification/CPrelude.thy ===== *)
theory CPrelude
  imports Main "HOL-Library.Sublist" "HOL-Library.Code_Target_Nat"
begin

text \<open>
  The prelude of the development: the C abstractions shared by every component.

  \<^item> \<open>fault\<close> lists the ways a C function stops without a result (undefined behaviour and
    failed assertions); a C function that can reach one returns \<open>fault + 'a\<close>, and
    \<open>bindC\<close> sequences such calls.
  \<^item> A C string is the \<open>string\<close> of its characters before the terminating NUL; a buffer
    of \<open>n\<close> bytes holds a string of fewer than \<open>n\<close> characters (\<open>strcpy_buf\<close>, \<open>strcat_buf\<close>).
  \<^item> The functions of \<^verbatim>\<open><string.h>\<close> and \<^verbatim>\<open><ctype.h>\<close> that the sources call (\<open>strchr\<close>, \<open>strrchr\<close>,
    \<open>strstr\<close>, \<open>strtok\<close>, \<open>tolower\<close>, \<open>isspace\<close>) are defined here for the "C" locale, with the
    lemmas that describe them.
  \<^item> \<open>transition_system\<close> is the interface of the step relations: an invariant that holds
    initially and is kept by every step holds in every reachable state.
\<close>

named_theorems c_defs \<open>definitions that a symbolic run of a C function unfolds\<close>

section \<open>Outcomes\<close>

datatype fault =
    Buffer_Overflow   \<comment> \<open>a write beyond the end of a buffer\<close>
  | Out_Of_Bounds     \<comment> \<open>a read or write at an index outside an object\<close>
  | Null_Deref        \<comment> \<open>a NULL pointer is dereferenced\<close>
  | Assertion_Failure \<comment> \<open>an \<open>assert\<close> of the source fails\<close>
  | Use_After_Free    \<comment> \<open>a pointer to a destroyed object is dereferenced\<close>

definition bindC :: "fault + 'a \<Rightarrow> ('a \<Rightarrow> fault + 'b) \<Rightarrow> fault + 'b" where
  "bindC m k = (case m of Inl e \<Rightarrow> Inl e | Inr x \<Rightarrow> k x)"

lemma bindC_simps [simp]:
  "bindC (Inl e) k = Inl e"
  "bindC (Inr x) k = k x"
  by (simp_all add: bindC_def)

lemma bindC_eq_Inr: "bindC m k = Inr y \<longleftrightarrow> (\<exists>x. m = Inr x \<and> k x = Inr y)"
  by (cases m) auto

lemma bindC_eq_Inl: "bindC m k = Inl e \<longleftrightarrow> m = Inl e \<or> (\<exists>x. m = Inr x \<and> k x = Inl e)"
  by (cases m) auto

lemma bindC_assoc: "bindC (bindC m k) l = bindC m (\<lambda>x. bindC (k x) l)"
  by (cases m) auto

lemma bindC_if: "bindC (if b then m else n) k = (if b then bindC m k else bindC n k)"
  by simp

lemma bindC_cong [fundef_cong]:
  "m = m' \<Longrightarrow> (\<And>x. m' = Inr x \<Longrightarrow> k x = k' x) \<Longrightarrow> bindC m k = bindC m' k'"
  by (cases m') auto

definition assertC :: "bool \<Rightarrow> fault + unit" where
  "assertC b = (if b then Inr () else Inl Assertion_Failure)"

lemma assertC_simps [simp]:
  "assertC True = Inr ()" "assertC False = Inl Assertion_Failure"
  by (simp_all add: assertC_def)

text \<open>A pointer that the code dereferences without a test for NULL.\<close>

definition deref :: "'a option \<Rightarrow> fault + 'a" where
  "deref p = (case p of None \<Rightarrow> Inl Null_Deref | Some x \<Rightarrow> Inr x)"

lemma deref_simps [simp]: "deref None = Inl Null_Deref" "deref (Some x) = Inr x"
  by (simp_all add: deref_def)

lemma deref_eq_Inr [simp]: "deref p = Inr x \<longleftrightarrow> p = Some x"
  by (cases p) auto

section \<open>Buffers\<close>

definition PATH_MAX :: nat where "PATH_MAX = 4096"

text \<open>\<open>SIZE_MAX\<close>, the greatest \<open>size_t\<close> of the 64-bit target.\<close>

definition SIZE_MAX :: nat where "SIZE_MAX = 18446744073709551615"

text \<open>\<open>strcpy\<close> into a buffer of \<open>n\<close> bytes: the string and its NUL must fit.\<close>

definition strcpy_buf :: "nat \<Rightarrow> string \<Rightarrow> fault + string" where
  "strcpy_buf n s = (if length s < n then Inr s else Inl Buffer_Overflow)"

definition strcat_buf :: "nat \<Rightarrow> string \<Rightarrow> string \<Rightarrow> fault + string" where
  "strcat_buf n d s = strcpy_buf n (d @ s)"

lemma strcpy_buf_eq_Inr [simp]: "strcpy_buf n s = Inr t \<longleftrightarrow> t = s \<and> length s < n"
  by (auto simp: strcpy_buf_def)

lemma strcpy_buf_eq_Inl [simp]: "strcpy_buf n s = Inl e \<longleftrightarrow> n \<le> length s \<and> e = Buffer_Overflow"
  by (auto simp: strcpy_buf_def)

lemma strcpy_buf_ok: "length s < n \<Longrightarrow> strcpy_buf n s = Inr s"
  by simp

lemma strcat_buf_eq_Inr [simp]:
  "strcat_buf n d s = Inr t \<longleftrightarrow> t = d @ s \<and> length d + length s < n"
  by (auto simp: strcat_buf_def)

lemma strcat_buf_eq_Inl [simp]:
  "strcat_buf n d s = Inl e \<longleftrightarrow> n \<le> length d + length s \<and> e = Buffer_Overflow"
  by (auto simp: strcat_buf_def)

lemma strcat_buf_ok: "length d + length s < n \<Longrightarrow> strcat_buf n d s = Inr (d @ s)"
  by simp

section \<open>Searching in strings\<close>

definition NUL :: char where "NUL = CHR 0x00"

definition LF :: char where "LF = CHR 0x0A"

definition BACKSLASH :: char where "BACKSLASH = CHR 0x5C"

text \<open>\<open>strchr\<close> and \<open>strrchr\<close> give the index of the first and the last occurrence.\<close>

fun strchr :: "string \<Rightarrow> char \<Rightarrow> nat option" where
  "strchr [] c = None"
| "strchr (x # xs) c = (if x = c then Some 0 else map_option Suc (strchr xs c))"

fun strrchr :: "string \<Rightarrow> char \<Rightarrow> nat option" where
  "strrchr [] c = None"
| "strrchr (x # xs) c =
     (case strrchr xs c of
        Some i \<Rightarrow> Some (Suc i)
      | None \<Rightarrow> (if x = c then Some 0 else None))"

lemma strchr_None: "strchr s c = None \<longleftrightarrow> c \<notin> set s"
  by (induction s) auto

lemma strchr_SomeD: "strchr s c = Some i \<Longrightarrow> i < length s \<and> s ! i = c \<and> c \<notin> set (take i s)"
proof (induction s arbitrary: i)
  case (Cons x s)
  then show ?case by (cases "x = c") auto
qed simp

lemma strchr_first: "c \<notin> set a \<Longrightarrow> strchr (a @ c # b) c = Some (length a)"
  by (induction a) auto

lemma strrchr_None: "strrchr s c = None \<longleftrightarrow> c \<notin> set s"
  by (induction s) (auto split: option.splits)

lemma strrchr_append:
  "strrchr (s @ t) c =
     (case strrchr t c of Some i \<Rightarrow> Some (length s + i) | None \<Rightarrow> strrchr s c)"
  by (induction s) (auto split: option.splits)

lemma strrchr_SomeD:
  "strrchr s c = Some i \<Longrightarrow> i < length s \<and> s ! i = c \<and> c \<notin> set (drop (Suc i) s)"
proof (induction s arbitrary: i)
  case Nil
  then show ?case by simp
next
  case (Cons x s)
  show ?case
  proof (cases "strrchr s c")
    case None
    then have "c \<notin> set s" by (simp add: strrchr_None)
    with None Cons.prems show ?thesis by (simp split: if_splits)
  next
    case (Some j)
    with Cons show ?thesis by auto
  qed
qed

lemma strrchr_split:
  assumes "strrchr s c = Some i"
  shows "s = take i s @ c # drop (Suc i) s \<and> c \<notin> set (drop (Suc i) s)"
  using strrchr_SomeD [OF assms] by (metis id_take_nth_drop)

lemma strrchr_last: "c \<notin> set t \<Longrightarrow> strrchr (s @ c # t) c = Some (length s)"
  by (simp add: strrchr_append strrchr_None [THEN iffD2])

text \<open>\<open>strstr\<close>: the position of the first occurrence of the needle.\<close>

fun strstr :: "string \<Rightarrow> string \<Rightarrow> nat option" where
  "strstr [] n = (if n = [] then Some 0 else None)"
| "strstr (x # xs) n =
     (if take (length n) (x # xs) = n then Some 0 else map_option Suc (strstr xs n))"

lemma strstr_SomeD: "strstr h n = Some i \<Longrightarrow> take (length n) (drop i h) = n"
  by (induction h arbitrary: i) (auto split: if_splits)

lemma strstr_Some_le: "strstr h n = Some i \<Longrightarrow> i + length n \<le> length h"
proof (induction h arbitrary: i)
  case Nil
  then show ?case by (simp split: if_splits)
next
  case (Cons x h)
  show ?case
  proof (cases "take (length n) (x # h) = n")
    case True
    then have "length n \<le> length (x # h)"
      by (metis length_take min.cobounded1)
    with True Cons.prems show ?thesis by simp
  next
    case False
    with Cons show ?thesis by auto
  qed
qed

lemma strstr_least:
  "strstr h n = Some i \<Longrightarrow> j < i \<Longrightarrow> take (length n) (drop j h) \<noteq> n"
proof (induction h arbitrary: i j)
  case Nil
  then show ?case by (simp split: if_splits)
next
  case (Cons x h)
  then show ?case by (cases j) (auto split: if_splits)
qed

lemma strstr_None: "strstr h n = None \<longleftrightarrow> \<not> sublist n h"
proof (induction h)
  case Nil
  then show ?case by auto
next
  case (Cons x h)
  have "prefix n (x # h) \<longleftrightarrow> take (length n) (x # h) = n"
    by (metis append_eq_conv_conj append_take_drop_id prefix_def)
  with Cons show ?case by (auto simp: sublist_Cons_right)
qed

lemma strstr_append_needle: "\<exists>i \<le> length a. strstr (a @ n @ b) n = Some i"
proof -
  have "sublist n (a @ n @ b)" by (metis sublist_appendI)
  then obtain i where i: "strstr (a @ n @ b) n = Some i"
    by (cases "strstr (a @ n @ b) n") (auto simp: strstr_None)
  have "i \<le> length a"
  proof (rule ccontr)
    assume "\<not> i \<le> length a"
    then have "length a < i" by simp
    from strstr_least [OF i this] show False by simp
  qed
  with i show ?thesis by blast
qed

lemma strstr_at:
  assumes "take (length c) (drop k a) = c" "k \<le> length a"
  shows "\<exists>j \<le> k. strstr a c = Some j"
proof -
  have "a = take k a @ c @ drop (length c) (drop k a)"
    using assms(1) by (metis append_take_drop_id)
  with strstr_append_needle [of "take k a" c "drop (length c) (drop k a)"] assms(2) show ?thesis by simp
qed

text \<open>
  \<open>strtok\<close>, called until it gives NULL: the maximal runs of characters that are no
  delimiters.
\<close>

fun strtok_tokens :: "(char \<Rightarrow> bool) \<Rightarrow> string \<Rightarrow> string \<Rightarrow> string list" where
  "strtok_tokens d acc [] = (if acc = [] then [] else [rev acc])"
| "strtok_tokens d acc (x # xs) =
     (if d x then (if acc = [] then [] else [rev acc]) @ strtok_tokens d [] xs
      else strtok_tokens d (x # acc) xs)"

definition strtok :: "string \<Rightarrow> string \<Rightarrow> string list" where
  "strtok s delims = strtok_tokens (\<lambda>c. c \<in> set delims) [] s"

lemma strtok_tokens_props:
  "t \<in> set (strtok_tokens d acc s) \<Longrightarrow> \<forall>c \<in> set acc. \<not> d c \<Longrightarrow>
     t \<noteq> [] \<and> (\<forall>c \<in> set t. \<not> d c)"
  by (induction d acc s rule: strtok_tokens.induct) (auto split: if_splits)

lemma strtok_token:
  "t \<in> set (strtok s delims) \<Longrightarrow> t \<noteq> [] \<and> set t \<inter> set delims = {}"
  using strtok_tokens_props [of t "\<lambda>c. c \<in> set delims" "[]" s] by (auto simp: strtok_def)

lemma strtok_tokens_run:
  "\<forall>c \<in> set s. \<not> d c \<Longrightarrow> strtok_tokens d acc (s @ t) = strtok_tokens d (rev s @ acc) t"
  by (induction s arbitrary: acc) auto

text \<open>\<open>strcmp\<close>: zero exactly on equal strings.\<close>

fun strcmp :: "string \<Rightarrow> string \<Rightarrow> int" where
  "strcmp [] [] = 0"
| "strcmp [] (y # ys) = - int (of_char y + 1)"
| "strcmp (x # xs) [] = int (of_char x + 1)"
| "strcmp (x # xs) (y # ys) =
     (if x = y then strcmp xs ys else int (of_char x) - int (of_char y))"

lemma strcmp_eq_0 [simp]: "strcmp s t = 0 \<longleftrightarrow> s = t"
proof (induction s t rule: strcmp.induct)
  case (4 x xs y ys)
  have "int (of_char x) \<noteq> int (of_char y)" if "x \<noteq> y"
    using that by (simp only: of_nat_eq_iff of_char_eq_iff not_False_eq_True)
  with 4 show ?case by auto
qed simp_all

text \<open>The parts of a string between the occurrences of a character; at least one.\<close>

fun split_on :: "char \<Rightarrow> string \<Rightarrow> string list" where
  "split_on d [] = [[]]"
| "split_on d (c # cs) =
     (if c = d then [] # split_on d cs
      else case split_on d cs of [] \<Rightarrow> [[c]] | w # ws \<Rightarrow> (c # w) # ws)"

lemma split_on_nonempty [simp]: "split_on d s \<noteq> []"
  by (induction s) (auto split: list.splits)

lemma split_on_append: "split_on d (a @ d # b) = split_on d a @ split_on d b"
proof (induction a)
  case (Cons c a)
  then show ?case by (cases "split_on d a") auto
qed simp

lemma split_on_join_ends:
  "split_on d (a @ b) =
     butlast (split_on d a) @ (last (split_on d a) @ hd (split_on d b)) # tl (split_on d b)"
proof (induction a)
  case Nil
  then show ?case by simp
next
  case (Cons c a)
  obtain w ws where "split_on d a = w # ws" by (cases "split_on d a") auto
  with Cons show ?case by (cases "c = d"; cases ws) auto
qed

lemma split_on_single: "d \<notin> set s \<Longrightarrow> split_on d s = [s]"
  by (induction s) auto

fun join_with :: "char \<Rightarrow> string list \<Rightarrow> string" where
  "join_with c [] = []"
| "join_with c [x] = x"
| "join_with c (x # y # ys) = x @ c # join_with c (y # ys)"

lemma join_with_Cons: "xs \<noteq> [] \<Longrightarrow> join_with c (x # xs) = x @ c # join_with c xs"
  by (cases xs) auto

lemma join_split [simp]: "join_with d (split_on d s) = s"
proof (induction s)
  case (Cons c s)
  show ?case
  proof (cases "c = d")
    case True
    with Cons show ?thesis by (simp add: join_with_Cons)
  next
    case False
    obtain w ws where "split_on d s = w # ws" by (cases "split_on d s") auto
    with Cons False show ?thesis by (cases ws) auto
  qed
qed simp

lemma split_on_parts: "x \<in> set (split_on d s) \<Longrightarrow> d \<notin> set x"
proof (induction s arbitrary: x)
  case (Cons c s)
  then show ?case by (cases "split_on d s") (auto split: if_splits)
qed simp

lemma sublist_join: "x \<in> set xs \<Longrightarrow> sublist x (join_with d xs)"
proof (induction d xs rule: join_with.induct)
  case (3 c y z zs)
  show ?case
  proof (cases "x = y")
    case True
    then show ?thesis by (simp add: sublist_appendI [of _ "[]", simplified])
  next
    case False
    with 3 obtain u v where "join_with c (z # zs) = u @ x @ v" by (auto simp: sublist_def)
    then show ?thesis using sublist_appendI [of x "y @ c # u" v] by simp
  qed
qed simp_all

lemma split_join: "xs \<noteq> [] \<Longrightarrow> \<forall>x \<in> set xs. d \<notin> set x \<Longrightarrow> split_on d (join_with d xs) = xs"
  by (induction d xs rule: join_with.induct) (auto simp: split_on_append split_on_single)

lemma length_split_on: "length (split_on d s) = Suc (count_list s d)"
proof (induction s)
  case (Cons c s)
  then show ?case by (cases "split_on d s") auto
qed simp

section \<open>Characters\<close>

definition isspace :: "char \<Rightarrow> bool" where
  "isspace c \<longleftrightarrow> c \<in> {CHR '' '', CHR 0x09, CHR 0x0A, CHR 0x0B, CHR 0x0C, CHR 0x0D}"

definition isupper :: "char \<Rightarrow> bool" where
  "isupper c \<longleftrightarrow> 65 \<le> (of_char c :: nat) \<and> (of_char c :: nat) \<le> 90"

definition tolower :: "char \<Rightarrow> char" where
  "tolower c = (if isupper c then char_of ((of_char c :: nat) + 32) else c)"

lemma tolower_NUL [simp]: "tolower NUL = NUL"
  by (simp add: tolower_def isupper_def NUL_def)

lemma tolower_eq_NUL [simp]: "tolower c = NUL \<longleftrightarrow> c = NUL"
proof
  assume l: "tolower c = NUL"
  show "c = NUL"
  proof (cases "isupper c")
    case True
    then have b: "(of_char c :: nat) + 32 < 256" by (simp add: isupper_def)
    from l True have "(of_char (char_of ((of_char c :: nat) + 32) :: char) :: nat) = of_char NUL"
      by (simp add: tolower_def)
    with b have "(of_char c :: nat) + 32 = 0" by (simp add: NUL_def)
    then show ?thesis by simp
  next
    case False
    with l show ?thesis by (simp add: tolower_def)
  qed
qed simp

lemma tolower_idem [simp]: "tolower (tolower c) = tolower c"
proof (cases "isupper c")
  case True
  then have "(of_char c :: nat) + 32 < 256" by (simp add: isupper_def)
  then show ?thesis using True
    by (simp add: tolower_def isupper_def)
qed (simp add: tolower_def)

section \<open>Lists\<close>

lemma takeWhile_append_stop: "\<forall>x \<in> set xs. P x \<Longrightarrow> \<not> P y \<Longrightarrow> takeWhile P (xs @ y # ys) = xs"
  by (simp add: takeWhile_append2)

lemma list_update_take_drop:
  "i < length xs \<Longrightarrow> xs[i := x] = take i xs @ x # drop (Suc i) xs"
  by (rule upd_conv_take_nth_drop)

lemma separator_eq:
  "c \<notin> set x \<Longrightarrow> c \<notin> set y \<Longrightarrow> x @ c # a = y @ c # b \<longleftrightarrow> x = y \<and> a = b"
proof (induction x arbitrary: y)
  case Nil
  then show ?case by (cases y) auto
next
  case (Cons d x)
  then show ?case by (cases y) auto
qed

text \<open>The pointers of a list that are not NULL.\<close>

fun somes :: "'a option list \<Rightarrow> 'a list" where
  "somes [] = []"
| "somes (None # xs) = somes xs"
| "somes (Some x # xs) = x # somes xs"

lemma somes_map_Some [simp]: "somes (map Some xs) = xs"
  by (induction xs) auto

lemma map_Some_somes: "None \<notin> set xs \<Longrightarrow> map Some (somes xs) = xs"
  by (induction xs rule: somes.induct) auto

section \<open>Step relations\<close>

text \<open>
  The states reachable from \<open>init\<close> by \<open>step\<close>. A component that is a state machine
  interprets \<open>transition_system\<close> with its invariant and obtains \<open>reachable_inv\<close>.
\<close>

inductive reachable :: "('s \<Rightarrow> bool) \<Rightarrow> ('s \<Rightarrow> 's \<Rightarrow> bool) \<Rightarrow> 's \<Rightarrow> bool"
  for init :: "'s \<Rightarrow> bool" and step :: "'s \<Rightarrow> 's \<Rightarrow> bool" where
  reachable_init: "init s \<Longrightarrow> reachable init step s"
| reachable_step: "reachable init step s \<Longrightarrow> step s t \<Longrightarrow> reachable init step t"

locale transition_system =
  fixes init :: "'s \<Rightarrow> bool"
    and step :: "'s \<Rightarrow> 's \<Rightarrow> bool"
    and inv :: "'s \<Rightarrow> bool"
  assumes inv_init: "init s \<Longrightarrow> inv s"
    and inv_step: "inv s \<Longrightarrow> step s t \<Longrightarrow> inv t"
begin

lemma reachable_inv: "reachable init step s \<Longrightarrow> inv s"
  by (induction rule: reachable.induct) (auto intro: inv_init inv_step)

end

end
