(* ===== verification/LoggerStrings.thy ===== *)
theory LoggerStrings
  imports CPrelude
begin

text \<open>
  The string helpers of \<^verbatim>\<open>logger/src/ldlogger-util.c\<close>: duplication (\<open>loggerStrNDup\<close>,
  \<open>loggerStrDup\<close>), the parts of a path (\<open>loggerGetFileName\<close>, \<open>loggerGetFileExt\<close>,
  \<open>loggerGetFileDir\<close>, \<open>loggerGetFilePathWithoutExt\<close>) and the escaping of a command-line
  word (\<open>shellEscapeStr\<close>).

  \<open>alloc n\<close> says whether \<open>malloc\<close> grants a request of \<open>n\<close> bytes; a NULL result is \<open>None\<close>.
  Each operation is followed by the closed form the later components use.
\<close>

section \<open>Duplication\<close>

definition loggerStrNDup :: "(nat \<Rightarrow> bool) \<Rightarrow> string \<Rightarrow> nat \<Rightarrow> string option" where
  "loggerStrNDup alloc str n =
     (let len = length str;
          len = (if len > n then n else len)
      in if \<not> alloc (len + 1) then None else Some (take len str))"

definition loggerStrDup :: "(nat \<Rightarrow> bool) \<Rightarrow> string \<Rightarrow> string option" where
  "loggerStrDup alloc str = loggerStrNDup alloc str (length str)"

lemma loggerStrNDup_Some:
  "loggerStrNDup alloc s n = Some t \<longleftrightarrow> t = take n s \<and> alloc (Suc (length t))"
  by (auto simp: loggerStrNDup_def Let_def min_def)

lemma loggerStrDup_eq [simp]:
  "loggerStrDup alloc s = (if alloc (Suc (length s)) then Some s else None)"
  by (simp add: loggerStrDup_def loggerStrNDup_def)

section \<open>Parts of a path\<close>

text \<open>
  \<open>fileName[1] == 0\<close> is read at the position of the last slash: nothing follows it.
\<close>

definition loggerGetFileName :: "(nat \<Rightarrow> bool) \<Rightarrow> string \<Rightarrow> bool \<Rightarrow> string option" where
  "loggerGetFileName alloc absPath withoutExt =
     (case strrchr absPath (CHR ''/'') of
        None \<Rightarrow> None
      | Some slash \<Rightarrow>
          let fileName = drop (Suc slash) absPath in
          if fileName = [] then None
          else if withoutExt then
            (case strrchr fileName (CHR ''.'') of
               Some extpos \<Rightarrow> loggerStrNDup alloc fileName extpos
             | None \<Rightarrow> loggerStrDup alloc fileName)
          else loggerStrDup alloc fileName)"

text \<open>
  The copy loop of \<open>loggerGetFileExt\<close>: the extension is moved, character by character, to
  the start of the same buffer (\<open>ext\<close> points into \<open>fname\<close> at offset \<open>off\<close>).
\<close>

function ext_copy :: "(char \<Rightarrow> char) \<Rightarrow> nat \<Rightarrow> nat \<Rightarrow> nat \<Rightarrow> string \<Rightarrow> string" where
  "ext_copy f off sz i buf =
     (if i < sz then ext_copy f off sz (Suc i) (buf[i := f (buf ! (off + i))]) else buf)"
  by pat_completeness auto
termination
  by (relation "measure (\<lambda>(f, off, sz, i, buf). sz - i)") auto

declare ext_copy.simps [simp del]

definition loggerGetFileExt :: "(nat \<Rightarrow> bool) \<Rightarrow> string \<Rightarrow> bool \<Rightarrow> string option" where
  "loggerGetFileExt alloc path tolow =
     (case loggerGetFileName alloc path False of
        None \<Rightarrow> None
      | Some fname \<Rightarrow>
          (case strrchr fname (CHR ''.'') of
             None \<Rightarrow> None
           | Some e \<Rightarrow>
               let off = Suc e;
                   sz = length (drop off fname) + 1;
                   buf = ext_copy (\<lambda>c. if tolow then tolower c else c) off sz 0 (fname @ [NUL])
               in Some (takeWhile (\<lambda>c. c \<noteq> NUL) buf)))"

definition loggerGetFileDir :: "(nat \<Rightarrow> bool) \<Rightarrow> string \<Rightarrow> string option" where
  "loggerGetFileDir alloc absPath =
     (case strrchr absPath (CHR ''/'') of
        Some slashPos \<Rightarrow>
          if slashPos = 0 then loggerStrDup alloc ''/''
          else loggerStrNDup alloc absPath slashPos
      | None \<Rightarrow> None)"

definition loggerGetFilePathWithoutExt :: "(nat \<Rightarrow> bool) \<Rightarrow> string \<Rightarrow> string option" where
  "loggerGetFilePathWithoutExt alloc absPath =
     (case strrchr absPath (CHR ''.'') of
        Some extpos \<Rightarrow> loggerStrNDup alloc absPath extpos
      | None \<Rightarrow> loggerStrDup alloc absPath)"

subsection \<open>The in-place copy reads what it has not yet overwritten\<close>

lemma ext_copy_take_drop:
  "0 < off \<Longrightarrow> off + sz \<le> length buf \<Longrightarrow> i \<le> sz \<Longrightarrow>
     ext_copy f off sz i buf = take i buf @ map f (take (sz - i) (drop (off + i) buf)) @ drop sz buf"
proof (induction f off sz i buf rule: ext_copy.induct)
  case (1 f off sz i buf)
  show ?case
  proof (cases "i < sz")
    case True
    let ?b = "buf[i := f (buf ! (off + i))]"
    have len: "i < length buf" "off + i < length buf" using True "1.prems" by simp_all
    have IH: "ext_copy f off sz (Suc i) ?b =
        take (Suc i) ?b @ map f (take (sz - Suc i) (drop (off + Suc i) ?b)) @ drop sz ?b"
      using True "1.prems" by (intro "1.IH") auto
    have a: "take (Suc i) ?b = take i buf @ [f (buf ! (off + i))]"
      using len by (simp add: take_Suc_conv_app_nth)
    have b: "drop (off + Suc i) ?b = drop (off + Suc i) buf"
      using "1.prems" by (simp add: drop_update_cancel)
    have c: "drop sz ?b = drop sz buf"
      using True by (simp add: drop_update_cancel)
    have d: "take (sz - i) (drop (off + i) buf) =
        buf ! (off + i) # take (sz - Suc i) (drop (off + Suc i) buf)"
      using True len by (metis Cons_nth_drop_Suc Suc_diff_Suc add_Suc_right take_Suc_Cons)
    have "ext_copy f off sz i buf = ext_copy f off sz (Suc i) ?b"
      using True by (simp add: ext_copy.simps [of f off sz i buf])
    also have "\<dots> = take i buf @ map f (take (sz - i) (drop (off + i) buf)) @ drop sz buf"
      by (simp only: IH a b c d list.map append_assoc append.simps)
    finally show ?thesis .
  next
    case False
    then have "ext_copy f off sz i buf = buf" by (simp add: ext_copy.simps [of f off sz i buf])
    moreover from False "1.prems" have "i = sz" by simp
    ultimately show ?thesis by simp
  qed
qed

lemma ext_copy_result:
  assumes "e < length s" and "NUL \<notin> set s" and f: "\<And>c. f c = NUL \<longleftrightarrow> c = NUL"
  shows "takeWhile (\<lambda>c. c \<noteq> NUL)
           (ext_copy f (Suc e) (length (drop (Suc e) s) + 1) 0 (s @ [NUL])) = map f (drop (Suc e) s)"
proof -
  let ?n = "length (drop (Suc e) s) + 1"
  have "take ?n (drop (Suc e) (s @ [NUL])) = drop (Suc e) s @ [NUL]"
    using assms(1) by simp
  then have "ext_copy f (Suc e) ?n 0 (s @ [NUL]) =
      map f (drop (Suc e) s) @ f NUL # drop ?n (s @ [NUL])"
    using ext_copy_take_drop [of "Suc e" ?n "s @ [NUL]" 0 f] assms(1) by simp
  moreover have "\<forall>c \<in> set (map f (drop (Suc e) s)). c \<noteq> NUL"
    using assms(2) f by (auto dest: in_set_dropD)
  moreover have "\<not> f NUL \<noteq> NUL" using f by simp
  ultimately show ?thesis
    using takeWhile_append_stop [of "map f (drop (Suc e) s)" "\<lambda>c. c \<noteq> NUL" "f NUL"] by simp
qed

section \<open>Closed forms\<close>

text \<open>The last component of a path, and the part of a name after its last dot.\<close>

definition path_base :: "string \<Rightarrow> string option" where
  "path_base p =
     (case strrchr p (CHR ''/'') of
        Some i \<Rightarrow> if drop (Suc i) p = [] then None else Some (drop (Suc i) p)
      | None \<Rightarrow> None)"

definition path_ext :: "string \<Rightarrow> string option" where
  "path_ext p =
     (case path_base p of
        Some b \<Rightarrow> map_option (\<lambda>e. drop (Suc e) b) (strrchr b (CHR ''.''))
      | None \<Rightarrow> None)"

lemma path_base_join [simp]:
  "b \<noteq> [] \<Longrightarrow> CHR ''/'' \<notin> set b \<Longrightarrow> path_base (d @ CHR ''/'' # b) = Some b"
  by (simp add: path_base_def strrchr_last)

lemma path_base_no_slash: "CHR ''/'' \<notin> set p \<Longrightarrow> path_base p = None"
  by (simp add: path_base_def strrchr_None [THEN iffD2])

lemma path_ext_join:
  "CHR ''/'' \<notin> set b \<Longrightarrow> CHR ''/'' \<notin> set x \<Longrightarrow> CHR ''.'' \<notin> set x \<Longrightarrow>
     path_ext (d @ CHR ''/'' # b @ CHR ''.'' # x) = Some x"
  by (simp add: path_ext_def strrchr_last)

lemma loggerGetFileName_False:
  "loggerGetFileName alloc p False =
     (case path_base p of Some b \<Rightarrow> loggerStrDup alloc b | None \<Rightarrow> None)"
  by (auto simp: loggerGetFileName_def path_base_def Let_def split: option.splits)

lemma path_base_subset: "path_base p = Some b \<Longrightarrow> set b \<subseteq> set p"
  by (auto simp: path_base_def split: option.splits if_splits dest: in_set_dropD)

lemma loggerGetFileExt_eq:
  assumes "NUL \<notin> set p"
  shows "loggerGetFileExt alloc p t =
     (case path_base p of
        Some b \<Rightarrow>
          if alloc (Suc (length b))
          then map_option (map (\<lambda>c. if t then tolower c else c)) (path_ext p) else None
      | None \<Rightarrow> None)"
proof (cases "path_base p")
  case None
  then show ?thesis by (simp add: loggerGetFileExt_def loggerGetFileName_False)
next
  case (Some b)
  with assms have nul: "NUL \<notin> set b" using path_base_subset by blast
  show ?thesis
  proof (cases "alloc (Suc (length b))")
    case False
    with Some show ?thesis
      by (simp add: loggerGetFileExt_def loggerGetFileName_False)
  next
    case True
    show ?thesis
    proof (cases "strrchr b (CHR ''.'')")
      case None
      with \<open>path_base p = Some b\<close> True show ?thesis
        by (simp add: loggerGetFileExt_def loggerGetFileName_False path_ext_def)
    next
      case (Some e)
      have "e < length b" using Some strrchr_SomeD by blast
      from ext_copy_result [OF this nul, of "\<lambda>c. if t then tolower c else c"]
        \<open>path_base p = Some b\<close> True Some
      show ?thesis
        by (simp add: loggerGetFileExt_def loggerGetFileName_False path_ext_def Let_def)
    qed
  qed
qed

section \<open>Escaping\<close>

definition BSLASH :: char where "BSLASH = CHR 0x5C"
definition DQUOTE :: char where "DQUOTE = CHR 0x22"
definition TAB :: char where "TAB = CHR 0x09"

fun shell_escape_loop :: "string \<Rightarrow> string" where
  "shell_escape_loop [] = []"
| "shell_escape_loop (c # cs) =
     (if c = BSLASH \<or> c = DQUOTE \<or> c = TAB then BSLASH # c # shell_escape_loop cs
      else c # shell_escape_loop cs)"

definition shellEscapeStr :: "string \<Rightarrow> string" where
  "shellEscapeStr str =
     (let hasSpace = strchr str (CHR '' '') \<noteq> None;
          q = (if hasSpace then [BSLASH, DQUOTE] else [])
      in q @ shell_escape_loop str @ q)"

lemma length_shell_escape_loop:
  "length (shell_escape_loop s) =
     length s + length (filter (\<lambda>c. c = BSLASH \<or> c = DQUOTE \<or> c = TAB) s)"
  by (induction s) auto

lemma shell_escape_loop_bound: "length (shell_escape_loop s) \<le> 2 * length s"
  by (induction s) auto

lemma shell_escape_loop_space:
  "CHR '' '' \<in> set s \<Longrightarrow> length (shell_escape_loop s) < 2 * length s"
proof (induction s)
  case (Cons c s)
  then show ?case
    using shell_escape_loop_bound [of s]
    by (auto simp: BSLASH_def DQUOTE_def TAB_def)
qed simp

lemma shellEscapeStr_no_space:
  "CHR '' '' \<notin> set s \<Longrightarrow> shellEscapeStr s = shell_escape_loop s"
  by (simp add: shellEscapeStr_def strchr_None)

lemma shellEscapeStr_space:
  "CHR '' '' \<in> set s \<Longrightarrow>
     shellEscapeStr s = BSLASH # DQUOTE # shell_escape_loop s @ [BSLASH, DQUOTE]"
  by (simp add: shellEscapeStr_def strchr_None)

lemma shellEscapeStr_bound: "length (shellEscapeStr s) \<le> 2 * length s + 3"
proof (cases "CHR '' '' \<in> set s")
  case True
  with shell_escape_loop_space [OF True] show ?thesis by (simp add: shellEscapeStr_space)
next
  case False
  with shell_escape_loop_bound [of s] show ?thesis by (simp add: shellEscapeStr_no_space)
qed

text \<open>The number of characters of a word that are escaped.\<close>

definition special_count :: "string \<Rightarrow> nat" where
  "special_count s = length (filter (\<lambda>c. c = BSLASH \<or> c = DQUOTE \<or> c = TAB) s)"

section \<open>Properties\<close>

text \<open>
  When memory is granted, \<open>loggerGetFileExt\<close> gives an extension exactly for a path with a
  slash whose last component has a dot, namely what follows the last dot (in lower case when
  asked to); the copy onto the start of the same buffer loses nothing.
\<close>

theorem file_extension_correct:
  assumes "NUL \<notin> set p" and mem: "\<And>n. alloc n"
  shows "loggerGetFileExt alloc p t = Some e \<longleftrightarrow>
    (\<exists>d b x. p = d @ ''/'' @ b @ ''.'' @ x \<and> CHR ''/'' \<notin> set (b @ x) \<and> CHR ''.'' \<notin> set x \<and>
      e = map (\<lambda>c. if t then tolower c else c) x)" (is "?l \<longleftrightarrow> ?r")
proof
  assume ?l
  then obtain b x where b: "path_base p = Some b" "path_ext p = Some x"
      "e = map (\<lambda>c. if t then tolower c else c) x"
    by (auto simp: loggerGetFileExt_eq [OF assms(1)] split: option.splits if_splits)
  from b(1) obtain i where i: "strrchr p (CHR ''/'') = Some i" "b = drop (Suc i) p"
    by (auto simp: path_base_def split: option.splits if_splits)
  from b(1,2) obtain k where k: "strrchr b (CHR ''.'') = Some k" "x = drop (Suc k) b"
    by (auto simp: path_ext_def)
  note strrchr_split [OF i(1)] strrchr_split [OF k(1)]
  then have "p = take i p @ ''/'' @ take k b @ ''.'' @ x" "CHR ''/'' \<notin> set b" "CHR ''.'' \<notin> set x"
    using i(2) k(2) by simp_all
  moreover from this(2) k(2) have "CHR ''/'' \<notin> set (take k b @ x)"
    by (auto dest: in_set_takeD in_set_dropD)
  ultimately show ?r using b(3) by blast
next
  assume ?r
  then show ?l using mem path_ext_join
    by (auto simp: loggerGetFileExt_eq [OF assms(1)])
qed

theorem file_extension_correct_witness:
  "loggerGetFileExt (\<lambda>_. True) ''/w/x.tar.CPP'' True = Some ''cpp''"
proof -
  have nul: "NUL \<notin> set ''/w/x.tar.CPP''" by (simp add: NUL_def)
  have low: "''cpp'' = map (\<lambda>c. if True then tolower c else c) ''CPP''" by code_simp
  have parts: "''/w/x.tar.CPP'' = ''/w'' @ ''/'' @ ''x.tar'' @ ''.'' @ ''CPP''"
    "CHR ''/'' \<notin> set (''x.tar'' @ ''CPP'')" "CHR ''.'' \<notin> set ''CPP''" by simp_all
  show ?thesis
    by (rule iffD2 [OF file_extension_correct [OF nul TrueI]]) 
      (intro exI conjI, rule parts(1), rule parts(2), rule parts(3), rule low)
qed

text \<open>
  The size of an escaped word is its length, plus one for each backslash, quote and tab, plus
  four if it has a space. So the buffer of \<open>2 n + 1\<close> bytes that the header recommends is too
  small for a word of \<open>n\<close> characters exactly when it has a space and less than four characters that
  need no escape; \<open>2 n + 4\<close> bytes are always enough.
\<close>

theorem shell_escape_size:
  "length (shellEscapeStr s) = length s + special_count s + (if CHR '' '' \<in> set s then 4 else 0) \<and>
    (2 * length s + 1 \<le> length (shellEscapeStr s) \<longleftrightarrow>
       CHR '' '' \<in> set s \<and> length (filter (\<lambda>c. \<not> (c = BSLASH \<or> c = DQUOTE \<or> c = TAB)) s) < 4) \<and>
    length (shellEscapeStr s) < 2 * length s + 4"
proof -
  have len: "length (shellEscapeStr s) = length s + special_count s + (if CHR '' '' \<in> set s then 4 else 0)"
    by (simp add: special_count_def shellEscapeStr_def Let_def strchr_None length_shell_escape_loop)
  moreover have "special_count s + length (filter (\<lambda>c. \<not> (c = BSLASH \<or> c = DQUOTE \<or> c = TAB)) s) = length s"
    unfolding special_count_def by (rule sum_length_filter_compl)
  moreover have "length (shellEscapeStr s) < 2 * length s + 4"
    using shellEscapeStr_bound [of s] by simp
  ultimately show ?thesis by auto
qed

end
