(* ===== verification/LoggerVector.thy ===== *)
theory LoggerVector
  imports CPrelude "HOL-Library.Multiset"
begin

text \<open>
  \<^verbatim>\<open>LoggerVector\<close> of \<^verbatim>\<open>logger/src/ldlogger-util.h\<close> and \<^verbatim>\<open>ldlogger-util.c\<close>: a growable array of
  pointers with an optional destructor.

  A pointer is an \<open>'a option\<close> (\<open>None\<close> is NULL, and also the content of a slot that was
  never written); \<open>vec_data\<close> is \<open>None\<close> when the \<open>data\<close> pointer is NULL. \<open>vec_freed\<close> is a
  ghost log of the elements passed to \<open>dataFree\<close>, in order. \<open>vec_ok\<close> is the representation
  invariant and \<open>vec_list\<close> the abstract list. The last sections prove that the operations
  implement the list operations (interface \<open>unique_store\<close>) and where
  \<open>loggerVectorAddFrom\<close> does not.
\<close>

section \<open>Data\<close>

record 'a vec =
  vec_size :: nat
  vec_capacity :: nat
  vec_dataFree :: bool
  vec_data :: "'a option list option"
  vec_freed :: "'a list"

definition slots :: "'a vec \<Rightarrow> 'a option list" where
  "slots v = (case vec_data v of None \<Rightarrow> [] | Some xs \<Rightarrow> xs)"

definition vec_list :: "'a vec \<Rightarrow> 'a list" where
  "vec_list v = somes (take (vec_size v) (slots v))"

definition vec_ok :: "'a vec \<Rightarrow> bool" where
  "vec_ok v \<longleftrightarrow>
     length (slots v) = vec_capacity v \<and> vec_size v \<le> vec_capacity v \<and>
     None \<notin> set (take (vec_size v) (slots v)) \<and> vec_capacity v < SIZE_MAX"

text \<open>
  \<open>malloc\<close> and \<open>realloc\<close> of \<open>n\<close> pointers of 8 bytes; no request beyond \<open>SIZE_MAX\<close> bytes is
  granted.
\<close>

definition grants :: "(nat \<Rightarrow> bool) \<Rightarrow> nat \<Rightarrow> bool" where
  "grants alloc n \<longleftrightarrow> 8 * n \<le> SIZE_MAX \<and> alloc (8 * n)"

definition vec_grow :: "(nat \<Rightarrow> bool) \<Rightarrow> nat \<Rightarrow> 'a vec \<Rightarrow> 'a vec option" where
  "vec_grow alloc n v =
     (if grants alloc n
      then Some (v\<lparr>vec_data := Some (slots v @ replicate (n - length (slots v)) None),
                  vec_capacity := n\<rparr>)
      else None)"

definition vec_free :: "'a option list \<Rightarrow> 'a vec \<Rightarrow> 'a vec" where
  "vec_free ps v = (if vec_dataFree v then v\<lparr>vec_freed := vec_freed v @ somes ps\<rparr> else v)"

section \<open>Operations\<close>

definition loggerVectorInitAdv :: "(nat \<Rightarrow> bool) \<Rightarrow> nat \<Rightarrow> bool \<Rightarrow> bool \<times> 'a vec" where
  "loggerVectorInitAdv alloc cap freeFunc =
     (let v = \<lparr>vec_size = 0, vec_capacity = cap, vec_dataFree = freeFunc,
               vec_data = None, vec_freed = []\<rparr>
      in if cap > 0 then
           (if grants alloc cap then (True, v\<lparr>vec_data := Some (replicate cap None)\<rparr>)
            else (False, v))
         else (True, v))"

definition loggerVectorInit :: "(nat \<Rightarrow> bool) \<Rightarrow> bool \<times> 'a vec" where
  "loggerVectorInit alloc = loggerVectorInitAdv alloc 10 True"

definition loggerVectorClear :: "'a vec \<Rightarrow> 'a vec" where
  "loggerVectorClear v =
     (case vec_data v of
        None \<Rightarrow> v
      | Some xs \<Rightarrow>
          (vec_free (take (vec_size v) xs) v)
            \<lparr>vec_data := None, vec_capacity := 0, vec_size := 0\<rparr>)"

definition loggerVectorAdd ::
    "(nat \<Rightarrow> bool) \<Rightarrow> 'a vec \<Rightarrow> 'a option \<Rightarrow> fault + (int \<times> 'a vec)" where
  "loggerVectorAdd alloc v d =
     (if d = None then Inr (0, v)
      else
        case (if vec_size v = vec_capacity v
              then vec_grow alloc (if vec_capacity v \<noteq> 0 then vec_capacity v * 2 else 10) v
              else Some v) of
          None \<Rightarrow> Inr (0, v)
        | Some v' \<Rightarrow>
            (case vec_data v' of
               None \<Rightarrow> Inl Null_Deref
             | Some xs \<Rightarrow>
                 if vec_size v' < length xs
                 then Inr (1, v'\<lparr>vec_data := Some (xs[vec_size v' := d]),
                                 vec_size := vec_size v' + 1\<rparr>)
                 else Inl Out_Of_Bounds))"

text \<open>The search loop; \<open>cmp\<close> dereferences both of its arguments.\<close>

fun find_loop :: "('a \<Rightarrow> 'a \<Rightarrow> int) \<Rightarrow> 'a option \<Rightarrow> nat \<Rightarrow> 'a option list \<Rightarrow> fault + nat" where
  "find_loop cmp d i [] = Inr SIZE_MAX"
| "find_loop cmp d i (x # xs) =
     (case (d, x) of
        (Some a, Some b) \<Rightarrow> if cmp a b = 0 then Inr i else find_loop cmp d (Suc i) xs
      | _ \<Rightarrow> Inl Null_Deref)"

definition loggerVectorFind ::
    "'a vec \<Rightarrow> 'a option \<Rightarrow> ('a \<Rightarrow> 'a \<Rightarrow> int) \<Rightarrow> fault + nat" where
  "loggerVectorFind v d cmp =
     (if vec_size v \<le> length (slots v) then find_loop cmp d 0 (take (vec_size v) (slots v))
      else Inl Out_Of_Bounds)"

definition loggerVectorAddUnique ::
    "(nat \<Rightarrow> bool) \<Rightarrow> 'a vec \<Rightarrow> 'a option \<Rightarrow> ('a \<Rightarrow> 'a \<Rightarrow> int) \<Rightarrow> fault + (int \<times> 'a vec)" where
  "loggerVectorAddUnique alloc v d cmp =
     bindC (loggerVectorFind v d cmp) (\<lambda>i.
       if i \<noteq> SIZE_MAX then Inr (2, vec_free [d] v) else loggerVectorAdd alloc v d)"

function erase_shift :: "nat \<Rightarrow> nat \<Rightarrow> 'a list \<Rightarrow> 'a list" where
  "erase_shift i n xs = (if i < n then erase_shift (Suc i) n (xs[i - 1 := xs ! i]) else xs)"
  by pat_completeness auto
termination
  by (relation "measure (\<lambda>(i, n, xs). n - i)") auto

declare erase_shift.simps [simp del]

definition loggerVectorErase :: "'a vec \<Rightarrow> nat \<Rightarrow> fault + 'a vec" where
  "loggerVectorErase v index =
     (if index \<ge> vec_size v then Inr v
      else if vec_size v > length (slots v) then Inl Out_Of_Bounds
      else
        let v' = vec_free [slots v ! index] v
        in Inr (v'\<lparr>vec_data := Some (erase_shift (index + 1) (vec_size v) (slots v)),
                   vec_size := vec_size v - 1\<rparr>))"

text \<open>
  The loop that moves the tail of the vector, \<open>for (i = size - 1; i >= insPos; --i)\<close>. \<open>i\<close> is
  a \<open>size_t\<close>: after 0 comes \<open>SIZE_MAX\<close>, which is an index of no object.
\<close>

function move_up :: "nat \<Rightarrow> nat \<Rightarrow> nat \<Rightarrow> 'a option list \<Rightarrow> fault + 'a option list" where
  "move_up i insPos n xs =
     (if i < insPos then Inr xs
      else if i \<ge> SIZE_MAX \<or> i \<ge> length xs \<or> i + n \<ge> length xs then Inl Out_Of_Bounds
      else move_up (if i = 0 then SIZE_MAX else i - 1) insPos n (xs[i + n := xs ! i, i := None]))"
  by pat_completeness auto
termination
  by (relation "measure (\<lambda>(i, insPos, n, xs). if i \<ge> SIZE_MAX then 0 else Suc i)") auto

declare move_up.simps [simp del]

fun put_dups ::
    "('a \<Rightarrow> 'a option) \<Rightarrow> 'a option list \<Rightarrow> nat \<Rightarrow> 'a option list \<Rightarrow> fault + 'a option list" where
  "put_dups dup [] i xs = Inr xs"
| "put_dups dup (None # ss) i xs = Inl Null_Deref"
| "put_dups dup (Some a # ss) i xs =
     (if i < length xs then put_dups dup ss (Suc i) (xs[i := dup a]) else Inl Out_Of_Bounds)"

definition loggerVectorAddFrom ::
    "(nat \<Rightarrow> bool) \<Rightarrow> 'a vec \<Rightarrow> 'a vec \<Rightarrow> nat option \<Rightarrow> ('a \<Rightarrow> 'a option) \<Rightarrow>
       fault + (int \<times> 'a vec)" where
  "loggerVectorAddFrom alloc v source position dup =
     bindC (assertC (case position of None \<Rightarrow> True | Some p \<Rightarrow> p \<le> vec_size v)) (\<lambda>_.
       let reqCap = vec_size v + vec_size source;
           insPos = (case position of Some p \<Rightarrow> p | None \<Rightarrow> vec_size v)
       in case (if vec_capacity v < reqCap then vec_grow alloc reqCap v else Some v) of
            None \<Rightarrow> Inr (0, v)
          | Some v' \<Rightarrow>
              bindC (if insPos < vec_size v
                     then move_up (vec_size v - 1) insPos (vec_size source) (slots v')
                     else Inr (slots v')) (\<lambda>xs.
              bindC (put_dups dup (take (vec_size source) (slots source)) insPos xs) (\<lambda>ys.
              Inr (1, v'\<lparr>vec_data := (if vec_data v' = None then None else Some ys),
                         vec_size := vec_size v + vec_size source\<rparr>))))"

section \<open>The representation invariant\<close>

lemma vec_ok_size: "vec_ok v \<Longrightarrow> length (vec_list v) = vec_size v"
proof -
  assume ok: "vec_ok v"
  then have "map Some (vec_list v) = take (vec_size v) (slots v)"
    by (simp add: vec_ok_def vec_list_def map_Some_somes)
  then have "length (vec_list v) = length (take (vec_size v) (slots v))"
    by (metis length_map)
  with ok show ?thesis by (simp add: vec_ok_def)
qed

lemma vec_ok_slots: "vec_ok v \<Longrightarrow> take (vec_size v) (slots v) = map Some (vec_list v)"
  by (simp add: vec_ok_def vec_list_def map_Some_somes)

text \<open>To establish \<open>vec_ok\<close> and read off the list: give the prefix of the slots.\<close>

lemma vec_okI:
  assumes "vec_data v = Some (map Some xs @ rest)" "vec_size v = length xs"
    and "vec_capacity v = length xs + length rest" "vec_capacity v < SIZE_MAX"
  shows "vec_ok v \<and> vec_list v = xs"
  using assms by (auto simp: vec_ok_def vec_list_def slots_def)

lemma vec_ok_cases:
  assumes "vec_ok v"
  obtains rest where "slots v = map Some (vec_list v) @ rest"
    and "vec_size v = length (vec_list v)"
    and "vec_capacity v = length (vec_list v) + length rest" "vec_capacity v < SIZE_MAX"
proof -
  have 1: "slots v = map Some (vec_list v) @ drop (vec_size v) (slots v)"
    using vec_ok_slots [OF assms] by (metis append_take_drop_id)
  have 2: "vec_size v = length (vec_list v)" using assms by (simp add: vec_ok_size)
  have 3: "vec_capacity v = length (vec_list v) + length (drop (vec_size v) (slots v))"
    using assms vec_ok_size [OF assms] by (auto simp: vec_ok_def)
  have 4: "vec_capacity v < SIZE_MAX" using assms by (simp add: vec_ok_def)
  show thesis by (rule that [OF 1 2 3 4])
qed

lemma slots_grow:
  "vec_grow alloc n v = Some v' \<Longrightarrow> slots v' = slots v @ replicate (n - length (slots v)) None"
  by (auto simp: vec_grow_def slots_def split: if_splits)

lemma slots_nonempty: "slots v \<noteq> [] \<Longrightarrow> vec_data v = Some (slots v)"
  by (simp add: slots_def split: option.splits)

lemma grants_bound: "grants alloc n \<Longrightarrow> n < SIZE_MAX"
  unfolding grants_def SIZE_MAX_def by linarith

lemma vec_growD:
  assumes "vec_grow alloc n v = Some w"
  shows "vec_data w = Some (slots w)" "vec_capacity w = n" "n < SIZE_MAX"
    "vec_size w = vec_size v" "vec_freed w = vec_freed v" "vec_dataFree w = vec_dataFree v"
  using assms grants_bound [of alloc n]
  by (auto simp: vec_grow_def slots_def split: if_splits)

lemma loggerVectorInitAdv_ok:
  assumes "loggerVectorInitAdv alloc cap f = (True, v)"
  shows "vec_ok v \<and> vec_list v = [] \<and> vec_freed v = [] \<and> vec_dataFree v = f"
  using assms
  by (auto simp: loggerVectorInitAdv_def Let_def vec_ok_def vec_list_def slots_def grants_def
      SIZE_MAX_def split: if_splits)

text \<open>A failed initialisation leaves a vector on which the next insertion dereferences NULL.\<close>

lemma loggerVectorAdd_after_failed_init:
  assumes "loggerVectorInitAdv alloc cap f = (False, v)"
  shows "loggerVectorAdd alloc' v (Some x) = Inl Null_Deref"
  using assms
  by (auto simp: loggerVectorInitAdv_def loggerVectorAdd_def Let_def split: if_splits)

lemma loggerVectorClear_ok:
  assumes "vec_ok v"
  shows "vec_ok (loggerVectorClear v) \<and> vec_list (loggerVectorClear v) = []"
  using assms
  by (auto simp: loggerVectorClear_def vec_ok_def vec_list_def slots_def vec_free_def
      SIZE_MAX_def split: option.splits)

lemma loggerVectorClear_freed:
  "vec_ok v \<Longrightarrow> vec_dataFree v \<Longrightarrow> vec_freed (loggerVectorClear v) = vec_freed v @ vec_list v"
  by (auto simp: loggerVectorClear_def vec_free_def vec_list_def slots_def split: option.splits)

section \<open>Insertion and search\<close>

text \<open>What a successful, or refused, insertion leaves.\<close>

lemma loggerVectorAdd_cases:
  assumes ok: "vec_ok v"
  obtains (added) v' where "loggerVectorAdd alloc v (Some x) = Inr (1, v')" "vec_ok v'"
      "vec_list v' = vec_list v @ [x]" "vec_freed v' = vec_freed v"
      "vec_dataFree v' = vec_dataFree v"
  | (refused) "loggerVectorAdd alloc v (Some x) = Inr (0, v)"
proof -
  define g where "g = (if vec_size v = vec_capacity v
      then vec_grow alloc (if vec_capacity v \<noteq> 0 then vec_capacity v * 2 else 10) v else Some v)"
  obtain rest where v: "slots v = map Some (vec_list v) @ rest" "vec_size v = length (vec_list v)"
      "vec_capacity v = length (vec_list v) + length rest" "vec_capacity v < SIZE_MAX"
    using vec_ok_cases [OF ok] by blast
  show thesis
  proof (cases g)
    case None
    then show thesis by (intro refused) (simp add: loggerVectorAdd_def g_def [symmetric])
  next
    case (Some w)
    have "\<exists>r rest'. slots w = map Some (vec_list v) @ r # rest' \<and> vec_data w = Some (slots w) \<and>
        vec_size w = length (vec_list v) \<and>
        vec_capacity w = length (vec_list v) + Suc (length rest') \<and> vec_capacity w < SIZE_MAX \<and>
        vec_freed w = vec_freed v \<and> vec_dataFree w = vec_dataFree v"
    proof (cases "vec_size v = vec_capacity v")
      case True
      then have "rest = []" using v by simp
      obtain n where n: "n = (if vec_capacity v \<noteq> 0 then vec_capacity v * 2 else 10)"
          "vec_grow alloc n v = Some w" using True Some by (simp add: g_def)
      then have lt: "vec_capacity v < n" by (simp split: if_splits)
      then obtain k where k: "n = vec_capacity v + Suc k"
        by (metis add_Suc_right less_iff_Suc_add)
      have "slots w = map Some (vec_list v) @ None # replicate k None"
        using n(2) k v \<open>rest = []\<close> by (simp add: slots_grow)
      then show ?thesis using vec_growD [OF n(2)] k v \<open>rest = []\<close> by auto
    next
      case False
      then obtain r rest' where "rest = r # rest'" using v by (cases rest) auto
      moreover have "w = v" using Some False by (simp add: g_def)
      moreover have "vec_data v = Some (slots v)"
        by (rule slots_nonempty) (use v \<open>rest = r # rest'\<close> in simp)
      ultimately show ?thesis using v by auto
    qed
    then obtain r rest' where w: "slots w = map Some (vec_list v) @ r # rest'"
        "vec_data w = Some (slots w)" "vec_size w = length (vec_list v)"
        "vec_capacity w = length (vec_list v) + Suc (length rest')" "vec_capacity w < SIZE_MAX"
        "vec_freed w = vec_freed v" "vec_dataFree w = vec_dataFree v"
      by blast
    define u where "u = w\<lparr>vec_data := Some ((slots w)[vec_size w := Some x]),
        vec_size := vec_size w + 1\<rparr>"
    have "loggerVectorAdd alloc v (Some x) = Inr (1, u)"
      using Some w by (simp add: loggerVectorAdd_def g_def [symmetric] u_def)
    moreover have "vec_ok u \<and> vec_list u = vec_list v @ [x]"
      by (rule vec_okI [where rest = rest']) (use w list_update_length [of "map Some (vec_list v)" r rest' "Some x"] in \<open>simp_all add: u_def\<close>)
    ultimately show thesis using w by (intro added [of u]) (simp_all add: u_def)
  qed
qed

lemma loggerVectorAdd_None [simp]: "loggerVectorAdd alloc v None = Inr (0, v)"
  by (simp add: loggerVectorAdd_def)

text \<open>
  A vector that has only grown keeps its capacity within a factor of two of its size; when
  memory is granted, such a vector of fewer than \<open>VEC_LIMIT\<close> elements accepts every element.
\<close>

definition VEC_LIMIT :: nat where "VEC_LIMIT = 2 ^ 50"

definition vec_tight :: "'a vec \<Rightarrow> bool" where
  "vec_tight v \<longleftrightarrow> vec_ok v \<and> vec_capacity v \<le> 10 + 2 * vec_size v"

lemma vec_tight_ok [simp]: "vec_tight v \<Longrightarrow> vec_ok v"
  by (simp add: vec_tight_def)

lemma grants_limit: "(\<And>n. alloc n) \<Longrightarrow> n \<le> 2 * VEC_LIMIT + 10 \<Longrightarrow> grants alloc n"
  unfolding grants_def VEC_LIMIT_def SIZE_MAX_def by simp

lemma loggerVectorAdd_tight:
  assumes tight: "vec_tight v" and mem: "\<And>n. alloc n" and lim: "length (vec_list v) < VEC_LIMIT"
  obtains v' where "loggerVectorAdd alloc v (Some x) = Inr (1, v')" "vec_tight v'"
    "vec_list v' = vec_list v @ [x]" "vec_dataFree v' = vec_dataFree v"
proof -
  have ok: "vec_ok v" and cap: "vec_capacity v \<le> 10 + 2 * vec_size v"
    using tight by (simp_all add: vec_tight_def)
  have sz: "vec_size v < VEC_LIMIT" using lim vec_ok_size [OF ok] by simp
  show thesis
  proof (rule loggerVectorAdd_cases [OF ok, of alloc x])
    fix v' assume v': "loggerVectorAdd alloc v (Some x) = Inr (1, v')" "vec_ok v'"
      "vec_list v' = vec_list v @ [x]" "vec_dataFree v' = vec_dataFree v"
    have "vec_capacity v' \<le> 10 + 2 * vec_size v'"
      using v'(1) cap by (auto simp: loggerVectorAdd_def vec_grow_def split: if_splits option.splits)
    with v' show thesis by (intro that [of v']) (simp_all add: vec_tight_def)
  next
    assume refused: "loggerVectorAdd alloc v (Some x) = Inr (0, v)"
    define n where "n = (if vec_capacity v \<noteq> 0 then vec_capacity v * 2 else 10)"
    have "vec_size v = vec_capacity v \<Longrightarrow> grants alloc n"
      using sz by (intro grants_limit mem) (simp add: n_def)
    then have "(if vec_size v = vec_capacity v then vec_grow alloc n v else Some v) \<noteq> None"
      by (simp add: vec_grow_def)
    with refused show thesis
      by (auto simp: loggerVectorAdd_def n_def split: option.splits if_splits)
  qed
qed

text \<open>The index of the first element equal to \<open>x\<close>; \<open>cmp\<close> decides equality.\<close>

fun first_index :: "'a \<Rightarrow> nat \<Rightarrow> 'a list \<Rightarrow> nat" where
  "first_index x i [] = SIZE_MAX"
| "first_index x i (y # ys) = (if x = y then i else first_index x (Suc i) ys)"

lemma find_loop_eq:
  "(\<And>a b. cmp a b = 0 \<longleftrightarrow> a = b) \<Longrightarrow>
     find_loop cmp (Some x) i (map Some xs) = Inr (first_index x i xs)"
  by (induction xs arbitrary: i) auto

lemma first_index_not_in: "x \<notin> set xs \<Longrightarrow> first_index x i xs = SIZE_MAX"
  by (induction xs arbitrary: i) auto

lemma first_index_in:
  "x \<in> set xs \<Longrightarrow> i \<le> first_index x i xs \<and> first_index x i xs < i + length xs \<and>
     xs ! (first_index x i xs - i) = x"
proof (induction xs arbitrary: i)
  case (Cons y ys)
  show ?case
  proof (cases "x = y")
    case False
    with Cons.prems Cons.IH [of "Suc i"] have "Suc i \<le> first_index x (Suc i) ys" and
        "first_index x (Suc i) ys < Suc i + length ys" and
        "ys ! (first_index x (Suc i) ys - Suc i) = x" by simp_all
    moreover from this have "first_index x (Suc i) ys - i = Suc (first_index x (Suc i) ys - Suc i)"
      by simp
    ultimately show ?thesis using False by simp
  qed simp
qed simp

lemma loggerVectorFind_eq:
  assumes "vec_ok v" and "\<And>a b. cmp a b = 0 \<longleftrightarrow> a = b"
  shows "loggerVectorFind v (Some x) cmp = Inr (first_index x 0 (vec_list v))"
  using assms find_loop_eq [OF assms(2)] vec_ok_slots [OF assms(1)]
  by (simp add: loggerVectorFind_def vec_ok_def)

lemma loggerVectorFind_iff:
  assumes "vec_ok v" and "\<And>a b. cmp a b = 0 \<longleftrightarrow> a = b"
  shows "loggerVectorFind v (Some x) cmp = Inr SIZE_MAX \<longleftrightarrow> x \<notin> set (vec_list v)"
proof -
  have "first_index x 0 (vec_list v) \<noteq> SIZE_MAX" if "x \<in> set (vec_list v)"
    using first_index_in [OF that, of 0] assms(1) vec_ok_size [OF assms(1)]
    by (auto simp: vec_ok_def)
  then show ?thesis
    using first_index_not_in [of x "vec_list v" 0] loggerVectorFind_eq [OF assms, of x] by auto
qed

section \<open>Removal\<close>

lemma erase_shift_eq:
  "0 < i \<Longrightarrow> i \<le> n \<Longrightarrow> n \<le> length xs \<Longrightarrow>
     erase_shift i n xs = take (i - 1) xs @ take (n - i) (drop i xs) @ drop (n - 1) xs"
proof (induction i n xs rule: erase_shift.induct)
  case (1 i n xs)
  show ?case
  proof (cases "i < n")
    case True
    let ?ys = "xs[i - 1 := xs ! i]"
    have IH: "erase_shift (Suc i) n ?ys =
        take i ?ys @ take (n - Suc i) (drop (Suc i) ?ys) @ drop (n - 1) ?ys"
      using "1.IH" [OF True] "1.prems" True by simp
    have a: "take i ?ys = take (i - 1) xs @ [xs ! i]"
      using "1.prems" True by (cases i) (simp_all add: take_Suc_conv_app_nth)
    have b: "drop (Suc i) ?ys = drop (Suc i) xs" "drop (n - 1) ?ys = drop (n - 1) xs"
      using "1.prems" True by (simp_all add: drop_update_cancel)
    have c: "take (n - i) (drop i xs) = xs ! i # take (n - Suc i) (drop (Suc i) xs)"
      using "1.prems" True by (metis Cons_nth_drop_Suc Suc_diff_Suc less_le_trans take_Suc_Cons)
    have "erase_shift i n xs = erase_shift (Suc i) n ?ys"
      using True by (simp add: erase_shift.simps [of i n xs])
    also have "\<dots> = take (i - 1) xs @ take (n - i) (drop i xs) @ drop (n - 1) xs"
      by (simp only: IH a b c append_assoc append.simps)
    finally show ?thesis .
  next
    case False
    then have "erase_shift i n xs = xs" by (simp add: erase_shift.simps [of i n xs])
    with False "1.prems" show ?thesis by simp
  qed
qed

lemma loggerVectorErase_ok:
  assumes ok: "vec_ok v" and i: "i < length (vec_list v)"
  obtains v' where "loggerVectorErase v i = Inr v'" "vec_ok v'"
    "vec_list v' = take i (vec_list v) @ drop (Suc i) (vec_list v)"
    "vec_freed v' = (if vec_dataFree v then vec_freed v @ [vec_list v ! i] else vec_freed v)"
    "vec_dataFree v' = vec_dataFree v"
proof -
  obtain rest where v: "slots v = map Some (vec_list v) @ rest" "vec_size v = length (vec_list v)"
      "vec_capacity v = length (vec_list v) + length rest" "vec_capacity v < SIZE_MAX"
    using vec_ok_cases [OF ok] by blast
  let ?xs = "vec_list v"
  define u where "u = (vec_free [slots v ! i] v)
      \<lparr>vec_data := Some (erase_shift (i + 1) (vec_size v) (slots v)), vec_size := vec_size v - 1\<rparr>"
  have shift: "erase_shift (i + 1) (vec_size v) (slots v) =
      map Some (take i ?xs @ drop (Suc i) ?xs) @ drop (length ?xs - 1) (slots v)"
    using i v by (simp add: erase_shift_eq take_map drop_map)
  have slot: "slots v ! i = Some (?xs ! i)" using i v by (simp add: nth_append)
  have "loggerVectorErase v i = Inr u"
    using i v by (simp add: loggerVectorErase_def u_def Let_def)
  moreover have "vec_ok u \<and> vec_list u = take i ?xs @ drop (Suc i) ?xs"
  proof (rule vec_okI [where rest = "drop (length ?xs - 1) (slots v)"])
    show "vec_data u = Some (map Some (take i ?xs @ drop (Suc i) ?xs) @
        drop (length ?xs - 1) (slots v))" using shift by (simp add: u_def)
  qed (use i v in \<open>auto simp: u_def vec_free_def\<close>)
  ultimately show thesis using that [of u] slot by (simp add: u_def vec_free_def)
qed

section \<open>Bulk insertion\<close>

lemma move_up_ok:
  assumes "0 < p" "0 < n"
  shows "i < SIZE_MAX \<Longrightarrow> p \<le> Suc i \<Longrightarrow> i + n < length xs \<Longrightarrow>
    \<exists>ys. move_up i p n xs = Inr ys \<and> length ys = length xs \<and>
      (\<forall>j < p. ys ! j = xs ! j) \<and> (\<forall>j. p \<le> j \<and> j \<le> i \<longrightarrow> ys ! (j + n) = xs ! j) \<and>
      (\<forall>j > i + n. ys ! j = xs ! j)"
proof (induction i arbitrary: xs)
  case 0
  with assms have p: "p = 1" by simp
  show ?case using "0.prems" assms p by (simp add: move_up.simps [of 0])
next
  case (Suc i)
  let ?zs = "xs[Suc i + n := xs ! Suc i, Suc i := None]"
  show ?case
  proof (cases "Suc i < p")
    case True
    then show ?thesis using Suc.prems by (auto simp: move_up.simps [of "Suc i"])
  next
    case False
    have step: "move_up (Suc i) p n xs = move_up i p n ?zs"
      using False Suc.prems assms by (simp add: move_up.simps [of "Suc i"])
    obtain ys where ys: "move_up i p n ?zs = Inr ys" "length ys = length xs"
        "\<forall>j < p. ys ! j = ?zs ! j" "\<forall>j. p \<le> j \<and> j \<le> i \<longrightarrow> ys ! (j + n) = ?zs ! j"
        "\<forall>j > i + n. ys ! j = ?zs ! j"
      using Suc.IH [of ?zs] Suc.prems False by auto
    have "\<forall>j < p. ys ! j = xs ! j" using ys(3) False by simp
    moreover have "ys ! (j + n) = xs ! j" if "p \<le> j" "j \<le> Suc i" for j
    proof (cases "j = Suc i")
      case True
      then show ?thesis using ys(5) Suc.prems assms by simp
    next
      case False
      then show ?thesis using ys(4) that by simp
    qed
    moreover have "\<forall>j > Suc i + n. ys ! j = xs ! j" using ys(5) assms by simp
    ultimately show ?thesis using step ys(1,2) by auto
  qed
qed

text \<open>
  With \<open>insPos = 0\<close> the loop does not stop at the first element: the index wraps around and
  the next access is out of bounds.
\<close>

lemma move_up_zero: "i < SIZE_MAX \<Longrightarrow> move_up i 0 n xs = Inl Out_Of_Bounds"
proof (induction i arbitrary: xs)
  case 0
  then show ?case by (simp add: move_up.simps [of 0] move_up.simps [of SIZE_MAX])
next
  case (Suc i)
  then show ?case by (simp add: move_up.simps [of "Suc i"])
qed

text \<open>With nothing to insert the loop clears the slots it should have kept.\<close>

lemma move_up_none:
  assumes "0 < p"
  shows "i < SIZE_MAX \<Longrightarrow> p \<le> Suc i \<Longrightarrow> i < length xs \<Longrightarrow>
    \<exists>ys. move_up i p 0 xs = Inr ys \<and> length ys = length xs \<and>
      (\<forall>j < p. ys ! j = xs ! j) \<and> (\<forall>j. p \<le> j \<and> j \<le> i \<longrightarrow> ys ! j = None) \<and>
      (\<forall>j > i. ys ! j = xs ! j)"
proof (induction i arbitrary: xs)
  case 0
  with assms have "p = 1" by simp
  then show ?case using "0.prems" by (simp add: move_up.simps [of 0])
next
  case (Suc i)
  let ?zs = "xs[Suc i := xs ! Suc i, Suc i := None]"
  show ?case
  proof (cases "Suc i < p")
    case True
    then show ?thesis using Suc.prems by (auto simp: move_up.simps [of "Suc i"])
  next
    case False
    have step: "move_up (Suc i) p 0 xs = move_up i p 0 ?zs"
      using False Suc.prems by (simp add: move_up.simps [of "Suc i"])
    obtain ys where ys: "move_up i p 0 ?zs = Inr ys" "length ys = length xs"
        "\<forall>j < p. ys ! j = ?zs ! j" "\<forall>j. p \<le> j \<and> j \<le> i \<longrightarrow> ys ! j = None"
        "\<forall>j > i. ys ! j = ?zs ! j"
      using Suc.IH [of ?zs] Suc.prems False by auto
    have "ys ! Suc i = None" using ys(5) Suc.prems by simp
    then show ?thesis using step ys False by (auto simp: le_Suc_eq)
  qed
qed

lemma put_dups_ok:
  assumes dup: "\<And>a. dup a = Some (g a)"
  shows "i + length as \<le> length xs \<Longrightarrow>
    put_dups dup (map Some as) i xs =
      Inr (take i xs @ map (\<lambda>a. Some (g a)) as @ drop (i + length as) xs)"
proof (induction as arbitrary: i xs)
  case (Cons a as)
  then have i: "i < length xs" by simp
  have "put_dups dup (map Some (a # as)) i xs = put_dups dup (map Some as) (Suc i) (xs[i := Some (g a)])"
    using i dup by simp
  also have "\<dots> = Inr (take (Suc i) (xs[i := Some (g a)]) @ map (\<lambda>a. Some (g a)) as @
      drop (Suc i + length as) (xs[i := Some (g a)]))"
    using Cons by simp
  also have "\<dots> = Inr (take i xs @ map (\<lambda>a. Some (g a)) (a # as) @ drop (i + length (a # as)) xs)"
    using i by (simp add: take_Suc_conv_app_nth drop_update_cancel)
  finally show ?case .
qed simp

text \<open>
  The slots after the tail has been moved: the prefix is unchanged and the tail starts
  \<open>n\<close> places later.
\<close>

lemma moved_tail:
  assumes p: "0 < p \<or> p = length as" "p \<le> length as" and n: "0 < n \<or> p = length as"
    and len: "length as + n \<le> length sl" "length as < SIZE_MAX"
    and sl: "take (length as) sl = map Some as"
  obtains ys where
    "(if p < length as then move_up (length as - 1) p n sl else Inr sl) = Inr ys"
    "length ys = length sl" "take p ys = map Some (take p as)"
    "take (length as - p) (drop (p + n) ys) = map Some (drop p as)"
proof (cases "p < length as")
  case True
  let ?i = "length as - 1"
  have sl_nth: "sl ! j = Some (as ! j)" if "j < length as" for j
    using sl that by (metis nth_map nth_take)
  obtain ys where ys: "move_up ?i p n sl = Inr ys" "length ys = length sl"
      "\<forall>j < p. ys ! j = sl ! j" "\<forall>j. p \<le> j \<and> j \<le> ?i \<longrightarrow> ys ! (j + n) = sl ! j"
  proof -
    have "\<exists>ys. move_up ?i p n sl = Inr ys \<and> length ys = length sl \<and>
        (\<forall>j < p. ys ! j = sl ! j) \<and> (\<forall>j. p \<le> j \<and> j \<le> ?i \<longrightarrow> ys ! (j + n) = sl ! j) \<and>
        (\<forall>j > ?i + n. ys ! j = sl ! j)"
      by (rule move_up_ok) (use True p n len in auto)
    then show thesis using that by blast
  qed
  have "take p ys = map Some (take p as)"
    by (rule nth_equalityI) (use ys sl_nth True len in auto)
  moreover have "take (length as - p) (drop (p + n) ys) = map Some (drop p as)"
  proof (rule nth_equalityI)
    show "length (take (length as - p) (drop (p + n) ys)) = length (map Some (drop p as))"
      using ys True len by simp
    fix k assume "k < length (take (length as - p) (drop (p + n) ys))"
    then have k: "k < length as - p" by simp
    have "ys ! ((p + k) + n) = sl ! (p + k)" using ys(4) k by simp
    then show "take (length as - p) (drop (p + n) ys) ! k = map Some (drop p as) ! k"
      using k ys(2) len sl_nth [of "p + k"] by (simp add: add.commute add.left_commute)
  qed
  ultimately show thesis using that ys True by simp
next
  case False
  then show thesis using that [of sl] p sl by simp
qed

text \<open>
  Where it works: the position is not 0 (or the end), and there is something to insert (or
  the position is the end).
\<close>

lemma loggerVectorAddFrom_ok:
  assumes ok: "vec_ok v" "vec_ok src" and dup: "\<And>a. dup a = Some (g a)"
    and pos: "p = (case pos of Some q \<Rightarrow> q | None \<Rightarrow> length (vec_list v))"
      "p \<le> length (vec_list v)" "0 < p \<or> p = length (vec_list v)"
      "vec_list src \<noteq> [] \<or> p = length (vec_list v)"
    and mem: "vec_capacity v < vec_size v + vec_size src \<Longrightarrow>
      grants alloc (vec_size v + vec_size src)"
  obtains v' where "loggerVectorAddFrom alloc v src pos dup = Inr (1, v')" "vec_ok v'"
    "vec_list v' = take p (vec_list v) @ map g (vec_list src) @ drop p (vec_list v)"
    "vec_freed v' = vec_freed v" "vec_dataFree v' = vec_dataFree v"
proof -
  let ?as = "vec_list v" and ?bs = "vec_list src"
  let ?req = "vec_size v + vec_size src"
  have sz: "vec_size v = length ?as" "vec_size src = length ?bs"
    using ok by (simp_all add: vec_ok_size)
  have cap: "length (slots v) = vec_capacity v" "vec_capacity v < SIZE_MAX"
    using ok(1) by (simp_all add: vec_ok_def)
  obtain w where w: "(if vec_capacity v < ?req then vec_grow alloc ?req v else Some v) = Some w"
      "take (length ?as) (slots w) = map Some ?as" "length (slots w) = vec_capacity w"
      "?req \<le> vec_capacity w" "vec_capacity w < SIZE_MAX"
      "vec_freed w = vec_freed v" "vec_dataFree w = vec_dataFree v"
  proof (cases "vec_capacity v < ?req")
    case True
    then have "vec_grow alloc ?req v \<noteq> None" using mem by (simp add: vec_grow_def)
    then obtain w where g: "vec_grow alloc ?req v = Some w" by blast
    have "take (length ?as) (slots w) = map Some ?as"
      using slots_grow [OF g] vec_ok_slots [OF ok(1)] sz(1) cap ok(1) by (simp add: vec_ok_def)
    moreover have "length (slots w) = ?req"
      using slots_grow [OF g] cap True by simp
    ultimately show thesis using that [of w] True g vec_growD [OF g] by simp
  next
    case False
    then show thesis using that [of v] cap vec_ok_slots [OF ok(1)] sz by simp
  qed
  obtain ys where ys:
      "(if p < length ?as then move_up (length ?as - 1) p (length ?bs) (slots w) else Inr (slots w)) = Inr ys"
      "length ys = length (slots w)" "take p ys = map Some (take p ?as)"
      "take (length ?as - p) (drop (p + length ?bs) ys) = map Some (drop p ?as)"
  proof (rule moved_tail [of p ?as "length ?bs" "slots w"])
    show "length ?as < SIZE_MAX" using sz w by simp
  qed (use pos sz w in auto)
  let ?zs = "take p ys @ map (\<lambda>a. Some (g a)) ?bs @ drop (p + length ?bs) ys"
  have put: "put_dups dup (take (vec_size src) (slots src)) p ys = Inr ?zs"
    using put_dups_ok [OF dup, of p ?bs ys] vec_ok_slots [OF ok(2)] sz pos ys w by simp
  define res where "res = take p ?as @ map g ?bs @ drop p ?as"
  define rest where "rest = drop (length ?as + length ?bs) ys"
  have "drop (p + length ?bs) ys = map Some (drop p ?as) @ rest"
    using ys(4) pos append_take_drop_id [of "length ?as - p" "drop (p + length ?bs) ys"]
    by (simp add: rest_def add.commute)
  then have zs: "?zs = map Some res @ rest"
    using ys(3) by (simp add: res_def)
  define u where "u = w\<lparr>vec_data := (if vec_data w = None then None else Some ?zs),
      vec_size := vec_size v + vec_size src\<rparr>"
  have lr: "length res = ?req" using sz pos by (simp add: res_def)
  have lz: "length ?zs = vec_capacity w" using w(3,4) ys(2) pos(2) sz by simp
  have lr': "length (map Some res @ rest) = vec_capacity w" using lz by (simp only: zs)
  have data: "slots u = map Some res @ rest"
  proof (cases "vec_data w")
    case None
    then have "length (map Some res @ rest) = 0" using w(3) lr' by (simp add: slots_def)
    then show ?thesis using None by (simp add: u_def slots_def)
  next
    case (Some d)
    then show ?thesis using zs by (simp add: u_def slots_def)
  qed
  have prefix: "take (vec_size u) (slots u) = map Some res"
    using lr by (simp add: data, simp add: u_def)
  have "length (slots u) = vec_capacity w" using data lr' by simp
  then have "vec_ok u" unfolding vec_ok_def prefix
    using w(4,5) by (simp add: u_def)
  moreover have "vec_list u = res" unfolding vec_list_def prefix by simp
  moreover have "loggerVectorAddFrom alloc v src pos dup = Inr (1, u)"
  proof -
    have pa: "(case pos of None \<Rightarrow> True | Some q \<Rightarrow> q \<le> vec_size v) = True"
      using pos sz by (auto split: option.splits)
    have ip: "(case pos of Some q \<Rightarrow> q | None \<Rightarrow> vec_size v) = p"
      using pos(1) sz by (simp split: option.splits)
    have mv: "(if p < vec_size v then move_up (vec_size v - 1) p (vec_size src) (slots w)
        else Inr (slots w)) = Inr ys" using ys(1) by (simp only: sz)
    show ?thesis
      unfolding loggerVectorAddFrom_def Let_def pa ip w(1) assertC_simps bindC_simps
        option.case mv put u_def ..
  qed
  ultimately show thesis using that [of u] w(6,7) by (simp add: u_def res_def)
qed

text \<open>An appended vector is still tight.\<close>

lemma loggerVectorAddFrom_tight:
  assumes "vec_tight v" "vec_ok v'" and "loggerVectorAddFrom alloc v src pos dup = Inr (1, v')"
  shows "vec_tight v'"
proof -
  have "vec_size v' = vec_size v + vec_size src \<and>
      (vec_capacity v' = vec_capacity v \<or> vec_capacity v' = vec_size v + vec_size src)"
    using assms(3)
    by (auto simp: loggerVectorAddFrom_def bindC_eq_Inr Let_def vec_growD split: option.splits if_splits)
  with assms(1,2) show ?thesis by (auto simp: vec_tight_def)
qed

text \<open>
  Where it does not: at position 0 of a vector that is not empty the loop leaves the array,
  and an empty source clears the tail of the vector instead of leaving it alone.
\<close>

lemma loggerVectorAddFrom_zero:
  assumes "vec_ok v" "vec_size v \<noteq> 0"
    and "vec_capacity v < vec_size v + vec_size src \<Longrightarrow>
      grants alloc (vec_size v + vec_size src)"
  shows "loggerVectorAddFrom alloc v src (Some 0) dup = Inl Out_Of_Bounds"
proof -
  have "vec_size v - 1 < SIZE_MAX" using assms(1) by (auto simp: vec_ok_def)
  then show ?thesis
    using assms(2,3) by (simp add: loggerVectorAddFrom_def Let_def move_up_zero vec_grow_def)
qed

lemma loggerVectorAddFrom_empty_source:
  assumes ok: "vec_ok v" and pos: "0 < p" "p < vec_size v" and src: "vec_size src = 0"
  obtains v' where "loggerVectorAddFrom alloc v src (Some p) dup = Inr (1, v')"
    "vec_size v' = vec_size v" "\<forall>j. p \<le> j \<and> j < vec_size v \<longrightarrow> slots v' ! j = None"
    "\<not> vec_ok v'"
proof -
  have lt: "vec_size v - 1 < SIZE_MAX" "vec_size v - 1 < length (slots v)" "p \<le> Suc (vec_size v - 1)"
    using ok pos by (auto simp: vec_ok_def)
  obtain ys where ys: "move_up (vec_size v - 1) p 0 (slots v) = Inr ys"
      "\<forall>j. p \<le> j \<and> j \<le> vec_size v - 1 \<longrightarrow> ys ! j = None" "length ys = length (slots v)"
    using move_up_none [OF pos(1) lt(1,3,2)] by blast
  have "slots v \<noteq> []" using ok pos by (auto simp: vec_ok_def)
  then have data: "vec_data v \<noteq> None" using slots_nonempty [of v] by simp
  define u where "u = v\<lparr>vec_data := Some ys\<rparr>"
  have su: "slots u = ys" "vec_size u = vec_size v" by (simp_all add: u_def slots_def)
  have "loggerVectorAddFrom alloc v src (Some p) dup = Inr (1, u)"
    using ok pos src ys data by (simp add: loggerVectorAddFrom_def Let_def u_def vec_ok_def)
  moreover have "\<forall>j. p \<le> j \<and> j < vec_size v \<longrightarrow> slots u ! j = None" using ys(2) su by auto
  moreover have "\<not> vec_ok u"
  proof
    assume "vec_ok u"
    then have len: "vec_size u \<le> length (slots u)" by (simp add: vec_ok_def)
    have "slots u ! p = None" using ys(2) pos su by auto
    moreover have "take (vec_size u) (slots u) ! p = slots u ! p" using pos su by simp
    ultimately have "None \<in> set (take (vec_size u) (slots u))"
      using pos su len by (metis length_take min.absorb2 nth_mem)
    with \<open>vec_ok u\<close> show False by (simp add: vec_ok_def)
  qed
  ultimately show thesis using that su by blast
qed

section \<open>A store without duplicates\<close>

text \<open>
  The contract between the vector and the argument parsers, which keep their source files
  in it: \<open>add\<close> inserts an element that is not there (or refuses it), \<open>find\<close> finds the first
  occurrence, \<open>erase\<close> removes an index.
\<close>

locale unique_store =
  fixes ok :: "'v \<Rightarrow> bool"
    and content :: "'v \<Rightarrow> 'a list"
    and add :: "'v \<Rightarrow> 'a \<Rightarrow> fault + (int \<times> 'v)"
    and find :: "'v \<Rightarrow> 'a \<Rightarrow> fault + nat"
    and erase :: "'v \<Rightarrow> nat \<Rightarrow> fault + 'v"
  assumes add_law: "ok v \<Longrightarrow> \<exists>r v'. add v x = Inr (r, v') \<and> ok v' \<and>
        (content v' = content v \<or> x \<notin> set (content v) \<and> content v' = content v @ [x])"
    and find_law: "ok v \<Longrightarrow> find v x = Inr (first_index x 0 (content v))"
    and erase_law: "ok v \<Longrightarrow> i < length (content v) \<Longrightarrow> \<exists>v'. erase v i = Inr v' \<and> ok v' \<and>
        content v' = take i (content v) @ drop (Suc i) (content v)"
    and size_law: "ok v \<Longrightarrow> length (content v) < SIZE_MAX"
begin

lemma add_distinct:
  "ok v \<Longrightarrow> distinct (content v) \<Longrightarrow> add v x = Inr (r, v') \<Longrightarrow>
     ok v' \<and> distinct (content v') \<and> set (content v) \<subseteq> set (content v') \<and>
     set (content v') \<subseteq> insert x (set (content v))"
  using add_law [of v x] by auto

text \<open>\<open>find\<close> followed by \<open>erase\<close>, the way the parser drops its own output.\<close>

lemma discard:
  assumes "ok v" "distinct (content v)"
  shows "\<exists>i. find v x = Inr i \<and> (i = SIZE_MAX \<longrightarrow> x \<notin> set (content v)) \<and>
    (i \<noteq> SIZE_MAX \<longrightarrow> (\<exists>v'. erase v i = Inr v' \<and> ok v' \<and> content v' = removeAll x (content v)))"
proof (cases "x \<in> set (content v)")
  case False
  then show ?thesis using find_law [OF assms(1), of x] by (simp add: first_index_not_in)
next
  case True
  define i where "i = first_index x 0 (content v)"
  have i: "i < length (content v)" "content v ! i = x"
    using first_index_in [OF True, of 0] by (simp_all add: i_def)
  then obtain v' where v': "erase v i = Inr v'" "ok v'"
      "content v' = take i (content v) @ drop (Suc i) (content v)"
    using erase_law [OF assms(1)] by blast
  have split: "content v = take i (content v) @ x # drop (Suc i) (content v)"
    using i id_take_nth_drop by metis
  then have "x \<notin> set (take i (content v))" "x \<notin> set (drop (Suc i) (content v))"
    using assms(2) by (metis disjoint_insert(1) distinct_append list.simps(15),
      metis distinct.simps(2) distinct_append)
  then have "removeAll x (content v) = content v'"
    using v'(3) by (subst split) simp
  then show ?thesis
    using find_law [OF assms(1), of x] v' size_law [OF assms(1)] i by (auto simp: i_def)
qed

end

lemma loggerVectorAddUnique_law:
  assumes ok: "vec_ok v" and cmp: "\<And>a b. cmp a b = 0 \<longleftrightarrow> a = b"
  shows "\<exists>r v'. loggerVectorAddUnique alloc v (Some x) cmp = Inr (r, v') \<and> vec_ok v' \<and>
    (vec_list v' = vec_list v \<or> x \<notin> set (vec_list v) \<and> vec_list v' = vec_list v @ [x])"
proof (cases "loggerVectorFind v (Some x) cmp = Inr SIZE_MAX")
  case True
  then have notin: "x \<notin> set (vec_list v)" using loggerVectorFind_iff [OF ok cmp] by simp
  show ?thesis
    by (rule loggerVectorAdd_cases [OF ok, of alloc x])
      (use True notin ok in \<open>auto simp: loggerVectorAddUnique_def\<close>)
next
  case False
  then obtain i where "loggerVectorFind v (Some x) cmp = Inr i" "i \<noteq> SIZE_MAX"
    using loggerVectorFind_eq [OF ok cmp] by auto
  then have "loggerVectorAddUnique alloc v (Some x) cmp = Inr (2, vec_free [Some x] v)"
    by (simp add: loggerVectorAddUnique_def)
  moreover have "vec_ok (vec_free [Some x] v)" "vec_list (vec_free [Some x] v) = vec_list v"
    using ok by (auto simp: vec_free_def vec_ok_def vec_list_def slots_def)
  ultimately show ?thesis by auto
qed

interpretation sv: unique_store vec_ok vec_list
    "\<lambda>v x. loggerVectorAddUnique alloc v (Some x) strcmp"
    "\<lambda>v x. loggerVectorFind v (Some x) strcmp" loggerVectorErase
  for alloc :: "nat \<Rightarrow> bool"
proof
  fix v :: "string vec" and x
  assume ok: "vec_ok v"
  show "\<exists>r v'. loggerVectorAddUnique alloc v (Some x) strcmp = Inr (r, v') \<and> vec_ok v' \<and>
      (vec_list v' = vec_list v \<or> x \<notin> set (vec_list v) \<and> vec_list v' = vec_list v @ [x])"
    by (rule loggerVectorAddUnique_law [OF ok]) simp
  show "loggerVectorFind v (Some x) strcmp = Inr (first_index x 0 (vec_list v))"
    by (rule loggerVectorFind_eq [OF ok]) simp
  show "length (vec_list v) < SIZE_MAX"
    using ok vec_ok_size [OF ok] by (auto simp: vec_ok_def)
next
  fix v :: "string vec" and i
  assume "vec_ok v" "i < length (vec_list v)"
  then obtain v' where "loggerVectorErase v i = Inr v'" "vec_ok v'"
      "vec_list v' = take i (vec_list v) @ drop (Suc i) (vec_list v)"
    by (rule loggerVectorErase_ok)
  then show "\<exists>v'. loggerVectorErase v i = Inr v' \<and> vec_ok v' \<and>
      vec_list v' = take i (vec_list v) @ drop (Suc i) (vec_list v)" by blast
qed

text \<open>Insertion into a vector that has only grown.\<close>

lemma vec_free_simps [simp]:
  "slots (vec_free ps v) = slots v" "vec_size (vec_free ps v) = vec_size v"
  "vec_capacity (vec_free ps v) = vec_capacity v" "vec_list (vec_free ps v) = vec_list v"
  "vec_ok (vec_free ps v) = vec_ok v" "vec_tight (vec_free ps v) = vec_tight v"
  by (simp_all add: vec_free_def slots_def vec_list_def vec_ok_def vec_tight_def)

lemma loggerVectorAddUnique_tight:
  assumes tight: "vec_tight v" and mem: "\<And>n. alloc n" and lim: "length (vec_list v) < VEC_LIMIT"
    and cmp: "\<And>a b. cmp a b = 0 \<longleftrightarrow> a = b"
  obtains r v' where "loggerVectorAddUnique alloc v (Some x) cmp = Inr (r, v')" "vec_tight v'"
    "vec_list v' = (if x \<in> set (vec_list v) then vec_list v else vec_list v @ [x])"
proof (cases "x \<in> set (vec_list v)")
  case True
  have ok: "vec_ok v" using tight by simp
  from True obtain i where "loggerVectorFind v (Some x) cmp = Inr i" "i \<noteq> SIZE_MAX"
    using loggerVectorFind_eq [OF ok cmp, of x] loggerVectorFind_iff [OF ok cmp, of x] by auto
  with True tight show thesis
    using that [of 2 "vec_free [Some x] v"] by (simp add: loggerVectorAddUnique_def)
next
  case False
  have ok: "vec_ok v" using tight by simp
  from False have "loggerVectorFind v (Some x) cmp = Inr SIZE_MAX"
    using loggerVectorFind_iff [OF ok cmp] by simp
  then have "loggerVectorAddUnique alloc v (Some x) cmp = loggerVectorAdd alloc v (Some x)"
    by (simp add: loggerVectorAddUnique_def)
  moreover obtain w where "loggerVectorAdd alloc v (Some x) = Inr (1, w)" "vec_tight w"
      "vec_list w = vec_list v @ [x]"
    by (rule loggerVectorAdd_tight [OF tight mem lim, where x = x])
  ultimately show thesis using that [of 1 w] False by simp
qed

section \<open>Ownership\<close>

text \<open>
  A client of one vector: the calls it makes, and the elements the vector accepted (those
  whose insertion did not report 0).
\<close>

datatype 'a vec_call = Add 'a | AddUnique 'a | Erase nat | Clear

fun vec_run ::
    "(nat \<Rightarrow> bool) \<Rightarrow> ('a \<Rightarrow> 'a \<Rightarrow> int) \<Rightarrow> 'a vec_call list \<Rightarrow> 'a vec \<Rightarrow> fault + ('a list \<times> 'a vec)" where
  "vec_run alloc cmp [] v = Inr ([], v)"
| "vec_run alloc cmp (Add x # cs) v =
     bindC (loggerVectorAdd alloc v (Some x)) (\<lambda>(r, w).
     bindC (vec_run alloc cmp cs w) (\<lambda>(acc, u). Inr (if r = 0 then acc else x # acc, u)))"
| "vec_run alloc cmp (AddUnique x # cs) v =
     bindC (loggerVectorAddUnique alloc v (Some x) cmp) (\<lambda>(r, w).
     bindC (vec_run alloc cmp cs w) (\<lambda>(acc, u). Inr (if r = 0 then acc else x # acc, u)))"
| "vec_run alloc cmp (Erase i # cs) v = bindC (loggerVectorErase v i) (vec_run alloc cmp cs)"
| "vec_run alloc cmp (Clear # cs) v = vec_run alloc cmp cs (loggerVectorClear v)"

text \<open>What the vector holds or has destroyed.\<close>

definition owned :: "'a vec \<Rightarrow> 'a multiset" where
  "owned v = mset (vec_list v) + mset (vec_freed v)"

lemma owned_Add:
  assumes "vec_ok v"
  shows "\<exists>r w. loggerVectorAdd alloc v (Some x) = Inr (r, w) \<and> vec_ok w \<and>
    vec_dataFree w = vec_dataFree v \<and> owned w = owned v + (if r = 0 then {#} else {#x#})"
  by (rule loggerVectorAdd_cases [OF assms, of alloc x]) (use assms in \<open>auto simp: owned_def\<close>)

lemma owned_AddUnique:
  assumes "vec_ok v" "vec_dataFree v" and cmp: "\<And>a b. cmp a b = 0 \<longleftrightarrow> a = b"
  shows "\<exists>r w. loggerVectorAddUnique alloc v (Some x) cmp = Inr (r, w) \<and> vec_ok w \<and>
    vec_dataFree w = vec_dataFree v \<and> owned w = owned v + (if r = 0 then {#} else {#x#})"
proof (cases "loggerVectorFind v (Some x) cmp = Inr SIZE_MAX")
  case True
  then show ?thesis using owned_Add [OF assms(1), of alloc x] by (simp add: loggerVectorAddUnique_def)
next
  case False
  then obtain i where "loggerVectorFind v (Some x) cmp = Inr i" "i \<noteq> SIZE_MAX"
    using loggerVectorFind_eq [OF assms(1) cmp] by auto
  then show ?thesis using assms(1,2)
    by (auto simp: loggerVectorAddUnique_def vec_free_def owned_def vec_ok_def vec_list_def slots_def)
qed

lemma owned_Erase:
  assumes "vec_ok v" "vec_dataFree v"
  shows "\<exists>w. loggerVectorErase v i = Inr w \<and> vec_ok w \<and> vec_dataFree w \<and> owned w = owned v"
proof (cases "i < length (vec_list v)")
  case True
  have "mset (vec_list v) = mset (take i (vec_list v)) + {#vec_list v ! i#} +
      mset (drop (Suc i) (vec_list v))"
    using id_take_nth_drop [OF True] by (metis add_mset_add_single mset.simps(2) mset_append
      union_mset_add_mset_left union_mset_add_mset_right)
  then show ?thesis using assms
    by (auto intro: loggerVectorErase_ok [OF assms(1) True] simp: owned_def)
next
  case False
  then show ?thesis using assms vec_ok_size [OF assms(1)] by (simp add: loggerVectorErase_def)
qed

lemma vec_run_owned:
  assumes cmp: "\<And>a b. cmp a b = 0 \<longleftrightarrow> a = b"
  shows "vec_ok v \<Longrightarrow> vec_dataFree v \<Longrightarrow>
    \<exists>acc w. vec_run alloc cmp cs v = Inr (acc, w) \<and> vec_ok w \<and> vec_dataFree w \<and>
      owned w = owned v + mset acc"
proof (induction cs arbitrary: v)
  case Nil
  then show ?case by simp
next
  case (Cons c cs)
  show ?case
  proof (cases c)
    case (Add x)
    obtain r w where w: "loggerVectorAdd alloc v (Some x) = Inr (r, w)" "vec_ok w"
        "vec_dataFree w" "owned w = owned v + (if r = 0 then {#} else {#x#})"
      using owned_Add [OF Cons.prems(1), of alloc x] Cons.prems(2) by auto
    obtain acc u where u: "vec_run alloc cmp cs w = Inr (acc, u)" "vec_ok u" "vec_dataFree u"
        "owned u = owned w + mset acc" using Cons.IH w(2,3) by blast
    show ?thesis
      by (rule exI [of _ "if r = 0 then acc else x # acc"], rule exI [of _ u])
        (use Add w u in simp)
  next
    case (AddUnique x)
    obtain r w where w: "loggerVectorAddUnique alloc v (Some x) cmp = Inr (r, w)" "vec_ok w"
        "vec_dataFree w" "owned w = owned v + (if r = 0 then {#} else {#x#})"
      using owned_AddUnique [OF Cons.prems cmp, of alloc x] Cons.prems(2) by auto
    obtain acc u where u: "vec_run alloc cmp cs w = Inr (acc, u)" "vec_ok u" "vec_dataFree u"
        "owned u = owned w + mset acc" using Cons.IH w(2,3) by blast
    show ?thesis
      by (rule exI [of _ "if r = 0 then acc else x # acc"], rule exI [of _ u])
        (use AddUnique w u in simp)
  next
    case (Erase i)
    with owned_Erase [OF Cons.prems, of i] Cons.IH show ?thesis by fastforce
  next
    case Clear
    have "vec_ok (loggerVectorClear v)" "vec_dataFree (loggerVectorClear v)"
      "owned (loggerVectorClear v) = owned v"
      using loggerVectorClear_ok [OF Cons.prems(1)] loggerVectorClear_freed [OF Cons.prems]
        Cons.prems(2)
      by (auto simp: owned_def ac_simps loggerVectorClear_def vec_free_def split: option.splits)
    with Cons.IH [of "loggerVectorClear v"] Clear show ?thesis by simp
  qed
qed

section \<open>Properties\<close>

text \<open>
  C39: an owning vector never loses or frees twice: after any sequence of insertions, unique
  insertions, erasures and clearings, whatever the allocator answers, no call faults, and what
  the vector holds together with what it has passed to its destructor is, as a multiset, what
  it held before plus the elements it accepted.
\<close>

theorem vector_ownership:
  assumes "\<And>a b. cmp a b = 0 \<longleftrightarrow> a = b" and "vec_ok v" "vec_dataFree v"
  shows "\<exists>acc w. vec_run alloc cmp cs v = Inr (acc, w) \<and> vec_ok w \<and>
    mset (vec_list w) + mset (vec_freed w) = mset (vec_list v) + mset (vec_freed v) + mset acc"
  using vec_run_owned [OF assms, of alloc cs] by (auto simp: owned_def)

theorem vector_ownership_witness:
  "\<exists>acc w. vec_run (\<lambda>_. True) strcmp [Add ''a'', AddUnique ''a'', Add ''b'', Erase 0, Clear]
       (snd (loggerVectorInitAdv (\<lambda>_. True) 1 True)) = Inr (acc, w) \<and>
     mset (vec_list w) + mset (vec_freed w) = mset acc"
proof -
  let ?v = "snd (loggerVectorInitAdv (\<lambda>_. True) 1 True) :: string vec"
  have "loggerVectorInitAdv (\<lambda>_. True) 1 True = (True, ?v)"
    by (simp add: loggerVectorInitAdv_def Let_def grants_def SIZE_MAX_def)
  note i = loggerVectorInitAdv_ok [OF this]
  show ?thesis
    using vector_ownership [of strcmp ?v "\<lambda>_. True"
        "[Add ''a'', AddUnique ''a'', Add ''b'', Erase 0, Clear]"] i by auto
qed

text \<open>
  \<open>loggerVectorAddFrom\<close> with a granted request inserts the copies of the source at the given
  position, or at the end without one, if the position is not 0 in a non-empty vector (and not
  inside when the source is empty).
\<close>

theorem vector_add_from:
  assumes "vec_ok v" "vec_ok src" "\<And>a. dup a = Some (g a)"
    and "p = (case pos of Some q \<Rightarrow> q | None \<Rightarrow> length (vec_list v))" "p \<le> length (vec_list v)"
    and "0 < p \<or> p = length (vec_list v)" "vec_list src \<noteq> [] \<or> p = length (vec_list v)"
    and "vec_capacity v < vec_size v + vec_size src \<Longrightarrow> grants alloc (vec_size v + vec_size src)"
  shows "\<exists>v'. loggerVectorAddFrom alloc v src pos dup = Inr (1, v') \<and> vec_ok v' \<and>
    vec_list v' = take p (vec_list v) @ map g (vec_list src) @ drop p (vec_list v)"
  using loggerVectorAddFrom_ok [of v src dup g p pos alloc, OF assms(1,2) assms(3) assms(4-8)] by blast

text \<open>A vector that is exactly full.\<close>

definition full_vec :: "'a list \<Rightarrow> 'a vec" where
  "full_vec xs = \<lparr>vec_size = length xs, vec_capacity = length xs, vec_dataFree = True,
     vec_data = Some (map Some xs), vec_freed = []\<rparr>"

lemma full_vec_ok: "length xs < SIZE_MAX \<Longrightarrow> vec_ok (full_vec xs) \<and> vec_list (full_vec xs) = xs"
  by (rule vec_okI [where rest = "[]"]) (simp_all add: full_vec_def)

theorem vector_add_from_witness:
  "\<exists>v. loggerVectorAddFrom (\<lambda>_. True) (full_vec [1, 4]) (full_vec [2, 3]) (Some 1) Some = Inr (1, v) \<and>
    vec_list v = [1, 2, 3, 4 :: int]"
proof -
  have v: "vec_ok (full_vec [1, 4 :: int]) \<and> vec_list (full_vec [1, 4 :: int]) = [1, 4]"
    "vec_ok (full_vec [2, 3 :: int]) \<and> vec_list (full_vec [2, 3 :: int]) = [2, 3]"
    by (rule full_vec_ok, simp add: SIZE_MAX_def)+
  have g: "grants (\<lambda>_. True) (vec_size (full_vec [1, 4 :: int]) + vec_size (full_vec [2, 3 :: int]))"
    by (simp add: grants_def full_vec_def SIZE_MAX_def)
  show ?thesis
    using vector_add_from [of "full_vec [1, 4]" "full_vec [2, 3 :: int]" Some "\<lambda>x. x" 1 "Some 1" "\<lambda>_. True"] v g
    by auto
qed

text \<open>
  Position 0 of a non-empty vector: the loop counter of the move, an unsigned number that is
  never less than 0, wraps around and the vector is read out of bounds.
\<close>

theorem vector_add_from_front:
  assumes "vec_ok v" "vec_list v \<noteq> []"
    and "vec_capacity v < vec_size v + vec_size src \<Longrightarrow> grants alloc (vec_size v + vec_size src)"
  shows "loggerVectorAddFrom alloc v src (Some 0) dup = Inl Out_Of_Bounds"
  using loggerVectorAddFrom_zero [of v src alloc dup, OF assms(1) _ assms(3)] vec_ok_size [OF assms(1)]
    assms(2) by (cases "vec_list v") auto

theorem vector_add_from_front_witness:
  "loggerVectorAddFrom (\<lambda>_. True) (full_vec [''a'']) (full_vec [''b'']) (Some 0) Some = Inl Out_Of_Bounds"
proof -
  have v: "vec_ok (full_vec [''a'']) \<and> vec_list (full_vec [''a'']) = [''a'']"
    by (rule full_vec_ok) (simp add: SIZE_MAX_def)
  have g: "grants (\<lambda>_. True) (vec_size (full_vec [''a'']) + vec_size (full_vec [''b'']))"
    by (simp add: grants_def full_vec_def SIZE_MAX_def)
  show ?thesis by (rule vector_add_from_front) (use v g in auto)
qed

end
