(* ===== verification/LoggerPath.thy ===== *)
theory LoggerPath
  imports CPrelude
begin

text \<open>
  Path resolution of \<^verbatim>\<open>logger/src/ldlogger-util.c\<close>: \<open>makePathAbsRec\<close> and
  \<open>loggerMakePathAbs\<close>.

  What the logger asks of the operating system is the record \<open>os\<close>, an argument of every
  function that uses it: the file system (\<open>os_realpath\<close>, \<open>os_access\<close>, \<open>os_getcwd\<close>, the lines
  of a file), the lines printed by a command (\<open>os_popen\<close>), shell expansion (\<open>os_wordexp\<close>)
  and memory (\<open>os_alloc\<close>). \<open>os_posix\<close> states the documented behaviour of these calls that
  the theorems rely on. The second section characterises the resolved path.
\<close>

section \<open>The operating system\<close>

record os =
  os_alloc :: "nat \<Rightarrow> bool"
  os_realpath :: "string \<Rightarrow> string option"
  os_getcwd :: "string option"
  os_access :: "string \<Rightarrow> bool"
  os_popen :: "string \<Rightarrow> string list option"
  os_readlines :: "string \<Rightarrow> string list option"
  os_wordexp :: "string \<Rightarrow> string list option"

definition dot_free :: "string \<Rightarrow> bool" where
  "dot_free p \<longleftrightarrow> ''.'' \<notin> set (split_on (CHR ''/'') p) \<and> ''..'' \<notin> set (split_on (CHR ''/'') p)"

text \<open>
  POSIX: \<open>realpath\<close> gives an absolute path of fewer than \<open>PATH_MAX\<close> characters without dot
  components, and fails on the empty path; \<open>getcwd\<close> with a buffer of \<open>PATH_MAX\<close> bytes gives
  an absolute path that fits in it.
\<close>

definition os_posix :: "os \<Rightarrow> bool" where
  "os_posix os \<longleftrightarrow>
     (\<forall>p r. os_realpath os p = Some r \<longrightarrow>
        length r < PATH_MAX \<and> take 1 r = ''/'' \<and> dot_free r \<and> NUL \<notin> set r) \<and>
     os_realpath os [] = None \<and>
     (\<forall>d. os_getcwd os = Some d \<longrightarrow> length d < PATH_MAX \<and> take 1 d = ''/'')"

section \<open>Operations\<close>

text \<open>
  \<open>cap\<close> is the size of the buffer \<open>resolved_\<close>. The test \<open>slashPos == path_\<close> of the source
  compares a pointer into the local buffer with the argument and is never true.
\<close>

function makePathAbsRec :: "os \<Rightarrow> nat \<Rightarrow> string \<Rightarrow> fault + string option" where
  "makePathAbsRec os cap path =
     (case os_realpath os path of
        Some r \<Rightarrow> bindC (strcpy_buf cap (take (PATH_MAX - 1) r)) (\<lambda>res. Inr (Some res))
      | None \<Rightarrow>
          bindC (strcpy_buf PATH_MAX path) (\<lambda>pathBuff.
          case strrchr pathBuff (CHR ''/'') of
            None \<Rightarrow> Inr None
          | Some slashPos \<Rightarrow>
              let child = drop (Suc slashPos) pathBuff in
              if strcmp child ''.'' = 0 \<or> strcmp child ''..'' = 0 then Inr None
              else
                bindC (makePathAbsRec os cap (take slashPos pathBuff)) (\<lambda>res.
                case res of
                  None \<Rightarrow> Inr None
                | Some res \<Rightarrow>
                    bindC (strcat_buf cap res ''/'') (\<lambda>res.
                    bindC (strcat_buf cap res child) (\<lambda>res. Inr (Some res))))))"
  by pat_completeness auto
termination
  by (relation "measure (\<lambda>(os, cap, path). length path)") (auto dest: strrchr_SomeD)

declare makePathAbsRec.simps [simp del]

definition loggerMakePathAbs ::
    "os \<Rightarrow> nat \<Rightarrow> string \<Rightarrow> bool \<Rightarrow> fault + string option" where
  "loggerMakePathAbs os cap path mustExist =
     (if path = [] then Inr None
      else if mustExist \<and> \<not> os_access os path then Inr None
      else if path ! 0 \<noteq> CHR ''/'' then
        (case os_getcwd os of
           None \<Rightarrow> Inr None
         | Some cwd \<Rightarrow>
             bindC (strcat_buf PATH_MAX cwd ''/'') (\<lambda>newPath.
             bindC (strcat_buf PATH_MAX newPath path) (\<lambda>newPath.
             makePathAbsRec os cap newPath)))
      else makePathAbsRec os cap path)"

section \<open>Components\<close>

lemma dot_free_append:
  "dot_free (a @ CHR ''/'' # b) \<longleftrightarrow> dot_free a \<and> dot_free b"
  by (auto simp: dot_free_def split_on_append)

lemma dot_free_name:
  "CHR ''/'' \<notin> set s \<Longrightarrow> dot_free s \<longleftrightarrow> s \<noteq> ''.'' \<and> s \<noteq> ''..''"
  by (auto simp: dot_free_def split_on_single)

section \<open>The resolved path\<close>

text \<open>One unfolding, by cases of the code.\<close>

lemma makePathAbsRec_cases:
  assumes "makePathAbsRec os cap path = Inr (Some r)"
  obtains (real) r0 where "os_realpath os path = Some r0" "r = take (PATH_MAX - 1) r0"
      "length r < cap"
  | (parent) d child r0 where "os_realpath os path = None" "path = d @ CHR ''/'' # child"
      "CHR ''/'' \<notin> set child" "child \<noteq> ''.''" "child \<noteq> ''..''"
      "makePathAbsRec os cap d = Inr (Some r0)" "r = r0 @ CHR ''/'' # child" "length r < cap"
      "length path < PATH_MAX"
proof (cases "os_realpath os path")
  case (Some r0)
  with assms show thesis
    by (intro real) (auto simp: makePathAbsRec.simps [of os cap path] bindC_eq_Inr)
next
  case None
  with assms obtain i where i: "strrchr path (CHR ''/'') = Some i" and len: "length path < PATH_MAX"
    by (auto simp: makePathAbsRec.simps [of os cap path] bindC_eq_Inr split: option.splits)
  with None assms obtain r0 where
      "drop (Suc i) path \<noteq> ''.''" "drop (Suc i) path \<noteq> ''..''"
      "makePathAbsRec os cap (take i path) = Inr (Some r0)"
      "r = r0 @ CHR ''/'' # drop (Suc i) path" "length r < cap"
    by (auto simp: makePathAbsRec.simps [of os cap path] bindC_eq_Inr Let_def
        split: option.splits if_splits)
  with None strrchr_split [OF i] len show thesis by (intro parent) auto
qed

text \<open>
  The result is the canonical form of the longest existing prefix followed by the rest of the
  path as written, and the rest has no dot components.
\<close>

lemma boundary_prefix:
  assumes eq: "e @ CHR ''/'' # t = d @ CHR ''/'' # child" and child: "CHR ''/'' \<notin> set child"
  shows "\<exists>u. d = e @ u \<and> (u = [] \<or> take 1 u = ''/'')"
proof -
  from eq obtain us where "e @ us = d \<and> CHR ''/'' # t = us @ CHR ''/'' # child \<or>
      e = d @ us \<and> us @ CHR ''/'' # t = CHR ''/'' # child"
    by (auto simp: append_eq_append_conv2)
  then show ?thesis
  proof
    assume "e @ us = d \<and> CHR ''/'' # t = us @ CHR ''/'' # child"
    then show ?thesis by (cases us) auto
  next
    assume "e = d @ us \<and> us @ CHR ''/'' # t = CHR ''/'' # child"
    with child show ?thesis by (cases us) auto
  qed
qed

lemma makePathAbsRec_prefix:
  "makePathAbsRec os cap path = Inr (Some r) \<Longrightarrow>
     \<exists>d rest r0. path = d @ rest \<and> os_realpath os d = Some r0 \<and>
       r = take (PATH_MAX - 1) r0 @ rest \<and> length r < cap \<and>
       (rest = [] \<or> (\<exists>t. rest = CHR ''/'' # t \<and> dot_free t)) \<and>
       (\<forall>e t. path = e @ t \<longrightarrow> length d < length e \<longrightarrow> t = [] \<or> take 1 t = ''/'' \<longrightarrow>
          os_realpath os e = None)"
proof (induction "length path" arbitrary: path r rule: less_induct)
  case less
  from less.prems show ?case
  proof (cases rule: makePathAbsRec_cases)
    case (real r0)
    then show ?thesis by (intro exI [of _ path] exI [of _ "[]"] exI [of _ r0]) auto
  next
    case (parent d child r0)
    from parent have "length d < length path" by simp
    from less.hyps [OF this parent(6)] obtain d' rest r1 where IH: "d = d' @ rest"
        "os_realpath os d' = Some r1" "r0 = take (PATH_MAX - 1) r1 @ rest"
        "rest = [] \<or> (\<exists>t. rest = CHR ''/'' # t \<and> dot_free t)"
        "\<forall>e t. d = e @ t \<longrightarrow> length d' < length e \<longrightarrow> t = [] \<or> take 1 t = ''/'' \<longrightarrow>
          os_realpath os e = None" by blast
    have child: "dot_free child" using parent by (simp add: dot_free_name)
    have dots: "\<exists>t. rest @ CHR ''/'' # child = CHR ''/'' # t \<and> dot_free t"
      using IH(4) child by (auto simp: dot_free_append)
    have none: "os_realpath os e = None"
      if e: "path = e @ t" "length d' < length e" "t = [] \<or> take 1 t = ''/''" for e t
    proof (cases "t = []")
      case True
      with e parent show ?thesis by simp
    next
      case False
      with e(3) obtain t' where t: "t = CHR ''/'' # t'" by (cases t) auto
      from e(1) parent(2) t have eq: "e @ CHR ''/'' # t' = d @ CHR ''/'' # child" by simp
      have "\<exists>u. d = e @ u \<and> (u = [] \<or> take 1 u = ''/'')"
        using boundary_prefix [OF eq parent(3)] .
      with IH(5) e(2) show ?thesis by blast
    qed
    show ?thesis
    proof (intro exI conjI allI impI)
      show "path = d' @ (rest @ CHR ''/'' # child)" using IH(1) parent(2) by simp
      show "os_realpath os d' = Some r1" by (rule IH(2))
      show "r = take (PATH_MAX - 1) r1 @ (rest @ CHR ''/'' # child)" using IH(3) parent(7) by simp
      show "length r < cap" by (rule parent(8))
      show "rest @ CHR ''/'' # child = [] \<or>
          (\<exists>t. rest @ CHR ''/'' # child = CHR ''/'' # t \<and> dot_free t)" using dots by blast
    qed (rule none)
  qed
qed

text \<open>Under POSIX the result is absolute, free of dot components and fits the buffer.\<close>

lemma makePathAbsRec_absolute:
  assumes posix: "os_posix os" and r: "makePathAbsRec os cap path = Inr (Some r)"
  shows "take 1 r = ''/'' \<and> dot_free r \<and> length r < cap"
proof -
  from makePathAbsRec_prefix [OF r] obtain d rest r0 where p: "os_realpath os d = Some r0"
      "r = take (PATH_MAX - 1) r0 @ rest" "length r < cap"
      "rest = [] \<or> (\<exists>t. rest = CHR ''/'' # t \<and> dot_free t)" by blast
  from posix p(1) have r0: "length r0 < PATH_MAX" "take 1 r0 = ''/''" "dot_free r0"
    by (auto simp: os_posix_def)
  from r0 p(2) have "r = r0 @ rest" by simp
  moreover from r0 have "take 1 (r0 @ rest) = ''/''" by (cases r0) auto
  ultimately show ?thesis using p r0 by (auto simp: dot_free_append)
qed

text \<open>
  No fault: the path fits \<open>PATH_MAX\<close>, and canonical prefixes are at most \<open>k\<close> characters
  longer than what they stand for.
\<close>

lemma makePathAbsRec_no_fault:
  assumes grow: "\<And>d r. os_realpath os d = Some r \<Longrightarrow> length r \<le> length d + k"
  shows "length path < PATH_MAX \<Longrightarrow> length path + k < cap \<Longrightarrow>
    \<exists>res. makePathAbsRec os cap path = Inr res \<and>
      (\<forall>r. res = Some r \<longrightarrow> length r \<le> length path + k)"
proof (induction "length path" arbitrary: path rule: less_induct)
  case less
  show ?case
  proof (cases "os_realpath os path")
    case (Some r0)
    then have "length (take (PATH_MAX - 1) r0) \<le> length path + k" using grow [OF Some] by simp
    with Some less.prems show ?thesis
      by (auto simp: makePathAbsRec.simps [of os cap path] bindC_eq_Inr)
  next
    case None
    show ?thesis
    proof (cases "strrchr path (CHR ''/'')")
      case None
      with \<open>os_realpath os path = None\<close> less.prems show ?thesis
        by (auto simp: makePathAbsRec.simps [of os cap path] strcpy_buf_def)
    next
      case (Some i)
      from strrchr_SomeD [OF Some] have i: "i < length path" by simp
      have "\<exists>res. makePathAbsRec os cap (take i path) = Inr res \<and>
          (\<forall>r. res = Some r \<longrightarrow> length r \<le> length (take i path) + k)"
        by (rule less.hyps) (use i less.prems in auto)
      then obtain res where res: "makePathAbsRec os cap (take i path) = Inr res"
          "\<forall>r. res = Some r \<longrightarrow> length r \<le> i + k" using i by auto
      with None Some less.prems i show ?thesis
        by (cases res) (auto simp: makePathAbsRec.simps [of os cap path] strcpy_buf_def
            strcat_buf_def Let_def)
    qed
  qed
qed

text \<open>A larger buffer gives the same result.\<close>

lemma makePathAbsRec_cap:
  "makePathAbsRec os cap path = Inr res \<Longrightarrow> cap \<le> cap' \<Longrightarrow> makePathAbsRec os cap' path = Inr res"
proof (induction "length path" arbitrary: path res rule: less_induct)
  case less
  show ?case
  proof (cases "os_realpath os path")
    case (Some r0)
    with less.prems show ?thesis
      by (auto simp: makePathAbsRec.simps [of os cap path] makePathAbsRec.simps [of os cap' path]
          bindC_eq_Inr)
  next
    case none: None
    with less.prems have len: "length path < PATH_MAX"
      by (auto simp: makePathAbsRec.simps [of os cap path] bindC_eq_Inr)
    show ?thesis
    proof (cases "strrchr path (CHR ''/'')")
      case None
      with none len less.prems show ?thesis
        by (simp add: makePathAbsRec.simps [of os cap path] makePathAbsRec.simps [of os cap' path]
            strcpy_buf_def)
    next
      case (Some i)
      let ?child = "drop (Suc i) path"
      have lt: "length (take i path) < length path" using strrchr_SomeD [OF Some] by simp
      show ?thesis
      proof (cases "?child = ''.'' \<or> ?child = ''..''")
        case True
        with Some none len less.prems show ?thesis
          by (auto simp: makePathAbsRec.simps [of os cap path] makePathAbsRec.simps [of os cap' path]
              strcpy_buf_def Let_def)
      next
        case False
        from less.prems Some none len False obtain res' where
          rec: "makePathAbsRec os cap (take i path) = Inr res'"
          by (auto simp: makePathAbsRec.simps [of os cap path] strcpy_buf_def Let_def bindC_eq_Inr)
        have "makePathAbsRec os cap' (take i path) = Inr res'"
          by (rule less.hyps [OF lt rec less.prems(2)])
        with rec Some none len False less.prems show ?thesis
          by (cases res') (auto simp: makePathAbsRec.simps [of os cap path]
              makePathAbsRec.simps [of os cap' path] strcpy_buf_def strcat_buf_def Let_def
              split: if_splits)
      qed
    qed
  qed
qed

lemma loggerMakePathAbs_cap:
  "loggerMakePathAbs os cap path m = Inr res \<Longrightarrow> cap \<le> cap' \<Longrightarrow>
     loggerMakePathAbs os cap' path m = Inr res"
  by (auto simp: loggerMakePathAbs_def bindC_eq_Inr intro: makePathAbsRec_cap
      split: if_splits option.splits)

lemma loggerMakePathAbs_absolute:
  assumes "os_posix os" and "loggerMakePathAbs os cap path m = Inr (Some r)"
  shows "take 1 r = ''/'' \<and> dot_free r \<and> length r < cap"
proof -
  from assms(2) obtain p where "makePathAbsRec os cap p = Inr (Some r)"
    by (auto simp: loggerMakePathAbs_def bindC_eq_Inr split: if_splits option.splits)
  then show ?thesis by (rule makePathAbsRec_absolute [OF assms(1)])
qed

lemma loggerMakePathAbs_exists:
  "loggerMakePathAbs os cap path True = Inr (Some r) \<Longrightarrow> os_access os path"
  by (auto simp: loggerMakePathAbs_def split: if_splits)

text \<open>An argument that does not fit the buffer, and does not resolve, smashes it.\<close>

lemma makePathAbsRec_overflow:
  "os_realpath os path = None \<Longrightarrow> PATH_MAX \<le> length path \<Longrightarrow>
     makePathAbsRec os cap path = Inl Buffer_Overflow"
  by (simp add: makePathAbsRec.simps [of os cap path] strcpy_buf_def)

section \<open>A concrete system\<close>

text \<open>
  A small machine for the witnesses of the properties: memory is always granted, the working
  directory is \<^verbatim>\<open>/w\<close> with the files \<^verbatim>\<open>a.c\<close> and \<^verbatim>\<open>B.java\<close>, and the compiler reports one include
  directory.
\<close>

definition example_os :: os where
  "example_os =
     \<lparr>os_alloc = (\<lambda>_. True),
      os_realpath = (\<lambda>p. if p \<in> {''/w'', ''/w/a.c'', ''/w/B.java'', ''/usr/include''} then Some p
                         else if p = ''/w/.'' then Some ''/w'' else None),
      os_getcwd = Some ''/w'',
      os_access = (\<lambda>p. p \<in> {''a.c'', ''/w/a.c'', ''./B.java'', ''/w/B.java'', ''.''}),
      os_popen = (\<lambda>_. Some [''#include <...> search starts here:'' @ [CHR 0x0A],
                            '' /usr/include'' @ [CHR 0x0A], ''End of search list.'' @ [CHR 0x0A]]),
      os_readlines = (\<lambda>_. None),
      os_wordexp = (\<lambda>w. Some [w])\<rparr>"

lemma example_os_simps [simp]:
  "os_alloc example_os n = True"
  "os_getcwd example_os = Some ''/w''"
  "os_realpath example_os [] = None"
  by (simp_all add: example_os_def)

lemma example_os_posix: "os_posix example_os"
  by (auto simp: os_posix_def example_os_def PATH_MAX_def dot_free_def NUL_def)

section \<open>Properties\<close>

text \<open>
  A resolved path is the canonical name of the longest prefix of the path (cut at a slash)
  that exists, followed by the rest as it was written, and this rest has no \<open>.\<close> or \<open>..\<close>
  components; in particular an existing path resolves to its canonical name.
\<close>

theorem resolved_path_prefix:
  assumes "makePathAbsRec os cap path = Inr (Some r)" and "os_posix os"
  shows "\<exists>d rest r0. path = d @ rest \<and> os_realpath os d = Some r0 \<and> r = r0 @ rest \<and> length r < cap \<and>
    (rest = [] \<or> (\<exists>t. rest = CHR ''/'' # t \<and> dot_free t)) \<and>
    (\<forall>e t. path = e @ t \<longrightarrow> length d < length e \<longrightarrow> t = [] \<or> take 1 t = ''/'' \<longrightarrow> os_realpath os e = None)"
proof -
  from makePathAbsRec_prefix [OF assms(1)] obtain d rest r0 where r: "path = d @ rest"
      "os_realpath os d = Some r0" "r = take (PATH_MAX - 1) r0 @ rest" "length r < cap"
      "rest = [] \<or> (\<exists>t. rest = CHR ''/'' # t \<and> dot_free t)"
      "\<forall>e t. path = e @ t \<longrightarrow> length d < length e \<longrightarrow> t = [] \<or> take 1 t = ''/'' \<longrightarrow> os_realpath os e = None"
    by blast
  from assms(2) r(2) have "length r0 < PATH_MAX" by (auto simp: os_posix_def)
  with r(3) have "r = r0 @ rest" by simp
  with r show ?thesis by blast
qed

theorem resolved_path_prefix_witness:
  "\<exists>d rest r0. ''/w/new/x.c'' = d @ rest \<and> os_realpath example_os d = Some r0 \<and> ''/w/new/x.c'' = r0 @ rest"
proof -
  have "makePathAbsRec example_os PATH_MAX ''/w/new/x.c'' = Inr (Some ''/w/new/x.c'')" by code_simp
  from resolved_path_prefix [OF this example_os_posix] show ?thesis by blast
qed

text \<open>
  No overflow: if canonical names are at most \<open>k\<close> characters longer than what they stand
  for, a path of less than \<open>PATH_MAX\<close> characters resolves without a fault into every buffer with
  \<open>k\<close> bytes to spare, and the recursion ends.
\<close>

theorem resolve_no_fault:
  assumes "\<And>d r. os_realpath os d = Some r \<Longrightarrow> length r \<le> length d + k"
    and "length path < PATH_MAX" "length path + k < cap"
  shows "\<exists>res. makePathAbsRec os cap path = Inr res \<and> (\<forall>r. res = Some r \<longrightarrow> length r \<le> length path + k)"
  by (rule makePathAbsRec_no_fault [OF assms])

theorem resolve_no_fault_witness:
  "\<exists>res. makePathAbsRec example_os 100 ''/w/new/x.c'' = Inr res \<and>
    (\<forall>r. res = Some r \<longrightarrow> length r \<le> length ''/w/new/x.c'' + 0)"
proof (rule resolve_no_fault)
  show "length r \<le> length d + 0" if "os_realpath example_os d = Some r" for d r
    using that by (auto simp: example_os_def split: if_splits)
qed (simp_all add: PATH_MAX_def)

end
