(* ===== verification/LoggerAction.thy ===== *)
theory LoggerAction
  imports LoggerStrings LoggerVector LoggerPath
begin

text \<open>
  The data of \<^verbatim>\<open>logger/src/ldlogger-tool.h\<close> (\<open>LoggerFile\<close>, \<open>LoggerAction\<close>), its life cycle
  from \<^verbatim>\<open>ldlogger-tool.c\<close>, and the process environment: \<open>getenv\<close>, the tool lists
  (\<open>matchToProgramList\<close>) and the switch that disables logging in child processes
  (\<open>turnLogging\<close>).

  The environment is \<^verbatim>\<open>environ\<close>, the list of its \<open>NAME=value\<close> strings.
\<close>

section \<open>Actions\<close>

record logger_file =
  file_path :: string

record action =
  act_output :: logger_file
  act_arguments :: "string vec"
  act_sources :: "string vec"
  act_toolName :: string

text \<open>\<open>sizeof(LoggerAction)\<close>: two path buffers and two vectors of four words.\<close>

definition SIZEOF_ACTION :: nat where "SIZEOF_ACTION = 2 * PATH_MAX + 2 * 32"

definition loggerFileInitFromPath :: "os \<Rightarrow> string \<Rightarrow> fault + logger_file" where
  "loggerFileInitFromPath os path =
     bindC (loggerMakePathAbs os PATH_MAX path False) (\<lambda>r.
     bindC (case r of Some p \<Rightarrow> Inr p | None \<Rightarrow> strcpy_buf PATH_MAX path) (\<lambda>p.
     Inr \<lparr>file_path = p\<rparr>))"

definition loggerActionNew :: "os \<Rightarrow> string \<Rightarrow> fault + action option" where
  "loggerActionNew os tool =
     (if \<not> os_alloc os SIZEOF_ACTION then Inr None
      else
        bindC (loggerFileInitFromPath os ''./_noobj'') (\<lambda>out.
        bindC (strcpy_buf PATH_MAX tool) (\<lambda>tn.
        Inr (Some \<lparr>act_output = out, act_arguments = snd (loggerVectorInit (os_alloc os)),
                   act_sources = snd (loggerVectorInit (os_alloc os)), act_toolName = tn\<rparr>))))"

definition loggerActionFree :: "action option \<Rightarrow> action option" where
  "loggerActionFree act =
     (case act of
        None \<Rightarrow> None
      | Some a \<Rightarrow> Some (a\<lparr>act_arguments := loggerVectorClear (act_arguments a),
                        act_sources := loggerVectorClear (act_sources a)\<rparr>))"

lemma loggerFileInitFromPath_Inr:
  "loggerFileInitFromPath os p = Inr f \<longleftrightarrow>
     (\<exists>r. loggerMakePathAbs os PATH_MAX p False = Inr r \<and>
       (case r of Some q \<Rightarrow> f = \<lparr>file_path = q\<rparr>
        | None \<Rightarrow> f = \<lparr>file_path = p\<rparr> \<and> length p < PATH_MAX))"
  by (auto simp: loggerFileInitFromPath_def bindC_eq_Inr split: option.splits)

text \<open>A new action owns two empty vectors, unless memory ran out on the way.\<close>

lemma loggerActionNew_vectors:
  assumes "loggerActionNew os tool = Inr (Some a)" and "grants (os_alloc os) 10"
  shows "vec_ok (act_arguments a) \<and> vec_list (act_arguments a) = [] \<and>
    vec_ok (act_sources a) \<and> vec_list (act_sources a) = [] \<and> act_toolName a = tool"
proof -
  have "fst (loggerVectorInit (os_alloc os) :: bool \<times> string vec)"
    using assms(2) by (simp add: loggerVectorInit_def loggerVectorInitAdv_def Let_def)
  then have "loggerVectorInitAdv (os_alloc os) 10 True =
      (True, snd (loggerVectorInit (os_alloc os)) :: string vec)"
    by (simp add: loggerVectorInit_def prod_eq_iff)
  from loggerVectorInitAdv_ok [OF this] assms(1) show ?thesis
    by (auto simp: loggerActionNew_def bindC_eq_Inr split: if_splits)
qed

section \<open>The environment\<close>

text \<open>\<open>getenv\<close>: the value of the first entry for the name.\<close>

fun getenv :: "string list \<Rightarrow> string \<Rightarrow> string option" where
  "getenv [] name = None"
| "getenv (e # es) name =
     (if take (Suc (length name)) e = name @ ''='' then Some (drop (Suc (length name)) e)
      else getenv es name)"

definition unsetenv :: "string list \<Rightarrow> string \<Rightarrow> string list" where
  "unsetenv es name = filter (\<lambda>e. take (Suc (length name)) e \<noteq> name @ ''='') es"

lemma getenv_unsetenv [simp]: "getenv (unsetenv es name) name = None"
  by (induction es) (auto simp: unsetenv_def)

lemma getenv_unsetenv_other:
  assumes "name \<noteq> n" "CHR ''='' \<notin> set name" "CHR ''='' \<notin> set n"
  shows "getenv (unsetenv es n) name = getenv es name"
proof (induction es)
  case (Cons e es)
  have "take (Suc (length n)) e \<noteq> n @ ''=''" if "take (Suc (length name)) e = name @ ''=''"
  proof
    assume "take (Suc (length n)) e = n @ ''=''"
    then have "e = n @ CHR ''='' # drop (Suc (length n)) e"
      by (metis append.assoc append_Cons append_Nil append_take_drop_id)
    moreover have "e = name @ CHR ''='' # drop (Suc (length name)) e"
      using that by (metis append.assoc append_Cons append_Nil append_take_drop_id)
    ultimately have "name @ CHR ''='' # drop (Suc (length name)) e = n @ CHR ''='' # drop (Suc (length n)) e"
      by (rule trans [OF sym, rotated])
    then have "name = n" using separator_eq [OF assms(2,3)] by blast
    with assms(1) show False by simp
  qed
  with Cons show ?case by (auto simp: unsetenv_def)
qed (simp add: unsetenv_def)

definition matchToProgramList ::
    "(nat \<Rightarrow> bool) \<Rightarrow> string list \<Rightarrow> string \<Rightarrow> string \<Rightarrow> bool" where
  "matchToProgramList alloc environ envVar progName =
     (case getenv environ envVar of
        None \<Rightarrow> False
      | Some progListVar \<Rightarrow>
          (case loggerStrDup alloc progListVar of
             None \<Rightarrow> False
           | Some progList \<Rightarrow>
               list_ex (\<lambda>token. strstr progName token \<noteq> None) (strtok progList '':'')))"

lemma matchToProgramList_iff:
  "matchToProgramList alloc environ envVar progName \<longleftrightarrow>
     (\<exists>l. getenv environ envVar = Some l \<and> alloc (Suc (length l)) \<and>
        (\<exists>t \<in> set (strtok l '':''). sublist t progName))"
  by (auto simp: matchToProgramList_def list_ex_iff strstr_None split: option.splits if_splits)

text \<open>The empty program name matches no list.\<close>

lemma matchToProgramList_empty: "\<not> matchToProgramList alloc environ envVar []"
  by (auto simp: matchToProgramList_iff dest: strtok_token)

definition LD_PRELOAD_EQ :: string where "LD_PRELOAD_EQ = ''LD_PRELOAD=''"

text \<open>The first character of every entry that contains \<open>LD_PRELOAD=\<close> is overwritten.\<close>

definition turnLogging :: "bool \<Rightarrow> string list \<Rightarrow> string list" where
  "turnLogging on environ =
     map (\<lambda>e. if strstr e LD_PRELOAD_EQ \<noteq> None
              then e[0 := (if on then CHR ''L'' else CHR ''X'')] else e) environ"

lemma length_turnLogging [simp]: "length (turnLogging b es) = length es"
  by (simp add: turnLogging_def)

text \<open>An entry that mentions \<open>LD_PRELOAD=\<close> at most once, at its start.\<close>

definition plain_entry :: "string \<Rightarrow> bool" where
  "plain_entry e \<longleftrightarrow> strstr (tl e) LD_PRELOAD_EQ = None"

lemma strstr_tl:
  "e \<noteq> [] \<Longrightarrow> strstr (tl e) n = None \<Longrightarrow> take (length n) e \<noteq> n \<Longrightarrow> strstr e n = None"
  by (cases e) auto

text \<open>
  Switching off hides the variable from \<open>strstr\<close> too (the entry now starts with
  \<open>XD_PRELOAD=\<close>), so switching on again finds nothing to restore.
\<close>

lemma turn_off_entry:
  assumes "plain_entry e"
  shows "strstr (if strstr e LD_PRELOAD_EQ \<noteq> None then e[0 := CHR ''X''] else e) LD_PRELOAD_EQ = None"
proof (cases e)
  case Nil
  then show ?thesis by (simp add: LD_PRELOAD_EQ_def)
next
  case (Cons c cs)
  with assms show ?thesis by (auto simp: plain_entry_def LD_PRELOAD_EQ_def)
qed

lemma turnLogging_on_after_off:
  assumes "\<forall>e \<in> set environ. plain_entry e"
  shows "turnLogging True (turnLogging False environ) = turnLogging False environ"
  using assms turn_off_entry
  by (auto simp: turnLogging_def intro!: map_cong)

lemma turnLogging_off_getenv:
  assumes "\<forall>e \<in> set environ. plain_entry e"
  shows "getenv (turnLogging False environ) ''LD_PRELOAD'' = None"
  using assms
proof (induction environ)
  case (Cons e es)
  define f where "f = (if strstr e LD_PRELOAD_EQ \<noteq> None then e[0 := CHR ''X''] else e)"
  have "strstr f LD_PRELOAD_EQ = None" using Cons.prems turn_off_entry by (simp add: f_def)
  then have "take (Suc (length ''LD_PRELOAD'')) f \<noteq> ''LD_PRELOAD'' @ ''=''"
    by (cases f) (auto simp: LD_PRELOAD_EQ_def split: if_splits)
  with Cons show ?case
    by (cases "strstr e LD_PRELOAD_EQ = None") (simp_all add: turnLogging_def f_def)
qed (simp add: turnLogging_def)

text \<open>Entries that do not mention \<open>LD_PRELOAD=\<close> are untouched.\<close>

lemma turnLogging_other:
  "\<forall>e \<in> set environ. strstr e LD_PRELOAD_EQ = None \<Longrightarrow> turnLogging b environ = environ"
  by (auto simp: turnLogging_def intro: map_idI)

end
