(* ===== verification/LoggerResolve.thy ===== *)
theory LoggerResolve
  imports LoggerAction
begin

text \<open>
  What the two argument parsers share: the path an argument resolves to (\<open>resolve\<close>), when it
  does so without overflow (\<open>fits\<close>, \<open>bounded_growth\<close>), the insertion order of a vector
  filled by \<open>loggerVectorAddUnique\<close> (\<open>insert_all\<close>), and new actions under these conditions.
\<close>

section \<open>Resolved paths\<close>

text \<open>The path an argument resolves to, without the buffer.\<close>

definition resolve :: "os \<Rightarrow> string \<Rightarrow> bool \<Rightarrow> string option" where
  "resolve os p m = (case loggerMakePathAbs os PATH_MAX p m of Inr r \<Rightarrow> r | Inl _ \<Rightarrow> None)"

definition or_else :: "'a option \<Rightarrow> 'a \<Rightarrow> 'a" where
  "or_else x d = (case x of Some y \<Rightarrow> y | None \<Rightarrow> d)"

text \<open>Insertion at the end unless already there, as the source vector does it.\<close>

fun insert_all :: "'a list \<Rightarrow> 'a list \<Rightarrow> 'a list" where
  "insert_all xs [] = xs"
| "insert_all xs (y # ys) = insert_all (if y \<in> set xs then xs else xs @ [y]) ys"

lemma insert_all_append: "insert_all xs (ys @ zs) = insert_all (insert_all xs ys) zs"
  by (induction ys arbitrary: xs) auto

lemma set_insert_all [simp]: "set (insert_all xs ys) = set xs \<union> set ys"
  by (induction ys arbitrary: xs) auto

lemma distinct_insert_all: "distinct xs \<Longrightarrow> distinct (insert_all xs ys)"
  by (induction ys arbitrary: xs) auto

lemma length_insert_all: "length (insert_all xs ys) \<le> length xs + length ys"
proof (induction ys arbitrary: xs)
  case (Cons y ys)
  then show ?case using Cons.IH [of xs] Cons.IH [of "xs @ [y]"] by (auto intro: le_SucI)
qed simp

section \<open>No overflow\<close>

text \<open>
  \<open>fits os n p\<close>: the absolute form of \<open>p\<close>, with \<open>n\<close> more characters and the two of a \<open>-I\<close>
  prefix, fits a path buffer. \<open>bounded_growth os k\<close>: a canonical name is at most \<open>k\<close>
  characters longer than the name it stands for.
\<close>

definition fits :: "os \<Rightarrow> nat \<Rightarrow> string \<Rightarrow> bool" where
  "fits os n p \<longleftrightarrow>
     (if take 1 p = ''/'' then length p
      else case os_getcwd os of Some d \<Rightarrow> length d + 1 + length p | None \<Rightarrow> length p) + n + 2 < PATH_MAX"

definition bounded_growth :: "os \<Rightarrow> nat \<Rightarrow> bool" where
  "bounded_growth os k \<longleftrightarrow> (\<forall>d r. os_realpath os d = Some r \<longrightarrow> length r \<le> length d + k)"

lemma fits_length: "fits os n p \<Longrightarrow> length p + n + 2 < PATH_MAX"
  by (auto simp: fits_def split: if_splits option.splits)

lemma fits_drop: "fits os n p \<Longrightarrow> take 1 p \<noteq> ''/'' \<Longrightarrow> fits os n (drop i p)"
  by (auto simp: fits_def split: if_splits option.splits)

lemma bounded_growthD:
  "bounded_growth os k \<Longrightarrow> os_realpath os d = Some r \<Longrightarrow> length r \<le> length d + k"
  by (simp add: bounded_growth_def)

lemma makePathAbsRec_fits:
  assumes "bounded_growth os k" "length q + k + n + 2 < PATH_MAX"
  shows "\<exists>res. makePathAbsRec os PATH_MAX q = Inr res \<and>
    (\<forall>r. res = Some r \<longrightarrow> length r + n + 2 < PATH_MAX)"
proof -
  have "\<exists>res. makePathAbsRec os PATH_MAX q = Inr res \<and> (\<forall>r. res = Some r \<longrightarrow> length r \<le> length q + k)"
    by (rule makePathAbsRec_no_fault [OF bounded_growthD [OF assms(1)]]) (use assms(2) in auto)
  with assms(2) show ?thesis by (elim ex_forward) auto
qed

lemma resolve_fits:
  assumes grow: "bounded_growth os k" and fit: "fits os (k + n) p"
  shows "loggerMakePathAbs os PATH_MAX p m = Inr (resolve os p m)" (is ?A)
    and "resolve os p m = Some r \<Longrightarrow> length r + n + 2 < PATH_MAX" (is "_ \<Longrightarrow> ?B r")
proof -
  have "\<exists>res. loggerMakePathAbs os PATH_MAX p m = Inr res \<and> (\<forall>r. res = Some r \<longrightarrow> ?B r)"
  proof (cases "p = [] \<or> m \<and> \<not> os_access os p")
    case True
    then show ?thesis by (auto simp: loggerMakePathAbs_def)
  next
    case False
    then obtain c cs where p: "p = c # cs" by (cases p) auto
    show ?thesis
    proof (cases "c = CHR ''/''")
      case True
      with False p fit makePathAbsRec_fits [OF grow, of p n] show ?thesis
        by (simp add: loggerMakePathAbs_def fits_def)
    next
      case rel: False
      show ?thesis
      proof (cases "os_getcwd os")
        case None
        with False p rel show ?thesis by (simp add: loggerMakePathAbs_def)
      next
        case (Some d)
        with False p rel fit makePathAbsRec_fits [OF grow, of "d @ ''/'' @ p" n] show ?thesis
          by (simp add: loggerMakePathAbs_def fits_def strcat_buf_def strcpy_buf_def)
      qed
    qed
  qed
  then obtain res where "loggerMakePathAbs os PATH_MAX p m = Inr res" "\<forall>r. res = Some r \<longrightarrow> ?B r"
    by blast
  then show ?A "resolve os p m = Some r \<Longrightarrow> ?B r" by (simp_all add: resolve_def)
qed

lemma resolve_absolute:
  "os_posix os \<Longrightarrow> resolve os p m = Some r \<Longrightarrow> take 1 r = ''/'' \<and> dot_free r"
  by (auto simp: resolve_def split: sum.splits dest: loggerMakePathAbs_absolute)

text \<open>The output file: the path is resolved a second time.\<close>

lemma loggerFileInitFromPath_fits:
  assumes "bounded_growth os k" "fits os k p"
  shows "loggerFileInitFromPath os p = Inr \<lparr>file_path = or_else (resolve os p False) p\<rparr>"
  using resolve_fits(1) [of os k 0 p False] assms fits_length [of os k p]
  by (auto simp: loggerFileInitFromPath_def or_else_def strcpy_buf_def split: option.splits)

text \<open>A well-formed action under construction.\<close>

definition act_ok :: "action \<Rightarrow> bool" where
  "act_ok a \<longleftrightarrow> vec_tight (act_arguments a) \<and> vec_tight (act_sources a)"

text \<open>The initial output of an action.\<close>

definition noobj :: "os \<Rightarrow> string" where
  "noobj os = or_else (resolve os ''./_noobj'' False) ''./_noobj''"

lemma loggerVectorInit_granted:
  assumes mem: "\<And>n. alloc n" and v: "v = snd (loggerVectorInit alloc)"
  shows "vec_tight v \<and> vec_list v = []"
proof -
  have "grants alloc 10" by (rule grants_limit [OF mem]) (simp add: VEC_LIMIT_def)
  then have i: "loggerVectorInitAdv alloc 10 True = (True, v)" and cap: "vec_capacity v = 10"
    by (simp_all add: v loggerVectorInit_def loggerVectorInitAdv_def Let_def)
  from loggerVectorInitAdv_ok [OF i] cap show ?thesis by (simp add: vec_tight_def)
qed

lemma loggerActionNew_fits:
  assumes mem: "\<And>n. os_alloc os n" and "bounded_growth os k" "fits os k ''./_noobj''"
    and "length tool < PATH_MAX"
  obtains a where "loggerActionNew os tool = Inr (Some a)" "act_ok a"
    "vec_list (act_arguments a) = []" "vec_list (act_sources a) = []"
    "file_path (act_output a) = noobj os" "act_toolName a = tool"
proof -
  have out: "loggerFileInitFromPath os ''./_noobj'' = Inr \<lparr>file_path = noobj os\<rparr>"
    using loggerFileInitFromPath_fits [OF assms(2,3)] by (simp add: noobj_def)
  define a where "a = \<lparr>act_output = \<lparr>file_path = noobj os\<rparr>,
      act_arguments = snd (loggerVectorInit (os_alloc os)),
      act_sources = snd (loggerVectorInit (os_alloc os)), act_toolName = tool\<rparr>"
  have "loggerActionNew os tool = Inr (Some a)"
    using mem out assms(4) by (simp add: loggerActionNew_def a_def strcpy_buf_def)
  then show thesis
    by (rule that) (simp_all add: a_def act_ok_def loggerVectorInit_granted [OF mem refl])
qed

text \<open>An empty vector of actions, for the examples.\<close>

definition no_actions :: "action vec" where
  "no_actions = snd (loggerVectorInitAdv (\<lambda>_. True) 10 True)"

lemma no_actions_ok: "vec_tight no_actions \<and> vec_list no_actions = []"
  unfolding no_actions_def
  by (rule loggerVectorInit_granted [of "\<lambda>_. True"]) (simp_all add: loggerVectorInit_def)

lemma no_actions_limit: "length (vec_list no_actions) < VEC_LIMIT"
  by (simp add: no_actions_ok VEC_LIMIT_def)

lemma example_bounded_growth: "bounded_growth example_os 0"
  by (auto simp: bounded_growth_def example_os_def)

end
