(* ===== verification/LoggerGcc.thy ===== *)
theory LoggerGcc
  imports LoggerResolve
begin

text \<open>
  \<^verbatim>\<open>logger/src/ldlogger-tool-gcc.c\<close>: the argument parser for GCC-like compilers. The state
  machine \<open>processArgument\<close> rewrites one argument and records sources and output;
  \<open>getDefaultArguments\<close> reads the compiler's own include directories from its verbose
  output; \<open>loggerGccParserCollectActions\<close> drives them over \<open>argv\<close>.

  \<open>gcc_words\<close>, \<open>gcc_sources\<close> and \<open>gcc_output\<close> are the specification: one pass over the
  arguments without buffers, vectors or faults. \<open>gcc_loop_spec\<close> proves the equivalence.
\<close>

section \<open>The argument state machine\<close>

datatype GccArgsState = Normal | InOutputArg

definition srcExts :: "string list" where
  "srcExts = [''c'', ''cc'', ''cpp'', ''cxx'', ''h'', ''hh'', ''hxx'', ''hpp'', ''o'', ''so'', ''a'']"

definition isGccLibPath :: "string \<Rightarrow> bool" where
  "isGccLibPath path =
     (case strstr path ''/lib/gcc'' of
        None \<Rightarrow> False
      | Some gccStart \<Rightarrow> strstr (drop gccStart path) ''include'' \<noteq> None)"

text \<open>\<open>arg_[0] == '-' && (arg_[1] == 'I' || arg_[1] == 'L') && arg_[2]\<close>.\<close>

fun is_path_option :: "string \<Rightarrow> bool" where
  "is_path_option (a # b # c # _) \<longleftrightarrow> a = CHR ''-'' \<and> (b = CHR ''I'' \<or> b = CHR ''L'')"
| "is_path_option _ \<longleftrightarrow> False"

text \<open>The loop over \<open>srcExts\<close>.\<close>

definition is_src_ext :: "string \<Rightarrow> bool" where
  "is_src_ext ext = list_ex (\<lambda>e. strcmp e ext = 0) srcExts"

text \<open>The four branches of \<open>processArgument\<close>: the new state, the text to record, the action.\<close>

definition gcc_branches ::
    "os \<Rightarrow> GccArgsState \<Rightarrow> string \<Rightarrow> string \<Rightarrow> action \<Rightarrow>
       fault + (GccArgsState \<times> string \<times> action)" where
  "gcc_branches os state arg argToAdd act =
     (if state = InOutputArg then
        bindC (loggerMakePathAbs os PATH_MAX arg False) (\<lambda>r.
        bindC (case r of Some p \<Rightarrow> Inr p | None \<Rightarrow> strcpy_buf PATH_MAX arg) (\<lambda>argToAdd.
        bindC (loggerFileInitFromPath os argToAdd) (\<lambda>out.
        Inr (Normal, argToAdd, act\<lparr>act_output := out\<rparr>))))
      else if strcmp arg ''-o'' = 0 then Inr (InOutputArg, argToAdd, act)
      else if is_path_option arg then
        bindC (loggerMakePathAbs os PATH_MAX (drop 2 arg) False) (\<lambda>r.
        case r of
          None \<Rightarrow> Inr (state, argToAdd, act)
        | Some fullPath \<Rightarrow>
            bindC (strcat_buf PATH_MAX (take 2 argToAdd) fullPath) (\<lambda>argToAdd.
            Inr (state, argToAdd, act)))
      else
        bindC (loggerMakePathAbs os PATH_MAX argToAdd True) (\<lambda>r.
        case r of
          None \<Rightarrow> Inr (state, argToAdd, act)
        | Some fullPath \<Rightarrow>
            (case loggerGetFileExt (os_alloc os) fullPath True of
               None \<Rightarrow> Inr (state, argToAdd, act)
             | Some ext \<Rightarrow>
                 if is_src_ext ext then
                   bindC (loggerVectorAddUnique (os_alloc os) (act_sources act)
                            (loggerStrDup (os_alloc os) fullPath) strcmp) (\<lambda>(_, srcs).
                   Inr (state, fullPath, act\<lparr>act_sources := srcs\<rparr>))
                 else Inr (state, argToAdd, act))))"

definition record_argument ::
    "os \<Rightarrow> GccArgsState \<times> string \<times> action \<Rightarrow> fault + (GccArgsState \<times> action)" where
  "record_argument os = (\<lambda>(state, argToAdd, act).
     if argToAdd \<noteq> [] then
       bindC (loggerVectorAdd (os_alloc os) (act_arguments act)
                (loggerStrDup (os_alloc os) argToAdd)) (\<lambda>(_, args).
       Inr (state, act\<lparr>act_arguments := args\<rparr>))
     else Inr (state, act))"

definition processArgument ::
    "os \<Rightarrow> GccArgsState \<Rightarrow> string \<Rightarrow> action \<Rightarrow> fault + (GccArgsState \<times> action)" where
  "processArgument os state arg act =
     bindC (strcpy_buf PATH_MAX arg) (\<lambda>argToAdd.
     bindC (gcc_branches os state arg argToAdd act) (record_argument os))"

section \<open>Default include directories\<close>

definition popen_suffix :: string where
  "popen_suffix = '' -xc++ -E -v - < /dev/null 2>&1''"

fun default_lines :: "os \<Rightarrow> bool \<Rightarrow> string list \<Rightarrow> string vec \<Rightarrow> fault + string vec" where
  "default_lines os incStarted [] args = Inr args"
| "default_lines os incStarted (line # rest) args =
     (if \<not> incStarted then
        default_lines os (strstr line ''#include <...> search starts here'' \<noteq> None) rest args
      else if strstr line ''End of search list'' \<noteq> None then Inr args
      else
        let pathStart = takeWhile (\<lambda>c. \<not> isspace c) (dropWhile isspace line) in
        if pathStart = [] then default_lines os incStarted rest args
        else
          bindC (loggerMakePathAbs os (PATH_MAX - 2) pathStart False) (\<lambda>r.
          case r of
            None \<Rightarrow> default_lines os incStarted rest args
          | Some p \<Rightarrow>
              let fullPath = ''-I'' @ p in
              if isGccLibPath fullPath then default_lines os incStarted rest args
              else
                bindC (loggerVectorAdd (os_alloc os) args
                         (loggerStrDup (os_alloc os) fullPath)) (\<lambda>(_, args).
                default_lines os incStarted rest args)))"

definition getDefaultArguments :: "os \<Rightarrow> string \<Rightarrow> string vec \<Rightarrow> fault + string vec" where
  "getDefaultArguments os prog args =
     bindC (strcpy_buf PATH_MAX prog) (\<lambda>command.
     bindC (strcat_buf PATH_MAX command popen_suffix) (\<lambda>command.
     case os_popen os command of
       None \<Rightarrow> Inr args
     | Some ls \<Rightarrow> default_lines os False ls args))"

section \<open>Collecting the action\<close>

text \<open>The loop over \<open>argv\<close>, with the position after the last include path.\<close>

fun gcc_loop ::
    "os \<Rightarrow> string list \<Rightarrow> GccArgsState \<Rightarrow> action \<Rightarrow> nat \<Rightarrow> fault + (action \<times> nat)" where
  "gcc_loop os [] state act lastIncPos = Inr (act, lastIncPos)"
| "gcc_loop os (arg # argv) state act lastIncPos =
     bindC (processArgument os state arg act) (\<lambda>(state, act).
       gcc_loop os argv state act
         (if take 2 arg = ''-I'' then
            (if drop 2 arg \<noteq> [] then vec_size (act_arguments act)
             else vec_size (act_arguments act) + 1)
          else lastIncPos))"

text \<open>The block under \<open>!getenv("CC_LOGGER_NO_DEF_DIRS")\<close>.\<close>

definition add_default_dirs ::
    "os \<Rightarrow> string list \<Rightarrow> string \<Rightarrow> nat \<Rightarrow> action \<Rightarrow> fault + action" where
  "add_default_dirs os environ prog lastIncPos act =
     (if getenv environ ''CC_LOGGER_NO_DEF_DIRS'' = None then
        bindC (getDefaultArguments os prog (snd (loggerVectorInit (os_alloc os)))) (\<lambda>defIncludes.
        if vec_size defIncludes \<noteq> 0 then
          bindC (loggerVectorAddFrom (os_alloc os) (act_arguments act) defIncludes
                   (Some lastIncPos) (loggerStrDup (os_alloc os))) (\<lambda>(_, args).
          Inr (act\<lparr>act_arguments := args\<rparr>))
        else Inr act)
      else Inr act)"

text \<open>The workaround for \<open>-MT\<close>: the output is removed from the sources.\<close>

definition remove_output :: "action \<Rightarrow> fault + action" where
  "remove_output act =
     bindC (loggerVectorFind (act_sources act) (Some (file_path (act_output act))) strcmp) (\<lambda>i.
     if i \<noteq> SIZE_MAX then
       bindC (loggerVectorErase (act_sources act) i) (\<lambda>srcs. Inr (act\<lparr>act_sources := srcs\<rparr>))
     else Inr act)"

definition loggerGccParserCollectActions ::
    "os \<Rightarrow> string list \<Rightarrow> string \<Rightarrow> string \<Rightarrow> string list \<Rightarrow> action vec \<Rightarrow> fault + (int \<times> action vec)"
  where
  "loggerGccParserCollectActions os environ prog tool argv acts =
     bindC (loggerActionNew os tool) (\<lambda>a.
     bindC (deref a) (\<lambda>act.
     bindC (loggerVectorAdd (os_alloc os) (act_arguments act) (loggerStrDup (os_alloc os) tool))
       (\<lambda>(_, args).
     bindC (if argv = [] then Inl Out_Of_Bounds else Inr (tl argv)) (\<lambda>argv.
     bindC (gcc_loop os argv Normal (act\<lparr>act_arguments := args\<rparr>) 1) (\<lambda>(act, lastIncPos).
     bindC (add_default_dirs os environ prog lastIncPos act) (\<lambda>act.
     bindC (remove_output act) (\<lambda>act.
     bindC (loggerVectorAdd (os_alloc os) acts (Some act)) (\<lambda>(_, acts).
     Inr (1, acts)))))))))"

section \<open>Specification of the parser\<close>

definition gcc_source :: "os \<Rightarrow> string \<Rightarrow> string option" where
  "gcc_source os arg =
     (case resolve os arg True of
        None \<Rightarrow> None
      | Some p \<Rightarrow>
          (case loggerGetFileExt (os_alloc os) p True of
             None \<Rightarrow> None
           | Some ext \<Rightarrow> if is_src_ext ext then Some p else None))"

text \<open>What an argument is in a given state.\<close>

datatype gcc_class = Is_Output | Is_O | Is_Path_Option | Is_Source string | Is_Other

definition gcc_classify :: "os \<Rightarrow> GccArgsState \<Rightarrow> string \<Rightarrow> gcc_class" where
  "gcc_classify os state arg =
     (if state = InOutputArg then Is_Output
      else if arg = ''-o'' then Is_O
      else if is_path_option arg then Is_Path_Option
      else case gcc_source os arg of Some p \<Rightarrow> Is_Source p | None \<Rightarrow> Is_Other)"

definition gcc_word :: "os \<Rightarrow> GccArgsState \<Rightarrow> string \<Rightarrow> string" where
  "gcc_word os state arg =
     (case gcc_classify os state arg of
        Is_Output \<Rightarrow> or_else (resolve os arg False) arg
      | Is_Path_Option \<Rightarrow> take 2 arg @ or_else (resolve os (drop 2 arg) False) (drop 2 arg)
      | Is_Source p \<Rightarrow> p
      | _ \<Rightarrow> arg)"

definition gcc_next :: "GccArgsState \<Rightarrow> string \<Rightarrow> GccArgsState" where
  "gcc_next state arg = (if state = Normal \<and> arg = ''-o'' then InOutputArg else Normal)"

fun gcc_words :: "os \<Rightarrow> GccArgsState \<Rightarrow> string list \<Rightarrow> string list" where
  "gcc_words os state [] = []"
| "gcc_words os state (a # as) =
     (if gcc_word os state a = [] then [] else [gcc_word os state a]) @
     gcc_words os (gcc_next state a) as"

fun gcc_sources :: "os \<Rightarrow> GccArgsState \<Rightarrow> string list \<Rightarrow> string list" where
  "gcc_sources os state [] = []"
| "gcc_sources os state (a # as) =
     (case gcc_classify os state a of Is_Source p \<Rightarrow> [p] | _ \<Rightarrow> []) @
     gcc_sources os (gcc_next state a) as"

text \<open>The last \<open>-o\<close> wins.\<close>

fun gcc_output :: "os \<Rightarrow> GccArgsState \<Rightarrow> string list \<Rightarrow> string \<Rightarrow> string" where
  "gcc_output os state [] out = out"
| "gcc_output os state (a # as) out =
     gcc_output os (gcc_next state a) as
       (if state = InOutputArg
        then or_else (resolve os (gcc_word os state a) False) (gcc_word os state a) else out)"

section \<open>Equivalence with the specification\<close>

definition source_of :: "gcc_class \<Rightarrow> string list" where
  "source_of c = (case c of Is_Source p \<Rightarrow> [p] | _ \<Rightarrow> [])"

definition new_output :: "os \<Rightarrow> GccArgsState \<Rightarrow> string \<Rightarrow> string \<Rightarrow> string" where
  "new_output os state arg out =
     (if state = InOutputArg
      then or_else (resolve os (gcc_word os state arg) False) (gcc_word os state arg) else out)"

lemma is_path_option_parts:
  "is_path_option arg \<Longrightarrow> take 1 arg \<noteq> ''/'' \<and> drop 2 arg \<noteq> [] \<and> length (take 2 arg) = 2"
  by (induction arg rule: is_path_option.induct) auto

text \<open>The branches compute the specified word, source and output.\<close>

lemma gcc_branches_spec:
  assumes mem: "\<And>n. os_alloc os n" and posix: "os_posix os" and grow: "bounded_growth os k"
    and fit: "fits os (2 * k) arg" and ok: "act_ok act"
    and lim: "length (vec_list (act_sources act)) < VEC_LIMIT"
  obtains act' where
    "gcc_branches os state arg arg act = Inr (gcc_next state arg, gcc_word os state arg, act')"
    "act_arguments act' = act_arguments act" "act_ok act'"
    "vec_list (act_sources act') =
       insert_all (vec_list (act_sources act)) (source_of (gcc_classify os state arg))"
    "file_path (act_output act') = new_output os state arg (file_path (act_output act))"
proof -
  have res: "loggerMakePathAbs os PATH_MAX arg m = Inr (resolve os arg m)" for m
    using resolve_fits(1) [OF grow, of k arg] fit by (simp add: mult_2)
  show thesis
  proof (cases "state = InOutputArg")
    case True
    let ?w = "or_else (resolve os arg False) arg"
    have "fits os k ?w"
    proof (cases "resolve os arg False")
      case None
      with fit show ?thesis by (auto simp: or_else_def fits_def split: if_splits option.splits)
    next
      case (Some r)
      with resolve_fits(2) [OF grow, of k arg False r] fit resolve_absolute [OF posix Some]
      show ?thesis by (simp add: or_else_def fits_def mult_2)
    qed
    then have "loggerFileInitFromPath os ?w = Inr \<lparr>file_path = or_else (resolve os ?w False) ?w\<rparr>"
      by (rule loggerFileInitFromPath_fits [OF grow])
    moreover have "(case resolve os arg False of Some p \<Rightarrow> Inr p | None \<Rightarrow> strcpy_buf PATH_MAX arg) = Inr ?w"
      using fits_length [OF fit] by (auto simp: or_else_def strcpy_buf_def split: option.splits)
    ultimately show thesis using True ok res
      by (intro that [of "act\<lparr>act_output := \<lparr>file_path = or_else (resolve os ?w False) ?w\<rparr>\<rparr>"])
        (simp_all add: gcc_branches_def gcc_next_def gcc_word_def gcc_classify_def source_of_def
          new_output_def act_ok_def)
  next
    case Normal: False
    then have st: "state = Normal" by (cases state) auto
    show thesis
    proof (cases "arg = ''-o'' \<or> is_path_option arg")
      case True
      have dropped: "loggerMakePathAbs os PATH_MAX (drop 2 arg) False = Inr (resolve os (drop 2 arg) False)"
        "\<And>r. resolve os (drop 2 arg) False = Some r \<Longrightarrow> length r + 2 < PATH_MAX"
        if "is_path_option arg"
        using resolve_fits [OF grow, of k "drop 2 arg" False] fits_drop [OF fit, of 2]
          is_path_option_parts [OF that] by (auto simp: mult_2 fits_def)
      have parts: "arg = take 2 arg @ drop 2 arg" by simp
      show thesis
      proof (rule that [of act])
        show "gcc_branches os state arg arg act = Inr (gcc_next state arg, gcc_word os state arg, act)"
          using True st dropped is_path_option_parts [of arg]
          by (cases "arg = ''-o''")
            (auto simp: gcc_branches_def gcc_next_def gcc_word_def gcc_classify_def or_else_def
              strcat_buf_def strcpy_buf_def split: option.splits)
      qed (use True st ok in \<open>auto simp: source_of_def gcc_classify_def new_output_def\<close>)
    next
      case False
      show thesis
      proof (cases "gcc_source os arg")
        case None
        have "gcc_branches os state arg arg act = Inr (gcc_next state arg, gcc_word os state arg, act)"
          using None False st res
          by (auto simp: gcc_branches_def gcc_next_def gcc_word_def gcc_classify_def gcc_source_def
              split: option.splits if_splits)
        with None False st ok show thesis
          by (intro that [of act]) (auto simp: source_of_def gcc_classify_def new_output_def)
      next
        case (Some p)
        obtain r v' where v': "loggerVectorAddUnique (os_alloc os) (act_sources act) (Some p) strcmp = Inr (r, v')"
            "vec_tight v'" "vec_list v' = (if p \<in> set (vec_list (act_sources act))
              then vec_list (act_sources act) else vec_list (act_sources act) @ [p])"
        proof (rule loggerVectorAddUnique_tight [of "act_sources act" "os_alloc os" strcmp p])
          show "vec_tight (act_sources act)" using ok by (simp add: act_ok_def)
        qed (use mem lim in auto)
        have "gcc_branches os state arg arg act =
            Inr (gcc_next state arg, gcc_word os state arg, act\<lparr>act_sources := v'\<rparr>)"
          using Some False st res v'(1) mem
          by (auto simp: gcc_branches_def gcc_next_def gcc_word_def gcc_classify_def gcc_source_def
              split: option.splits if_splits)
        with Some False st ok v' show thesis
          by (intro that [of "act\<lparr>act_sources := v'\<rparr>"])
            (auto simp: source_of_def gcc_classify_def new_output_def act_ok_def)
      qed
    qed
  qed
qed

lemma processArgument_spec:
  assumes mem: "\<And>n. os_alloc os n" and posix: "os_posix os" and grow: "bounded_growth os k"
    and fit: "fits os (2 * k) arg" and ok: "act_ok act"
    and lim: "length (vec_list (act_arguments act)) < VEC_LIMIT"
      "length (vec_list (act_sources act)) < VEC_LIMIT"
  obtains act' where "processArgument os state arg act = Inr (gcc_next state arg, act')"
    "act_ok act'"
    "vec_list (act_arguments act') = vec_list (act_arguments act) @
       (if gcc_word os state arg = [] then [] else [gcc_word os state arg])"
    "vec_list (act_sources act') =
       insert_all (vec_list (act_sources act)) (source_of (gcc_classify os state arg))"
    "file_path (act_output act') = new_output os state arg (file_path (act_output act))"
proof -
  let ?w = "gcc_word os state arg"
  obtain a where a: "gcc_branches os state arg arg act = Inr (gcc_next state arg, ?w, a)"
      "act_arguments a = act_arguments act" "act_ok a"
      "vec_list (act_sources a) =
         insert_all (vec_list (act_sources act)) (source_of (gcc_classify os state arg))"
      "file_path (act_output a) = new_output os state arg (file_path (act_output act))"
    by (rule gcc_branches_spec [OF mem posix grow fit ok lim(2)])
  have proc: "processArgument os state arg act = record_argument os (gcc_next state arg, ?w, a)"
    using a(1) fits_length [OF fit] by (simp add: processArgument_def strcpy_buf_def)
  show thesis
  proof (cases "?w = []")
    case True
    with a proc show thesis by (intro that [of a]) (simp_all add: record_argument_def)
  next
    case False
    obtain v' where v': "loggerVectorAdd (os_alloc os) (act_arguments act) (Some ?w) = Inr (1, v')"
        "vec_tight v'" "vec_list v' = vec_list (act_arguments act) @ [?w]"
      by (rule loggerVectorAdd_tight [of "act_arguments act" "os_alloc os" ?w])
        (use ok mem lim in \<open>auto simp: act_ok_def\<close>)
    with False a proc mem ok show thesis
      by (intro that [of "a\<lparr>act_arguments := v'\<rparr>"])
        (simp_all add: record_argument_def act_ok_def)
  qed
qed

section \<open>The loop\<close>

text \<open>The insertion position for the default directories; \<open>n\<close> arguments are recorded so far.\<close>

fun gcc_inc_pos :: "os \<Rightarrow> GccArgsState \<Rightarrow> string list \<Rightarrow> nat \<Rightarrow> nat \<Rightarrow> nat" where
  "gcc_inc_pos os state [] n pos = pos"
| "gcc_inc_pos os state (a # as) n pos =
     (let n' = (if gcc_word os state a = [] then n else Suc n) in
      gcc_inc_pos os (gcc_next state a) as n'
        (if take 2 a = ''-I'' then (if drop 2 a \<noteq> [] then n' else n' + 1) else pos))"

lemma length_gcc_words: "length (gcc_words os state as) \<le> length as"
  by (induction os state as rule: gcc_words.induct) auto

lemma gcc_sources_Cons:
  "gcc_sources os state (a # as) =
     source_of (gcc_classify os state a) @ gcc_sources os (gcc_next state a) as"
  by (simp add: source_of_def)

lemma length_source_of: "length (source_of c) \<le> 1"
  by (simp add: source_of_def split: gcc_class.split)

lemma gcc_loop_spec:
  assumes mem: "\<And>n. os_alloc os n" and posix: "os_posix os" and grow: "bounded_growth os k"
  shows "\<forall>a \<in> set argv. fits os (2 * k) a \<Longrightarrow> act_ok act \<Longrightarrow>
    length (vec_list (act_arguments act)) + length argv \<le> VEC_LIMIT \<Longrightarrow>
    length (vec_list (act_sources act)) + length argv \<le> VEC_LIMIT \<Longrightarrow>
    \<exists>act'. gcc_loop os argv state act pos =
        Inr (act', gcc_inc_pos os state argv (length (vec_list (act_arguments act))) pos) \<and>
      act_ok act' \<and>
      vec_list (act_arguments act') = vec_list (act_arguments act) @ gcc_words os state argv \<and>
      vec_list (act_sources act') = insert_all (vec_list (act_sources act)) (gcc_sources os state argv) \<and>
      file_path (act_output act') = gcc_output os state argv (file_path (act_output act))"
proof (induction argv arbitrary: state act pos)
  case Nil
  then show ?case by simp
next
  case (Cons a argv)
  let ?w = "gcc_word os state a" and ?st = "gcc_next state a"
  have fit: "fits os (2 * k) a" using Cons.prems by simp
  have lim: "length (vec_list (act_arguments act)) < VEC_LIMIT"
      "length (vec_list (act_sources act)) < VEC_LIMIT" using Cons.prems by simp_all
  obtain b where b: "processArgument os state a act = Inr (?st, b)" "act_ok b"
      "vec_list (act_arguments b) = vec_list (act_arguments act) @ (if ?w = [] then [] else [?w])"
      "vec_list (act_sources b) =
         insert_all (vec_list (act_sources act)) (source_of (gcc_classify os state a))"
      "file_path (act_output b) = new_output os state a (file_path (act_output act))"
    by (rule processArgument_spec [OF mem posix grow fit Cons.prems(2) lim])
  have len: "length (vec_list (act_arguments b)) =
      (if ?w = [] then length (vec_list (act_arguments act)) else Suc (length (vec_list (act_arguments act))))"
    using b(3) by simp
  have sz: "vec_size (act_arguments b) = length (vec_list (act_arguments b))"
    using b(2) vec_ok_size [of "act_arguments b"] by (simp add: act_ok_def)
  have "length (vec_list (act_sources b)) \<le> length (vec_list (act_sources act)) + 1"
    using b(4) length_insert_all [of "vec_list (act_sources act)"] length_source_of
    by (metis add_left_mono le_trans)
  then obtain act' where act': "gcc_loop os argv ?st b
        (if take 2 a = ''-I'' then
           (if drop 2 a \<noteq> [] then vec_size (act_arguments b) else vec_size (act_arguments b) + 1)
         else pos) =
        Inr (act', gcc_inc_pos os ?st argv (length (vec_list (act_arguments b)))
          (if take 2 a = ''-I'' then
             (if drop 2 a \<noteq> [] then vec_size (act_arguments b) else vec_size (act_arguments b) + 1)
           else pos))"
      "act_ok act'"
      "vec_list (act_arguments act') = vec_list (act_arguments b) @ gcc_words os ?st argv"
      "vec_list (act_sources act') = insert_all (vec_list (act_sources b)) (gcc_sources os ?st argv)"
      "file_path (act_output act') = gcc_output os ?st argv (file_path (act_output b))"
    using Cons.IH [OF _ b(2), of ?st] Cons.prems len by (auto split: if_splits)
  show ?case
  proof (intro exI conjI)
    show "gcc_loop os (a # argv) state act pos =
        Inr (act', gcc_inc_pos os state (a # argv) (length (vec_list (act_arguments act))) pos)"
      using b(1) act'(1) len sz by (simp add: Let_def)
    show "act_ok act'" by (rule act'(2))
    show "vec_list (act_arguments act') = vec_list (act_arguments act) @ gcc_words os state (a # argv)"
      using act'(3) b(3) by simp
    show "vec_list (act_sources act') =
        insert_all (vec_list (act_sources act)) (gcc_sources os state (a # argv))"
      using act'(4) b(4) by (simp only: gcc_sources_Cons insert_all_append)
    show "file_path (act_output act') = gcc_output os state (a # argv) (file_path (act_output act))"
      using act'(5) b(5) by (simp add: new_output_def)
  qed
qed

text \<open>A prefix of fitting arguments is processed before the rest is looked at.\<close>

lemma gcc_loop_prefix:
  assumes mem: "\<And>n. os_alloc os n" and posix: "os_posix os" and grow: "bounded_growth os k"
  shows "\<forall>a \<in> set pre. fits os (2 * k) a \<Longrightarrow> act_ok act \<Longrightarrow>
    length (vec_list (act_arguments act)) + length pre \<le> VEC_LIMIT \<Longrightarrow>
    length (vec_list (act_sources act)) + length pre \<le> VEC_LIMIT \<Longrightarrow>
    \<exists>st b pos'. \<forall>post. gcc_loop os (pre @ post) state act pos = gcc_loop os post st b pos'"
proof (induction pre arbitrary: state act pos)
  case (Cons a pre)
  have lim: "length (vec_list (act_arguments act)) < VEC_LIMIT"
      "length (vec_list (act_sources act)) < VEC_LIMIT" and fit: "fits os (2 * k) a"
    using Cons.prems by simp_all
  obtain b where b: "processArgument os state a act = Inr (gcc_next state a, b)" "act_ok b"
      "vec_list (act_arguments b) = vec_list (act_arguments act) @
         (if gcc_word os state a = [] then [] else [gcc_word os state a])"
      "vec_list (act_sources b) =
         insert_all (vec_list (act_sources act)) (source_of (gcc_classify os state a))"
    by (rule processArgument_spec [OF mem posix grow fit Cons.prems(2) lim])
  have "length (vec_list (act_sources b)) \<le> length (vec_list (act_sources act)) + 1"
    using b(4) length_insert_all [of "vec_list (act_sources act)"] length_source_of
    by (metis add_left_mono le_trans)
  with Cons.IH [OF _ b(2)] Cons.prems b(1,3) show ?case by simp
qed auto

section \<open>Default directories\<close>

text \<open>The directory a line of the compiler's output names, as \<open>-I\<close> argument.\<close>

definition default_word :: "string \<Rightarrow> string" where
  "default_word line = takeWhile (\<lambda>c. \<not> isspace c) (dropWhile isspace line)"

definition default_dir :: "os \<Rightarrow> string \<Rightarrow> string list" where
  "default_dir os line =
     (case (if default_word line = [] then None else resolve os (default_word line) False) of
        Some p \<Rightarrow> if isGccLibPath (''-I'' @ p) then [] else [''-I'' @ p]
      | None \<Rightarrow> [])"

fun default_dirs :: "os \<Rightarrow> bool \<Rightarrow> string list \<Rightarrow> string list" where
  "default_dirs os started [] = []"
| "default_dirs os started (line # rest) =
     (if \<not> started then
        default_dirs os (strstr line ''#include <...> search starts here'' \<noteq> None) rest
      else if strstr line ''End of search list'' \<noteq> None then []
      else default_dir os line @ default_dirs os started rest)"

lemma resolve_fits_include:
  assumes "bounded_growth os k" "fits os k p"
  shows "loggerMakePathAbs os (PATH_MAX - 2) p m = Inr (resolve os p m)"
proof -
  have grow: "\<And>d r. os_realpath os d = Some r \<Longrightarrow> length r \<le> length d + k"
    by (rule bounded_growthD [OF assms(1)])
  have rec: "\<exists>res. makePathAbsRec os (PATH_MAX - 2) q = Inr res" if "length q + k + 2 < PATH_MAX" for q
  proof -
    have "\<exists>res. makePathAbsRec os (PATH_MAX - 2) q = Inr res \<and>
        (\<forall>r. res = Some r \<longrightarrow> length r \<le> length q + k)"
      by (rule makePathAbsRec_no_fault [OF grow]) (use that in auto)
    then show ?thesis by blast
  qed
  have "\<exists>res. loggerMakePathAbs os (PATH_MAX - 2) p m = Inr res"
  proof (cases "p = [] \<or> m \<and> \<not> os_access os p \<or> (take 1 p \<noteq> ''/'' \<and> os_getcwd os = None)")
    case True
    then show ?thesis by (cases p) (auto simp: loggerMakePathAbs_def)
  next
    case False
    show ?thesis
    proof (cases "take 1 p = ''/''")
      case True
      with False rec [of p] assms(2) show ?thesis
        by (cases p) (auto simp: loggerMakePathAbs_def fits_def)
    next
      case rel: False
      with False obtain d where d: "os_getcwd os = Some d" by auto
      with rec [of "d @ ''/'' @ p"] rel False assms(2) show ?thesis
        by (cases p) (auto simp: loggerMakePathAbs_def fits_def strcat_buf_def strcpy_buf_def)
    qed
  qed
  then obtain res where res: "loggerMakePathAbs os (PATH_MAX - 2) p m = Inr res" by blast
  from loggerMakePathAbs_cap [OF this, of PATH_MAX] have "resolve os p m = res"
    by (simp add: resolve_def)
  with res show ?thesis by simp
qed

lemma default_lines_spec:
  assumes mem: "\<And>n. os_alloc os n" and grow: "bounded_growth os k"
  shows "\<forall>l \<in> set ls. fits os k (default_word l) \<Longrightarrow> vec_tight args \<Longrightarrow>
    length (vec_list args) + length ls \<le> VEC_LIMIT \<Longrightarrow>
    \<exists>args'. default_lines os started ls args = Inr args' \<and> vec_tight args' \<and>
      vec_list args' = vec_list args @ default_dirs os started ls"
proof (induction ls arbitrary: started args)
  case Nil
  then show ?case by simp
next
  case (Cons l ls)
  show ?case
  proof (cases "started \<and> strstr l ''End of search list'' = None \<and> default_word l \<noteq> []")
    case False
    with Cons.prems Cons.IH show ?thesis
      by (cases started) (auto simp: default_word_def [symmetric] default_dir_def Let_def)
  next
    case True
    have res: "loggerMakePathAbs os (PATH_MAX - 2) (default_word l) False =
        Inr (resolve os (default_word l) False)"
      by (rule resolve_fits_include [OF grow]) (use Cons.prems in simp)
    show ?thesis
    proof (cases "default_dir os l")
      case Nil
      with True res Cons.prems Cons.IH [of args started] show ?thesis
        by (auto simp: default_word_def [symmetric] default_dir_def Let_def
            split: option.splits if_splits)
    next
      case (Cons w ws)
      then have w: "default_dir os l = [w]" and
        p: "\<exists>p. resolve os (default_word l) False = Some p \<and> w = ''-I'' @ p \<and> \<not> isGccLibPath w"
        using True by (auto simp: default_dir_def split: option.splits if_splits)
      obtain v' where v': "loggerVectorAdd (os_alloc os) args (Some w) = Inr (1, v')" "vec_tight v'"
          "vec_list v' = vec_list args @ [w]"
        by (rule loggerVectorAdd_tight [of args "os_alloc os" w])
          (use Cons.prems mem in auto)
      obtain args' where "default_lines os started ls v' = Inr args'" "vec_tight args'"
          "vec_list args' = vec_list v' @ default_dirs os started ls"
        using Cons.IH [of v' started] Cons.prems v' by auto
      with True res p w v' mem show ?thesis
        by (auto simp: default_word_def [symmetric] Let_def)
    qed
  qed
qed

section \<open>The collected action\<close>

definition gcc_default_dirs :: "os \<Rightarrow> string list \<Rightarrow> string \<Rightarrow> string list" where
  "gcc_default_dirs os environ prog =
     (if getenv environ ''CC_LOGGER_NO_DEF_DIRS'' \<noteq> None then []
      else case os_popen os (prog @ popen_suffix) of
             None \<Rightarrow> []
           | Some ls \<Rightarrow> default_dirs os False ls)"

text \<open>The arguments with the directories in place.\<close>

definition gcc_arguments :: "string list \<Rightarrow> string list \<Rightarrow> nat \<Rightarrow> fault + string list" where
  "gcc_arguments words dirs pos =
     (if dirs = [] then Inr words
      else if pos \<le> length words then Inr (take pos words @ dirs @ drop pos words)
      else Inl Assertion_Failure)"

text \<open>Everything the collector reads fits its buffers and limits.\<close>

definition gcc_input_ok ::
    "os \<Rightarrow> nat \<Rightarrow> string \<Rightarrow> string \<Rightarrow> string list \<Rightarrow> bool" where
  "gcc_input_ok os k prog tool argv \<longleftrightarrow>
     (\<forall>n. os_alloc os n) \<and> os_posix os \<and> bounded_growth os k \<and>
     fits os k ''./_noobj'' \<and> length tool < PATH_MAX \<and>
     length prog + length popen_suffix < PATH_MAX \<and>
     (\<forall>a \<in> set argv. fits os (2 * k) a) \<and> length argv < VEC_LIMIT \<and>
     (\<forall>ls. os_popen os (prog @ popen_suffix) = Some ls \<longrightarrow>
        (\<forall>l \<in> set ls. fits os k (default_word l)) \<and> length ls \<le> VEC_LIMIT)"

lemma gcc_inc_pos_positive: "0 < n \<Longrightarrow> 0 < pos \<Longrightarrow> 0 < gcc_inc_pos os state as n pos"
  by (induction os state as n pos rule: gcc_inc_pos.induct) (auto simp: Let_def)

text \<open>The default directories and their insertion.\<close>

lemma getDefaultArguments_spec:
  assumes ok: "gcc_input_ok os k prog tool argv"
    and env: "getenv environ ''CC_LOGGER_NO_DEF_DIRS'' = None"
  obtains v where "getDefaultArguments os prog (snd (loggerVectorInit (os_alloc os))) = Inr v"
    "vec_tight v" "vec_list v = gcc_default_dirs os environ prog"
    "length (vec_list v) \<le> VEC_LIMIT"
proof -
  let ?v = "snd (loggerVectorInit (os_alloc os)) :: string vec"
  have mem: "\<And>n. os_alloc os n" and grow: "bounded_growth os k"
    using ok by (simp_all add: gcc_input_ok_def)
  have v: "vec_tight ?v" "vec_list ?v = []"
    using loggerVectorInit_granted [OF mem, of ?v] by simp_all
  show thesis
  proof (cases "os_popen os (prog @ popen_suffix)")
    case None
    with ok env v show thesis
      by (intro that [of ?v]) (auto simp: getDefaultArguments_def gcc_input_ok_def
          gcc_default_dirs_def strcpy_buf_def strcat_buf_def)
  next
    case (Some ls)
    with ok have ls: "\<forall>l \<in> set ls. fits os k (default_word l)" "length ls \<le> VEC_LIMIT"
      by (simp_all add: gcc_input_ok_def)
    obtain w where w: "default_lines os False ls ?v = Inr w" "vec_tight w"
        "vec_list w = default_dirs os False ls"
      using default_lines_spec [OF mem grow ls(1) v(1), of False] v(2) ls(2) by auto
    have "length (default_dirs os s ls) \<le> length ls" for s
      by (induction os s ls rule: default_dirs.induct)
        (auto simp: default_dir_def split: option.splits)
    with w ls have "length (vec_list w) \<le> VEC_LIMIT" by (metis le_trans)
    with Some ok env w show thesis
      by (intro that [of w]) (auto simp: getDefaultArguments_def gcc_input_ok_def
          gcc_default_dirs_def strcpy_buf_def strcat_buf_def)
  qed
qed

text \<open>The include directories are spliced in, or the assertion of the vector fails.\<close>

lemma splice_dirs:
  assumes mem: "\<And>n. alloc n" and args: "vec_tight args" "length (vec_list args) \<le> VEC_LIMIT"
    and dirs: "vec_tight dirs" "length (vec_list dirs) \<le> VEC_LIMIT" "vec_list dirs \<noteq> []"
    and pos: "0 < pos"
  shows "case gcc_arguments (vec_list args) (vec_list dirs) pos of
      Inl e \<Rightarrow> loggerVectorAddFrom alloc args dirs (Some pos) (loggerStrDup alloc) = Inl e
    | Inr ws \<Rightarrow> \<exists>v. loggerVectorAddFrom alloc args dirs (Some pos) (loggerStrDup alloc) = Inr (1, v) \<and>
        vec_ok v \<and> vec_list v = ws"
proof (cases "pos \<le> length (vec_list args)")
  case True
  have ok: "vec_ok args" "vec_ok dirs" using args dirs by simp_all
  have g: "grants alloc (vec_size args + vec_size dirs)"
    by (rule grants_limit [OF mem]) (use args dirs vec_ok_size [OF ok(1)] vec_ok_size [OF ok(2)] in simp)
  obtain v where "loggerVectorAddFrom alloc args dirs (Some pos) (loggerStrDup alloc) = Inr (1, v)"
      "vec_ok v"
      "vec_list v = take pos (vec_list args) @ map (\<lambda>x. x) (vec_list dirs) @ drop pos (vec_list args)"
  proof (rule loggerVectorAddFrom_ok [OF ok, of "loggerStrDup alloc" "\<lambda>x. x" pos "Some pos" alloc])
    show "pos \<le> length (vec_list args)" by (rule True)
  qed (use pos dirs(3) mem g in auto)
  with True dirs(3) show ?thesis by (simp add: gcc_arguments_def)
next
  case False
  then show ?thesis using dirs(3) vec_ok_size [of args] args(1)
    by (simp add: gcc_arguments_def loggerVectorAddFrom_def)
qed

definition gcc_action_spec ::
    "os \<Rightarrow> string list \<Rightarrow> string list \<Rightarrow> action \<Rightarrow> bool" where
  "gcc_action_spec os argv ws a \<longleftrightarrow>
     (let out = gcc_output os Normal argv (noobj os) in
      vec_ok (act_arguments a) \<and> vec_ok (act_sources a) \<and>
      vec_list (act_arguments a) = ws \<and>
      vec_list (act_sources a) = removeAll out (insert_all [] (gcc_sources os Normal argv)) \<and>
      file_path (act_output a) = out)"

lemma remove_output_spec:
  assumes "vec_tight (act_sources act)" "distinct (vec_list (act_sources act))"
  obtains srcs where "remove_output act = Inr (act\<lparr>act_sources := srcs\<rparr>)" "vec_ok srcs"
    "vec_list srcs = removeAll (file_path (act_output act)) (vec_list (act_sources act))"
proof -
  let ?x = "file_path (act_output act)"
  obtain i where i: "loggerVectorFind (act_sources act) (Some ?x) strcmp = Inr i"
      "i = SIZE_MAX \<longrightarrow> ?x \<notin> set (vec_list (act_sources act))"
      "i \<noteq> SIZE_MAX \<longrightarrow> (\<exists>v. loggerVectorErase (act_sources act) i = Inr v \<and> vec_ok v \<and>
        vec_list v = removeAll ?x (vec_list (act_sources act)))"
    using sv.discard [OF vec_tight_ok [OF assms(1)] assms(2), of ?x] by blast
  show thesis
  proof (cases "i = SIZE_MAX")
    case True
    with i assms(1) show thesis by (intro that [of "act_sources act"]) (simp_all add: remove_output_def)
  next
    case False
    with i obtain v where "loggerVectorErase (act_sources act) i = Inr v" "vec_ok v"
        "vec_list v = removeAll ?x (vec_list (act_sources act))" by blast
    with i False show thesis by (intro that [of v]) (simp_all add: remove_output_def)
  qed
qed

lemma add_default_dirs_spec:
  assumes ok: "gcc_input_ok os k prog tool argv"
    and b: "vec_tight (act_arguments b)" "length (vec_list (act_arguments b)) \<le> VEC_LIMIT"
    and pos: "0 < pos"
  shows "case gcc_arguments (vec_list (act_arguments b)) (gcc_default_dirs os environ prog) pos of
      Inl e \<Rightarrow> add_default_dirs os environ prog pos b = Inl e
    | Inr ws \<Rightarrow> \<exists>args. add_default_dirs os environ prog pos b = Inr (b\<lparr>act_arguments := args\<rparr>) \<and>
        vec_ok args \<and> vec_list args = ws"
proof (cases "getenv environ ''CC_LOGGER_NO_DEF_DIRS'' = None")
  case False
  then have "add_default_dirs os environ prog pos b = Inr (b\<lparr>act_arguments := act_arguments b\<rparr>)"
    by (auto simp: add_default_dirs_def)
  with False b(1) show ?thesis
    by (auto simp: gcc_arguments_def gcc_default_dirs_def intro!: exI [of _ "act_arguments b"])
next
  case True
  have mem: "\<And>n. os_alloc os n" using ok by (simp add: gcc_input_ok_def)
  obtain d where d: "getDefaultArguments os prog (snd (loggerVectorInit (os_alloc os))) = Inr d"
      "vec_tight d" "vec_list d = gcc_default_dirs os environ prog" "length (vec_list d) \<le> VEC_LIMIT"
    by (rule getDefaultArguments_spec [OF ok True])
  have sz: "vec_size d = length (vec_list d)" using d(2) vec_ok_size [of d] by simp
  show ?thesis
  proof (cases "vec_list d = []")
    case nil: True
    then have "add_default_dirs os environ prog pos b = Inr (b\<lparr>act_arguments := act_arguments b\<rparr>)"
      using d(1) sz True by (simp add: add_default_dirs_def)
    with nil d(3) b(1) show ?thesis
      by (auto simp: gcc_arguments_def intro!: exI [of _ "act_arguments b"])
  next
    case False
    from splice_dirs [of "os_alloc os", OF mem b d(2,4) False pos] d(1,3) sz False True
    show ?thesis by (auto simp: add_default_dirs_def split: sum.splits)
  qed
qed

lemma gcc_collect_lemma:
  assumes ok: "gcc_input_ok os k prog tool argv"
    and acts: "vec_tight acts" "length (vec_list acts) < VEC_LIMIT"
    and ws_def: "ws = gcc_arguments (tool # gcc_words os Normal argv)
      (gcc_default_dirs os environ prog) (gcc_inc_pos os Normal argv 1 1)"
  shows "case ws of
      Inl e \<Rightarrow> loggerGccParserCollectActions os environ prog tool (a0 # argv) acts = Inl e
    | Inr ws \<Rightarrow> \<exists>acts' a.
        loggerGccParserCollectActions os environ prog tool (a0 # argv) acts = Inr (1, acts') \<and>
        vec_ok acts' \<and> vec_list acts' = vec_list acts @ [a] \<and> gcc_action_spec os argv ws a"
proof -
  have mem: "\<And>n. os_alloc os n" and posix: "os_posix os" and grow: "bounded_growth os k"
    and fit: "\<forall>a \<in> set argv. fits os (2 * k) a" and lim: "length argv < VEC_LIMIT"
    using ok by (simp_all add: gcc_input_ok_def)
  obtain a where a: "loggerActionNew os tool = Inr (Some a)" "act_ok a"
      "vec_list (act_arguments a) = []" "vec_list (act_sources a) = []"
      "file_path (act_output a) = noobj os"
    using loggerActionNew_fits [OF mem grow, of tool] ok by (auto simp: gcc_input_ok_def)
  obtain v1 where v1: "loggerVectorAdd (os_alloc os) (act_arguments a) (Some tool) = Inr (1, v1)"
      "vec_tight v1" "vec_list v1 = [tool]"
    using loggerVectorAdd_tight [of "act_arguments a" "os_alloc os" tool] a mem
    by (auto simp: act_ok_def VEC_LIMIT_def)
  let ?a = "a\<lparr>act_arguments := v1\<rparr>" and ?pos = "gcc_inc_pos os Normal argv 1 1"
  obtain b where b: "gcc_loop os argv Normal ?a 1 = Inr (b, ?pos)" "act_ok b"
      "vec_list (act_arguments b) = tool # gcc_words os Normal argv"
      "vec_list (act_sources b) = insert_all [] (gcc_sources os Normal argv)"
      "file_path (act_output b) = gcc_output os Normal argv (noobj os)"
    using gcc_loop_spec [OF mem posix grow fit, of ?a Normal 1] a v1 lim
    by (auto simp: act_ok_def)
  have dirs: "case ws of Inl e \<Rightarrow> add_default_dirs os environ prog ?pos b = Inl e
      | Inr ws \<Rightarrow> \<exists>args. add_default_dirs os environ prog ?pos b = Inr (b\<lparr>act_arguments := args\<rparr>) \<and>
          vec_ok args \<and> vec_list args = ws"
    unfolding ws_def b(3) [symmetric]
  proof (rule add_default_dirs_spec [OF ok])
    show "length (vec_list (act_arguments b)) \<le> VEC_LIMIT"
      using b(3) length_gcc_words [of os Normal argv] lim by simp
  qed (use b(2) gcc_inc_pos_positive in \<open>auto simp: act_ok_def\<close>)
  have collect: "loggerGccParserCollectActions os environ prog tool (a0 # argv) acts =
      bindC (add_default_dirs os environ prog ?pos b) (\<lambda>act.
      bindC (remove_output act) (\<lambda>act.
      bindC (loggerVectorAdd (os_alloc os) acts (Some act)) (\<lambda>(_, acts). Inr (1, acts))))"
    using a(1) v1(1) b(1) mem by (simp add: loggerGccParserCollectActions_def)
  show ?thesis
  proof (cases ws)
    case (Inl e)
    with dirs collect show ?thesis by simp
  next
    case (Inr wl)
    with dirs obtain args where args: "vec_list args = wl"
        "add_default_dirs os environ prog ?pos b = Inr (b\<lparr>act_arguments := args\<rparr>)" "vec_ok args"
      by auto
    have "distinct (vec_list (act_sources b))" using b(4) by (simp add: distinct_insert_all)
    then obtain srcs where srcs:
        "remove_output (b\<lparr>act_arguments := args\<rparr>) = Inr (b\<lparr>act_arguments := args, act_sources := srcs\<rparr>)"
        "vec_list srcs = removeAll (file_path (act_output b)) (vec_list (act_sources b))" "vec_ok srcs"
      using remove_output_spec [of "b\<lparr>act_arguments := args\<rparr>"] b(2) by (auto simp: act_ok_def)
    let ?r = "b\<lparr>act_arguments := args, act_sources := srcs\<rparr>"
    obtain acts' where acts': "loggerVectorAdd (os_alloc os) acts (Some ?r) = Inr (1, acts')"
        "vec_tight acts'" "vec_list acts' = vec_list acts @ [?r]"
      by (rule loggerVectorAdd_tight [of acts "os_alloc os" ?r]) (use acts mem in auto)
    have "loggerGccParserCollectActions os environ prog tool (a0 # argv) acts = Inr (1, acts')"
      using collect args(2) srcs(1) acts'(1) by simp
    moreover have "gcc_action_spec os argv wl ?r"
      using args(1,3) srcs(2,3) b by (simp add: gcc_action_spec_def)
    ultimately show ?thesis using Inr acts' by auto
  qed
qed

section \<open>Sources\<close>

text \<open>What the vector of sources holds, whatever the machine answers.\<close>

definition src_path :: "os \<Rightarrow> string \<Rightarrow> bool" where
  "src_path os p \<longleftrightarrow> take 1 p = ''/'' \<and> dot_free p \<and>
     (case loggerGetFileExt (os_alloc os) p True of Some e \<Rightarrow> is_src_ext e | None \<Rightarrow> False)"

definition src_ok :: "os \<Rightarrow> action \<Rightarrow> bool" where
  "src_ok os a \<longleftrightarrow> vec_ok (act_sources a) \<and> distinct (vec_list (act_sources a)) \<and>
     (\<forall>p \<in> set (vec_list (act_sources a)). src_path os p)"

lemma src_ok_same_sources: "act_sources b = act_sources a \<Longrightarrow> src_ok os a \<Longrightarrow> src_ok os b"
  by (simp add: src_ok_def)

lemma src_ok_add:
  assumes ok: "src_ok os act" and p: "src_path os p" and mem: "os_alloc os (Suc (length p))"
    and add: "loggerVectorAddUnique (os_alloc os) (act_sources act)
        (loggerStrDup (os_alloc os) p) strcmp = Inr (r, v)"
  shows "src_ok os (act\<lparr>act_sources := v\<rparr>)"
  using sv.add_distinct [of "act_sources act" "os_alloc os" p r v] assms
  by (auto simp: src_ok_def)

lemma gcc_branches_sources:
  assumes b: "gcc_branches os state arg w act = Inr (state', w', act')"
  shows "act_sources act' = act_sources act \<or>
    (\<exists>p ext r v. loggerMakePathAbs os PATH_MAX w True = Inr (Some p) \<and>
      loggerGetFileExt (os_alloc os) p True = Some ext \<and> is_src_ext ext \<and>
      loggerVectorAddUnique (os_alloc os) (act_sources act) (loggerStrDup (os_alloc os) p) strcmp = Inr (r, v) \<and>
      act_sources act' = v)"
proof (cases "state = InOutputArg \<or> arg = ''-o'' \<or> is_path_option arg")
  case True
  have "act_sources act' = act_sources act"
  proof (cases "state = InOutputArg")
    case True
    with b show ?thesis by (auto simp: gcc_branches_def bindC_eq_Inr)
  next
    case False
    with True b show ?thesis
      by (auto simp: gcc_branches_def bindC_eq_Inr split: if_splits option.splits)
  qed
  then show ?thesis ..
next
  case False
  then have body: "gcc_branches os state arg w act = bindC (loggerMakePathAbs os PATH_MAX w True) (\<lambda>r.
      case r of
        None \<Rightarrow> Inr (state, w, act)
      | Some fullPath \<Rightarrow>
          (case loggerGetFileExt (os_alloc os) fullPath True of
             None \<Rightarrow> Inr (state, w, act)
           | Some ext \<Rightarrow>
               if is_src_ext ext then
                 bindC (loggerVectorAddUnique (os_alloc os) (act_sources act)
                          (loggerStrDup (os_alloc os) fullPath) strcmp) (\<lambda>(_, srcs).
                 Inr (state, fullPath, act\<lparr>act_sources := srcs\<rparr>))
               else Inr (state, w, act)))" by (simp add: gcc_branches_def)
  from b [unfolded body] obtain r where r: "loggerMakePathAbs os PATH_MAX w True = Inr r"
    unfolding bindC_eq_Inr by blast
  show ?thesis
  proof (cases "\<exists>p ext. r = Some p \<and> loggerGetFileExt (os_alloc os) p True = Some ext \<and> is_src_ext ext")
    case True
    then obtain p ext where p: "r = Some p" "loggerGetFileExt (os_alloc os) p True = Some ext"
        "is_src_ext ext" by blast
    from b [unfolded body] r p obtain q v where
        "loggerVectorAddUnique (os_alloc os) (act_sources act) (loggerStrDup (os_alloc os) p) strcmp = Inr (q, v)"
        "act_sources act' = v"
      by (cases "loggerVectorAddUnique (os_alloc os) (act_sources act) (loggerStrDup (os_alloc os) p) strcmp")
        (auto simp del: loggerStrDup_eq)
    with r p show ?thesis by blast
  next
    case False
    with b [unfolded body] r have "act' = act" by (auto split: option.splits if_splits)
    then show ?thesis by simp
  qed
qed

lemma gcc_branches_src_ok:
  assumes posix: "os_posix os" and mem: "\<And>n. os_alloc os n" and ok: "src_ok os act"
    and b: "gcc_branches os state arg w act = Inr (state', w', act')"
  shows "src_ok os act'"
  using gcc_branches_sources [OF b]
proof
  assume "act_sources act' = act_sources act"
  then show ?thesis using ok by (rule src_ok_same_sources)
next
  assume "\<exists>p ext r v. loggerMakePathAbs os PATH_MAX w True = Inr (Some p) \<and>
      loggerGetFileExt (os_alloc os) p True = Some ext \<and> is_src_ext ext \<and>
      loggerVectorAddUnique (os_alloc os) (act_sources act) (loggerStrDup (os_alloc os) p) strcmp = Inr (r, v) \<and>
      act_sources act' = v"
  then obtain p ext r v where p: "loggerMakePathAbs os PATH_MAX w True = Inr (Some p)"
      "loggerGetFileExt (os_alloc os) p True = Some ext" "is_src_ext ext"
      "loggerVectorAddUnique (os_alloc os) (act_sources act) (loggerStrDup (os_alloc os) p) strcmp = Inr (r, v)"
      "act_sources act' = v" by blast
  from loggerMakePathAbs_absolute [OF posix p(1)] p(2,3) have "src_path os p"
    by (simp add: src_path_def)
  from src_ok_add [OF ok this mem p(4)] show ?thesis
    by (rule src_ok_same_sources [rotated]) (use p(5) in simp)
qed

lemma processArgument_src_ok:
  assumes "os_posix os" "\<And>n. os_alloc os n" "src_ok os act"
    and p: "processArgument os state arg act = Inr (state', act')"
  shows "src_ok os act'"
proof -
  from p obtain st w a where a: "gcc_branches os state arg arg act = Inr (st, w, a)"
      "record_argument os (st, w, a) = Inr (state', act')"
    by (auto simp: processArgument_def bindC_eq_Inr)
  have "src_ok os a" by (rule gcc_branches_src_ok [OF assms(1-3) a(1)])
  moreover have "act_sources act' = act_sources a"
    using a(2) by (auto simp: record_argument_def bindC_eq_Inr split: if_splits)
  ultimately show ?thesis by (rule src_ok_same_sources [rotated])
qed

lemma gcc_loop_src_ok:
  assumes "os_posix os" "\<And>n. os_alloc os n"
  shows "src_ok os act \<Longrightarrow> gcc_loop os argv state act pos = Inr (act', pos') \<Longrightarrow> src_ok os act'"
proof (induction argv arbitrary: state act pos)
  case (Cons a argv)
  show ?case
  proof (cases "processArgument os state a act")
    case (Inl e)
    with Cons.prems(2) show ?thesis by simp
  next
    case (Inr r)
    obtain st b where r: "r = (st, b)" by (cases r)
    have b: "src_ok os b" by (rule processArgument_src_ok [OF assms Cons.prems(1)]) (use Inr r in simp)
    show ?thesis by (rule Cons.IH [OF b]) (use Cons.prems(2) Inr r in simp)
  qed
qed simp

lemma add_default_dirs_sources:
  "add_default_dirs os environ prog pos act = Inr act' \<Longrightarrow>
     act_sources act' = act_sources act \<and> act_output act' = act_output act"
  by (auto simp: add_default_dirs_def bindC_eq_Inr split: if_splits)

lemma remove_output_src_ok:
  assumes ok: "src_ok os act" and r: "remove_output act = Inr act'"
  shows "src_ok os act' \<and> file_path (act_output act') \<notin> set (vec_list (act_sources act'))"
proof -
  let ?x = "file_path (act_output act)"
  have v: "vec_ok (act_sources act)" "distinct (vec_list (act_sources act))"
    using ok by (simp_all add: src_ok_def)
  obtain i where i: "loggerVectorFind (act_sources act) (Some ?x) strcmp = Inr i"
      "i = SIZE_MAX \<longrightarrow> ?x \<notin> set (vec_list (act_sources act))"
      "i \<noteq> SIZE_MAX \<longrightarrow> (\<exists>v. loggerVectorErase (act_sources act) i = Inr v \<and> vec_ok v \<and>
        vec_list v = removeAll ?x (vec_list (act_sources act)))"
    using sv.discard [OF v, of ?x] by blast
  show ?thesis
  proof (cases "i = SIZE_MAX")
    case True
    with i r ok show ?thesis by (simp add: remove_output_def)
  next
    case False
    with i r obtain v' where "act' = act\<lparr>act_sources := v'\<rparr>" "vec_ok v'"
        "vec_list v' = removeAll ?x (vec_list (act_sources act))"
      by (auto simp: remove_output_def)
    with ok show ?thesis by (auto simp: src_ok_def distinct_removeAll)
  qed
qed

section \<open>Properties\<close>

text \<open>
  C5: on inputs that fit its buffers, the GCC collector appends exactly the action the
  specification describes: the tool, every argument rewritten in order (paths made absolute,
  empty words dropped) with the compiler's include directories spliced in after the last
  include option, the sources without duplicates and without the output, and the output of the
  last -o. When the position of that splice lies beyond the arguments, it fails the assertion
  of the vector.
\<close>

theorem gcc_collect_refines_spec:
  assumes "gcc_input_ok os k prog tool argv"
    and "vec_tight acts" "length (vec_list acts) < VEC_LIMIT"
  shows "case gcc_arguments (tool # gcc_words os Normal argv) (gcc_default_dirs os environ prog)
           (gcc_inc_pos os Normal argv 1 1) of
      Inl e \<Rightarrow> loggerGccParserCollectActions os environ prog tool (a0 # argv) acts = Inl e
    | Inr ws \<Rightarrow> \<exists>acts' a.
        loggerGccParserCollectActions os environ prog tool (a0 # argv) acts = Inr (1, acts') \<and>
        vec_ok acts' \<and> vec_list acts' = vec_list acts @ [a] \<and> gcc_action_spec os argv ws a"
  by (rule gcc_collect_lemma [OF assms refl])

lemma example_input_ok:
  assumes "\<forall>a \<in> set argv. fits example_os 0 a" "length argv < VEC_LIMIT"
  shows "gcc_input_ok example_os 0 ''/usr/bin/gcc'' ''gcc'' argv"
proof -
  have "fits example_os 0 ''./_noobj''" by code_simp
  moreover have "length ''gcc'' < PATH_MAX" by code_simp
  moreover have "length ''/usr/bin/gcc'' + length popen_suffix < PATH_MAX" by code_simp
  moreover have "(\<forall>l \<in> set ls. fits example_os 0 (default_word l)) \<and> length ls \<le> VEC_LIMIT"
    if "os_popen example_os c = Some ls" for c ls
  proof -
    have "ls = the (os_popen example_os [])" using that by (simp add: example_os_def)
    then show ?thesis by (simp only:) code_simp
  qed
  ultimately show ?thesis
    using assms example_os_posix example_bounded_growth by (simp add: gcc_input_ok_def)
qed

theorem gcc_collect_refines_spec_witness:
  "\<exists>acts' a.
     loggerGccParserCollectActions example_os [] ''/usr/bin/gcc'' ''gcc''
       [''gcc'', ''a.c'', ''-Iinc'', ''-o'', ''a.o''] no_actions = Inr (1, acts') \<and>
     vec_list acts' = [a] \<and>
     vec_list (act_arguments a) =
       [''gcc'', ''/w/a.c'', ''-I/w/inc'', ''-I/usr/include'', ''-o'', ''/w/a.o''] \<and>
     vec_list (act_sources a) = [''/w/a.c''] \<and> file_path (act_output a) = ''/w/a.o''"
proof -
  let ?argv = "[''a.c'', ''-Iinc'', ''-o'', ''a.o'']"
  have ok: "gcc_input_ok example_os 0 ''/usr/bin/gcc'' ''gcc'' ?argv"
    by (rule example_input_ok; code_simp)
  have ws: "gcc_arguments (''gcc'' # gcc_words example_os Normal ?argv)
      (gcc_default_dirs example_os [] ''/usr/bin/gcc'') (gcc_inc_pos example_os Normal ?argv 1 1) =
      Inr [''gcc'', ''/w/a.c'', ''-I/w/inc'', ''-I/usr/include'', ''-o'', ''/w/a.o'']"
    by code_simp
  have out: "gcc_output example_os Normal ?argv (noobj example_os) = ''/w/a.o''" by code_simp
  have src: "removeAll ''/w/a.o'' (insert_all [] (gcc_sources example_os Normal ?argv)) = [''/w/a.c'']"
    by code_simp
  have spec: "gcc_action_spec example_os ?argv ws a \<longleftrightarrow>
      vec_ok (act_arguments a) \<and> vec_ok (act_sources a) \<and> vec_list (act_arguments a) = ws \<and>
      vec_list (act_sources a) = [''/w/a.c''] \<and> file_path (act_output a) = ''/w/a.o''" for ws a
    unfolding gcc_action_spec_def Let_def out src ..
  show ?thesis
    using gcc_collect_refines_spec [OF ok conjunct1 [OF no_actions_ok] no_actions_limit, of "[]" "''gcc''"]
    unfolding ws spec sum.case by (auto simp: no_actions_ok)
qed

text \<open>
  When the command line ends with a bare -I and the compiler reports include directories,
  the collector does not return: the position for them is one past the arguments and the
  assertion of the vector fails.
\<close>

theorem gcc_dangling_include_fails:
  assumes "gcc_input_ok os k prog tool (argv @ [''-I''])"
    and "vec_tight acts" "length (vec_list acts) < VEC_LIMIT"
    and "gcc_default_dirs os environ prog \<noteq> []"
  shows "loggerGccParserCollectActions os environ prog tool (a0 # argv @ [''-I'']) acts =
    Inl Assertion_Failure"
proof -
  have "resolve os p m \<noteq> Some []" for p m
    using resolve_absolute [of os p m "[]"] assms(1) by (auto simp: gcc_input_ok_def)
  then have "gcc_word os st ''-I'' \<noteq> []" for st
    by (auto simp: gcc_word_def gcc_classify_def gcc_source_def or_else_def split: option.splits)
  then have pos: "gcc_inc_pos os st (argv @ [''-I'']) n pos = n + length (gcc_words os st (argv @ [''-I''])) + 1"
    for st n pos
    by (induction argv arbitrary: st n pos) (simp_all add: Let_def)
  show ?thesis
    using gcc_collect_lemma [OF assms(1-3) refl, of environ a0] assms(4)
    by (simp add: pos gcc_arguments_def)
qed

theorem gcc_dangling_include_fails_witness:
  "loggerGccParserCollectActions example_os [] ''/usr/bin/gcc'' ''gcc''
     [''gcc'', ''a.c'', ''-I''] no_actions = Inl Assertion_Failure"
proof -
  have ok: "gcc_input_ok example_os 0 ''/usr/bin/gcc'' ''gcc'' ([''a.c''] @ [''-I''])"
    by (rule example_input_ok; code_simp)
  have "gcc_default_dirs example_os [] ''/usr/bin/gcc'' \<noteq> []" by code_simp
  from gcc_dangling_include_fails [OF ok conjunct1 [OF no_actions_ok] no_actions_limit this]
  show ?thesis by simp
qed

text \<open>
  Whatever the file system and the compiler answer, the action the GCC collector appends
  has duplicate-free sources; each is an absolute path without dot components whose extension
  is one of the source extensions; and its own output is not among them.
\<close>

theorem gcc_sources_sound:
  assumes "os_posix os" and "\<And>n. os_alloc os n"
    and "loggerGccParserCollectActions os environ prog tool argv acts = Inr (1, acts')"
    and "vec_ok acts"
  shows "acts' = acts \<or> (\<exists>a. vec_list acts' = vec_list acts @ [a] \<and>
    distinct (vec_list (act_sources a)) \<and> (\<forall>p \<in> set (vec_list (act_sources a)). src_path os p) \<and>
    file_path (act_output a) \<notin> set (vec_list (act_sources a)))"
proof -
  from assms(3) obtain a r1 v1 l pos b c d r2 where s: "loggerActionNew os tool = Inr (Some a)"
      "gcc_loop os l Normal (a\<lparr>act_arguments := v1\<rparr>) 1 = Inr (b, pos)"
      "add_default_dirs os environ prog pos b = Inr c" "remove_output c = Inr d"
      "loggerVectorAdd (os_alloc os) acts (Some d) = Inr (r2, acts')"
    by (auto simp: loggerGccParserCollectActions_def bindC_eq_Inr assms(2) split: if_splits)
  have "grants (os_alloc os) 10" by (rule grants_limit [OF assms(2)]) (simp add: VEC_LIMIT_def)
  from loggerActionNew_vectors [OF s(1) this] have "src_ok os (a\<lparr>act_arguments := v1\<rparr>)"
    by (simp add: src_ok_def)
  from gcc_loop_src_ok [OF assms(1,2) this s(2)] have "src_ok os b" .
  then have "src_ok os c" by (rule src_ok_same_sources [rotated]) (use add_default_dirs_sources [OF s(3)] in simp)
  from remove_output_src_ok [OF this s(4)] have d: "src_ok os d"
      "file_path (act_output d) \<notin> set (vec_list (act_sources d))" by simp_all
  show ?thesis
    by (rule loggerVectorAdd_cases [OF assms(4), of "os_alloc os" d])
      (use s(5) d in \<open>auto simp: src_ok_def\<close>)
qed

theorem gcc_sources_sound_witness:
  "\<exists>acts'. loggerGccParserCollectActions example_os [] ''/usr/bin/gcc'' ''gcc''
       [''gcc'', ''a.c'', ''./a.c'', ''-o'', ''a.o''] no_actions = Inr (1, acts') \<and>
     (acts' = no_actions \<or> (\<exists>a. vec_list acts' = vec_list no_actions @ [a] \<and>
       distinct (vec_list (act_sources a)) \<and>
       (\<forall>p \<in> set (vec_list (act_sources a)). src_path example_os p) \<and>
       file_path (act_output a) \<notin> set (vec_list (act_sources a))))"
proof -
  let ?r = "loggerGccParserCollectActions example_os [] ''/usr/bin/gcc'' ''gcc''
       [''gcc'', ''a.c'', ''./a.c'', ''-o'', ''a.o''] no_actions"
  have "(case ?r of Inr (n, _) \<Rightarrow> n = 1 | _ \<Rightarrow> False)" by code_simp
  then obtain acts' where r: "?r = Inr (1, acts')" by (auto split: sum.splits prod.splits)
  from gcc_sources_sound [OF example_os_posix _ r] no_actions_ok have
    "acts' = no_actions \<or> (\<exists>a. vec_list acts' = vec_list no_actions @ [a] \<and>
       distinct (vec_list (act_sources a)) \<and>
       (\<forall>p \<in> set (vec_list (act_sources a)). src_path example_os p) \<and>
       file_path (act_output a) \<notin> set (vec_list (act_sources a)))" by simp
  with r show ?thesis by blast
qed

text \<open>
  The first argument of PATH_MAX or more characters, after arguments that fit, overflows the
  buffer of the argument parser.
\<close>

theorem gcc_long_argument_overflows:
  assumes "gcc_input_ok os k prog tool pre" and "PATH_MAX \<le> length long"
  shows "loggerGccParserCollectActions os environ prog tool (a0 # pre @ long # post) acts =
    Inl Buffer_Overflow"
proof -
  have mem: "\<And>n. os_alloc os n" and posix: "os_posix os" and grow: "bounded_growth os k"
    and fit: "\<forall>a \<in> set pre. fits os (2 * k) a" and lim: "length pre < VEC_LIMIT"
    using assms(1) by (simp_all add: gcc_input_ok_def)
  obtain a where a: "loggerActionNew os tool = Inr (Some a)" "act_ok a"
      "vec_list (act_arguments a) = []" "vec_list (act_sources a) = []"
    using loggerActionNew_fits [OF mem grow, of tool] assms(1) by (auto simp: gcc_input_ok_def)
  obtain v1 where v1: "loggerVectorAdd (os_alloc os) (act_arguments a) (Some tool) = Inr (1, v1)"
      "vec_tight v1" "vec_list v1 = [tool]"
    using loggerVectorAdd_tight [of "act_arguments a" "os_alloc os" tool] a mem
    by (auto simp: act_ok_def VEC_LIMIT_def)
  let ?a = "a\<lparr>act_arguments := v1\<rparr>"
  obtain st b pos where "gcc_loop os (pre @ long # post) Normal ?a 1 = gcc_loop os (long # post) st b pos"
    using gcc_loop_prefix [OF mem posix grow fit, of ?a Normal 1] a v1 lim by (auto simp: act_ok_def)
  moreover have "processArgument os st long b = Inl Buffer_Overflow"
    using assms(2) by (simp add: processArgument_def strcpy_buf_def)
  ultimately show ?thesis
    using a(1) v1(1) mem by (simp add: loggerGccParserCollectActions_def)
qed

theorem gcc_long_argument_overflows_witness:
  "loggerGccParserCollectActions example_os [] ''/usr/bin/gcc'' ''gcc''
     ([''gcc'', ''a.c''] @ [replicate 4096 (CHR ''D'')]) no_actions = Inl Buffer_Overflow"
proof -
  have ok: "gcc_input_ok example_os 0 ''/usr/bin/gcc'' ''gcc'' [''a.c'']"
    by (rule example_input_ok; code_simp)
  have "PATH_MAX \<le> length (replicate 4096 (CHR ''D''))" by (simp add: PATH_MAX_def)
  from gcc_long_argument_overflows [OF ok this, of "[]" "''gcc''" "[]" no_actions]
  show ?thesis by simp
qed

end
