(* ===== verification/LoggerJavac.thy ===== *)
theory LoggerJavac
  imports LoggerResolve
begin

text \<open>
  \<^verbatim>\<open>logger/src/ldlogger-tool-javac.c\<close>: the argument parser for \<open>javac\<close>. The state machine
  \<open>processArg\<close> rewrites one argument, \<open>handleClassPath\<close> expands a class path into a heap
  buffer that grows, \<open>readArgumentsFromFile\<close> reads an \<open>@\<close> file, and
  \<open>loggerJavacParserCollectActions\<close> makes one action for each source.

  \<open>java_state\<close> is the abstract state of the parser (no buffers, vectors or pointers),
  \<open>java_step\<close> its step; \<open>processArg_refines\<close> is the simulation.
\<close>

section \<open>The parser\<close>

datatype JavaArgsState = Normal | InClassDir | InClassPath

record ParserData =
  hasSourcePath :: bool
  pd_state :: JavaArgsState
  commonArgs :: "string vec"
  pd_sources :: "string vec"
  classdir :: string

text \<open>The loop over the lines of the file.\<close>

fun read_lines :: "os \<Rightarrow> string list \<Rightarrow> string vec \<Rightarrow> fault + string vec" where
  "read_lines os [] args = Inr args"
| "read_lines os (line # rest) args =
     (if line = [] then Inr args
      else
        let cont = dropWhile (\<lambda>c. isspace c \<or> c = DQUOTE) line in
        bindC (deref (loggerStrDup (os_alloc os) cont)) (\<lambda>normLine.
        let normLine = takeWhile (\<lambda>c. c \<noteq> DQUOTE) normLine in
        bindC (loggerVectorAdd (os_alloc os) args (Some normLine)) (\<lambda>(_, args).
        read_lines os rest args)))"

definition readArgumentsFromFile :: "os \<Rightarrow> string \<Rightarrow> string vec \<Rightarrow> fault + string vec" where
  "readArgumentsFromFile os file args =
     (case os_readlines os file of
        None \<Rightarrow> Inr args
      | Some ls \<Rightarrow> read_lines os ls args)"

text \<open>
  The buffer \<open>*resCp_\<close>: its content and its size \<open>*resCpSize_\<close>. \<open>Stop\<close> is one of the two error
  exits of the loops, with the size of the buffer at that point.
\<close>

type_synonym cpbuf = "string \<times> nat"

datatype cp_result = Stop nat | Go nat cpbuf

text \<open>The inner loop, over the words of one class path entry.\<close>

fun cp_words :: "os \<Rightarrow> string list \<Rightarrow> nat \<Rightarrow> cpbuf \<Rightarrow> fault + cp_result" where
  "cp_words os [] currSize buf = Inr (Go currSize buf)"
| "cp_words os (w # ws) currSize (res, cap) =
     bindC (loggerMakePathAbs os PATH_MAX w True) (\<lambda>r.
     case r of
       None \<Rightarrow> cp_words os ws currSize (res, cap)
     | Some path \<Rightarrow>
         let currSize = currSize + (length path + 1) in
         if currSize \<ge> cap \<and> \<not> os_alloc os (currSize * 2) then Inr (Stop cap)
         else
           let cap = (if currSize \<ge> cap then currSize * 2 else cap) in
           bindC (strcat_buf cap res path) (\<lambda>res.
           bindC (strcat_buf cap res '':'') (\<lambda>res.
           cp_words os ws currSize (res, cap))))"

text \<open>The outer loop, over the tokens between colons.\<close>

fun cp_parts :: "os \<Rightarrow> string list \<Rightarrow> nat \<Rightarrow> cpbuf \<Rightarrow> fault + cp_result" where
  "cp_parts os [] currSize buf = Inr (Go currSize buf)"
| "cp_parts os (cpPart # parts) currSize buf =
     (case os_wordexp os cpPart of
        None \<Rightarrow> Inr (Stop (snd buf))
      | Some ws \<Rightarrow>
          bindC (cp_words os ws currSize buf) (\<lambda>r.
          case r of
            Stop cap \<Rightarrow> Inr (Stop cap)
          | Go currSize buf \<Rightarrow> cp_parts os parts currSize buf))"

text \<open>\<open>(*resCp_)[currSize - 1]\<close> with \<open>currSize = 0\<close> is an access before the buffer.\<close>

definition handleClassPath :: "os \<Rightarrow> cpbuf \<Rightarrow> string \<Rightarrow> fault + (int \<times> cpbuf)" where
  "handleClassPath os buf cp =
     bindC (if 0 < snd buf then Inr ([], snd buf) else Inl Buffer_Overflow) (\<lambda>buf.
     bindC (if os_alloc os (length cp + 1) then Inr cp else Inl Null_Deref) (\<lambda>classPath.
     bindC (cp_parts os (strtok classPath '':'') 1 buf) (\<lambda>r.
     case r of
       Stop cap \<Rightarrow> bindC (strcpy_buf cap cp) (\<lambda>res. Inr (0, res, cap))
     | Go _ (res, cap) \<Rightarrow>
         let currSize = length res in
         if currSize = 0 then Inl Out_Of_Bounds
         else Inr (1, if res ! (currSize - 1) = CHR '':'' then take (currSize - 1) res else res, cap))))"

text \<open>The branches of \<open>processArg\<close>: the new data and the text to record.\<close>

definition java_branches :: "os \<Rightarrow> string \<Rightarrow> string \<Rightarrow> ParserData \<Rightarrow> fault + (ParserData \<times> string)" where
  "java_branches os arg argToAdd d =
     (if pd_state d = InClassDir then
        bindC (loggerMakePathAbs os PATH_MAX arg False) (\<lambda>r.
        bindC (case r of Some p \<Rightarrow> Inr p | None \<Rightarrow> strcpy_buf PATH_MAX arg) (\<lambda>cdir.
        bindC (strcpy_buf PATH_MAX cdir) (\<lambda>argToAdd.
        Inr (d\<lparr>classdir := cdir, pd_state := Normal\<rparr>, argToAdd))))
      else if pd_state d = InClassPath then
        bindC (handleClassPath os (argToAdd, PATH_MAX) arg) (\<lambda>(_, argToAdd, _).
        Inr (d\<lparr>pd_state := Normal\<rparr>, argToAdd))
      else if strcmp arg ''-sourcepath'' = 0 then Inr (d\<lparr>hasSourcePath := True\<rparr>, argToAdd)
      else if strcmp arg ''-d'' = 0 then Inr (d\<lparr>pd_state := InClassDir\<rparr>, argToAdd)
      else if strcmp arg ''-cp'' = 0 \<or> strcmp arg ''-classpath'' = 0
      then Inr (d\<lparr>pd_state := InClassPath\<rparr>, argToAdd)
      else
        (case loggerGetFileExt (os_alloc os) arg True of
           None \<Rightarrow> Inr (d, argToAdd)
         | Some ext \<Rightarrow>
             if strcmp ext ''java'' = 0 then
               bindC (loggerMakePathAbs os PATH_MAX arg False) (\<lambda>r.
               case r of
                 None \<Rightarrow> Inr (d, argToAdd)
               | Some path \<Rightarrow>
                   bindC (loggerVectorAddUnique (os_alloc os) (pd_sources d)
                            (loggerStrDup (os_alloc os) path) strcmp) (\<lambda>(_, srcs).
                   Inr (d\<lparr>pd_sources := srcs\<rparr>, [])))
             else Inr (d, argToAdd)))"

definition processArg :: "os \<Rightarrow> string \<Rightarrow> ParserData \<Rightarrow> fault + ParserData" where
  "processArg os arg d =
     (if \<not> os_alloc os PATH_MAX then Inr d
      else
        bindC (strcpy_buf PATH_MAX arg) (\<lambda>argToAdd.
        bindC (java_branches os arg argToAdd d) (\<lambda>(d, argToAdd).
        if argToAdd \<noteq> [] then
          bindC (loggerVectorAdd (os_alloc os) (commonArgs d)
                   (loggerStrDup (os_alloc os) argToAdd)) (\<lambda>(_, args).
          Inr (d\<lparr>commonArgs := args\<rparr>))
        else Inr d)))"

fun process_all :: "os \<Rightarrow> string option list \<Rightarrow> ParserData \<Rightarrow> fault + ParserData" where
  "process_all os [] d = Inr d"
| "process_all os (a # as) d =
     bindC (deref a) (\<lambda>a. bindC (processArg os a d) (\<lambda>d. process_all os as d))"

text \<open>The loop over \<open>argv\<close>.\<close>

fun java_loop :: "os \<Rightarrow> string list \<Rightarrow> ParserData \<Rightarrow> fault + ParserData" where
  "java_loop os [] d = Inr d"
| "java_loop os (arg # argv) d =
     bindC
       (if take 1 arg = ''@'' then
          bindC (readArgumentsFromFile os (drop 1 arg) (snd (loggerVectorInit (os_alloc os)))) (\<lambda>fargs.
          process_all os (take (vec_size fargs) (slots fargs)) d)
        else processArg os arg d)
       (\<lambda>d. java_loop os argv d)"

definition add_sourcepath :: "os \<Rightarrow> ParserData \<Rightarrow> fault + ParserData" where
  "add_sourcepath os d =
     (if \<not> hasSourcePath d then
        bindC (loggerMakePathAbs os PATH_MAX ''.'' False) (\<lambda>r.
        case r of
          None \<Rightarrow> Inr d
        | Some workdir \<Rightarrow>
            bindC (loggerVectorAdd (os_alloc os) (commonArgs d)
                     (loggerStrDup (os_alloc os) ''-sourcepath'')) (\<lambda>(_, args).
            bindC (loggerVectorAdd (os_alloc os) args
                     (loggerStrDup (os_alloc os) workdir)) (\<lambda>(_, args).
            Inr (d\<lparr>commonArgs := args\<rparr>))))
      else Inr d)"

text \<open>The name of the class file; a NULL name is dereferenced by \<open>strcat\<close> and \<open>strcpy\<close>.\<close>

definition java_output :: "os \<Rightarrow> string \<Rightarrow> string \<Rightarrow> fault + string" where
  "java_output os cdir src =
     (if cdir \<noteq> [] then
        (let fname = loggerGetFileName (os_alloc os) src True in
         bindC (strcpy_buf PATH_MAX cdir) (\<lambda>outputFile.
         bindC (strcat_buf PATH_MAX outputFile ''/'') (\<lambda>outputFile.
         bindC (deref fname) (\<lambda>fname.
         bindC (strcat_buf PATH_MAX outputFile fname) (\<lambda>outputFile.
         strcat_buf PATH_MAX outputFile ''.class'')))))
      else
        bindC (deref (loggerGetFilePathWithoutExt (os_alloc os) src)) (\<lambda>path.
        bindC (strcpy_buf PATH_MAX path) (\<lambda>outputFile.
        strcat_buf PATH_MAX outputFile ''.class'')))"

text \<open>The loop over the sources.\<close>

fun java_actions ::
    "os \<Rightarrow> string \<Rightarrow> ParserData \<Rightarrow> string option list \<Rightarrow> action vec \<Rightarrow> fault + action vec" where
  "java_actions os tool d [] acts = Inr acts"
| "java_actions os tool d (s # ss) acts =
     bindC (loggerActionNew os tool) (\<lambda>a.
     case a of
       None \<Rightarrow> java_actions os tool d ss acts
     | Some act \<Rightarrow>
         bindC (loggerVectorAddFrom (os_alloc os) (act_arguments act) (commonArgs d) None
                  (loggerStrDup (os_alloc os))) (\<lambda>(_, args).
         bindC (deref s) (\<lambda>src.
         bindC (loggerVectorAdd (os_alloc os) args (loggerStrDup (os_alloc os) src)) (\<lambda>(_, args).
         bindC (loggerVectorAdd (os_alloc os) (act_sources act) (loggerStrDup (os_alloc os) src)) (\<lambda>(_, srcs).
         bindC (java_output os (classdir d) src) (\<lambda>outputFile.
         bindC (loggerFileInitFromPath os outputFile) (\<lambda>out.
         bindC (loggerVectorAdd (os_alloc os) acts
                  (Some (act\<lparr>act_arguments := args, act_sources := srcs, act_output := out\<rparr>))) (\<lambda>(_, acts).
         java_actions os tool d ss acts))))))))"

definition loggerJavacParserCollectActions ::
    "os \<Rightarrow> string list \<Rightarrow> string \<Rightarrow> string \<Rightarrow> string list \<Rightarrow> action vec \<Rightarrow> fault + (int \<times> action vec)"
  where
  "loggerJavacParserCollectActions os environ prog tool argv acts =
     (let d = \<lparr>hasSourcePath = False, pd_state = Normal,
               commonArgs = snd (loggerVectorInit (os_alloc os)),
               pd_sources = snd (loggerVectorInit (os_alloc os)), classdir = []\<rparr>
      in
     bindC (loggerVectorAdd (os_alloc os) (commonArgs d) (loggerStrDup (os_alloc os) tool)) (\<lambda>(_, args).
     bindC (if argv = [] then Inl Out_Of_Bounds else Inr (tl argv)) (\<lambda>argv.
     bindC (java_loop os argv (d\<lparr>commonArgs := args\<rparr>)) (\<lambda>d.
     bindC (add_sourcepath os d) (\<lambda>d.
     bindC (java_actions os tool d (take (vec_size (pd_sources d)) (slots (pd_sources d))) acts) (\<lambda>acts.
     Inr (1, acts)))))))"

section \<open>The class path\<close>

text \<open>
  The entries of a class path: the existing paths among the words its parts expand to;
  \<open>None\<close> when a part does not expand.
\<close>

definition existing :: "os \<Rightarrow> string list \<Rightarrow> string list" where
  "existing os ws = List.map_filter (\<lambda>w. resolve os w True) ws"

fun part_entries :: "os \<Rightarrow> string list \<Rightarrow> string list option" where
  "part_entries os [] = Some []"
| "part_entries os (t # ts) =
     (case os_wordexp os t of
        None \<Rightarrow> None
      | Some ws \<Rightarrow> map_option (\<lambda>es. existing os ws @ es) (part_entries os ts))"

definition class_entries :: "os \<Rightarrow> string \<Rightarrow> string list option" where
  "class_entries os cp = part_entries os (strtok cp '':'')"

text \<open>The words of the class path fit a path buffer.\<close>

definition words_fit :: "os \<Rightarrow> nat \<Rightarrow> string \<Rightarrow> bool" where
  "words_fit os k cp \<longleftrightarrow>
     (\<forall>t \<in> set (strtok cp '':''). \<forall>ws. os_wordexp os t = Some ws \<longrightarrow> (\<forall>w \<in> set ws. fits os k w))"

text \<open>
  Every entry is appended with its colon, and the buffer is always larger than what the
  size counter claims: no append overflows, however long the class path is.
\<close>

definition with_colons :: "string list \<Rightarrow> string" where
  "with_colons es = concat (map (\<lambda>e. e @ '':'') es)"

lemma with_colons_simps [simp]:
  "with_colons [] = []" "with_colons (e # es) = e @ CHR '':'' # with_colons es"
  "with_colons (xs @ ys) = with_colons xs @ with_colons ys"
  by (simp_all add: with_colons_def)

lemma with_colons_join: "es \<noteq> [] \<Longrightarrow> with_colons es = join_with (CHR '':'') es @ '':''"
  by (induction "CHR '':''" es rule: join_with.induct) auto

lemma existing_simps [simp]:
  "existing os [] = []"
  "existing os (w # ws) = (case resolve os w True of None \<Rightarrow> [] | Some p \<Rightarrow> [p]) @ existing os ws"
  by (auto simp: existing_def map_filter_simps split: option.splits)

lemma cp_words_spec:
  assumes grow: "bounded_growth os k"
  shows "\<forall>w \<in> set ws. fits os k w \<Longrightarrow> length res < cap \<Longrightarrow>
    (\<exists>cap' \<ge> cap. length (res @ with_colons (existing os ws)) < cap' \<and>
      cp_words os ws (length res + 1) (res, cap) =
      Inr (Go (length (res @ with_colons (existing os ws)) + 1) (res @ with_colons (existing os ws), cap'))) \<or>
    (\<exists>cap' \<ge> cap. cp_words os ws (length res + 1) (res, cap) = Inr (Stop cap') \<and> (\<exists>n. \<not> os_alloc os n))"
proof (induction ws arbitrary: res cap)
  case (Cons w ws)
  have w: "loggerMakePathAbs os PATH_MAX w True = Inr (resolve os w True)"
    using resolve_fits(1) [OF grow, of 0 w True] Cons.prems by simp
  show ?case
  proof (cases "resolve os w True")
    case None
    with w Cons.IH [of res cap] Cons.prems show ?thesis by simp
  next
    case (Some p)
    let ?n = "length res + 1 + (length p + 1)"
    define c where "c = (if ?n \<ge> cap then ?n * 2 else cap)"
    show ?thesis
    proof (cases "?n \<ge> cap \<and> \<not> os_alloc os (?n * 2)")
      case True
      with w Some have "cp_words os (w # ws) (length res + 1) (res, cap) = Inr (Stop cap)"
        by (simp add: Let_def)
      with True show ?thesis by blast
    next
      case False
      let ?r = "res @ p @ '':''"
      have c: "length ?r < c" "cap \<le> c" by (auto simp: c_def)
      have step: "cp_words os (w # ws) (length res + 1) (res, cap) = cp_words os ws (length ?r + 1) (?r, c)"
        using False w Some c by (auto simp: Let_def c_def strcat_buf_def strcpy_buf_def mult_2_right)
      show ?thesis
        unfolding step using Cons.IH [of ?r c] Cons.prems(1) c Some by (auto intro: order_trans)
    qed
  qed
qed auto

lemma cp_parts_spec:
  assumes grow: "bounded_growth os k"
  shows "\<forall>t \<in> set ts. \<forall>ws. os_wordexp os t = Some ws \<longrightarrow> (\<forall>w \<in> set ws. fits os k w) \<Longrightarrow>
    length res < cap \<Longrightarrow>
    (\<exists>cap' \<ge> cap. \<exists>n. \<exists>es. part_entries os ts = Some es \<and>
      cp_parts os ts (length res + 1) (res, cap) = Inr (Go n (res @ with_colons es, cap'))) \<or>
    (\<exists>cap' \<ge> cap. cp_parts os ts (length res + 1) (res, cap) = Inr (Stop cap') \<and>
      (part_entries os ts = None \<or> (\<exists>n. \<not> os_alloc os n)))"
proof (induction ts arbitrary: res cap)
  case (Cons t ts)
  show ?case
  proof (cases "os_wordexp os t")
    case None
    then show ?thesis by auto
  next
    case (Some ws)
    with Cons.prems have "\<forall>w \<in> set ws. fits os k w" by simp
    from cp_words_spec [OF grow this Cons.prems(2)] consider
        c where "cap \<le> c" "length (res @ with_colons (existing os ws)) < c"
          "cp_words os ws (length res + 1) (res, cap) =
             Inr (Go (length (res @ with_colons (existing os ws)) + 1) (res @ with_colons (existing os ws), c))"
      | c where "cap \<le> c" "cp_words os ws (length res + 1) (res, cap) = Inr (Stop c)" "\<exists>n. \<not> os_alloc os n"
      by blast
    then show ?thesis
    proof cases
      case 1
      have "cp_parts os (t # ts) (length res + 1) (res, cap) =
          cp_parts os ts (length (res @ with_colons (existing os ws)) + 1) (res @ with_colons (existing os ws), c)"
        using Some 1(3) by simp
      moreover note Cons.IH [OF _ 1(2)]
      ultimately show ?thesis using Cons.prems(1) Some 1(1) by (fastforce intro: order_trans)
    next
      case 2
      with Some show ?thesis by auto
    qed
  qed
qed auto

text \<open>The outcome of \<open>handleClassPath\<close>, by what the class path expands to.\<close>

lemma handleClassPath_cases:
  assumes grow: "bounded_growth os k" and fit: "words_fit os k cp"
    and mem: "os_alloc os (length cp + 1)" and buf: "length cp < cap"
  shows "(\<exists>es cap'. class_entries os cp = Some es \<and> es \<noteq> [] \<and>
      handleClassPath os (old, cap) cp = Inr (1, join_with (CHR '':'') es, cap')) \<or>
    (class_entries os cp = Some [] \<and> handleClassPath os (old, cap) cp = Inl Out_Of_Bounds) \<or>
    (\<exists>cap'. (class_entries os cp = None \<or> (\<exists>n. \<not> os_alloc os n)) \<and>
      handleClassPath os (old, cap) cp = Inr (0, cp, cap'))"
proof -
  have "0 < cap" using buf by simp
  have body: "handleClassPath os (old, cap) cp =
     bindC (cp_parts os (strtok cp '':'') 1 ([], cap)) (\<lambda>r.
     case r of
       Stop cap \<Rightarrow> bindC (strcpy_buf cap cp) (\<lambda>res. Inr (0, res, cap))
     | Go _ (res, cap) \<Rightarrow>
         if length res = 0 then Inl Out_Of_Bounds
         else Inr (1, if res ! (length res - 1) = CHR '':'' then take (length res - 1) res else res, cap))"
    using \<open>0 < cap\<close> mem
    by (auto simp: handleClassPath_def Let_def intro!: bindC_cong split: cp_result.split)
  from cp_parts_spec [OF grow, of "strtok cp '':''" "[]" cap] fit \<open>0 < cap\<close> consider
      c n es where "class_entries os cp = Some es"
        "cp_parts os (strtok cp '':'') 1 ([], cap) = Inr (Go n (with_colons es, c))"
    | c where "cap \<le> c" "cp_parts os (strtok cp '':'') 1 ([], cap) = Inr (Stop c)"
        "class_entries os cp = None \<or> (\<exists>n. \<not> os_alloc os n)"
    unfolding words_fit_def class_entries_def by fastforce
  then show ?thesis
  proof cases
    case 1
    show ?thesis
    proof (cases "es = []")
      case True
      with 1 body show ?thesis by simp
    next
      case False
      with 1 body show ?thesis by (simp add: with_colons_join)
    qed
  next
    case 2
    with body buf show ?thesis by (auto simp: strcpy_buf_def)
  qed
qed

section \<open>The abstract parser\<close>

record java_state =
  ja_state :: JavaArgsState
  ja_sourcepath :: bool
  ja_words :: "string list"
  ja_sources :: "string list"
  ja_classdir :: string

definition java_init :: "string \<Rightarrow> java_state" where
  "java_init tool = \<lparr>ja_state = Normal, ja_sourcepath = False, ja_words = [tool],
     ja_sources = [], ja_classdir = []\<rparr>"

definition add_word :: "string \<Rightarrow> java_state \<Rightarrow> java_state" where
  "add_word w a = (if w = [] then a else a\<lparr>ja_words := ja_words a @ [w]\<rparr>)"

text \<open>The class path as recorded; \<open>None\<close> when no entry exists.\<close>

definition class_path :: "os \<Rightarrow> string \<Rightarrow> string option" where
  "class_path os cp =
     (case class_entries os cp of
        None \<Rightarrow> Some cp
      | Some [] \<Rightarrow> None
      | Some es \<Rightarrow> Some (join_with (CHR '':'') es))"

definition java_source :: "os \<Rightarrow> string \<Rightarrow> string option" where
  "java_source os arg =
     (case path_ext arg of
        Some ext \<Rightarrow> if map tolower ext = ''java'' then resolve os arg False else None
      | None \<Rightarrow> None)"

definition java_step :: "os \<Rightarrow> string \<Rightarrow> java_state \<Rightarrow> java_state option" where
  "java_step os arg a =
     (case ja_state a of
        InClassDir \<Rightarrow>
          (let p = or_else (resolve os arg False) arg in
           Some (add_word p (a\<lparr>ja_state := Normal, ja_classdir := p\<rparr>)))
      | InClassPath \<Rightarrow> map_option (\<lambda>w. add_word w (a\<lparr>ja_state := Normal\<rparr>)) (class_path os arg)
      | Normal \<Rightarrow>
          Some (if arg = ''-sourcepath'' then add_word arg (a\<lparr>ja_sourcepath := True\<rparr>)
                else if arg = ''-d'' then add_word arg (a\<lparr>ja_state := InClassDir\<rparr>)
                else if arg = ''-cp'' \<or> arg = ''-classpath'' then add_word arg (a\<lparr>ja_state := InClassPath\<rparr>)
                else case java_source os arg of
                       Some p \<Rightarrow> a\<lparr>ja_sources := insert_all (ja_sources a) [p]\<rparr>
                     | None \<Rightarrow> add_word arg a))"

fun java_steps :: "os \<Rightarrow> string list \<Rightarrow> java_state \<Rightarrow> java_state option" where
  "java_steps os [] a = Some a"
| "java_steps os (x # xs) a = (case java_step os x a of None \<Rightarrow> None | Some b \<Rightarrow> java_steps os xs b)"

lemma java_steps_append:
  "java_steps os (xs @ ys) a = (case java_steps os xs a of None \<Rightarrow> None | Some b \<Rightarrow> java_steps os ys b)"
  by (induction xs arbitrary: a) (auto split: option.splits)

text \<open>The concrete data that stands for an abstract state.\<close>

definition java_abs :: "ParserData \<Rightarrow> java_state" where
  "java_abs d = \<lparr>ja_state = pd_state d, ja_sourcepath = hasSourcePath d,
     ja_words = vec_list (commonArgs d), ja_sources = vec_list (pd_sources d),
     ja_classdir = classdir d\<rparr>"

definition java_ok :: "ParserData \<Rightarrow> bool" where
  "java_ok d \<longleftrightarrow> vec_tight (commonArgs d) \<and> vec_tight (pd_sources d) \<and>
     length (classdir d) < PATH_MAX"

definition java_room :: "nat \<Rightarrow> ParserData \<Rightarrow> bool" where
  "java_room n d \<longleftrightarrow> length (vec_list (commonArgs d)) + n \<le> VEC_LIMIT \<and>
     length (vec_list (pd_sources d)) + n \<le> VEC_LIMIT"

definition java_arg_ok :: "os \<Rightarrow> nat \<Rightarrow> string \<Rightarrow> bool" where
  "java_arg_ok os k arg \<longleftrightarrow> fits os k arg \<and> words_fit os k arg \<and> NUL \<notin> set arg"

section \<open>Simulation\<close>

lemma java_branches_refines:
  assumes mem: "\<And>n. os_alloc os n" and grow: "bounded_growth os k"
    and arg: "java_arg_ok os k arg" and ok: "java_ok d" and room: "java_room 1 d"
  shows "case java_step os arg (java_abs d) of
      None \<Rightarrow> java_branches os arg arg d = Inl Out_Of_Bounds
    | Some a \<Rightarrow> \<exists>d' w. java_branches os arg arg d = Inr (d', w) \<and> java_ok d' \<and>
        commonArgs d' = commonArgs d \<and> add_word w (java_abs d') = a"
proof -
  have fit: "fits os k arg" and wf: "words_fit os k arg" and nul: "NUL \<notin> set arg"
    using arg by (simp_all add: java_arg_ok_def)
  have len: "length arg < PATH_MAX" using fits_length [OF fit] by simp
  have res: "loggerMakePathAbs os PATH_MAX arg False = Inr (resolve os arg False)"
    "\<And>r. resolve os arg False = Some r \<Longrightarrow> length r < PATH_MAX"
    using resolve_fits [OF grow, of 0 arg False] fit by auto
  have src: "loggerGetFileExt (os_alloc os) arg True = map_option (map tolower) (path_ext arg)"
    using nul mem by (auto simp: loggerGetFileExt_eq path_ext_def split: option.splits)
  show ?thesis
  proof (cases "pd_state d")
    case InClassDir
    with ok res len show ?thesis
      by (cases "resolve os arg False")
        (simp_all add: java_step_def java_abs_def java_branches_def java_ok_def or_else_def Let_def
          strcpy_buf_def)
  next
    case InClassPath
    from handleClassPath_cases [OF grow wf mem len, of arg] mem
    consider es c where "class_entries os arg = Some es" "es \<noteq> []"
          "handleClassPath os (arg, PATH_MAX) arg = Inr (1, join_with (CHR '':'') es, c)"
      | "class_entries os arg = Some []" "handleClassPath os (arg, PATH_MAX) arg = Inl Out_Of_Bounds"
      | c where "class_entries os arg = None" "handleClassPath os (arg, PATH_MAX) arg = Inr (0, arg, c)"
      by blast
    then show ?thesis
      using InClassPath ok
      by cases (auto simp: java_step_def java_abs_def java_branches_def java_ok_def class_path_def
          split: list.splits)
  next
    case Normal
    show ?thesis
    proof (cases "arg \<in> {''-sourcepath'', ''-d'', ''-cp'', ''-classpath''} \<or> java_source os arg = None")
      case True
      with Normal ok src res show ?thesis
        by (auto simp: java_step_def java_abs_def java_branches_def java_ok_def java_source_def
            split: option.splits)
    next
      case False
      then obtain p where p: "java_source os arg = Some p" by auto
      obtain r v where v: "loggerVectorAddUnique (os_alloc os) (pd_sources d) (Some p) strcmp = Inr (r, v)"
          "vec_tight v" "vec_list v = (if p \<in> set (vec_list (pd_sources d))
            then vec_list (pd_sources d) else vec_list (pd_sources d) @ [p])"
      proof (rule loggerVectorAddUnique_tight [of "pd_sources d" "os_alloc os" strcmp p])
        show "vec_tight (pd_sources d)" using ok by (simp add: java_ok_def)
      qed (use mem room in \<open>auto simp: java_room_def\<close>)
      from False Normal ok src res p v mem show ?thesis
        by (auto simp: java_step_def java_abs_def java_branches_def java_ok_def java_source_def
            add_word_def split: option.splits if_splits)
    qed
  qed
qed

lemma processArg_refines:
  assumes mem: "\<And>n. os_alloc os n" and grow: "bounded_growth os k"
    and arg: "java_arg_ok os k arg" and ok: "java_ok d" and room: "java_room (Suc n) d"
  shows "case java_step os arg (java_abs d) of
      None \<Rightarrow> processArg os arg d = Inl Out_Of_Bounds
    | Some a \<Rightarrow> \<exists>d'. processArg os arg d = Inr d' \<and> java_ok d' \<and> java_room n d' \<and> java_abs d' = a"
proof -
  have len: "length arg < PATH_MAX"
    using arg fits_length [of os k arg] by (simp add: java_arg_ok_def)
  have room1: "java_room 1 d" using room by (simp add: java_room_def)
  note B = java_branches_refines [OF mem grow arg ok room1]
  show ?thesis
  proof (cases "java_step os arg (java_abs d)")
    case None
    with B mem len show ?thesis by (simp add: processArg_def strcpy_buf_def)
  next
    case (Some a)
    with B obtain e w where e: "java_branches os arg arg d = Inr (e, w)" "java_ok e"
        "commonArgs e = commonArgs d" "add_word w (java_abs e) = a" by auto
    have srcs: "length (vec_list (pd_sources e)) \<le> length (vec_list (pd_sources d)) + 1"
    proof -
      have "ja_sources a = vec_list (pd_sources e)"
        using e(4) by (auto simp: add_word_def java_abs_def split: if_splits)
      moreover have "length (ja_sources a) \<le> length (vec_list (pd_sources d)) + 1"
        using Some
        by (auto simp: java_step_def java_abs_def add_word_def Let_def
            split: JavaArgsState.splits if_splits option.splits)
      ultimately show ?thesis by simp
    qed
    show ?thesis
    proof (cases "w = []")
      case True
      with Some e srcs mem len room show ?thesis
        by (auto simp: processArg_def strcpy_buf_def java_room_def add_word_def)
    next
      case False
      obtain v where v: "loggerVectorAdd (os_alloc os) (commonArgs d) (Some w) = Inr (1, v)"
          "vec_tight v" "vec_list v = vec_list (commonArgs d) @ [w]"
        by (rule loggerVectorAdd_tight [of "commonArgs d" "os_alloc os" w])
          (use ok mem room in \<open>auto simp: java_ok_def java_room_def\<close>)
      have "processArg os arg d = Inr (e\<lparr>commonArgs := v\<rparr>)"
        using False e v mem len by (simp add: processArg_def strcpy_buf_def)
      moreover have "java_abs (e\<lparr>commonArgs := v\<rparr>) = a"
        using e(3,4) False v(3) by (auto simp: java_abs_def add_word_def)
      ultimately show ?thesis using Some e v srcs room by (simp add: java_ok_def java_room_def)
    qed
  qed
qed

section \<open>The argument loops\<close>

text \<open>The arguments of an \<open>@\<close> file, and of the whole command line.\<close>

definition clean_line :: "string \<Rightarrow> string" where
  "clean_line l = takeWhile (\<lambda>c. c \<noteq> DQUOTE) (dropWhile (\<lambda>c. isspace c \<or> c = DQUOTE) l)"

definition file_arguments :: "os \<Rightarrow> string \<Rightarrow> string list" where
  "file_arguments os f =
     (case os_readlines os f of
        None \<Rightarrow> []
      | Some ls \<Rightarrow> map clean_line (takeWhile (\<lambda>l. l \<noteq> []) ls))"

definition expand_argument :: "os \<Rightarrow> string \<Rightarrow> string list" where
  "expand_argument os arg = (if take 1 arg = ''@'' then file_arguments os (drop 1 arg) else [arg])"

definition java_expand :: "os \<Rightarrow> string list \<Rightarrow> string list" where
  "java_expand os argv = concat (map (expand_argument os) argv)"

lemma read_lines_spec:
  assumes mem: "\<And>n. os_alloc os n"
  shows "vec_tight v \<Longrightarrow> length (vec_list v) + length ls \<le> VEC_LIMIT \<Longrightarrow>
    \<exists>w. read_lines os ls v = Inr w \<and> vec_tight w \<and>
      vec_list w = vec_list v @ map clean_line (takeWhile (\<lambda>l. l \<noteq> []) ls)"
proof (induction ls arbitrary: v)
  case (Cons l ls)
  show ?case
  proof (cases "l = []")
    case True
    with Cons.prems show ?thesis by simp
  next
    case False
    obtain u where u: "loggerVectorAdd (os_alloc os) v (Some (clean_line l)) = Inr (1, u)"
        "vec_tight u" "vec_list u = vec_list v @ [clean_line l]"
      by (rule loggerVectorAdd_tight [of v "os_alloc os" "clean_line l"]) (use Cons.prems mem in auto)
    have "read_lines os (l # ls) v = read_lines os ls u"
      using False u(1) mem by (simp add: Let_def clean_line_def)
    moreover have "length (vec_list u) + length ls \<le> VEC_LIMIT" using u(3) Cons.prems by simp
    ultimately show ?thesis using Cons.IH [OF u(2)] u(3) False by simp
  qed
qed simp

lemma process_all_spec:
  assumes mem: "\<And>n. os_alloc os n" and grow: "bounded_growth os k"
  shows "\<forall>a \<in> set as. java_arg_ok os k a \<Longrightarrow> java_ok d \<Longrightarrow> java_room (length as + n) d \<Longrightarrow>
    (case java_steps os as (java_abs d) of
      None \<Rightarrow> process_all os (map Some as) d = Inl Out_Of_Bounds
    | Some a \<Rightarrow> \<exists>d'. process_all os (map Some as) d = Inr d' \<and> java_ok d' \<and> java_room n d' \<and>
        java_abs d' = a)"
proof (induction as arbitrary: d)
  case (Cons a as)
  have "java_arg_ok os k a" "java_room (Suc (length as + n)) d" using Cons.prems by simp_all
  note step = processArg_refines [OF mem grow this(1) Cons.prems(2) this(2)]
  show ?case
  proof (cases "java_step os a (java_abs d)")
    case None
    with step show ?thesis by simp
  next
    case (Some b)
    with step obtain e where e: "processArg os a d = Inr e" "java_ok e"
        "java_room (length as + n) e" "java_abs e = b" by auto
    from e(1) have run: "process_all os (map Some (a # as)) d = process_all os (map Some as) e"
      by simp
    show ?thesis unfolding run using Cons.IH [OF _ e(2,3)] Cons.prems(1) Some e(4) by simp
  qed
qed simp

text \<open>The argument files fit the limit of the vector.\<close>

definition java_files_ok :: "os \<Rightarrow> string list \<Rightarrow> bool" where
  "java_files_ok os argv \<longleftrightarrow>
     (\<forall>f \<in> set argv. \<forall>ls. os_readlines os (drop 1 f) = Some ls \<longrightarrow> length ls \<le> VEC_LIMIT)"

lemma java_loop_spec:
  assumes mem: "\<And>n. os_alloc os n" and grow: "bounded_growth os k"
  shows "\<forall>a \<in> set (java_expand os argv). java_arg_ok os k a \<Longrightarrow> java_files_ok os argv \<Longrightarrow>
    java_ok d \<Longrightarrow> java_room (length (java_expand os argv) + n) d \<Longrightarrow>
    (case java_steps os (java_expand os argv) (java_abs d) of
      None \<Rightarrow> java_loop os argv d = Inl Out_Of_Bounds
    | Some a \<Rightarrow> \<exists>d'. java_loop os argv d = Inr d' \<and> java_ok d' \<and> java_room n d' \<and> java_abs d' = a)"
proof (induction argv arbitrary: d)
  case Nil
  then show ?case by (simp add: java_expand_def)
next
  case (Cons f argv)
  let ?v = "snd (loggerVectorInit (os_alloc os)) :: string vec" and ?as = "expand_argument os f"
  let ?body = "if take 1 f = ''@'' then
          bindC (readArgumentsFromFile os (drop 1 f) ?v) (\<lambda>fargs.
          process_all os (take (vec_size fargs) (slots fargs)) d)
        else processArg os f d"
  have ex: "java_expand os (f # argv) = ?as @ java_expand os argv"
    by (simp add: java_expand_def)
  have "?body = process_all os (map Some ?as) d"
  proof (cases "take 1 f = ''@''")
    case True
    have v: "vec_tight ?v" "vec_list ?v = []" using loggerVectorInit_granted [of "os_alloc os" ?v, OF mem refl]
      by simp_all
    obtain w where w: "readArgumentsFromFile os (drop 1 f) ?v = Inr w" "vec_tight w"
        "vec_list w = file_arguments os (drop 1 f)"
    proof (cases "os_readlines os (drop 1 f)")
      case None
      with v that [of ?v] show thesis by (simp add: readArgumentsFromFile_def file_arguments_def)
    next
      case (Some ls)
      have "length ls \<le> VEC_LIMIT" using Some Cons.prems(2) by (simp add: java_files_ok_def)
      with read_lines_spec [OF mem v(1), of ls] v(2) obtain w where
          "read_lines os ls ?v = Inr w" "vec_tight w" "vec_list w = map clean_line (takeWhile (\<lambda>l. l \<noteq> []) ls)"
        by auto
      with Some that [of w] show thesis by (simp add: readArgumentsFromFile_def file_arguments_def)
    qed
    have "take (vec_size w) (slots w) = map Some (vec_list w)"
      by (rule vec_ok_slots) (use w in simp)
    with True w show ?thesis by (simp add: expand_argument_def)
  next
    case False
    then show ?thesis by (cases "processArg os f d") (simp_all add: expand_argument_def)
  qed
  then have loop: "java_loop os (f # argv) d = bindC (process_all os (map Some ?as) d) (java_loop os argv)"
    by simp
  have "\<forall>a \<in> set ?as. java_arg_ok os k a" "java_room (length ?as + (length (java_expand os argv) + n)) d"
    using Cons.prems ex by (simp_all add: add.assoc)
  note P = process_all_spec [OF mem grow this(1) Cons.prems(3) this(2)]
  show ?case
  proof (cases "java_steps os ?as (java_abs d)")
    case None
    with P loop have run: "java_loop os (f # argv) d = Inl Out_Of_Bounds" by simp
    show ?thesis unfolding run ex using None by (simp add: java_steps_append)
  next
    case (Some b)
    with P obtain e where e: "process_all os (map Some ?as) d = Inr e" "java_ok e"
        "java_room (length (java_expand os argv) + n) e" "java_abs e = b" by auto
    from Cons.prems ex have "\<forall>a \<in> set (java_expand os argv). java_arg_ok os k a" "java_files_ok os argv"
      by (simp_all add: java_files_ok_def)
    note IH = Cons.IH [OF this e(2,3)]
    from loop e(1) have run: "java_loop os (f # argv) d = java_loop os argv e" by simp
    show ?thesis unfolding run ex using IH Some e(4) by (simp add: java_steps_append)
  qed
qed

section \<open>The actions\<close>

definition stem :: "string \<Rightarrow> string" where
  "stem s = (case strrchr s (CHR ''.'') of Some i \<Rightarrow> take i s | None \<Rightarrow> s)"

definition class_file :: "string \<Rightarrow> string \<Rightarrow> string option" where
  "class_file cdir src =
     (if cdir \<noteq> [] then map_option (\<lambda>b. cdir @ ''/'' @ stem b @ ''.class'') (path_base src)
      else Some (stem src @ ''.class''))"

definition java_source_ok :: "os \<Rightarrow> nat \<Rightarrow> string \<Rightarrow> string \<Rightarrow> bool" where
  "java_source_ok os k cdir src \<longleftrightarrow>
     (case class_file cdir src of Some f \<Rightarrow> fits os k f | None \<Rightarrow> False)"

definition java_action ::
    "os \<Rightarrow> string \<Rightarrow> string list \<Rightarrow> string \<Rightarrow> string \<Rightarrow> action \<Rightarrow> bool" where
  "java_action os tool ws cdir src a \<longleftrightarrow>
     vec_ok (act_arguments a) \<and> vec_ok (act_sources a) \<and>
     act_toolName a = tool \<and> vec_list (act_arguments a) = ws @ [src] \<and>
     vec_list (act_sources a) = [src] \<and>
     (\<exists>f. class_file cdir src = Some f \<and> file_path (act_output a) = or_else (resolve os f False) f)"

lemma java_output_spec:
  assumes mem: "\<And>n. os_alloc os n" and f: "class_file cdir src = Some f" "length f < PATH_MAX"
  shows "java_output os cdir src = Inr f"
proof (cases "cdir = []")
  case True
  have "loggerGetFilePathWithoutExt (os_alloc os) src = Some (stem src)"
    using mem by (auto simp: loggerGetFilePathWithoutExt_def stem_def loggerStrNDup_Some
        split: option.splits)
  with True f show ?thesis
    by (auto simp: java_output_def class_file_def strcat_buf_def strcpy_buf_def)
next
  case False
  with f obtain b where b: "path_base src = Some b" "f = cdir @ ''/'' @ stem b @ ''.class''"
    by (auto simp: class_file_def)
  have "loggerGetFileName (os_alloc os) src True = Some (stem b)"
    using b(1) mem
    by (auto simp: loggerGetFileName_def path_base_def stem_def loggerStrNDup_Some Let_def
        split: option.splits if_splits)
  with False b f(2) show ?thesis
    by (auto simp: java_output_def strcat_buf_def strcpy_buf_def Let_def)
qed

declare java_actions.simps(2) [simp del]

text \<open>One round of the loop over the sources.\<close>

lemma java_action_round:
  assumes mem: "\<And>n. os_alloc os n" and grow: "bounded_growth os k"
    and new: "fits os k ''./_noobj''" "length tool < PATH_MAX"
    and args: "vec_tight (commonArgs d)" "length (vec_list (commonArgs d)) < VEC_LIMIT"
    and src: "java_source_ok os k (classdir d) src"
    and acts: "vec_tight acts" "length (vec_list acts) < VEC_LIMIT"
  obtains a acts' where
    "java_actions os tool d (Some src # ss) acts = java_actions os tool d ss acts'"
    "vec_tight acts'" "vec_list acts' = vec_list acts @ [a]"
    "java_action os tool (vec_list (commonArgs d)) (classdir d) src a"
proof -
  obtain a where a: "loggerActionNew os tool = Inr (Some a)" "act_ok a"
      "vec_list (act_arguments a) = []" "vec_list (act_sources a) = []"
      "act_toolName a = tool"
    by (rule loggerActionNew_fits [OF mem grow new])
  have tight: "vec_tight (act_arguments a)" "vec_tight (act_sources a)"
    using a(2) by (simp_all add: act_ok_def)
  have sz: "vec_size (act_arguments a) = 0" "vec_size (commonArgs d) = length (vec_list (commonArgs d))"
    using vec_ok_size [OF vec_tight_ok [OF tight(1)]] vec_ok_size [OF vec_tight_ok [OF args(1)]] a(3)
    by simp_all
  obtain v where v: "loggerVectorAddFrom (os_alloc os) (act_arguments a) (commonArgs d) None
        (loggerStrDup (os_alloc os)) = Inr (1, v)" "vec_ok v"
      "vec_list v = take 0 (vec_list (act_arguments a)) @ map (\<lambda>x. x) (vec_list (commonArgs d)) @
        drop 0 (vec_list (act_arguments a))"
  proof (rule loggerVectorAddFrom_ok [OF vec_tight_ok [OF tight(1)] vec_tight_ok [OF args(1)],
        of "loggerStrDup (os_alloc os)" "\<lambda>x. x" 0 None "os_alloc os"])
    show "grants (os_alloc os) (vec_size (act_arguments a) + vec_size (commonArgs d))"
      by (rule grants_limit [OF mem]) (use args sz in simp)
  qed (use a mem in auto)
  have vt: "vec_tight v" by (rule loggerVectorAddFrom_tight [OF tight(1) v(2,1)])
  obtain u where u: "loggerVectorAdd (os_alloc os) v (Some src) = Inr (1, u)" "vec_tight u"
      "vec_list u = vec_list (commonArgs d) @ [src]"
    using loggerVectorAdd_tight [OF vt, of "os_alloc os" src] v(3) a(3) args(2) mem by auto
  obtain s where s: "loggerVectorAdd (os_alloc os) (act_sources a) (Some src) = Inr (1, s)"
      "vec_list s = [src]" "vec_tight s"
    using loggerVectorAdd_tight [OF tight(2), of "os_alloc os" src] a(4) mem
    by (auto simp: VEC_LIMIT_def)
  obtain f where f: "class_file (classdir d) src = Some f" "fits os k f"
    using src by (auto simp: java_source_ok_def split: option.splits)
  have out: "java_output os (classdir d) src = Inr f"
    by (rule java_output_spec [OF mem f(1)]) (use fits_length [OF f(2)] in simp)
  define b where "b = a\<lparr>act_arguments := u, act_sources := s,
      act_output := \<lparr>file_path = or_else (resolve os f False) f\<rparr>\<rparr>"
  obtain w where w: "loggerVectorAdd (os_alloc os) acts (Some b) = Inr (1, w)" "vec_tight w"
      "vec_list w = vec_list acts @ [b]"
    by (rule loggerVectorAdd_tight [OF acts(1) mem acts(2)])
  have "java_actions os tool d (Some src # ss) acts = java_actions os tool d ss w"
    using a(1) v(1) u(1) s(1) out w(1) mem loggerFileInitFromPath_fits [OF grow f(2)]
    by (simp add: b_def java_actions.simps(2))
  moreover have "java_action os tool (vec_list (commonArgs d)) (classdir d) src b"
    using a u s f by (simp add: java_action_def b_def)
  ultimately show thesis using that w by blast
qed

lemma java_actions_spec:
  assumes mem: "\<And>n. os_alloc os n" and grow: "bounded_growth os k"
    and new: "fits os k ''./_noobj''" "length tool < PATH_MAX"
    and args: "vec_tight (commonArgs d)" "length (vec_list (commonArgs d)) < VEC_LIMIT"
  shows "\<forall>s \<in> set srcs. java_source_ok os k (classdir d) s \<Longrightarrow> vec_tight acts \<Longrightarrow>
    length (vec_list acts) + length srcs \<le> VEC_LIMIT \<Longrightarrow>
    \<exists>acts' as. java_actions os tool d (map Some srcs) acts = Inr acts' \<and> vec_tight acts' \<and>
      vec_list acts' = vec_list acts @ as \<and>
      list_all2 (java_action os tool (vec_list (commonArgs d)) (classdir d)) srcs as"
proof (induction srcs arbitrary: acts)
  case (Cons s srcs)
  obtain a w where w: "java_actions os tool d (Some s # map Some srcs) acts =
        java_actions os tool d (map Some srcs) w"
      "vec_tight w" "vec_list w = vec_list acts @ [a]"
      "java_action os tool (vec_list (commonArgs d)) (classdir d) s a"
    by (rule java_action_round [OF mem grow new args, of s acts "map Some srcs"])
      (use Cons.prems in auto)
  obtain acts' as where "java_actions os tool d (map Some srcs) w = Inr acts'" "vec_tight acts'"
      "vec_list acts' = vec_list w @ as"
      "list_all2 (java_action os tool (vec_list (commonArgs d)) (classdir d)) srcs as"
    using Cons.IH [OF _ w(2)] Cons.prems w(3) by auto
  with w show ?case by (intro exI [of _ acts'] exI [of _ "a # as"]) simp
qed simp

section \<open>The collector\<close>

definition java_words :: "os \<Rightarrow> java_state \<Rightarrow> string list" where
  "java_words os a = ja_words a @
     (if ja_sourcepath a then []
      else case resolve os ''.'' False of None \<Rightarrow> [] | Some d \<Rightarrow> [''-sourcepath'', d])"

definition javac_input_ok :: "os \<Rightarrow> nat \<Rightarrow> string \<Rightarrow> string list \<Rightarrow> bool" where
  "javac_input_ok os k tool argv \<longleftrightarrow>
     (\<forall>n. os_alloc os n) \<and> bounded_growth os k \<and> fits os k ''./_noobj'' \<and> length tool < PATH_MAX \<and>
     (\<forall>a \<in> set (java_expand os argv). java_arg_ok os k a) \<and> java_files_ok os argv \<and>
     length (java_expand os argv) + 4 \<le> VEC_LIMIT"

lemma java_step_sources:
  "java_step os x a = Some b \<Longrightarrow> length (ja_sources b) \<le> Suc (length (ja_sources a))"
  by (auto simp: java_step_def add_word_def Let_def
      split: JavaArgsState.splits if_splits option.splits)

lemma java_steps_sources:
  "java_steps os xs a = Some b \<Longrightarrow> length (ja_sources b) \<le> length (ja_sources a) + length xs"
proof (induction xs arbitrary: a)
  case (Cons x xs)
  then obtain c where c: "java_step os x a = Some c" "java_steps os xs c = Some b"
    by (auto split: option.splits)
  from java_step_sources [OF c(1)] Cons.IH [OF c(2)] show ?case by simp
qed simp

lemma add_sourcepath_spec:
  assumes mem: "\<And>n. os_alloc os n" and grow: "bounded_growth os k" and dot: "fits os k ''.''"
    and ok: "java_ok d" and room: "java_room 3 d"
  obtains e where "add_sourcepath os d = Inr e" "vec_tight (commonArgs e)"
    "length (vec_list (commonArgs e)) < VEC_LIMIT"
    "vec_list (commonArgs e) = java_words os (java_abs d)" "pd_sources e = pd_sources d"
    "classdir e = classdir d"
proof -
  have res: "loggerMakePathAbs os PATH_MAX ''.'' False = Inr (resolve os ''.'' False)"
    using resolve_fits(1) [OF grow, of 0] dot by simp
  have tight: "vec_tight (commonArgs d)" "length (vec_list (commonArgs d)) + 3 \<le> VEC_LIMIT"
    using ok room by (simp_all add: java_ok_def java_room_def)
  show thesis
  proof (cases "hasSourcePath d \<or> resolve os ''.'' False = None")
    case True
    with tight res show thesis
      by (intro that [of d]) (auto simp: add_sourcepath_def java_words_def java_abs_def)
  next
    case False
    then obtain w where w: "resolve os ''.'' False = Some w" by auto
    obtain u where u: "loggerVectorAdd (os_alloc os) (commonArgs d) (Some ''-sourcepath'') = Inr (1, u)"
        "vec_tight u" "vec_list u = vec_list (commonArgs d) @ [''-sourcepath'']"
      by (rule loggerVectorAdd_tight [OF tight(1), of "os_alloc os" "''-sourcepath''"])
        (use tight(2) mem in auto)
    obtain v where v: "loggerVectorAdd (os_alloc os) u (Some w) = Inr (1, v)"
        "vec_tight v" "vec_list v = vec_list u @ [w]"
      by (rule loggerVectorAdd_tight [OF u(2), of "os_alloc os" w]) (use tight(2) u(3) mem in auto)
    from False w u v res mem tight(2) show thesis
      by (intro that [of "d\<lparr>commonArgs := v\<rparr>"])
        (auto simp: add_sourcepath_def java_words_def java_abs_def)
  qed
qed

lemma javac_collect_lemma:
  assumes input: "javac_input_ok os k tool argv" and acts: "vec_tight acts"
    and lim: "length (vec_list acts) + length (java_expand os argv) \<le> VEC_LIMIT"
  shows "case java_steps os (java_expand os argv) (java_init tool) of
      None \<Rightarrow> loggerJavacParserCollectActions os environ prog tool (a0 # argv) acts = Inl Out_Of_Bounds
    | Some a \<Rightarrow> (\<forall>s \<in> set (ja_sources a). java_source_ok os k (ja_classdir a) s) \<longrightarrow>
        (\<exists>acts' as.
          loggerJavacParserCollectActions os environ prog tool (a0 # argv) acts = Inr (1, acts') \<and>
          vec_tight acts' \<and> vec_list acts' = vec_list acts @ as \<and>
          list_all2 (java_action os tool (java_words os a) (ja_classdir a)) (ja_sources a) as)"
proof -
  have mem: "\<And>n. os_alloc os n" and grow: "bounded_growth os k" and new: "fits os k ''./_noobj''"
    and tool: "length tool < PATH_MAX" and files: "java_files_ok os argv"
    and args: "\<forall>a \<in> set (java_expand os argv). java_arg_ok os k a"
    and len: "length (java_expand os argv) + 4 \<le> VEC_LIMIT"
    using input by (simp_all add: javac_input_ok_def)
  have dot: "fits os k ''.''" using new by (auto simp: fits_def split: option.splits)
  let ?v = "snd (loggerVectorInit (os_alloc os)) :: string vec"
  have v: "vec_tight ?v" "vec_list ?v = []"
    using loggerVectorInit_granted [of "os_alloc os" ?v, OF mem refl] by simp_all
  obtain u where u: "loggerVectorAdd (os_alloc os) ?v (Some tool) = Inr (1, u)" "vec_tight u"
      "vec_list u = [tool]"
    using loggerVectorAdd_tight [OF v(1), of "os_alloc os" tool] v(2) mem
    by (auto simp: VEC_LIMIT_def)
  define d where "d = \<lparr>hasSourcePath = False, pd_state = Normal, commonArgs = u,
      pd_sources = ?v, classdir = []\<rparr>"
  have d: "java_abs d = java_init tool" "java_ok d" "java_room (length (java_expand os argv) + 3) d"
    using u v len by (simp_all add: java_abs_def java_init_def d_def java_ok_def java_room_def PATH_MAX_def)
  have collect: "loggerJavacParserCollectActions os environ prog tool (a0 # argv) acts =
     bindC (java_loop os argv d) (\<lambda>d. bindC (add_sourcepath os d) (\<lambda>d.
     bindC (java_actions os tool d (take (vec_size (pd_sources d)) (slots (pd_sources d))) acts)
       (\<lambda>acts. Inr (1, acts))))"
    using u(1) mem by (simp add: loggerJavacParserCollectActions_def d_def)
  note loop = java_loop_spec [OF mem grow args files d(2,3), unfolded d(1)]
  show ?thesis
  proof (cases "java_steps os (java_expand os argv) (java_init tool)")
    case None
    with loop collect show ?thesis by simp
  next
    case (Some a)
    with loop obtain e where e: "java_loop os argv d = Inr e" "java_ok e" "java_room 3 e" "java_abs e = a"
      by auto
    obtain f where f: "add_sourcepath os e = Inr f" "vec_tight (commonArgs f)"
        "length (vec_list (commonArgs f)) < VEC_LIMIT"
        "vec_list (commonArgs f) = java_words os a" "pd_sources f = pd_sources e"
        "classdir f = classdir e"
      using add_sourcepath_spec [OF mem grow dot e(2,3)] e(4) by metis
    have srcs: "take (vec_size (pd_sources f)) (slots (pd_sources f)) = map Some (ja_sources a)"
      using vec_ok_slots [OF vec_tight_ok] e(2,4) f(5) by (auto simp: java_ok_def java_abs_def)
    have cdir: "classdir f = ja_classdir a" using f(6) e(4) by (auto simp: java_abs_def)
    have "length (ja_sources a) \<le> length (java_expand os argv)"
      using java_steps_sources [OF Some] by (simp add: java_init_def)
    with lim have room: "length (vec_list acts) + length (ja_sources a) \<le> VEC_LIMIT" by simp
    have "\<exists>acts' as. loggerJavacParserCollectActions os environ prog tool (a0 # argv) acts = Inr (1, acts') \<and>
          vec_tight acts' \<and> vec_list acts' = vec_list acts @ as \<and>
          list_all2 (java_action os tool (java_words os a) (ja_classdir a)) (ja_sources a) as"
      if ok: "\<forall>s \<in> set (ja_sources a). java_source_ok os k (ja_classdir a) s"
    proof -
      from java_actions_spec [OF mem grow new tool f(2,3), of "ja_sources a" acts] ok acts room cdir
      obtain acts' as where "java_actions os tool f (map Some (ja_sources a)) acts = Inr acts'"
          "vec_tight acts'" "vec_list acts' = vec_list acts @ as"
          "list_all2 (java_action os tool (java_words os a) (ja_classdir a)) (ja_sources a) as"
        using f(4) by auto
      with collect e(1) f(1) srcs show ?thesis by simp
    qed
    with Some show ?thesis by simp
  qed
qed

section \<open>Properties\<close>

text \<open>
  For any allocator, \<open>handleClassPath\<close> never writes outside its growing buffer. It returns 1
  with the existing entries joined by colons, or 0 with the class path as given when a part
  does not expand or memory ran out; with no existing entry at all it reads before the buffer,
  and an ungranted copy of the class path is written through NULL.
\<close>

theorem handleClassPath_correct:
  assumes grow: "bounded_growth os k" and fit: "words_fit os k cp" and buf: "length cp < cap"
  shows "case handleClassPath os (old, cap) cp of
      Inl e \<Rightarrow> e = Null_Deref \<and> \<not> os_alloc os (length cp + 1) \<or>
        e = Out_Of_Bounds \<and> class_entries os cp = Some []
    | Inr (rc, res, _) \<Rightarrow>
        rc = 1 \<and> (\<exists>es. class_entries os cp = Some es \<and> es \<noteq> [] \<and> res = join_with (CHR '':'') es) \<or>
        rc = 0 \<and> res = cp \<and> (class_entries os cp = None \<or> (\<exists>n. \<not> os_alloc os n))"
proof (cases "os_alloc os (length cp + 1)")
  case True
  from handleClassPath_cases [OF grow fit True buf, of old] show ?thesis by auto
next
  case False
  with buf show ?thesis by (simp add: handleClassPath_def)
qed

theorem handleClassPath_correct_witness:
  "(\<exists>c. handleClassPath example_os ([], 9) ''a.c::a.c'' = Inr (1, ''/w/a.c:/w/a.c'', c)) \<and>
   handleClassPath example_os ([], 9) ''lib'' = Inl Out_Of_Bounds"
proof -
  have cp: "class_entries example_os ''a.c::a.c'' = Some [''/w/a.c'', ''/w/a.c'']"
    "class_entries example_os ''lib'' = Some []" "join_with (CHR '':'') [''/w/a.c'', ''/w/a.c''] = ''/w/a.c:/w/a.c''"
    by code_simp+
  have tokens: "strtok ''a.c::a.c'' '':'' = [''a.c'', ''a.c'']" "strtok ''lib'' '':'' = [''lib'']"
    by code_simp+
  have "fits example_os 0 ''a.c''" "fits example_os 0 ''lib''" by code_simp+
  then have fit: "words_fit example_os 0 ''a.c::a.c''" "words_fit example_os 0 ''lib''"
    by (simp_all add: words_fit_def tokens example_os_def)
  have len: "length ''a.c::a.c'' < (9::nat)" "length ''lib'' < (9::nat)" by simp_all
  show ?thesis
    using handleClassPath_correct [OF example_bounded_growth fit(1) len(1), of "[]"]
      handleClassPath_correct [OF example_bounded_growth fit(2) len(2), of "[]"] cp
    by (auto split: sum.splits)
qed

text \<open>
  C16: on input that fits its buffers, the \<open>javac\<close> parser computes the abstract parser: one
  action for each distinct source, in order, with the recorded words (class directory and class
  path made absolute, \<open>@\<close> files expanded, a source path added when none is given) followed by
  that source, and the class file next to the source or under the class directory. When a class
  path has no existing entry, it reads before a buffer instead.
\<close>

theorem javac_collect_refines_spec:
  assumes "javac_input_ok os k tool argv" "vec_tight acts"
    and "length (vec_list acts) + length (java_expand os argv) \<le> VEC_LIMIT"
  shows "case java_steps os (java_expand os argv) (java_init tool) of
      None \<Rightarrow> loggerJavacParserCollectActions os environ prog tool (a0 # argv) acts = Inl Out_Of_Bounds
    | Some a \<Rightarrow> (\<forall>s \<in> set (ja_sources a). java_source_ok os k (ja_classdir a) s) \<longrightarrow>
        (\<exists>acts' as.
          loggerJavacParserCollectActions os environ prog tool (a0 # argv) acts = Inr (1, acts') \<and>
          vec_tight acts' \<and> vec_list acts' = vec_list acts @ as \<and>
          list_all2 (java_action os tool (java_words os a) (ja_classdir a)) (ja_sources a) as)"
  by (rule javac_collect_lemma [OF assms])

lemma java_example_input:
  assumes "\<forall>a \<in> set argv. fits example_os 0 a \<and> NUL \<notin> set a \<and> take 1 a \<noteq> ''@'' \<and>
      (\<forall>t \<in> set (strtok a '':''). fits example_os 0 t)" "length argv \<le> 100"
  shows "javac_input_ok example_os 0 ''javac'' argv \<and> java_expand example_os argv = argv"
proof -
  have ex: "java_expand example_os argv = argv"
    using assms(1) by (induction argv) (auto simp: java_expand_def expand_argument_def)
  have "fits example_os 0 ''./_noobj''" by code_simp
  moreover have "java_files_ok example_os argv" by (simp add: java_files_ok_def example_os_def)
  moreover have "length argv + 4 \<le> VEC_LIMIT" using assms(2) by (simp add: VEC_LIMIT_def)
  moreover have "\<forall>a \<in> set argv. java_arg_ok example_os 0 a"
    using assms(1) by (auto simp: java_arg_ok_def words_fit_def example_os_def)
  ultimately show ?thesis
    using ex by (simp add: javac_input_ok_def example_bounded_growth PATH_MAX_def)
qed

definition java_example :: "string list" where
  "java_example = [''-d'', ''out'', ''-cp'', ''lib:/w/a.c'', ''/w/B.java'']"

lemma java_example_ok:
  "javac_input_ok example_os 0 ''javac'' java_example \<and> java_expand example_os java_example = java_example"
  by (rule java_example_input) code_simp+

theorem javac_collect_refines_spec_witness:
  "\<exists>acts a.
     loggerJavacParserCollectActions example_os [] ''/usr/bin/javac'' ''javac''
       (''javac'' # java_example) no_actions = Inr (1, acts) \<and> vec_list acts = [a] \<and>
     vec_list (act_arguments a) = [''javac'', ''-d'', ''/w/out'', ''-cp'', ''/w/a.c'', ''-sourcepath'',
       ''/w'', ''/w/B.java''] \<and>
     vec_list (act_sources a) = [''/w/B.java''] \<and> file_path (act_output a) = ''/w/out/B.class''"
proof -
  have ok: "javac_input_ok example_os 0 ''javac'' java_example"
      "java_expand example_os java_example = java_example"
    using java_example_ok by simp_all
  have lim: "length (vec_list no_actions) + length (java_expand example_os java_example) \<le> VEC_LIMIT"
    using ok(2) by (simp add: no_actions_ok java_example_def VEC_LIMIT_def)
  define b where "b = \<lparr>ja_state = Normal, ja_sourcepath = False,
      ja_words = [''javac'', ''-d'', ''/w/out'', ''-cp'', ''/w/a.c''],
      ja_sources = [''/w/B.java''], ja_classdir = ''/w/out''\<rparr>"
  have steps: "java_steps example_os (java_expand example_os java_example) (java_init ''javac'') = Some b"
    unfolding ok(2) b_def by code_simp
  have src: "java_source_ok example_os 0 ''/w/out'' ''/w/B.java''"
    "class_file ''/w/out'' ''/w/B.java'' = Some ''/w/out/B.class''"
    "resolve example_os ''/w/out/B.class'' False = Some ''/w/out/B.class''"
    "resolve example_os ''.'' False = Some ''/w''"
    by code_simp+
  have words: "java_words example_os b = [''javac'', ''-d'', ''/w/out'', ''-cp'', ''/w/a.c'', ''-sourcepath'', ''/w'']"
    using src(4) by (simp add: java_words_def b_def)
  have "\<exists>acts as.
     loggerJavacParserCollectActions example_os [] ''/usr/bin/javac'' ''javac''
       (''javac'' # java_example) no_actions = Inr (1, acts) \<and> vec_list acts = as \<and>
     list_all2 (java_action example_os ''javac'' (java_words example_os b) ''/w/out'') [''/w/B.java''] as"
    using javac_collect_refines_spec [OF ok(1) conjunct1 [OF no_actions_ok] lim, of "[]" "''/usr/bin/javac''" "''javac''"]
      src(1) unfolding steps by (auto simp: b_def no_actions_ok)
  then show ?thesis
    unfolding words using src(2,3)
    by (auto simp: list_all2_Cons1 java_action_def or_else_def)
qed

lemma java_step_no_slash:
  "CHR ''/'' \<notin> set x \<Longrightarrow> java_step os x a = Some b \<Longrightarrow> ja_sources b = ja_sources a"
  by (auto simp: java_step_def add_word_def Let_def java_source_def path_ext_def path_base_no_slash
      split: JavaArgsState.splits if_splits option.splits)

lemma java_steps_no_slash:
  "\<forall>x \<in> set xs. CHR ''/'' \<notin> set x \<Longrightarrow> java_steps os xs a = Some b \<Longrightarrow> ja_sources b = ja_sources a"
proof (induction xs arbitrary: a)
  case (Cons x xs)
  then obtain c where c: "java_step os x a = Some c" "java_steps os xs c = Some b"
    by (auto split: option.splits)
  from java_step_no_slash [OF _ c(1)] Cons.IH [OF _ c(2)] Cons.prems(1) show ?case by simp
qed simp

text \<open>
  A source named without a slash is never recognised: \<open>loggerGetFileExt\<close> wants a path. On a
  command line whose arguments have no slash, \<open>javac\<close> logs no action.
\<close>

theorem javac_needs_slash:
  assumes "javac_input_ok os k tool argv" "vec_tight acts"
    and "length (vec_list acts) + length (java_expand os argv) \<le> VEC_LIMIT"
    and "\<forall>x \<in> set (java_expand os argv). CHR ''/'' \<notin> set x"
  shows "case loggerJavacParserCollectActions os environ prog tool (a0 # argv) acts of
      Inr (rc, acts') \<Rightarrow> rc = 1 \<and> vec_list acts' = vec_list acts
    | Inl e \<Rightarrow> e = Out_Of_Bounds"
proof (cases "java_steps os (java_expand os argv) (java_init tool)")
  case None
  with javac_collect_lemma [OF assms(1-3), of environ prog a0] show ?thesis by simp
next
  case (Some a)
  then have "ja_sources a = []"
    using java_steps_no_slash [OF assms(4) Some] by (simp add: java_init_def)
  with Some javac_collect_lemma [OF assms(1-3), of environ prog a0] show ?thesis by auto
qed

theorem javac_needs_slash_witness:
  "\<exists>acts. loggerJavacParserCollectActions example_os [] ''/usr/bin/javac'' ''javac''
     [''javac'', ''B.java''] no_actions = Inr (1, acts) \<and> vec_list acts = []"
proof -
  have pre: "\<forall>a \<in> set [''B.java'']. fits example_os 0 a \<and> NUL \<notin> set a \<and> take 1 a \<noteq> ''@'' \<and>
      (\<forall>t \<in> set (strtok a '':''). fits example_os 0 t)" by code_simp
  have ok: "javac_input_ok example_os 0 ''javac'' [''B.java'']"
      "java_expand example_os [''B.java''] = [''B.java'']"
    using java_example_input [of "[''B.java'']", OF pre] by simp_all
  have "length (vec_list no_actions) + length (java_expand example_os [''B.java'']) \<le> VEC_LIMIT"
    using ok(2) by (simp add: no_actions_ok VEC_LIMIT_def)
  note T = javac_needs_slash [OF ok(1) conjunct1 [OF no_actions_ok] this, of "[]" "''/usr/bin/javac''" "''javac''"]
  have "case loggerJavacParserCollectActions example_os [] ''/usr/bin/javac'' ''javac''
     [''javac'', ''B.java''] no_actions of Inr _ \<Rightarrow> True | Inl _ \<Rightarrow> False" by code_simp
  then show ?thesis using T ok(2) by (auto simp: no_actions_ok split: sum.splits)
qed

end
