(* ===== verification/LoggerTool.thy ===== *)
theory LoggerTool
  imports LoggerGcc LoggerJavac
begin

text \<open>
  \<open>loggerCollectActionsByProgName\<close> of \<^verbatim>\<open>logger/src/ldlogger-tool.c\<close>: the parser is chosen by
  the program name, and logging of child processes is switched off around the GCC parser.
  \<open>environ\<close> is the process environment, which the function changes.
\<close>

section \<open>Dispatch\<close>

definition tool_name :: "string \<Rightarrow> string" where
  "tool_name prog =
     (case strrchr prog (CHR ''/'') of
        Some slash \<Rightarrow> drop (Suc slash) prog
      | None \<Rightarrow> prog)"

definition loggerCollectActionsByProgName ::
    "os \<Rightarrow> string list \<Rightarrow> string \<Rightarrow> string list \<Rightarrow> action vec \<Rightarrow>
       fault + (int \<times> action vec \<times> string list)" where
  "loggerCollectActionsByProgName os environ prog argv acts =
     (let toolName = tool_name prog in
      if matchToProgramList (os_alloc os) environ ''CC_LOGGER_GCC_LIKE'' toolName then
        let environ = turnLogging False environ in
        bindC (loggerGccParserCollectActions os environ prog toolName argv acts) (\<lambda>(ret, acts).
        Inr (ret, acts, turnLogging True environ))
      else if matchToProgramList (os_alloc os) environ ''CC_LOGGER_JAVAC_LIKE'' toolName then
        bindC (loggerJavacParserCollectActions os environ prog toolName argv acts) (\<lambda>(ret, acts).
        Inr (ret, acts, environ))
      else Inr (0, acts, environ))"

text \<open>A program whose name is in neither list leaves everything as it is.\<close>

lemma collect_unknown:
  "\<not> matchToProgramList (os_alloc os) environ ''CC_LOGGER_GCC_LIKE'' (tool_name prog) \<Longrightarrow>
   \<not> matchToProgramList (os_alloc os) environ ''CC_LOGGER_JAVAC_LIKE'' (tool_name prog) \<Longrightarrow>
   loggerCollectActionsByProgName os environ prog argv acts = Inr (0, acts, environ)"
  by (simp add: loggerCollectActionsByProgName_def)

text \<open>An entry of the colon-separated list in the variable occurs in the name.\<close>

definition in_program_list :: "string list \<Rightarrow> string \<Rightarrow> string \<Rightarrow> bool" where
  "in_program_list environ var name \<longleftrightarrow>
     (\<exists>l. getenv environ var = Some l \<and> (\<exists>t \<in> set (strtok l '':''). sublist t name))"

section \<open>Properties\<close>

text \<open>
  The parser follows from the name after the last slash and the two lists: a GCC-like
  program (even one in both lists) gets the GCC parser, in an environment where logging is off,
  a \<open>javac\<close>-like one the \<open>javac\<close> parser, and any other program is left alone; a name matches
  when an entry of the list occurs anywhere in it, and the empty name matches nothing.
\<close>

theorem collect_dispatch:
  assumes mem: "\<And>n. os_alloc os n"
  shows "loggerCollectActionsByProgName os environ prog argv acts =
    (if in_program_list environ ''CC_LOGGER_GCC_LIKE'' (tool_name prog) then
       bindC (loggerGccParserCollectActions os (turnLogging False environ) prog (tool_name prog) argv acts)
         (\<lambda>(r, acts). Inr (r, acts, turnLogging True (turnLogging False environ)))
     else if in_program_list environ ''CC_LOGGER_JAVAC_LIKE'' (tool_name prog) then
       bindC (loggerJavacParserCollectActions os environ prog (tool_name prog) argv acts)
         (\<lambda>(r, acts). Inr (r, acts, environ))
     else Inr (0, acts, environ)) \<and>
    (tool_name prog = [] \<longrightarrow> \<not> in_program_list environ ''CC_LOGGER_GCC_LIKE'' (tool_name prog) \<and> \<not> in_program_list environ ''CC_LOGGER_JAVAC_LIKE'' (tool_name prog))"
proof
  have m: "matchToProgramList (os_alloc os) environ var (tool_name prog) \<longleftrightarrow> in_program_list environ var (tool_name prog)" for var
    using mem by (auto simp: matchToProgramList_iff in_program_list_def)
  show "loggerCollectActionsByProgName os environ prog argv acts =
    (if in_program_list environ ''CC_LOGGER_GCC_LIKE'' (tool_name prog) then
       bindC (loggerGccParserCollectActions os (turnLogging False environ) prog (tool_name prog) argv acts)
         (\<lambda>(r, acts). Inr (r, acts, turnLogging True (turnLogging False environ)))
     else if in_program_list environ ''CC_LOGGER_JAVAC_LIKE'' (tool_name prog) then
       bindC (loggerJavacParserCollectActions os environ prog (tool_name prog) argv acts)
         (\<lambda>(r, acts). Inr (r, acts, environ))
     else Inr (0, acts, environ))"
    by (simp add: loggerCollectActionsByProgName_def m Let_def)
  show "tool_name prog = [] \<longrightarrow> \<not> in_program_list environ ''CC_LOGGER_GCC_LIKE'' (tool_name prog) \<and> \<not> in_program_list environ ''CC_LOGGER_JAVAC_LIKE'' (tool_name prog)"
    using matchToProgramList_empty m by metis
qed

theorem collect_dispatch_witness:
  "loggerCollectActionsByProgName example_os [''CC_LOGGER_GCC_LIKE=gcc:g++''] ''/bin/ls'' [''ls'']
     no_actions = Inr (0, no_actions, [''CC_LOGGER_GCC_LIKE=gcc:g++''])"
proof -
  have "getenv [''CC_LOGGER_GCC_LIKE=gcc:g++''] ''CC_LOGGER_GCC_LIKE'' = Some ''gcc:g++''"
    "getenv [''CC_LOGGER_GCC_LIKE=gcc:g++''] ''CC_LOGGER_JAVAC_LIKE'' = None"
    "strtok ''gcc:g++'' '':'' = [''gcc'', ''g++'']" "tool_name ''/bin/ls'' = ''ls''"
    by code_simp+
  then show ?thesis
    using collect_dispatch [of example_os "[''CC_LOGGER_GCC_LIKE=gcc:g++'']" "''/bin/ls''" "[''ls'']" no_actions]
    by (auto simp: in_program_list_def sublist_Cons_right)
qed

text \<open>
  Logging stays off after a GCC-like command: the entry renamed to \<open>XD_PRELOAD=\<close> is not
  found again, so \<open>turnLogging(1)\<close> restores nothing and the process continues (and executes the
  compiler) without \<open>LD_PRELOAD\<close>; every other entry that does not mention it is kept.
\<close>

theorem gcc_logging_stays_off:
  assumes plain: "\<forall>e \<in> set environ. plain_entry e"
    and gcc: "matchToProgramList (os_alloc os) environ ''CC_LOGGER_GCC_LIKE'' (tool_name prog)"
    and run: "loggerCollectActionsByProgName os environ prog argv acts = Inr (r, acts', environ')"
  shows "getenv environ' ''LD_PRELOAD'' = None \<and>
    (\<forall>i < length environ. strstr (environ ! i) ''LD_PRELOAD='' = None \<longrightarrow> environ' ! i = environ ! i)"
proof -
  have "environ' = turnLogging True (turnLogging False environ)"
    using run gcc by (auto simp: loggerCollectActionsByProgName_def Let_def bindC_eq_Inr)
  then have env: "environ' = turnLogging False environ"
    using turnLogging_on_after_off [OF plain] by simp
  with turnLogging_off_getenv [OF plain] show ?thesis
    by (simp add: turnLogging_def LD_PRELOAD_EQ_def)
qed

theorem gcc_logging_stays_off_witness:
  "case loggerCollectActionsByProgName example_os
       [''CC_LOGGER_GCC_LIKE=gcc'', ''LD_PRELOAD=ldlogger.so''] ''/usr/bin/gcc'' [''gcc'', ''a.c''] no_actions of
     Inr (_, _, environ') \<Rightarrow> getenv environ' ''LD_PRELOAD'' = None
   | Inl _ \<Rightarrow> False"
proof -
  let ?env = "[''CC_LOGGER_GCC_LIKE=gcc'', ''LD_PRELOAD=ldlogger.so'']"
  have p: "\<forall>e \<in> set ?env. plain_entry e" by code_simp
  have m: "matchToProgramList (os_alloc example_os) ?env ''CC_LOGGER_GCC_LIKE'' (tool_name ''/usr/bin/gcc'')"
    by code_simp
  have "case loggerCollectActionsByProgName example_os ?env ''/usr/bin/gcc'' [''gcc'', ''a.c''] no_actions of
      Inr _ \<Rightarrow> True | Inl _ \<Rightarrow> False" by code_simp
  then show ?thesis
    using gcc_logging_stays_off [OF p m, of "[''gcc'', ''a.c'']" no_actions]
    by (auto split: sum.splits)
qed

end
