(* ===== verification/LoggerJson.thy ===== *)
theory LoggerJson
  imports LoggerTool
begin

text \<open>
  The JSON output of \<^verbatim>\<open>logger/src/ldlogger-logger.c\<close>: \<open>createJsonCommandString\<close> builds the
  command field in a buffer computed from the lengths of the arguments, \<open>writeAction\<close> writes
  one object for each source of an action, and \<open>writeActions\<close> appends to the log in place of
  its closing bracket.

  \<open>render\<close> is the file that holds a given list of entries; \<open>json_value\<close> is a reference reader
  for the JSON texts made of strings, arrays and objects.
\<close>

section \<open>The command string\<close>

fun sum_lengths :: "string option list \<Rightarrow> fault + nat" where
  "sum_lengths [] = Inr 0"
| "sum_lengths (w # ws) =
     bindC (deref w) (\<lambda>w. bindC (sum_lengths ws) (\<lambda>n. Inr (length w + n)))"

text \<open>The loop from the second argument: \<open>cmd\<close> is what the buffer of \<open>cap\<close> bytes holds so far.\<close>

fun escape_rest :: "nat \<Rightarrow> string \<Rightarrow> string option list \<Rightarrow> fault + string" where
  "escape_rest cap cmd [] = Inr cmd"
| "escape_rest cap cmd (w # ws) =
     bindC (if length cmd < cap then Inr (cmd @ '' '') else Inl Buffer_Overflow) (\<lambda>cmd.
     bindC (deref w) (\<lambda>w.
     bindC (strcat_buf cap cmd (shellEscapeStr w)) (\<lambda>cmd.
     escape_rest cap cmd ws)))"

definition createJsonCommandString :: "(nat \<Rightarrow> bool) \<Rightarrow> string vec \<Rightarrow> fault + string option" where
  "createJsonCommandString alloc args =
     (let data = take (vec_size args) (slots args) in
      bindC (sum_lengths data) (\<lambda>cmdSize.
      let cmdSize = (cmdSize * 2) + (vec_size args * 3) + 1 in
      if \<not> alloc cmdSize then Inr None
      else
        (case slots args of
           [] \<Rightarrow> Inl Out_Of_Bounds
         | first # _ \<Rightarrow>
             bindC (deref first) (\<lambda>first.
             bindC (strcpy_buf cmdSize (shellEscapeStr first)) (\<lambda>cmd.
             bindC (escape_rest cmdSize cmd (tl data)) (\<lambda>cmd.
             Inr (Some cmd)))))))"

section \<open>Entries\<close>

definition separator :: string where "separator = [TAB] @ '','' @ [LF]"

text \<open>The text of one entry: directory, command and file.\<close>

definition entry_text :: "string \<Rightarrow> string \<Rightarrow> string \<Rightarrow> string" where
  "entry_text wd command file =
     [TAB] @ ''{'' @ [LF] @
     [TAB, TAB, DQUOTE] @ ''directory'' @ [DQUOTE] @ '': '' @ [DQUOTE] @ wd @ [DQUOTE] @ '','' @ [LF] @
     [TAB, TAB, DQUOTE] @ ''command'' @ [DQUOTE] @ '': '' @ [DQUOTE] @ command @ [DQUOTE] @ '','' @ [LF] @
     [TAB, TAB, DQUOTE] @ ''file'' @ [DQUOTE] @ '': '' @ [DQUOTE] @ file @ [DQUOTE, LF] @
     [TAB] @ ''}'' @ [LF]"

text \<open>The loop over the sources: the text printed and the new \<open>*entryCount_\<close>.\<close>

fun write_sources :: "string \<Rightarrow> string \<Rightarrow> string option list \<Rightarrow> nat \<Rightarrow> fault + (string \<times> nat)" where
  "write_sources wd command [] entryCount = Inr ([], entryCount)"
| "write_sources wd command (s # ss) entryCount =
     (let entryCount = entryCount + 1 in
      bindC (deref s) (\<lambda>src.
      bindC (write_sources wd command ss entryCount) (\<lambda>(out, n).
      Inr ((if entryCount > 1 then separator else []) @ entry_text wd command src @ out, n))))"

definition writeAction ::
    "(nat \<Rightarrow> bool) \<Rightarrow> string \<Rightarrow> action \<Rightarrow> nat \<Rightarrow> fault + (string \<times> nat)" where
  "writeAction alloc wd act entryCount =
     bindC (createJsonCommandString alloc (act_arguments act)) (\<lambda>c.
     case c of
       None \<Rightarrow> Inr ([], entryCount)
     | Some command \<Rightarrow>
         write_sources wd command (take (vec_size (act_sources act)) (slots (act_sources act))) entryCount)"

fun write_all ::
    "(nat \<Rightarrow> bool) \<Rightarrow> string \<Rightarrow> action option list \<Rightarrow> nat \<Rightarrow> fault + string" where
  "write_all alloc wd [] entryCount = Inr []"
| "write_all alloc wd (a # as) entryCount =
     bindC (deref a) (\<lambda>act.
     bindC (writeAction alloc wd act entryCount) (\<lambda>(out, entryCount).
     bindC (write_all alloc wd as entryCount) (\<lambda>rest.
     Inr (out @ rest))))"

text \<open>Writing at a position of a file.\<close>

definition overwrite :: "nat \<Rightarrow> string \<Rightarrow> string \<Rightarrow> string" where
  "overwrite pos out f = take pos f @ out @ drop (pos + length out) f"

text \<open>
  \<open>writeActions\<close> after \<open>ftell\<close>: \<open>fsize\<close> is the size the function has read, \<open>f\<close> the content of
  the file when the stream is flushed.
\<close>

definition write_at_size ::
    "(nat \<Rightarrow> bool) \<Rightarrow> nat \<Rightarrow> string \<Rightarrow> string \<Rightarrow> action vec \<Rightarrow> fault + string" where
  "write_at_size alloc fsize f wd acts =
     (let (pos, out, entryCount) =
        (if fsize = 0 then (0, ''['' @ [LF], 0)
         else (fsize - 1, [], if fsize > 5 then 1 else 0))
      in
      bindC (write_all alloc wd (take (vec_size acts) (slots acts)) entryCount) (\<lambda>objs.
      Inr (overwrite pos (out @ objs @ '']'') f)))"

definition writeActions ::
    "(nat \<Rightarrow> bool) \<Rightarrow> string \<Rightarrow> string \<Rightarrow> action vec \<Rightarrow> fault + string" where
  "writeActions alloc f wd acts =
     (if vec_size acts \<le> 0 then Inr f else write_at_size alloc (length f) f wd acts)"

section \<open>The size of the command buffer\<close>

fun words_text :: "string list \<Rightarrow> string" where
  "words_text [] = []"
| "words_text [w] = shellEscapeStr w"
| "words_text (w # v # ws) = shellEscapeStr w @ '' '' @ words_text (v # ws)"

definition total :: "('a list \<Rightarrow> nat) \<Rightarrow> 'a list list \<Rightarrow> nat" where
  "total f ws = sum_list (map f ws)"

lemma total_simps [simp]: "total f [] = 0" "total f (w # ws) = f w + total f ws"
  by (simp_all add: total_def)

lemma sum_lengths_Some [simp]: "sum_lengths (map Some ws) = Inr (total length ws)"
  by (induction ws) auto

lemma length_words_text:
  "ws \<noteq> [] \<Longrightarrow> length (words_text ws) + 1 = total (\<lambda>w. length (shellEscapeStr w)) ws + length ws"
  by (induction ws rule: words_text.induct) auto

lemma words_text_Cons:
  "words_text (w # ws) = shellEscapeStr w @ concat (map (\<lambda>v. '' '' @ shellEscapeStr v) ws)"
  by (induction ws arbitrary: w) auto

lemma escape_rest_spec:
  "length cmd < cap \<Longrightarrow> escape_rest cap cmd (map Some ws) =
     (let out = cmd @ concat (map (\<lambda>v. '' '' @ shellEscapeStr v) ws)
      in if length out < cap then Inr out else Inl Buffer_Overflow)"
proof (induction ws arbitrary: cmd)
  case (Cons w ws)
  let ?c = "cmd @ '' '' @ shellEscapeStr w"
  show ?case
  proof (cases "length ?c < cap")
    case True
    with Cons.IH [of ?c] Cons.prems show ?thesis by (simp add: Let_def strcat_buf_def strcpy_buf_def)
  next
    case False
    with Cons.prems show ?thesis by (simp add: Let_def strcat_buf_def strcpy_buf_def)
  qed
qed (simp add: Let_def)

lemma createJsonCommandString_eq:
  assumes ok: "vec_ok args" and ws: "vec_list args = w # ws"
  shows "createJsonCommandString alloc args =
    (let cap = total length (w # ws) * 2 + length (w # ws) * 3 + 1 in
     if \<not> alloc cap then Inr None
     else if length (words_text (w # ws)) < cap then Inr (Some (words_text (w # ws)))
     else Inl Buffer_Overflow)"
proof -
  let ?cap = "total length (w # ws) * 2 + length (w # ws) * 3 + 1"
  have data: "take (vec_size args) (slots args) = map Some (w # ws)" "vec_size args = length (w # ws)"
    using vec_ok_slots [OF ok] vec_ok_size [OF ok] ws by simp_all
  then obtain r where sl: "slots args = Some w # r" by (cases "slots args") auto
  have "createJsonCommandString alloc args =
      (if \<not> alloc ?cap then Inr None
       else bindC (strcpy_buf ?cap (shellEscapeStr w)) (\<lambda>cmd.
            bindC (escape_rest ?cap cmd (map Some ws)) (\<lambda>cmd. Inr (Some cmd))))"
    unfolding createJsonCommandString_def Let_def data(1)
    using sl data(2) by (simp add: ac_simps)
  moreover have "length (shellEscapeStr w) < ?cap" using shellEscapeStr_bound [of w] by simp
  ultimately show ?thesis
    by (simp add: Let_def escape_rest_spec words_text_Cons strcpy_buf_def)
qed

section \<open>The log as a list of entries\<close>

record log_entry =
  le_directory :: string
  le_command :: string
  le_file :: string

definition text_of :: "log_entry \<Rightarrow> string" where
  "text_of e = entry_text (le_directory e) (le_command e) (le_file e)"

text \<open>Entries after others (\<open>b\<close>), each with its separator, and a whole file.\<close>

fun more_text :: "bool \<Rightarrow> log_entry list \<Rightarrow> string" where
  "more_text b [] = []"
| "more_text b (e # es) = (if b then separator else []) @ text_of e @ more_text True es"

definition render :: "log_entry list \<Rightarrow> string" where
  "render es = ''['' @ [LF] @ more_text False es @ '']''"

lemma more_text_append: "more_text b (xs @ ys) = more_text b xs @ more_text (b \<or> xs \<noteq> []) ys"
  by (induction xs arbitrary: b) auto

lemma render_append: "render (xs @ ys) = butlast (render xs) @ more_text (xs \<noteq> []) ys @ '']''"
  by (simp add: render_def more_text_append butlast_append)

lemma length_render: "length (render es) > 5 \<longleftrightarrow> es \<noteq> []" and render_nonempty: "render es \<noteq> []"
  by (cases es; simp add: render_def text_of_def entry_text_def)+

text \<open>The entries an action gives, when its command fits the buffer.\<close>

definition command_size :: "string list \<Rightarrow> nat" where
  "command_size ws = total length ws * 2 + length ws * 3 + 1"

definition action_entries :: "(nat \<Rightarrow> bool) \<Rightarrow> string \<Rightarrow> action \<Rightarrow> log_entry list" where
  "action_entries alloc wd a =
     (let ws = vec_list (act_arguments a) in
      if alloc (command_size ws)
      then map (\<lambda>s. \<lparr>le_directory = wd, le_command = words_text ws, le_file = s\<rparr>) (vec_list (act_sources a))
      else [])"

definition loggable :: "action \<Rightarrow> bool" where
  "loggable a \<longleftrightarrow> vec_ok (act_arguments a) \<and> vec_ok (act_sources a) \<and>
     vec_list (act_arguments a) \<noteq> [] \<and>
     length (words_text (vec_list (act_arguments a))) < command_size (vec_list (act_arguments a))"

lemma write_sources_spec:
  "write_sources wd c (map Some ss) n =
     Inr (more_text (n \<noteq> 0) (map (\<lambda>s. \<lparr>le_directory = wd, le_command = c, le_file = s\<rparr>) ss), n + length ss)"
  by (induction ss arbitrary: n) (auto simp: text_of_def Let_def)

lemma writeAction_spec:
  assumes "loggable a"
  shows "writeAction alloc wd a n =
    Inr (more_text (n \<noteq> 0) (action_entries alloc wd a), n + length (action_entries alloc wd a))"
proof -
  from assms obtain w ws where ws: "vec_list (act_arguments a) = w # ws"
    by (cases "vec_list (act_arguments a)") (auto simp: loggable_def)
  have "createJsonCommandString alloc (act_arguments a) =
      (if alloc (command_size (w # ws)) then Inr (Some (words_text (w # ws))) else Inr None)"
    using createJsonCommandString_eq [of "act_arguments a" w ws alloc] assms ws
    by (auto simp: loggable_def command_size_def Let_def)
  moreover have "take (vec_size (act_sources a)) (slots (act_sources a)) = map Some (vec_list (act_sources a))"
    by (rule vec_ok_slots) (use assms in \<open>simp add: loggable_def\<close>)
  ultimately show ?thesis
    by (simp add: writeAction_def action_entries_def ws write_sources_spec Let_def)
qed

lemma write_all_spec:
  "\<forall>a \<in> set as. loggable a \<Longrightarrow>
     write_all alloc wd (map Some as) n = Inr (more_text (n \<noteq> 0) (concat (map (action_entries alloc wd) as)))"
proof (induction as arbitrary: n)
  case (Cons a as)
  then show ?case by (simp add: writeAction_spec more_text_append)
qed simp

definition new_entries :: "(nat \<Rightarrow> bool) \<Rightarrow> string \<Rightarrow> action vec \<Rightarrow> log_entry list" where
  "new_entries alloc wd acts = concat (map (action_entries alloc wd) (vec_list acts))"

lemma overwrite_end: "f \<noteq> [] \<Longrightarrow> out \<noteq> [] \<Longrightarrow> overwrite (length f - Suc 0) out f = butlast f @ out"
  by (cases out) (simp_all add: overwrite_def butlast_conv_take)

lemma write_at_size_spec:
  assumes acts: "vec_ok acts" "\<forall>a \<in> set (vec_list acts). loggable a"
  shows "write_at_size alloc 0 [] wd acts = Inr (render (new_entries alloc wd acts))"
    and "write_at_size alloc (length (render es)) (render es) wd acts =
      Inr (render (es @ new_entries alloc wd acts))"
  using acts length_render [of es] render_nonempty [of es]
  by (simp_all add: write_at_size_def vec_ok_slots write_all_spec Let_def new_entries_def [symmetric]
      overwrite_end render_append) (simp add: overwrite_def render_def)

section \<open>A reference reader\<close>

text \<open>
  JSON texts made of strings, arrays and objects. The reader takes fuel for the nesting; a
  text has no more values than characters.
\<close>

datatype json = JString string | JArray "json list" | JObject "(string \<times> json) list"

definition json_ws :: "string \<Rightarrow> string" where
  "json_ws s = dropWhile (\<lambda>c. c \<in> {CHR '' '', TAB, LF, CHR 0x0D}) s"

definition json_escapes :: "char \<Rightarrow> char option" where
  "json_escapes c = map_of
     [(DQUOTE, DQUOTE), (BSLASH, BSLASH), (CHR ''/'', CHR ''/''), (CHR ''b'', CHR 0x08),
      (CHR ''f'', CHR 0x0C), (CHR ''n'', LF), (CHR ''r'', CHR 0x0D), (CHR ''t'', TAB)] c"

definition control :: "char \<Rightarrow> bool" where
  "control c \<longleftrightarrow> (of_char c :: nat) < 32"

fun json_string :: "string \<Rightarrow> (string \<times> string) option" where
  "json_string [] = None"
| "json_string (c # cs) =
     (if c = DQUOTE then Some ([], cs)
      else if c = BSLASH then
        (case cs of
           [] \<Rightarrow> None
         | e # cs' \<Rightarrow>
             (case json_escapes e of
                None \<Rightarrow> None
              | Some d \<Rightarrow> map_option (\<lambda>(s, r). (d # s, r)) (json_string cs')))
      else if control c then None
      else map_option (\<lambda>(s, r). (c # s, r)) (json_string cs))"

definition expect :: "char \<Rightarrow> string \<Rightarrow> string option" where
  "expect c s = (case json_ws s of [] \<Rightarrow> None | d # r \<Rightarrow> if d = c then Some r else None)"

fun json_value :: "nat \<Rightarrow> string \<Rightarrow> (json \<times> string) option"
  and json_elements :: "nat \<Rightarrow> string \<Rightarrow> (json list \<times> string) option"
  and json_members :: "nat \<Rightarrow> string \<Rightarrow> ((string \<times> json) list \<times> string) option" where
  "json_value 0 s = None"
| "json_value (Suc n) s =
     (case json_ws s of
        [] \<Rightarrow> None
      | c # r \<Rightarrow>
          if c = DQUOTE then map_option (\<lambda>(x, r). (JString x, r)) (json_string r)
          else if c = CHR ''['' then
            (case expect (CHR '']'') r of
               Some r' \<Rightarrow> Some (JArray [], r')
             | None \<Rightarrow> map_option (\<lambda>(xs, r). (JArray xs, r)) (json_elements n r))
          else if c = CHR ''{'' then
            (case expect (CHR ''}'') r of
               Some r' \<Rightarrow> Some (JObject [], r')
             | None \<Rightarrow> map_option (\<lambda>(xs, r). (JObject xs, r)) (json_members n r))
          else None)"
| "json_elements 0 s = None"
| "json_elements (Suc n) s =
     (case json_value n s of
        None \<Rightarrow> None
      | Some (v, r) \<Rightarrow>
          (case expect (CHR '']'') r of
             Some r' \<Rightarrow> Some ([v], r')
           | None \<Rightarrow>
               (case expect (CHR '','') r of
                  None \<Rightarrow> None
                | Some r' \<Rightarrow> map_option (\<lambda>(vs, r). (v # vs, r)) (json_elements n r'))))"
| "json_members 0 s = None"
| "json_members (Suc n) s =
     (case expect DQUOTE s of
        None \<Rightarrow> None
      | Some r \<Rightarrow>
          (case json_string r of
             None \<Rightarrow> None
           | Some (k, r) \<Rightarrow>
               (case expect (CHR '':'') r of
                  None \<Rightarrow> None
                | Some r \<Rightarrow>
                    (case json_value n r of
                       None \<Rightarrow> None
                     | Some (v, r) \<Rightarrow>
                         (case expect (CHR ''}'') r of
                            Some r' \<Rightarrow> Some ([(k, v)], r')
                          | None \<Rightarrow>
                              (case expect (CHR '','') r of
                                 None \<Rightarrow> None
                               | Some r' \<Rightarrow> map_option (\<lambda>(ms, r). ((k, v) # ms, r)) (json_members n r')))))))"

text \<open>A text is one value and white space.\<close>

definition json_read :: "string \<Rightarrow> json option" where
  "json_read s =
     (case json_value (length s + 1) s of
        Some (v, r) \<Rightarrow> if json_ws r = [] then Some v else None
      | None \<Rightarrow> None)"

section \<open>Reading the log back\<close>

text \<open>\<open>unescapes raw s\<close>: inside a string, the text \<open>raw\<close> stands for the characters \<open>s\<close>.\<close>

definition unescapes :: "string \<Rightarrow> string \<Rightarrow> bool" where
  "unescapes raw s \<longleftrightarrow> (\<forall>r. json_string (raw @ r) = map_option (\<lambda>(t, q). (s @ t, q)) (json_string r))"

lemma unescapes_Nil: "unescapes [] []"
  by (simp add: unescapes_def option.map_ident case_prod_unfold)

lemma unescapes_append: "unescapes a s \<Longrightarrow> unescapes b t \<Longrightarrow> unescapes (a @ b) (s @ t)"
  by (auto simp: unescapes_def option.map_comp comp_def case_prod_unfold)

lemma unescapes_plain: "c \<noteq> DQUOTE \<Longrightarrow> c \<noteq> BSLASH \<Longrightarrow> \<not> control c \<Longrightarrow> unescapes [c] [c]"
  by (simp add: unescapes_def)

lemma unescapes_pair: "json_escapes e = Some d \<Longrightarrow> unescapes [BSLASH, e] [d]"
  by (simp add: unescapes_def BSLASH_def DQUOTE_def)

lemma unescapes_read: "unescapes raw s \<Longrightarrow> json_string (raw @ DQUOTE # r) = Some (s, r)"
  by (simp add: unescapes_def)

definition plain_text :: "string \<Rightarrow> bool" where
  "plain_text s \<longleftrightarrow> (\<forall>c \<in> set s. c \<noteq> DQUOTE \<and> c \<noteq> BSLASH \<and> \<not> control c)"

lemma unescapes_plain_text: "plain_text s \<Longrightarrow> unescapes s s"
proof (induction s)
  case (Cons c s)
  then show ?case using unescapes_append [OF unescapes_plain [of c], of s s] by (simp add: plain_text_def)
qed (simp add: unescapes_Nil)

lemma json_escapes_quote [simp]: "json_escapes DQUOTE = Some DQUOTE" "json_escapes BSLASH = Some BSLASH"
  by (simp_all add: json_escapes_def DQUOTE_def BSLASH_def)

lemma control_TAB: "control TAB"
  by (simp add: control_def TAB_def)

lemma unescapes_loop: "\<forall>c \<in> set w. \<not> control c \<Longrightarrow> unescapes (shell_escape_loop w) w"
proof (induction w)
  case (Cons c w)
  then have IH: "unescapes (shell_escape_loop w) w" by simp
  from Cons.prems have c: "\<not> control c" by simp
  then have "c \<noteq> TAB" using control_TAB by auto
  show ?case
  proof (cases "c = BSLASH \<or> c = DQUOTE")
    case True
    then have "unescapes [BSLASH, c] [c]" by (intro unescapes_pair) auto
    from unescapes_append [OF this IH] True show ?thesis by auto
  next
    case False
    with c have "unescapes [c] [c]" by (intro unescapes_plain) auto
    from unescapes_append [OF this IH] False \<open>c \<noteq> TAB\<close> show ?thesis by simp
  qed
qed (simp add: unescapes_Nil)

text \<open>A word of the command as a reader of the log sees it: quoted when it has a space.\<close>

definition quoted :: "string \<Rightarrow> string" where
  "quoted w = (if CHR '' '' \<in> set w then DQUOTE # w @ [DQUOTE] else w)"

fun command_words :: "string list \<Rightarrow> string" where
  "command_words [] = []"
| "command_words [w] = quoted w"
| "command_words (w # v # ws) = quoted w @ '' '' @ command_words (v # ws)"

lemma unescapes_word:
  assumes "\<forall>c \<in> set w. \<not> control c"
  shows "unescapes (shellEscapeStr w) (quoted w)"
proof (cases "CHR '' '' \<in> set w")
  case True
  have "unescapes [BSLASH, DQUOTE] [DQUOTE]" by (rule unescapes_pair) simp
  from unescapes_append [OF this unescapes_append [OF unescapes_loop [OF assms] this]] True
  show ?thesis by (simp add: shellEscapeStr_space quoted_def)
next
  case False
  with unescapes_loop [OF assms] show ?thesis by (simp add: shellEscapeStr_no_space quoted_def)
qed

lemma unescapes_command:
  "\<forall>w \<in> set ws. \<forall>c \<in> set w. \<not> control c \<Longrightarrow> unescapes (words_text ws) (command_words ws)"
proof (induction ws rule: words_text.induct)
  case (3 w v ws)
  have "unescapes '' '' '' ''" by (rule unescapes_plain) (simp_all add: DQUOTE_def BSLASH_def control_def)
  moreover have "unescapes (shellEscapeStr w) (quoted w)" by (rule unescapes_word) (use 3 in simp)
  ultimately show ?case using 3 unescapes_append by (metis command_words.simps(3) list.set_intros(2) words_text.simps(3))
qed (simp_all add: unescapes_Nil unescapes_word)

declare json_string.simps(2) [simp del]

text \<open>The object an entry is read as.\<close>

definition entry_json :: "string \<Rightarrow> string \<Rightarrow> string \<Rightarrow> json" where
  "entry_json d c f = JObject [(''directory'', JString d), (''command'', JString c), (''file'', JString f)]"

lemma json_ws_simps [simp]:
  "json_ws [] = []" "json_ws (LF # s) = json_ws s" "json_ws (TAB # s) = json_ws s"
  "json_ws (CHR '' '' # s) = json_ws s"
  by (simp_all add: json_ws_def)

lemma key_strings [simp]:
  "json_string (CHR ''d'' # CHR ''i'' # CHR ''r'' # CHR ''e'' # CHR ''c'' # CHR ''t'' # CHR ''o'' #
     CHR ''r'' # CHR ''y'' # DQUOTE # r) = Some (''directory'', r)"
  "json_string (CHR ''c'' # CHR ''o'' # CHR ''m'' # CHR ''m'' # CHR ''a'' # CHR ''n'' # CHR ''d'' #
     DQUOTE # r) = Some (''command'', r)"
  "json_string (CHR ''f'' # CHR ''i'' # CHR ''l'' # CHR ''e'' # DQUOTE # r) = Some (''file'', r)"
  by (simp_all add: json_string.simps(2) DQUOTE_def BSLASH_def control_def)

lemma marks [simp]:
  "json_ws (DQUOTE # s) = DQUOTE # s" "json_ws (CHR '','' # s) = CHR '','' # s"
  "json_ws (CHR '':'' # s) = CHR '':'' # s" "json_ws (CHR ''{'' # s) = CHR ''{'' # s"
  "json_ws (CHR ''}'' # s) = CHR ''}'' # s" "json_ws (CHR ''['' # s) = CHR ''['' # s"
  "json_ws (CHR '']'' # s) = CHR '']'' # s"
  "DQUOTE \<noteq> CHR ''}''" "DQUOTE \<noteq> CHR ''{''" "CHR ''{'' \<noteq> DQUOTE" "CHR ''['' \<noteq> DQUOTE"
  "CHR '','' \<noteq> DQUOTE"
  by (simp_all add: json_ws_def DQUOTE_def TAB_def LF_def)

lemma entry_value:
  assumes "unescapes d d'" "unescapes c c'" "unescapes f f'"
  shows "json_value (Suc (Suc (Suc (Suc (Suc n))))) (entry_text d c f @ r) =
    Some (entry_json d' c' f', LF # r)"
  using assms
  by (simp add: entry_text_def entry_json_def expect_def unescapes_read)

definition reads_as :: "log_entry \<Rightarrow> json \<Rightarrow> bool" where
  "reads_as e v \<longleftrightarrow> (\<exists>d c f. unescapes (le_directory e) d \<and> unescapes (le_command e) c \<and>
     unescapes (le_file e) f \<and> v = entry_json d c f)"

lemma reads_as_value:
  assumes "reads_as e v" "5 \<le> n"
  shows "json_value n (text_of e @ r) = Some (v, LF # r)"
proof -
  have "n = Suc (Suc (Suc (Suc (Suc (n - 5)))))" using assms(2) by simp
  then obtain m where n: "n = Suc (Suc (Suc (Suc (Suc m))))" ..
  from assms(1) obtain d c f where e: "unescapes (le_directory e) d" "unescapes (le_command e) c"
      "unescapes (le_file e) f" "v = entry_json d c f" by (auto simp: reads_as_def)
  show ?thesis unfolding text_of_def n e(4) by (rule entry_value [OF e(1-3)])
qed

lemma expect_LF [simp]: "expect c (LF # s) = expect c s"
  by (simp add: expect_def)

lemma expect_TAB [simp]: "expect c (TAB # s) = expect c s"
  by (simp add: expect_def)

lemma json_elements_LF: "json_elements n (LF # s) = json_elements n s"
proof (cases n)
  case (Suc m)
  then show ?thesis by (cases m) simp_all
qed simp

lemma json_elements_log:
  "list_all2 reads_as (e # es) vs \<Longrightarrow> length es + 6 \<le> n \<Longrightarrow>
     json_elements n (more_text False (e # es) @ CHR '']'' # r) = Some (vs, r)"
proof (induction es arbitrary: e vs n)
  case Nil
  then obtain v where v: "vs = [v]" "reads_as e v" by (auto simp: list_all2_Cons1)
  from Nil obtain m where n: "n = Suc m" "5 \<le> m" by (cases n) auto
  have "json_value m (text_of e @ CHR '']'' # r) = Some (v, LF # CHR '']'' # r)"
    by (rule reads_as_value [OF v(2) n(2)])
  with v n show ?case by (simp add: expect_def)
next
  case (Cons e2 es)
  then obtain v ws where v: "vs = v # ws" "reads_as e v" "list_all2 reads_as (e2 # es) ws"
    by (auto simp: list_all2_Cons1)
  from Cons.prems obtain m where n: "n = Suc m" "5 \<le> m" "length es + 6 \<le> m" by (cases n) auto
  let ?rest = "more_text False (e2 # es) @ CHR '']'' # r"
  have "json_value m (text_of e @ separator @ ?rest) = Some (v, LF # separator @ ?rest)"
    by (rule reads_as_value [OF v(2) n(2)])
  moreover have "json_elements m (LF # ?rest) = Some (ws, r)"
    unfolding json_elements_LF by (rule Cons.IH [OF v(3) n(3)])
  ultimately show ?case
    using v(1) n(1) by (simp add: separator_def expect_def)
qed

lemma length_text_of: "6 \<le> length (text_of e)"
  by (simp add: text_of_def entry_text_def)

lemma length_more_text: "length es \<le> length (more_text b es)"
proof (induction es arbitrary: b)
  case (Cons e es)
  from Cons [of True] length_text_of [of e] show ?case by simp
qed simp

lemma json_read_render:
  assumes "list_all2 reads_as es vs"
  shows "json_read (render es) = Some (JArray vs)"
proof (cases es)
  case Nil
  with assms show ?thesis
    by (simp add: json_read_def render_def expect_def)
next
  case (Cons e es')
  have "length (more_text False es) = length (text_of e) + length (more_text True es')"
    using Cons by simp
  moreover have "6 \<le> length (text_of e)" by (rule length_text_of)
  ultimately have "length es' + 6 \<le> length (more_text False es)"
    using length_more_text [of es' True] by simp
  then have fuel: "length es' + 6 \<le> length (render es)" by (simp add: render_def)
  have "json_elements (length (render es)) (more_text False es @ CHR '']'' # []) = Some (vs, [])"
    unfolding Cons by (rule json_elements_log) (use assms Cons fuel in simp_all)
  then have "json_elements (length (render es)) (LF # more_text False es @ '']'') = Some (vs, [])"
    by (simp add: json_elements_LF)
  moreover have "expect (CHR '']'') (LF # more_text False es @ '']'') = None"
    by (simp add: Cons text_of_def entry_text_def expect_def)
  ultimately show ?thesis
    by (simp add: json_read_def) (simp add: render_def)
qed

section \<open>Runs\<close>

text \<open>
  The calls of \<open>writeActions\<close> on one log, in order, each with its working directory and actions.
\<close>

fun log_run :: "(nat \<Rightarrow> bool) \<Rightarrow> string \<Rightarrow> (string \<times> action vec) list \<Rightarrow> fault + string" where
  "log_run alloc f [] = Inr f"
| "log_run alloc f ((wd, acts) # calls) = bindC (writeActions alloc f wd acts) (\<lambda>f. log_run alloc f calls)"

text \<open>The objects a call adds for a reader.\<close>

definition action_json :: "(nat \<Rightarrow> bool) \<Rightarrow> string \<Rightarrow> action \<Rightarrow> json list" where
  "action_json alloc wd a =
     (if alloc (command_size (vec_list (act_arguments a)))
      then map (entry_json wd (command_words (vec_list (act_arguments a)))) (vec_list (act_sources a))
      else [])"

definition call_json :: "(nat \<Rightarrow> bool) \<Rightarrow> string \<times> action vec \<Rightarrow> json list" where
  "call_json alloc = (\<lambda>(wd, acts). concat (map (action_json alloc wd) (vec_list acts)))"

text \<open>No character that JSON wants escaped and the logger does not escape.\<close>

definition clean_call :: "string \<times> action vec \<Rightarrow> bool" where
  "clean_call = (\<lambda>(wd, acts). vec_ok acts \<and> plain_text wd \<and>
     (\<forall>a \<in> set (vec_list acts). loggable a \<and>
        (\<forall>w \<in> set (vec_list (act_arguments a)). \<forall>c \<in> set w. \<not> control c) \<and>
        (\<forall>s \<in> set (vec_list (act_sources a)). plain_text s)))"

lemma action_reads_as:
  assumes "plain_text wd" "\<forall>w \<in> set (vec_list (act_arguments a)). \<forall>c \<in> set w. \<not> control c"
    "\<forall>s \<in> set (vec_list (act_sources a)). plain_text s"
  shows "list_all2 reads_as (action_entries alloc wd a) (action_json alloc wd a)"
proof -
  have "reads_as \<lparr>le_directory = wd, le_command = words_text (vec_list (act_arguments a)), le_file = s\<rparr>
      (entry_json wd (command_words (vec_list (act_arguments a))) s)"
    if "s \<in> set (vec_list (act_sources a))" for s
    using unescapes_plain_text [OF assms(1)] unescapes_command [OF assms(2)]
      unescapes_plain_text [of s] assms(3) that
    by (auto simp: reads_as_def)
  then show ?thesis
    by (auto simp: action_entries_def action_json_def Let_def list_all2_conv_all_nth)
qed

lemma call_reads_as:
  assumes "clean_call (wd, acts)"
  shows "list_all2 reads_as (new_entries alloc wd acts) (call_json alloc (wd, acts))"
proof -
  have "\<forall>a \<in> set as. list_all2 reads_as (action_entries alloc wd a) (action_json alloc wd a) \<Longrightarrow>
      list_all2 reads_as (concat (map (action_entries alloc wd) as)) (concat (map (action_json alloc wd) as))" for as
    by (induction as) (auto intro: list_all2_appendI)
  with assms action_reads_as show ?thesis
    by (auto simp: clean_call_def new_entries_def call_json_def)
qed

text \<open>A log in use: empty, or the rendering of its entries.\<close>

definition is_log :: "string \<Rightarrow> log_entry list \<Rightarrow> bool" where
  "is_log f es \<longleftrightarrow> f = [] \<and> es = [] \<or> f = render es"

lemma writeActions_log:
  assumes "is_log f es" "vec_ok acts" "\<forall>a \<in> set (vec_list acts). loggable a"
  shows "\<exists>f'. writeActions alloc f wd acts = Inr f' \<and> is_log f' (es @ new_entries alloc wd acts) \<and>
    (f' = [] \<longleftrightarrow> f = [] \<and> vec_list acts = [])"
proof (cases "vec_list acts = []")
  case True
  with assms(1,2) vec_ok_size [OF assms(2)] show ?thesis
    by (auto simp: writeActions_def new_entries_def)
next
  case False
  then have "0 < vec_size acts" using vec_ok_size [OF assms(2)] by (cases "vec_list acts") auto
  with False assms write_at_size_spec [OF assms(2,3), of alloc] render_nonempty show ?thesis
    by (auto simp: writeActions_def is_log_def)
qed

lemma log_run_spec:
  "is_log f es \<Longrightarrow> list_all2 reads_as es vs \<Longrightarrow> \<forall>c \<in> set calls. clean_call c \<Longrightarrow>
    \<exists>f' es'. log_run alloc f calls = Inr f' \<and> is_log f' es' \<and>
      list_all2 reads_as es' (vs @ concat (map (call_json alloc) calls)) \<and>
      (f' = [] \<longleftrightarrow> f = [] \<and> (\<forall>(wd, acts) \<in> set calls. vec_list acts = []))"
proof (induction calls arbitrary: f es vs)
  case (Cons c calls)
  obtain wd acts where c: "c = (wd, acts)" by (cases c)
  with Cons.prems have clean: "clean_call (wd, acts)" by simp
  then have ok: "vec_ok acts" "\<forall>a \<in> set (vec_list acts). loggable a" by (auto simp: clean_call_def)
  obtain g where g: "writeActions alloc f wd acts = Inr g" "is_log g (es @ new_entries alloc wd acts)"
      "g = [] \<longleftrightarrow> f = [] \<and> vec_list acts = []"
    using writeActions_log [OF Cons.prems(1) ok, of alloc wd] by blast
  have "list_all2 reads_as (es @ new_entries alloc wd acts) (vs @ call_json alloc (wd, acts))"
    by (rule list_all2_appendI [OF Cons.prems(2) call_reads_as [OF clean]])
  from Cons.IH [OF g(2) this] Cons.prems(3) g(1,3) c show ?case by auto
qed auto

section \<open>Properties\<close>

text \<open>
  \<open>createJsonCommandString\<close> on a non-empty argument vector gives the escaped words separated
  by spaces exactly when the escaped words take at most \<open>2 L + 2 n + 1\<close> characters (\<open>L\<close> the
  length of all words, \<open>n\<close> their number); otherwise it writes beyond the end of its buffer.
\<close>

theorem command_buffer_exact:
  assumes "vec_ok args" "vec_list args \<noteq> []" "alloc (command_size (vec_list args))"
  shows "createJsonCommandString alloc args =
    (if total (\<lambda>w. length (shellEscapeStr w)) (vec_list args)
        \<le> 2 * total length (vec_list args) + 2 * length (vec_list args) + 1
     then Inr (Some (words_text (vec_list args))) else Inl Buffer_Overflow)"
proof -
  from assms(2) obtain w ws where ws: "vec_list args = w # ws" by (cases "vec_list args") auto
  show ?thesis
    using createJsonCommandString_eq [OF assms(1) ws, of alloc] length_words_text [of "w # ws"] assms(3)
    by (simp add: ws command_size_def Let_def)
qed

definition vec_of :: "'a list \<Rightarrow> 'a vec" where
  "vec_of xs = \<lparr>vec_size = length xs, vec_capacity = length xs, vec_dataFree = True,
     vec_data = Some (map Some xs), vec_freed = []\<rparr>"

lemma vec_of_ok: "length xs < SIZE_MAX \<Longrightarrow> vec_ok (vec_of xs) \<and> vec_list (vec_of xs) = xs"
  by (rule vec_okI [where rest = "[]"]) (simp_all add: vec_of_def)

theorem command_buffer_exact_witness:
  "createJsonCommandString (\<lambda>_. True) (vec_of [''cc'', ''a b.c'']) =
     Inr (Some (''cc '' @ [BSLASH, DQUOTE] @ ''a b.c'' @ [BSLASH, DQUOTE]))"
proof -
  have v: "vec_ok (vec_of [''cc'', ''a b.c'']) \<and> vec_list (vec_of [''cc'', ''a b.c'']) = [''cc'', ''a b.c'']"
    by (rule vec_of_ok) (simp add: SIZE_MAX_def)
  have "words_text [''cc'', ''a b.c''] = ''cc '' @ [BSLASH, DQUOTE] @ ''a b.c'' @ [BSLASH, DQUOTE]"
    "total (\<lambda>w. length (shellEscapeStr w)) [''cc'', ''a b.c''] \<le>
       2 * total length [''cc'', ''a b.c''] + 2 * length [''cc'', ''a b.c''] + 1" by code_simp+
  then show ?thesis using command_buffer_exact [of "vec_of [''cc'', ''a b.c'']" "\<lambda>_. True"] v by simp
qed

text \<open>
  The buffer is too small for a command with many arguments that are one space: a program
  name of \<open>n\<close> plain characters followed by more than \<open>n + 3\<close> of them overflows it.
\<close>

theorem command_buffer_overflows:
  assumes args: "vec_ok args" "vec_list args = tool # replicate k '' ''"
    and mem: "alloc (command_size (vec_list args))"
    and tool: "\<forall>c \<in> set tool. c \<notin> {BSLASH, DQUOTE, TAB, CHR '' ''}"
    and k: "length tool + 3 < k"
  shows "createJsonCommandString alloc args = Inl Buffer_Overflow"
proof -
  have none: "filter (\<lambda>c. c = BSLASH \<or> c = DQUOTE \<or> c = TAB) tool = []" and ns: "CHR '' '' \<notin> set tool"
    using tool by (auto simp: filter_empty_conv)
  have e: "length (shellEscapeStr tool) = length tool"
    by (simp add: shellEscapeStr_no_space [OF ns] length_shell_escape_loop none)
  have sp: "length (shellEscapeStr '' '') = 5"
    by (simp add: shellEscapeStr_space BSLASH_def DQUOTE_def TAB_def)
  have "total (\<lambda>w. length (shellEscapeStr w)) (replicate k '' '') = 5 * k"
    "total length (replicate k '' '') = k"
    by (simp_all add: total_def sum_list_replicate sp)
  with e k show ?thesis
    using createJsonCommandString_eq [OF args, of alloc] length_words_text [of "tool # replicate k '' ''"] mem
    by (simp add: args(2) command_size_def Let_def)
qed

theorem command_buffer_overflows_witness:
  "createJsonCommandString (\<lambda>_. True) (vec_of (''cc'' # replicate 6 '' '')) = Inl Buffer_Overflow"
proof -
  have v: "vec_ok (vec_of (''cc'' # replicate 6 '' '')) \<and>
      vec_list (vec_of (''cc'' # replicate 6 '' '')) = ''cc'' # replicate 6 '' ''"
    by (rule vec_of_ok) (simp add: SIZE_MAX_def)
  show ?thesis
    by (rule command_buffer_overflows [where tool = "''cc''" and k = 6])
      (use v in \<open>simp_all add: BSLASH_def DQUOTE_def TAB_def\<close>)
qed

text \<open>
  The function \<open>writeActions\<close> refines appending to a list: a log that holds the rendering of some entries
  (or is still empty) holds, after the call, the rendering of these entries followed by one for
  each source of each action; nothing that was logged is lost, and without actions the file is
  left as it is.
\<close>

theorem writeActions_appends:
  assumes "f = [] \<and> es = [] \<or> f = render es"
    and "vec_ok acts" "\<forall>a \<in> set (vec_list acts). loggable a"
  shows "writeActions alloc f wd acts =
    Inr (if vec_list acts = [] then f
         else render (es @ concat (map (action_entries alloc wd) (vec_list acts))))"
proof (cases "vec_list acts = []")
  case True
  with vec_ok_size [OF assms(2)] show ?thesis by (simp add: writeActions_def)
next
  case False
  then have "0 < vec_size acts" using vec_ok_size [OF assms(2)] by (cases "vec_list acts") auto
  with False assms(1) write_at_size_spec [OF assms(2,3), of alloc] show ?thesis
    by (auto simp: writeActions_def new_entries_def)
qed

definition example_action :: action where
  "example_action = \<lparr>act_output = \<lparr>file_path = ''/w/a.o''\<rparr>, act_arguments = vec_of [''cc'', ''/w/a b.c''],
     act_sources = vec_of [''/w/a b.c''], act_toolName = ''cc''\<rparr>"

lemma example_action_ok:
  "loggable example_action"
  "vec_list (act_arguments example_action) = [''cc'', ''/w/a b.c'']"
  "vec_list (act_sources example_action) = [''/w/a b.c'']"
proof -
  have v: "vec_ok (vec_of [''cc'', ''/w/a b.c'']) \<and> vec_list (vec_of [''cc'', ''/w/a b.c'']) = [''cc'', ''/w/a b.c'']"
    "vec_ok (vec_of [''/w/a b.c'']) \<and> vec_list (vec_of [''/w/a b.c'']) = [''/w/a b.c'']"
    by (rule vec_of_ok, simp add: SIZE_MAX_def)+
  have "length (words_text [''cc'', ''/w/a b.c'']) < command_size [''cc'', ''/w/a b.c'']" by code_simp
  with v show "loggable example_action" by (simp add: loggable_def example_action_def)
  show "vec_list (act_arguments example_action) = [''cc'', ''/w/a b.c'']"
    "vec_list (act_sources example_action) = [''/w/a b.c'']" using v by (simp_all add: example_action_def)
qed

lemma example_actions_ok:
  "vec_ok (vec_of [example_action]) \<and> vec_list (vec_of [example_action]) = [example_action]"
  by (rule vec_of_ok) (simp add: SIZE_MAX_def)

theorem writeActions_appends_witness:
  "writeActions (\<lambda>_. True) [] ''/w'' (vec_of [example_action]) =
     Inr (render (action_entries (\<lambda>_. True) ''/w'' example_action))"
  using writeActions_appends [of "[]" "[]" "vec_of [example_action]" "\<lambda>_. True" "''/w''"]
    example_actions_ok example_action_ok(1) by simp



end
