(* ===== verification/LoggerLog.thy ===== *)
theory LoggerLog
  imports LoggerJson
begin

text \<open>
  The entry points of the logger: \<open>aquireLock\<close>, \<open>logProgramArgs\<close> and \<open>logExec\<close> of
  \<^verbatim>\<open>logger/src/ldlogger-logger.c\<close>, and the \<open>exec\<close> hooks of \<^verbatim>\<open>ldlogger-hooks.c\<close>.

  \<open>logio\<close> says which system calls on the log and its lock succeed; \<open>logger\<close> is the state they
  change: the content of the log, the environment, and a ghost trace of the lock and file
  operations. The second half is the protocol of several processes on one log, each of which
  measures the file and later overwrites its last byte.
\<close>

section \<open>Logging one command\<close>

record logio =
  io_open_lock :: "string \<Rightarrow> bool"
  io_flock :: "string \<Rightarrow> bool"
  io_open_log :: "string \<Rightarrow> bool"
  io_fdopen :: bool

datatype log_event = Locked string | Unlocked string | Log_Opened | Log_Closed | Log_Written string

record logger =
  lg_content :: string
  lg_environ :: "string list"
  lg_trace :: "log_event list"

definition emit :: "log_event \<Rightarrow> logger \<Rightarrow> logger" where
  "emit e s = s\<lparr>lg_trace := lg_trace s @ [e]\<rparr>"

definition LOCK_SUFFIX :: string where "LOCK_SUFFIX = ''.lock''"

definition aquireLock :: "os \<Rightarrow> logio \<Rightarrow> string \<Rightarrow> logger \<Rightarrow> fault + (string option \<times> logger)" where
  "aquireLock os io logFile s =
     bindC (loggerMakePathAbs os PATH_MAX logFile False) (\<lambda>r.
     case r of
       None \<Rightarrow> Inr (None, s)
     | Some lockFilePath \<Rightarrow>
         bindC (strcat_buf PATH_MAX lockFilePath LOCK_SUFFIX) (\<lambda>lockFilePath.
         if \<not> io_open_lock io lockFilePath then Inr (None, s)
         else if \<not> io_flock io lockFilePath then Inr (None, s)
         else Inr (Some lockFilePath, emit (Locked lockFilePath) s)))"

definition freeLock :: "string option \<Rightarrow> logger \<Rightarrow> logger" where
  "freeLock lockFile s = (case lockFile of None \<Rightarrow> s | Some l \<Rightarrow> emit (Unlocked l) s)"

definition logProgramArgs :: "os \<Rightarrow> string \<Rightarrow> string list \<Rightarrow> logger \<Rightarrow> fault + logger" where
  "logProgramArgs os prog argv s =
     bindC (loggerMakePathAbs os PATH_MAX ''.'' True) (\<lambda>r.
     case r of
       None \<Rightarrow> Inr s
     | Some workingDir \<Rightarrow>
         if \<not> os_alloc os (8 * (length argv + 1)) then Inr s
         else
           bindC (loggerCollectActionsByProgName os (lg_environ s) prog argv
                    (snd (loggerVectorInitAdv (os_alloc os) 10 True))) (\<lambda>(_, acts, environ).
           bindC (writeActions (os_alloc os) (lg_content s) workingDir acts) (\<lambda>f.
           Inr (emit (Log_Written f) (s\<lparr>lg_environ := environ, lg_content := f\<rparr>)))))"

text \<open>\<open>argv\<close> holds the file name of the \<open>exec\<close> call followed by its argument vector.\<close>

definition logExec :: "os \<Rightarrow> logio \<Rightarrow> string list \<Rightarrow> logger \<Rightarrow> fault + (int \<times> logger)" where
  "logExec os io argv s =
     (if length argv < 2 then Inr (-1, s)
      else
        case getenv (lg_environ s) ''CC_LOGGER_FILE'' of
          None \<Rightarrow> Inr (-3, s)
        | Some logFileEnv \<Rightarrow>
            bindC (aquireLock os io logFileEnv s) (\<lambda>(lockFd, s).
            if lockFd = None then Inr (-5, s)
            else if \<not> io_open_log io logFileEnv then Inr (-7, freeLock lockFd s)
            else
              let s = emit Log_Opened s in
              if \<not> io_fdopen io then Inr (-9, freeLock lockFd (emit Log_Closed s))
              else
                bindC (logProgramArgs os (hd argv) (tl argv) s) (\<lambda>s.
                Inr (0, freeLock lockFd (emit Log_Closed s)))))"

section \<open>The exec hooks\<close>

definition CC_LOGGER_MAX_ARGS :: nat where "CC_LOGGER_MAX_ARGS = 2048"

text \<open>
  The loop that copies \<open>argv\<close> behind the file name, \<open>args\<close> being what the array holds so far
  and \<open>i\<close> the loop counter; the entry \<open>i + 1\<close> is written in every round and by the final NULL.
\<close>

fun fill_args :: "nat \<Rightarrow> string list \<Rightarrow> string list \<Rightarrow> fault + string list" where
  "fill_args i args [] = (if i + 1 < CC_LOGGER_MAX_ARGS then Inr args else Inl Buffer_Overflow)"
| "fill_args i args (a # as) =
     (if i + 1 < CC_LOGGER_MAX_ARGS then fill_args (i + 1) (args @ [a]) as else Inl Buffer_Overflow)"

definition tryLog :: "os \<Rightarrow> logio \<Rightarrow> string \<Rightarrow> string list \<Rightarrow> logger \<Rightarrow> fault + logger" where
  "tryLog os io filename argv s =
     bindC (fill_args 0 [filename] argv) (\<lambda>loggerArgs.
     bindC (logExec os io loggerArgs s) (\<lambda>(_, s). Inr s))"

definition unsetLDPRELOAD :: "string \<Rightarrow> logger \<Rightarrow> logger" where
  "unsetLDPRELOAD filename s =
     (case strstr filename ''ldd'' of
        None \<Rightarrow> s
      | Some pos \<Rightarrow>
          if length filename - length ''ldd'' = pos \<and> (pos = 0 \<or> filename ! (pos - 1) = CHR ''/'')
          then s\<lparr>lg_environ := unsetenv (lg_environ s) ''LD_PRELOAD''\<rparr>
          else s)"

datatype exec_call = Execv | Execve "string list" | Execvp | Execvpe "string list"

text \<open>
  \<open>CC_LOGGER_CALL_EXEC\<close>: log, then call the real function (\<open>found\<close> by \<open>dlsym\<close>) on the same
  arguments. The result is \<open>-1\<close> (\<open>None\<close>), or what the kernel gets: file name, arguments and
  environment.
\<close>

definition exec_environ :: "exec_call \<Rightarrow> logger \<Rightarrow> string list" where
  "exec_environ call s =
     (case call of Execve envp \<Rightarrow> envp | Execvpe envp \<Rightarrow> envp | _ \<Rightarrow> lg_environ s)"

definition exec_hook ::
    "os \<Rightarrow> logio \<Rightarrow> (exec_call \<Rightarrow> bool) \<Rightarrow> exec_call \<Rightarrow> string \<Rightarrow> string list \<Rightarrow> logger \<Rightarrow>
       fault + ((string \<times> string list \<times> string list) option \<times> logger)" where
  "exec_hook os io found call filename argv s =
     bindC (tryLog os io filename argv s) (\<lambda>s.
     let s = unsetLDPRELOAD filename s in
     if \<not> found call then Inr (None, s)
     else Inr (Some (filename, argv, exec_environ call s), s))"

section \<open>What the functions do\<close>

lemma emit_simps [simp]:
  "lg_content (emit e s) = lg_content s" "lg_environ (emit e s) = lg_environ s"
  "lg_trace (emit e s) = lg_trace s @ [e]"
  by (simp_all add: emit_def)

lemma fill_args_eq:
  "fill_args i args as =
     (if i + length as + 1 < CC_LOGGER_MAX_ARGS then Inr (args @ as) else Inl Buffer_Overflow)"
  by (induction as arbitrary: i args) auto

lemma aquireLock_cases:
  assumes "aquireLock os io f s = Inr (l, t)"
  shows "l = None \<and> t = s \<or> (\<exists>p. l = Some p \<and> t = emit (Locked p) s)"
  using assms by (auto simp: aquireLock_def bindC_eq_Inr split: option.splits if_splits)

lemma logProgramArgs_cases:
  assumes "logProgramArgs os prog argv s = Inr t"
  shows "t = s \<or> lg_trace t = lg_trace s @ [Log_Written (lg_content t)]"
  using assms by (auto simp: logProgramArgs_def bindC_eq_Inr split: option.splits if_splits)

text \<open>The traces of a run of \<open>logExec\<close>, by its return code.\<close>

definition exec_trace :: "int \<Rightarrow> string \<Rightarrow> log_event list \<Rightarrow> bool" where
  "exec_trace rc content tr \<longleftrightarrow>
     rc \<in> {-1, -3, -5} \<and> tr = [] \<or>
     (\<exists>l. rc = -7 \<and> tr = [Locked l, Unlocked l] \<or>
       rc = -9 \<and> tr = [Locked l, Log_Opened, Log_Closed, Unlocked l] \<or>
       rc = 0 \<and> tr = [Locked l, Log_Opened, Log_Closed, Unlocked l] \<or>
       rc = 0 \<and> tr = [Locked l, Log_Opened, Log_Written content, Log_Closed, Unlocked l])"

lemma logExec_trace:
  assumes run: "logExec os io argv s = Inr (rc, t)"
  shows "\<exists>tr. lg_trace t = lg_trace s @ tr \<and> exec_trace rc (lg_content t) tr \<and>
    (rc \<noteq> 0 \<longrightarrow> lg_content t = lg_content s \<and> lg_environ t = lg_environ s)"
proof (cases "length argv < 2 \<or> getenv (lg_environ s) ''CC_LOGGER_FILE'' = None")
  case True
  with run show ?thesis by (auto simp: logExec_def exec_trace_def split: if_splits)
next
  case False
  then obtain e where e: "getenv (lg_environ s) ''CC_LOGGER_FILE'' = Some e" "\<not> length argv < 2" by auto
  with run obtain l u where l: "aquireLock os io e s = Inr (l, u)" "l = None \<longrightarrow> rc = -5 \<and> t = u"
    and body: "l \<noteq> None \<longrightarrow>
      (if \<not> io_open_log io e then Inr (-7, freeLock l u)
       else if \<not> io_fdopen io then Inr (-9, freeLock l (emit Log_Closed (emit Log_Opened u)))
       else bindC (logProgramArgs os (hd argv) (tl argv) (emit Log_Opened u)) (\<lambda>s.
              Inr (0, freeLock l (emit Log_Closed s)))) = (Inr (rc, t) :: fault + (int \<times> logger))"
    by (auto simp: logExec_def bindC_eq_Inr Let_def split: if_splits)
  from aquireLock_cases [OF l(1)] show ?thesis
  proof
    assume "l = None \<and> u = s"
    with l(2) show ?thesis by (simp add: exec_trace_def)
  next
    assume "\<exists>p. l = Some p \<and> u = emit (Locked p) s"
    then obtain p where p: "l = Some p" "u = emit (Locked p) s" by blast
    show ?thesis
    proof (cases "io_open_log io e \<and> io_fdopen io")
      case False
      with body p show ?thesis by (auto simp: freeLock_def exec_trace_def split: if_splits)
    next
      case True
      with body p obtain v where v: "logProgramArgs os (hd argv) (tl argv) (emit Log_Opened u) = Inr v"
          "rc = 0" "t = freeLock l (emit Log_Closed v)"
        by (auto simp: bindC_eq_Inr)
      from logProgramArgs_cases [OF v(1)] show ?thesis
        using v(2,3) p by (auto simp: freeLock_def exec_trace_def)
    qed
  qed
qed

section \<open>Several processes on one log\<close>

text \<open>
  Every process \<open>p\<close> runs \<open>logExec\<close> on the same log: it takes the lock (or gives up), reads the
  size of the file, writes its actions \<open>acts p\<close> at the position it computed from that size, and
  releases the lock. \<open>lk_done\<close> is the order in which the processes wrote.
\<close>

datatype lock_pc = Waiting | Holding | Measured nat | Written | Finished

record lock_state =
  lk_file :: string
  lk_owner :: "nat option"
  lk_pc :: "nat \<Rightarrow> lock_pc"
  lk_done :: "nat list"

record jobs =
  job_alloc :: "nat \<Rightarrow> bool"
  job_wd :: "nat \<Rightarrow> string"
  job_acts :: "nat \<Rightarrow> action vec"

definition move :: "nat \<Rightarrow> lock_pc \<Rightarrow> lock_state \<Rightarrow> lock_state" where
  "move p pc s = s\<lparr>lk_pc := (lk_pc s)(p := pc)\<rparr>"

inductive lock_step :: "jobs \<Rightarrow> lock_state \<Rightarrow> lock_state \<Rightarrow> bool" for j :: jobs where
  take_lock: "lk_pc s p = Waiting \<Longrightarrow> lk_owner s = None \<Longrightarrow>
    lock_step j s (move p Holding (s\<lparr>lk_owner := Some p\<rparr>))"
| give_up: "lk_pc s p = Waiting \<Longrightarrow> lock_step j s (move p Finished s)"
| nothing: "lk_pc s p = Holding \<Longrightarrow> vec_size (job_acts j p) = 0 \<Longrightarrow> lock_step j s (move p Written s)"
| measure: "lk_pc s p = Holding \<Longrightarrow> vec_size (job_acts j p) \<noteq> 0 \<Longrightarrow>
    lock_step j s (move p (Measured (length (lk_file s))) s)"
| write_log: "lk_pc s p = Measured n \<Longrightarrow>
    write_at_size (job_alloc j) n (lk_file s) (job_wd j p) (job_acts j p) = Inr f \<Longrightarrow>
    lock_step j s (move p Written (s\<lparr>lk_file := f, lk_done := lk_done s @ [p]\<rparr>))"
| release: "lk_pc s p = Written \<Longrightarrow> lock_step j s (move p Finished (s\<lparr>lk_owner := None\<rparr>))"

text \<open>The actions every process wants to log can be written.\<close>

definition jobs_ok :: "jobs \<Rightarrow> bool" where
  "jobs_ok j \<longleftrightarrow> (\<forall>p. vec_ok (job_acts j p) \<and> (\<forall>a \<in> set (vec_list (job_acts j p)). loggable a))"

definition lock_init :: "jobs \<Rightarrow> lock_state \<Rightarrow> bool" where
  "lock_init j s \<longleftrightarrow> jobs_ok j \<and> lk_file s = [] \<and> lk_owner s = None \<and> lk_pc s = (\<lambda>_. Waiting) \<and> lk_done s = []"

definition job_entries :: "jobs \<Rightarrow> nat \<Rightarrow> log_entry list" where
  "job_entries j p = new_entries (job_alloc j) (job_wd j p) (job_acts j p)"

definition critical :: "lock_pc \<Rightarrow> bool" where
  "critical pc \<longleftrightarrow> pc \<noteq> Waiting \<and> pc \<noteq> Finished"

lemma critical_simps [simp]:
  "\<not> critical Waiting" "critical Holding" "critical (Measured n)" "critical Written" "\<not> critical Finished"
  by (simp_all add: critical_def)

text \<open>
  The invariant: the owner of the lock is the one process between taking and releasing it, the
  size it measured is still the size of the file, and the file is the rendering of what has
  been written.
\<close>

definition lock_inv :: "jobs \<Rightarrow> lock_state \<Rightarrow> bool" where
  "lock_inv j s \<longleftrightarrow> jobs_ok j \<and>
     (\<forall>p. critical (lk_pc s p) \<longleftrightarrow> lk_owner s = Some p) \<and>
     (\<forall>p n. lk_pc s p = Measured n \<longrightarrow> n = length (lk_file s) \<and> vec_size (job_acts j p) \<noteq> 0) \<and>
     is_log (lk_file s) (concat (map (job_entries j) (lk_done s))) \<and>
     (lk_file s = [] \<longleftrightarrow> lk_done s = []) \<and>
     distinct (lk_done s) \<and> (\<forall>p \<in> set (lk_done s). lk_pc s p = Written \<or> lk_pc s p = Finished)"

lemma move_simps [simp]:
  "lk_file (move p pc s) = lk_file s" "lk_owner (move p pc s) = lk_owner s"
  "lk_pc (move p pc s) = (lk_pc s)(p := pc)" "lk_done (move p pc s) = lk_done s"
  by (simp_all add: move_def)

inductive_cases lock_stepE: "lock_step j s t"

lemma lock_inv_init: "lock_init j s \<Longrightarrow> lock_inv j s"
  by (simp add: lock_init_def lock_inv_def is_log_def)

lemma lock_inv_write:
  assumes inv: "lock_inv j s" and pc: "lk_pc s p = Measured n"
    and w: "write_at_size (job_alloc j) n (lk_file s) (job_wd j p) (job_acts j p) = Inr f"
  shows "lock_inv j (move p Written (s\<lparr>lk_file := f, lk_done := lk_done s @ [p]\<rparr>))"
proof -
  let ?es = "concat (map (job_entries j) (lk_done s))"
  have ok: "vec_ok (job_acts j p)" "\<forall>a \<in> set (vec_list (job_acts j p)). loggable a"
    and n: "n = length (lk_file s)" "vec_size (job_acts j p) \<noteq> 0"
    and log: "is_log (lk_file s) ?es"
    using inv pc by (auto simp: lock_inv_def jobs_ok_def)
  have "writeActions (job_alloc j) (lk_file s) (job_wd j p) (job_acts j p) = Inr f"
    using w n by (simp add: writeActions_def)
  with writeActions_log [OF log ok, of "job_alloc j" "job_wd j p"]
  have f: "is_log f (?es @ job_entries j p)" "f \<noteq> []"
    using vec_ok_size [OF ok(1)] n(2) by (auto simp: job_entries_def)
  have owner: "lk_owner s = Some p" using inv pc by (metis critical_simps(3) lock_inv_def)
  have new: "p \<notin> set (lk_done s)" using inv pc by (auto simp: lock_inv_def)
  have others: "lk_pc s q \<noteq> Measured m" if "q \<noteq> p" for q m
    using inv owner that by (metis critical_simps(3) lock_inv_def option.inject)
  show ?thesis
    using inv f owner new others by (auto simp: lock_inv_def)
qed

lemma lock_inv_step: "lock_inv j s \<Longrightarrow> lock_step j s t \<Longrightarrow> lock_inv j t"
proof (erule lock_stepE, goal_cases)
  case (5 p n f)
  then show ?case using lock_inv_write by simp
next
  case (2 p)
  then have "lk_owner s \<noteq> Some p" by (metis critical_simps(1) lock_inv_def)
  with 2 show ?case by (auto simp: lock_inv_def)
next
  case (6 p)
  then have "lk_owner s = Some p" by (metis critical_simps(4) lock_inv_def)
  with 6 show ?case by (auto simp: lock_inv_def)
qed (auto simp: lock_inv_def)

interpretation lock: transition_system "lock_init j" "lock_step j" "lock_inv j" for j
  by unfold_locales (auto intro: lock_inv_init lock_inv_step)

section \<open>Properties\<close>


text \<open>Two processes that compile the same file: the first has written, the second waits.\<close>

definition example_jobs :: jobs where
  "example_jobs = \<lparr>job_alloc = (\<lambda>_. True), job_wd = (\<lambda>_. ''/w''), job_acts = (\<lambda>_. vec_of [example_action])\<rparr>"

definition example_log :: lock_state where
  "example_log = \<lparr>lk_file = render (job_entries example_jobs 0), lk_owner = Some 0,
     lk_pc = (\<lambda>_. Waiting)(0 := Written), lk_done = [0]\<rparr>"

lemma example_log_reachable: "reachable (lock_init example_jobs) (lock_step example_jobs) example_log"
proof -
  let ?s0 = "\<lparr>lk_file = [], lk_owner = None, lk_pc = \<lambda>_. Waiting, lk_done = []\<rparr> :: lock_state"
  let ?s1 = "\<lparr>lk_file = [], lk_owner = Some 0, lk_pc = (\<lambda>_. Waiting)(0 := Holding), lk_done = []\<rparr> :: lock_state"
  let ?s2 = "\<lparr>lk_file = [], lk_owner = Some 0, lk_pc = (\<lambda>_. Waiting)(0 := Measured 0), lk_done = []\<rparr> :: lock_state"
  have "jobs_ok example_jobs"
    using example_actions_ok example_action_ok(1) by (simp add: jobs_ok_def example_jobs_def)
  then have "reachable (lock_init example_jobs) (lock_step example_jobs) ?s0"
    by (intro reachable_init) (simp add: lock_init_def)
  moreover have "lock_step example_jobs ?s0 ?s1"
    using take_lock [of ?s0 0 example_jobs] by (simp add: move_def)
  moreover have "lock_step example_jobs ?s1 ?s2"
    using measure [of ?s1 0 example_jobs] by (simp add: move_def example_jobs_def vec_of_def)
  moreover have "lock_step example_jobs ?s2 example_log"
    using write_log [of ?s2 0 0 example_jobs "render (job_entries example_jobs 0)"] example_actions_ok
      example_action_ok(1) write_at_size_spec(1) [of "vec_of [example_action]" "\<lambda>_. True" "''/w''"]
    by (simp add: move_def example_log_def job_entries_def example_jobs_def)
  ultimately show ?thesis by (meson reachable_step)
qed


text \<open>
  C37: whatever fails, \<open>logExec\<close> releases the lock it took and closes the file it opened: its
  operations are exactly those of its return code, the log is written at most once, between
  taking and releasing the lock, and unless it returns 0 neither the log nor the environment
  has changed.
\<close>

theorem logExec_discipline:
  assumes "logExec os io argv s = Inr (rc, t)"
  shows "\<exists>tr. lg_trace t = lg_trace s @ tr \<and> exec_trace rc (lg_content t) tr \<and>
    (rc \<noteq> 0 \<longrightarrow> lg_content t = lg_content s \<and> lg_environ t = lg_environ s)"
  by (rule logExec_trace [OF assms])

definition example_io :: logio where
  "example_io = \<lparr>io_open_lock = (\<lambda>_. True), io_flock = (\<lambda>_. True), io_open_log = (\<lambda>_. False), io_fdopen = True\<rparr>"

theorem logExec_discipline_witness:
  "\<exists>l t. logExec example_os example_io [''gcc'', ''gcc''] \<lparr>lg_content = ''[]'',
      lg_environ = [''CC_LOGGER_FILE=/w/log''], lg_trace = []\<rparr> = Inr (-7, t) \<and>
     lg_content t = ''[]'' \<and> lg_trace t = [Locked l, Unlocked l]"
proof -
  let ?s = "\<lparr>lg_content = ''[]'', lg_environ = [''CC_LOGGER_FILE=/w/log''], lg_trace = []\<rparr> :: logger"
  have "case logExec example_os example_io [''gcc'', ''gcc''] ?s of Inr (rc, _) \<Rightarrow> rc = -7 | Inl _ \<Rightarrow> False"
    by code_simp
  then obtain t where t: "logExec example_os example_io [''gcc'', ''gcc''] ?s = Inr (-7, t)"
    by (auto split: sum.splits)
  from logExec_discipline [OF t] t show ?thesis by (auto simp: exec_trace_def)
qed

text \<open>
  The hooks log a command line of at most 2046 arguments exactly as \<open>logExec\<close> does and then
  pass file name and arguments on unchanged; one argument more is written beyond the end of
  the array on the stack.
\<close>

theorem exec_hook_arguments:
  "exec_hook os io found call filename argv s =
    (if length argv \<le> 2046 then
       bindC (logExec os io (filename # argv) s) (\<lambda>(_, t).
       let u = unsetLDPRELOAD filename t in
       Inr (if found call then Some (filename, argv, exec_environ call u) else None, u))
     else Inl Buffer_Overflow)"
  by (auto simp: exec_hook_def tryLog_def fill_args_eq CC_LOGGER_MAX_ARGS_def Let_def bindC_assoc
      intro!: bindC_cong)

text \<open>
  \<open>ldd\<close>, as the whole name or as the last component of a path whose directory does not
  contain the letters, is run by \<open>execv\<close> and \<open>execvp\<close> without \<open>LD_PRELOAD\<close> and otherwise in the
  environment of the process; \<open>execve\<close> and \<open>execvpe\<close> pass on the environment of the caller, with
  \<open>LD_PRELOAD\<close> if it is there; and in a directory whose path contains the letters \<open>ldd\<close> nothing
  is unset.
\<close>

theorem ldd_environment:
  assumes d: "d = [] \<or> (\<exists>e. d = e @ ''/'')"
  shows "if strstr (d @ ''ldd'') ''ldd'' = Some (length d)
    then lg_environ (unsetLDPRELOAD (d @ ''ldd'') s) = unsetenv (lg_environ s) ''LD_PRELOAD'' \<and>
      (\<forall>call \<in> {Execv, Execvp}.
         getenv (exec_environ call (unsetLDPRELOAD (d @ ''ldd'') s)) ''LD_PRELOAD'' = None) \<and>
      (\<forall>envp. \<forall>call \<in> {Execve envp, Execvpe envp}.
         exec_environ call (unsetLDPRELOAD (d @ ''ldd'') s) = envp)
    else sublist ''ldd'' d \<and> unsetLDPRELOAD (d @ ''ldd'') s = s"
proof (cases "strstr (d @ ''ldd'') ''ldd'' = Some (length d)")
  case True
  have "d = [] \<or> (d @ ''ldd'') ! (length d - 1) = CHR ''/''" using d by (auto simp: nth_append)
  with True have "unsetLDPRELOAD (d @ ''ldd'') s = s\<lparr>lg_environ := unsetenv (lg_environ s) ''LD_PRELOAD''\<rparr>"
    by (auto simp: unsetLDPRELOAD_def)
  with True show ?thesis by (auto simp: exec_environ_def)
next
  case False
  obtain i where i: "i \<le> length d" "strstr (d @ ''ldd'') ''ldd'' = Some i"
    using strstr_append_needle [of d "''ldd''" "[]"] by auto
  with False have lt: "i < length d" by (cases "i = length d") auto
  have "sublist ''ldd'' d"
  proof -
    have "length ''ldd'' = 3" by simp
    with strstr_SomeD [OF i(2)] have t: "take 3 (drop i (d @ ''ldd'')) = ''ldd''" by metis
    obtain e where e: "d = e @ ''/''" using d lt by auto
    consider "i + 3 \<le> length d" | "length d < i + 3" by linarith
    then show ?thesis
    proof cases
      case 1
      then have "take 3 (drop i d) = ''ldd''" using t by simp
      then show ?thesis
        by (metis append_take_drop_id sublist_appendI append.assoc)
    next
      case 2
      then have j: "length e - i < 3" "i \<le> length e" using lt e by auto
      then have "''ldd'' ! (length e - i) = (drop i (d @ ''ldd'')) ! (length e - i)"
        using t by (metis nth_take)
      also have "\<dots> = CHR ''/''" using j(2) e by (simp add: nth_append)
      finally have "''ldd'' ! (length e - i) = CHR ''/''" .
      with j(1) show ?thesis by (auto simp: nth_Cons split: nat.splits)
    qed
  qed
  with False i lt show ?thesis by (auto simp: unsetLDPRELOAD_def)
qed

theorem ldd_environment_witness:
  "exec_environ Execv (unsetLDPRELOAD ''/usr/bin/ldd'' \<lparr>lg_content = [], lg_environ = [''LD_PRELOAD=x''], lg_trace = []\<rparr>) = [] \<and>
   (\<forall>s. unsetLDPRELOAD ''/opt/lddtools/ldd'' s = s)"
proof -
  have a: "strstr (''/usr/bin/'' @ ''ldd'') ''ldd'' = Some (length ''/usr/bin/'')"
    "strstr (''/opt/lddtools/'' @ ''ldd'') ''ldd'' \<noteq> Some (length ''/opt/lddtools/'')"
    "unsetenv [''LD_PRELOAD=x''] ''LD_PRELOAD'' = []" by code_simp+
  have d: "''/usr/bin/'' = [] \<or> (\<exists>e. ''/usr/bin/'' = e @ ''/'')" "''/opt/lddtools/'' = [] \<or> (\<exists>e. ''/opt/lddtools/'' = e @ ''/'')"
    by (rule disjI2, rule exI [of _ "''/usr/bin''"], simp, rule disjI2, rule exI [of _ "''/opt/lddtools''"], simp)
  show ?thesis
    using ldd_environment [OF d(1)] ldd_environment [OF d(2)] a
    by (simp add: exec_environ_def)
qed

end
