(* ===== verification/WebAuth.thy ===== *)
theory WebAuth
  imports CPrelude
begin

text \<open>
  Authentication of the web server: the engine of \<^verbatim>\<open>webserver/src/authentication.cpp\<close>, the base
  class of \<^verbatim>\<open>webserver/include/webserver/authenticator.h\<close> and the two backends under
  \<^verbatim>\<open>webserver/authenticators\<close> (\<open>plain\<close> and \<open>ldap\<close>).

  A \<open>boost::property_tree\<close> node is the record \<open>pt_node\<close> of what its accessors return; the LDAP
  server is the record \<open>ldap\<close> of what the client library returns; \<open>load\<close> gives the plugin that
  the dynamic loader finds at a path. These are arguments of the definitions.
\<close>

section \<open>Configuration\<close>

record pt_node =
  pt_bool :: "string \<Rightarrow> bool option"
  pt_string :: "string \<Rightarrow> string option"
  pt_size :: "string \<Rightarrow> nat option"
  pt_list :: "string \<Rightarrow> string list option"

definition get_value_or :: "'a option \<Rightarrow> 'a \<Rightarrow> 'a" where
  "get_value_or x d = (case x of Some y \<Rightarrow> y | None \<Rightarrow> d)"

lemma get_value_or_simps [simp]: "get_value_or None d = d" "get_value_or (Some y) d = y"
  by (simp_all add: get_value_or_def)

section \<open>Backends\<close>

record authenticator =
  au_name :: string
  au_configured :: bool
  au_supports :: bool
  au_check :: "string \<Rightarrow> string \<Rightarrow> bool"

text \<open>The base class refuses everything.\<close>

definition base_authenticator :: "string \<Rightarrow> authenticator" where
  "base_authenticator name = \<lparr>au_name = name, au_configured = False, au_supports = False,
     au_check = (\<lambda>_ _. False)\<rparr>"

definition plain_format :: "string \<Rightarrow> string \<Rightarrow> string" where
  "plain_format username password = username @ '':'' @ password"

definition PlainAuthenticator :: "string \<Rightarrow> pt_node \<Rightarrow> authenticator" where
  "PlainAuthenticator name config =
     (let (valid, ok) =
        (case pt_list config ''users'' of
           None \<Rightarrow> ([], False)
         | Some users \<Rightarrow> if users = [] then ([], False) else (users, True))
      in \<lparr>au_name = name, au_configured = ok, au_supports = True,
          au_check = (\<lambda>username password. plain_format username password \<in> set valid)\<rparr>)"

text \<open>
  The LDAP client: \<open>Connect\<close>, \<open>Bind\<close> with a distinguished name and a password, and \<open>Search\<close>
  (base and filter) with the names of the entries it finds.
\<close>

record ldap =
  ldap_connect :: "string \<Rightarrow> bool"
  ldap_bind :: "string \<Rightarrow> string \<Rightarrow> bool"
  ldap_search :: "string \<Rightarrow> string \<Rightarrow> string list"

definition to_escape :: "char set" where
  "to_escape = {BACKSLASH, CHR ''*'', CHR ''('', CHR '')'', NUL}"

definition escapeFilter :: "string \<Rightarrow> string" where
  "escapeFilter f = filter (\<lambda>c. c \<notin> to_escape) f"

definition LDAPAuthenticator :: "ldap \<Rightarrow> string \<Rightarrow> pt_node \<Rightarrow> authenticator" where
  "LDAPAuthenticator srv name config =
     (let host = get_value_or (pt_string config ''host'') [];
          bindDn = get_value_or (pt_string config ''bindDn'') [];
          bindPw = get_value_or (pt_string config ''bindPw'') [];
          baseDn = get_value_or (pt_string config ''baseDn'') [];
          uidAttr = get_value_or (pt_string config ''uidAttr'') [];
          ok = host \<noteq> [] \<and> bindDn \<noteq> [] \<and> bindPw \<noteq> [] \<and> baseDn \<noteq> [] \<and> uidAttr \<noteq> []
      in \<lparr>au_name = name, au_configured = ok, au_supports = True,
          au_check = (\<lambda>username password.
            if \<not> ldap_connect srv host then False
            else if \<not> ldap_bind srv bindDn bindPw then False
            else
              let result = ldap_search srv baseDn (escapeFilter (uidAttr @ ''='' @ username)) in
              if length result \<noteq> 1 \<or> hd result = [] then False
              else ldap_bind srv (hd result) password)\<rparr>)"

section \<open>The engine\<close>

definition INVALID_CFG_FILE_PATH :: string where "INVALID_CFG_FILE_PATH = ''/dev/null''"

definition DEFAULT_SESSION_LIFETIME :: nat where "DEFAULT_SESSION_LIFETIME = 3600"

record authentication =
  auth_path :: string
  auth_prompt :: string
  auth_lifetime :: nat
  auth_backends :: "authenticator list"

definition isEnabled :: "authentication \<Rightarrow> bool" where
  "isEnabled a \<longleftrightarrow> auth_path a \<noteq> INVALID_CFG_FILE_PATH"

text \<open>The engine that lets everyone in.\<close>

definition Authentication_default :: authentication where
  "Authentication_default = \<lparr>auth_path = INVALID_CFG_FILE_PATH, auth_prompt = [],
     auth_lifetime = 0, auth_backends = []\<rparr>"

text \<open>
  \<open>load path key cfg\<close> is \<open>None\<close> when the library cannot be loaded, \<open>Some None\<close> when the factory
  leaves its result empty.
\<close>

definition createAuthenticator ::
    "(string \<Rightarrow> (string \<Rightarrow> pt_node \<Rightarrow> authenticator option) option) \<Rightarrow> string \<Rightarrow> string \<Rightarrow> pt_node \<Rightarrow>
       authentication \<Rightarrow> authentication" where
  "createAuthenticator load key path cfg a =
     (case load path of
        None \<Rightarrow> a
      | Some initFun \<Rightarrow>
          (case initFun key cfg of
             None \<Rightarrow> a
           | Some impl \<Rightarrow>
               if \<not> au_configured impl then a
               else a\<lparr>auth_backends := auth_backends a @ [impl]\<rparr>))"

text \<open>\<open>fs::path(dir).append("lib" + key)\<close>, then \<open>"auth"\<close> and the extension of shared libraries.\<close>

definition plugin_path :: "string \<Rightarrow> string \<Rightarrow> string" where
  "plugin_path dir key =
     dir @ (if dir = [] \<or> last dir = CHR ''/'' then [] else ''/'') @ ''lib'' @ key @ ''auth'' @ ''.so''"

text \<open>The loop over the members of the configuration.\<close>

fun load_backends ::
    "(string \<Rightarrow> (string \<Rightarrow> pt_node \<Rightarrow> authenticator option) option) \<Rightarrow> string \<Rightarrow>
       (string \<times> pt_node) list \<Rightarrow> authentication \<Rightarrow> authentication" where
  "load_backends load dir [] a = a"
| "load_backends load dir ((key, subTree) # rest) a =
     load_backends load dir rest
       (if key = ''enabled'' \<or> key = ''prompt'' \<or> key = ''session_lifetime'' then a
        else if \<not> get_value_or (pt_bool subTree ''enabled'') False then a
        else createAuthenticator load key (plugin_path dir key) subTree a)"

datatype auth_error = Thrown nat | Json_Error

text \<open>
  The constructor from a file. \<open>regular\<close> and \<open>opened\<close> say whether the file is a regular file and
  can be opened, \<open>json\<close> is what \<open>read_json\<close> reads (with the members of the root), \<open>garbage\<close> the
  value of the lifetime member, which the constructor does not initialise.
\<close>

definition Authentication_file ::
    "(string \<Rightarrow> (string \<Rightarrow> pt_node \<Rightarrow> authenticator option) option) \<Rightarrow> string \<Rightarrow> string \<Rightarrow>
       bool \<Rightarrow> bool \<Rightarrow> (pt_node \<times> (string \<times> pt_node) list) option \<Rightarrow> nat \<Rightarrow> auth_error + authentication" where
  "Authentication_file load dir cfgPath regular opened json garbage =
     (if \<not> regular then Inl (Thrown 1)
      else if \<not> opened then Inl (Thrown 2)
      else
        case json of
          None \<Rightarrow> Inl Json_Error
        | Some (root, members) \<Rightarrow>
            let a = \<lparr>auth_path = cfgPath, auth_prompt = [], auth_lifetime = garbage, auth_backends = []\<rparr> in
            if \<not> get_value_or (pt_bool root ''enabled'') False
            then Inr (a\<lparr>auth_path := INVALID_CFG_FILE_PATH\<rparr>)
            else
              Inr (load_backends load dir members
                (a\<lparr>auth_prompt := get_value_or (pt_string root ''prompt'') [],
                   auth_lifetime := get_value_or (pt_size root ''session-lifetime'') DEFAULT_SESSION_LIFETIME\<rparr>)))"

text \<open>The loop over the backends.\<close>

fun try_backends :: "authenticator list \<Rightarrow> string \<Rightarrow> string \<Rightarrow> bool" where
  "try_backends [] username password = False"
| "try_backends (b # bs) username password =
     (if \<not> au_supports b then try_backends bs username password
      else if au_check b username password then True
      else try_backends bs username password)"

definition authenticateUsernamePassword :: "authentication \<Rightarrow> string \<Rightarrow> string \<Rightarrow> bool" where
  "authenticateUsernamePassword a username password =
     (if \<not> isEnabled a then True else try_backends (auth_backends a) username password)"

section \<open>Lemmas\<close>

lemma try_backends_iff:
  "try_backends bs u p \<longleftrightarrow> (\<exists>b \<in> set bs. au_supports b \<and> au_check b u p)"
  by (induction bs) auto

lemma load_backends_fixed [simp]:
  "auth_path (load_backends load dir ms a) = auth_path a"
  "auth_prompt (load_backends load dir ms a) = auth_prompt a"
  "auth_lifetime (load_backends load dir ms a) = auth_lifetime a"
  by (induction load dir ms a rule: load_backends.induct)
    (auto simp: createAuthenticator_def split: option.splits if_splits)

text \<open>What a loaded backend is.\<close>

definition loads_as ::
    "(string \<Rightarrow> (string \<Rightarrow> pt_node \<Rightarrow> authenticator option) option) \<Rightarrow> string \<Rightarrow>
       authenticator \<Rightarrow> string \<times> pt_node \<Rightarrow> bool" where
  "loads_as load dir b = (\<lambda>(key, t). key \<notin> {''enabled'', ''prompt'', ''session_lifetime''} \<and>
     pt_bool t ''enabled'' = Some True \<and>
     (\<exists>f. load (plugin_path dir key) = Some f \<and> f key t = Some b \<and> au_configured b))"

definition loaded_from ::
    "(string \<Rightarrow> (string \<Rightarrow> pt_node \<Rightarrow> authenticator option) option) \<Rightarrow> string \<Rightarrow>
       (string \<times> pt_node) list \<Rightarrow> authenticator \<Rightarrow> bool" where
  "loaded_from load dir ms b \<longleftrightarrow> (\<exists>m \<in> set ms. loads_as load dir b m)"

lemma load_backends_loaded:
  "b \<in> set (auth_backends (load_backends load dir ms a)) \<longleftrightarrow>
     b \<in> set (auth_backends a) \<or> loaded_from load dir ms b"
proof (induction load dir ms a rule: load_backends.induct)
  case (1 load dir a)
  then show ?case by (simp add: loaded_from_def)
next
  case (2 load dir key t rest a)
  let ?c = "if key = ''enabled'' \<or> key = ''prompt'' \<or> key = ''session_lifetime'' then a
        else if \<not> get_value_or (pt_bool t ''enabled'') False then a
        else createAuthenticator load key (plugin_path dir key) t a"
  have c: "b \<in> set (auth_backends ?c) \<longleftrightarrow> b \<in> set (auth_backends a) \<or> loads_as load dir b (key, t)"
    by (auto simp: loads_as_def createAuthenticator_def get_value_or_def split: option.splits)
  have run: "load_backends load dir ((key, t) # rest) a = load_backends load dir rest ?c"
    by (simp only: load_backends.simps)
  show ?case unfolding run 2 c by (auto simp: loaded_from_def)
qed

lemma escapeFilter_clean: "set (escapeFilter f) \<inter> to_escape = {}"
  by (auto simp: escapeFilter_def)

lemma escapeFilter_append: "escapeFilter (a @ b) = escapeFilter a @ escapeFilter b"
  by (simp add: escapeFilter_def)

lemma escapeFilter_id: "set f \<inter> to_escape = {} \<Longrightarrow> escapeFilter f = f"
  by (auto simp: escapeFilter_def intro: filter_True)

section \<open>Properties\<close>

text \<open>
  With a configuration that enables authentication, credentials are accepted exactly when a
  backend accepts them that is enabled in the configuration, whose library loads and which
  reports to be configured and to support passwords; the first refusals do not matter. Without
  a usable backend nobody is accepted.
\<close>

theorem authentication_needs_backend:
  assumes "Authentication_file load dir cfgPath True True (Some (root, members)) garbage = Inr a"
    and "pt_bool root ''enabled'' = Some True" and "cfgPath \<noteq> INVALID_CFG_FILE_PATH"
  shows "authenticateUsernamePassword a u p \<longleftrightarrow>
    (\<exists>b. loaded_from load dir members b \<and> au_supports b \<and> au_check b u p)"
  using assms
  by (auto simp: Authentication_file_def authenticateUsernamePassword_def isEnabled_def
      try_backends_iff load_backends_loaded Let_def)

definition example_users :: pt_node where
  "example_users = \<lparr>pt_bool = (\<lambda>k. if k = ''enabled'' then Some True else None), pt_string = (\<lambda>_. None),
     pt_size = (\<lambda>k. if k = ''session_lifetime'' then Some 86400 else None),
     pt_list = (\<lambda>k. if k = ''users'' then Some [''root:pw''] else None)\<rparr>"

definition example_load :: "string \<Rightarrow> (string \<Rightarrow> pt_node \<Rightarrow> authenticator option) option" where
  "example_load path = (if path = ''/lib/libplainauth.so'' then Some (\<lambda>n c. Some (PlainAuthenticator n c)) else None)"

theorem authentication_needs_backend_witness:
  "\<exists>a. Authentication_file example_load ''/lib'' ''/ws/authentication.json'' True True
       (Some (example_users, [(''enabled'', example_users), (''plain'', example_users)])) 0 = Inr a \<and>
     authenticateUsernamePassword a ''root'' ''pw'' \<and> \<not> authenticateUsernamePassword a ''root'' ''x''"
proof -
  let ?ms = "[(''enabled'', example_users), (''plain'', example_users)]"
  obtain a where a: "Authentication_file example_load ''/lib'' ''/ws/authentication.json'' True True
       (Some (example_users, ?ms)) 0 = Inr a"
    by (simp add: Authentication_file_def Let_def example_users_def)
  have en: "pt_bool example_users ''enabled'' = Some True" "''/ws/authentication.json'' \<noteq> INVALID_CFG_FILE_PATH"
    by (simp_all add: example_users_def INVALID_CFG_FILE_PATH_def)
  have l: "loaded_from example_load ''/lib'' ?ms b \<longleftrightarrow> b = PlainAuthenticator ''plain'' example_users" for b
    by (auto simp: loads_as_def loaded_from_def example_load_def example_users_def plugin_path_def
        PlainAuthenticator_def)
  show ?thesis
    using a authentication_needs_backend [OF a en, of "''root''" "''pw''"]
      authentication_needs_backend [OF a en, of "''root''" "''x''"]
    unfolding l by (auto simp: PlainAuthenticator_def example_users_def plain_format_def)
qed

text \<open>
  The documented key \<open>session_lifetime\<close> has no effect: the constructor reads the key
  \<open>session-lifetime\<close>, and without it a session lives for an hour whatever the documented key
  says.
\<close>

theorem documented_lifetime_ignored:
  assumes "Authentication_file load dir cfgPath regular opened (Some (root, members)) garbage = Inr a"
    and "pt_bool root ''enabled'' = Some True" and "pt_size root ''session-lifetime'' = None"
  shows "auth_lifetime a = 3600"
  using assms
  by (auto simp: Authentication_file_def Let_def DEFAULT_SESSION_LIFETIME_def split: if_splits)

theorem documented_lifetime_ignored_witness:
  "pt_size example_users ''session_lifetime'' = Some 86400 \<and>
   (\<exists>a. Authentication_file example_load ''/lib'' ''/ws/a.json'' True True (Some (example_users, [])) 7 = Inr a \<and>
     auth_lifetime a = 3600)"
proof -
  obtain a where a: "Authentication_file example_load ''/lib'' ''/ws/a.json'' True True
       (Some (example_users, [])) 7 = Inr a"
    by (simp add: Authentication_file_def Let_def example_users_def)
  have "pt_bool example_users ''enabled'' = Some True" "pt_size example_users ''session-lifetime'' = None"
    "pt_size example_users ''session_lifetime'' = Some 86400"
    by (simp_all add: example_users_def)
  with a documented_lifetime_ignored [OF a] show ?thesis by blast
qed

text \<open>
  The plain backend accepts a user name without a colon exactly with the password that an
  entry of the list has after its first colon; but the pair is compared as one string, so a
  name that contains the start of the password is accepted with the rest of it.
\<close>

theorem plain_check_exact:
  assumes "CHR '':'' \<notin> set u"
  shows "(au_check (PlainAuthenticator name config) u p \<longleftrightarrow>
      (\<exists>users e. pt_list config ''users'' = Some users \<and> e \<in> set users \<and>
        strchr e (CHR '':'') = Some (length u) \<and> take (length u) e = u \<and> drop (Suc (length u)) e = p)) \<and>
    au_check (PlainAuthenticator name config) (u @ '':'' @ v) p =
      au_check (PlainAuthenticator name config) u (v @ '':'' @ p)"
proof
  have colon: "strchr (u @ CHR '':'' # p) (CHR '':'') = Some (length u)"
    using strchr_first [OF assms, of p] .
  have split: "e = u @ CHR '':'' # p \<longleftrightarrow> strchr e (CHR '':'') = Some (length u) \<and> take (length u) e = u \<and>
      drop (Suc (length u)) e = p" for e
  proof
    assume s: "strchr e (CHR '':'') = Some (length u) \<and> take (length u) e = u \<and> drop (Suc (length u)) e = p"
    with strchr_SomeD [of e "CHR '':''" "length u"] have "length u < length e" "e ! length u = CHR '':''"
      by simp_all
    with s show "e = u @ CHR '':'' # p" by (metis id_take_nth_drop)
  qed (simp add: colon)
  show "au_check (PlainAuthenticator name config) u p \<longleftrightarrow>
      (\<exists>users e. pt_list config ''users'' = Some users \<and> e \<in> set users \<and>
        strchr e (CHR '':'') = Some (length u) \<and> take (length u) e = u \<and> drop (Suc (length u)) e = p)"
  proof (cases "pt_list config ''users''")
    case None
    then show ?thesis by (simp add: PlainAuthenticator_def)
  next
    case (Some users)
    have "au_check (PlainAuthenticator name config) u p \<longleftrightarrow> u @ CHR '':'' # p \<in> set users"
      using Some by (auto simp: PlainAuthenticator_def plain_format_def)
    with Some show ?thesis unfolding split [symmetric] by auto
  qed
  show "au_check (PlainAuthenticator name config) (u @ '':'' @ v) p =
      au_check (PlainAuthenticator name config) u (v @ '':'' @ p)"
    by (auto simp: PlainAuthenticator_def plain_format_def split: option.splits)
qed

theorem plain_check_exact_witness:
  "au_check (PlainAuthenticator ''plain'' (example_users\<lparr>pt_list := (\<lambda>_. Some [''root:a:b''])\<rparr>)) ''root:a'' ''b''"
proof -
  let ?c = "example_users\<lparr>pt_list := (\<lambda>_. Some [''root:a:b''])\<rparr>"
  have "CHR '':'' \<notin> set ''root''" by simp
  note T = plain_check_exact [OF this, of "''plain''" ?c "''a:b''" ] plain_check_exact [OF this, of "''plain''" ?c "''b''" "''a''"]
  have "strchr ''root:a:b'' (CHR '':'') = Some (length ''root'')" by code_simp
  then have "au_check (PlainAuthenticator ''plain'' ?c) ''root'' ''a:b''"
    by (intro iffD2 [OF conjunct1 [OF T(1)]]) auto
  with conjunct2 [OF T(2)] show ?thesis by simp
qed

text \<open>
  The LDAP backend accepts credentials exactly when the search for the user finds one entry
  and the server accepts the bind of this entry with the given password, be it empty; the filter
  never contains a character with a meaning in filters, whatever the user name is. The
  characters are dropped instead of escaped, so a name is the same user as the name without them.
\<close>

theorem ldap_check_filter:
  "(au_check (LDAPAuthenticator srv name config) u p \<longleftrightarrow>
      (\<exists>f dn. set f \<inter> to_escape = {} \<and> f = escapeFilter (get_value_or (pt_string config ''uidAttr'') []) @ ''='' @ escapeFilter u \<and>
        ldap_connect srv (get_value_or (pt_string config ''host'') []) \<and>
        ldap_bind srv (get_value_or (pt_string config ''bindDn'') []) (get_value_or (pt_string config ''bindPw'') []) \<and>
        ldap_search srv (get_value_or (pt_string config ''baseDn'') []) f = [dn] \<and> dn \<noteq> [] \<and> ldap_bind srv dn p)) \<and>
    au_check (LDAPAuthenticator srv name config) u p = au_check (LDAPAuthenticator srv name config) (escapeFilter u) p"
proof -
  have eq: "escapeFilter (a @ CHR ''='' # x) = escapeFilter a @ CHR ''='' # escapeFilter x" for a x
    by (simp add: escapeFilter_def to_escape_def BACKSLASH_def NUL_def)
  have "au_check (LDAPAuthenticator srv name config) u p \<longleftrightarrow>
      (\<exists>f dn. f = escapeFilter (get_value_or (pt_string config ''uidAttr'') []) @ ''='' @ escapeFilter u \<and>
        ldap_connect srv (get_value_or (pt_string config ''host'') []) \<and>
        ldap_bind srv (get_value_or (pt_string config ''bindDn'') []) (get_value_or (pt_string config ''bindPw'') []) \<and>
        ldap_search srv (get_value_or (pt_string config ''baseDn'') []) f = [dn] \<and> dn \<noteq> [] \<and> ldap_bind srv dn p)"
    by (auto simp: LDAPAuthenticator_def Let_def eq length_Suc_conv)
  moreover have "set (escapeFilter a @ ''='' @ escapeFilter x) \<inter> to_escape = {}" for a x
    using escapeFilter_clean [of a] escapeFilter_clean [of x]
    by (auto simp: to_escape_def BACKSLASH_def NUL_def)
  moreover have "au_check (LDAPAuthenticator srv name config) u p =
      au_check (LDAPAuthenticator srv name config) (escapeFilter u) p"
    by (simp add: LDAPAuthenticator_def Let_def eq escapeFilter_id [OF escapeFilter_clean])
  ultimately show ?thesis by metis
qed

end
