(* ===== verification/WebSession.thy ===== *)
theory WebSession
  imports WebAuth
begin

text \<open>
  Sessions of the web server: \<open>SessionManager\<close> (\<^verbatim>\<open>webserver/src/sessionmanager.cpp\<close>), its wrapper
  \<open>SessionManagerAccess\<close> (\<^verbatim>\<open>session.h\<close>, \<^verbatim>\<open>session.cpp\<close>) and the authentication service built on
  it (\<^verbatim>\<open>service/authentication/src/authenticationservice.cpp\<close>).

  The hash map of sessions is an association list with distinct keys. A \<open>Session*\<close> is the key of
  the element it points to, or \<open>None\<close> for a null pointer; a pointer whose element has been
  erased is dangling, and reading through it is \<open>Use_After_Free\<close>. The steady clock is an
  argument \<open>now\<close>, the generated identifier (a SHA-1 of the name, random numbers and the date) an
  argument \<open>id\<close>.
\<close>

section \<open>The session manager\<close>

definition SESSION_COOKIE :: string where "SESSION_COOKIE = ''CodeCompass_SESH''"

definition SessionClearThreshold :: nat where "SessionClearThreshold = 16"

record session =
  sessId :: string
  username :: string
  lastHit :: nat

definition new_session :: "nat \<Rightarrow> string \<Rightarrow> string \<Rightarrow> session" where
  "new_session now i u = \<lparr>sessId = i, username = u, lastHit = now\<rparr>"

record session_manager =
  authEngine :: authentication
  sessions :: "(string \<times> session) list"

text \<open>\<open>emplace\<close> keeps an element that is already there.\<close>

definition emplace :: "string \<Rightarrow> session \<Rightarrow> session_manager \<Rightarrow> session_manager" where
  "emplace k v m = (if map_of (sessions m) k = None then m\<lparr>sessions := sessions m @ [(k, v)]\<rparr> else m)"

definition erase :: "string \<Rightarrow> session_manager \<Rightarrow> session_manager" where
  "erase k m = m\<lparr>sessions := filter (\<lambda>(k', _). k' \<noteq> k) (sessions m)\<rparr>"

definition isRequiringAuthentication :: "session_manager \<Rightarrow> bool" where
  "isRequiringAuthentication m = isEnabled (authEngine m)"

definition getAuthPrompt :: "session_manager \<Rightarrow> string" where
  "getAuthPrompt m = auth_prompt (authEngine m)"

definition getSessionCookieName :: string where
  "getSessionCookieName = SESSION_COOKIE"

definition SessionManager :: "nat \<Rightarrow> authentication \<Rightarrow> session_manager" where
  "SessionManager now auth =
     (let m = \<lparr>authEngine = auth, sessions = []\<rparr> in
      if \<not> isRequiringAuthentication m
      then emplace SESSION_COOKIE (new_session now SESSION_COOKIE ''Anonymous'') m else m)"

text \<open>\<open>find(c, pos)\<close>.\<close>

definition find_from :: "char \<Rightarrow> nat \<Rightarrow> string \<Rightarrow> nat option" where
  "find_from c pos s = map_option (\<lambda>i. pos + i) (strchr (drop pos s) c)"

text \<open>The loop over the cookies of the header.\<close>

fun session_identifier :: "string list \<Rightarrow> string" where
  "session_identifier [] = []"
| "session_identifier (cookie # rest) =
     (if strstr cookie SESSION_COOKIE \<noteq> None then
        (case find_from (CHR ''='') (length SESSION_COOKIE) cookie of
           Some equalLoc \<Rightarrow> drop (equalLoc + 1) cookie
         | None \<Rightarrow> session_identifier rest)
      else session_identifier rest)"

text \<open>Without authentication the default session is dereferenced, whether it is there or not.\<close>

definition getSessionCookie :: "session_manager \<Rightarrow> string option \<Rightarrow> fault + string option" where
  "getSessionCookie m cookieHeader =
     (if \<not> isRequiringAuthentication m then
        (if map_of (sessions m) SESSION_COOKIE = None then Inl Null_Deref else Inr (Some SESSION_COOKIE))
      else
        case cookieHeader of
          None \<Rightarrow> Inr None
        | Some header \<Rightarrow>
            let identifier = session_identifier (split_on (CHR '';'') header) in
            if identifier = [] then Inr None
            else if map_of (sessions m) identifier = None then Inr None
            else Inr (Some identifier))"

text \<open>Reading through a \<open>Session*\<close>.\<close>

definition access_session :: "session_manager \<Rightarrow> string option \<Rightarrow> fault + session" where
  "access_session m p =
     (case p of
        None \<Rightarrow> Inl Null_Deref
      | Some k \<Rightarrow> (case map_of (sessions m) k of None \<Rightarrow> Inl Use_After_Free | Some s \<Rightarrow> Inr s))"

definition expired :: "nat \<Rightarrow> session_manager \<Rightarrow> session \<Rightarrow> bool" where
  "expired now m s \<longleftrightarrow> now \<ge> lastHit s + auth_lifetime (authEngine m)"

definition isValid :: "nat \<Rightarrow> session_manager \<Rightarrow> string option \<Rightarrow> fault + bool" where
  "isValid now m p =
     (if \<not> isRequiringAuthentication m then Inr True
      else if p = None then Inr False
      else bindC (access_session m p) (\<lambda>s. Inr (\<not> expired now m s)))"

definition cleanupOldSessions :: "nat \<Rightarrow> session_manager \<Rightarrow> session_manager" where
  "cleanupOldSessions now m =
     (if length (sessions m) > SessionClearThreshold
      then m\<lparr>sessions := filter (\<lambda>(_, s). \<not> isRequiringAuthentication m \<or> \<not> expired now m s) (sessions m)\<rparr>
      else m)"

definition destroySessionCookie ::
    "nat \<Rightarrow> string option \<Rightarrow> session_manager \<Rightarrow> fault + session_manager" where
  "destroySessionCookie now p m =
     (if p = None then Inr m
      else
        bindC (access_session m p) (\<lambda>s.
        if sessId s = SESSION_COOKIE then Inr m
        else Inr (cleanupOldSessions now (erase (sessId s) m))))"

definition authenticateUserWithNameAndPassword ::
    "nat \<Rightarrow> string \<Rightarrow> string \<Rightarrow> string \<Rightarrow> session_manager \<Rightarrow> string option \<times> session_manager" where
  "authenticateUserWithNameAndPassword now i user password m =
     (if \<not> authenticateUsernamePassword (authEngine m) user password then (None, m)
      else (Some i, emplace i (new_session now i user) m))"

section \<open>The authentication service\<close>

text \<open>The methods of the service for a client whose request has the session \<open>p\<close>.\<close>

datatype service_error = Incorrect_Credentials

definition loginUsernamePassword ::
    "nat \<Rightarrow> string \<Rightarrow> string \<Rightarrow> string \<Rightarrow> session_manager \<Rightarrow>
       fault + (service_error + string) \<times> session_manager" where
  "loginUsernamePassword now i user password m =
     (let (sess, m') = authenticateUserWithNameAndPassword now i user password m in
      bindC (case sess of
               None \<Rightarrow> Inr []
             | Some k \<Rightarrow> bindC (access_session m' (Some k)) (\<lambda>s. Inr (sessId s))) (\<lambda>cookieId.
      Inr (if cookieId = [] then (Inl Incorrect_Credentials, m')
           else (Inr (getSessionCookieName @ ''='' @ cookieId), m'))))"

definition isCurrentSessionValid :: "nat \<Rightarrow> session_manager \<Rightarrow> string option \<Rightarrow> fault + bool" where
  "isCurrentSessionValid now m p = isValid now m p"

definition logout :: "nat \<Rightarrow> string option \<Rightarrow> session_manager \<Rightarrow> fault + (string \<times> session_manager)" where
  "logout now p m =
     bindC (destroySessionCookie now p m) (\<lambda>m. Inr (getSessionCookieName, m))"

definition getLoggedInUser :: "session_manager \<Rightarrow> string option \<Rightarrow> fault + string" where
  "getLoggedInUser m p = bindC (access_session m p) (\<lambda>s. Inr (username s))"

section \<open>The table of sessions\<close>

text \<open>
  Keys are distinct and are the identifiers of their sessions; the default session is there
  exactly when authentication is off.
\<close>

definition manager_ok :: "session_manager \<Rightarrow> bool" where
  "manager_ok m \<longleftrightarrow> distinct (map fst (sessions m)) \<and> (\<forall>(k, s) \<in> set (sessions m). sessId s = k) \<and>
     (\<not> isRequiringAuthentication m \<longrightarrow> map_of (sessions m) SESSION_COOKIE \<noteq> None)"

lemma manager_simps [simp]:
  "authEngine (emplace k v m) = authEngine m" "authEngine (erase k m) = authEngine m"
  "authEngine (cleanupOldSessions now m) = authEngine m"
  "isRequiringAuthentication (emplace k v m) = isRequiringAuthentication m"
  "isRequiringAuthentication (erase k m) = isRequiringAuthentication m"
  "isRequiringAuthentication (cleanupOldSessions now m) = isRequiringAuthentication m"
  by (simp_all add: emplace_def erase_def cleanupOldSessions_def isRequiringAuthentication_def)

lemma map_of_emplace:
  "map_of (sessions (emplace k v m)) =
     (if map_of (sessions m) k = None then (map_of (sessions m))(k \<mapsto> v) else map_of (sessions m))"
  by (auto simp: emplace_def map_add_def fun_eq_iff split: option.splits)

lemma map_of_erase: "map_of (sessions (erase k m)) = (map_of (sessions m))(k := None)"
proof -
  have "map_of (filter (\<lambda>(k', _). k' \<noteq> k) xs) = (map_of xs)(k := None)" for xs :: "(string \<times> session) list"
    by (induction xs) (auto simp: fun_eq_iff)
  then show ?thesis by (simp add: erase_def)
qed

lemma map_of_filter_distinct:
  "distinct (map fst xs) \<Longrightarrow> map_of (filter (\<lambda>(_, v). P v) xs) k =
     (case map_of xs k of Some v \<Rightarrow> if P v then Some v else None | None \<Rightarrow> None)"
proof (induction xs)
  case (Cons x xs)
  obtain a b where x: "x = (a, b)" by (cases x)
  from Cons.prems x have "k = a \<Longrightarrow> map_of xs k = None" by (auto simp: map_of_eq_None_iff)
  with Cons x show ?case by (auto split: option.splits)
qed simp

lemma cleanup_lookup:
  "manager_ok m \<Longrightarrow> map_of (sessions (cleanupOldSessions now m)) k =
     (case map_of (sessions m) k of
        Some s \<Rightarrow> if length (sessions m) > SessionClearThreshold \<and> isRequiringAuthentication m \<and> expired now m s
                  then None else Some s
      | None \<Rightarrow> None)"
  by (auto simp: cleanupOldSessions_def manager_ok_def map_of_filter_distinct split: option.splits)

lemma emplace_ok: "manager_ok m \<Longrightarrow> sessId v = k \<Longrightarrow> manager_ok (emplace k v m)"
  unfolding manager_ok_def
proof (intro conjI)
  assume m: "distinct (map fst (sessions m)) \<and> (\<forall>(k, s) \<in> set (sessions m). sessId s = k) \<and>
     (\<not> isRequiringAuthentication m \<longrightarrow> map_of (sessions m) SESSION_COOKIE \<noteq> None)" and v: "sessId v = k"
  from m show "distinct (map fst (sessions (emplace k v m)))"
    by (auto simp: emplace_def map_of_eq_None_iff)
  from m v show "\<forall>(k', s) \<in> set (sessions (emplace k v m)). sessId s = k'"
    by (auto simp: emplace_def)
  from m show "\<not> isRequiringAuthentication (emplace k v m) \<longrightarrow> map_of (sessions (emplace k v m)) SESSION_COOKIE \<noteq> None"
    by (auto simp: map_of_emplace)
qed

lemma distinct_map_filter: "distinct (map f xs) \<Longrightarrow> distinct (map f (filter P xs))"
  by (induction xs) auto

lemma erase_ok: "manager_ok m \<Longrightarrow> k \<noteq> SESSION_COOKIE \<Longrightarrow> manager_ok (erase k m)"
  unfolding manager_ok_def
proof (intro conjI)
  assume m: "distinct (map fst (sessions m)) \<and> (\<forall>(k, s) \<in> set (sessions m). sessId s = k) \<and>
     (\<not> isRequiringAuthentication m \<longrightarrow> map_of (sessions m) SESSION_COOKIE \<noteq> None)" and k: "k \<noteq> SESSION_COOKIE"
  from m show "distinct (map fst (sessions (erase k m)))" by (simp add: erase_def distinct_map_filter)
  from m show "\<forall>(k', s) \<in> set (sessions (erase k m)). sessId s = k'" by (auto simp: erase_def)
  from m k show "\<not> isRequiringAuthentication (erase k m) \<longrightarrow> map_of (sessions (erase k m)) SESSION_COOKIE \<noteq> None"
    by (auto simp: map_of_erase)
qed

lemma cleanup_ok: "manager_ok m \<Longrightarrow> manager_ok (cleanupOldSessions now m)"
  unfolding manager_ok_def
  by (auto simp: cleanupOldSessions_def distinct_map_filter isRequiringAuthentication_def)

lemma SessionManager_ok: "manager_ok (SessionManager now auth)"
  by (auto simp: SessionManager_def manager_ok_def emplace_def new_session_def Let_def
      isRequiringAuthentication_def)

lemma destroy_ok:
  assumes "manager_ok m" "destroySessionCookie now p m = Inr m'"
  shows "manager_ok m'"
  using assms by (auto simp: destroySessionCookie_def bindC_eq_Inr erase_ok cleanup_ok split: if_splits)

section \<open>Properties\<close>

lemma find_from_cookie:
  assumes "sp = [] \<or> sp = '' ''"
  shows "find_from (CHR ''='') (length SESSION_COOKIE) (sp @ SESSION_COOKIE @ ''='' @ i) =
    Some (length sp + length SESSION_COOKIE)"
  using assms by (auto simp: find_from_def SESSION_COOKIE_def)

lemma session_identifier_skip:
  "\<forall>c \<in> set pre. \<not> sublist SESSION_COOKIE c \<Longrightarrow> session_identifier (pre @ cs) = session_identifier cs"
  by (induction pre) (simp_all add: strstr_None [symmetric])

text \<open>
  A client that logs in and sends the cookie it received back finds its session: the header
  is split at semicolons, the cookie may be preceded by a space, and the other cookies before it
  do not contain the name of the session cookie. The session found is the one of the user who
  logged in, created at that time.
\<close>

theorem login_cookie_roundtrip:
  assumes m: "isRequiringAuthentication m" "map_of (sessions m) i = None" "i \<noteq> []"
    and login: "loginUsernamePassword now i user password m = Inr (Inr c, m')"
    and header: "split_on (CHR '';'') header = pre @ (sp @ c) # post" "sp = [] \<or> sp = '' ''"
    and others: "\<forall>x \<in> set pre. \<not> sublist SESSION_COOKIE x"
  shows "getSessionCookie m' (Some header) = Inr (Some i) \<and>
    access_session m' (Some i) = Inr (new_session now i user) \<and>
    authenticateUsernamePassword (authEngine m) user password"
proof -
  have auth: "authenticateUsernamePassword (authEngine m) user password"
    using login by (auto simp: loginUsernamePassword_def authenticateUserWithNameAndPassword_def
        split: if_splits)
  then have m': "m' = emplace i (new_session now i user) m" and c: "c = SESSION_COOKIE @ ''='' @ i"
    using login m by (auto simp: loginUsernamePassword_def authenticateUserWithNameAndPassword_def
        access_session_def map_of_emplace new_session_def getSessionCookieName_def split: if_splits)
  have "strstr (sp @ c) SESSION_COOKIE \<noteq> None"
    unfolding strstr_None c by (metis not_None_eq sublist_appendI)
  then have "session_identifier (split_on (CHR '';'') header) = i"
    using header(1) find_from_cookie [OF header(2), of i]
    by (simp add: session_identifier_skip [OF others] c)
  then show ?thesis
    using m auth by (simp add: getSessionCookie_def m' map_of_emplace access_session_def Let_def)
qed

definition example_auth :: authentication where
  "example_auth = \<lparr>auth_path = ''/ws/authentication.json'', auth_prompt = [], auth_lifetime = 3600,
     auth_backends = [PlainAuthenticator ''plain'' example_users]\<rparr>"

lemma example_auth_simps [simp]:
  "isEnabled example_auth" "auth_lifetime example_auth = 3600"
  "authenticateUsernamePassword example_auth u p \<longleftrightarrow> u @ '':'' @ p = ''root:pw''"
  by (auto simp: example_auth_def isEnabled_def INVALID_CFG_FILE_PATH_def authenticateUsernamePassword_def
      PlainAuthenticator_def example_users_def plain_format_def)

theorem login_cookie_roundtrip_witness:
  "\<exists>m. loginUsernamePassword 5 ''a1'' ''root'' ''pw'' (SessionManager 0 example_auth) =
       Inr (Inr ''CodeCompass_SESH=a1'', m) \<and>
     getSessionCookie m (Some ''lang=hu; CodeCompass_SESH=a1; x=y'') = Inr (Some ''a1'')"
proof -
  let ?m = "SessionManager 0 example_auth"
  have m: "isRequiringAuthentication ?m" "map_of (sessions ?m) ''a1'' = None" "''a1'' \<noteq> []"
    by (simp_all add: SessionManager_def isRequiringAuthentication_def Let_def)
  obtain m' where l: "loginUsernamePassword 5 ''a1'' ''root'' ''pw'' ?m = Inr (Inr ''CodeCompass_SESH=a1'', m')"
    using m by (simp add: loginUsernamePassword_def authenticateUserWithNameAndPassword_def
        access_session_def map_of_emplace new_session_def getSessionCookieName_def SESSION_COOKIE_def
        SessionManager_def Let_def isRequiringAuthentication_def)
  have h: "split_on (CHR '';'') ''lang=hu; CodeCompass_SESH=a1; x=y'' =
      [''lang=hu''] @ ('' '' @ ''CodeCompass_SESH=a1'') # ['' x=y'']" by code_simp
  have "strstr ''lang=hu'' SESSION_COOKIE = None" by code_simp
  then have sub: "\<not> sublist SESSION_COOKIE ''lang=hu''" unfolding strstr_None .
  from login_cookie_roundtrip [OF m l h] l sub show ?thesis by simp
qed

text \<open>
  Logging out removes the session of the request and no valid session: afterwards its
  identifier finds nothing, and another session is kept unless it has expired and more than 16
  sessions were stored. The default session of a server without authentication is never removed.
\<close>

theorem logout_effect:
  assumes "manager_ok m" and "logout now (Some k) m = Inr (name, m')"
  shows "manager_ok m' \<and>
    (k \<noteq> SESSION_COOKIE \<longrightarrow> map_of (sessions m') k = None) \<and>
    (\<forall>j s. j \<noteq> k \<or> k = SESSION_COOKIE \<longrightarrow> map_of (sessions m) j = Some s \<longrightarrow>
       map_of (sessions m') j = Some s \<or>
       expired now m s \<and> isRequiringAuthentication m \<and> length (sessions m) > 16)"
proof -
  from assms(2) obtain s where s: "map_of (sessions m) k = Some s"
      "m' = (if sessId s = SESSION_COOKIE then m else cleanupOldSessions now (erase (sessId s) m))"
    by (auto simp: logout_def destroySessionCookie_def access_session_def bindC_eq_Inr
        split: option.splits if_splits)
  have id: "sessId s = k" using assms(1) s(1) by (auto simp: manager_ok_def dest: map_of_SomeD)
  show ?thesis
  proof (cases "k = SESSION_COOKIE")
    case True
    with s id assms(1) show ?thesis by simp
  next
    case False
    then have ok: "manager_ok (erase k m)" by (rule erase_ok [OF assms(1)])
    have m': "m' = cleanupOldSessions now (erase k m)" using s(2) id False by simp
    have "length (sessions (erase k m)) \<le> length (sessions m)" by (simp add: erase_def)
    then show ?thesis
      using False cleanup_ok [OF ok] cleanup_lookup [OF ok, of now]
      by (auto simp: m' map_of_erase SessionClearThreshold_def expired_def split: option.splits)
  qed
qed

theorem logout_effect_witness:
  "\<exists>m. logout 7 (Some ''a1'') (emplace ''a1'' (new_session 5 ''a1'' ''root'') (SessionManager 0 example_auth)) =
       Inr (SESSION_COOKIE, m) \<and> map_of (sessions m) ''a1'' = None"
proof -
  let ?m = "emplace ''a1'' (new_session 5 ''a1'' ''root'') (SessionManager 0 example_auth)"
  have ok: "manager_ok ?m" by (rule emplace_ok [OF SessionManager_ok]) (simp add: new_session_def)
  have "map_of (sessions ?m) ''a1'' = Some (new_session 5 ''a1'' ''root'')"
    by (simp add: map_of_emplace SessionManager_def Let_def isRequiringAuthentication_def)
  then obtain m' where l: "logout 7 (Some ''a1'') ?m = Inr (SESSION_COOKIE, m')"
    by (simp add: logout_def destroySessionCookie_def access_session_def new_session_def
        SESSION_COOKIE_def getSessionCookieName_def)
  have "''a1'' \<noteq> SESSION_COOKIE" by (simp add: SESSION_COOKIE_def)
  with logout_effect [OF ok l] l show ?thesis by auto
qed

end
