(* ===== verification/CppString.thy ===== *)
theory CppString
  imports CPrelude
begin

text \<open>
  The operations of \<open>std::string\<close> that the C++ components use. A position is a 64-bit number:
  \<open>npos\<close> is \<open>SIZE_MAX\<close>, sums and differences are taken modulo \<open>SIZE_MAX + 1\<close>, and a position behind
  the end makes \<open>substr\<close> and \<open>erase\<close> throw (\<open>Out_Of_Bounds\<close>).
\<close>

section \<open>Positions\<close>

definition size_add :: "nat \<Rightarrow> nat \<Rightarrow> nat" where
  "size_add a b = (a + b) mod (SIZE_MAX + 1)"

definition size_sub :: "nat \<Rightarrow> nat \<Rightarrow> nat" where
  "size_sub a b = (a + (SIZE_MAX + 1) - b) mod (SIZE_MAX + 1)"

lemma size_sub_le: "b \<le> a \<Longrightarrow> a \<le> SIZE_MAX \<Longrightarrow> size_sub a b = a - b"
proof -
  assume "b \<le> a" "a \<le> SIZE_MAX"
  then have "a + (SIZE_MAX + 1) - b = (a - b) + (SIZE_MAX + 1)" "a - b < SIZE_MAX + 1" by simp_all
  then show ?thesis unfolding size_sub_def by (metis mod_add_self2 mod_less)
qed

text \<open>The length of a string is at most \<open>max_size\<close>.\<close>

definition max_size :: nat where "max_size = 9223372036854775807"

lemma max_size_bound: "n \<le> max_size \<Longrightarrow> n < SIZE_MAX" "n \<le> max_size \<Longrightarrow> 2 * n < SIZE_MAX"
  by (simp_all add: max_size_def SIZE_MAX_def)

lemma size_add_small: "a + b \<le> SIZE_MAX \<Longrightarrow> size_add a b = a + b"
  by (simp add: size_add_def)

section \<open>Searching, cutting and replacing\<close>

text \<open>\<open>find\<close> of a character and of a string, from a position on.\<close>

definition str_find :: "char \<Rightarrow> nat \<Rightarrow> string \<Rightarrow> nat" where
  "str_find c pos s =
     (case strchr (drop pos s) c of None \<Rightarrow> SIZE_MAX | Some i \<Rightarrow> pos + i)"

definition find_at :: "string \<Rightarrow> nat \<Rightarrow> string \<Rightarrow> nat" where
  "find_at n pos s =
     (if pos > length s then SIZE_MAX
      else case strstr (drop pos s) n of None \<Rightarrow> SIZE_MAX | Some i \<Rightarrow> pos + i)"

definition substr :: "string \<Rightarrow> nat \<Rightarrow> nat \<Rightarrow> fault + string" where
  "substr s pos n = (if pos > length s then Inl Out_Of_Bounds else Inr (take n (drop pos s)))"

definition str_erase :: "string \<Rightarrow> nat \<Rightarrow> nat \<Rightarrow> fault + string" where
  "str_erase s pos n =
     (if pos > length s then Inl Out_Of_Bounds else Inr (take pos s @ drop (pos + n) s))"

definition str_replace :: "string \<Rightarrow> nat \<Rightarrow> nat \<Rightarrow> string \<Rightarrow> fault + string" where
  "str_replace s pos n t =
     (if pos > length s then Inl Out_Of_Bounds else Inr (take pos s @ t @ drop (pos + n) s))"

lemma find_at_0: "find_at n 0 s = (case strstr s n of None \<Rightarrow> SIZE_MAX | Some i \<Rightarrow> i)"
  by (simp add: find_at_def split: option.splits)

lemma find_at_npos: "length s < SIZE_MAX \<Longrightarrow> find_at n SIZE_MAX s = SIZE_MAX"
  by (simp add: find_at_def)

lemma str_find_npos: "length s \<le> SIZE_MAX \<Longrightarrow> str_find c SIZE_MAX s = SIZE_MAX"
  by (simp add: str_find_def)

text \<open>The first occurrence of a non-empty needle splits the text.\<close>

lemma strstr_split:
  assumes "strstr s n = Some i"
  shows "s = take i s @ n @ drop (i + length n) s" "\<not> sublist n (butlast (take (i + length n) s)) \<or> n = []"
proof -
  show "s = take i s @ n @ drop (i + length n) s"
    using strstr_SomeD [OF assms] by (metis append_take_drop_id drop_drop add.commute)
  show "\<not> sublist n (butlast (take (i + length n) s)) \<or> n = []"
  proof (rule disjCI)
    assume "n \<noteq> []"
    show "\<not> sublist n (butlast (take (i + length n) s))"
    proof
      assume "sublist n (butlast (take (i + length n) s))"
      then obtain a b where ab: "butlast (take (i + length n) s) = a @ n @ b" by (auto simp: sublist_def)
      have len: "length (butlast (take (i + length n) s)) = i + length n - 1"
        using strstr_Some_le [OF assms] by simp
      with ab have "length a + length n + length b = i + length n - 1" by simp
      with \<open>n \<noteq> []\<close> have lt: "length a < i" by (cases n) auto
      have "butlast (take (i + length n) s) = take (i + length n - 1) s"
        using strstr_Some_le [OF assms] by (simp add: butlast_take)
      with ab have "take (i + length n - 1) s = a @ n @ b" by simp
      then have "take (length n) (drop (length a) (take (i + length n - 1) s)) = n" by simp
      moreover have "take (length n) (drop (length a) (take (i + length n - 1) s)) = take (length n) (drop (length a) s)"
        using lt \<open>n \<noteq> []\<close> by (simp add: drop_take min_def)
      ultimately show False using strstr_least [OF assms lt] by simp
    qed
  qed
qed

lemma strstr_eq_I:
  assumes "take (length n) (drop i s) = n" "i \<le> length s"
    and "\<And>j. j < i \<Longrightarrow> take (length n) (drop j s) \<noteq> n"
  shows "strstr s n = Some i"
proof -
  obtain j where j: "j \<le> i" "strstr s n = Some j" using strstr_at [OF assms(1,2)] by blast
  have "\<not> j < i" using assms(3) [of j] strstr_SomeD [OF j(2)] by blast
  with j show ?thesis by simp
qed

text \<open>The first occurrence does not depend on the text behind it.\<close>

lemma strstr_keep:
  assumes "strstr s n = Some i"
  shows "strstr (take (i + length n) s @ t) n = Some i"
proof (rule strstr_eq_I)
  have le: "i + length n \<le> length s" by (rule strstr_Some_le [OF assms])
  have same: "take (length n) (drop j (take (i + length n) s @ t)) = take (length n) (drop j s)" if "j \<le> i" for j
  proof -
    have "length n \<le> length (take (i + length n - j) (drop j s))" using that le by simp
    moreover have "drop j (take (i + length n) s @ t) = take (i + length n - j) (drop j s) @ t"
      using that le by (simp add: drop_take)
    ultimately show ?thesis using that by (simp add: min_def)
  qed
  show "take (length n) (drop i (take (i + length n) s @ t)) = n"
    using same [of i] strstr_SomeD [OF assms] by simp
  show "i \<le> length (take (i + length n) s @ t)" using le by simp
  show "take (length n) (drop j (take (i + length n) s @ t)) \<noteq> n" if "j < i" for j
    using same [of j] strstr_least [OF assms that] that by simp
qed

text \<open>A character that is not in the needle separates a text without it from the rest.\<close>

lemma strstr_barrier:
  assumes "strstr a n = None" "c \<notin> set n"
  shows "strstr (a @ c # s) n = map_option (\<lambda>i. length a + 1 + i) (strstr s n)"
  using assms(1)
proof (induction a)
  case Nil
  then have "n \<noteq> []" by auto
  then have "take (length n) (c # s) \<noteq> n" using assms(2) by (cases n) auto
  then show ?case by (simp add: comp_def)
next
  case (Cons x a)
  have "take (length n) (x # a @ c # s) \<noteq> n"
  proof
    assume t: "take (length n) (x # a @ c # s) = n"
    show False
    proof (cases "length n \<le> length (x # a)")
      case True
      have "take (length n) ((x # a) @ c # s) = take (length n) (x # a)"
        using True by (simp only: take_append) simp
      with t have "take (length n) (x # a) = n" by simp
      with Cons.prems show False by simp
    next
      case False
      then obtain k where "length n - length (x # a) = Suc k" by (metis Suc_diff_le diff_Suc_Suc not_less_eq_eq Suc_diff_Suc not_le)
      moreover have "take (length n) ((x # a) @ c # s) = take (length n) (x # a) @ take (length n - length (x # a)) (c # s)"
        by (rule take_append)
      ultimately have "c \<in> set (take (length n) ((x # a) @ c # s))" by simp
      then have "c \<in> set (take (length n) (x # a @ c # s))" by simp
      with t assms(2) show False by simp
    qed
  qed
  moreover have "strstr a n = None" using Cons.prems by (simp split: if_splits)
  ultimately show ?case using Cons.IH by (simp add: option.map_comp comp_def)
qed

section \<open>Numerals\<close>

text \<open>\<open>std::to_string\<close> of an unsigned number.\<close>

fun decimal :: "nat \<Rightarrow> string" where
  "decimal n = (let d = char_of (48 + n mod 10) in if n < 10 then [d] else decimal (n div 10) @ [d])"

declare decimal.simps [simp del]

definition is_digit :: "char \<Rightarrow> bool" where
  "is_digit c \<longleftrightarrow> 48 \<le> (of_char c :: nat) \<and> (of_char c :: nat) \<le> 57"

definition digits_value :: "string \<Rightarrow> nat" where
  "digits_value s = fold (\<lambda>c n. n * 10 + (of_char c - 48)) s 0"

lemma decimal_digits: "list_all is_digit (decimal n) \<and> decimal n \<noteq> []"
proof (induction n rule: decimal.induct)
  case (1 n)
  have "is_digit (char_of (48 + n mod 10))" by (simp add: is_digit_def)
  then show ?case using 1 by (subst (1 2) decimal.simps) (auto simp: Let_def)
qed

lemma digits_value_snoc: "digits_value (s @ [c]) = digits_value s * 10 + (of_char c - 48)"
  by (simp add: digits_value_def)

lemma digits_value_decimal: "digits_value (decimal n) = n"
proof (induction n rule: decimal.induct)
  case (1 n)
  show ?case
  proof (cases "n < 10")
    case True
    then show ?thesis by (subst decimal.simps) (simp add: digits_value_def)
  next
    case False
    then have "digits_value (decimal (n div 10)) = n div 10" using 1 by simp
    then show ?thesis using False by (subst decimal.simps) (simp add: Let_def digits_value_snoc)
  qed
qed

lemma decimal_inject [simp]: "decimal m = decimal n \<longleftrightarrow> m = n"
  by (metis digits_value_decimal)

lemma decimal_no_separator: "\<not> is_digit c \<Longrightarrow> c \<notin> set (decimal n)"
  using decimal_digits [of n] by (auto simp: list_all_iff)

end
