(* ===== verification/WebServer.thy ===== *)
theory WebServer
  imports WebSession CppString
begin

text \<open>
  The request handler of the web server (\<^verbatim>\<open>webserver/src/mainrequesthandler.cpp\<close>) and the
  server as a step relation: several threads handle requests over one session manager.

  \<open>web_step\<close> interleaves the threads at the points where a thread holds a \<open>Session*\<close> without the
  lock: after the lookup of the cookie, and while a handler runs with the session as the current
  one of its thread. A step that reads through a null or dangling pointer crashes the server.
\<close>

section \<open>Requests\<close>

definition UnprotectedFirstDirectories :: "string list" where
  "UnprotectedFirstDirectories =
     [''doxygen/'', ''fonts/'', ''images/'', ''scripts/'', ''style/'', ''userguide/'',
      ''favicon.ico'', ''login.html'', ''ga.txt'']"

definition isProtected :: "string \<Rightarrow> bool" where
  "isProtected uri0 =
     (let uri = drop 1 uri0 in
      \<not> list_ex (\<lambda>e. strstr uri e = Some 0) UnprotectedFirstDirectories)"

datatype mg_result = MG_FALSE | MG_TRUE | MG_MORE

text \<open>What is sent to the client before the result is returned to the HTTP library.\<close>

datatype reply = No_Reply | Plugin_Reply string | Send_File string | Not_Found | See_Other string

text \<open>\<open>dataDir[ws]\<close> inserts an empty directory for an unknown workspace.\<close>

definition getDocDirByURI ::
    "(string \<Rightarrow> string option) \<Rightarrow> string \<Rightarrow> fault + (string \<times> (string \<Rightarrow> string option))" where
  "getDocDirByURI dataDir uri =
     (if uri = [] then Inr ([], dataDir)
      else
        let uri = (if last uri = CHR ''/'' then butlast uri else uri);
            pos1 = str_find (CHR ''/'') 0 uri;
            pos2 = str_find (CHR ''/'') (size_add pos1 1) uri
        in
        bindC (substr uri (size_add pos1 1) (size_sub (size_sub pos2 pos1) 1)) (\<lambda>ws.
        bindC (if pos2 \<noteq> SIZE_MAX then substr uri pos2 SIZE_MAX else Inr []) (\<lambda>file.
        let dataDir = (if dataDir ws = None then dataDir(ws \<mapsto> []) else dataDir) in
        Inr ((case dataDir ws of Some d \<Rightarrow> d | None \<Rightarrow> []) @ ''/docs'' @ file, dataDir))))"

record handler =
  hd_plugins :: "string \<Rightarrow> bool"
  hd_dataDir :: "string \<Rightarrow> string option"
  hd_gaTrackingIdPath :: string

definition begin_request_handler :: "handler \<Rightarrow> string \<Rightarrow> fault + (mg_result \<times> reply \<times> handler)" where
  "begin_request_handler h uri0 =
     (let uri = drop 1 uri0 in
      if hd_plugins h uri then Inr (MG_TRUE, Plugin_Reply uri, h)
      else if uri = ''ga.txt'' then
        (if hd_gaTrackingIdPath h \<noteq> [] then Inr (MG_MORE, Send_File (hd_gaTrackingIdPath h), h)
         else Inr (MG_TRUE, Not_Found, h))
      else if strstr uri ''doxygen/'' = Some 0 then
        bindC (getDocDirByURI (hd_dataDir h) uri) (\<lambda>(f, dirs).
        Inr (MG_MORE, Send_File f, h\<lparr>hd_dataDir := dirs\<rparr>))
      else Inr (MG_FALSE, No_Reply, h))"

definition AUTH_SERVICE :: string where "AUTH_SERVICE = ''/AuthenticationService''"

text \<open>\<open>logRequest\<close> reads the user name through the session.\<close>

definition logRequest :: "session_manager \<Rightarrow> string option \<Rightarrow> fault + unit" where
  "logRequest m p = (if p = None then Inr () else bindC (access_session m p) (\<lambda>_. Inr ()))"

text \<open>
  The handler, up to the call of \<open>begin_request_handler\<close>: \<open>Proceed p\<close> calls it with the current
  session \<open>p\<close>.
\<close>

datatype mg_event = MG_AUTH | MG_REQUEST | MG_OTHER

datatype decision = Return mg_result reply | Proceed "string option"

definition check_request ::
    "nat \<Rightarrow> string \<Rightarrow> string option \<Rightarrow> session_manager \<Rightarrow> fault + (decision \<times> session_manager)" where
  "check_request now uri p m =
     bindC (logRequest m p) (\<lambda>_.
     if uri = AUTH_SERVICE then Inr (Proceed p, m)
     else
       bindC (isValid now m p) (\<lambda>valid.
       if \<not> valid then
         bindC (destroySessionCookie now p m) (\<lambda>m. Inr (Return MG_TRUE (See_Other ''/login.html''), m))
       else Inr (Proceed p, m)))"

definition handle_event ::
    "nat \<Rightarrow> mg_event \<Rightarrow> string \<Rightarrow> string option \<Rightarrow> session_manager \<Rightarrow> fault + (decision \<times> session_manager)" where
  "handle_event now ev uri cookieHeader m =
     (if ev = MG_AUTH then Inr (Return MG_TRUE No_Reply, m)
      else if ev \<noteq> MG_REQUEST then Inr (Return MG_FALSE No_Reply, m)
      else if uri = AUTH_SERVICE then
        bindC (getSessionCookie m cookieHeader) (\<lambda>p. check_request now uri p m)
      else if \<not> isProtected uri then Inr (Proceed None, m)
      else bindC (getSessionCookie m cookieHeader) (\<lambda>p. check_request now uri p m))"

section \<open>The server\<close>

text \<open>
  A thread is idle, has looked up the session of a request, or runs the handler of a request.
  The ghost \<open>sv_logins\<close> has the identifier, user and time of every accepted login, and
  \<open>sv_granted\<close> the protected requests that were let through.
\<close>

datatype thread_state = Idle | Looked string "string option" | Serving string "string option"

record server =
  sv_now :: nat
  sv_mgr :: session_manager
  sv_threads :: "nat \<Rightarrow> thread_state"
  sv_crashed :: bool
  sv_logins :: "(string \<times> string \<times> nat) set"
  sv_granted :: "(string \<times> string option \<times> nat) set"

definition go :: "nat \<Rightarrow> thread_state \<Rightarrow> server \<Rightarrow> server" where
  "go t st s = s\<lparr>sv_threads := (sv_threads s)(t := st)\<rparr>"

definition accepted :: "session_manager \<Rightarrow> string \<Rightarrow> string \<Rightarrow> 'a set \<Rightarrow> 'a set" where
  "accepted m user password xs = (if authenticateUsernamePassword (authEngine m) user password then xs else {})"

definition crash :: "server \<Rightarrow> server" where "crash s = s\<lparr>sv_crashed := True\<rparr>"

inductive web_step :: "server \<Rightarrow> server \<Rightarrow> bool" where
  tick: "\<not> sv_crashed s \<Longrightarrow> web_step s (s\<lparr>sv_now := sv_now s + 1\<rparr>)"
| open_request: "\<not> sv_crashed s \<Longrightarrow> sv_threads s t = Idle \<Longrightarrow> uri \<noteq> AUTH_SERVICE \<Longrightarrow> \<not> isProtected uri \<Longrightarrow>
    web_step s (go t (Serving uri None) s)"
| lookup: "\<not> sv_crashed s \<Longrightarrow> sv_threads s t = Idle \<Longrightarrow> uri = AUTH_SERVICE \<or> isProtected uri \<Longrightarrow>
    getSessionCookie (sv_mgr s) header = Inr p \<Longrightarrow> web_step s (go t (Looked uri p) s)"
| proceed: "\<not> sv_crashed s \<Longrightarrow> sv_threads s t = Looked uri p \<Longrightarrow>
    check_request (sv_now s) uri p (sv_mgr s) = Inr (Proceed q, m) \<Longrightarrow>
    web_step s (go t (Serving uri q) (s\<lparr>sv_mgr := m,
      sv_granted := (if uri = AUTH_SERVICE then {} else {(uri, q, sv_now s)}) \<union> sv_granted s\<rparr>))"
| refuse: "\<not> sv_crashed s \<Longrightarrow> sv_threads s t = Looked uri p \<Longrightarrow>
    check_request (sv_now s) uri p (sv_mgr s) = Inr (Return r x, m) \<Longrightarrow>
    web_step s (go t Idle (s\<lparr>sv_mgr := m\<rparr>))"
| check_crash: "\<not> sv_crashed s \<Longrightarrow> sv_threads s t = Looked uri p \<Longrightarrow>
    check_request (sv_now s) uri p (sv_mgr s) = Inl e \<Longrightarrow> web_step s (crash s)"
| login: "\<not> sv_crashed s \<Longrightarrow> sv_threads s t = Serving AUTH_SERVICE p \<Longrightarrow>
    loginUsernamePassword (sv_now s) i user password (sv_mgr s) = Inr (r, m) \<Longrightarrow>
    web_step s (s\<lparr>sv_mgr := m,
      sv_logins := accepted (sv_mgr s) user password {(i, user, sv_now s)} \<union> sv_logins s\<rparr>)"
| log_out: "\<not> sv_crashed s \<Longrightarrow> sv_threads s t = Serving AUTH_SERVICE p \<Longrightarrow>
    logout (sv_now s) p (sv_mgr s) = Inr (n, m) \<Longrightarrow> web_step s (s\<lparr>sv_mgr := m\<rparr>)"
| logout_crash: "\<not> sv_crashed s \<Longrightarrow> sv_threads s t = Serving AUTH_SERVICE p \<Longrightarrow>
    logout (sv_now s) p (sv_mgr s) = Inl e \<Longrightarrow> web_step s (crash s)"
| who_am_i: "\<not> sv_crashed s \<Longrightarrow> sv_threads s t = Serving AUTH_SERVICE p \<Longrightarrow>
    getLoggedInUser (sv_mgr s) p = Inr u \<Longrightarrow> web_step s s"
| who_am_i_crash: "\<not> sv_crashed s \<Longrightarrow> sv_threads s t = Serving AUTH_SERVICE p \<Longrightarrow>
    getLoggedInUser (sv_mgr s) p = Inl e \<Longrightarrow> web_step s (crash s)"
| finish: "\<not> sv_crashed s \<Longrightarrow> sv_threads s t = Serving uri p \<Longrightarrow> web_step s (go t Idle s)"

definition web_init :: "authentication \<Rightarrow> server \<Rightarrow> bool" where
  "web_init auth s \<longleftrightarrow> sv_mgr s = SessionManager (sv_now s) auth \<and> sv_threads s = (\<lambda>_. Idle) \<and>
     \<not> sv_crashed s \<and> sv_logins s = {} \<and> sv_granted s = {}"

inductive_cases web_stepE: "web_step s t"

lemma go_simps [simp]:
  "sv_now (go t st s) = sv_now s" "sv_mgr (go t st s) = sv_mgr s" "sv_crashed (go t st s) = sv_crashed s"
  "sv_logins (go t st s) = sv_logins s" "sv_granted (go t st s) = sv_granted s"
  "sv_threads (go t st s) = (sv_threads s)(t := st)"
  "sv_now (crash s) = sv_now s" "sv_mgr (crash s) = sv_mgr s" "sv_crashed (crash s)"
  "sv_logins (crash s) = sv_logins s" "sv_granted (crash s) = sv_granted s"
  by (simp_all add: go_def crash_def)

section \<open>The invariant\<close>

text \<open>
  With authentication on, every stored session belongs to a login whose credentials were
  accepted and has the time of that login; every protected request that was let through had
  such a session, less than the lifetime old.
\<close>

definition backed :: "authentication \<Rightarrow> nat \<Rightarrow> (string \<times> string \<times> nat) set \<Rightarrow> session_manager \<Rightarrow> bool" where
  "backed auth now logins m \<longleftrightarrow> authEngine m = auth \<and> manager_ok m \<and>
     (isEnabled auth \<longrightarrow>
       (\<forall>k s. map_of (sessions m) k = Some s \<longrightarrow> (k, username s, lastHit s) \<in> logins))"

definition granted_ok :: "authentication \<Rightarrow> (string \<times> string \<times> nat) set \<Rightarrow> string \<times> string option \<times> nat \<Rightarrow> bool" where
  "granted_ok auth logins = (\<lambda>(uri, p, time). isEnabled auth \<longrightarrow>
     (\<exists>k u t. p = Some k \<and> (k, u, t) \<in> logins \<and> time < t + auth_lifetime auth))"

definition web_inv :: "authentication \<Rightarrow> server \<Rightarrow> bool" where
  "web_inv auth s \<longleftrightarrow> backed auth (sv_now s) (sv_logins s) (sv_mgr s) \<and>
     (\<forall>(i, u, t) \<in> sv_logins s. t \<le> sv_now s \<and> (\<exists>pw. authenticateUsernamePassword auth u pw)) \<and>
     (\<forall>g \<in> sv_granted s. granted_ok auth (sv_logins s) g)"

lemma backed_init: "backed auth now {} (SessionManager now auth)"
  by (auto simp: backed_def SessionManager_ok)
    (auto simp: SessionManager_def isRequiringAuthentication_def Let_def)

lemma backed_mono: "backed auth now ls m \<Longrightarrow> ls \<subseteq> ls' \<Longrightarrow> backed auth now' ls' m"
  by (auto simp: backed_def)

lemma backed_destroy:
  assumes b: "backed auth now ls m" and d: "destroySessionCookie now p m = Inr m'"
  shows "backed auth now' ls m'"
proof -
  have ok: "manager_ok m" using b by (simp add: backed_def)
  have sub: "map_of (sessions m') k = Some s \<Longrightarrow> map_of (sessions m) k = Some s" for k s
  proof -
    assume a: "map_of (sessions m') k = Some s"
    from d consider "m' = m" | j where "j \<noteq> SESSION_COOKIE" "m' = cleanupOldSessions now (erase j m)"
      by (auto simp: destroySessionCookie_def bindC_eq_Inr split: if_splits)
    then show ?thesis
    proof cases
      case 2
      from cleanup_lookup [OF erase_ok [OF ok 2(1)], of now k] a 2(2) show ?thesis
        by (auto simp: map_of_erase split: option.splits if_splits)
    qed (use a in simp)
  qed
  have "authEngine m' = authEngine m"
    using d by (auto simp: destroySessionCookie_def bindC_eq_Inr split: if_splits)
  with b sub destroy_ok [OF ok d] show ?thesis by (auto simp: backed_def)
qed

lemma check_request_cases:
  assumes "check_request now uri p m = Inr (d, m')"
  shows "m' = m \<or> destroySessionCookie now p m = Inr m'"
    and "d = Proceed q \<Longrightarrow> m' = m \<and> q = p \<and> (uri \<noteq> AUTH_SERVICE \<longrightarrow> isValid now m p = Inr True)"
  using assms by (auto simp: check_request_def bindC_eq_Inr split: if_splits)

lemma isValid_backed:
  assumes b: "backed auth now ls m" and v: "isValid now m p = Inr True"
  shows "granted_ok auth ls (uri, p, now)"
proof -
  have "isEnabled auth \<Longrightarrow> \<exists>k s. p = Some k \<and> map_of (sessions m) k = Some s \<and> \<not> expired now m s"
    using b v by (auto simp: isValid_def backed_def isRequiringAuthentication_def access_session_def
        bindC_eq_Inr split: if_splits option.splits)
  with b show ?thesis
    by (auto simp: granted_ok_def backed_def expired_def not_le) blast
qed

lemma backed_login:
  assumes b: "backed auth now ls m"
    and l: "loginUsernamePassword now i user password m = Inr (r, m')"
  shows "backed auth now' (accepted m user password {(i, user, now)} \<union> ls) m'"
proof (cases "authenticateUsernamePassword auth user password")
  case False
  with b l have "m' = m"
    by (auto simp: loginUsernamePassword_def authenticateUserWithNameAndPassword_def backed_def)
  with b show ?thesis by (auto intro: backed_mono)
next
  case True
  with b l have m': "m' = emplace i (new_session now i user) m"
    by (auto simp: loginUsernamePassword_def authenticateUserWithNameAndPassword_def backed_def
        bindC_eq_Inr split: if_splits)
  have "manager_ok m'"
    unfolding m' by (rule emplace_ok) (use b in \<open>auto simp: backed_def new_session_def\<close>)
  with True b show ?thesis
    by (auto simp: backed_def accepted_def m' map_of_emplace new_session_def split: if_splits)
qed

lemma granted_ok_mono: "granted_ok auth ls g \<Longrightarrow> ls \<subseteq> ls' \<Longrightarrow> granted_ok auth ls' g"
  by (auto simp: granted_ok_def)

lemma web_inv_init: "web_init auth s \<Longrightarrow> web_inv auth s"
  using backed_init [of auth "sv_now s"] by (simp add: web_init_def web_inv_def)

lemma web_inv_proceed:
  assumes inv: "web_inv auth s" and check: "check_request (sv_now s) uri p (sv_mgr s) = Inr (Proceed q, m)"
  shows "web_inv auth (go t (Serving uri q) (s\<lparr>sv_mgr := m,
      sv_granted := (if uri = AUTH_SERVICE then {} else {(uri, q, sv_now s)}) \<union> sv_granted s\<rparr>))"
proof -
  have m: "m = sv_mgr s" "q = p" "uri \<noteq> AUTH_SERVICE \<longrightarrow> isValid (sv_now s) (sv_mgr s) p = Inr True"
    using check_request_cases(2) [OF check refl] by simp_all
  have b: "backed auth (sv_now s) (sv_logins s) (sv_mgr s)" using inv by (simp add: web_inv_def)
  from inv m isValid_backed [OF b, of p uri] show ?thesis by (auto simp: web_inv_def)
qed

lemma web_inv_mgr:
  assumes "web_inv auth s" and "backed auth (sv_now s) (sv_logins s) m"
  shows "web_inv auth (s\<lparr>sv_mgr := m\<rparr>)"
  using assms by (simp add: web_inv_def)

lemma web_inv_go: "web_inv auth (go t st s) = web_inv auth s" "web_inv auth (crash s) = web_inv auth s"
  by (simp_all add: web_inv_def)

lemma web_inv_step: "web_inv auth s \<Longrightarrow> web_step s t \<Longrightarrow> web_inv auth t"
proof (erule web_stepE, goal_cases)
  case 1
  then show ?case by (auto simp: web_inv_def intro: backed_mono)
next
  case (4 t uri p q m)
  then show ?case using web_inv_proceed by simp
next
  case (5 t uri p r x m)
  then have b: "backed auth (sv_now s) (sv_logins s) (sv_mgr s)" by (simp add: web_inv_def)
  have "backed auth (sv_now s) (sv_logins s) m"
    using check_request_cases(1) [OF 5(5)] backed_destroy [OF b] b by auto
  with 5 show ?case by (simp add: web_inv_go web_inv_mgr)
next
  case (7 t p i user password r m)
  then have b: "backed auth (sv_now s) (sv_logins s) (sv_mgr s)" by (simp add: web_inv_def)
  then have "authEngine (sv_mgr s) = auth" by (simp add: backed_def)
  with 7 backed_login [OF b 7(5), of "sv_now s"] show ?case
    by (auto simp: web_inv_def accepted_def intro: granted_ok_mono split: if_splits)
next
  case (8 t p n m)
  then have b: "backed auth (sv_now s) (sv_logins s) (sv_mgr s)" by (simp add: web_inv_def)
  from 8(5) have "destroySessionCookie (sv_now s) p (sv_mgr s) = Inr m"
    by (auto simp: logout_def bindC_eq_Inr)
  with backed_destroy [OF b] 8 show ?case by (simp add: web_inv_mgr)
qed (simp_all add: web_inv_go)

interpretation web: transition_system "web_init auth" web_step "web_inv auth" for auth
  by unfold_locales (auto intro: web_inv_init web_inv_step)

section \<open>Properties\<close>


text \<open>A run of the example server: one login, then a protected page.\<close>

lemma loginUsernamePassword_new:
  assumes "authenticateUsernamePassword (authEngine m) user password" "map_of (sessions m) i = None" "i \<noteq> []"
  shows "loginUsernamePassword now i user password m =
    Inr (Inr (SESSION_COOKIE @ ''='' @ i), emplace i (new_session now i user) m)"
  using assms by (simp add: loginUsernamePassword_def authenticateUserWithNameAndPassword_def
      access_session_def map_of_emplace new_session_def getSessionCookieName_def)

lemma getSessionCookie_own:
  assumes "isRequiringAuthentication m" "map_of (sessions m) i \<noteq> None" "i \<noteq> []" "CHR '';'' \<notin> set i"
  shows "getSessionCookie m (Some (SESSION_COOKIE @ ''='' @ i)) = Inr (Some i)"
proof -
  have semi: "CHR '';'' \<notin> set SESSION_COOKIE" by (simp add: SESSION_COOKIE_def)
  have "split_on (CHR '';'') (SESSION_COOKIE @ ''='' @ i) = [[] @ SESSION_COOKIE @ ''='' @ i]"
    using assms(4) semi by (simp add: split_on_single)
  moreover have "strstr ([] @ SESSION_COOKIE @ ''='' @ i) SESSION_COOKIE \<noteq> None"
    unfolding strstr_None by (metis sublist_appendI)
  moreover have "find_from (CHR ''='') (length SESSION_COOKIE) ([] @ SESSION_COOKIE @ ''='' @ i) = Some (length SESSION_COOKIE)"
    using find_from_cookie [of "[]" i] by simp
  ultimately have "session_identifier (split_on (CHR '';'') (SESSION_COOKIE @ ''='' @ i)) = i"
    by (simp del: split_on.simps)
  with assms show ?thesis by (simp add: getSessionCookie_def Let_def)
qed

definition web_start :: "authentication \<Rightarrow> server" where
  "web_start auth = \<lparr>sv_now = 0, sv_mgr = SessionManager 0 auth, sv_threads = (\<lambda>_. Idle),
     sv_crashed = False, sv_logins = {}, sv_granted = {}\<rparr>"

lemma web_start_init: "web_init auth (web_start auth)"
  by (simp add: web_init_def web_start_def)

lemma enabled_start:
  "isEnabled auth \<Longrightarrow> SessionManager 0 auth = \<lparr>authEngine = auth, sessions = []\<rparr>"
  by (simp add: SessionManager_def isRequiringAuthentication_def Let_def)

text \<open>A client without a cookie reaches the authentication service.\<close>

definition at_service :: "authentication \<Rightarrow> server" where
  "at_service auth = (web_start auth)\<lparr>sv_threads := (\<lambda>_. Idle)(0 := Serving AUTH_SERVICE None)\<rparr>"

lemma at_service_reachable:
  assumes "isEnabled auth"
  shows "reachable (web_init auth) web_step (at_service auth)"
proof -
  let ?s0 = "web_start auth" and ?s1 = "go 0 (Looked AUTH_SERVICE None) (web_start auth)"
  have m: "sv_mgr ?s0 = \<lparr>authEngine = auth, sessions = []\<rparr>"
    using enabled_start [OF assms] by (simp add: web_start_def)
  have "reachable (web_init auth) web_step ?s0" by (rule reachable_init [of "web_init auth", OF web_start_init])
  moreover have "web_step ?s0 ?s1"
    by (rule lookup [where header = None])
      (use assms m in \<open>simp_all add: web_start_def getSessionCookie_def isRequiringAuthentication_def\<close>)
  moreover have "web_step ?s1 (at_service auth)"
    using proceed [of ?s1 0 AUTH_SERVICE None None "sv_mgr ?s1"]
    by (simp add: web_start_def at_service_def check_request_def logRequest_def go_def)
  ultimately show ?thesis by (meson reachable_step)
qed

text \<open>After a login, in the state where the thread is idle again.\<close>

definition logged_in :: "authentication \<Rightarrow> string \<Rightarrow> string \<Rightarrow> server" where
  "logged_in auth i user = (web_start auth)\<lparr>
     sv_mgr := emplace i (new_session 0 i user) (SessionManager 0 auth), sv_logins := {(i, user, 0)}\<rparr>"

lemma logged_in_reachable:
  assumes auth: "isEnabled auth" "authenticateUsernamePassword auth user password" and i: "i \<noteq> []"
  shows "reachable (web_init auth) web_step (logged_in auth i user)"
proof -
  have m: "sv_mgr (at_service auth) = \<lparr>authEngine = auth, sessions = []\<rparr>"
    using enabled_start [OF auth(1)] by (simp add: web_start_def at_service_def)
  let ?m = "emplace i (new_session 0 i user) (SessionManager 0 auth)"
  let ?s = "(at_service auth)\<lparr>sv_mgr := ?m, sv_logins := {(i, user, 0)}\<rparr>"
  have l: "loginUsernamePassword (sv_now (at_service auth)) i user password (sv_mgr (at_service auth)) =
      Inr (Inr (SESSION_COOKIE @ ''='' @ i), ?m)"
    using loginUsernamePassword_new [of "sv_mgr (at_service auth)" user password i] auth i m
      enabled_start [OF auth(1)] by (simp add: at_service_def web_start_def)
  have th: "sv_threads (at_service auth) 0 = Serving AUTH_SERVICE None" "\<not> sv_crashed (at_service auth)"
    by (simp_all add: at_service_def web_start_def)
  have ls: "accepted (sv_mgr (at_service auth)) user password {(i, user, sv_now (at_service auth))} \<union>
      sv_logins (at_service auth) = {(i, user, 0)}"
    using auth(2) m by (simp add: accepted_def) (simp add: at_service_def web_start_def)
  have a: "web_step (at_service auth) ?s"
    using login [OF th(2,1) l] unfolding ls .
  have b: "web_step ?s (logged_in auth i user)"
    using finish [of ?s 0 AUTH_SERVICE None]
    by (simp add: at_service_def logged_in_def web_start_def go_def fun_upd_idem)
  show ?thesis by (rule reachable_step [OF reachable_step [OF at_service_reachable [OF auth(1)] a] b])
qed

text \<open>The thread \<open>t\<close> has looked up the session of a request.\<close>

lemma lookup_reachable:
  assumes r: "reachable (web_init auth) web_step s" and s: "\<not> sv_crashed s" "sv_threads s t = Idle"
    and m: "isRequiringAuthentication (sv_mgr s)" "map_of (sessions (sv_mgr s)) i \<noteq> None"
    and i: "i \<noteq> []" "CHR '';'' \<notin> set i" and uri: "uri = AUTH_SERVICE \<or> isProtected uri"
  shows "reachable (web_init auth) web_step (go t (Looked uri (Some i)) s)"
  by (rule reachable_step [OF r lookup [OF s uri getSessionCookie_own [OF m i]]])

lemma granted_step:
  assumes "\<not> sv_crashed s" "sv_threads s t = Looked uri p" "uri \<noteq> AUTH_SERVICE"
    and "check_request (sv_now s) uri p (sv_mgr s) = Inr (Proceed q, m)"
  shows "\<exists>s'. web_step s s' \<and> (uri, q, sv_now s) \<in> sv_granted s'"
  by (rule exI, rule conjI, rule proceed [OF assms(1,2,4)]) (simp add: assms(3))


text \<open>
  An anonymous client can crash a server with authentication: the authentication service
  needs no session, and \<open>getLoggedInUser\<close> reads the user name through the session pointer without
  a test for null; nobody has to log in for this.
\<close>

theorem anonymous_request_crashes:
  assumes "isEnabled auth"
  shows "\<exists>s. reachable (web_init auth) web_step s \<and> sv_crashed s \<and> sv_logins s = {}"
proof -
  have "web_step (at_service auth) (crash (at_service auth))"
    by (rule who_am_i_crash [where t = 0 and p = None])
      (simp_all add: at_service_def web_start_def getLoggedInUser_def access_session_def)
  from reachable_step [OF at_service_reachable [OF assms] this] show ?thesis
    by (intro exI [of _ "crash (at_service auth)"]) (simp add: at_service_def web_start_def)
qed

theorem anonymous_request_crashes_witness:
  "\<exists>s. reachable (web_init example_auth) web_step s \<and> sv_crashed s \<and> sv_logins s = {}"
  by (rule anonymous_request_crashes) simp

text \<open>
  Sessions are handed out as pointers into the table that are used after the lock is
  released: when a user logs out in one thread while another thread has looked up the same
  session, that thread reads a destroyed session.
\<close>

theorem logout_race:
  assumes auth: "isEnabled auth" "authenticateUsernamePassword auth user password"
    and i: "i \<noteq> []" "CHR '';'' \<notin> set i" "i \<noteq> SESSION_COOKIE" and uri: "isProtected uri"
  shows "\<exists>s p. reachable (web_init auth) web_step s \<and> \<not> sv_crashed s \<and> sv_threads s 1 = Looked uri p \<and>
    check_request (sv_now s) uri p (sv_mgr s) = Inl Use_After_Free"
proof -
  let ?s0 = "logged_in auth i user"
  have r0: "reachable (web_init auth) web_step ?s0" by (rule logged_in_reachable [OF auth i(1)])
  have m: "sv_mgr ?s0 = \<lparr>authEngine = auth, sessions = [(i, new_session 0 i user)]\<rparr>"
    using auth(1) by (simp add: logged_in_def enabled_start emplace_def)
  have s0: "\<not> sv_crashed ?s0" "sv_threads ?s0 = (\<lambda>_. Idle)" by (simp_all add: logged_in_def web_start_def)
  have req: "isRequiringAuthentication (sv_mgr ?s0)" using auth(1) m by (simp add: isRequiringAuthentication_def)
  have there: "map_of (sessions (sv_mgr ?s0)) i \<noteq> None" by (simp add: m)
  define s1 where "s1 = go 1 (Looked uri (Some i)) ?s0"
  have r1: "reachable (web_init auth) web_step s1"
    unfolding s1_def by (rule lookup_reachable [OF r0 s0(1) _ req there i(1,2)]) (use uri s0 in simp_all)
  have s1: "\<not> sv_crashed s1" "sv_threads s1 0 = Idle" "sv_mgr s1 = sv_mgr ?s0"
    using s0 by (simp_all add: s1_def)
  define s2 where "s2 = go 0 (Looked AUTH_SERVICE (Some i)) s1"
  have r2: "reachable (web_init auth) web_step s2"
    unfolding s2_def by (rule lookup_reachable [OF r1 s1(1,2) _ _ i(1,2)]) (use req there s1 in simp_all)
  have s2: "\<not> sv_crashed s2" "sv_threads s2 0 = Looked AUTH_SERVICE (Some i)" "sv_mgr s2 = sv_mgr ?s0"
      "sv_threads s2 1 = Looked uri (Some i)"
    using s1 by (simp_all add: s2_def s1_def)
  have c: "check_request (sv_now s2) AUTH_SERVICE (Some i) (sv_mgr s2) = Inr (Proceed (Some i), sv_mgr s2)"
    by (simp add: check_request_def logRequest_def access_session_def s2(3) m)
  define s3 where "s3 = go 0 (Serving AUTH_SERVICE (Some i)) (s2\<lparr>sv_mgr := sv_mgr s2,
      sv_granted := (if AUTH_SERVICE = AUTH_SERVICE then {} else {(AUTH_SERVICE, Some i, sv_now s2)}) \<union> sv_granted s2\<rparr>)"
  have r3: "reachable (web_init auth) web_step s3"
    using r2 proceed [OF s2(1,2) c] unfolding s3_def by (rule reachable_step)
  have s3: "\<not> sv_crashed s3" "sv_threads s3 0 = Serving AUTH_SERVICE (Some i)" "sv_mgr s3 = sv_mgr ?s0"
      "sv_threads s3 1 = Looked uri (Some i)"
    using s2 by (simp_all add: s3_def)
  have out: "logout (sv_now s3) (Some i) (sv_mgr s3) = Inr (SESSION_COOKIE, \<lparr>authEngine = auth, sessions = []\<rparr>)"
    using i(3) by (simp add: s3(3) m logout_def destroySessionCookie_def access_session_def new_session_def
        erase_def cleanupOldSessions_def getSessionCookieName_def)
  define s4 where "s4 = s3\<lparr>sv_mgr := \<lparr>authEngine = auth, sessions = []\<rparr>\<rparr>"
  have r4: "reachable (web_init auth) web_step s4"
    using r3 log_out [OF s3(1,2) out] unfolding s4_def by (rule reachable_step)
  have s4: "\<not> sv_crashed s4" "sv_threads s4 1 = Looked uri (Some i)"
    "sv_mgr s4 = \<lparr>authEngine = auth, sessions = []\<rparr>"
    using s3 by (simp_all add: s4_def)
  have "check_request (sv_now s4) uri (Some i) (sv_mgr s4) = Inl Use_After_Free"
    by (simp add: s4(3) check_request_def logRequest_def access_session_def)
  with r4 s4(1,2) show ?thesis by blast
qed

theorem logout_race_witness:
  "\<exists>s p. reachable (web_init example_auth) web_step s \<and> \<not> sv_crashed s \<and> sv_threads s 1 = Looked ''/index.html'' p \<and>
    check_request (sv_now s) ''/index.html'' p (sv_mgr s) = Inl Use_After_Free"
proof (rule logout_race [where i = "''a1''" and user = "''root''" and password = "''pw''"])
  show "isProtected ''/index.html''" by code_simp
  show "authenticateUsernamePassword example_auth ''root'' ''pw''" by simp
qed (simp_all add: SESSION_COOKIE_def)

lemma str_find_simps:
  "CHR ''/'' \<notin> set a \<Longrightarrow> str_find (CHR ''/'') 0 (a @ CHR ''/'' # b) = length a"
  "CHR ''/'' \<notin> set a \<Longrightarrow> str_find (CHR ''/'') 0 a = SIZE_MAX"
  "CHR ''/'' \<notin> set b \<Longrightarrow> n = length a + 1 \<Longrightarrow> str_find (CHR ''/'') n (a @ CHR ''/'' # b @ CHR ''/'' # c) = n + length b"
  "CHR ''/'' \<notin> set b \<Longrightarrow> n = length a + 1 \<Longrightarrow> str_find (CHR ''/'') n (a @ CHR ''/'' # b) = SIZE_MAX"
  by (simp_all add: str_find_def strchr_first strchr_None [THEN iffD2])

text \<open>
  Documents: for a URI \<open>doxygen/ws/file\<close> the file is looked for under the data directory of
  the workspace \<open>ws\<close>; the positions never make \<open>substr\<close> throw, although the position after the
  last slash of a URI without one wraps around to 0; a URI with only the prefix reads the entry
  \<open>doxygen\<close> of the table.
\<close>

theorem document_path:
  assumes "CHR ''/'' \<notin> set ws" "file \<noteq> [] \<Longrightarrow> last file \<noteq> CHR ''/''"
    and "length ws + length file < 2 ^ 32" and "dirs ws = Some d" and "dirs ''doxygen'' = None"
  shows "getDocDirByURI dirs (''doxygen/'' @ ws @ ''/'' @ file) =
      Inr (d @ ''/docs'' @ (if file = [] then [] else ''/'' @ file), dirs) \<and>
    getDocDirByURI dirs ''doxygen/'' = Inr (''/docs'', dirs(''doxygen'' \<mapsto> []))"
proof
  have pre: "''doxygen/'' @ x = ''doxygen'' @ CHR ''/'' # x" for x by simp
  have no: "CHR ''/'' \<notin> set ''doxygen''" by simp
  show "getDocDirByURI dirs ''doxygen/'' = Inr (''/docs'', dirs(''doxygen'' \<mapsto> []))"
    using assms(5) by (simp add: getDocDirByURI_def str_find_def size_add_def size_sub_def substr_def SIZE_MAX_def Let_def)
  show "getDocDirByURI dirs (''doxygen/'' @ ws @ ''/'' @ file) =
      Inr (d @ ''/docs'' @ (if file = [] then [] else ''/'' @ file), dirs)"
  proof (cases "file = []")
    case True
    let ?u = "''doxygen'' @ CHR ''/'' # ws"
    have "str_find (CHR ''/'') 0 ?u = 7" "str_find (CHR ''/'') 8 ?u = SIZE_MAX"
      using str_find_simps(1) [OF no, of ws] str_find_simps(4) [OF assms(1), of 8 "''doxygen''"] by simp_all
    moreover have "size_add 7 1 = 8" "size_sub (size_sub SIZE_MAX 7) 1 = SIZE_MAX - 8"
      by (simp_all add: size_add_def size_sub_def SIZE_MAX_def)
    moreover have "take (SIZE_MAX - 8) ws = ws" using assms(3) by (simp add: SIZE_MAX_def)
    ultimately show ?thesis
      using True assms(4) by (simp add: getDocDirByURI_def substr_def Let_def butlast_append)
  next
    case False
    let ?u = "''doxygen'' @ CHR ''/'' # ws @ CHR ''/'' # file"
    have "str_find (CHR ''/'') 0 ?u = 7" "str_find (CHR ''/'') 8 ?u = 8 + length ws"
      using str_find_simps(1) [OF no, of "ws @ CHR ''/'' # file"] str_find_simps(3) [where a = "''doxygen''" and c = "file" and n = 8, OF assms(1)]
      by simp_all
    moreover have "size_add 7 1 = 8" "size_sub (size_sub (8 + length ws) 7) 1 = length ws" "8 + length ws \<noteq> SIZE_MAX"
      using assms(3) by (simp_all add: size_add_def size_sub_le SIZE_MAX_def)
    moreover have "drop (8 + length ws) ?u = CHR ''/'' # file"
      by (subst add.commute, subst drop_drop [symmetric]) simp
    moreover have "take SIZE_MAX (CHR ''/'' # file) = CHR ''/'' # file" using assms(3) by (simp add: SIZE_MAX_def)
    ultimately show ?thesis
      using False assms(2,4) by (simp add: getDocDirByURI_def substr_def Let_def)
  qed
qed

theorem document_path_witness:
  "getDocDirByURI [''ws'' \<mapsto> ''/data/ws''] ''doxygen/ws/html/index.html'' =
     Inr (''/data/ws/docs/html/index.html'', [''ws'' \<mapsto> ''/data/ws''])"
  using document_path [of "''ws''" "''html/index.html''" "[''ws'' \<mapsto> ''/data/ws'']" "''/data/ws''"] by simp

end
