(* ===== verification/UtilDb.thy ===== *)
theory UtilDb
  imports CppString
begin

text \<open>
  \<^verbatim>\<open>util/src/dbutil.cpp\<close>: connection strings, the pool of open databases, and the passes over the
  SQL files that create tables and indexes.

  The build is for one of two databases (\<open>backend\<close>). The ODB classes and the PostgreSQL server are
  parameters: \<open>dbms\<close> says which option lists open a database, which databases answer a
  transaction, and which names the server knows. A regular expression \<open>begin([\s\S]*?)end\n?\<close> with
  literal \<open>begin\<close> and \<open>end\<close> is the search for the first \<open>begin\<close> and the next \<open>end\<close> after it.
\<close>

section \<open>Connection strings\<close>

datatype backend = Sqlite | Pgsql

text \<open>
  The loop of \<open>createOdbOptions\<close>: \<open>home\<close> is the environment variable HOME, \<open>pass\<close> the value of
  PGPASSFILE, which the loop may set even if it then finds a malformed option.
\<close>

fun odb_options ::
    "backend \<Rightarrow> string option \<Rightarrow> string list \<Rightarrow> string option \<Rightarrow> string list \<Rightarrow>
       string list option \<times> string option" where
  "odb_options be home [] pass opts = (Some opts, pass)"
| "odb_options be home (opt # connOpts) pass opts =
     (if opt = [] then odb_options be home connOpts pass opts
      else
        case strchr opt (CHR ''='') of
          None \<Rightarrow> (None, pass)
        | Some assignPos \<Rightarrow>
            let val = drop (assignPos + 1) opt;
                opt = take assignPos opt
            in
            if be = Pgsql \<and> opt = ''passwdfile'' then odb_options be home connOpts (Some val) opts
            else
              let val =
                (if be = Sqlite \<and> opt = ''database'' \<and> take 2 val = ''~/'' then
                   (case home of None \<Rightarrow> val | Some h \<Rightarrow> h @ drop 1 val)
                 else val)
              in
              odb_options be home connOpts pass
                (opts @ [''--'' @ opt] @ (if val \<noteq> [] then [val] else [])))"

definition createOdbOptions ::
    "backend \<Rightarrow> string option \<Rightarrow> string \<Rightarrow> string option \<Rightarrow> string list option \<times> string option" where
  "createOdbOptions be home connStr pass = odb_options be home (split_on (CHR '';'') connStr) pass ['' '']"

text \<open>The C arrays made for ODB: a NULL pointer ends the array and a NUL each string.\<close>

definition createCStyleOptions :: "string list \<Rightarrow> string option list" where
  "createCStyleOptions opts = map (\<lambda>s. Some (s @ [NUL])) opts @ [None]"

text \<open>A \<open>size_t\<close> that is stored in an \<open>int\<close> and used as a \<open>size_t\<close> again.\<close>

definition through_int :: "nat \<Rightarrow> nat" where
  "through_int n =
     (if n mod 2 ^ 32 < 2 ^ 31 then n mod 2 ^ 32 else SIZE_MAX + 1 - 2 ^ 32 + n mod 2 ^ 32)"

definition updateConnectionString :: "string \<Rightarrow> string \<Rightarrow> string \<Rightarrow> fault + string" where
  "updateConnectionString connStr key val =
     (let prefix = key @ ''='';
          pos1 = find_at prefix 0 connStr
      in
      if pos1 = SIZE_MAX then
        bindC (if connStr = [] then Inl Out_Of_Bounds else Inr (last connStr)) (\<lambda>back.
        Inr ((if back \<noteq> CHR '':'' \<and> connStr \<noteq> [] then connStr @ '';'' else connStr) @ prefix @ val))
      else
        let pos2 = str_find (CHR '';'') (size_add pos1 1) connStr;
            pos2 = (if pos2 = SIZE_MAX then length connStr else pos2);
            pos3 = through_int (size_add pos1 (length prefix))
        in str_replace connStr pos3 (size_sub pos2 pos3) val)"

definition connStrComponent :: "string \<Rightarrow> string \<Rightarrow> fault + string" where
  "connStrComponent connStr key =
     (let prefix = key @ ''='';
          pos1 = find_at prefix 0 connStr
      in
      if pos1 = SIZE_MAX then Inr []
      else
        let pos2 = str_find (CHR '';'') (size_add pos1 1) connStr;
            pos3 = size_add pos1 (length prefix);
            pos2 = (if pos2 = SIZE_MAX then length connStr else pos2)
        in substr connStr pos3 (size_sub pos2 pos3))"

section \<open>Open databases\<close>

text \<open>
  \<open>db_open\<close> gives the handle of an SQLite database for the options and the flag to create it,
  \<open>pg_open\<close> the one of a PostgreSQL database; \<open>pg_connect\<close> tells whether the server accepts a
  connection with these options, and \<open>answers\<close> whether a transaction can be started.
\<close>

record 'db dbms =
  db_open :: "string list \<Rightarrow> bool \<Rightarrow> 'db option"
  pg_open :: "string list \<Rightarrow> 'db"
  pg_connect :: "string list \<Rightarrow> bool"
  answers :: "'db \<Rightarrow> bool"

text \<open>The state: the pool of this process, the names on the server, PGPASSFILE.\<close>

record 'db db_state =
  databasePool :: "string \<Rightarrow> 'db option"
  pg_names :: "string set"
  pgpassfile :: "string option"

datatype db_error = Odb_Exception | String_Fault fault

definition checkPsqlDatbase ::
    "'db dbms \<Rightarrow> string option \<Rightarrow> string \<Rightarrow> string \<Rightarrow> bool \<Rightarrow> 'db db_state \<Rightarrow> (db_error + bool) \<times> 'db db_state" where
  "checkPsqlDatbase dbms home connStr dbName create s =
     (let colonPos = str_find (CHR '':'') 0 connStr;
          options = drop (size_add colonPos 1) connStr;
          (odbOpts, pass) = createOdbOptions Pgsql home options (pgpassfile s);
          s = s\<lparr>pgpassfile := pass\<rparr>
      in
      case odbOpts of
        None \<Rightarrow> (Inr False, s)
      | Some opts \<Rightarrow>
          if \<not> pg_connect dbms opts then (Inl Odb_Exception, s)
          else
            let s = (if dbName \<notin> pg_names s \<and> create then s\<lparr>pg_names := insert dbName (pg_names s)\<rparr> else s)
            in (Inr (dbName \<in> pg_names s), s))"

definition open_database ::
    "backend \<Rightarrow> 'db dbms \<Rightarrow> string option \<Rightarrow> string \<Rightarrow> string \<Rightarrow> string list \<Rightarrow> bool \<Rightarrow> 'db db_state \<Rightarrow>
       (db_error + 'db option) \<times> 'db db_state" where
  "open_database be dbms home connStr database odbOpts create s =
     (if be = Sqlite \<and> database = ''sqlite'' then (Inr (db_open dbms odbOpts create), s)
      else if be = Pgsql \<and> database = ''pgsql'' then
        (case updateConnectionString connStr ''database'' ''postgres'' of
           Inl e \<Rightarrow> (Inl (String_Fault e), s)
         | Inr defaultPsqlConnStr \<Rightarrow>
             (case connStrComponent connStr ''database'' of
                Inl e \<Rightarrow> (Inl (String_Fault e), s)
              | Inr dbName \<Rightarrow>
                  (case checkPsqlDatbase dbms home defaultPsqlConnStr dbName create s of
                     (Inl e, s) \<Rightarrow> (Inl e, s)
                   | (Inr found, s) \<Rightarrow> (Inr (if found then Some (pg_open dbms odbOpts) else None), s))))
      else (Inr None, s))"

definition connectDatabase ::
    "backend \<Rightarrow> 'db dbms \<Rightarrow> string option \<Rightarrow> string \<Rightarrow> bool \<Rightarrow> 'db db_state \<Rightarrow>
       (db_error + 'db option) \<times> 'db db_state" where
  "connectDatabase be dbms home connStr create s =
     (case databasePool s connStr of
        Some db \<Rightarrow> (Inr (Some db), s)
      | None \<Rightarrow>
          (case strchr connStr (CHR '':'') of
             None \<Rightarrow> (Inr None, s)
           | Some colonPos \<Rightarrow>
               let database = take colonPos connStr;
                   options = drop (colonPos + 1) connStr;
                   (optOdbOpts, pass) = createOdbOptions be home options (pgpassfile s);
                   s = s\<lparr>pgpassfile := pass\<rparr>
               in
               (case optOdbOpts of
                  None \<Rightarrow> (Inr None, s)
                | Some odbOpts \<Rightarrow>
                    (case open_database be dbms home connStr database odbOpts create s of
                       (Inl e, s) \<Rightarrow> (Inl e, s)
                     | (Inr None, s) \<Rightarrow> (Inr None, s)
                     | (Inr (Some db), s) \<Rightarrow>
                         if answers dbms db
                         then (Inr (Some db), s\<lparr>databasePool := (databasePool s)(connStr \<mapsto> db)\<rparr>)
                         else (Inr None, s)))))"

section \<open>SQL files\<close>

text \<open>\<open>removeByRegex\<close>: the search continues behind the removed part.\<close>

function removeByRegex :: "string \<Rightarrow> string \<Rightarrow> string \<Rightarrow> string" where
  "removeByRegex s begin end =
     (case strstr s begin of
        None \<Rightarrow> s
      | Some i \<Rightarrow>
          (case strstr (drop (i + length begin) s) end of
             None \<Rightarrow> s
           | Some j \<Rightarrow>
               let rest = drop (i + length begin + j + length end) s;
                   rest = (if take 1 rest = [LF] then drop 1 rest else rest)
               in
               if length rest < length s then take i s @ removeByRegex rest begin end else s))"
  by pat_completeness auto

termination by (relation "measure (\<lambda>(s, _). length s)") auto

declare removeByRegex.simps [simp del]

text \<open>The commands of the three passes, each separated by an empty line.\<close>

definition table_commands :: "string \<Rightarrow> string" where
  "table_commands s =
     removeByRegex (removeByRegex (removeByRegex (removeByRegex s
       ''CREATE UNIQUE INDEX'' '';'') ''CREATE INDEX'' '';'') ''ALTER TABLE'' '';'') ''DROP'' '';''"

definition drop_commands :: "string \<Rightarrow> string" where
  "drop_commands s = removeByRegex (removeByRegex s ''CREATE'' '';'') ''ALTER TABLE'' '';''"

definition index_commands :: "string \<Rightarrow> string" where
  "index_commands s = removeByRegex (removeByRegex s ''CREATE TABLE'' '';'') ''DROP'' '';''"

text \<open>
  \<open>runSqlFiles\<close>: a file is cut at the empty lines and each piece is executed. SQLite does not know
  CASCADE. \<open>ok\<close> tells whether the database accepts a command; an exception ends the file, not the run.
\<close>

function split_str :: "string \<Rightarrow> string \<Rightarrow> string list" where
  "split_str d s =
     (case strstr s d of
        None \<Rightarrow> [s]
      | Some i \<Rightarrow> if d = [] then [s] else take i s # split_str d (drop (i + length d) s))"
  by pat_completeness auto

termination
proof (relation "measure (\<lambda>(_, s). length s)", goal_cases)
  case (2 d s i)
  then show ?case using strstr_Some_le [of s d i] by (cases d) auto
qed simp

declare split_str.simps [simp del]

definition without_cascade :: "backend \<Rightarrow> string \<Rightarrow> string" where
  "without_cascade be cmd =
     (if be = Sqlite \<and> take (length ''DROP TABLE'') cmd = ''DROP TABLE'' then
        (case strstr cmd ''CASCADE'' of
           None \<Rightarrow> cmd
         | Some pos \<Rightarrow> take pos cmd @ drop (pos + 7) cmd)
      else cmd)"

fun execute_all :: "(string \<Rightarrow> bool) \<Rightarrow> string list \<Rightarrow> string list" where
  "execute_all ok [] = []"
| "execute_all ok (v # vs) = v # (if ok v then execute_all ok vs else [])"

definition runSqlFiles :: "backend \<Rightarrow> (string \<Rightarrow> bool) \<Rightarrow> (string \<Rightarrow> string) \<Rightarrow> string list \<Rightarrow> string list" where
  "runSqlFiles be ok replacer files =
     concat (map (\<lambda>f. execute_all ok (map (without_cascade be) (split_str [LF, LF] (replacer f)))) files)"

definition createTables :: "backend \<Rightarrow> (string \<Rightarrow> bool) \<Rightarrow> string list \<Rightarrow> string list" where
  "createTables be ok files =
     (if be = Sqlite then [''PRAGMA foreign_keys = ON''] else []) @ runSqlFiles be ok table_commands files"

definition removeTables :: "backend \<Rightarrow> (string \<Rightarrow> bool) \<Rightarrow> string list \<Rightarrow> string list" where
  "removeTables be ok files =
     (if be = Sqlite then [''PRAGMA foreign_keys = OFF''] else []) @ runSqlFiles be ok drop_commands files"

definition createIndexes :: "backend \<Rightarrow> (string \<Rightarrow> bool) \<Rightarrow> string list \<Rightarrow> string list" where
  "createIndexes be ok files = runSqlFiles be ok index_commands files"

section \<open>Reading and replacing a component\<close>

lemma through_int_small: "n < 2 ^ 31 \<Longrightarrow> through_int n = n"
  by (simp add: through_int_def)

text \<open>Where the value of a component ends.\<close>

lemma value_end:
  assumes p: "CHR '';'' \<notin> set p" "p \<noteq> []" and i: "strstr s p = Some i" and len: "length s < 2 ^ 31"
  defines "r \<equiv> drop (i + length p) s"
  shows "(let pos2 = str_find (CHR '';'') (size_add i 1) s in if pos2 = SIZE_MAX then length s else pos2)
    = i + length p + length (takeWhile (\<lambda>c. c \<noteq> CHR '';'') r)"
proof -
  have le: "i + length p \<le> length s" by (rule strstr_Some_le [OF i])
  have add: "size_add i 1 = i + 1" using le len by (simp add: size_add_small SIZE_MAX_def)
  have "take i s @ drop i s = take i s @ p @ r" using strstr_split(1) [OF i] by (simp add: r_def)
  then have "drop i s = p @ r" by (simp only: same_append_eq)
  then have "drop 1 (drop i s) = drop 1 (p @ r)" by (rule arg_cong)
  then have d: "drop (i + 1) s = tl p @ r" using p(2) by (cases p) (simp_all add: add.commute)
  have tl: "CHR '';'' \<notin> set (tl p)" using p(1) by (metis list.set_sel(2) p(2))
  have lr: "length (tl p) + 1 = length p" using p(2) by (cases p) auto
  have ls: "length s = i + length p + length r" using le by (simp add: r_def)
  show ?thesis
  proof (cases "strchr r (CHR '';'')")
    case None
    then have n: "CHR '';'' \<notin> set r" by (simp add: strchr_None)
    with tl have "str_find (CHR '';'') (size_add i 1) s = SIZE_MAX"
      unfolding add str_find_def d by (simp add: strchr_None [THEN iffD2])
    moreover have "takeWhile (\<lambda>c. c \<noteq> CHR '';'') r = r" using n by (auto simp: takeWhile_eq_all_conv)
    then have "length (takeWhile (\<lambda>c. c \<noteq> CHR '';'') r) = length r" by (rule arg_cong)
    ultimately show ?thesis using ls by simp
  next
    case (Some k)
    from strchr_SomeD [OF Some] have k: "k < length r" "r ! k = CHR '';''" "CHR '';'' \<notin> set (take k r)" by auto
    define a where "a = take k r"
    define b where "b = drop (Suc k) r"
    have rk: "r = a @ CHR '';'' # b"
      unfolding a_def b_def using k(2) by (subst id_take_nth_drop [OF k(1)]) simp
    have a: "CHR '';'' \<notin> set a" "length a = k" using k by (simp_all add: a_def)
    then have tw: "takeWhile (\<lambda>c. c \<noteq> CHR '';'') r = a"
      unfolding rk by (subst takeWhile_append2) auto
    have "strchr ((tl p @ a) @ CHR '';'' # b) (CHR '';'') = Some (length (tl p @ a))"
      by (rule strchr_first) (use tl a in auto)
    then have "strchr (tl p @ r) (CHR '';'') = Some (length (tl p) + k)" using a by (simp add: rk)
    then have "str_find (CHR '';'') (size_add i 1) s = i + length p + k"
      unfolding add str_find_def d using lr by simp
    moreover have "i + length p + k \<noteq> SIZE_MAX" using k ls len by (simp add: SIZE_MAX_def)
    ultimately show ?thesis using tw a by simp
  qed
qed

lemma find_key:
  assumes "strstr s p = Some i" "length s < 2 ^ 31" "p \<noteq> []"
  shows "find_at p 0 s = i" "i \<noteq> SIZE_MAX" "i + length p \<le> length s" "size_add i (length p) = i + length p"
  using assms strstr_Some_le [OF assms(1)] by (simp_all add: find_at_0 size_add_small SIZE_MAX_def)

lemma component_found:
  assumes "CHR '';'' \<notin> set k" "strstr s (k @ ''='') = Some i" "length s < 2 ^ 31"
  shows "connStrComponent s k = Inr (takeWhile (\<lambda>c. c \<noteq> CHR '';'') (drop (i + length k + 1) s))"
proof -
  note f = find_key [OF assms(2,3)]
  let ?r = "drop (i + length k + 1) s"
  have e: "(let pos2 = str_find (CHR '';'') (size_add i 1) s in if pos2 = SIZE_MAX then length s else pos2)
      = i + (length k + 1) + length (takeWhile (\<lambda>c. c \<noteq> CHR '';'') ?r)"
    using value_end [OF _ _ assms(2,3)] assms(1) by simp
  have "length (takeWhile (\<lambda>c. c \<noteq> CHR '';'') ?r) \<le> length ?r" by (rule length_takeWhile_le)
  then have "size_sub (i + (length k + 1) + length (takeWhile (\<lambda>c. c \<noteq> CHR '';'') ?r)) (i + (length k + 1))
      = length (takeWhile (\<lambda>c. c \<noteq> CHR '';'') ?r)"
    using f(3) assms(3) by (simp add: size_sub_le SIZE_MAX_def)
  moreover have "take (length (takeWhile (\<lambda>c. c \<noteq> CHR '';'') ?r)) ?r = takeWhile (\<lambda>c. c \<noteq> CHR '';'') ?r"
    by (metis takeWhile_eq_take)
  ultimately show ?thesis
    using f e by (simp add: connStrComponent_def Let_def substr_def)
qed

lemma update_found:
  assumes "CHR '';'' \<notin> set k" "strstr s (k @ ''='') = Some i" "length s < 2 ^ 31"
  shows "updateConnectionString s k v =
    Inr (take (i + length k + 1) s @ v @ dropWhile (\<lambda>c. c \<noteq> CHR '';'') (drop (i + length k + 1) s))"
proof -
  note f = find_key [OF assms(2,3)]
  let ?r = "drop (i + length k + 1) s"
  have e: "(let pos2 = str_find (CHR '';'') (size_add i 1) s in if pos2 = SIZE_MAX then length s else pos2)
      = i + (length k + 1) + length (takeWhile (\<lambda>c. c \<noteq> CHR '';'') ?r)"
    using value_end [OF _ _ assms(2,3)] assms(1) by simp
  have "length (takeWhile (\<lambda>c. c \<noteq> CHR '';'') ?r) \<le> length ?r" by (rule length_takeWhile_le)
  then have "size_sub (i + (length k + 1) + length (takeWhile (\<lambda>c. c \<noteq> CHR '';'') ?r)) (i + (length k + 1))
      = length (takeWhile (\<lambda>c. c \<noteq> CHR '';'') ?r)"
    using f(3) assms(3) by (simp add: size_sub_le SIZE_MAX_def)
  moreover have "through_int (i + (length k + 1)) = i + (length k + 1)"
    using f(3) assms(3) by (intro through_int_small) simp
  moreover have "drop (length (takeWhile (\<lambda>c. c \<noteq> CHR '';'') ?r)) ?r = dropWhile (\<lambda>c. c \<noteq> CHR '';'') ?r"
    by (metis dropWhile_eq_drop)
  ultimately show ?thesis
    using f e by (simp add: updateConnectionString_def Let_def str_replace_def add.commute add.left_commute)
qed

lemma update_absent:
  assumes "strstr s (k @ ''='') = None" "s \<noteq> []"
  shows "updateConnectionString s k v =
    Inr ((if last s \<noteq> CHR '':'' then s @ '';'' else s) @ k @ ''='' @ v)"
  using assms by (simp add: updateConnectionString_def find_at_0)

text \<open>After an update the key is where it was, or behind the separator.\<close>

lemma updated_key:
  assumes k: "CHR '';'' \<notin> set k" "CHR '':'' \<notin> set k" and u: "updateConnectionString s k v = Inr s'"
    and len: "length s < 2 ^ 31"
  shows "\<exists>i. strstr s' (k @ ''='') = Some i \<and>
    drop (i + length k + 1) s' = v @ (case strstr s (k @ ''='') of None \<Rightarrow> []
      | Some j \<Rightarrow> dropWhile (\<lambda>c. c \<noteq> CHR '';'') (drop (j + length k + 1) s)) \<and>
    take (i + length k + 1) s' = (case strstr s (k @ ''='') of
      None \<Rightarrow> (if last s \<noteq> CHR '':'' then s @ '';'' else s) @ k @ ''='' | Some j \<Rightarrow> take (j + length k + 1) s)"
proof (cases "strstr s (k @ ''='')")
  case (Some i)
  have s': "s' = take (i + length (k @ ''='')) s @ v @ dropWhile (\<lambda>c. c \<noteq> CHR '';'') (drop (i + length k + 1) s)"
    using update_found [OF k(1) Some len, of v] u by simp
  have le: "i + length k + 1 \<le> length s" using strstr_Some_le [OF Some] by simp
  have "strstr s' (k @ ''='') = Some i" unfolding s' by (rule strstr_keep [OF Some])
  then show ?thesis using Some le by (simp add: s')
next
  case None
  have ne: "s \<noteq> []"
    using u None by (auto simp: updateConnectionString_def find_at_0 split: if_splits)
  have self: "strstr (k @ ''='' @ v) (k @ ''='') = Some 0"
    by (rule strstr_eq_I) simp_all
  show ?thesis
  proof (cases "last s = CHR '':''")
    case False
    have "strstr (s @ CHR '';'' # k @ ''='' @ v) (k @ ''='') = Some (length s + 1)"
      using strstr_barrier [OF None, of "CHR '';''" "k @ ''='' @ v"] k self by simp
    then show ?thesis using update_absent [OF None ne, of v] u False None by simp
  next
    case True
    then obtain b where b: "s = b @ [CHR '':'']" using ne by (metis append_butlast_last_id)
    have "strstr b (k @ ''='') = None"
    proof (rule ccontr)
      assume "strstr b (k @ ''='') \<noteq> None"
      then obtain j where j: "strstr b (k @ ''='') = Some j" by auto
      then have "take (length (k @ ''='')) (drop j (b @ [CHR '':''])) = k @ ''=''"
        using strstr_SomeD [OF j] strstr_Some_le [OF j] by simp
      from strstr_at [OF this] strstr_Some_le [OF j] None b show False by auto
    qed
    then have "strstr (b @ CHR '':'' # k @ ''='' @ v) (k @ ''='') = Some (length s)"
      using strstr_barrier [of b "k @ ''=''" "CHR '':''" "k @ ''='' @ v"] k self b by simp
    moreover have s': "s' = (b @ CHR '':'' # k @ ''='') @ v"
      using update_absent [OF None ne, of v] u True b by simp
    moreover have "drop (length x) (x @ v) = v" "take (length x) (x @ v) = x" for x :: string by simp_all
    from this [of "b @ CHR '':'' # k @ ''=''"] have "drop (length s + length k + 1) s' = v"
      "take (length s + length k + 1) s' = b @ CHR '':'' # k @ ''=''"
      unfolding s' using b by (simp_all add: ac_simps del: append.assoc append_Cons)
    ultimately show ?thesis using None b by simp
  qed
qed

lemma takeWhile_value:
  "c \<notin> set v \<Longrightarrow> t = [] \<or> hd t = c \<Longrightarrow>
    takeWhile (\<lambda>x. x \<noteq> c) (v @ t) = v \<and> dropWhile (\<lambda>x. x \<noteq> c) (v @ t) = t"
  by (induction v) (cases t; auto)+

text \<open>
  A component of a connection string is read back as it was written by
  \<open>updateConnectionString\<close>, for a key without separators and a value without semicolon, and writing
  it again replaces the value and nothing else.
\<close>

theorem connection_string_roundtrip:
  assumes "CHR '';'' \<notin> set k" "CHR '':'' \<notin> set k" "CHR '';'' \<notin> set v"
    and "length s < 2 ^ 31" "length s' < 2 ^ 31" and u: "updateConnectionString s k v = Inr s'"
  shows "connStrComponent s' k = Inr v \<and>
    updateConnectionString s' k w = updateConnectionString s k w"
proof -
  define t where "t = (case strstr s (k @ ''='') of None \<Rightarrow> []
      | Some j \<Rightarrow> dropWhile (\<lambda>c. c \<noteq> CHR '';'') (drop (j + length k + 1) s))"
  from updated_key [OF assms(1,2) u assms(4)] obtain i where i: "strstr s' (k @ ''='') = Some i"
    "drop (i + length k + 1) s' = v @ t"
    "take (i + length k + 1) s' = (case strstr s (k @ ''='') of
      None \<Rightarrow> (if last s \<noteq> CHR '':'' then s @ '';'' else s) @ k @ ''='' | Some j \<Rightarrow> take (j + length k + 1) s)"
    unfolding t_def by blast
  have "t = [] \<or> hd t = CHR '';''"
    using hd_dropWhile [of "\<lambda>c. c \<noteq> CHR '';''"] by (auto simp: t_def split: option.splits)
  note v = takeWhile_value [OF assms(3) this]
  have "connStrComponent s' k = Inr v"
    using component_found [OF assms(1) i(1) assms(5)] i(2) v by simp
  moreover have "updateConnectionString s' k w = updateConnectionString s k w"
  proof (cases "strstr s (k @ ''='')")
    case None
    have "s \<noteq> []" using u None by (auto simp: updateConnectionString_def find_at_0 split: if_splits)
    then show ?thesis
      using update_found [OF assms(1) i(1) assms(5), of w] update_absent [OF None, of w] i(2,3) v None
      by (simp add: t_def)
  next
    case (Some j)
    then show ?thesis
      using update_found [OF assms(1) i(1) assms(5), of w] update_found [OF assms(1) Some assms(4), of w] i(2,3) v
      by (simp add: t_def)
  qed
  ultimately show ?thesis by simp
qed

theorem connection_string_roundtrip_witness:
  "updateConnectionString ''pgsql:host=localhost;database=x;user=u'' ''database'' ''cc'' =
     Inr ''pgsql:host=localhost;database=cc;user=u'' \<and>
   connStrComponent ''pgsql:host=localhost;database=cc;user=u'' ''database'' = Inr ''cc'' \<and>
   updateConnectionString ''pgsql:host=localhost;database=cc;user=u'' ''database'' ''w'' =
     updateConnectionString ''pgsql:host=localhost;database=x;user=u'' ''database'' ''w''"
proof -
  have u: "updateConnectionString ''pgsql:host=localhost;database=x;user=u'' ''database'' ''cc'' =
     Inr ''pgsql:host=localhost;database=cc;user=u''" by code_simp
  then show ?thesis using connection_string_roundtrip [OF _ _ _ _ _ u, of "''w''"] by simp
qed

text \<open>A key is searched for as text, so \<open>port\<close> finds the end of \<open>report\<close>.\<close>

lemma key_found_inside_another:
  "connStrComponent ''pgsql:report=1;port=5432'' ''port'' = Inr ''1''"
  by code_simp

lemma empty_connection_string: "updateConnectionString [] k v = Inl Out_Of_Bounds"
  by (simp add: updateConnectionString_def find_at_0)

section \<open>The pool of databases\<close>

lemma check_keeps_pool:
  "checkPsqlDatbase dbms home c n create s = (r, s') \<Longrightarrow> databasePool s' = databasePool s"
  by (auto simp: checkPsqlDatbase_def Let_def split: prod.splits option.splits if_splits)

lemma open_keeps_pool:
  "open_database be dbms home c d opts create s = (r, s') \<Longrightarrow> databasePool s' = databasePool s"
  by (auto simp: open_database_def split: prod.splits option.splits sum.splits if_splits
      dest!: check_keeps_pool)

lemma connect_new:
  assumes "databasePool s c = None" "connectDatabase be dbms home c create s = (r, s')"
  shows "(\<exists>db. r = Inr (Some db) \<and> answers dbms db \<and> databasePool s' = (databasePool s)(c \<mapsto> db)) \<or>
    ((\<forall>db. r \<noteq> Inr (Some db)) \<and> databasePool s' = databasePool s)"
  using assms
  by (auto simp: connectDatabase_def Let_def split: prod.splits option.splits sum.splits if_splits
      dest!: open_keeps_pool)

text \<open>
  A connection string is opened at most once: after a successful call every later call with
  the same string returns the same handle and changes nothing, whatever its flag. A call that
  fails leaves the pool as it was, and every handle of the pool has answered a transaction.
\<close>

theorem connect_pooled:
  assumes "connectDatabase be dbms home c create s = (r, s')"
    and "\<forall>x \<in> ran (databasePool s). answers dbms x"
  shows "(\<forall>db. r = Inr (Some db) \<longrightarrow> connectDatabase be dbms home c create' s' = (Inr (Some db), s')) \<and>
    ((\<forall>db. r \<noteq> Inr (Some db)) \<longrightarrow> databasePool s' = databasePool s) \<and>
    (\<forall>x \<in> ran (databasePool s'). answers dbms x) \<and> databasePool s \<subseteq>\<^sub>m databasePool s'"
proof (cases "databasePool s c")
  case None
  from connect_new [OF None assms(1)] show ?thesis
    using None assms(2) by (auto simp: connectDatabase_def map_le_def ran_def split: if_splits) blast+
next
  case (Some db)
  then have "r = Inr (Some db)" "s' = s" using assms(1) by (auto simp: connectDatabase_def)
  then show ?thesis using Some assms(2) by (auto simp: connectDatabase_def)
qed

definition test_dbms :: "string list dbms" where
  "test_dbms = \<lparr>db_open = (\<lambda>opts create. Some opts), pg_open = id, pg_connect = (\<lambda>_. True), answers = (\<lambda>_. True)\<rparr>"

definition test_db_state :: "string list db_state" where
  "test_db_state = \<lparr>databasePool = Map.empty, pg_names = {}, pgpassfile = None\<rparr>"

lemma test_connection:
  "connectDatabase Sqlite test_dbms (Some ''/root'') ''sqlite:database=~/x'' True test_db_state =
     (Inr (Some ['' '', ''--database'', ''/root/x'']),
      test_db_state\<lparr>databasePool := [''sqlite:database=~/x'' \<mapsto> ['' '', ''--database'', ''/root/x'']]\<rparr>)"
  by (simp add: connectDatabase_def open_database_def createOdbOptions_def test_dbms_def test_db_state_def
      Let_def)

theorem connect_pooled_witness:
  "\<exists>s'. connectDatabase Sqlite test_dbms (Some ''/root'') ''sqlite:database=~/x'' False s' =
     (Inr (Some ['' '', ''--database'', ''/root/x'']), s') \<and> s' \<noteq> test_db_state"
  using connect_pooled [OF test_connection, of False]
  by (intro exI [of _ "test_db_state\<lparr>databasePool := [''sqlite:database=~/x'' \<mapsto> ['' '', ''--database'', ''/root/x'']]\<rparr>"])
     (simp add: test_db_state_def)

section \<open>Which commands a pass keeps\<close>

datatype sql_kind = Create_Table | Create_Unique_Index | Create_Index | Alter_Table | Drop_Command

fun keyword :: "sql_kind \<Rightarrow> string" where
  "keyword Create_Table = ''CREATE TABLE''"
| "keyword Create_Unique_Index = ''CREATE UNIQUE INDEX''"
| "keyword Create_Index = ''CREATE INDEX''"
| "keyword Alter_Table = ''ALTER TABLE''"
| "keyword Drop_Command = ''DROP''"

definition sql_keywords :: "string list" where
  "sql_keywords = [''CREATE UNIQUE INDEX'', ''CREATE INDEX'', ''CREATE TABLE'', ''CREATE'', ''ALTER TABLE'', ''DROP'']"

text \<open>A command of a generated file, and a file: every command is followed by an empty line.\<close>

definition sql_text :: "sql_kind \<times> string \<Rightarrow> string" where
  "sql_text st = keyword (fst st) @ snd st @ '';'' @ [LF, LF]"

definition sql_file :: "(sql_kind \<times> string) list \<Rightarrow> string" where
  "sql_file sts = concat (map sql_text sts)"

text \<open>A body has no semicolon and the text of the command no keyword but the ones it starts with.\<close>

definition sql_wf :: "sql_kind \<times> string \<Rightarrow> bool" where
  "sql_wf st \<longleftrightarrow> CHR '';'' \<notin> set (snd st) \<and>
     (\<forall>k \<in> set sql_keywords. strstr (keyword (fst st) @ snd st) k =
        (if take (length k) (keyword (fst st)) = k then Some 0 else None))"

definition kept :: "sql_kind list \<Rightarrow> (sql_kind \<times> string) list \<Rightarrow> string" where
  "kept ks sts = concat (map (\<lambda>st. if fst st \<in> set ks then sql_text st else [LF]) sts)"

lemma removeByRegex_Nil: "b \<noteq> [] \<Longrightarrow> removeByRegex [] b e = []"
  by (simp add: removeByRegex.simps)

lemma remove_hit:
  assumes "strstr u b = Some 0" "b \<noteq> []" "CHR '';'' \<notin> set u"
  shows "removeByRegex (u @ '';'' @ [LF, LF] @ r) b '';'' = removeByRegex (LF # r) b '';''"
proof -
  from strstr_split(1) [OF assms(1)] obtain w where u: "u = b @ w" by auto
  have f: "strstr (b @ w @ CHR '';'' # LF # LF # r) b = Some 0"
    by (rule strstr_eq_I) simp_all
  have n: "CHR '';'' \<notin> set w" using assms(3) u by simp
  have g: "strstr (w @ CHR '';'' # LF # LF # r) '';'' = Some (length w)"
  proof (rule strstr_eq_I)
    fix j assume j: "j < length w"
    then have "w ! j \<noteq> CHR '';''" using n by (metis nth_mem)
    then show "take (length '';'') (drop j (w @ CHR '';'' # LF # LF # r)) \<noteq> '';''"
      using j by (simp add: Cons_nth_drop_Suc [symmetric])
  qed simp_all
  show ?thesis
    using f g by (subst removeByRegex.simps) (simp add: u Let_def add.assoc [symmetric])
qed

lemma remove_miss:
  assumes "strstr a b = None" "c \<notin> set b" "b \<noteq> []"
  shows "removeByRegex (a @ c # r) b '';'' = a @ c # removeByRegex r b '';''"
proof -
  have f: "strstr (a @ c # r) b = map_option (\<lambda>i. length a + 1 + i) (strstr r b)"
    by (rule strstr_barrier [OF assms(1,2)])
  show ?thesis
  proof (cases "strstr r b")
    case (Some i)
    then have l: "0 < length b" "i + length b \<le> length r" using assms(3) strstr_Some_le by auto
    have "drop (length a + 1 + i + length b + n) (a @ c # r) = drop (i + length b + n) r" for n
      by (simp add: add.assoc)
    from this [of 0] this show ?thesis
      using f Some l
      by (subst (1 2) removeByRegex.simps) (auto simp: Let_def ac_simps split: option.splits if_splits)
  qed (use f in \<open>simp add: removeByRegex.simps\<close>)
qed

lemma command_keyword:
  assumes "CHR '';'' \<notin> set b" "LF \<notin> set b" "b \<noteq> []" "strstr u b = None"
  shows "strstr (u @ '';'' @ [LF]) b = None"
proof -
  have "strstr [LF] b = None" using assms(2,3) by (cases b) auto
  then show ?thesis using strstr_barrier [OF assms(4,1), of "[LF]"] by simp
qed

lemma sql_pass:
  assumes b: "CHR '';'' \<notin> set b" "LF \<notin> set b" "b \<noteq> []"
    and wf: "\<forall>st \<in> set sts. CHR '';'' \<notin> set (keyword (fst st) @ snd st) \<and>
      strstr (keyword (fst st) @ snd st) b = (if take (length b) (keyword (fst st)) = b then Some 0 else None)"
  shows "removeByRegex (kept ks sts) b '';'' = kept (filter (\<lambda>k. take (length b) (keyword k) \<noteq> b) ks) sts"
  using wf
proof (induction sts)
  case Nil
  then show ?case using b(3) by (simp add: kept_def removeByRegex_Nil)
next
  case (Cons st sts)
  let ?u = "keyword (fst st) @ snd st"
  have ih: "removeByRegex (kept ks sts) b '';'' = kept (filter (\<lambda>k. take (length b) (keyword k) \<noteq> b) ks) sts"
    using Cons by simp
  have gap: "removeByRegex (LF # r) b '';'' = LF # removeByRegex r b '';''" for r
    using remove_miss [of "[]" b LF r] b by simp
  have st: "CHR '';'' \<notin> set ?u" "strstr ?u b = (if take (length b) (keyword (fst st)) = b then Some 0 else None)"
    using Cons.prems by auto
  consider (gap) "fst st \<notin> set ks" | (hit) "fst st \<in> set ks" "take (length b) (keyword (fst st)) = b"
    | (miss) "fst st \<in> set ks" "take (length b) (keyword (fst st)) \<noteq> b" by blast
  then show ?case
  proof cases
    case gap
    then show ?thesis using ih \<open>\<And>r. removeByRegex (LF # r) b _ = _\<close> by (simp add: kept_def)
  next
    case hit
    then show ?thesis
      using remove_hit [OF _ b(3) st(1), of "kept ks sts"] st(2) ih \<open>\<And>r. removeByRegex (LF # r) b _ = _\<close>
      by (simp add: kept_def sql_text_def)
  next
    case miss
    then show ?thesis
      using remove_miss [OF command_keyword [OF b, of ?u] b(2,3), of "kept ks sts"] st(2) ih
      by (simp add: kept_def sql_text_def)
  qed
qed

lemma no_semicolon_keyword: "CHR '';'' \<notin> set (keyword k)"
  by (cases k) auto

lemma sql_keyword_pass:
  assumes "\<forall>st \<in> set sts. sql_wf st" "b \<in> set sql_keywords"
  shows "removeByRegex (kept ks sts) b '';'' = kept (filter (\<lambda>k. take (length b) (keyword k) \<noteq> b) ks) sts"
proof (rule sql_pass)
  show "CHR '';'' \<notin> set b" "LF \<notin> set b" "b \<noteq> []" using assms(2) by (auto simp: sql_keywords_def LF_def)
  show "\<forall>st\<in>set sts. CHR '';'' \<notin> set (keyword (fst st) @ snd st) \<and>
      strstr (keyword (fst st) @ snd st) b = (if take (length b) (keyword (fst st)) = b then Some 0 else None)"
    using assms no_semicolon_keyword by (auto simp: sql_wf_def)
qed

lemma kept_all: "kept [Create_Table, Create_Unique_Index, Create_Index, Alter_Table, Drop_Command] sts = sql_file sts"
proof -
  have "k \<in> set [Create_Table, Create_Unique_Index, Create_Index, Alter_Table, Drop_Command]" for k
    by (cases k) auto
  then show ?thesis by (simp add: kept_def sql_file_def)
qed

text \<open>
  Of a generated file the three passes keep exactly the commands they are for: creating tables
  runs the CREATE TABLE commands, creating indexes the CREATE INDEX, CREATE UNIQUE INDEX and ALTER
  TABLE commands, and removing tables the DROP commands; so every command is run by one pass.
\<close>

theorem sql_passes_select:
  assumes "\<forall>st \<in> set sts. sql_wf st"
  shows "table_commands (sql_file sts) = kept [Create_Table] sts \<and>
    index_commands (sql_file sts) = kept [Create_Unique_Index, Create_Index, Alter_Table] sts \<and>
    drop_commands (sql_file sts) = kept [Drop_Command] sts"
proof -
  note pass = sql_keyword_pass [OF assms]
  have k: "''CREATE UNIQUE INDEX'' \<in> set sql_keywords" "''CREATE INDEX'' \<in> set sql_keywords"
    "''CREATE TABLE'' \<in> set sql_keywords" "''CREATE'' \<in> set sql_keywords"
    "''ALTER TABLE'' \<in> set sql_keywords" "''DROP'' \<in> set sql_keywords"
    by (simp_all add: sql_keywords_def)
  show ?thesis
    unfolding table_commands_def index_commands_def drop_commands_def kept_all [symmetric]
    by (simp add: pass k)
qed

definition test_commands :: "(sql_kind \<times> string) list" where
  "test_commands = [(Drop_Command, '' TABLE IF EXISTS a''), (Create_Table, '' a (b)''), (Create_Index, '' i ON a'')]"

theorem sql_passes_select_witness:
  "list_all sql_wf test_commands \<and>
   table_commands (sql_file test_commands) = [LF] @ ''CREATE TABLE a (b);'' @ [LF, LF, LF]"
proof -
  have "\<forall>st \<in> set test_commands. sql_wf st" by code_simp
  then show ?thesis
    using sql_passes_select [of test_commands]
    by (simp add: list_all_iff) (simp add: test_commands_def kept_def sql_text_def)
qed

end
