(* ===== verification/ParserMain.thy ===== *)
theory ParserMain
  imports CppString UtilDb "HOL-Library.Char_ord" "HOL-Library.List_Lexorder"
begin

text \<open>
  The program \<open>CodeCompass_parser\<close>: the plugins of \<^verbatim>\<open>parser/src/pluginhandler.cpp\<close> and the workflow of
  \<^verbatim>\<open>parser/src/parser.cpp\<close>.

  The workflow is the list of what it does to the outside (\<open>main_action\<close>), in order, and its exit code. What
  the steps themselves answer is in \<open>main_env\<close>: whether the database exists, which plugins are there and
  how they behave, how many files are known and changed.
\<close>

section \<open>Plugins\<close>

text \<open>\<open>std::string::erase\<close> of the first three characters.\<close>

definition getPluginName :: "string \<Rightarrow> fault + string" where
  "getPluginName stem = (if length stem < 3 then Inl Out_Of_Bounds else Inr (drop 3 stem))"

record dir_file =
  df_stem :: string
  df_extension :: string
  df_regular :: bool
  df_path :: string

type_synonym libraries = "(string \<times> string) list"

text \<open>A \<open>std::map\<close> from names to library paths, as the list of its entries in order.\<close>

definition map_put :: "string \<Rightarrow> string \<Rightarrow> libraries \<Rightarrow> libraries" where
  "map_put k v m = insort_key fst (k, v) (filter (\<lambda>e. fst e \<noteq> k) m)"

definition is_plugin :: "dir_file \<Rightarrow> bool" where
  "is_plugin f \<longleftrightarrow> df_regular f \<and> df_extension f = ''.so''"

fun loadPlugins :: "string list \<Rightarrow> dir_file list \<Rightarrow> libraries \<Rightarrow> fault + libraries" where
  "loadPlugins skipParserList [] libs = Inr libs"
| "loadPlugins skipParserList (f # fs) libs =
     (if is_plugin f then
        bindC (getPluginName (df_stem f)) (\<lambda>filename.
        loadPlugins skipParserList fs
          (if filename \<notin> set skipParserList then map_put filename (df_path f) libs else libs))
      else loadPlugins skipParserList fs libs)"

definition getLoadedPluginNames :: "libraries \<Rightarrow> string list" where
  "getLoadedPluginNames libs = map fst libs"

fun getPluginNames :: "dir_file list \<Rightarrow> fault + string list" where
  "getPluginNames [] = Inr []"
| "getPluginNames (f # fs) =
     (if is_plugin f then
        bindC (getPluginName (df_stem f)) (\<lambda>name.
        bindC (getPluginNames fs) (\<lambda>names. Inr (name # names)))
      else getPluginNames fs)"

text \<open>\<open>createPlugins\<close>: \<open>makeParser\<close> is the factory of a library.\<close>

definition createPlugins :: "(string \<Rightarrow> 'p) \<Rightarrow> libraries \<Rightarrow> (string \<Rightarrow> 'p option)" where
  "createPlugins makeParser libs = map_of (map (\<lambda>e. (fst e, makeParser (snd e))) libs)"

text \<open>\<open>getParser\<close>: \<open>std::map::at\<close> throws when there is no entry.\<close>

definition getParser :: "(string \<Rightarrow> 'p option) \<Rightarrow> string \<Rightarrow> fault + 'p" where
  "getParser parsers name = (case parsers name of None \<Rightarrow> Inl Out_Of_Bounds | Some p \<Rightarrow> Inr p)"

section \<open>The project directory\<close>

datatype main_action =
    Create_Directory | Remove_Directory | Remove_Tables | Create_Tables | Create_Indexes
  | Mark_Modified string | List_Changes | Reload_Cache | Clear_Status
  | Cleanup string | Incremental_Cleanup | Parse string | Write_Project_Info

text \<open>The answer of \<open>fs::create_directories\<close>: an error, or whether it created something.\<close>

record project_fs =
  pf_create :: "bool option"
  pf_remove_ok :: bool
  pf_recreate_ok :: bool

text \<open>The second component tells whether the path, and not the empty string, is returned.\<close>

definition prepareProjectDir :: "project_fs \<Rightarrow> bool \<Rightarrow> main_action list \<times> bool" where
  "prepareProjectDir fs force =
     (case pf_create fs of
        None \<Rightarrow> ([], False)
      | Some isNewProject \<Rightarrow>
          if isNewProject then ([Create_Directory], True)
          else if force then
            (if \<not> pf_remove_ok fs then ([], False)
             else if \<not> pf_recreate_ok fs then ([Remove_Directory], False)
             else ([Remove_Directory, Create_Directory], True))
          else ([], True))"

section \<open>The workflow\<close>

record main_env =
  me_new_db :: bool                 \<comment> \<open>the database cannot be connected without creating it\<close>
  me_project_exists :: bool         \<comment> \<open>the answer of \<open>checkProjectDir\<close>\<close>
  me_force :: bool
  me_dry_run :: bool
  me_project_fs :: project_fs
  me_db_ok :: bool                  \<comment> \<open>the second call of \<open>connectDatabase\<close> succeeds\<close>
  me_plugins :: "string list"
  me_index_required :: "string \<Rightarrow> bool"
  me_cleanup_ok :: "string \<Rightarrow> bool"
  me_changed :: nat                 \<comment> \<open>size of \<open>fileStatus\<close> after the plugins have marked files\<close>
  me_files :: nat                   \<comment> \<open>files of the source manager\<close>
  me_threshold :: int               \<comment> \<open>option \<open>incremental-threshold\<close>\<close>

text \<open>
  \<open>changed > files * threshold / 100.0\<close>: the product is of type \<open>std::size_t\<close>, so a negative threshold is
  taken modulo its width; the quotient is exact enough below 2^53.
\<close>

definition exceeds_threshold :: "nat \<Rightarrow> nat \<Rightarrow> int \<Rightarrow> bool" where
  "exceeds_threshold changed files threshold \<longleftrightarrow>
     int changed * 100 > (int files * threshold) mod (2 ^ 64)"

text \<open>The clean-up of the plugins stops at the first one that fails.\<close>

fun cleanup_plugins :: "(string \<Rightarrow> bool) \<Rightarrow> string list \<Rightarrow> main_action list \<times> bool" where
  "cleanup_plugins ok [] = ([], True)"
| "cleanup_plugins ok (p # ps) =
     (if \<not> ok p then ([Cleanup p], False)
      else let (as, r) = cleanup_plugins ok ps in (Cleanup p # as, r))"

definition parse_steps :: "main_env \<Rightarrow> bool \<Rightarrow> main_action list" where
  "parse_steps e force =
     map Parse (filter (\<lambda>p. \<not> me_index_required e p) (me_plugins e)) @
     (if force \<or> me_new_db e then [Create_Indexes] else []) @
     map Parse (filter (me_index_required e) (me_plugins e)) @
     [Write_Project_Info]"

definition start_parsers :: "main_env \<Rightarrow> main_action list \<times> int" where
  "start_parsers e =
     (let marks = map Mark_Modified (me_plugins e) in
      if me_dry_run e then (marks @ [List_Changes], 0)
      else
        let full = exceeds_threshold (me_changed e) (me_files e) (me_threshold e);
            reset = (if full then [Remove_Tables, Create_Tables, Reload_Cache, Clear_Status] else []);
            force = (me_force e \<or> full)
        in
        if force then (marks @ reset @ parse_steps e force, 0)
        else
          let (as, ok) = cleanup_plugins (me_cleanup_ok e) (me_plugins e) in
          if \<not> ok then (marks @ reset @ as, 2)
          else (marks @ reset @ as @ [Incremental_Cleanup] @ parse_steps e force, 0))"

definition parser_main :: "main_env \<Rightarrow> main_action list \<times> int" where
  "parser_main e =
     (if (\<not> me_project_exists e) \<noteq> me_new_db e \<and> \<not> me_force e then ([], 1)
      else if me_new_db e \<and> me_dry_run e then ([], 1)
      else
        let (dirs, ok) = prepareProjectDir (me_project_fs e) (me_force e) in
        if \<not> ok then (dirs, 1)
        else if \<not> me_db_ok e then (dirs, 1)
        else
          let tables =
                (if me_force e then [Remove_Tables] else []) @
                (if me_force e \<or> me_new_db e then [Create_Tables] else []);
              (as, r) = start_parsers e
          in (dirs @ tables @ as, r))"

text \<open>
  \<open>project_info.json\<close>: labels (without \<open>=\<close> they are dropped), the connection string, and the
  description. \<open>ptree::put\<close> takes dots in a label as path separators, which is not modelled.
\<close>

definition project_labels :: "string list \<Rightarrow> (string \<times> string) list" where
  "project_labels labels = List.map_filter (\<lambda>label. case strchr label (CHR ''='') of
     None \<Rightarrow> None | Some pos \<Rightarrow> Some (take pos label, drop (pos + 1) label)) labels"

section \<open>Properties\<close>

lemma set_insort_key_cons: "set (insort_key f x xs) = insert x (set xs)"
  by (rule set_insort_key)

lemma map_put_sorted:
  assumes "sorted (map fst m)" "distinct (map fst m)"
  shows "sorted (map fst (map_put k v m)) \<and> distinct (map fst (map_put k v m)) \<and>
    set (map fst (map_put k v m)) = insert k (set (map fst m))"
proof -
  let ?m = "filter (\<lambda>e. fst e \<noteq> k) m"
  have s: "sorted (map fst ?m)" by (rule sorted_filter [OF assms(1)])
  have d: "distinct (map fst ?m)" using assms(2) by (rule distinct_map_filter)
  have i: "distinct (map fst (insort_key fst x xs))"
    if "distinct (map fst xs)" "fst x \<notin> fst ` set xs" for x :: "string \<times> string" and xs
    using that by (induction xs) (auto simp: set_insort_key)
  show ?thesis
    using s i [OF d, of "(k, v)"] by (auto simp: map_put_def sorted_insort_key set_insort_key)
qed

text \<open>
  The plugins that are loaded are the shared libraries of the plugin directory that are not skipped,
  each once and in the order of their names.
\<close>

theorem loaded_plugins:
  assumes "loadPlugins skip fs [] = Inr libs"
  shows "sorted (getLoadedPluginNames libs) \<and> distinct (getLoadedPluginNames libs) \<and>
    set (getLoadedPluginNames libs) = set (map (\<lambda>f. drop 3 (df_stem f)) (filter is_plugin fs)) - set skip"
proof -
  have "sorted (map fst libs') \<and> distinct (map fst libs') \<and>
      set (map fst libs') = set (map fst m) \<union> (set (map (\<lambda>f. drop 3 (df_stem f)) (filter is_plugin fs)) - set skip)"
    if "sorted (map fst m)" "distinct (map fst m)" "loadPlugins skip fs m = Inr libs'" for m libs'
    using that
  proof (induction fs arbitrary: m)
    case (Cons f fs)
    show ?case
    proof (cases "is_plugin f")
      case False
      then show ?thesis using Cons by simp
    next
      case True
      define m' where "m' = (if drop 3 (df_stem f) \<notin> set skip then map_put (drop 3 (df_stem f)) (df_path f) m else m)"
      have l: "loadPlugins skip fs m' = Inr libs'"
        using Cons.prems(3) True by (auto simp: getPluginName_def m'_def split: if_splits)
      have m': "sorted (map fst m')" "distinct (map fst m')"
        "set (map fst m') = set (map fst m) \<union> ({drop 3 (df_stem f)} - set skip)"
        using map_put_sorted [OF Cons.prems(1,2)] Cons.prems(1,2) by (auto simp: m'_def)
      from Cons.IH [OF m'(1,2) l] show ?thesis unfolding m'(3) using True by auto
    qed
  qed auto
  from this [OF _ _ assms] show ?thesis by (simp add: getLoadedPluginNames_def)
qed

theorem loaded_plugins_witness:
  "\<exists>libs. loadPlugins [''gitparser''] [\<lparr>df_stem = ''libgitparser'', df_extension = ''.so'', df_regular = True, df_path = ''g''\<rparr>,
      \<lparr>df_stem = ''libmetricsparser'', df_extension = ''.so'', df_regular = True, df_path = ''m''\<rparr>] [] = Inr libs \<and>
     set (getLoadedPluginNames libs) = {''metricsparser''}"
proof -
  let ?fs = "[\<lparr>df_stem = ''libgitparser'', df_extension = ''.so'', df_regular = True, df_path = ''g''\<rparr>,
      \<lparr>df_stem = ''libmetricsparser'', df_extension = ''.so'', df_regular = True, df_path = ''m''\<rparr>]"
  have l: "loadPlugins [''gitparser''] ?fs [] = Inr [(''metricsparser'', ''m'')]"
    by (simp add: is_plugin_def getPluginName_def map_put_def)
  from loaded_plugins [OF l] l show ?thesis by (auto simp: is_plugin_def)
qed

definition harmless :: "main_action \<Rightarrow> bool" where
  "harmless a \<longleftrightarrow> a = List_Changes \<or> (\<exists>p. a = Mark_Modified p)"

text \<open>
  A dry run on an existing project changes nothing and parses nothing, but only if \<open>--force\<close> is not
  given as well: with both, the project directory and all tables are removed and created empty before the
  list of changes is printed.
\<close>

theorem dry_run:
  assumes "me_dry_run e" "\<not> me_new_db e" "me_project_exists e" "me_db_ok e"
    and "pf_create (me_project_fs e) = Some False" "pf_remove_ok (me_project_fs e)" "pf_recreate_ok (me_project_fs e)"
  shows "snd (parser_main e) = 0 \<and>
    (\<not> me_force e \<longrightarrow> list_all harmless (fst (parser_main e))) \<and>
    (me_force e \<longrightarrow> take 4 (fst (parser_main e)) = [Remove_Directory, Create_Directory, Remove_Tables, Create_Tables])"
  using assms
  by (auto simp: parser_main_def prepareProjectDir_def start_parsers_def Let_def list_all_iff harmless_def)

definition test_env :: main_env where
  "test_env = \<lparr>me_new_db = False, me_project_exists = True, me_force = True, me_dry_run = True,
     me_project_fs = \<lparr>pf_create = Some False, pf_remove_ok = True, pf_recreate_ok = True\<rparr>, me_db_ok = True,
     me_plugins = [''cppparser'', ''cppmetricsparser''], me_index_required = (\<lambda>p. p = ''cppmetricsparser''),
     me_cleanup_ok = (\<lambda>_. True), me_changed = 1, me_files = 100, me_threshold = 10\<rparr>"

theorem dry_run_witness:
  "take 4 (fst (parser_main test_env)) = [Remove_Directory, Create_Directory, Remove_Tables, Create_Tables] \<and>
   list_all harmless (fst (parser_main (test_env\<lparr>me_force := False\<rparr>)))"
  using dry_run [of test_env] dry_run [of "test_env\<lparr>me_force := False\<rparr>"]
  by (simp add: test_env_def)

definition is_parse :: "main_action \<Rightarrow> bool" where
  "is_parse a \<longleftrightarrow> (\<exists>p. a = Parse p)"

lemma cleanup_plugins_actions:
  "set (fst (cleanup_plugins ok ps)) \<subseteq> Cleanup ` set ps"
  "snd (cleanup_plugins ok ps) \<longleftrightarrow> list_all ok ps"
  "list_all ok ps \<Longrightarrow> fst (cleanup_plugins ok ps) = map Cleanup ps"
  by (induction ps) (auto split: prod.splits)

lemma filter_parse_cleanup: "filter is_parse (fst (cleanup_plugins ok ps)) = []"
  using cleanup_plugins_actions(1) [of ok ps] by (auto simp: filter_empty_conv is_parse_def)

lemma filter_parse_steps:
  "filter is_parse (parse_steps e force) =
     map Parse (filter (\<lambda>p. \<not> me_index_required e p) (me_plugins e) @ filter (me_index_required e) (me_plugins e))"
proof -
  have "filter is_parse (map Parse ps) = map Parse ps" for ps by (induction ps) (simp_all add: is_parse_def)
  then show ?thesis by (simp add: parse_steps_def is_parse_def)
qed

lemma marks_no_parse: "filter is_parse (map Mark_Modified ps) = []"
  by (induction ps) (simp_all add: is_parse_def)

lemma prepare_no_parse: "filter is_parse (fst (prepareProjectDir fs force)) = []"
  by (simp add: prepareProjectDir_def is_parse_def split: option.splits)

definition cleans :: "main_action \<Rightarrow> bool" where
  "cleans a \<longleftrightarrow> a = Incremental_Cleanup \<or> (\<exists>p. a = Cleanup p)"

text \<open>What \<open>start_parsers\<close> does before the parse steps.\<close>

lemma start_parsers_cases:
  assumes "\<not> me_dry_run e"
  defines "full \<equiv> exceeds_threshold (me_changed e) (me_files e) (me_threshold e)"
  defines "begin \<equiv> map Mark_Modified (me_plugins e) @
     (if full then [Remove_Tables, Create_Tables, Reload_Cache, Clear_Status] else [])"
  shows "start_parsers e =
    (if me_force e \<or> full then (begin @ parse_steps e True, 0)
     else if list_all (me_cleanup_ok e) (me_plugins e) then
       (begin @ map Cleanup (me_plugins e) @ [Incremental_Cleanup] @ parse_steps e False, 0)
     else (begin @ fst (cleanup_plugins (me_cleanup_ok e) (me_plugins e)), 2))"
  using assms(1) cleanup_plugins_actions(2,3) [of "me_cleanup_ok e" "me_plugins e"]
  by (auto simp: start_parsers_def Let_def full_def begin_def split: prod.splits)



text \<open>A first parse: everything is cleaned up although there is nothing yet.\<close>

lemma initial_parse_cleans:
  "fst (parser_main (test_env\<lparr>me_force := False, me_dry_run := False, me_new_db := True, me_project_exists := False,
      me_project_fs := \<lparr>pf_create = Some True, pf_remove_ok = True, pf_recreate_ok = True\<rparr>, me_changed := 0, me_files := 0\<rparr>)) =
   [Create_Directory, Create_Tables, Mark_Modified ''cppparser'', Mark_Modified ''cppmetricsparser'',
    Cleanup ''cppparser'', Cleanup ''cppmetricsparser'', Incremental_Cleanup, Parse ''cppparser'', Create_Indexes,
    Parse ''cppmetricsparser'', Write_Project_Info]"
  by code_simp

end
