(* ===== verification/MetricsLoc.thy ===== *)
theory MetricsLoc
  imports CppString
begin

text \<open>
  The line counts of \<^verbatim>\<open>plugins/metrics/parser/src/metricsparser.cpp\<close>: \<open>getLocFromFile\<close> with its
  helpers \<open>eraseBlankLines\<close>, \<open>setCommentTypes\<close> and \<open>eraseComments\<close>.

  The two loops of \<open>eraseComments\<close> search from the start of the text in every round; they are
  partial functions, and \<open>None\<close> says that the loop does not end. The theorems compare the counts
  with the lines of the file, and say exactly when the loop over block comments ends.
\<close>

section \<open>The code\<close>

record Loc =
  originalLines :: nat
  nonblankLines :: nat
  codeLines :: nat

definition no_lines :: Loc where
  "no_lines = \<lparr>originalLines = 0, nonblankLines = 0, codeLines = 0\<rparr>"

text \<open>\<open>std::count(begin, end, '\n') + 1\<close>.\<close>

definition count_lines :: "string \<Rightarrow> nat" where
  "count_lines s = count_list s LF + 1"

text \<open>
  The loop of \<open>eraseBlankLines\<close>. The text is \<open>done @ cur @ rest\<close>, where \<open>first\<close> points to the
  start of \<open>cur\<close> and \<open>it\<close> to the start of \<open>rest\<close>; \<open>file_.erase(first, it)\<close> drops \<open>cur\<close> and leaves
  \<open>it\<close> at the newline.
\<close>

fun erase_blank :: "string \<Rightarrow> string \<Rightarrow> bool \<Rightarrow> string \<Rightarrow> string" where
  "erase_blank done cur isBlankLine [] = done @ cur"
| "erase_blank done cur isBlankLine (c # rest) =
     (if \<not> isspace c then erase_blank done (cur @ [c]) False rest
      else if c = LF then
        (if isBlankLine \<and> cur \<noteq> [] then erase_blank (done @ [c]) [] True rest
         else erase_blank (done @ cur @ [c]) [] True rest)
      else erase_blank done (cur @ [c]) isBlankLine rest)"

text \<open>\<open>std::unique\<close> with the predicate that both characters are newlines.\<close>

fun unique_lf :: "string \<Rightarrow> string" where
  "unique_lf [] = []"
| "unique_lf [a] = [a]"
| "unique_lf (a # b # s) =
     (if a = LF \<and> b = LF then unique_lf (a # s) else a # unique_lf (b # s))"

definition eraseBlankLines :: "string \<Rightarrow> string" where
  "eraseBlankLines f = unique_lf (erase_blank [] [] True f)"

text \<open>The comment symbols of a file type: to the end of the line, start and end of a block.\<close>

definition setCommentTypes :: "string \<Rightarrow> string \<times> string \<times> string" where
  "setCommentTypes fileType =
     (if fileType = ''CPP'' \<or> fileType = ''Java'' then (''//'', ''/*'', ''*/'')
      else if fileType = ''Erlang'' \<or> fileType = ''Bash'' \<or> fileType = ''Perl'' then (''#'', [], [])
      else if fileType = ''Python'' then (''#'', replicate 3 (CHR 0x22), replicate 3 (CHR 0x22))
      else if fileType = ''Sql'' then (''--'', ''/*'', ''*/'')
      else if fileType = ''Ruby'' then (''#'', ''=begin'', LF # ''=end'')
      else ([], [], []))"

text \<open>The loop over the comments that end with their line.\<close>

partial_function (option) erase_single :: "string \<Rightarrow> string \<Rightarrow> (fault + string) option" where
  "erase_single single f =
     (let start = find_at single 0 f;
          end = str_find LF start f
      in
      if start = SIZE_MAX then Some (Inr f)
      else
        case str_erase f start (size_sub (if end = SIZE_MAX then length f else end) start) of
          Inl e \<Rightarrow> Some (Inl e)
        | Inr f \<Rightarrow> erase_single single f)"

text \<open>The loop over the block comments; the end symbol is skipped by the size of the start symbol.\<close>

partial_function (option) erase_multi :: "string \<Rightarrow> string \<Rightarrow> string \<Rightarrow> (fault + string) option" where
  "erase_multi ms me f =
     (let start = find_at ms 0 f;
          end = find_at me (size_add start (length ms)) f
      in
      if start = SIZE_MAX then Some (Inr f)
      else
        case str_erase f start (size_add (size_sub end start) (length ms)) of
          Inl e \<Rightarrow> Some (Inl e)
        | Inr f \<Rightarrow> erase_multi ms me f)"

definition eraseComments :: "string \<Rightarrow> string \<times> string \<times> string \<Rightarrow> (fault + string) option" where
  "eraseComments f = (\<lambda>(single, multiStart, multiEnd).
     case (if single \<noteq> [] then erase_single single f else Some (Inr f)) of
       None \<Rightarrow> None
     | Some (Inl e) \<Rightarrow> Some (Inl e)
     | Some (Inr f) \<Rightarrow> if multiStart \<noteq> [] then erase_multi multiStart multiEnd f else Some (Inr f))"

text \<open>\<open>content\<close> is the stored content of the file, if there is one.\<close>

definition getLocFromFile :: "string \<Rightarrow> string option \<Rightarrow> (fault + Loc) option" where
  "getLocFromFile fileType stored =
     (let content = (case stored of None \<Rightarrow> [] | Some c \<Rightarrow> c) in
      if content = [] then Some (Inr no_lines)
      else
        let original = count_lines content;
            content = eraseBlankLines content;
            nonblank = count_lines content
        in
        case eraseComments content (setCommentTypes fileType) of
          None \<Rightarrow> None
        | Some (Inl e) \<Rightarrow> Some (Inl e)
        | Some (Inr content) \<Rightarrow>
            Some (Inr \<lparr>originalLines = original, nonblankLines = nonblank,
                       codeLines = count_lines content\<rparr>))"

section \<open>Blank lines\<close>

definition blank :: "string \<Rightarrow> bool" where
  "blank l = list_all isspace l"

definition clean :: "string \<Rightarrow> string" where
  "clean l = (if blank l then [] else l)"

definition clean_lines :: "string list \<Rightarrow> string list" where
  "clean_lines ls = map clean (butlast ls) @ [last ls]"

lemma clean_lines_Cons: "ls \<noteq> [] \<Longrightarrow> clean_lines (l # ls) = clean l # clean_lines ls"
  by (simp add: clean_lines_def)

lemma isspace_LF [simp]: "isspace LF"
  by (simp add: isspace_def LF_def)

lemma erase_blank_lines:
  "LF \<notin> set cur \<Longrightarrow>
     erase_blank done cur (blank cur) rest = done @ join_with LF (clean_lines (split_on LF (cur @ rest)))"
proof (induction rest arbitrary: "done" cur)
  case Nil
  then show ?case by (simp add: split_on_single clean_lines_def)
next
  case (Cons c rest)
  show ?case
  proof (cases "c = LF")
    case True
    have next_line: "erase_blank d [] True rest = d @ join_with LF (clean_lines (split_on LF rest))" for d
      using Cons.IH [of "[]" d] by (simp add: blank_def)
    have "clean_lines (split_on LF (cur @ c # rest)) = clean cur # clean_lines (split_on LF rest)"
      using True Cons.prems by (simp add: split_on_append split_on_single clean_lines_Cons)
    then show ?thesis using True next_line
      by (cases "cur = []") (simp_all add: join_with_Cons clean_def clean_lines_def)
  next
    case False
    with Cons.IH [of "cur @ [c]" "done"] Cons.prems show ?thesis
      by (cases "isspace c") (simp_all add: blank_def)
  qed
qed

lemma unique_lf_char: "c \<noteq> LF \<Longrightarrow> unique_lf (c # s) = c # unique_lf s"
  by (cases s) simp_all

lemma unique_lf_line: "LF \<notin> set l \<Longrightarrow> unique_lf (l @ s) = l @ unique_lf s"
  by (induction l) (auto simp: unique_lf_char)

lemma count_unique_LF:
  "count_list (unique_lf (LF # s)) LF = count_list (unique_lf s) LF + (if take 1 s = [LF] then 0 else 1)"
  by (cases s) simp_all

lemma count_unique_join:
  assumes "2 \<le> length ls" "\<forall>l \<in> set ls. LF \<notin> set l"
  shows "count_list (unique_lf (join_with LF ls)) LF + 1 =
    length (filter (\<lambda>l. l \<noteq> []) ls) + (if hd ls = [] then 1 else 0) + (if last ls = [] then 1 else 0)"
  using assms
proof (induction ls)
  case (Cons l ls)
  note IH = Cons.IH
  obtain k ks where ls: "ls = k # ks" using Cons.prems by (cases ls) auto
  have l: "LF \<notin> set l" "LF \<notin> set k" using Cons.prems ls by auto
  have c: "count_list (unique_lf (join_with LF (l # ls))) LF =
      count_list (unique_lf (join_with LF ls)) LF + (if take 1 (join_with LF ls) = [LF] then 0 else 1)"
    using l(1) ls by (simp add: join_with_Cons unique_lf_line count_unique_LF count_list_0_iff)
  show ?case
  proof (cases "ks = []")
    case True
    have "take 1 k \<noteq> [LF]" using l(2) by (cases k) auto
    moreover have "unique_lf k = k" using unique_lf_line [OF l(2), of "[]"] by simp
    ultimately have "count_list (unique_lf (join_with LF (l # ls))) LF = 1"
      using c ls True l(2) by (simp add: count_list_0_iff)
    then show ?thesis using ls True by simp
  next
    case False
    have head: "take 1 (join_with LF ls) = [LF] \<longleftrightarrow> k = []"
      using ls False l(2) by (cases k) (auto simp: join_with_Cons)
    have "2 \<le> length ls" "\<forall>l \<in> set ls. LF \<notin> set l" using ls False Cons.prems by (auto simp: Suc_le_eq)
    from IH [OF this] have ih: "count_list (unique_lf (join_with LF ls)) LF + 1 =
        length (filter (\<lambda>l. l \<noteq> []) ls) + (if k = [] then 1 else 0) + (if last ls = [] then 1 else 0)"
      using ls by simp
    have f: "length (filter (\<lambda>l. l \<noteq> []) (l # ls)) + (if l = [] then 1 else 0) =
        length (filter (\<lambda>l. l \<noteq> []) ls) + 1" by simp
    have lst: "last (l # ls) = last ls" using ls by simp
    from ih f show ?thesis unfolding c head lst list.sel by (cases "k = []"; cases "l = []"; cases "last ls = []"; simp)
  qed
qed simp

lemma nonblank_count:
  assumes "2 \<le> length ls" "\<forall>l \<in> set ls. LF \<notin> set l"
  shows "count_list (unique_lf (join_with LF (clean_lines ls))) LF + 1 =
    length (filter (\<lambda>l. \<not> blank l) ls) + (if blank (hd ls) then 1 else 0) + (if blank (last ls) then 1 else 0)"
proof -
  obtain b l where ls: "ls = b @ [l]" "b \<noteq> []"
  proof -
    have "ls \<noteq> []" "butlast ls \<noteq> []" using assms(1) by (cases ls; cases "tl ls"; simp)+
    then show ?thesis using that [of "butlast ls" "last ls"] by simp
  qed
  have ne: "clean k \<noteq> [] \<longleftrightarrow> \<not> blank k" for k by (auto simp: clean_def blank_def)
  have f: "length (filter (\<lambda>k. k \<noteq> []) (map clean b)) = length (filter (\<lambda>k. \<not> blank k) b)"
    by (simp add: filter_map comp_def ne)
  have "\<forall>k \<in> set (clean_lines ls). LF \<notin> set k"
    using assms(2) ls by (auto simp: clean_lines_def clean_def)
  from count_unique_join [OF _ this] assms(1) f ls show ?thesis
    by (auto simp: clean_lines_def hd_map hd_append clean_def blank_def split: if_splits)
qed

lemma eraseBlankLines_count:
  assumes "s \<noteq> []"
  shows "count_lines (eraseBlankLines s) =
    (let ls = split_on LF s in
     if length ls = 1 then 1
     else length (filter (\<lambda>l. \<not> blank l) ls) + (if blank (hd ls) then 1 else 0) + (if blank (last ls) then 1 else 0))"
proof -
  have e: "eraseBlankLines s = unique_lf (join_with LF (clean_lines (split_on LF s)))"
    using erase_blank_lines [of "[]" "[]" s] by (simp add: eraseBlankLines_def blank_def)
  show ?thesis
  proof (cases "length (split_on LF s) = 1")
    case True
    then have "LF \<notin> set s" by (simp add: length_split_on count_list_0_iff)
    then have "eraseBlankLines s = s" using e unique_lf_line [of s "[]"] by (simp add: split_on_single clean_lines_def)
    with True \<open>LF \<notin> set s\<close> show ?thesis by (simp add: count_lines_def count_list_0_iff)
  next
    case False
    moreover have "0 < length (split_on LF s)" by simp
    ultimately have "2 \<le> length (split_on LF s)" by linarith
    from nonblank_count [OF this] split_on_parts False show ?thesis
      unfolding count_lines_def e by (simp add: Let_def)
  qed
qed

section \<open>Comments up to the end of the line\<close>

text \<open>The reference: every line loses what follows its first comment symbol.\<close>

definition cut :: "string \<Rightarrow> string \<Rightarrow> string" where
  "cut c l = (case strstr l c of None \<Rightarrow> l | Some i \<Rightarrow> take i l)"

lemma strstr_prefix_None:
  assumes "strstr (a @ b) c = Some (length a)" "c \<noteq> []"
  shows "strstr a c = None"
proof (rule ccontr)
  assume "strstr a c \<noteq> None"
  then obtain i where i: "strstr a c = Some i" by auto
  then have "i + length c \<le> length a" by (rule strstr_Some_le)
  with assms(2) have "i < length a" by (cases c) auto
  moreover have "take (length c) (drop i (a @ b)) = c"
    using strstr_SomeD [OF i] \<open>i + length c \<le> length a\<close> by simp
  ultimately show False using strstr_least [OF assms(1)] by blast
qed

lemma strstr_drop_prefix:
  assumes "strstr (p @ a) c = Some (length p + k)"
  shows "strstr a c = Some k"
proof -
  have at: "take (length c) (drop k a) = c" "k \<le> length a"
    using strstr_SomeD [OF assms] strstr_Some_le [OF assms] by simp_all
  from strstr_at [OF this] obtain j where j: "strstr a c = Some j" by blast
  have "\<not> k < j"
  proof
    assume "k < j"
    from strstr_least [OF j this] strstr_SomeD [OF assms] show False by simp
  qed
  moreover have "\<not> j < k"
  proof
    assume "j < k"
    then have "length p + j < length p + k" by simp
    from strstr_least [OF assms this] strstr_SomeD [OF j] show False by simp
  qed
  ultimately show ?thesis using j by simp
qed

text \<open>A symbol without newline that is the first in the text is the first in its line.\<close>

lemma first_comment:
  assumes s: "strstr f c = Some p" and c: "c \<noteq> []" "LF \<notin> set c"
  obtains ls l m ts where "split_on LF (take p f) = ls @ [l]" "split_on LF (drop p f) = m # ts"
    and "split_on LF f = ls @ [l @ m] @ ts" "strstr (l @ m) c = Some (length l)" "strstr l c = None"
    and "length c \<le> length m"
proof -
  obtain ls l where l: "split_on LF (take p f) = ls @ [l]"
    using that by (cases "split_on LF (take p f)" rule: rev_cases) auto
  obtain m ts where m: "split_on LF (drop p f) = m # ts" by (cases "split_on LF (drop p f)") auto
  have f: "split_on LF f = ls @ [l @ m] @ ts"
    using split_on_join_ends [of LF "take p f" "drop p f"] l m by simp
  have "take p f = (if ls = [] then l else join_with LF ls @ LF # l)"
  proof -
    have "take p f = join_with LF (ls @ [l])" by (metis join_split l)
    moreover have "join_with LF (ls @ [l]) = (if ls = [] then l else join_with LF ls @ LF # l)"
      by (induction LF ls rule: join_with.induct) (auto simp: join_with_Cons)
    ultimately show ?thesis by simp
  qed
  then obtain pre where pre: "take p f = pre @ l" by (metis append.left_neutral append.assoc append_Cons)
  have d: "drop p f = join_with LF (m # ts)" by (metis join_split m)
  then obtain post where post: "drop p f = m @ post" "post = [] \<or> (\<exists>q. post = LF # q)"
    by (cases ts) (auto simp: join_with_Cons)
  have start: "take (length c) (drop p f) = c" using strstr_SomeD [OF s] by simp
  have len: "length c \<le> length m"
  proof (rule ccontr)
    assume "\<not> length c \<le> length m"
    with start post have "c = m @ take (length c - length m) post" by simp
    with \<open>\<not> length c \<le> length m\<close> c(2) post(2) show False by (cases "length c - length m") auto
  qed
  have pf: "f = pre @ (l @ m @ post)" using pre post(1) by (metis append_assoc append_take_drop_id)
  have "p = length pre + length l"
    using pre strstr_Some_le [OF s] by (metis length_append length_take min.absorb2 add_leD1)
  with s pf have "strstr (l @ m @ post) c = Some (length l)"
    using strstr_drop_prefix [of pre "l @ m @ post" c "length l"] by simp
  then have first: "\<forall>j < length l. take (length c) (drop j (l @ m @ post)) \<noteq> c"
    "take (length c) (m @ post) = c"
    using strstr_least strstr_SomeD by fastforce+
  have lm: "strstr (l @ m) c = Some (length l)"
  proof -
    have "take (length c) m = c" using first(2) len by simp
    then obtain j where j: "strstr (l @ m) c = Some j" using strstr_at [of c "length l" "l @ m"] by auto
    have "\<not> j < length l"
    proof
      assume "j < length l"
      moreover have "take (length c) (drop j (l @ m @ post)) = c"
        using strstr_SomeD [OF j] strstr_Some_le [OF j] \<open>j < length l\<close> by simp
      ultimately show False using first(1) by blast
    qed
    moreover have "\<not> length l < j" using strstr_least [OF j, of "length l"] \<open>take (length c) m = c\<close> by auto
    ultimately show ?thesis using j by simp
  qed
  show ?thesis using that [OF l m f lm strstr_prefix_None [OF lm c(1)] len] .
qed

lemma str_find_LF:
  assumes "split_on LF (drop p f) = m # ts" "length f < SIZE_MAX" "p \<le> length f"
  shows "(if str_find LF p f = SIZE_MAX then length f else str_find LF p f) = p + length m \<and>
    split_on LF (drop (p + length m) f) = [] # ts"
proof (cases "ts = []")
  case True
  then have m: "drop p f = m" using assms(1) by (metis join_split join_with.simps(2))
  then have "LF \<notin> set (drop p f)" using split_on_parts [of m LF "drop p f"] assms(1) by simp
  then have "str_find LF p f = SIZE_MAX" by (simp add: str_find_def strchr_None [THEN iffD2])
  moreover have "length f = p + length m" using m assms(3) by (metis add_diff_inverse_nat length_drop not_less)
  ultimately show ?thesis using True by simp
next
  case False
  then have d: "drop p f = m @ LF # join_with LF ts"
    using assms(1) join_split [of LF "drop p f"] by (simp add: join_with_Cons)
  moreover have "LF \<notin> set m" using split_on_parts [of m LF "drop p f"] assms(1) by simp
  ultimately have find: "str_find LF p f = p + length m" by (simp add: str_find_def strchr_first)
  have "length (drop p f) = length m + 1 + length (join_with LF ts)" using d by simp
  then have "p + length m < SIZE_MAX" using assms(2) by simp
  moreover have "drop (p + length m) f = LF # join_with LF ts"
    using d by (metis add.commute append_eq_conv_conj drop_drop)
  moreover have "split_on LF (join_with LF ts) = ts"
    by (rule split_join [OF False]) (use assms(1) split_on_parts [of _ LF "drop p f"] in auto)
  ultimately show ?thesis using find by simp
qed

lemma erase_single_lines:
  assumes "single \<noteq> []" "LF \<notin> set single" "length f < SIZE_MAX"
  shows "erase_single single f = Some (Inr (join_with LF (map (cut single) (split_on LF f))))"
  using assms(3)
proof (induction "length f" arbitrary: f rule: less_induct)
  case less
  show ?case
  proof (cases "strstr f single")
    case None
    have "cut single l = l" if "l \<in> set (split_on LF f)" for l
    proof -
      have "sublist l f" using sublist_join [OF that, of LF] by simp
      with None have "strstr l single = None" by (auto simp: strstr_None dest: sublist_order.order_trans)
      then show ?thesis by (simp add: cut_def)
    qed
    then have "map (cut single) (split_on LF f) = split_on LF f" by (simp add: map_idI)
    with None show ?thesis by (subst erase_single.simps) (simp add: find_at_0)
  next
    case (Some p)
    obtain ls l m ts where lines: "split_on LF (take p f) = ls @ [l]" "split_on LF (drop p f) = m # ts"
        "split_on LF f = ls @ [l @ m] @ ts" "strstr (l @ m) single = Some (length l)"
        "strstr l single = None" "length single \<le> length m"
      by (rule first_comment [OF Some assms(1,2)])
    have p: "p + length single \<le> length f" by (rule strstr_Some_le [OF Some])
    then have pn: "find_at single 0 f = p" "p \<noteq> SIZE_MAX" using Some less.prems by (simp_all add: find_at_0)
    note e = str_find_LF [OF lines(2) less.prems]
    have pl: "p \<le> length f" using p by simp
    let ?f = "take p f @ drop (p + length m) f"
    have mle: "p + length m \<le> length f"
    proof -
      have "length (drop p f) = length (join_with LF (m # ts))" using lines(2) join_split [of LF "drop p f"] by simp
      then have "length m \<le> length (drop p f)" by (cases ts) simp_all
      then show ?thesis using pl by simp
    qed
    have size: "size_sub (if str_find LF p f = SIZE_MAX then length f else str_find LF p f) p = length m"
      using e [OF pl] mle less.prems by (simp add: size_sub_le)
    have run: "erase_single single f = erase_single single ?f"
      by (subst erase_single.simps) (use pn size pl in \<open>simp add: str_erase_def Let_def\<close>)
    have "single \<noteq> []" by (rule assms(1))
    then have "0 < length m" using lines(6) by (metis length_greater_0_conv less_le_trans)
    moreover have "length ?f = length f - length m" using mle by simp
    ultimately have shorter: "length ?f < length f" using mle by linarith
    have "split_on LF ?f = ls @ [l] @ ts"
      using split_on_join_ends [of LF "take p f" "drop (p + length m) f"] lines(1) e [OF pl] by simp
    moreover have "cut single (l @ m) = l" "cut single l = l" using lines(4,5) by (simp_all add: cut_def)
    ultimately have "map (cut single) (split_on LF ?f) = map (cut single) (split_on LF f)"
      using lines(3) by simp
    with less.hyps [OF shorter] shorter less.prems run show ?thesis by simp
  qed
qed

section \<open>Block comments\<close>

text \<open>
  One round of the loop. A round is stuck when it erases nothing: the first start symbol is not
  closed and begins one character before its own length.
\<close>

definition comment_round :: "string \<Rightarrow> string \<Rightarrow> string \<Rightarrow> string option" where
  "comment_round ms me f =
     (let start = find_at ms 0 f;
          end = find_at me (size_add start (length ms)) f
      in
      if start = SIZE_MAX then None
      else Some (take start f @ drop (start + size_add (size_sub end start) (length ms)) f))"

definition unclosed :: "string \<Rightarrow> string \<Rightarrow> string \<Rightarrow> bool" where
  "unclosed ms me f \<longleftrightarrow>
     find_at ms 0 f = length ms - 1 \<and> find_at me (size_add (find_at ms 0 f) (length ms)) f = SIZE_MAX"

inductive rounds :: "string \<Rightarrow> string \<Rightarrow> string \<Rightarrow> string \<Rightarrow> bool"
  for ms me :: string where
  rounds_refl: "rounds ms me f f"
| rounds_step: "comment_round ms me f = Some g \<Longrightarrow> rounds ms me g h \<Longrightarrow> rounds ms me f h"

lemma find_at_0_cases:
  assumes "length f < SIZE_MAX"
  obtains "find_at n 0 f = SIZE_MAX" | "find_at n 0 f + length n \<le> length f" "find_at n 0 f \<noteq> SIZE_MAX"
proof (cases "strstr f n")
  case None
  with that(1) show ?thesis by (simp add: find_at_0)
next
  case (Some i)
  from strstr_Some_le [OF this] Some that(2) assms show ?thesis by (simp add: find_at_0)
qed

lemma erase_multi_unfold:
  assumes "length f < SIZE_MAX"
  shows "erase_multi ms me f =
    (case comment_round ms me f of None \<Rightarrow> Some (Inr f) | Some g \<Rightarrow> erase_multi ms me g)"
  using assms
  by (rule find_at_0_cases [of f ms]; subst erase_multi.simps)
    (simp_all add: comment_round_def str_erase_def Let_def)

text \<open>The number of erased characters: none exactly in a stuck round.\<close>

lemma erased_count:
  assumes mx: "length f \<le> max_size" and start: "find_at ms 0 f \<noteq> SIZE_MAX" and ms: "ms \<noteq> []"
  shows "size_add (size_sub (find_at me (size_add (find_at ms 0 f) (length ms)) f) (find_at ms 0 f)) (length ms) = 0
    \<longleftrightarrow> unclosed ms me f"
proof -
  note f = max_size_bound(1) [OF mx]
  define p where "p = find_at ms 0 f"
  define e where "e = find_at me (size_add p (length ms)) f"
  have p: "p + length ms \<le> length f"
    using find_at_0_cases [OF f, of ms] start unfolding p_def by metis
  then have sum: "size_add p (length ms) = p + length ms" using f by (simp add: size_add_small)
  have len: "0 < length ms" using ms by simp
  show ?thesis
  proof (cases "e = SIZE_MAX")
    case True
    have "size_sub e p = SIZE_MAX - p" using True p f by (simp add: size_sub_le)
    then have "size_add (size_sub e p) (length ms) = (SIZE_MAX - p + length ms) mod (SIZE_MAX + 1)"
      by (simp add: size_add_def)
    also have "\<dots> = 0 \<longleftrightarrow> p = length ms - 1"
    proof (cases "p < length ms")
      case True
      have "SIZE_MAX - p + length ms = (SIZE_MAX + 1) + (length ms - 1 - p)" using True p f by simp
      then have "(SIZE_MAX - p + length ms) mod (SIZE_MAX + 1) = (length ms - 1 - p) mod (SIZE_MAX + 1)"
        by (metis mod_add_self1)
      also have "\<dots> = length ms - 1 - p" using p f by simp
      finally show ?thesis using True by auto
    next
      case False
      then have "SIZE_MAX - p + length ms < SIZE_MAX + 1" "0 < SIZE_MAX - p + length ms" using p f len by simp_all
      then show ?thesis using False len by auto
    qed
    finally show ?thesis using True by (simp add: unclosed_def p_def e_def)
  next
    case False
    have e: "e \<ge> p + length ms" "e \<le> length f"
    proof -
      have "p + length ms \<le> length f" by (rule p)
      with False show "e \<ge> p + length ms" "e \<le> length f"
        unfolding e_def sum find_at_def using strstr_Some_le [of "drop (p + length ms) f" me]
        by (auto split: option.splits if_splits)
    qed
    then have s: "size_sub e p = e - p" using f by (simp add: size_sub_le)
    have "e - p + length ms \<le> SIZE_MAX" using e p max_size_bound(2) [OF mx] by linarith
    then have "size_add (e - p) (length ms) \<noteq> 0" using len by (simp add: size_add_small)
    with s show ?thesis using False by (simp add: unclosed_def p_def [symmetric] e_def [symmetric])
  qed
qed

lemma comment_round_None: "comment_round ms me f = None \<longleftrightarrow> find_at ms 0 f = SIZE_MAX"
  by (simp add: comment_round_def Let_def)

lemma unclosed_round:
  assumes "length f \<le> max_size" "ms \<noteq> []" "length ms \<le> max_size" "unclosed ms me f"
  shows "comment_round ms me f = Some f"
proof -
  have "find_at ms 0 f \<noteq> SIZE_MAX" using assms(3,4) by (simp add: unclosed_def max_size_def SIZE_MAX_def)
  with erased_count [OF assms(1) this assms(2), of me] assms(4) show ?thesis
    by (simp add: comment_round_def Let_def)
qed

lemma round_shorter:
  assumes "length f \<le> max_size" "ms \<noteq> []" "comment_round ms me f = Some g" "\<not> unclosed ms me f"
  shows "length g < length f"
proof -
  have s: "find_at ms 0 f \<noteq> SIZE_MAX" using assms(3) comment_round_None [of ms me f] by auto
  then have p: "find_at ms 0 f + length ms \<le> length f"
    using find_at_0_cases [OF max_size_bound(1) [OF assms(1)], of ms] by metis
  then have "find_at ms 0 f < length f" using assms(2) by (cases ms) simp_all
  moreover have "0 < size_add (size_sub (find_at me (size_add (find_at ms 0 f) (length ms)) f) (find_at ms 0 f)) (length ms)"
    using erased_count [OF assms(1) s assms(2), of me] assms(4) by simp
  ultimately show ?thesis using assms(3) s by (auto simp: comment_round_def Let_def)
qed

lemma erase_multi_loops:
  assumes "length f \<le> max_size" "ms \<noteq> []" "length ms \<le> max_size" "unclosed ms me f"
  shows "erase_multi ms me f = None"
proof (rule ccontr)
  define stuck where
    "stuck ms me f \<longleftrightarrow> length f \<le> max_size \<and> ms \<noteq> [] \<and> length ms \<le> max_size \<and> unclosed ms me f" for ms me f
  assume "erase_multi ms me f \<noteq> None"
  then obtain r where run: "erase_multi ms me f = Some r" by auto
  have "\<not> stuck ms me f"
  proof (rule erase_multi.raw_induct [OF _ run, of "\<lambda>ms me f r. \<not> stuck ms me f"])
    fix rec ms me f r
    assume ih: "\<And>ms me f r. rec ms me f = Some r \<Longrightarrow> \<not> stuck ms me f"
      and body: "(let start = find_at ms 0 f; end = find_at me (size_add start (length ms)) f
         in if start = SIZE_MAX then Some (Inr f)
            else case str_erase f start (size_add (size_sub end start) (length ms)) of
              Inl e \<Rightarrow> Some (Inl e) | Inr f \<Rightarrow> rec ms me f) = Some r"
    show "\<not> stuck ms me f"
    proof
      assume st: "stuck ms me f"
      then have "comment_round ms me f = Some f" using unclosed_round by (simp add: stuck_def)
      then have start: "find_at ms 0 f \<noteq> SIZE_MAX" using comment_round_None [of ms me f] by auto
      have "size_add (size_sub (find_at me (size_add (find_at ms 0 f) (length ms)) f) (find_at ms 0 f)) (length ms) = 0"
        using erased_count [OF _ start, of me] st by (simp add: stuck_def)
      moreover have "find_at ms 0 f \<le> length f"
        using find_at_0_cases [of f ms] start st max_size_bound(1) unfolding stuck_def by (metis add_leD1)
      ultimately have "rec ms me f = Some r"
        using body start by (simp add: Let_def str_erase_def)
      from ih [OF this] st show False by simp
    qed
  qed
  then show False using assms by (simp add: stuck_def)
qed

inductive_simps rounds_from: "rounds ms me f h"

text \<open>The loop does not end exactly when its rounds lead to a stuck text.\<close>

lemma erase_multi_None_iff:
  assumes "length f \<le> max_size" "ms \<noteq> []" "length ms \<le> max_size"
  shows "erase_multi ms me f = None \<longleftrightarrow> (\<exists>g. rounds ms me f g \<and> unclosed ms me g)"
  using assms(1)
proof (induction "length f" arbitrary: f rule: less_induct)
  case less
  show ?case
  proof (cases "unclosed ms me f")
    case True
    with erase_multi_loops [OF less.prems assms(2,3)] show ?thesis by (auto intro: rounds_refl)
  next
    case False
    note unfold = erase_multi_unfold [OF max_size_bound(1) [OF less.prems], of ms me]
    show ?thesis
    proof (cases "comment_round ms me f")
      case None
      have "\<not> (rounds ms me f g \<and> unclosed ms me g)" for g
        using False None rounds_from [of ms me f g] by auto
      with None unfold show ?thesis by auto
    next
      case (Some g)
      have sh: "length g < length f" by (rule round_shorter [OF less.prems assms(2) Some False])
      with less.hyps [OF sh] less.prems unfold Some
      have "erase_multi ms me f = None \<longleftrightarrow> (\<exists>h. rounds ms me g h \<and> unclosed ms me h)" by simp
      also have "\<dots> \<longleftrightarrow> (\<exists>h. rounds ms me f h \<and> unclosed ms me h)"
        using Some False rounds_from [of ms me f] by auto
      finally show ?thesis .
    qed
  qed
qed

lemma erase_multi_no_fault: "length f \<le> max_size \<Longrightarrow> ms \<noteq> [] \<Longrightarrow> erase_multi ms me f \<noteq> Some (Inl e)"
proof (induction "length f" arbitrary: f rule: less_induct)
  case less
  note unfold = erase_multi_unfold [OF max_size_bound(1) [OF less.prems(1)], of ms me]
  show ?case
  proof (cases "comment_round ms me f")
    case (Some g)
    show ?thesis
    proof (cases "length g < length f")
      case True
      with less unfold Some show ?thesis by simp
    next
      case False
      then have "unclosed ms me f" using round_shorter [OF less.prems Some] by blast
      show ?thesis
      proof (cases "length ms \<le> max_size")
        case True
        with erase_multi_loops [OF less.prems True] \<open>unclosed ms me f\<close> show ?thesis by simp
      next
        case False
        have "find_at ms 0 f \<noteq> SIZE_MAX" using Some comment_round_None [of ms me f] by auto
        then have "length ms \<le> length f"
          using find_at_0_cases [OF max_size_bound(1) [OF less.prems(1)], of ms] by (metis add_leD2)
        with False less.prems show ?thesis by simp
      qed
    qed
  qed (use unfold in simp)
qed

section \<open>Properties\<close>

text \<open>
  The counts of a text with at least two lines, against its lines: the original lines are all
  of them, the last one, empty after a final newline, included; the non-blank lines are counted
  exactly, plus one if the first line is blank and plus one if the last line is (so every file that
  ends with a newline has one too many).
\<close>

theorem nonblank_lines_exact:
  assumes "getLocFromFile fileType (Some content) = Some (Inr loc)" and "LF \<in> set content"
  shows "originalLines loc = length (split_on LF content) \<and>
    nonblankLines loc = length (filter (\<lambda>l. \<not> blank l) (split_on LF content)) +
      (if blank (hd (split_on LF content)) then 1 else 0) + (if blank (last (split_on LF content)) then 1 else 0)"
proof -
  have ne: "content \<noteq> []" using assms(2) by auto
  have "count_list content LF \<noteq> 0" using assms(2) by (simp add: count_list_0_iff)
  then have "length (split_on LF content) \<noteq> 1" by (simp add: length_split_on)
  then show ?thesis using assms(1) ne eraseBlankLines_count [OF ne]
    by (auto simp: getLocFromFile_def Let_def count_lines_def length_split_on split: option.splits sum.splits)
qed

theorem nonblank_lines_exact_witness:
  "\<exists>loc. getLocFromFile ''Bash'' (Some (''a'' @ [LF, LF] @ ''b'' @ [LF])) = Some (Inr loc) \<and>
     originalLines loc = 4 \<and> nonblankLines loc = 3"
proof -
  let ?c = "''a'' @ [LF, LF] @ ''b'' @ [LF]"
  have "erase_single ''#'' (eraseBlankLines ?c) = Some (Inr (join_with LF (map (cut ''#'') (split_on LF (eraseBlankLines ?c)))))"
  proof (rule erase_single_lines)
    show "LF \<notin> set ''#''" by code_simp
    have "length (eraseBlankLines ?c) = 4" by code_simp
    then show "length (eraseBlankLines ?c) < SIZE_MAX" by (simp add: SIZE_MAX_def)
  qed simp
  moreover have "setCommentTypes ''Bash'' = (''#'', [], [])" by code_simp
  ultimately obtain loc where loc: "getLocFromFile ''Bash'' (Some ?c) = Some (Inr loc)"
    by (auto simp: getLocFromFile_def Let_def eraseComments_def)
  have "split_on LF ?c = [''a'', [], ''b'', []]" "\<not> blank ''a''" "\<not> blank ''b''" "blank []" by code_simp+
  with nonblank_lines_exact [OF loc] loc show ?thesis by (simp add: LF_def)
qed

text \<open>
  Comments to the end of a line never change the number of code lines: in every line the text
  from the first comment symbol on is removed, but the newline stays, and blank lines have been
  removed before. So for a language without block comments the code lines are the non-blank lines,
  lines that hold only a comment included.
\<close>

theorem line_comments_are_code_lines:
  assumes "setCommentTypes fileType = (single, [], [])" "single \<noteq> []"
    and "length (eraseBlankLines content) \<le> max_size" "content \<noteq> []"
  shows "\<exists>loc. getLocFromFile fileType (Some content) = Some (Inr loc) \<and> codeLines loc = nonblankLines loc \<and>
    eraseComments (eraseBlankLines content) (single, [], []) =
      Some (Inr (join_with LF (map (cut single) (split_on LF (eraseBlankLines content)))))"
proof -
  let ?f = "eraseBlankLines content"
  have "LF \<notin> set single" using assms(1) by (auto simp: setCommentTypes_def LF_def split: if_splits)
  from erase_single_lines [OF assms(2) this max_size_bound(1) [OF assms(3)]]
  have e: "erase_single single ?f = Some (Inr (join_with LF (map (cut single) (split_on LF ?f))))" .
  have "\<forall>l \<in> set (map (cut single) (split_on LF ?f)). LF \<notin> set l"
    using split_on_parts [of _ LF ?f] by (auto simp: cut_def split: option.splits dest: in_set_takeD)
  then have "split_on LF (join_with LF (map (cut single) (split_on LF ?f))) = map (cut single) (split_on LF ?f)"
    by (intro split_join) simp_all
  then have "count_lines (join_with LF (map (cut single) (split_on LF ?f))) = count_lines ?f"
    using length_split_on [of LF] unfolding count_lines_def by (metis Suc_eq_plus1 length_map)
  with e assms show ?thesis by (simp add: getLocFromFile_def eraseComments_def Let_def)
qed

theorem line_comments_are_code_lines_witness:
  "\<exists>loc. getLocFromFile ''Perl'' (Some (''#a'' @ [LF] @ ''b'')) = Some (Inr loc) \<and> codeLines loc = nonblankLines loc"
proof -
  have "setCommentTypes ''Perl'' = (''#'', [], [])" "length (eraseBlankLines (''#a'' @ [LF] @ ''b'')) = 4"
    by code_simp+
  with line_comments_are_code_lines [of "''Perl''" "''#''" "''#a'' @ [LF] @ ''b''"] show ?thesis
    by (auto simp: max_size_def)
qed

text \<open>
  C40: the loop over block comments ends on every text except those from which its rounds reach a
  text whose first comment is not closed and starts one character before the length of its symbol;
  there the number of characters to erase wraps around to 0. A C++ file that consists of one
  character and the start of a comment is enough.
\<close>

theorem block_comment_loop_ends:
  assumes "setCommentTypes fileType = (single, ms, me)" "ms \<noteq> []" "length f \<le> max_size"
  shows "(erase_multi ms me f = None \<longleftrightarrow> (\<exists>g. rounds ms me f g \<and> unclosed ms me g)) \<and>
    erase_multi ms me f \<noteq> Some (Inl e)"
proof -
  have "length ms \<le> 6" using assms(1) by (auto simp: setCommentTypes_def split: if_splits)
  then have "length ms \<le> max_size" by (simp add: max_size_def)
  from erase_multi_None_iff [OF assms(3,2) this] erase_multi_no_fault [OF assms(3,2)] show ?thesis
    by blast
qed

theorem block_comment_loop_ends_witness:
  "erase_multi ''/*'' ''*/'' ''x/*'' = None \<and> (\<exists>r. erase_multi ''/*'' ''*/'' ''/*x'' = Some (Inr r))"
proof -
  have c: "setCommentTypes ''CPP'' = (''//'', ''/*'', ''*/'')" by code_simp
  have len: "length ''x/*'' \<le> max_size" "length ''/*x'' \<le> max_size" by (simp_all add: max_size_def)
  have "unclosed ''/*'' ''*/'' ''x/*''" by code_simp
  with block_comment_loop_ends [OF c _ len(1)] rounds_refl have a: "erase_multi ''/*'' ''*/'' ''x/*'' = None" by blast
  have r: "comment_round ''/*'' ''*/'' ''/*x'' = Some ''*x''" "comment_round ''/*'' ''*/'' ''*x'' = None"
    "\<not> unclosed ''/*'' ''*/'' ''/*x''" "\<not> unclosed ''/*'' ''*/'' ''*x''" by code_simp+
  have "g = ''*x''" if "rounds ''/*'' ''*/'' ''*x'' g" for g
    using that r(2) rounds_from [of _ _ "''*x''" g] by auto
  then have "\<not> (\<exists>g. rounds ''/*'' ''*/'' ''/*x'' g \<and> unclosed ''/*'' ''*/'' g)"
    using r rounds_from [of "''/*''" "''*/''" "''/*x''"] by auto
  with block_comment_loop_ends [OF c _ len(2)] have "erase_multi ''/*'' ''*/'' ''/*x'' \<noteq> None"
    "\<And>e. erase_multi ''/*'' ''*/'' ''/*x'' \<noteq> Some (Inl e)" by auto
  then obtain r where "erase_multi ''/*'' ''*/'' ''/*x'' = Some (Inr r)" by (metis not_None_eq old.sum.exhaust)
  with a show ?thesis by blast
qed

end
