(* ===== verification/UtilThreadPool.thy ===== *)
theory UtilThreadPool
  imports CPrelude "HOL-Library.Multiset"
begin

text \<open>
  The job queues of \<^verbatim>\<open>util/include/util/threadpool.h\<close>.

  \<open>SingleThreadJobQueue\<close> runs a job when it is enqueued. \<open>PooledJobQueue\<close> is a state machine:
  its worker threads interleave with the thread that enqueues jobs and finally calls \<open>wait\<close>.
  A step is one access to the shared state: the atomic \<open>_die\<close>, the unprotected \<open>_queue.empty()\<close>
  of the loop condition, and what a thread does while it holds \<open>_lock\<close>. The wait on the condition
  variable has a timeout, so a sleeping worker may wake at any time.

  \<open>job_pool\<close> is the contract that users of a pool rely on: when \<open>wait\<close> has returned, exactly the
  enqueued jobs have been executed. Both queues are instances.
\<close>

section \<open>The queues\<close>

text \<open>
  Where a worker is: before reading \<open>_die\<close>; before \<open>_queue.empty()\<close> with \<open>_die\<close> read as true;
  before taking the lock; holding it before the test of the queue; asleep in \<open>wait_for\<close>; awake
  again and holding the lock; holding the lock with a job taken; working on a job; gone.
\<close>

datatype 'j worker_pc =
    At_Die | At_Empty | At_Lock | Inside | Asleep | Awake | Popped 'j | Working 'j | Exited

datatype client = Running | Joining | Joined

record 'j pool =
  pl_queue :: "'j list"
  pl_die :: bool
  pl_lock :: "nat option"
  pl_workers :: "'j worker_pc list"
  pl_client :: client
  pl_enqueued :: "'j list"
  pl_executed :: "'j list"

definition set_pc :: "nat \<Rightarrow> 'j worker_pc \<Rightarrow> 'j pool \<Rightarrow> 'j pool" where
  "set_pc i pc s = s\<lparr>pl_workers := (pl_workers s)[i := pc]\<rparr>"

definition lock_pool :: "nat option \<Rightarrow> 'j pool \<Rightarrow> 'j pool" where
  "lock_pool h s = s\<lparr>pl_lock := h\<rparr>"

definition PooledJobQueue :: "nat \<Rightarrow> 'j pool" where
  "PooledJobQueue threadCount =
     \<lparr>pl_queue = [], pl_die = False, pl_lock = None, pl_workers = replicate threadCount At_Die,
      pl_client = Running, pl_enqueued = [], pl_executed = []\<rparr>"

definition enqueue :: "'j \<Rightarrow> 'j pool \<Rightarrow> 'j pool" where
  "enqueue jobInfo s =
     s\<lparr>pl_queue := pl_queue s @ [jobInfo], pl_enqueued := pl_enqueued s @ [jobInfo]\<rparr>"

text \<open>One step of the worker \<open>i\<close> of \<open>PooledJobQueue::worker\<close>; none when it waits for the lock.\<close>

definition worker_step :: "nat \<Rightarrow> 'j pool \<Rightarrow> 'j pool option" where
  "worker_step i s =
     (case pl_workers s ! i of
        At_Die \<Rightarrow> Some (set_pc i (if pl_die s then At_Empty else At_Lock) s)
      | At_Empty \<Rightarrow> Some (set_pc i (if pl_queue s = [] then Exited else At_Lock) s)
      | At_Lock \<Rightarrow>
          if pl_lock s = None then Some (set_pc i Inside (lock_pool (Some i) s)) else None
      | Inside \<Rightarrow>
          (case pl_queue s of
             [] \<Rightarrow> Some (set_pc i Asleep (lock_pool None s))
           | job # q \<Rightarrow> Some (set_pc i (Popped job) (s\<lparr>pl_queue := q\<rparr>)))
      | Asleep \<Rightarrow>
          if pl_lock s = None then Some (set_pc i Awake (lock_pool (Some i) s)) else None
      | Awake \<Rightarrow> Some (set_pc i At_Die (lock_pool None s))
      | Popped job \<Rightarrow> Some (set_pc i (Working job) (lock_pool None s))
      | Working job \<Rightarrow> Some (set_pc i At_Die (s\<lparr>pl_executed := pl_executed s @ [job]\<rparr>))
      | Exited \<Rightarrow> None)"

text \<open>
  The steps of the pool. \<open>wait\<close> sets \<open>_die\<close>, joins every thread and then returns; the thread that
  owns the pool enqueues jobs before it.
\<close>

inductive pool_step :: "'j pool \<Rightarrow> 'j pool \<Rightarrow> bool" where
  step_enqueue: "pl_client s = Running \<Longrightarrow> pl_lock s = None \<Longrightarrow> pool_step s (enqueue j s)"
| step_wait: "pl_client s = Running \<Longrightarrow>
     pool_step s (s\<lparr>pl_die := True, pl_client := Joining\<rparr>)"
| step_joined: "pl_client s = Joining \<Longrightarrow> set (pl_workers s) \<subseteq> {Exited} \<Longrightarrow>
     pool_step s (s\<lparr>pl_client := Joined\<rparr>)"
| step_worker: "i < length (pl_workers s) \<Longrightarrow> worker_step i s = Some t \<Longrightarrow> pool_step s t"

definition pool_init :: "nat \<Rightarrow> 'j pool \<Rightarrow> bool" where
  "pool_init n s \<longleftrightarrow> s = PooledJobQueue n"

text \<open>The synchronous queue: \<open>enqueue\<close> runs the job, \<open>wait\<close> does nothing.\<close>

record 'j sync_queue =
  sq_waited :: bool
  sq_enqueued :: "'j list"
  sq_executed :: "'j list"

definition SingleThreadJobQueue :: "'j sync_queue" where
  "SingleThreadJobQueue = \<lparr>sq_waited = False, sq_enqueued = [], sq_executed = []\<rparr>"

definition sync_enqueue :: "'j \<Rightarrow> 'j sync_queue \<Rightarrow> 'j sync_queue" where
  "sync_enqueue j s = s\<lparr>sq_enqueued := sq_enqueued s @ [j], sq_executed := sq_executed s @ [j]\<rparr>"

inductive sync_step :: "'j sync_queue \<Rightarrow> 'j sync_queue \<Rightarrow> bool" where
  sync_enqueue_step: "\<not> sq_waited s \<Longrightarrow> sync_step s (sync_enqueue j s)"
| sync_wait_step: "\<not> sq_waited s \<Longrightarrow> sync_step s (s\<lparr>sq_waited := True\<rparr>)"

definition sync_init :: "'j sync_queue \<Rightarrow> bool" where
  "sync_init s \<longleftrightarrow> s = SingleThreadJobQueue"

datatype queue_kind = Single_Thread | Pooled nat

definition make_thread_pool :: "nat \<Rightarrow> bool \<Rightarrow> queue_kind" where
  "make_thread_pool threadCount forceAsync =
     (if threadCount = 1 \<and> \<not> forceAsync then Single_Thread else Pooled threadCount)"

section \<open>The contract of a pool\<close>

locale job_pool =
  fixes init :: "'s \<Rightarrow> bool"
    and step :: "'s \<Rightarrow> 's \<Rightarrow> bool"
    and finished :: "'s \<Rightarrow> bool"
    and enqueued :: "'s \<Rightarrow> 'j list"
    and executed :: "'s \<Rightarrow> 'j list"
  assumes executed_enqueued: "reachable init step s \<Longrightarrow> mset (executed s) \<subseteq># mset (enqueued s)"
    and finished_all: "reachable init step s \<Longrightarrow> finished s \<Longrightarrow> mset (executed s) = mset (enqueued s)"
begin

lemma only_enqueued: "reachable init step s \<Longrightarrow> set (executed s) \<subseteq> set (enqueued s)"
  using executed_enqueued by (metis set_mset_mono set_mset_mset)

lemma all_done: "reachable init step s \<Longrightarrow> finished s \<Longrightarrow> set (executed s) = set (enqueued s)"
  using finished_all by (metis set_mset_mset)

lemma once: "reachable init step s \<Longrightarrow> distinct (enqueued s) \<Longrightarrow> distinct (executed s)"
proof -
  assume r: "reachable init step s" and d: "distinct (enqueued s)"
  have "count (mset (executed s)) x = (if x \<in> set (executed s) then 1 else 0)" for x
  proof -
    have pos: "0 < count (mset (executed s)) x \<longleftrightarrow> x \<in> set (executed s)" by (simp only: count_greater_zero_iff set_mset_mset)
    have "count (mset (executed s)) x \<le> count (mset (enqueued s)) x"
      by (rule mset_subset_eq_count [OF executed_enqueued [OF r]])
    also have "\<dots> \<le> 1" using d by (simp add: distinct_count_atmost_1)
    finally have "count (mset (executed s)) x \<le> 1" .
    moreover define n where "n = count (mset (executed s)) x"
    ultimately show ?thesis using pos unfolding n_def [symmetric] by (cases "x \<in> set (executed s)") auto
  qed
  then show ?thesis by (simp add: distinct_count_atmost_1)
qed

lemma effects_sum:
  "reachable init step s \<Longrightarrow> finished s \<Longrightarrow>
     sum_list (map f (executed s)) = (sum_list (map f (enqueued s)) :: 'b :: comm_monoid_add)"
  using finished_all by (metis mset_map sum_mset_sum_list)

end

section \<open>The invariant\<close>

definition in_hand :: "'j worker_pc \<Rightarrow> 'j multiset" where
  "in_hand pc = (case pc of Popped j \<Rightarrow> {#j#} | Working j \<Rightarrow> {#j#} | _ \<Rightarrow> {#})"

lemma in_hand_simps [simp]:
  "in_hand At_Die = {#}" "in_hand At_Empty = {#}" "in_hand At_Lock = {#}" "in_hand Inside = {#}"
  "in_hand Asleep = {#}" "in_hand Awake = {#}" "in_hand Exited = {#}"
  "in_hand (Popped j) = {#j#}" "in_hand (Working j) = {#j#}"
  by (simp_all add: in_hand_def)

definition holds_lock :: "'j worker_pc \<Rightarrow> bool" where
  "holds_lock pc = (case pc of Inside \<Rightarrow> True | Awake \<Rightarrow> True | Popped _ \<Rightarrow> True | _ \<Rightarrow> False)"

lemma holds_lock_simps [simp]:
  "\<not> holds_lock At_Die" "\<not> holds_lock At_Empty" "\<not> holds_lock At_Lock" "holds_lock Inside"
  "\<not> holds_lock Asleep" "holds_lock Awake" "\<not> holds_lock Exited" "holds_lock (Popped j)"
  "\<not> holds_lock (Working j)"
  by (simp_all add: holds_lock_def)

text \<open>Every job is in exactly one place, and when a worker has left nothing can arrive any more.\<close>

definition pool_jobs :: "'j pool \<Rightarrow> 'j multiset" where
  "pool_jobs s = mset (pl_queue s) + sum_list (map in_hand (pl_workers s)) + mset (pl_executed s)"

definition pool_inv :: "'j pool \<Rightarrow> bool" where
  "pool_inv s \<longleftrightarrow>
     mset (pl_enqueued s) = pool_jobs s \<and>
     (\<forall>i < length (pl_workers s). holds_lock (pl_workers s ! i) \<longleftrightarrow> pl_lock s = Some i) \<and>
     (\<forall>i. pl_lock s = Some i \<longrightarrow> i < length (pl_workers s)) \<and>
     (pl_die s \<longleftrightarrow> pl_client s \<noteq> Running) \<and>
     (At_Empty \<in> set (pl_workers s) \<longrightarrow> pl_die s) \<and>
     (Exited \<in> set (pl_workers s) \<longrightarrow> pl_die s \<and> pl_queue s = []) \<and>
     (pl_client s = Joined \<longrightarrow> set (pl_workers s) \<subseteq> {Exited})"

lemma sum_list_update_add:
  fixes f :: "'a \<Rightarrow> 'b :: cancel_comm_monoid_add"
  assumes "i < length xs"
  shows "sum_list (map f (xs[i := v])) + f (xs ! i) = sum_list (map f xs) + f v"
proof -
  have "xs = take i xs @ xs ! i # drop (Suc i) xs" using assms by (rule id_take_nth_drop)
  then have "sum_list (map f xs) = sum_list (map f (take i xs)) + (f (xs ! i) + sum_list (map f (drop (Suc i) xs)))"
    by (metis map_append list.map(2) sum_list.append sum_list.Cons)
  then show ?thesis using assms
    by (simp add: upd_conv_take_nth_drop algebra_simps)
qed


lemma pool_init_inv: "pool_init n s \<Longrightarrow> pool_inv s"
proof -
  have "sum_list (map in_hand (replicate n At_Die)) = {#}" by (induction n) simp_all
  then show "pool_init n s \<Longrightarrow> pool_inv s"
    by (auto simp: pool_init_def PooledJobQueue_def pool_inv_def pool_jobs_def)
qed

lemma in_hand_update:
  assumes "i < length ws" "ws ! i = old"
  shows "sum_list (map in_hand (ws[i := pc])) + in_hand old = sum_list (map in_hand ws) + in_hand pc"
  using sum_list_update_add [OF assms(1), of in_hand pc] assms(2) by simp

text \<open>A worker step keeps the jobs, and hands the lock on correctly.\<close>

lemma worker_step_jobs:
  assumes i: "i < length (pl_workers s)" and w: "worker_step i s = Some t"
  shows "pool_jobs t = pool_jobs s \<and> pl_enqueued t = pl_enqueued s \<and> pl_die t = pl_die s \<and>
    pl_client t = pl_client s \<and> length (pl_workers t) = length (pl_workers s)"
proof (cases "pl_workers s ! i")
  case At_Die
  then show ?thesis using w in_hand_update [OF i At_Die, of At_Empty] in_hand_update [OF i At_Die, of At_Lock]
    by (auto simp: worker_step_def set_pc_def pool_jobs_def)
next
  case At_Empty
  then show ?thesis using w in_hand_update [OF i At_Empty, of Exited] in_hand_update [OF i At_Empty, of At_Lock]
    by (auto simp: worker_step_def set_pc_def pool_jobs_def split: if_splits)
next
  case At_Lock
  then show ?thesis using w in_hand_update [OF i At_Lock, of Inside]
    by (auto simp: worker_step_def set_pc_def lock_pool_def pool_jobs_def split: if_splits)
next
  case Inside
  then show ?thesis using w in_hand_update [OF i Inside, of Asleep]
      in_hand_update [OF i Inside, of "Popped (hd (pl_queue s))"]
    by (cases "pl_queue s") (auto simp: worker_step_def set_pc_def lock_pool_def pool_jobs_def)
next
  case Asleep
  then show ?thesis using w in_hand_update [OF i Asleep, of Awake]
    by (auto simp: worker_step_def set_pc_def lock_pool_def pool_jobs_def split: if_splits)
next
  case Awake
  then show ?thesis using w in_hand_update [OF i Awake, of At_Die]
    by (auto simp: worker_step_def set_pc_def lock_pool_def pool_jobs_def)
next
  case (Popped j)
  then show ?thesis using w in_hand_update [OF i Popped, of "Working j"]
    by (auto simp: worker_step_def set_pc_def lock_pool_def pool_jobs_def)
next
  case (Working j)
  then show ?thesis using w in_hand_update [OF i Working, of At_Die]
    by (auto simp: worker_step_def set_pc_def lock_pool_def pool_jobs_def)
next
  case Exited
  then show ?thesis using w by (simp add: worker_step_def)
qed

text \<open>
  What a worker step does to the rest of the state: the worker is at \<open>pc\<close> afterwards, which holds
  the lock only if it held it before or the lock was free.
\<close>

definition moves_to :: "nat \<Rightarrow> 'j worker_pc \<Rightarrow> 'j pool \<Rightarrow> 'j pool \<Rightarrow> bool" where
  "moves_to i pc s t \<longleftrightarrow>
     pl_workers t = (pl_workers s)[i := pc] \<and> pl_workers s ! i \<noteq> Exited \<and>
     pl_lock t = (if holds_lock pc then Some i
       else if holds_lock (pl_workers s ! i) then None else pl_lock s) \<and>
     (holds_lock pc \<longrightarrow> holds_lock (pl_workers s ! i) \<or> pl_lock s = None) \<and>
     (pc = At_Empty \<longrightarrow> pl_die s) \<and>
     (pc = Exited \<longrightarrow> pl_workers s ! i = At_Empty \<and> pl_queue s = []) \<and>
     (pl_queue s = [] \<longrightarrow> pl_queue t = [])"

lemma worker_step_moves:
  assumes w: "worker_step i s = Some t" and own: "holds_lock (pl_workers s ! i) \<Longrightarrow> pl_lock s = Some i"
  shows "\<exists>pc. moves_to i pc s t"
proof (cases "pl_workers s ! i")
  case At_Die
  with w have "moves_to i (if pl_die s then At_Empty else At_Lock) s t"
    by (auto simp: worker_step_def set_pc_def moves_to_def)
  then show ?thesis ..
next
  case At_Empty
  with w have "moves_to i (if pl_queue s = [] then Exited else At_Lock) s t"
    by (auto simp: worker_step_def set_pc_def moves_to_def)
  then show ?thesis ..
next
  case At_Lock
  with w have "moves_to i Inside s t"
    by (auto simp: worker_step_def set_pc_def lock_pool_def moves_to_def split: if_splits)
  then show ?thesis ..
next
  case Inside
  with w own have "moves_to i (if pl_queue s = [] then Asleep else Popped (hd (pl_queue s))) s t"
    by (cases "pl_queue s") (auto simp: worker_step_def set_pc_def lock_pool_def moves_to_def)
  then show ?thesis ..
next
  case Asleep
  with w have "moves_to i Awake s t"
    by (auto simp: worker_step_def set_pc_def lock_pool_def moves_to_def split: if_splits)
  then show ?thesis ..
next
  case Awake
  with w have "moves_to i At_Die s t"
    by (auto simp: worker_step_def set_pc_def lock_pool_def moves_to_def)
  then show ?thesis ..
next
  case (Popped j)
  with w have "moves_to i (Working j) s t"
    by (auto simp: worker_step_def set_pc_def lock_pool_def moves_to_def)
  then show ?thesis ..
next
  case (Working j)
  with w have "moves_to i At_Die s t"
    by (auto simp: worker_step_def set_pc_def moves_to_def)
  then show ?thesis ..
next
  case Exited
  with w show ?thesis by (simp add: worker_step_def)
qed

lemma worker_step_inv:
  assumes inv: "pool_inv s" and i: "i < length (pl_workers s)" and w: "worker_step i s = Some t"
  shows "pool_inv t"
proof -
  note j = worker_step_jobs [OF i w]
  have own: "holds_lock (pl_workers s ! i) \<Longrightarrow> pl_lock s = Some i" using inv i by (simp add: pool_inv_def)
  obtain pc where m: "moves_to i pc s t" using worker_step_moves [OF w own] by blast
  note pc = m [unfolded moves_to_def]
  have old: "pl_workers s ! i \<in> set (pl_workers s)" using i by simp
  have sub: "set (pl_workers t) \<subseteq> insert pc (set (pl_workers s))"
    using m by (simp add: moves_to_def set_update_subset_insert)
  have lock: "holds_lock (pl_workers t ! k) \<longleftrightarrow> pl_lock t = Some k" if "k < length (pl_workers t)" for k
  proof -
    have s: "holds_lock (pl_workers s ! k) \<longleftrightarrow> pl_lock s = Some k"
      "holds_lock (pl_workers s ! i) \<longleftrightarrow> pl_lock s = Some i"
      using inv i that by (auto simp: pool_inv_def pc)
    show ?thesis
    proof (cases "k = i")
      case True
      then show ?thesis using s i by (auto simp: pc)
    next
      case False
      then show ?thesis using s pc by (auto split: if_splits)
    qed
  qed
  have idx: "k < length (pl_workers t)" if "pl_lock t = Some k" for k
    using that i inv pc by (auto simp: pool_inv_def split: if_splits)
  have "pl_client s \<noteq> Joined" using inv old pc by (auto simp: pool_inv_def)
  moreover have "At_Empty \<in> set (pl_workers t) \<Longrightarrow> pl_die s" using sub pc inv by (auto simp: pool_inv_def)
  moreover have "Exited \<in> set (pl_workers t) \<Longrightarrow> pl_die s \<and> pl_queue t = []"
  proof -
    assume "Exited \<in> set (pl_workers t)"
    with sub have "pc = Exited \<or> Exited \<in> set (pl_workers s)" by auto
    then show ?thesis
    proof
      assume "pc = Exited"
      with pc have "pl_workers s ! i = At_Empty" "pl_queue s = []" by simp_all
      with old inv pc show ?thesis by (auto simp: pool_inv_def)
    next
      assume "Exited \<in> set (pl_workers s)"
      with inv pc show ?thesis by (auto simp: pool_inv_def)
    qed
  qed
  ultimately show ?thesis using inv j lock idx by (simp add: pool_inv_def)
qed

lemma pool_step_inv: "pool_inv s \<Longrightarrow> pool_step s t \<Longrightarrow> pool_inv t"
proof (erule pool_step.cases, goal_cases)
  case (1 s' j)
  then show ?case by (auto simp: pool_inv_def enqueue_def pool_jobs_def)
next
  case (2 s')
  then show ?case by (auto simp: pool_inv_def pool_jobs_def)
next
  case (3 s')
  then show ?case by (auto simp: pool_inv_def pool_jobs_def)
next
  case (4 i s' t')
  then show ?case using worker_step_inv by blast
qed

interpretation pool: transition_system "pool_init n" pool_step pool_inv
  by unfold_locales (rule pool_init_inv, assumption, rule pool_step_inv)

lemma pool_workers_length:
  "reachable (pool_init n) pool_step s \<Longrightarrow> length (pl_workers s) = n"
proof (induction rule: reachable.induct)
  case (reachable_init s)
  then show ?case by (simp add: pool_init_def PooledJobQueue_def)
next
  case (reachable_step s t)
  from reachable_step.hyps(2) reachable_step.IH show ?case
    by cases (auto simp: enqueue_def dest: worker_step_jobs)
qed

text \<open>When the threads have been joined, no job is left in the queue or in a hand.\<close>

lemma joined_empty:
  assumes "pool_inv s" "pl_client s = Joined" "pl_workers s \<noteq> []"
  shows "mset (pl_executed s) = mset (pl_enqueued s)"
proof -
  have ex: "set (pl_workers s) \<subseteq> {Exited}" using assms by (simp add: pool_inv_def)
  with assms(3) have "Exited \<in> set (pl_workers s)" by (cases "pl_workers s") auto
  with assms(1) have q: "pl_queue s = []" by (simp add: pool_inv_def)
  have "sum_list (map in_hand ws) = {#}" if "set ws \<subseteq> {Exited}" for ws :: "'a worker_pc list"
    using that by (induction ws) auto
  from this [OF ex] q assms(1) show ?thesis by (simp add: pool_inv_def pool_jobs_def)
qed

interpretation pooled: job_pool "pool_init (Suc n)" pool_step "\<lambda>s. pl_client s = Joined" pl_enqueued pl_executed
proof unfold_locales
  fix s :: "'a pool"
  assume r: "reachable (pool_init (Suc n)) pool_step s"
  from pool.reachable_inv [OF r] show "mset (pl_executed s) \<subseteq># mset (pl_enqueued s)"
    by (simp add: pool_inv_def pool_jobs_def)
  assume "pl_client s = Joined"
  with pool.reachable_inv [OF r] pool_workers_length [OF r]
  show "mset (pl_executed s) = mset (pl_enqueued s)"
    by (intro joined_empty) auto
qed

lemma sync_same: "reachable sync_init sync_step s \<Longrightarrow> sq_executed s = sq_enqueued s"
proof (induction rule: reachable.induct)
  case (reachable_init s)
  then show ?case by (simp add: sync_init_def SingleThreadJobQueue_def)
next
  case (reachable_step s t)
  from reachable_step.hyps(2) reachable_step.IH show ?case
    by cases (simp_all add: sync_enqueue_def)
qed

interpretation single: job_pool sync_init sync_step sq_waited sq_enqueued sq_executed
  by unfold_locales (simp_all add: sync_same)


section \<open>Progress after \<open>wait\<close>\<close>

text \<open>
  After \<open>wait\<close> every step brings a worker closer to taking a job or, once the queue is empty, to
  leaving: \<open>rank q\<close> is the distance of a position, \<open>q\<close> telling that the queue is not empty.
\<close>

definition rank :: "bool \<Rightarrow> 'j worker_pc \<Rightarrow> nat" where
  "rank q pc =
     (case pc of
        Popped _ \<Rightarrow> 9 | Working _ \<Rightarrow> 8
      | Asleep \<Rightarrow> if q then 7 else 5 | Awake \<Rightarrow> if q then 6 else 4
      | At_Die \<Rightarrow> if q then 5 else 3 | At_Empty \<Rightarrow> if q then 4 else 2
      | At_Lock \<Rightarrow> if q then 3 else 7 | Inside \<Rightarrow> if q then 2 else 6
      | Exited \<Rightarrow> 0)"

definition pool_measure :: "'j pool \<Rightarrow> nat" where
  "pool_measure s =
     length (pl_queue s) * (10 * length (pl_workers s)) +
     sum_list (map (rank (pl_queue s \<noteq> [])) (pl_workers s)) + (if pl_client s = Joined then 0 else 1)"

lemma sum_rank_le: "sum_list (map (rank q) ws) \<le> 9 * length ws"
proof -
  have "rank q pc \<le> 9" for pc :: "'a worker_pc" by (simp add: rank_def split: worker_pc.splits)
  then show ?thesis by (induction ws) (simp_all add: add_mono)
qed

lemma sum_list_update_less:
  fixes f :: "'a \<Rightarrow> nat"
  assumes "i < length xs" "f v < f (xs ! i)"
  shows "sum_list (map f (xs[i := v])) < sum_list (map f xs)"
  using sum_list_update_add [OF assms(1), of f v] assms(2) by linarith

text \<open>A step that leaves the queue alone.\<close>

lemma rank_step:
  assumes "i < length (pl_workers s)" "pl_workers t = (pl_workers s)[i := pc]"
    and "pl_queue t = pl_queue s" "pl_client t = pl_client s"
    and "rank (pl_queue s \<noteq> []) pc < rank (pl_queue s \<noteq> []) (pl_workers s ! i)"
  shows "pool_measure t < pool_measure s"
  using sum_list_update_less [OF assms(1), of "rank (pl_queue s \<noteq> [])" pc] assms(2-5)
  by (simp add: pool_measure_def)

lemma pop_step:
  assumes "i < length (pl_workers s)" "pl_queue s = job # q"
    and "t = set_pc i (Popped job) (s\<lparr>pl_queue := q\<rparr>)"
  shows "pool_measure t < pool_measure s"
proof -
  have "sum_list (map (rank (q \<noteq> [])) ((pl_workers s)[i := Popped job])) \<le> 9 * length (pl_workers s)"
    using sum_rank_le [of "q \<noteq> []" "(pl_workers s)[i := Popped job]"] by simp
  moreover have "0 < length (pl_workers s)" using assms(1) by linarith
  ultimately show ?thesis using assms by (simp add: pool_measure_def set_pc_def algebra_simps)
qed

lemma worker_step_decreases:
  assumes i: "i < length (pl_workers s)" and w: "worker_step i s = Some t" and die: "pl_die s"
  shows "pool_measure t < pool_measure s"
proof (cases "pl_workers s ! i")
  case At_Die
  show ?thesis by (rule rank_step [OF i, of _ At_Empty])
      (use At_Die w die in \<open>auto simp: worker_step_def set_pc_def rank_def\<close>)
next
  case At_Empty
  show ?thesis by (rule rank_step [OF i, of _ "if pl_queue s = [] then Exited else At_Lock"])
      (use At_Empty w in \<open>auto simp: worker_step_def set_pc_def rank_def\<close>)
next
  case At_Lock
  show ?thesis by (rule rank_step [OF i, of _ Inside])
      (use At_Lock w in \<open>auto simp: worker_step_def set_pc_def lock_pool_def rank_def split: if_splits\<close>)
next
  case Inside
  show ?thesis
  proof (cases "pl_queue s")
    case Nil
    show ?thesis by (rule rank_step [OF i, of _ Asleep])
        (use Inside Nil w in \<open>auto simp: worker_step_def set_pc_def lock_pool_def rank_def\<close>)
  next
    case (Cons job q)
    show ?thesis by (rule pop_step [OF i Cons]) (use Inside Cons w in \<open>simp add: worker_step_def\<close>)
  qed
next
  case Asleep
  show ?thesis by (rule rank_step [OF i, of _ Awake])
      (use Asleep w in \<open>auto simp: worker_step_def set_pc_def lock_pool_def rank_def split: if_splits\<close>)
next
  case Awake
  show ?thesis by (rule rank_step [OF i, of _ At_Die])
      (use Awake w in \<open>auto simp: worker_step_def set_pc_def lock_pool_def rank_def\<close>)
next
  case (Popped j)
  show ?thesis by (rule rank_step [OF i, of _ "Working j"])
      (use Popped w in \<open>auto simp: worker_step_def set_pc_def lock_pool_def rank_def\<close>)
next
  case (Working j)
  show ?thesis by (rule rank_step [OF i, of _ At_Die])
      (use Working w in \<open>auto simp: worker_step_def set_pc_def rank_def\<close>)
next
  case Exited
  with w show ?thesis by (simp add: worker_step_def)
qed

lemma joining_step:
  assumes "pool_inv s" "pl_client s = Joining" "pool_step s t"
  shows "pool_measure t < pool_measure s \<and> pl_client t \<noteq> Running"
  using assms(3)
proof cases
  case (step_worker i)
  have "pl_die s" using assms by (simp add: pool_inv_def)
  with worker_step_decreases [OF step_worker] worker_step_jobs [OF step_worker] assms(2) show ?thesis
    by simp
qed (use assms(2) in \<open>simp_all add: pool_measure_def\<close>)

lemma joined_no_step:
  assumes "pl_client s = Joined" "pool_inv s"
  shows "\<not> pool_step s t"
proof
  assume "pool_step s t"
  then show False
  proof cases
    case (step_worker i)
    then have "pl_workers s ! i \<in> set (pl_workers s)" by simp
    with assms have "pl_workers s ! i = Exited" by (auto simp: pool_inv_def)
    with step_worker show False by (simp add: worker_step_def)
  qed (use assms(1) in simp_all)
qed

lemma joining_not_stuck:
  assumes inv: "pool_inv s" and "pl_client s = Joining"
  shows "\<exists>t. pool_step s t"
proof (cases "set (pl_workers s) \<subseteq> {Exited}")
  case True
  from step_joined [OF assms(2) True] show ?thesis by blast
next
  case False
  then obtain i where i: "i < length (pl_workers s)" "pl_workers s ! i \<noteq> Exited"
    by (metis in_set_conv_nth singleton_iff subsetI)
  show ?thesis
  proof (cases "pl_lock s")
    case None
    with i have "\<exists>t. worker_step i s = Some t"
      by (cases "pl_workers s ! i") (auto simp: worker_step_def split: list.splits)
    with i(1) show ?thesis by (blast intro: step_worker)
  next
    case (Some k)
    with inv have k: "k < length (pl_workers s)" "holds_lock (pl_workers s ! k)"
      by (auto simp: pool_inv_def)
    then have "\<exists>t. worker_step k s = Some t"
      by (cases "pl_workers s ! k") (auto simp: worker_step_def split: list.splits)
    with k(1) show ?thesis by (blast intro: step_worker)
  qed
qed

lemma joining_run_bound:
  assumes "(pool_step ^^ k) s t" "pool_inv s" "pl_client s \<noteq> Running"
  shows "k + pool_measure t \<le> pool_measure s \<and> pool_inv t \<and> pl_client t \<noteq> Running"
  using assms(1)
proof (induction k arbitrary: t)
  case 0
  with assms show ?case by simp
next
  case (Suc k)
  then obtain u where u: "(pool_step ^^ k) s u" "pool_step u t" by auto
  from Suc.IH [OF u(1)] have ih: "k + pool_measure u \<le> pool_measure s" "pool_inv u" "pl_client u \<noteq> Running"
    by auto
  have "pl_client u = Joining" using ih(3) joined_no_step [OF _ ih(2)] u(2) by (cases "pl_client u") auto
  from joining_step [OF ih(2) this u(2)] ih(1) pool_step_inv [OF ih(2) u(2)] show ?case by simp
qed

section \<open>An example run, and a pool without threads\<close>

text \<open>The first worker alone, for \<open>k\<close> steps or until it has to wait.\<close>

fun drive :: "nat \<Rightarrow> 'j pool \<Rightarrow> 'j pool" where
  "drive 0 s = s"
| "drive (Suc k) s = (case worker_step 0 s of None \<Rightarrow> s | Some t \<Rightarrow> drive k t)"

lemma drive_reachable:
  "reachable init pool_step s \<Longrightarrow> pl_workers s \<noteq> [] \<Longrightarrow> reachable init pool_step (drive k s)"
proof (induction k arbitrary: s)
  case (Suc k)
  show ?case
  proof (cases "worker_step 0 s")
    case (Some t)
    have i: "0 < length (pl_workers s)" using Suc.prems(2) by simp
    have "pl_workers t \<noteq> []" using worker_step_jobs [OF i Some] i by auto
    with Suc.IH [OF reachable_step [OF Suc.prems(1) step_worker [OF i Some]]] Some show ?thesis by simp
  qed (use Suc.prems in simp)
qed simp

definition close_pool :: "'j pool \<Rightarrow> 'j pool" where
  "close_pool s = s\<lparr>pl_die := True, pl_client := Joining\<rparr>"

definition example_closed :: "nat pool" where
  "example_closed = close_pool (drive 5 (enqueue 7 (PooledJobQueue 1)))"

definition example_joined :: "nat pool" where
  "example_joined = (drive 2 example_closed)\<lparr>pl_client := Joined\<rparr>"

lemma example_closed_reachable: "reachable (pool_init (Suc 0)) pool_step example_closed"
proof -
  have "reachable (pool_init (Suc 0)) pool_step (PooledJobQueue 1 :: nat pool)"
    by (rule reachable_init) (simp add: pool_init_def)
  then have "reachable (pool_init (Suc 0)) pool_step (enqueue (7 :: nat) (PooledJobQueue 1))"
    by (rule reachable_step) (rule step_enqueue, simp_all add: PooledJobQueue_def)
  then have r: "reachable (pool_init (Suc 0)) pool_step (drive 5 (enqueue (7 :: nat) (PooledJobQueue 1)))"
    by (rule drive_reachable) (simp add: PooledJobQueue_def enqueue_def)
  have run: "pl_client (drive 5 (enqueue (7 :: nat) (PooledJobQueue 1))) = Running" by code_simp
  show ?thesis unfolding example_closed_def close_pool_def
    by (rule reachable_step [OF r step_wait [OF run]])
qed

lemma example_joined_step: "pool_step (drive 2 example_closed) example_joined"
proof -
  have "pl_client (drive 2 example_closed) = Joining" "pl_workers (drive 2 example_closed) = [Exited]" by code_simp+
  then show ?thesis unfolding example_joined_def by (intro step_joined) simp_all
qed

lemma example_joined_reachable: "reachable (pool_init (Suc 0)) pool_step example_joined"
proof -
  have "pl_workers example_closed \<noteq> []" by code_simp
  from reachable_step [OF drive_reachable [OF example_closed_reachable this] example_joined_step]
  show ?thesis .
qed

text \<open>A pool of one thread that has run one job, whatever the job.\<close>

lemma one_job_run:
  "\<exists>s. reachable (pool_init (Suc 0)) pool_step s \<and> pl_client s = Joined \<and> pl_enqueued s = [j] \<and> pl_executed s = [j]"
proof -
  let ?r = "\<lambda>s. reachable (pool_init (Suc 0)) pool_step s"
  define s0 where "s0 = drive 5 (enqueue j (PooledJobQueue 1))"
  define s1 where "s1 = drive 2 (close_pool s0)"
  note run = drive.simps worker_step_def set_pc_def lock_pool_def enqueue_def PooledJobQueue_def close_pool_def
  have s0: "s0 = \<lparr>pl_queue = [], pl_die = False, pl_lock = None, pl_workers = [At_Die], pl_client = Running,
      pl_enqueued = [j], pl_executed = [j]\<rparr>"
    by (simp add: s0_def eval_nat_numeral run)
  have s1: "s1 = \<lparr>pl_queue = [], pl_die = True, pl_lock = None, pl_workers = [Exited], pl_client = Joining,
      pl_enqueued = [j], pl_executed = [j]\<rparr>"
    by (simp add: s1_def s0 eval_nat_numeral run)
  have "?r (PooledJobQueue 1)" by (rule reachable_init) (simp add: pool_init_def)
  then have "?r (enqueue j (PooledJobQueue 1))"
    by (rule reachable_step) (rule step_enqueue, simp_all add: PooledJobQueue_def)
  then have "?r s0" unfolding s0_def by (rule drive_reachable) (simp add: PooledJobQueue_def enqueue_def)
  then have "?r (close_pool s0)"
    unfolding close_pool_def by (rule reachable_step) (rule step_wait, simp add: s0)
  then have "?r s1" unfolding s1_def by (rule drive_reachable) (simp add: close_pool_def s0)
  then have "?r (s1\<lparr>pl_client := Joined\<rparr>)" by (rule reachable_step) (rule step_joined, simp_all add: s1)
  then show ?thesis by (intro exI [of _ "s1\<lparr>pl_client := Joined\<rparr>"]) (simp add: s1)
qed

text \<open>With no thread at all the enqueued jobs are never run, and \<open>wait\<close> returns nevertheless.\<close>

lemma pool_without_threads:
  "\<exists>s. reachable (pool_init 0) pool_step s \<and> pl_client s = Joined \<and>
     pl_enqueued s = [j] \<and> pl_executed s = []"
proof -
  let ?s = "enqueue j (PooledJobQueue 0)"
  have "reachable (pool_init 0) pool_step (PooledJobQueue 0 :: 'a pool)"
    by (rule reachable_init) (simp add: pool_init_def)
  then have "reachable (pool_init 0) pool_step ?s"
    by (rule reachable_step) (rule step_enqueue, simp_all add: PooledJobQueue_def)
  then have "reachable (pool_init 0) pool_step (close_pool ?s)"
    unfolding close_pool_def by (rule reachable_step)
      (rule step_wait, simp add: PooledJobQueue_def enqueue_def)
  then have "reachable (pool_init 0) pool_step ((close_pool ?s)\<lparr>pl_client := Joined\<rparr>)"
    by (rule reachable_step) (rule step_joined, simp_all add: PooledJobQueue_def enqueue_def close_pool_def)
  then show ?thesis
    by (intro exI [of _ "(close_pool ?s)\<lparr>pl_client := Joined\<rparr>"])
      (simp add: PooledJobQueue_def enqueue_def close_pool_def)
qed

section \<open>Properties\<close>

text \<open>
  C13: a pool executes a job at most once and only jobs that were enqueued, however its threads
  interleave; when \<open>wait\<close> has returned, exactly the enqueued jobs have been executed. With one
  thread the pool is the synchronous queue, with the same result.
\<close>

theorem pool_executes_each_job_once:
  fixes s :: "'j pool" and q :: "'j sync_queue"
  assumes "reachable (pool_init (Suc n)) pool_step s" and "reachable sync_init sync_step q"
  shows "mset (pl_executed s) \<subseteq># mset (pl_enqueued s) \<and>
    (pl_client s = Joined \<longrightarrow> mset (pl_executed s) = mset (pl_enqueued s)) \<and>
    sq_executed q = sq_enqueued q"
  using pooled.executed_enqueued [OF assms(1)] pooled.finished_all [OF assms(1)] sync_same [OF assms(2)]
  by blast

theorem pool_executes_each_job_once_witness:
  "pl_client example_joined = Joined \<and> mset (pl_executed example_joined) = {#7#} \<and>
   mset (pl_executed example_joined) = mset (pl_enqueued example_joined)"
proof -
  have s: "reachable sync_init sync_step (SingleThreadJobQueue :: nat sync_queue)"
    by (rule reachable_init) (simp add: sync_init_def)
  have e: "pl_client example_joined = Joined" "pl_executed example_joined = [7]" by code_simp+
  from pool_executes_each_job_once [OF example_joined_reachable s] e show ?thesis by simp
qed

text \<open>
  C33: \<open>wait\<close> returns: after it has been called, no run of the pool has more steps than the measure
  of its state, and a run that cannot continue has joined every thread and executed every job.
\<close>

theorem pool_wait_returns:
  assumes "reachable (pool_init (Suc n)) pool_step s" and "pl_client s = Joining"
    and "(pool_step ^^ k) s t"
  shows "k \<le> pool_measure s \<and>
    ((\<forall>u. \<not> pool_step t u) \<longrightarrow> pl_client t = Joined \<and> mset (pl_executed t) = mset (pl_enqueued t))"
proof -
  have inv: "pool_inv s" by (rule pool.reachable_inv [OF assms(1)])
  with joining_run_bound [OF assms(3) inv] assms(2)
  have t: "k + pool_measure t \<le> pool_measure s" "pool_inv t" "pl_client t \<noteq> Running" by auto
  have "reachable (pool_init (Suc n)) pool_step t" using assms(3)
  proof (induction k arbitrary: t)
    case 0
    with assms(1) show ?case by simp
  next
    case (Suc k)
    then show ?case by (auto intro: reachable_step)
  qed
  with t joining_not_stuck [OF t(2)] pooled.finished_all show ?thesis
    by (cases "pl_client t") auto
qed


theorem pool_wait_returns_witness:
  "3 \<le> pool_measure example_closed \<and> pl_client example_joined = Joined \<and>
   mset (pl_executed example_joined) = mset (pl_enqueued example_joined)"
proof -
  have c: "pl_client example_closed = Joining" by code_simp
  have "worker_step 0 example_closed = Some (drive 1 example_closed)"
    "worker_step 0 (drive 1 example_closed) = Some (drive 2 example_closed)"
    "0 < length (pl_workers example_closed)" "0 < length (pl_workers (drive 1 example_closed))"
    by code_simp+
  then have "pool_step example_closed (drive 1 example_closed)"
    "pool_step (drive 1 example_closed) (drive 2 example_closed)"
    by (blast intro: step_worker)+
  with example_joined_step have run: "(pool_step ^^ 3) example_closed example_joined"
    by (auto simp: numeral_3_eq_3)
  have "\<forall>u. \<not> pool_step example_joined u"
    using joined_no_step [OF _ pool.reachable_inv [OF example_joined_reachable]]
    by (simp add: example_joined_def)
  with pool_wait_returns [OF example_closed_reachable c run] show ?thesis by simp
qed

end
