(* ===== verification/ParserWalk.thy ===== *)
theory ParserWalk
  imports MetricsLoc UtilThreadPool
begin

text \<open>
  \<^verbatim>\<open>util/src/parserutil.cpp\<close>, and the two parser plugins that walk the input directories with it: the
  rest of \<^verbatim>\<open>plugins/metrics/parser/src/metricsparser.cpp\<close> (what \<open>MetricsLoc\<close> leaves out) and
  \<^verbatim>\<open>plugins/search/parser/src/searchparser.cpp\<close>.

  A directory is given as the tree that the file system shows below it; links are followed, so an
  entry may occur under several paths. An entry whose canonical path cannot be found is broken. The
  source manager appears as a function from paths to files (its model is in \<open>ParserSource\<close>), the
  indexer process as the list of files it is given.
\<close>

section \<open>Walking a directory\<close>

datatype dir_entry =
    Broken_Entry string
  | Directory (entry_path: string) "dir_entry list"
  | Regular_File (entry_path: string)
  | Special_File (entry_path: string)

record 's traverse_context =
  numFilesVisited :: nat
  numDirsVisited :: nat
  callback_state :: 's

text \<open>The callback gets the state of its closure and returns it with its answer.\<close>

definition call :: "(string \<Rightarrow> 's \<Rightarrow> bool \<times> 's) \<Rightarrow> string \<Rightarrow> 's traverse_context \<Rightarrow> bool \<times> 's traverse_context" where
  "call callback path c = (let (ok, s) = callback path (callback_state c) in (ok, c\<lparr>callback_state := s\<rparr>))"

fun iterateDirectoryRecursive ::
    "(string \<Rightarrow> 's \<Rightarrow> bool \<times> 's) \<Rightarrow> dir_entry \<Rightarrow> 's traverse_context \<Rightarrow> bool \<times> 's traverse_context"
  and iterate_entries ::
    "(string \<Rightarrow> 's \<Rightarrow> bool \<times> 's) \<Rightarrow> dir_entry list \<Rightarrow> 's traverse_context \<Rightarrow> 's traverse_context" where
  "iterateDirectoryRecursive callback (Broken_Entry p) c = (True, c)"
| "iterateDirectoryRecursive callback (Directory p es) c =
     (let (ok, c) = call callback p (c\<lparr>numDirsVisited := numDirsVisited c + 1\<rparr>)
      in if \<not> ok then (False, c) else (True, iterate_entries callback es c))"
| "iterateDirectoryRecursive callback (Regular_File p) c =
     call callback p (c\<lparr>numFilesVisited := numFilesVisited c + 1\<rparr>)"
| "iterateDirectoryRecursive callback (Special_File p) c = call callback p c"
| "iterate_entries callback [] c = c"
| "iterate_entries callback (e # es) c =
     iterate_entries callback es (snd (iterateDirectoryRecursive callback e c))"

section \<open>The metrics parser\<close>

datatype metrics_type = ORIGINAL_LOC | NONBLANK_LOC | CODE_LOC | MCCABE

record metrics_row =
  mt_file :: nat
  mt_type :: metrics_type
  mt_metric :: nat

record file_info =
  fi_id :: nat
  fi_type :: string
  fi_content :: "string option"

text \<open>\<open>persistLoc\<close>: the rows it writes.\<close>

definition persistLoc :: "Loc \<Rightarrow> nat \<Rightarrow> metrics_row list" where
  "persistLoc loc file =
     (if codeLines loc \<noteq> 0 then [\<lparr>mt_file = file, mt_type = CODE_LOC, mt_metric = codeLines loc\<rparr>] else []) @
     (if nonblankLines loc \<noteq> 0 then [\<lparr>mt_file = file, mt_type = NONBLANK_LOC, mt_metric = nonblankLines loc\<rparr>] else []) @
     (if originalLines loc \<noteq> 0 then [\<lparr>mt_file = file, mt_type = ORIGINAL_LOC, mt_metric = originalLines loc\<rparr>] else [])"

text \<open>The function of a worker; \<open>getFile\<close> may give no file. None: the loop over comments does not end.\<close>

definition count_file ::
    "nat set \<Rightarrow> (string \<Rightarrow> file_info option) \<Rightarrow> string \<Rightarrow> (fault + metrics_row list) option" where
  "count_file fileIdCache getFile path =
     (case getFile path of
        None \<Rightarrow> Some (Inr [])
      | Some file \<Rightarrow>
          if fi_id file \<in> fileIdCache then Some (Inr [])
          else
            (case getLocFromFile (fi_type file) (fi_content file) of
               None \<Rightarrow> None
             | Some (Inl e) \<Rightarrow> Some (Inl e)
             | Some (Inr loc) \<Rightarrow> Some (Inr (persistLoc loc (fi_id file)))))"

definition MetricsParser :: "metrics_row list \<Rightarrow> nat set" where
  "MetricsParser rows = set (map mt_file rows)"

text \<open>\<open>files\<close> is the table File: identifiers and paths. \<open>changed\<close> says which paths have a status other than added.\<close>

definition metrics_cleanupDatabase ::
    "(nat \<times> string) list \<Rightarrow> (string \<Rightarrow> bool) \<Rightarrow> nat set \<times> metrics_row list \<Rightarrow> nat set \<times> metrics_row list" where
  "metrics_cleanupDatabase files changed = (\<lambda>(fileIdCache, rows).
     if fileIdCache = {} then (fileIdCache, rows)
     else
       fold (\<lambda>file (cache, rows).
           if changed (snd file) then (cache - {fst file}, filter (\<lambda>r. mt_file r \<noteq> fst file) rows) else (cache, rows))
         (filter (\<lambda>f. fst f \<in> fileIdCache) files) (fileIdCache, rows))"

definition metrics_callback :: "(string \<Rightarrow> bool) \<Rightarrow> string \<Rightarrow> string list \<Rightarrow> bool \<times> string list" where
  "metrics_callback is_regular_file currPath pool =
     (True, if is_regular_file currPath then pool @ [currPath] else pool)"

text \<open>\<open>parse\<close>: the jobs that are enqueued for the input directories.\<close>

definition metrics_parse :: "(string \<Rightarrow> bool) \<Rightarrow> dir_entry list \<Rightarrow> string list" where
  "metrics_parse is_regular_file inputs =
     fold (\<lambda>input pool. callback_state (snd (iterateDirectoryRecursive (metrics_callback is_regular_file) input
         \<lparr>numFilesVisited = 0, numDirsVisited = 0, callback_state = pool\<rparr>))) inputs []"

section \<open>The search parser\<close>

definition excludedSuffixes :: "string list" where
  "excludedSuffixes =
     [''.doc'', ''.rtf'', ''.htm'', ''.html'', ''.xml'', ''.cc.d'', ''.cc.opts'', ''.bin'',
      ''.hhk'', ''.hhc'', ''.output'', ''.output.0'', ''.output.1'', ''.Metrics.dat'', ''.pp'']"

text \<open>What the parser asks the file system and libmagic.\<close>

record search_fs =
  sr_regular :: "string \<Rightarrow> bool"
  sr_size :: "string \<Rightarrow> nat option"
  sr_plain :: "string \<Rightarrow> bool"
  sr_directory :: "string \<Rightarrow> bool"
  sr_canonical :: "string \<Rightarrow> string"
  sr_mime :: "(string \<Rightarrow> string option) option"

definition shouldHandle :: "search_fs \<Rightarrow> string \<Rightarrow> bool" where
  "shouldHandle fs path =
     (if \<not> sr_regular fs path then False
      else
        let normPath = map tolower path in
        if list_ex (\<lambda>suff. length normPath \<ge> length suff \<and>
             drop (length normPath - length suff) normPath = suff) excludedSuffixes
        then False
        else
          case sr_size fs path of
            None \<Rightarrow> False
          | Some st_size \<Rightarrow> if st_size > 1024 * 1024 then False else sr_plain fs path)"

record indexed =
  ix_id :: nat
  ix_path :: string
  ix_mime :: string

text \<open>The callback, if the indexer process is there (\<open>available\<close>).\<close>

definition search_callback ::
    "search_fs \<Rightarrow> string list \<Rightarrow> bool \<Rightarrow> (string \<Rightarrow> (nat \<times> string) option) \<Rightarrow> string \<Rightarrow> indexed list \<Rightarrow> bool \<times> indexed list" where
  "search_callback fs skipDirectories available getFile currPath indexer =
     (if \<not> available then (False, indexer)
      else if sr_directory fs currPath \<and> sr_canonical fs currPath \<in> set skipDirectories then (False, indexer)
      else if \<not> shouldHandle fs currPath then (True, indexer)
      else
        case getFile currPath of
          None \<Rightarrow> (True, indexer)
        | Some file \<Rightarrow>
            let mimeType = (case sr_mime fs of
                None \<Rightarrow> ''text/plain''
              | Some magic \<Rightarrow> (case magic currPath of None \<Rightarrow> ''text/plain'' | Some m \<Rightarrow> m))
            in (True, indexer @ [\<lparr>ix_id = fst file, ix_path = snd file, ix_mime = mimeType\<rparr>]))"

definition search_parse ::
    "search_fs \<Rightarrow> string list \<Rightarrow> bool \<Rightarrow> (string \<Rightarrow> (nat \<times> string) option) \<Rightarrow> dir_entry list \<Rightarrow> indexed list" where
  "search_parse fs skipDirectories available getFile inputs =
     fold (\<lambda>input indexer. callback_state (snd (iterateDirectoryRecursive
         (search_callback fs skipDirectories available getFile) input
         \<lparr>numFilesVisited = 0, numDirsVisited = 0, callback_state = indexer\<rparr>))) inputs []"

section \<open>What is visited\<close>

text \<open>The entries below an entry that the callback does not cut off, in the order of the walk.\<close>

fun visited :: "(string \<Rightarrow> bool) \<Rightarrow> dir_entry \<Rightarrow> string list" where
  "visited ok (Broken_Entry p) = []"
| "visited ok (Directory p es) = p # (if ok p then concat (map (visited ok) es) else [])"
| "visited ok (Regular_File p) = [p]"
| "visited ok (Special_File p) = [p]"

text \<open>A callback whose answer depends on the path alone is folded over the visited paths.\<close>

lemma walk_folds:
  "(\<And>p s. callback p s = (ok p, f p s)) \<Longrightarrow>
     callback_state (snd (iterateDirectoryRecursive callback e c)) = fold f (visited ok e) (callback_state c)"
  "(\<And>p s. callback p s = (ok p, f p s)) \<Longrightarrow>
     callback_state (iterate_entries callback es c) = fold f (concat (map (visited ok) es)) (callback_state c)"
proof (induction callback e c and callback es c rule: iterateDirectoryRecursive_iterate_entries.induct)
  case (2 callback p es c)
  note cb = 2(2)
  define c' where "c' = c\<lparr>numDirsVisited := numDirsVisited c + 1, callback_state := f p (callback_state c)\<rparr>"
  have call: "call callback p (c\<lparr>numDirsVisited := numDirsVisited c + 1\<rparr>) = (ok p, c')"
    by (simp add: call_def cb c'_def)
  show ?case
  proof (cases "ok p")
    case True
    have "callback_state (iterate_entries callback es c') = fold f (concat (map (visited ok) es)) (callback_state c')"
      by (rule 2(1) [OF call [symmetric] refl]) (use True cb in auto)
    then show ?thesis using True by (simp add: call [simplified] c'_def)
  qed (simp add: call [simplified] c'_def)
qed (simp_all add: call_def)

text \<open>
  A walk calls the callback for every entry that is not broken, once for each path under which it
  is reached and a directory before its entries; an answer "no" cuts off the entries below a directory
  and nothing else, and the walk itself answers "no" only for the entry it starts with.
\<close>

theorem directory_walk:
  assumes "\<forall>p s. callback p s = (ok p, f p s)"
  shows "callback_state (snd (iterateDirectoryRecursive callback e c)) = fold f (visited ok e) (callback_state c) \<and>
    (fst (iterateDirectoryRecursive callback e c) \<longleftrightarrow> list_all ok (take 1 (visited ok e)))"
proof -
  have "callback_state (snd (iterateDirectoryRecursive callback e c)) = fold f (visited ok e) (callback_state c)"
    by (rule walk_folds(1)) (use assms in simp)
  moreover have "fst (iterateDirectoryRecursive callback e c) \<longleftrightarrow> list_all ok (take 1 (visited ok e))"
    using assms by (cases e) (auto simp: call_def split: prod.splits if_splits)
  ultimately show ?thesis ..
qed

definition test_tree :: dir_entry where
  "test_tree = Directory ''p'' [Directory ''p/skip'' [Regular_File ''p/skip/x''], Broken_Entry ''p/l'',
     Regular_File ''p/a.h'', Directory ''p/link'' [Regular_File ''p/link/a.h'']]"

theorem directory_walk_witness:
  "callback_state (snd (iterateDirectoryRecursive (\<lambda>p s. (p \<noteq> ''p/skip'', s @ [p])) test_tree
     \<lparr>numFilesVisited = 0, numDirsVisited = 0, callback_state = []\<rparr>)) =
   [''p'', ''p/skip'', ''p/a.h'', ''p/link'', ''p/link/a.h'']"
  by (subst conjunct1 [OF directory_walk [where ok = "\<lambda>p. p \<noteq> ''p/skip''" and f = "\<lambda>p s. s @ [p]"]])
     (simp_all add: test_tree_def)

section \<open>The metrics of all files\<close>

fun regular_files :: "dir_entry \<Rightarrow> string list" where
  "regular_files (Directory p es) = concat (map regular_files es)"
| "regular_files (Regular_File p) = [p]"
| "regular_files _ = []"

text \<open>The tree says of every path what the file system says.\<close>

fun kinds_agree :: "(string \<Rightarrow> bool) \<Rightarrow> dir_entry \<Rightarrow> bool" where
  "kinds_agree reg (Directory p es) \<longleftrightarrow> \<not> reg p \<and> list_all (kinds_agree reg) es"
| "kinds_agree reg (Regular_File p) \<longleftrightarrow> reg p"
| "kinds_agree reg (Special_File p) \<longleftrightarrow> \<not> reg p"
| "kinds_agree reg (Broken_Entry p) \<longleftrightarrow> True"

lemma visited_regular: "kinds_agree reg e \<Longrightarrow> filter reg (visited (\<lambda>_. True) e) = regular_files e"
proof (induction e)
  case (Directory p es)
  then have "filter reg (concat (map (visited (\<lambda>_. True)) es)) = concat (map regular_files es)"
    by (induction es) auto
  then show ?case using Directory.prems by simp
qed simp_all

lemma fold_collect: "fold (\<lambda>p pool. if reg p then pool @ [p] else pool) ps pool = pool @ filter reg ps"
  by (induction ps arbitrary: pool) auto

lemma metrics_parse_jobs:
  assumes "list_all (kinds_agree reg) inputs"
  shows "metrics_parse reg inputs = concat (map regular_files inputs)"
proof -
  have step: "callback_state (snd (iterateDirectoryRecursive (metrics_callback reg) e c)) =
      callback_state c @ filter reg (visited (\<lambda>_. True) e)" for e c
    by (subst walk_folds(1) [where ok = "\<lambda>_. True" and f = "\<lambda>p pool. if reg p then pool @ [p] else pool"])
       (simp_all add: metrics_callback_def fold_collect)
  have "fold (\<lambda>input pool. callback_state (snd (iterateDirectoryRecursive (metrics_callback reg) input
         \<lparr>numFilesVisited = 0, numDirsVisited = 0, callback_state = pool\<rparr>))) inputs pool =
      pool @ concat (map regular_files inputs)" for pool
    using assms by (induction inputs arbitrary: pool) (simp_all add: step visited_regular)
  then show ?thesis by (simp add: metrics_parse_def)
qed

definition rows_of :: "(fault + metrics_row list) option \<Rightarrow> metrics_row list" where
  "rows_of r = (case r of Some (Inr rows) \<Rightarrow> rows | _ \<Rightarrow> [])"

text \<open>
  When the metrics parser has waited for its pool, the rows written are those of every regular file
  below the input directories, once for each path that leads to it, whatever the threads did in
  between. (So a file that is reached by two paths is counted twice: the cache of counted files is
  read only from the database.)
\<close>

theorem metrics_rows_complete:
  assumes "reachable (pool_init (Suc k)) pool_step s" "pl_client s = Joined"
    and "pl_enqueued s = metrics_parse reg inputs" "list_all (kinds_agree reg) inputs"
  shows "mset (concat (map (rows_of \<circ> count_file cache getFile) (pl_executed s))) =
    mset (concat (map (rows_of \<circ> count_file cache getFile) (concat (map regular_files inputs))))"
proof -
  have m: "mset (concat (map f ps)) = sum_list (map (\<lambda>p. mset (f p)) ps)" for f :: "string \<Rightarrow> metrics_row list" and ps
    by (induction ps) simp_all
  have "sum_list (map (\<lambda>p. mset ((rows_of \<circ> count_file cache getFile) p)) (pl_executed s)) =
      sum_list (map (\<lambda>p. mset ((rows_of \<circ> count_file cache getFile) p)) (pl_enqueued s))"
    by (rule pooled.effects_sum [OF assms(1,2)])
  then show ?thesis unfolding m assms(3) metrics_parse_jobs [OF assms(4)] .
qed

definition test_file :: "string \<Rightarrow> file_info option" where
  "test_file p = Some \<lparr>fi_id = 7, fi_type = ''Text'', fi_content = Some ''int x;''\<rparr>"

lemma test_file_counted:
  "count_file {} test_file p = Some (Inr [\<lparr>mt_file = 7, mt_type = CODE_LOC, mt_metric = 1\<rparr>,
     \<lparr>mt_file = 7, mt_type = NONBLANK_LOC, mt_metric = 1\<rparr>, \<lparr>mt_file = 7, mt_type = ORIGINAL_LOC, mt_metric = 1\<rparr>])"
proof -
  have "getLocFromFile ''Text'' (Some ''int x;'') =
      Some (Inr \<lparr>originalLines = 1, nonblankLines = 1, codeLines = 1\<rparr>)" by code_simp
  then show ?thesis by (simp add: count_file_def test_file_def persistLoc_def)
qed

theorem metrics_rows_complete_witness:
  "\<exists>s. reachable (pool_init (Suc 0)) pool_step s \<and> pl_executed s = [''p/x''] \<and>
     length (concat (map (rows_of \<circ> count_file {} test_file) (pl_executed s))) = 3"
proof -
  obtain s :: "string pool" where s: "reachable (pool_init (Suc 0)) pool_step s" "pl_client s = Joined"
    "pl_enqueued s = [''p/x'']" "pl_executed s = [''p/x'']"
    using one_job_run [of "''p/x''"] by blast
  have t: "list_all (kinds_agree (\<lambda>p. p = ''p/x'')) [Directory ''p'' [Regular_File ''p/x'']]" by simp
  have j: "metrics_parse (\<lambda>p. p = ''p/x'') [Directory ''p'' [Regular_File ''p/x'']] = [''p/x'']"
    by (simp add: metrics_parse_def metrics_callback_def call_def)
  have "mset (concat (map (rows_of \<circ> count_file {} test_file) (pl_executed s))) =
      mset (concat (map (rows_of \<circ> count_file {} test_file) (concat (map regular_files [Directory ''p'' [Regular_File ''p/x'']]))))"
    by (rule metrics_rows_complete [OF s(1,2) _ t]) (simp only: j s(3))
  then have "size (mset (concat (map (rows_of \<circ> count_file {} test_file) (pl_executed s)))) = 3"
    by (simp add: test_file_counted rows_of_def)
  then show ?thesis using s by (intro exI [of _ s]) simp
qed

text \<open>The same file below two input directories.\<close>

lemma metrics_counted_twice:
  "length (filter (\<lambda>r. mt_type r = CODE_LOC) (concat (map (rows_of \<circ> count_file {} test_file)
     (concat (map regular_files [Directory ''p'' [Regular_File ''p/x''], Directory ''l'' [Regular_File ''l/x'']]))))) = 2"
  by (simp add: test_file_counted rows_of_def)

section \<open>Cleaning up the metrics\<close>

lemma cleanup_fold:
  "fold (\<lambda>file (cache, rows).
       if changed (snd file) then (cache - {fst file}, filter (\<lambda>r. mt_file r \<noteq> fst file) rows) else (cache, rows))
     fs (cache, rows) =
   (cache - fst ` {f \<in> set fs. changed (snd f)},
    filter (\<lambda>r. mt_file r \<notin> fst ` {f \<in> set fs. changed (snd f)}) rows)"
proof (induction fs arbitrary: cache rows)
  case (Cons f fs)
  have "{g \<in> set (f # fs). changed (snd g)} = (if changed (snd f) then {f} else {}) \<union> {g \<in> set fs. changed (snd g)}" by auto
  then show ?case by (auto simp: Cons intro!: filter_cong)
qed simp

text \<open>
  An incremental parse counts exactly the changed files again: after \<open>cleanupDatabase\<close> there are
  no rows of a changed file, its lines are counted when the walk reaches it, and a file whose rows were
  kept is not counted.
\<close>

theorem metrics_incremental:
  assumes "distinct (map fst files)" "(i, path) \<in> set files" "getFile path = Some file" "fi_id file = i"
    and "metrics_cleanupDatabase files changed (MetricsParser rows, rows) = (cache, rows')"
    and "i \<in> MetricsParser rows"
  shows "(changed path \<longrightarrow> (\<forall>r \<in> set rows'. mt_file r \<noteq> i) \<and>
      count_file cache getFile path = map_option (map_sum id (\<lambda>loc. persistLoc loc i)) (getLocFromFile (fi_type file) (fi_content file))) \<and>
    (\<not> changed path \<longrightarrow> filter (\<lambda>r. mt_file r = i) rows' = filter (\<lambda>r. mt_file r = i) rows \<and>
      count_file cache getFile path = Some (Inr []))"
proof -
  define gone where "gone = fst ` {f \<in> set files. fst f \<in> MetricsParser rows \<and> changed (snd f)}"
  have g: "i \<in> gone \<longleftrightarrow> changed path"
  proof
    assume "i \<in> gone"
    then obtain p where "(i, p) \<in> set files" "changed p" by (auto simp: gone_def)
    then show "changed path" using assms(1,2) by (metis eq_key_imp_eq_value)
  next
    assume "changed path"
    then show "i \<in> gone" using assms(2,6) by (force simp: gone_def)
  qed
  have "MetricsParser rows \<noteq> {}" using assms(6) by auto
  then have c: "cache = MetricsParser rows - gone" "rows' = filter (\<lambda>r. mt_file r \<notin> gone) rows"
    using assms(5) by (simp_all add: metrics_cleanupDatabase_def cleanup_fold gone_def conj_assoc)
  show ?thesis
  proof (cases "changed path")
    case True
    then show ?thesis using g c assms(3,4)
      by (auto simp: count_file_def split: option.splits sum.splits)
  next
    case False
    have "filter (\<lambda>r. mt_file r = i) rows' = filter (\<lambda>r. mt_file r = i) rows"
      unfolding c(2) filter_filter using g False by (intro filter_cong) auto
    then show ?thesis using g c(1) False assms(3,4,6) by (simp add: count_file_def)
  qed
qed

theorem metrics_incremental_witness:
  "count_file {} test_file ''a'' = map_option (map_sum id (\<lambda>loc. persistLoc loc 7)) (getLocFromFile ''Text'' (Some ''int x;''))"
proof -
  let ?r = "\<lparr>mt_file = 7, mt_type = CODE_LOC, mt_metric = 3\<rparr>"
  have "metrics_cleanupDatabase [(7, ''a'')] (\<lambda>_. True) (MetricsParser [?r], [?r]) = ({}, [])"
    by (simp add: metrics_cleanupDatabase_def MetricsParser_def)
  from metrics_incremental [OF _ _ _ _ this, of 7 "''a''" test_file] show ?thesis
    by (simp add: test_file_def MetricsParser_def)
qed

section \<open>What the search parser indexes\<close>

definition has_suffix :: "string \<Rightarrow> string \<Rightarrow> bool" where
  "has_suffix s suff \<longleftrightarrow> length s \<ge> length suff \<and> drop (length s - length suff) s = suff"

lemma has_suffix_set: "has_suffix s suff \<Longrightarrow> set suff \<subseteq> set s"
  unfolding has_suffix_def by (metis set_drop_subset)

lemma lower_not_M: "CHR ''M'' \<notin> set (map tolower s)"
proof
  assume "CHR ''M'' \<in> set (map tolower s)"
  then obtain c where "CHR ''M'' = tolower c" by auto
  then have "tolower (CHR ''M'') = CHR ''M''" by (metis tolower_idem)
  moreover have "tolower (CHR ''M'') \<noteq> CHR ''M''" by code_simp
  ultimately show False by simp
qed

text \<open>
  The entry \<open>.Metrics.dat\<close> of the excluded suffixes has no effect: the suffixes are compared with
  the path in lower case, so the search parser handles a path exactly if it does without that entry.
\<close>

theorem metrics_dat_not_excluded:
  "shouldHandle fs path \<longleftrightarrow>
     sr_regular fs path \<and>
     \<not> list_ex (has_suffix (map tolower path)) (filter (\<lambda>s. s \<noteq> ''.Metrics.dat'') excludedSuffixes) \<and>
     (\<exists>n. sr_size fs path = Some n \<and> n \<le> 1024 * 1024) \<and> sr_plain fs path"
proof -
  have "\<not> has_suffix (map tolower path) ''.Metrics.dat''"
    using has_suffix_set [of "map tolower path" "''.Metrics.dat''"] lower_not_M [of path] by auto
  then have "list_ex (has_suffix (map tolower path)) excludedSuffixes \<longleftrightarrow>
      list_ex (has_suffix (map tolower path)) (filter (\<lambda>s. s \<noteq> ''.Metrics.dat'') excludedSuffixes)"
    by (auto simp: list_ex_iff)
  moreover have "list_ex (\<lambda>suff. length (map tolower path) \<ge> length suff \<and>
      drop (length (map tolower path) - length suff) (map tolower path) = suff) excludedSuffixes \<longleftrightarrow>
      list_ex (has_suffix (map tolower path)) excludedSuffixes"
    by (simp add: has_suffix_def [abs_def])
  ultimately show ?thesis
    by (auto simp: shouldHandle_def Let_def split: option.splits)
qed

end
