(* ===== verification/CppScope.thy ===== *)
theory CppScope
  imports CPrelude "HOL-Library.Word"
begin

text \<open>
  \<^verbatim>\<open>plugins/cpp/parser/src/nestedscope.cpp\<close> and the part of \<^verbatim>\<open>clangastvisitor.h\<close> that counts: how the C++
  parser measures McCabe complexity, bumpiness and statements of a function while it walks the
  syntax tree.

  The tree comes from Clang (\<open>node\<close>): a statement has an address, the class the visitor tells apart
  and its children in the order Clang visits them; a function declaration says whether its syntax
  node is new to the cache, whether it is the definition, and the address of its body. A null
  child is not in the list. A statement stack is a list with its top first, so the previous scope
  of a scope is the next element.
\<close>

section \<open>Scopes\<close>

datatype scope_state = Initial | Expected | Standalone | Invalid

datatype scope_kind = Unknown | Open | Closed | OneWay | TwoWay

record scope =
  sc_stmt :: "nat option"
  sc_depth :: "32 word"
  sc_state :: scope_state
  sc_kind :: scope_kind
  exp0 :: "nat option"
  exp1 :: "nat option"

type_synonym stmt_stack = "scope list"

text \<open>\<open>TopValid\<close> gives the index of the scope, or None for a null pointer.\<close>

fun TopValid :: "stmt_stack \<Rightarrow> nat option" where
  "TopValid [] = None"
| "TopValid (s # rest) = (if sc_state s = Invalid then map_option Suc (TopValid rest) else Some 0)"

definition CheckNext :: "scope \<Rightarrow> nat \<Rightarrow> fault + scope_state" where
  "CheckNext s stmt =
     (if sc_state s = Invalid then Inr Invalid
      else
        case sc_kind s of
          Open \<Rightarrow> Inr Standalone
        | Closed \<Rightarrow> Inr Invalid
        | OneWay \<Rightarrow> Inr (if Some stmt = exp0 s then Expected else Invalid)
        | TwoWay \<Rightarrow> Inr (if Some stmt = exp0 s \<or> Some stmt = exp1 s then Expected else Invalid)
        | Unknown \<Rightarrow> Inl Assertion_Failure)"

definition MakeTransparent :: "scope \<Rightarrow> fault + scope" where
  "MakeTransparent s = bindC (assertC (sc_kind s = Unknown)) (\<lambda>_. Inr (s\<lparr>sc_kind := Open\<rparr>))"

definition MakeCompound :: "scope \<Rightarrow> fault + scope" where
  "MakeCompound s =
     bindC (assertC (sc_kind s = Unknown)) (\<lambda>_.
       let s = s\<lparr>sc_kind := Open\<rparr>
       in Inr (if sc_state s = Standalone then s\<lparr>sc_depth := sc_depth s + 1\<rparr> else s))"

definition deeper :: "scope \<Rightarrow> scope" where
  "deeper s = (if sc_state s \<noteq> Invalid then s\<lparr>sc_depth := sc_depth s + 1\<rparr> else s)"

definition MakeStatement :: "scope \<Rightarrow> fault + scope" where
  "MakeStatement s = bindC (assertC (sc_kind s = Unknown)) (\<lambda>_. Inr (deeper (s\<lparr>sc_kind := Closed\<rparr>)))"

definition MakeOneWay :: "nat option \<Rightarrow> scope \<Rightarrow> fault + scope" where
  "MakeOneWay next s =
     bindC (assertC (sc_kind s = Unknown)) (\<lambda>_. Inr (deeper (s\<lparr>sc_kind := OneWay, exp0 := next\<rparr>)))"

definition MakeFunction :: "nat option \<Rightarrow> scope \<Rightarrow> fault + scope" where
  "MakeFunction body s =
     bindC (assertC (sc_kind s = Unknown)) (\<lambda>_. Inr (s\<lparr>sc_kind := OneWay, exp0 := body, sc_depth := 0\<rparr>))"

definition MakeTwoWay :: "nat option \<Rightarrow> nat option \<Rightarrow> scope \<Rightarrow> fault + scope" where
  "MakeTwoWay next0 next1 s =
     bindC (assertC (sc_kind s = Unknown)) (\<lambda>_.
       Inr (deeper (s\<lparr>sc_kind := TwoWay, exp0 := next0, exp1 := next1\<rparr>)))"

definition EnsureConfigured :: "scope \<Rightarrow> fault + scope" where
  "EnsureConfigured s = (if sc_kind s = Unknown then MakeStatement s else Inr s)"

text \<open>The constructor: the new scope is pushed and the previous one is configured.\<close>

definition StatementScope :: "nat option \<Rightarrow> stmt_stack \<Rightarrow> fault + stmt_stack" where
  "StatementScope stmt stack =
     (let s = \<lparr>sc_stmt = stmt, sc_depth = 0, sc_state = Initial, sc_kind = Unknown, exp0 = None, exp1 = None\<rparr>
      in
      case stack of
        [] \<Rightarrow> Inr [s]
      | previous # rest \<Rightarrow>
          bindC (EnsureConfigured previous) (\<lambda>previous.
          let s = s\<lparr>sc_depth := sc_depth previous\<rparr>
          in
          bindC (case stmt of None \<Rightarrow> Inr Initial | Some p \<Rightarrow> CheckNext previous p) (\<lambda>st.
          Inr (s\<lparr>sc_state := st\<rparr> # previous # rest))))"

fun PrevDepth :: "stmt_stack \<Rightarrow> 32 word" where
  "PrevDepth (_ # previous # _) = sc_depth previous"
| "PrevDepth _ = 0"

definition IsReal :: "stmt_stack \<Rightarrow> bool" where
  "IsReal stack = (PrevDepth stack < sc_depth (hd stack))"

section \<open>The visitor\<close>

datatype stmt_class =
    CompoundStmt | IfStmt "nat option" "nat option" | WhileStmt "nat option" | DoStmt "nat option"
  | ForStmt "nat option" | CXXForRangeStmt "nat option" | SwitchStmt "nat option" | CaseStmt
  | DefaultStmt | ContinueStmt | GotoStmt | CXXTryStmt "nat option" | CXXCatchStmt "nat option"
  | BinaryOperator bool | ConditionalOperator | BinaryConditionalOperator
  | CallExpr | MemberExpr | CXXDeleteExpr | DeclStmt | ReturnStmt | OtherStmt

datatype node =
    Statement nat stmt_class (children: "node list")
  | FunctionDecl bool bool "nat option" (children: "node list")

record cpp_function =
  astNodeId :: bool
  mccabe :: "32 word"
  bumpiness :: "32 word"
  statementCount :: "32 word"

record visitor =
  stmtStack :: stmt_stack
  functionStack :: "cpp_function list"
  contextStatementStack :: "nat list"
  parsedFunctions :: "cpp_function list"

text \<open>\<open>_stmtStack.Top()->...\<close>\<close>

definition at_top :: "(scope \<Rightarrow> fault + scope) \<Rightarrow> visitor \<Rightarrow> fault + visitor" where
  "at_top f v =
     (case stmtStack v of
        [] \<Rightarrow> Inl Null_Deref
      | s # rest \<Rightarrow> bindC (f s) (\<lambda>s. Inr (v\<lparr>stmtStack := s # rest\<rparr>)))"

definition CountMcCabe :: "visitor \<Rightarrow> visitor" where
  "CountMcCabe v =
     (case functionStack v of
        [] \<Rightarrow> v
      | f # rest \<Rightarrow> v\<lparr>functionStack := f\<lparr>mccabe := mccabe f + 1\<rparr> # rest\<rparr>)"

definition CountBumpiness :: "visitor \<Rightarrow> visitor" where
  "CountBumpiness v =
     (case functionStack v of
        [] \<Rightarrow> v
      | f # rest \<Rightarrow>
          if IsReal (stmtStack v) then
            v\<lparr>functionStack := f\<lparr>bumpiness := bumpiness f + sc_depth (hd (stmtStack v)),
                statementCount := statementCount f + 1\<rparr> # rest\<rparr>
          else v)"

text \<open>\<open>CtxStmtScope\<close> is made for these classes.\<close>

fun has_context :: "stmt_class \<Rightarrow> bool" where
  "has_context c = (case c of CallExpr \<Rightarrow> True | MemberExpr \<Rightarrow> True | CXXDeleteExpr \<Rightarrow> True
     | BinaryOperator _ \<Rightarrow> True | DeclStmt \<Rightarrow> True | ReturnStmt \<Rightarrow> True | _ \<Rightarrow> False)"

text \<open>What \<open>Traverse\<close> of a class does before the base class visits the children.\<close>

fun enter_stmt :: "nat \<Rightarrow> stmt_class \<Rightarrow> visitor \<Rightarrow> fault + visitor" where
  "enter_stmt p CompoundStmt v = at_top MakeCompound v"
| "enter_stmt p (IfStmt t e) v = bindC (at_top (MakeTwoWay t e) v) (\<lambda>v. Inr (CountMcCabe v))"
| "enter_stmt p (WhileStmt b) v = bindC (at_top (MakeOneWay b) v) (\<lambda>v. Inr (CountMcCabe v))"
| "enter_stmt p (DoStmt b) v = bindC (at_top (MakeOneWay b) v) (\<lambda>v. Inr (CountMcCabe v))"
| "enter_stmt p (ForStmt b) v = bindC (at_top (MakeOneWay b) v) (\<lambda>v. Inr (CountMcCabe v))"
| "enter_stmt p (CXXForRangeStmt b) v = bindC (at_top (MakeOneWay b) v) (\<lambda>v. Inr (CountMcCabe v))"
| "enter_stmt p (SwitchStmt b) v = at_top (MakeOneWay b) v"
| "enter_stmt p CaseStmt v = bindC (at_top MakeTransparent v) (\<lambda>v. Inr (CountMcCabe v))"
| "enter_stmt p DefaultStmt v = bindC (at_top MakeTransparent v) (\<lambda>v. Inr (CountMcCabe v))"
| "enter_stmt p ContinueStmt v = Inr (CountMcCabe v)"
| "enter_stmt p GotoStmt v = Inr (CountMcCabe v)"
| "enter_stmt p (CXXTryStmt b) v = at_top (MakeOneWay b) v"
| "enter_stmt p (CXXCatchStmt b) v = bindC (at_top (MakeOneWay b) v) (\<lambda>v. Inr (CountMcCabe v))"
| "enter_stmt p (BinaryOperator logical) v =
     (let v = (if logical then CountMcCabe v else v)
      in Inr (v\<lparr>contextStatementStack := p # contextStatementStack v\<rparr>))"
| "enter_stmt p ConditionalOperator v = Inr (CountMcCabe v)"
| "enter_stmt p BinaryConditionalOperator v = Inr (CountMcCabe v)"
| "enter_stmt p CallExpr v = Inr (v\<lparr>contextStatementStack := p # contextStatementStack v\<rparr>)"
| "enter_stmt p MemberExpr v = Inr (v\<lparr>contextStatementStack := p # contextStatementStack v\<rparr>)"
| "enter_stmt p CXXDeleteExpr v = Inr (v\<lparr>contextStatementStack := p # contextStatementStack v\<rparr>)"
| "enter_stmt p DeclStmt v = Inr (v\<lparr>contextStatementStack := p # contextStatementStack v\<rparr>)"
| "enter_stmt p ReturnStmt v = Inr (v\<lparr>contextStatementStack := p # contextStatementStack v\<rparr>)"
| "enter_stmt p OtherStmt v = Inr v"

definition leave_stmt :: "stmt_class \<Rightarrow> visitor \<Rightarrow> visitor" where
  "leave_stmt c v =
     (if has_context c then v\<lparr>contextStatementStack := tl (contextStatementStack v)\<rparr> else v)"

definition FunctionScope :: "visitor \<Rightarrow> visitor" where
  "FunctionScope v =
     v\<lparr>functionStack := \<lparr>astNodeId = False, mccabe = 0, bumpiness = 0, statementCount = 0\<rparr> # functionStack v\<rparr>"

text \<open>What \<open>VisitFunctionDecl\<close> does with the counters.\<close>

definition VisitFunctionDecl :: "bool \<Rightarrow> bool \<Rightarrow> visitor \<Rightarrow> visitor" where
  "VisitFunctionDecl fresh isdef v =
     (if fresh then
        v\<lparr>functionStack := \<lparr>astNodeId = True, mccabe = (if isdef then 1 else 0), bumpiness = 0,
            statementCount = 0\<rparr> # tl (functionStack v)\<rparr>
      else v)"

text \<open>The destructor of \<open>FunctionScope\<close>.\<close>

definition end_FunctionScope :: "visitor \<Rightarrow> fault + visitor" where
  "end_FunctionScope v =
     (let curFun = hd (functionStack v);
          v = (if astNodeId curFun then v\<lparr>parsedFunctions := parsedFunctions v @ [curFun]\<rparr> else v);
          v = v\<lparr>functionStack := tl (functionStack v)\<rparr>
      in
      if astNodeId curFun \<and> functionStack v \<noteq> [] then
        (case TopValid (stmtStack v) of
           None \<Rightarrow> Inl Assertion_Failure
         | Some i \<Rightarrow>
             bindC (EnsureConfigured (stmtStack v ! i)) (\<lambda>scope.
             let prevFun = hd (functionStack v);
                 prevFun = prevFun\<lparr>
                   bumpiness := bumpiness prevFun + (bumpiness curFun + statementCount curFun * sc_depth scope),
                   statementCount := statementCount prevFun + statementCount curFun\<rparr>
             in
             Inr (v\<lparr>stmtStack := (stmtStack v)[i := scope], functionStack := prevFun # tl (functionStack v)\<rparr>)))
      else Inr v)"

definition pop_scope :: "visitor \<Rightarrow> visitor" where
  "pop_scope v = v\<lparr>stmtStack := tl (stmtStack v)\<rparr>"

fun TraverseStmt :: "node \<Rightarrow> visitor \<Rightarrow> fault + visitor"
  and traverse_nodes :: "node list \<Rightarrow> visitor \<Rightarrow> fault + visitor" where
  "TraverseStmt (Statement p c cs) v =
     bindC (StatementScope (Some p) (stmtStack v)) (\<lambda>st.
     bindC (enter_stmt p c (v\<lparr>stmtStack := st\<rparr>)) (\<lambda>v.
     bindC (traverse_nodes cs v) (\<lambda>v.
     bindC (at_top EnsureConfigured (leave_stmt c v)) (\<lambda>v.
     Inr (pop_scope (CountBumpiness v))))))"
| "TraverseStmt (FunctionDecl fresh isdef body cs) v =
     bindC (StatementScope None (stmtStack (FunctionScope v))) (\<lambda>st.
     bindC (at_top (MakeFunction body) ((FunctionScope v)\<lparr>stmtStack := st\<rparr>)) (\<lambda>v.
     bindC (traverse_nodes cs (VisitFunctionDecl fresh isdef v)) (\<lambda>v.
     end_FunctionScope (pop_scope v))))"
| "traverse_nodes [] v = Inr v"
| "traverse_nodes (n # ns) v = bindC (TraverseStmt n v) (\<lambda>v. traverse_nodes ns v)"

section \<open>What is counted\<close>

text \<open>
  The contract, on the tree alone: a place (\<open>ctx\<close>) has a depth and tells what may be nested in it.
  \<open>levels\<close> lists the depths of the counted statements; those of a nested function are shifted by the
  depth of its place.
\<close>

datatype ctx =
    Forbidden (depth_of: nat)
  | Anything (depth_of: nat)
  | Only "nat option list" (depth_of: nat)

fun inside :: "bool \<Rightarrow> nat \<Rightarrow> stmt_class \<Rightarrow> bool \<times> ctx" where
  "inside expected d CompoundStmt = (\<not> expected, Anything (if expected then d else d + 1))"
| "inside expected d (IfStmt t e) = (True, Only [t, e] (d + 1))"
| "inside expected d (WhileStmt b) = (True, Only [b] (d + 1))"
| "inside expected d (DoStmt b) = (True, Only [b] (d + 1))"
| "inside expected d (ForStmt b) = (True, Only [b] (d + 1))"
| "inside expected d (CXXForRangeStmt b) = (True, Only [b] (d + 1))"
| "inside expected d (SwitchStmt b) = (True, Only [b] (d + 1))"
| "inside expected d (CXXTryStmt b) = (True, Only [b] (d + 1))"
| "inside expected d (CXXCatchStmt b) = (True, Only [b] (d + 1))"
| "inside expected d CaseStmt = (False, Anything d)"
| "inside expected d DefaultStmt = (False, Anything d)"
| "inside expected d _ = (True, Forbidden (d + 1))"

fun place :: "ctx \<Rightarrow> nat \<Rightarrow> stmt_class \<Rightarrow> bool \<times> ctx" where
  "place (Forbidden d) p c = (False, Forbidden d)"
| "place (Anything d) p c = inside False d c"
| "place (Only es d) p c = (if Some p \<in> set es then inside True d c else (False, Forbidden d))"

fun levels :: "ctx \<Rightarrow> node \<Rightarrow> nat list" where
  "levels x (Statement p c cs) =
     concat (map (levels (snd (place x p c))) cs) @
     (if fst (place x p c) then [depth_of (snd (place x p c))] else [])"
| "levels x (FunctionDecl fresh isdef body cs) =
     (if fresh then map (\<lambda>l. l + depth_of x) (concat (map (levels (Only [body] 0)) cs)) else [])"

fun decides :: "stmt_class \<Rightarrow> bool" where
  "decides (BinaryOperator logical) = logical"
| "decides c = (c \<notin> {CompoundStmt, CallExpr, MemberExpr, CXXDeleteExpr, DeclStmt, ReturnStmt, OtherStmt} \<and>
     (\<forall>b. c \<noteq> SwitchStmt b \<and> c \<noteq> CXXTryStmt b))"

fun decisions :: "node \<Rightarrow> nat" where
  "decisions (Statement p c cs) = (if decides c then 1 else 0) + sum_list (map decisions cs)"
| "decisions (FunctionDecl fresh isdef body cs) = 0"

definition function_record :: "bool \<Rightarrow> nat option \<Rightarrow> node list \<Rightarrow> cpp_function" where
  "function_record isdef body cs =
     (let ls = concat (map (levels (Only [body] 0)) cs) in
      \<lparr>astNodeId = True,
       mccabe = of_nat ((if isdef then 1 else 0) + sum_list (map decisions cs)),
       bumpiness = of_nat (sum_list ls),
       statementCount = of_nat (length ls)\<rparr>)"

fun recorded :: "node \<Rightarrow> cpp_function list" where
  "recorded (Statement p c cs) = concat (map recorded cs)"
| "recorded (FunctionDecl fresh isdef body cs) =
     concat (map recorded cs) @ (if fresh then [function_record isdef body cs] else [])"

fun height :: "node \<Rightarrow> nat" where
  "height (Statement p c cs) = Suc (fold max (map height cs) 0)"
| "height (FunctionDecl fresh isdef body cs) = Suc (fold max (map height cs) 0)"

lemma fold_max_ge: "a \<le> fold max xs (a :: nat)" "x \<in> set xs \<Longrightarrow> x \<le> fold max xs a"
  by (induction xs arbitrary: a) (auto, (meson dual_order.trans max.cobounded1 max.cobounded2)+)

lemma height_child: "n \<in> set (children m) \<Longrightarrow> height n < height m"
  by (cases m) (auto intro!: fold_max_ge(2) le_imp_less_Suc)

section \<open>The visitor meets the contract\<close>

text \<open>A configured scope stands for a place.\<close>

fun stands_for :: "scope \<Rightarrow> ctx \<Rightarrow> bool" where
  "stands_for s (Forbidden d) \<longleftrightarrow> unat (sc_depth s) = d \<and> sc_kind s \<noteq> Unknown \<and>
     (sc_state s = Invalid \<or> sc_kind s = Closed)"
| "stands_for s (Anything d) \<longleftrightarrow> unat (sc_depth s) = d \<and> sc_state s \<noteq> Invalid \<and> sc_kind s = Open"
| "stands_for s (Only es d) \<longleftrightarrow> unat (sc_depth s) = d \<and> sc_state s \<noteq> Invalid \<and>
     (sc_kind s = OneWay \<and> es = [exp0 s] \<or> sc_kind s = TwoWay \<and> es = [exp0 s, exp1 s])"

lemma stands_for_depth: "stands_for s x \<Longrightarrow> unat (sc_depth s) = depth_of x"
  by (cases x) auto

lemma stands_for_configured: "stands_for s x \<Longrightarrow> EnsureConfigured s = Inr s \<and> sc_kind s \<noteq> Unknown"
  by (cases x) (auto simp: EnsureConfigured_def)

text \<open>The scopes below an invalid one have its depth, up to the next valid one.\<close>

fun good :: "stmt_stack \<Rightarrow> bool" where
  "good [] \<longleftrightarrow> False"
| "good (s # rest) \<longleftrightarrow> sc_kind s \<noteq> Unknown \<and>
     (sc_state s = Invalid \<longrightarrow> good rest \<and> sc_depth (hd rest) = sc_depth s)"

lemma good_TopValid:
  "good st \<Longrightarrow> \<exists>i < length st. TopValid st = Some i \<and> sc_depth (st ! i) = sc_depth (hd st) \<and>
     EnsureConfigured (st ! i) = Inr (st ! i)"
proof (induction st)
  case (Cons s st)
  then show ?case by (cases "sc_state s = Invalid") (auto simp: EnsureConfigured_def)
qed simp

text \<open>The effect of a node on the function that is being measured.\<close>

definition measured :: "nat \<Rightarrow> nat list \<Rightarrow> cpp_function \<Rightarrow> cpp_function" where
  "measured m ls f = f\<lparr>mccabe := mccabe f + of_nat m, bumpiness := bumpiness f + of_nat (sum_list ls),
     statementCount := statementCount f + of_nat (length ls)\<rparr>"

lemma measured_measured: "measured m ls (measured k js f) = measured (k + m) (js @ ls) f"
  by (simp add: measured_def algebra_simps)

lemma measured_0 [simp]: "measured 0 [] f = f"
  by (simp add: measured_def)

text \<open>The scope of a statement once its class has configured it.\<close>

definition configured :: "scope \<Rightarrow> stmt_class \<Rightarrow> fault + scope" where
  "configured s c =
     (case c of
        CompoundStmt \<Rightarrow> MakeCompound s
      | IfStmt t e \<Rightarrow> MakeTwoWay t e s
      | WhileStmt b \<Rightarrow> MakeOneWay b s
      | DoStmt b \<Rightarrow> MakeOneWay b s
      | ForStmt b \<Rightarrow> MakeOneWay b s
      | CXXForRangeStmt b \<Rightarrow> MakeOneWay b s
      | SwitchStmt b \<Rightarrow> MakeOneWay b s
      | CXXTryStmt b \<Rightarrow> MakeOneWay b s
      | CXXCatchStmt b \<Rightarrow> MakeOneWay b s
      | CaseStmt \<Rightarrow> MakeTransparent s
      | DefaultStmt \<Rightarrow> MakeTransparent s
      | _ \<Rightarrow> Inr s)"

lemmas make_defs = MakeStatement_def MakeCompound_def MakeTwoWay_def MakeOneWay_def MakeTransparent_def
  EnsureConfigured_def deeper_def

lemma next_depth:
  fixes d :: "32 word"
  assumes "unat d + 1 < 2 ^ 32"
  shows "unat (d + 1) = unat d + 1" "d < d + 1"
proof -
  show u: "unat (d + 1) = unat d + 1" using assms by (simp add: unat_word_ariths)
  then show "d < d + 1" by (simp add: word_less_nat_alt)
qed

definition next_state :: "ctx \<Rightarrow> nat \<Rightarrow> scope_state" where
  "next_state x p = (case x of Forbidden _ \<Rightarrow> Invalid | Anything _ \<Rightarrow> Standalone
     | Only es _ \<Rightarrow> if Some p \<in> set es then Expected else Invalid)"

lemma CheckNext_place: "stands_for s x \<Longrightarrow> CheckNext s p = Inr (next_state x p)"
  by (cases x) (auto simp: CheckNext_def next_state_def split: scope_kind.splits)

definition fresh_scope :: "nat \<Rightarrow> 32 word \<Rightarrow> scope_state \<Rightarrow> scope" where
  "fresh_scope p d st =
     \<lparr>sc_stmt = Some p, sc_depth = d, sc_state = st, sc_kind = Unknown, exp0 = None, exp1 = None\<rparr>"

lemma configured_invalid:
  "\<exists>s t. configured (fresh_scope p d Invalid) c = Inr s \<and> EnsureConfigured s = Inr t \<and>
    stands_for t (Forbidden (unat d)) \<and> sc_depth t = d \<and> sc_state t = Invalid"
  by (cases c) (simp_all add: configured_def fresh_scope_def make_defs Let_def)

lemma configured_valid:
  assumes "st = Standalone \<or> st = Expected" "unat d + 1 < 2 ^ 32"
  shows "\<exists>s t. configured (fresh_scope p d st) c = Inr s \<and> EnsureConfigured s = Inr t \<and>
    stands_for t (snd (inside (st = Expected) (unat d) c)) \<and>
    (d < sc_depth t \<longleftrightarrow> fst (inside (st = Expected) (unat d) c)) \<and> sc_state t = st"
  using assms(1) next_depth [OF assms(2)]
  by (cases c) (auto simp: configured_def fresh_scope_def make_defs Let_def)

lemma configured_place:
  assumes "stands_for prev x" "depth_of x + 1 < 2 ^ 32"
  shows "\<exists>s t. configured (fresh_scope p (sc_depth prev) (next_state x p)) c = Inr s \<and> EnsureConfigured s = Inr t \<and>
    stands_for t (snd (place x p c)) \<and> (sc_depth prev < sc_depth t \<longleftrightarrow> fst (place x p c)) \<and>
    (sc_state t = Invalid \<longrightarrow> sc_depth t = sc_depth prev)"
proof -
  have d: "unat (sc_depth prev) = depth_of x" by (rule stands_for_depth [OF assms(1)])
  show ?thesis
  proof (cases "next_state x p = Invalid")
    case True
    then have "place x p c = (False, Forbidden (depth_of x))"
      by (auto simp: next_state_def split: ctx.splits if_splits)
    then show ?thesis using configured_invalid [of p "sc_depth prev" c] True d by auto
  next
    case False
    then have "next_state x p = Standalone \<or> next_state x p = Expected"
      "place x p c = inside (next_state x p = Expected) (depth_of x) c"
      by (auto simp: next_state_def split: ctx.splits if_splits)
    then show ?thesis using configured_valid [of "next_state x p" "sc_depth prev" p c] d assms(2) by auto
  qed
qed

lemma enter_configured:
  assumes "functionStack v = f # fs"
  shows "enter_stmt p c (v\<lparr>stmtStack := s # rest\<rparr>) =
    bindC (configured s c) (\<lambda>t. Inr (v\<lparr>stmtStack := t # rest,
      functionStack := measured (if decides c then 1 else 0) [] f # fs,
      contextStatementStack := (if has_context c then p # contextStatementStack v else contextStatementStack v)\<rparr>))"
  using assms
  by (cases v; cases c) (simp_all add: configured_def at_top_def CountMcCabe_def measured_def bindC_assoc cong: bindC_cong)

lemma place_depth: "depth_of (snd (place x p c)) \<le> depth_of x + 1"
  by (cases x; cases c) auto

lemma traverse_nodes_measure:
  assumes node: "\<And>n v s f. n \<in> set ns \<Longrightarrow> stmtStack v = s # ss \<Longrightarrow> EnsureConfigured s = Inr t \<Longrightarrow>
      functionStack v = f # fs \<Longrightarrow>
      TraverseStmt n v = Inr (v\<lparr>stmtStack := t # ss, functionStack := measured (decisions n) (levels x n) f # fs,
        parsedFunctions := parsedFunctions v @ recorded n\<rparr>)"
    and t: "EnsureConfigured t = Inr t"
    and v: "stmtStack v = s # ss" "EnsureConfigured s = Inr t" "functionStack v = f # fs"
  shows "traverse_nodes ns v = Inr (v\<lparr>stmtStack := (if ns = [] then s else t) # ss,
      functionStack := measured (sum_list (map decisions ns)) (concat (map (levels x) ns)) f # fs,
      parsedFunctions := parsedFunctions v @ concat (map recorded ns)\<rparr>)"
  using node v
proof (induction ns arbitrary: v s f)
  case Nil
  then show ?case by simp
next
  case (Cons n ns)
  let ?v = "v\<lparr>stmtStack := t # ss, functionStack := measured (decisions n) (levels x n) f # fs,
        parsedFunctions := parsedFunctions v @ recorded n\<rparr>"
  have 1: "TraverseStmt n v = Inr ?v" using Cons.prems by simp
  have 2: "traverse_nodes ns ?v = Inr (?v\<lparr>stmtStack := (if ns = [] then t else t) # ss,
      functionStack := measured (sum_list (map decisions ns)) (concat (map (levels x) ns))
        (measured (decisions n) (levels x n) f) # fs,
      parsedFunctions := parsedFunctions ?v @ concat (map recorded ns)\<rparr>)"
    by (rule Cons.IH) (use Cons.prems(1) t in auto)
  show ?case using 1 2 by (simp add: measured_measured)
qed

lemma measure_statement:
  assumes node: "\<And>n v s t x f fs ss. n \<in> set cs \<Longrightarrow> stmtStack v = s # ss \<Longrightarrow> EnsureConfigured s = Inr t \<Longrightarrow>
      stands_for t x \<Longrightarrow> good (t # ss) \<Longrightarrow> functionStack v = f # fs \<Longrightarrow> depth_of x + height n < 2 ^ 32 \<Longrightarrow>
      TraverseStmt n v = Inr (v\<lparr>stmtStack := t # ss, functionStack := measured (decisions n) (levels x n) f # fs,
        parsedFunctions := parsedFunctions v @ recorded n\<rparr>)"
    and v: "stmtStack v = s # ss" "EnsureConfigured s = Inr t" "stands_for t x" "good (t # ss)"
      "functionStack v = f # fs" "depth_of x + height (Statement p c cs) < 2 ^ 32"
  shows "TraverseStmt (Statement p c cs) v = Inr (v\<lparr>stmtStack := t # ss,
      functionStack := measured (decisions (Statement p c cs)) (levels x (Statement p c cs)) f # fs,
      parsedFunctions := parsedFunctions v @ recorded (Statement p c cs)\<rparr>)"
proof -
  define y where "y = snd (place x p c)"
  have bound: "depth_of x + 1 < 2 ^ 32" "\<And>n. n \<in> set cs \<Longrightarrow> depth_of y + height n < 2 ^ 32"
    using v(6) height_child [of _ "Statement p c cs"] place_depth [of x p c] by (fastforce simp: y_def)+
  from configured_place [OF v(3) bound(1), of p c] obtain a b where ab:
    "configured (fresh_scope p (sc_depth t) (next_state x p)) c = Inr a" "EnsureConfigured a = Inr b"
    "stands_for b y" "sc_depth t < sc_depth b \<longleftrightarrow> fst (place x p c)"
    "sc_state b = Invalid \<longrightarrow> sc_depth b = sc_depth t"
    unfolding y_def by blast
  have st: "StatementScope (Some p) (stmtStack v) = Inr (fresh_scope p (sc_depth t) (next_state x p) # t # ss)"
    using v(1,2) CheckNext_place [OF v(3), of p] by (simp add: StatementScope_def fresh_scope_def)
  have gd: "good (b # t # ss)" using v(4) ab(5) stands_for_configured [OF ab(3)] by simp
  have bb: "EnsureConfigured b = Inr b" using stands_for_configured [OF ab(3)] by simp
  define w where "w = v\<lparr>stmtStack := a # t # ss, functionStack := measured (if decides c then 1 else 0) [] f # fs,
      contextStatementStack := (if has_context c then p # contextStatementStack v else contextStatementStack v)\<rparr>"
  have enter: "enter_stmt p c (v\<lparr>stmtStack := fresh_scope p (sc_depth t) (next_state x p) # t # ss\<rparr>) = Inr w"
    using enter_configured [OF v(5)] ab(1) by (simp add: w_def)
  have kids: "traverse_nodes cs w = Inr (w\<lparr>stmtStack := (if cs = [] then a else b) # t # ss,
      functionStack := measured (sum_list (map decisions cs)) (concat (map (levels y) cs))
        (measured (if decides c then 1 else 0) [] f) # fs,
      parsedFunctions := parsedFunctions w @ concat (map recorded cs)\<rparr>)"
    by (rule traverse_nodes_measure [OF node bb _ ab(2)]) (use ab gd bound in \<open>auto simp: w_def\<close>)
  have d: "of_nat (depth_of y) = sc_depth b" using stands_for_depth [OF ab(3), symmetric] by simp
  show ?thesis
    using ab(2,4) bb
    by (simp add: st enter kids, simp add: w_def at_top_def leave_stmt_def CountBumpiness_def IsReal_def pop_scope_def
        measured_def y_def [symmetric] d algebra_simps)
qed

lemma measure_function:
  assumes node: "\<And>n v s t x f fs ss. n \<in> set cs \<Longrightarrow> stmtStack v = s # ss \<Longrightarrow> EnsureConfigured s = Inr t \<Longrightarrow>
      stands_for t x \<Longrightarrow> good (t # ss) \<Longrightarrow> functionStack v = f # fs \<Longrightarrow> depth_of x + height n < 2 ^ 32 \<Longrightarrow>
      TraverseStmt n v = Inr (v\<lparr>stmtStack := t # ss, functionStack := measured (decisions n) (levels x n) f # fs,
        parsedFunctions := parsedFunctions v @ recorded n\<rparr>)"
    and st: "StatementScope None (stmtStack v) = Inr (s0 # ss)" "sc_state s0 = Initial" "sc_kind s0 = Unknown"
    and h: "height (FunctionDecl fresh isdef body cs) < 2 ^ 32"
  shows "\<exists>g. astNodeId g = fresh \<and> (fresh \<longrightarrow> g = function_record isdef body cs) \<and>
    TraverseStmt (FunctionDecl fresh isdef body cs) v = end_FunctionScope (v\<lparr>stmtStack := ss,
      functionStack := g # functionStack v, parsedFunctions := parsedFunctions v @ concat (map recorded cs)\<rparr>)"
proof -
  define s where "s = s0\<lparr>sc_kind := OneWay, exp0 := body, sc_depth := 0\<rparr>"
  define g0 where "g0 = \<lparr>astNodeId = fresh, mccabe = (if fresh \<and> isdef then 1 else 0), bumpiness = 0, statementCount = 0\<rparr>"
  define w where "w = v\<lparr>stmtStack := s # ss, functionStack := g0 # functionStack v\<rparr>"
  have x: "stands_for s (Only [body] 0)" using st(2) by (simp add: s_def)
  have s: "EnsureConfigured s = Inr s" using stands_for_configured [OF x] by simp
  have g: "good (s # ss)" using st(2) by (simp add: s_def)
  have enter: "at_top (MakeFunction body) ((FunctionScope v)\<lparr>stmtStack := s0 # ss\<rparr>) =
      Inr ((FunctionScope v)\<lparr>stmtStack := s # ss\<rparr>)"
    using st(3) by (simp add: at_top_def MakeFunction_def s_def)
  have visit: "VisitFunctionDecl fresh isdef ((FunctionScope v)\<lparr>stmtStack := s # ss\<rparr>) = w"
    by (simp add: VisitFunctionDecl_def FunctionScope_def w_def g0_def)
  have b: "depth_of (Only [body] 0) + height n < 2 ^ 32" if "n \<in> set cs" for n
    using h height_child [of n "FunctionDecl fresh isdef body cs"] that by auto
  define g1 where "g1 = measured (sum_list (map decisions cs)) (concat (map (levels (Only [body] 0)) cs)) g0"
  have kids: "traverse_nodes cs w = Inr (w\<lparr>stmtStack := (if cs = [] then s else s) # ss,
      functionStack := g1 # functionStack v, parsedFunctions := parsedFunctions w @ concat (map recorded cs)\<rparr>)"
    unfolding g1_def by (rule traverse_nodes_measure [OF node s _ s]) (use s x g b in \<open>auto simp: w_def\<close>)
  have v': "stmtStack (FunctionScope v) = stmtStack v" by (simp add: FunctionScope_def)
  have "TraverseStmt (FunctionDecl fresh isdef body cs) v = end_FunctionScope (pop_scope
      (w\<lparr>stmtStack := (if cs = [] then s else s) # ss, functionStack := g1 # functionStack v,
        parsedFunctions := parsedFunctions w @ concat (map recorded cs)\<rparr>))"
    by (simp only: TraverseStmt.simps v' st(1) bindC_simps enter visit kids)
  also have "pop_scope (w\<lparr>stmtStack := (if cs = [] then s else s) # ss, functionStack := g1 # functionStack v,
        parsedFunctions := parsedFunctions w @ concat (map recorded cs)\<rparr>) =
      v\<lparr>stmtStack := ss, functionStack := g1 # functionStack v,
        parsedFunctions := parsedFunctions v @ concat (map recorded cs)\<rparr>"
    by (cases v) (simp add: pop_scope_def w_def)
  finally have "TraverseStmt (FunctionDecl fresh isdef body cs) v = end_FunctionScope (v\<lparr>stmtStack := ss,
      functionStack := g1 # functionStack v, parsedFunctions := parsedFunctions v @ concat (map recorded cs)\<rparr>)" .
  moreover have "astNodeId g1 = fresh" "fresh \<Longrightarrow> g1 = function_record isdef body cs"
    by (simp_all add: g1_def g0_def measured_def function_record_def Let_def)
  ultimately show ?thesis by blast
qed

lemma sum_list_shift: "sum_list (map (\<lambda>l. l + d) ls) = sum_list ls + length ls * (d :: nat)"
  by (induction ls) auto

lemma end_function:
  assumes "functionStack v = g # f # fs" "good (stmtStack v)" "astNodeId g"
    "bumpiness g = of_nat (sum_list ls)" "statementCount g = of_nat (length ls)"
    "unat (sc_depth (hd (stmtStack v))) = d"
  shows "end_FunctionScope v = Inr (v\<lparr>functionStack := measured 0 (map (\<lambda>l. l + d) ls) f # fs,
      parsedFunctions := parsedFunctions v @ [g]\<rparr>)"
proof -
  from good_TopValid [OF assms(2)] obtain i where i: "i < length (stmtStack v)" "TopValid (stmtStack v) = Some i"
    "sc_depth (stmtStack v ! i) = sc_depth (hd (stmtStack v))"
    "EnsureConfigured (stmtStack v ! i) = Inr (stmtStack v ! i)" by blast
  have "(of_nat d :: 32 word) = sc_depth (hd (stmtStack v))" using assms(6) by auto
  then show ?thesis
    using assms(1,3,4,5) i
    by (simp add: end_FunctionScope_def Let_def measured_def sum_list_shift algebra_simps)
qed

lemma traverse_measures:
  "stmtStack v = s # ss \<Longrightarrow> EnsureConfigured s = Inr t \<Longrightarrow> stands_for t x \<Longrightarrow> good (t # ss) \<Longrightarrow>
    functionStack v = f # fs \<Longrightarrow> depth_of x + height n < 2 ^ 32 \<Longrightarrow>
    TraverseStmt n v = Inr (v\<lparr>stmtStack := t # ss, functionStack := measured (decisions n) (levels x n) f # fs,
      parsedFunctions := parsedFunctions v @ recorded n\<rparr>)"
proof (induction n arbitrary: v s t x f fs ss)
  case (Statement p c cs)
  show ?case by (rule measure_statement [OF Statement.IH]) (use Statement.prems in auto)
next
  case (FunctionDecl fresh isdef body cs)
  note v = FunctionDecl.prems
  let ?s0 = "\<lparr>sc_stmt = None, sc_depth = sc_depth t, sc_state = Initial, sc_kind = Unknown, exp0 = None, exp1 = None\<rparr>"
  have st: "StatementScope None (stmtStack v) = Inr (?s0 # t # ss)"
    using v(1,2) by (simp add: StatementScope_def)
  have h: "height (FunctionDecl fresh isdef body cs) < 2 ^ 32" using v(6) by linarith
  have "\<exists>g. astNodeId g = fresh \<and> (fresh \<longrightarrow> g = function_record isdef body cs) \<and>
    TraverseStmt (FunctionDecl fresh isdef body cs) v = end_FunctionScope (v\<lparr>stmtStack := t # ss,
      functionStack := g # functionStack v, parsedFunctions := parsedFunctions v @ concat (map recorded cs)\<rparr>)"
    by (rule measure_function [OF FunctionDecl.IH st _ _ h]) simp_all
  then obtain g where g: "astNodeId g = fresh" "fresh \<longrightarrow> g = function_record isdef body cs"
    "TraverseStmt (FunctionDecl fresh isdef body cs) v = end_FunctionScope (v\<lparr>stmtStack := t # ss,
      functionStack := g # functionStack v, parsedFunctions := parsedFunctions v @ concat (map recorded cs)\<rparr>)"
    by blast
  show ?case
  proof (cases fresh)
    case True
    then show ?thesis
      using g v(4,5) stands_for_depth [OF v(3)]
      by (subst g(3), subst end_function) (auto simp: function_record_def Let_def)
  next
    case False
    then show ?thesis using g v(5) by (simp add: end_FunctionScope_def)
  qed
qed

text \<open>
  C2: walking a function computes what the contract on its tree says, for any nesting of statements,
  lambdas and local classes: McCabe complexity is one more than the number of decisions, bumpiness the
  sum of the depths of the counted statements and a nested function enters with its statements shifted
  by the depth of its place (\<open>B + S * D\<close>). No assertion fails, and all the stacks are as before.
\<close>

theorem function_metrics:
  assumes "stmtStack v = []" "functionStack v = []" "height (FunctionDecl fresh isdef body cs) < 2 ^ 32"
  shows "TraverseStmt (FunctionDecl fresh isdef body cs) v =
    Inr (v\<lparr>parsedFunctions := parsedFunctions v @ recorded (FunctionDecl fresh isdef body cs)\<rparr>)"
proof -
  let ?s0 = "\<lparr>sc_stmt = None, sc_depth = 0, sc_state = Initial, sc_kind = Unknown, exp0 = None, exp1 = None\<rparr>"
  have st: "StatementScope None (stmtStack v) = Inr (?s0 # [])" using assms(1) by (simp add: StatementScope_def)
  have "\<exists>g. astNodeId g = fresh \<and> (fresh \<longrightarrow> g = function_record isdef body cs) \<and>
    TraverseStmt (FunctionDecl fresh isdef body cs) v = end_FunctionScope (v\<lparr>stmtStack := [],
      functionStack := g # functionStack v, parsedFunctions := parsedFunctions v @ concat (map recorded cs)\<rparr>)"
    by (rule measure_function [OF traverse_measures st _ _ assms(3)]) simp_all
  then show ?thesis
    using assms(1,2) by (cases v) (auto simp: end_FunctionScope_def)
qed

text \<open>A lambda in a declaration of an if statement, and the stacks of a visitor that has just started.\<close>

definition test_function :: node where
  "test_function = FunctionDecl True True (Some 1) [Statement 1 CompoundStmt
     [Statement 2 (IfStmt (Some 4) None) [Statement 3 (BinaryOperator True) [], Statement 4 CompoundStmt
       [Statement 5 DeclStmt [Statement 6 OtherStmt [FunctionDecl True True (Some 7) [Statement 7 CompoundStmt
         [Statement 8 ReturnStmt []]]]]]]]]"

definition start_visitor :: visitor where
  "start_visitor = \<lparr>stmtStack = [], functionStack = [], contextStatementStack = [], parsedFunctions = []\<rparr>"

theorem function_metrics_witness:
  "TraverseStmt test_function start_visitor = Inr (start_visitor\<lparr>parsedFunctions :=
     [\<lparr>astNodeId = True, mccabe = 1, bumpiness = 1, statementCount = 1\<rparr>,
      \<lparr>astNodeId = True, mccabe = 3, bumpiness = 1 + 2 + (1 + 2), statementCount = 3\<rparr>]\<rparr>)"
  unfolding test_function_def
  by (subst function_metrics) (simp_all add: start_visitor_def function_record_def)

fun no_functions :: "node \<Rightarrow> bool" where
  "no_functions (Statement p c cs) = list_all no_functions cs"
| "no_functions (FunctionDecl fresh isdef body cs) = False"

lemma levels_forbidden: "no_functions n \<Longrightarrow> levels (Forbidden d) n = []"
  by (induction n) (auto simp: list_all_iff)

fun catch_handler :: "nat option \<Rightarrow> node \<Rightarrow> bool" where
  "catch_handler b (Statement p (CXXCatchStmt h) cs) = (Some p \<noteq> b \<and> list_all no_functions cs)"
| "catch_handler b _ = False"

lemma handler_levels: "catch_handler b n \<Longrightarrow> levels (Only [b] d) n = []"
proof (induction b n rule: catch_handler.induct)
  case (1 b p h cs)
  then show ?case using levels_forbidden by (auto simp: list_all_iff)
qed simp_all

text \<open>
  The catch blocks of a try statement add nothing to the bumpiness and to the number of
  statements of a function, whatever they contain short of lambdas and local classes: the scope of
  the try statement expects its try block only. (They still count for McCabe.)
\<close>

theorem catch_blocks_not_counted:
  assumes "stmtStack v = s # ss" "stands_for s x" "good (s # ss)" "functionStack v = f # fs"
    and "list_all (catch_handler b) hs" "depth_of x + height (Statement p (CXXTryStmt b) (block # hs)) < 2 ^ 32"
  shows "\<exists>v1 v2. TraverseStmt (Statement p (CXXTryStmt b) (block # hs)) v = Inr v1 \<and>
    TraverseStmt (Statement p (CXXTryStmt b) [block]) v = Inr v2 \<and>
    bumpiness (hd (functionStack v1)) = bumpiness (hd (functionStack v2)) \<and>
    statementCount (hd (functionStack v1)) = statementCount (hd (functionStack v2))"
proof -
  let ?n1 = "Statement p (CXXTryStmt b) (block # hs)" and ?n2 = "Statement p (CXXTryStmt b) [block]"
  have h: "depth_of x + height ?n2 < 2 ^ 32"
    using assms(6) fold_max_ge(1) [of "height block" "map height hs"] by simp
  have hs: "concat (map (levels (Only [b] d)) hs) = []" for d
    using handler_levels assms(5) by (auto simp: list_all_iff)
  have forb: "concat (map (levels (Forbidden d)) hs) = []" for d
  proof -
    have "levels (Forbidden d) n = []" if "catch_handler b n" for n
      using that levels_forbidden
      by (induction b n rule: catch_handler.induct) (auto simp: list_all_iff)
    then show ?thesis using assms(5) by (auto simp: list_all_iff)
  qed
  have "concat (map (levels (snd (place x p (CXXTryStmt b)))) hs) = []" using hs forb by (cases x) simp_all
  moreover note c = stands_for_configured [OF assms(2)]
  note traverse_measures [OF assms(1) conjunct1 [OF c] assms(2,3,4,6)]
    traverse_measures [OF assms(1) conjunct1 [OF c] assms(2,3,4) h]
  ultimately show ?thesis by (simp add: measured_def del: concat_eq_Nil_conv)
qed

definition inside_visitor :: visitor where
  "inside_visitor = start_visitor\<lparr>stmtStack := [\<lparr>sc_stmt = Some 0, sc_depth = 1, sc_state = Standalone, sc_kind = Open,
     exp0 = None, exp1 = None\<rparr>],
     functionStack := [\<lparr>astNodeId = True, mccabe = 1, bumpiness = 0, statementCount = 0\<rparr>]\<rparr>"

definition test_handlers :: "node list" where
  "test_handlers = [Statement 3 (CXXCatchStmt (Some 4)) [Statement 4 CompoundStmt
     [Statement 5 (IfStmt (Some 6) None) [Statement 6 ReturnStmt []]]]]"

theorem catch_blocks_not_counted_witness:
  "\<exists>v1 v2. TraverseStmt (Statement 1 (CXXTryStmt (Some 2)) (Statement 2 CompoundStmt [] # test_handlers)) inside_visitor = Inr v1 \<and>
    TraverseStmt (Statement 1 (CXXTryStmt (Some 2)) [Statement 2 CompoundStmt []]) inside_visitor = Inr v2 \<and>
    bumpiness (hd (functionStack v1)) = bumpiness (hd (functionStack v2)) \<and>
    statementCount (hd (functionStack v1)) = statementCount (hd (functionStack v2))"
proof -
  have "stmtStack inside_visitor = hd (stmtStack inside_visitor) # []"
    "functionStack inside_visitor = hd (functionStack inside_visitor) # []"
    by (simp_all add: inside_visitor_def)
  show ?thesis
    by (rule catch_blocks_not_counted [OF \<open>stmtStack inside_visitor = _\<close> _ _ \<open>functionStack inside_visitor = _\<close>,
          where x = "Anything 1"])
       (simp_all add: inside_visitor_def start_visitor_def test_handlers_def)
qed

text \<open>The label expression of a case counts as a statement, one level deeper than the case.\<close>

lemma case_label_is_counted:
  "levels (Anything d) (Statement p CaseStmt (Statement q OtherStmt [] # ns)) =
    (d + 1) # levels (Anything d) (Statement p DefaultStmt ns)"
  by simp

text \<open>The depth of a counted statement is positive, so bumpiness is at least the number of statements.\<close>

lemma levels_positive: "l \<in> set (levels x n) \<Longrightarrow> 0 < l"
proof (induction n arbitrary: x l)
  case (Statement p c cs)
  have "fst (place x p c) \<Longrightarrow> 0 < depth_of (snd (place x p c))" by (cases x; cases c) (auto split: if_splits)
  then show ?case using Statement by (auto split: if_splits)
next
  case (FunctionDecl fresh isdef body cs)
  then show ?case by (auto split: if_splits intro: add_pos_nonneg)
qed

lemma length_le_sum: "(\<And>l. l \<in> set ls \<Longrightarrow> 0 < l) \<Longrightarrow> length ls \<le> sum_list (ls :: nat list)"
proof (induction ls)
  case (Cons l ls)
  then have "0 < l" "length ls \<le> sum_list ls" by auto
  then show ?case by simp
qed simp

lemma recorded_function_record: "g \<in> set (recorded n) \<Longrightarrow> \<exists>isdef body cs. g = function_record isdef body cs"
  by (induction n) (auto split: if_splits)

end
