(* ===== verification/ParserSource.thy ===== *)
theory ParserSource
  imports CPrelude "HOL-Library.Word"
begin

unbundle bit_operations_syntax

text \<open>
  \<^verbatim>\<open>parser/src/sourcemanager.cpp\<close>, \<^verbatim>\<open>parsercontext.cpp\<close>, the clean-up of \<^verbatim>\<open>parser.cpp\<close>, and
  \<^verbatim>\<open>util/include/util/hash.h\<close>: which files the database knows, how their contents are shared, and
  what an incremental parse finds changed and removes.

  The file system, Boost's path functions, libmagic and the SHA-1 digest are parameters (\<open>file_system\<close>,
  \<open>sha1\<close>). A row of the table File and a cached file have the same type; the content of a row is
  always a reference by hash. Transactions are atomic, the mutex of the cache is not modelled.
\<close>

section \<open>Hashes\<close>

text \<open>A \<open>char\<close> is signed, and is extended to 64 bits with its sign.\<close>

definition char_word :: "char \<Rightarrow> 64 word" where
  "char_word c = (if of_char c < (128 :: nat) then of_nat (of_char c) else of_nat (of_char c) - 256)"

definition fnvHash :: "string \<Rightarrow> 64 word" where
  "fnvHash data = fold (\<lambda>c hash. (hash XOR char_word c) * 1099511628211) data 14695981039346656037"

fun hex_digits :: "nat \<Rightarrow> string" where
  "hex_digits n =
     (let d = ''0123456789abcdef'' ! (n mod 16) in if n < 16 then [d] else hex_digits (n div 16) @ [d])"

declare hex_digits.simps [simp del]

text \<open>\<open>width(8)\<close> holds for the next output only, so the first word alone is padded.\<close>

definition format_digest :: "32 word list \<Rightarrow> string" where
  "format_digest digest =
     (case map (\<lambda>w. hex_digits (unat w)) digest of
        [] \<Rightarrow> []
      | first # rest \<Rightarrow> replicate (8 - length first) (CHR ''0'') @ first @ concat rest)"

definition sha1Hash :: "(string \<Rightarrow> 32 word list) \<Rightarrow> string \<Rightarrow> string" where
  "sha1Hash sha1 data = format_digest (sha1 data)"

section \<open>Files\<close>

text \<open>The lazy pointer to a content: null, loaded (hash and text), or the hash only.\<close>

datatype content_ref = No_Content | In_Memory string string | By_Id string

fun object_id :: "content_ref \<Rightarrow> string option" where
  "object_id No_Content = None"
| "object_id (In_Memory h t) = Some h"
| "object_id (By_Id h) = Some h"

fun as_row :: "content_ref \<Rightarrow> content_ref" where
  "as_row (In_Memory h t) = By_Id h"
| "as_row c = c"

datatype file_type = DIRECTORY_TYPE | BINARY_TYPE | UNKNOWN_TYPE | Other_Type string

datatype parse_status = PSNone | PSPartiallyParsed | PSFullyParsed

record source_file =
  sf_id :: "64 word"
  sf_path :: string
  sf_type :: file_type
  sf_timestamp :: nat
  sf_parent :: "64 word option"
  sf_filename :: string
  sf_content :: content_ref
  sf_parseStatus :: parse_status

record file_system =
  fs_canonical :: "string \<Rightarrow> string option"
  fs_parent_path :: "string \<Rightarrow> string"
  fs_filename :: "string \<Rightarrow> string"
  fs_write_time :: "string \<Rightarrow> nat option"
  fs_is_directory :: "string \<Rightarrow> bool"
  fs_is_regular :: "string \<Rightarrow> bool"
  fs_plain_text :: "string \<Rightarrow> bool"
  fs_read :: "string \<Rightarrow> string option"
  fs_exists :: "string \<Rightarrow> bool"

text \<open>The cache of the manager and the two tables of the database.\<close>

record source_manager =
  sm_files :: "string \<Rightarrow> source_file option"
  persistedFiles :: "64 word set"
  persistedContents :: "string set"
  file_table :: "source_file list"
  content_table :: "(string \<times> string) list"

datatype odb_error = Object_Not_Persistent

definition reloadCache :: "source_manager \<Rightarrow> source_manager" where
  "reloadCache s =
     s\<lparr>sm_files := map_of (map (\<lambda>f. (sf_path f, f)) (rev (file_table s))),
       persistedFiles := set (map sf_id (file_table s)),
       persistedContents := set (map fst (content_table s))\<rparr>"

definition stored_text :: "string \<Rightarrow> string" where
  "stored_text = map (\<lambda>c. if c = NUL then CHR '' '' else c)"

definition createFileContent ::
    "(string \<Rightarrow> 32 word list) \<Rightarrow> file_system \<Rightarrow> string \<Rightarrow> content_ref" where
  "createFileContent sha1 fs path =
     (case fs_read fs path of
        None \<Rightarrow> No_Content
      | Some content \<Rightarrow> In_Memory (sha1Hash sha1 (stored_text content)) (stored_text content))"

text \<open>A new entry, once the parent is known.\<close>

definition new_entry ::
    "(string \<Rightarrow> 32 word list) \<Rightarrow> file_system \<Rightarrow> string \<Rightarrow> bool \<Rightarrow> 64 word option \<Rightarrow> source_file" where
  "new_entry sha1 fs path withContent parent =
     (let directory = fs_is_directory fs path in
      \<lparr>sf_id = fnvHash path, sf_path = path,
       sf_type = (if directory then DIRECTORY_TYPE else UNKNOWN_TYPE),
       sf_timestamp = (case fs_write_time fs path of None \<Rightarrow> 0 | Some t \<Rightarrow> t),
       sf_parent = parent, sf_filename = fs_filename fs path,
       sf_content = (if \<not> directory \<and> withContent \<and> fs_is_regular fs path \<and> fs_plain_text fs path
         then createFileContent sha1 fs path else No_Content), sf_parseStatus = PSNone\<rparr>)"

text \<open>
  \<open>getFile\<close>, \<open>getCreateFileEntry\<close> and \<open>getCreateParent\<close> call each other; the first argument bounds the
  depth of the recursion, and None means that it was not enough.
\<close>

fun getFile ::
    "nat \<Rightarrow> (string \<Rightarrow> 32 word list) \<Rightarrow> file_system \<Rightarrow> string \<Rightarrow> source_manager \<Rightarrow>
       (source_file \<times> source_manager) option"
  and getCreateFileEntry ::
    "nat \<Rightarrow> (string \<Rightarrow> 32 word list) \<Rightarrow> file_system \<Rightarrow> string \<Rightarrow> bool \<Rightarrow> source_manager \<Rightarrow>
       (source_file \<times> source_manager) option"
  and getCreateParent ::
    "nat \<Rightarrow> (string \<Rightarrow> 32 word list) \<Rightarrow> file_system \<Rightarrow> string \<Rightarrow> source_manager \<Rightarrow>
       (64 word option \<times> source_manager) option" where
  "getFile 0 sha1 fs path s = None"
| "getFile (Suc k) sha1 fs path s =
     (let fileExists = (fs_canonical fs path \<noteq> None);
          canonical = (case fs_canonical fs path of None \<Rightarrow> path | Some c \<Rightarrow> c)
      in
      case getCreateFileEntry k sha1 fs canonical fileExists s of
        None \<Rightarrow> None
      | Some (file, s) \<Rightarrow> Some (file, s\<lparr>sm_files := (sm_files s)(canonical \<mapsto> file)\<rparr>))"
| "getCreateFileEntry k sha1 fs path withContent s =
     (case sm_files s path of
        Some file \<Rightarrow> Some (file, s)
      | None \<Rightarrow>
          (case getCreateParent k sha1 fs path s of
             None \<Rightarrow> None
           | Some (parent, s) \<Rightarrow> Some (new_entry sha1 fs path withContent parent, s)))"
| "getCreateParent k sha1 fs path s =
     (let parentPath = fs_parent_path fs path in
      if parentPath = [] then Some (None, s)
      else
        case getFile k sha1 fs parentPath s of
          None \<Rightarrow> None
        | Some (file, s) \<Rightarrow> Some (Some (sf_id file), s))"

text \<open>The content column is read-only: an update leaves it as it is.\<close>

definition updateFile :: "source_file \<Rightarrow> source_manager \<Rightarrow> source_manager" where
  "updateFile file s =
     (if sf_id file \<in> persistedFiles s then
        s\<lparr>file_table := map (\<lambda>r. if sf_id r = sf_id file then file\<lparr>sf_content := sf_content r\<rparr> else r)
            (file_table s)\<rparr>
      else s)"

definition removeFile :: "source_file \<Rightarrow> source_manager \<Rightarrow> odb_error + source_manager" where
  "removeFile file s =
     (let content = object_id (sf_content file);
          removeContent = (content \<noteq> None \<and>
            length (filter (\<lambda>r. object_id (sf_content r) = content) (file_table s)) = 1)
      in
      if removeContent \<and> the content \<notin> set (map fst (content_table s)) then Inl Object_Not_Persistent
      else if sf_id file \<notin> set (map sf_id (file_table s)) then Inl Object_Not_Persistent
      else
        Inr (s\<lparr>
          sm_files := (sm_files s)(sf_path file := None),
          persistedFiles := persistedFiles s - {sf_id file},
          persistedContents := (if removeContent then persistedContents s - {the content} else persistedContents s),
          file_table := filter (\<lambda>r. sf_id r \<noteq> sf_id file) (file_table s),
          content_table := (if removeContent then filter (\<lambda>c. fst c \<noteq> the content) (content_table s)
            else content_table s)\<rparr>))"

text \<open>
  One file of \<open>persistFiles\<close>. Persisting an object that is in the database already throws; the
  handler drops the rest of the file's work. Loading a content that is not there throws as well, and
  is not handled.
\<close>

definition persist_file :: "source_file \<Rightarrow> source_manager \<Rightarrow> odb_error + source_manager" where
  "persist_file file s =
     (if sf_id file \<in> persistedFiles s then Inr s
      else
        let s = s\<lparr>persistedFiles := insert (sf_id file) (persistedFiles s)\<rparr>;
            row = file\<lparr>sf_content := as_row (sf_content file)\<rparr>;
            persist_row = (\<lambda>s.
              if sf_id file \<in> set (map sf_id (file_table s)) then s
              else s\<lparr>file_table := file_table s @ [row], sm_files := (sm_files s)(sf_path file \<mapsto> row)\<rparr>)
        in
        case sf_content file of
          No_Content \<Rightarrow> Inr (persist_row s)
        | By_Id h \<Rightarrow>
            if h \<in> persistedContents s then Inr (persist_row s)
            else if h \<notin> set (map fst (content_table s)) then Inl Object_Not_Persistent
            else Inr s
        | In_Memory h t \<Rightarrow>
            if h \<in> persistedContents s then Inr (persist_row s)
            else if h \<in> set (map fst (content_table s)) then Inr s
            else Inr (persist_row (s\<lparr>content_table := content_table s @ [(h, t)],
                persistedContents := insert h (persistedContents s)\<rparr>)))"

text \<open>The loop, over the paths of the cache in order.\<close>

fun persist_all :: "string list \<Rightarrow> source_manager \<Rightarrow> odb_error + source_manager" where
  "persist_all [] s = Inr s"
| "persist_all (path # paths) s =
     (case sm_files s path of
        None \<Rightarrow> persist_all paths s
      | Some file \<Rightarrow>
          (case persist_file file s of
             Inl e \<Rightarrow> Inl e
           | Inr s \<Rightarrow> persist_all paths s))"

section \<open>Changes\<close>

datatype incremental_status = MODIFIED | ADDED | DELETED | ACTION_CHANGED

text \<open>The status the constructor of \<open>ParserContext\<close> gives to a file; None when it gives none.\<close>

definition file_status ::
    "(string \<Rightarrow> 32 word list) \<Rightarrow> file_system \<Rightarrow> source_file \<Rightarrow> incremental_status option" where
  "file_status sha1 fs file =
     (if sf_type file = DIRECTORY_TYPE \<or> sf_type file = BINARY_TYPE then None
      else if fs_exists fs (sf_path file) then
        (case object_id (sf_content file) of
           None \<Rightarrow> None
         | Some h \<Rightarrow>
             let fileContent = (case fs_read fs (sf_path file) of None \<Rightarrow> [] | Some t \<Rightarrow> t)
             in if h \<noteq> sha1Hash sha1 fileContent then Some MODIFIED else None)
      else Some DELETED)"

definition ParserContext ::
    "(string \<Rightarrow> 32 word list) \<Rightarrow> file_system \<Rightarrow> source_manager \<Rightarrow> (string \<Rightarrow> incremental_status option)" where
  "ParserContext sha1 fs s =
     (\<lambda>path. case sm_files s path of None \<Rightarrow> None | Some file \<Rightarrow> file_status sha1 fs file)"

text \<open>\<open>incrementalCleanup\<close>, over the entries of \<open>fileStatus\<close>; None when the recursion was cut off.\<close>

fun incrementalCleanup ::
    "nat \<Rightarrow> (string \<Rightarrow> 32 word list) \<Rightarrow> file_system \<Rightarrow> (string \<times> incremental_status) list \<Rightarrow> source_manager \<Rightarrow>
       (odb_error + source_manager) option" where
  "incrementalCleanup k sha1 fs [] s = Some (Inr s)"
| "incrementalCleanup k sha1 fs ((path, status) # items) s =
     (if status = ADDED then incrementalCleanup k sha1 fs items s
      else
        case getFile k sha1 fs path s of
          None \<Rightarrow> None
        | Some (delFile, s) \<Rightarrow>
            (case removeFile delFile s of
               Inl e \<Rightarrow> Some (Inl e)
             | Inr s \<Rightarrow> incrementalCleanup k sha1 fs items s))"

section \<open>The cache and the tables agree\<close>

definition row_ok :: "source_manager \<Rightarrow> source_file \<Rightarrow> bool" where
  "row_ok s r \<longleftrightarrow> sf_id r = fnvHash (sf_path r) \<and> as_row (sf_content r) = sf_content r \<and>
     (\<forall>h. object_id (sf_content r) = Some h \<longrightarrow> h \<in> set (map fst (content_table s)))"

definition cached_ok :: "source_manager \<Rightarrow> source_file \<Rightarrow> bool" where
  "cached_ok s f \<longleftrightarrow> sf_id f = fnvHash (sf_path f) \<and>
     (\<forall>h. sf_content f = By_Id h \<longrightarrow> (\<exists>r \<in> set (file_table s). sf_path r = sf_path f \<and> sf_content r = By_Id h))"

definition sm_inv :: "source_manager \<Rightarrow> bool" where
  "sm_inv s \<longleftrightarrow>
     persistedFiles s = set (map sf_id (file_table s)) \<and>
     persistedContents s = set (map fst (content_table s)) \<and>
     distinct (map sf_id (file_table s)) \<and> distinct (map fst (content_table s)) \<and>
     (\<forall>r \<in> set (file_table s). row_ok s r) \<and>
     (\<forall>p f. sm_files s p = Some f \<longrightarrow> sf_path f = p \<and> cached_ok s f)"

lemma new_entry_ok: "cached_ok s (new_entry sha1 fs path c parent)" "sf_path (new_entry sha1 fs path c parent) = path"
  by (auto simp: cached_ok_def new_entry_def Let_def createFileContent_def split: option.splits if_splits)

lemma getFile_keeps:
  "sm_inv s \<Longrightarrow> getFile k sha1 fs path s = Some (f, s') \<Longrightarrow>
     sm_inv s' \<and> file_table s' = file_table s \<and> content_table s' = content_table s"
  "sm_inv s \<Longrightarrow> getCreateFileEntry k sha1 fs path c s = Some (f, s') \<Longrightarrow>
     sm_inv s' \<and> file_table s' = file_table s \<and> content_table s' = content_table s \<and> cached_ok s' f \<and> sf_path f = path"
  "sm_inv s \<Longrightarrow> getCreateParent k sha1 fs path s = Some (i, s') \<Longrightarrow>
     sm_inv s' \<and> file_table s' = file_table s \<and> content_table s' = content_table s"
proof (induction k sha1 fs path s and k sha1 fs path c s and k sha1 fs path s arbitrary: f s' and f s' and i s'
    rule: getFile_getCreateFileEntry_getCreateParent.induct)
  case (2 k sha1 fs path s)
  define canonical where "canonical = (case fs_canonical fs path of None \<Rightarrow> path | Some c \<Rightarrow> c)"
  from 2(3) obtain s1 where e: "getCreateFileEntry k sha1 fs canonical (fs_canonical fs path \<noteq> None) s = Some (f, s1)"
    "s' = s1\<lparr>sm_files := (sm_files s1)(canonical \<mapsto> f)\<rparr>"
    by (auto simp: canonical_def Let_def split: option.splits)
  have "sm_inv s1 \<and> file_table s1 = file_table s \<and> content_table s1 = content_table s \<and> cached_ok s1 f \<and> sf_path f = canonical"
    using 2(1) [OF refl canonical_def 2(2) e(1)] .
  then show ?case by (auto simp: e(2) sm_inv_def row_ok_def cached_ok_def) metis
next
  case (3 k sha1 fs path c s)
  show ?case
  proof (cases "sm_files s path")
    case (Some g)
    then show ?thesis using 3(2,3) by (auto simp: sm_inv_def)
  next
    case None
    with 3(3) obtain i where e: "getCreateParent k sha1 fs path s = Some (i, s')" "f = new_entry sha1 fs path c i"
      by (auto split: option.splits)
    show ?thesis using 3(1) [OF None 3(2) e(1)] new_entry_ok by (simp add: e(2))
  qed
next
  case (4 k sha1 fs path s)
  then show ?case by (auto simp: Let_def split: option.splits if_splits)
qed simp

lemma reload_inv: "sm_inv s \<Longrightarrow> sm_inv (reloadCache s)"
  unfolding sm_inv_def reloadCache_def row_ok_def cached_ok_def
  by (auto dest!: map_of_SomeD)

text \<open>The row of a new file, with its content if that is new as well.\<close>

definition with_row :: "source_file \<Rightarrow> (string \<times> string) list \<Rightarrow> source_manager \<Rightarrow> source_manager" where
  "with_row f cs s =
     (let row = f\<lparr>sf_content := as_row (sf_content f)\<rparr> in
      s\<lparr>persistedFiles := insert (sf_id f) (persistedFiles s),
        persistedContents := persistedContents s \<union> set (map fst cs),
        content_table := content_table s @ cs, file_table := file_table s @ [row],
        sm_files := (sm_files s)(sf_path f \<mapsto> row)\<rparr>)"

lemma with_row_inv:
  assumes inv: "sm_inv s" and f: "sf_id f = fnvHash (sf_path f)" "sf_id f \<notin> persistedFiles s"
    and cs: "distinct (map fst cs)" "set (map fst cs) \<inter> persistedContents s = {}"
      "\<forall>h. object_id (sf_content f) = Some h \<longrightarrow> h \<in> persistedContents s \<union> set (map fst cs)"
  shows "sm_inv (with_row f cs s)"
proof -
  let ?t = "with_row f cs s" and ?row = "f\<lparr>sf_content := as_row (sf_content f)\<rparr>"
  have obj: "object_id (as_row c) = object_id c" "as_row (as_row c) = as_row c" for c by (cases c; simp)+
  note i = inv [unfolded sm_inv_def]
  have d: "distinct (map sf_id (file_table ?t))" "distinct (map fst (content_table ?t))"
    using i f(2) cs(1,2) by (auto simp: with_row_def Let_def)
  have ids: "persistedFiles ?t = set (map sf_id (file_table ?t))"
    "persistedContents ?t = set (map fst (content_table ?t))"
    using i by (auto simp: with_row_def Let_def)
  have rows: "row_ok ?t r" if r: "r \<in> set (file_table ?t)" for r
    using r i f(1) cs(3) by (auto simp: with_row_def Let_def row_ok_def obj)
  have cached: "sf_path g = p \<and> cached_ok ?t g" if g: "sm_files ?t p = Some g" for p g
  proof (cases "p = sf_path f")
    case True
    then have "g = ?row" using g by (simp add: with_row_def Let_def)
    then show ?thesis using True f(1) by (auto simp: cached_ok_def with_row_def Let_def)
  next
    case False
    then have "sm_files s p = Some g" using g by (simp add: with_row_def Let_def)
    then have "sf_path g = p" "cached_ok s g" using i by auto
    then show ?thesis by (auto simp: cached_ok_def with_row_def Let_def)
  qed
  show ?thesis using d ids rows cached by (simp add: sm_inv_def)
qed

lemma persist_file_spec:
  assumes inv: "sm_inv s" and f: "cached_ok s f"
  shows "\<exists>s'. persist_file f s = Inr s' \<and> sm_inv s' \<and> sf_id f \<in> persistedFiles s' \<and>
    (\<forall>p g. sm_files s p = Some g \<longrightarrow> (\<exists>g'. sm_files s' p = Some g' \<and> (g' = g \<or> p = sf_path f \<and> sf_id g' = sf_id f))) \<and>
    persistedFiles s \<subseteq> persistedFiles s' \<and> set (content_table s) \<subseteq> set (content_table s')"
proof (cases "sf_id f \<in> persistedFiles s")
  case True
  then show ?thesis using inv by (auto simp: persist_file_def)
next
  case False
  note i = inv [unfolded sm_inv_def]
  have id: "sf_id f = fnvHash (sf_path f)" using f by (simp add: cached_ok_def)
  have new: "\<exists>cs. persist_file f s = Inr (with_row f cs s) \<and> distinct (map fst cs) \<and>
      set (map fst cs) \<inter> persistedContents s = {} \<and>
      (\<forall>h. object_id (sf_content f) = Some h \<longrightarrow> h \<in> persistedContents s \<union> set (map fst cs))"
  proof (cases "sf_content f")
    case No_Content
    then show ?thesis using False i
      by (intro exI [of _ "[]"]) (cases s, auto simp: persist_file_def with_row_def Let_def)
  next
    case (By_Id h)
    then obtain r where r: "r \<in> set (file_table s)" "sf_path r = sf_path f" using f by (auto simp: cached_ok_def)
    then have "sf_id r = sf_id f" using i id by (auto simp: row_ok_def)
    then have "sf_id f \<in> set (map sf_id (file_table s))" using r(1) by (metis image_eqI list.set_map)
    then show ?thesis using False i by simp
  next
    case (In_Memory h t)
    show ?thesis
    proof (cases "h \<in> persistedContents s")
      case True
      then show ?thesis using In_Memory False i
        by (intro exI [of _ "[]"]) (cases s, auto simp: persist_file_def with_row_def Let_def)
    next
      case neq: False
      then show ?thesis using In_Memory False i
        by (intro exI [of _ "[(h, t)]"]) (cases s, auto simp: persist_file_def with_row_def Let_def)
    qed
  qed
  then obtain cs where cs: "persist_file f s = Inr (with_row f cs s)" "distinct (map fst cs)"
    "set (map fst cs) \<inter> persistedContents s = {}"
    "\<forall>h. object_id (sf_content f) = Some h \<longrightarrow> h \<in> persistedContents s \<union> set (map fst cs)" by blast
  have "sm_inv (with_row f cs s)" by (rule with_row_inv [OF inv id False cs(2-4)])
  then show ?thesis using cs(1) by (auto simp: with_row_def Let_def)
qed

lemma persist_all_spec:
  assumes "sm_inv s"
  shows "\<exists>s'. persist_all paths s = Inr s' \<and> sm_inv s' \<and>
    (\<forall>p \<in> set paths. \<forall>f. sm_files s p = Some f \<longrightarrow> sf_id f \<in> persistedFiles s') \<and>
    persistedFiles s \<subseteq> persistedFiles s' \<and> set (content_table s) \<subseteq> set (content_table s')"
  using assms
proof (induction paths arbitrary: s)
  case (Cons path paths)
  show ?case
  proof (cases "sm_files s path")
    case None
    then show ?thesis using Cons.IH [OF Cons.prems] by auto
  next
    case (Some f)
    have ok: "cached_ok s f" "sf_path f = path" using Cons.prems Some by (auto simp: sm_inv_def)
    from persist_file_spec [OF Cons.prems ok(1)] obtain s1 where s1: "persist_file f s = Inr s1" "sm_inv s1"
      "sf_id f \<in> persistedFiles s1"
      "\<forall>p g. sm_files s p = Some g \<longrightarrow> (\<exists>g'. sm_files s1 p = Some g' \<and> (g' = g \<or> p = sf_path f \<and> sf_id g' = sf_id f))"
      "persistedFiles s \<subseteq> persistedFiles s1" "set (content_table s) \<subseteq> set (content_table s1)" by blast
    from Cons.IH [OF s1(2)] obtain s2 where s2: "persist_all paths s1 = Inr s2" "sm_inv s2"
      "\<forall>p \<in> set paths. \<forall>f. sm_files s1 p = Some f \<longrightarrow> sf_id f \<in> persistedFiles s2"
      "persistedFiles s1 \<subseteq> persistedFiles s2" "set (content_table s1) \<subseteq> set (content_table s2)" by blast
    have "sf_id g \<in> persistedFiles s2" if p: "p \<in> set (path # paths)" and g: "sm_files s p = Some g" for p g
    proof (cases "p = path")
      case True
      then show ?thesis using g Some s1(3) s2(4) by auto
    next
      case False
      then obtain g' where "sm_files s1 p = Some g'" "sf_id g' = sf_id g" using s1(4) g ok(2) by blast
      then show ?thesis using s2(3) p False by auto
    qed
    then show ?thesis using Some s1(1,5,6) s2 by auto
  qed
qed auto

lemma removeFile_spec:
  assumes inv: "sm_inv s" and f: "f \<in> set (file_table s)"
  shows "\<exists>s'. removeFile f s = Inr s' \<and> sm_inv s' \<and> file_table s' = filter (\<lambda>r. sf_path r \<noteq> sf_path f) (file_table s) \<and>
    sm_files s' = (sm_files s)(sf_path f := None) \<and>
    set (content_table s') = {c \<in> set (content_table s). (\<exists>r \<in> set (file_table s'). object_id (sf_content r) = Some (fst c)) \<or>
      object_id (sf_content f) \<noteq> Some (fst c)}"
proof -
  note i = inv [unfolded sm_inv_def]
  define content where "content = object_id (sf_content f)"
  define refs where "refs = filter (\<lambda>r. object_id (sf_content r) = content) (file_table s)"
  define removeContent where "removeContent \<longleftrightarrow> content \<noteq> None \<and> length refs = 1"
  have fr: "f \<in> set refs" using f by (simp add: refs_def content_def)
  have okf: "row_ok s f" using i f by auto
  define s' where "s' = s\<lparr>
          sm_files := (sm_files s)(sf_path f := None),
          persistedFiles := persistedFiles s - {sf_id f},
          persistedContents := (if removeContent then persistedContents s - {the content} else persistedContents s),
          file_table := filter (\<lambda>r. sf_id r \<noteq> sf_id f) (file_table s),
          content_table := (if removeContent then filter (\<lambda>c. fst c \<noteq> the content) (content_table s)
            else content_table s)\<rparr>"
  have "sf_id f \<in> set (map sf_id (file_table s))" using f by simp
  moreover have "(removeContent \<and> the content \<notin> set (map fst (content_table s))) = False"
    using okf by (cases "object_id (sf_content f)") (auto simp: removeContent_def content_def row_ok_def)
  ultimately have run: "removeFile f s = Inr s'"
    by (simp only: removeFile_def Let_def s'_def content_def [symmetric] refs_def [symmetric]
        removeContent_def [symmetric] if_False not_not if_not_P simp_thms)
  have inj: "r = f" if "r \<in> set (file_table s)" "sf_id r = sf_id f" for r
    using that f i by (auto simp: distinct_map inj_on_def)
  have path: "sf_id r = sf_id f \<longleftrightarrow> sf_path r = sf_path f" if "r \<in> set (file_table s)" for r
    using that inj [OF that] okf i by (auto simp: row_ok_def)
  have alone: "r = f" if "removeContent" "r \<in> set (file_table s)" "object_id (sf_content r) = content" for r
  proof -
    from that(1) obtain x where "refs = [x]" by (auto simp: removeContent_def length_Suc_conv)
    moreover have "r \<in> set refs" using that by (simp add: refs_def)
    ultimately show ?thesis using fr by auto
  qed
  have rows: "file_table s' = filter (\<lambda>r. sf_path r \<noteq> sf_path f) (file_table s)"
    using path by (auto simp: s'_def intro: filter_cong)
  have distinct: "distinct (map sf_id (file_table s'))" "distinct (map fst (content_table s'))"
    using i by (auto simp: s'_def distinct_map inj_on_def)
  have ids: "persistedFiles s' = set (map sf_id (file_table s'))" using i by (auto simp: s'_def)
  have cids: "persistedContents s' = set (map fst (content_table s'))" using i by (auto simp: s'_def)
  have rok: "row_ok s' r" if "r \<in> set (file_table s')" for r
  proof -
    have r: "r \<in> set (file_table s)" "sf_id r \<noteq> sf_id f" using that by (auto simp: s'_def)
    then have "row_ok s r" using i by auto
    moreover have "object_id (sf_content r) \<noteq> content" if "removeContent" using alone [OF that r(1)] r(2) by auto
    ultimately show ?thesis
      by (cases "removeContent") (auto simp: row_ok_def s'_def removeContent_def)
  qed
  have cok: "sf_path g = p \<and> cached_ok s' g" if "sm_files s' p = Some g" for p g
  proof -
    have g: "sm_files s p = Some g" "p \<noteq> sf_path f" using that by (auto simp: s'_def split: if_splits)
    then have "sf_path g = p" "cached_ok s g" using i by auto
    then show ?thesis using g(2) rows by (auto simp: cached_ok_def) metis
  qed
  have "sm_inv s'" using distinct ids cids rok cok by (simp add: sm_inv_def)
  moreover have "set (content_table s') = {c \<in> set (content_table s).
      (\<exists>r \<in> set (file_table s'). object_id (sf_content r) = Some (fst c)) \<or> content \<noteq> Some (fst c)}"
  proof (cases "removeContent")
    case True
    then have "\<not> (\<exists>r \<in> set (file_table s'). object_id (sf_content r) = content)"
      using alone by (auto simp: s'_def)
    then show ?thesis using True by (auto simp: s'_def removeContent_def)
  next
    case False
    have "\<exists>r \<in> set (file_table s'). object_id (sf_content r) = content" if c: "content \<noteq> None"
    proof -
      have "distinct (file_table s)" using i by (simp add: distinct_map)
      then have "distinct refs" by (simp add: refs_def)
      moreover have "length refs \<noteq> 1" "refs \<noteq> []" using False c fr by (auto simp: removeContent_def)
      ultimately obtain r where "r \<in> set refs" "r \<noteq> f"
        by (cases refs; cases "tl refs") (auto simp: neq_Nil_conv)
      then show ?thesis using inj by (auto simp: s'_def refs_def)
    qed
    then show ?thesis using False by (auto simp: s'_def)
  qed
  moreover have "sm_files s' = (sm_files s)(sf_path f := None)" by (simp add: s'_def)
  ultimately show ?thesis using run rows unfolding content_def by blast
qed


text \<open>A file system with one directory and two files of the same text.\<close>

definition test_fs :: file_system where
  "test_fs = \<lparr>fs_canonical = Some,
     fs_parent_path = (\<lambda>p. if p = ''/a/x'' \<or> p = ''/a/y'' then ''/a'' else if p = ''/a'' then ''/'' else []),
     fs_filename = id, fs_write_time = (\<lambda>_. None), fs_is_directory = (\<lambda>p. p = ''/a'' \<or> p = ''/''),
     fs_is_regular = (\<lambda>p. p = ''/a/x'' \<or> p = ''/a/y''), fs_plain_text = (\<lambda>_. True),
     fs_read = (\<lambda>p. if p = ''/a/x'' \<or> p = ''/a/y'' then Some ''hi'' else None), fs_exists = (\<lambda>_. True)\<rparr>"

definition empty_manager :: source_manager where
  "empty_manager = \<lparr>sm_files = Map.empty, persistedFiles = {}, persistedContents = {}, file_table = [], content_table = []\<rparr>"

definition test_sha1 :: "string \<Rightarrow> 32 word list" where
  "test_sha1 t = [of_nat (length t), 1, 2, 3, 4]"

lemma empty_manager_inv: "sm_inv empty_manager"
  by (simp add: sm_inv_def empty_manager_def)

lemma test_fs_simps [simp]:
  "fs_canonical test_fs p = Some p" "fs_parent_path test_fs ''/a/x'' = ''/a''" "fs_parent_path test_fs ''/a'' = ''/''"
  "fs_parent_path test_fs ''/'' = []" "fs_is_directory test_fs ''/a/x'' = False"
  "fs_is_regular test_fs ''/a/x''" "fs_plain_text test_fs p" "fs_is_directory test_fs ''/a''" "fs_is_directory test_fs ''/''"
  by (simp_all add: test_fs_def)

definition test_entries :: "source_manager" where
  "test_entries = (let root = new_entry test_sha1 test_fs ''/'' True None;
     dir = new_entry test_sha1 test_fs ''/a'' True (Some (sf_id root));
     f = new_entry test_sha1 test_fs ''/a/x'' True (Some (sf_id dir))
    in empty_manager\<lparr>sm_files := [''/'' \<mapsto> root, ''/a'' \<mapsto> dir, ''/a/x'' \<mapsto> f]\<rparr>)"

lemma test_getFile:
  "getFile (Suc (Suc (Suc (Suc 0)))) test_sha1 test_fs ''/a/x'' empty_manager =
     Some (the (sm_files test_entries ''/a/x''), test_entries)"
  by (simp add: test_entries_def Let_def empty_manager_def)


section \<open>Looking up a file ends\<close>

text \<open>
  What the recursion relies on: a canonical path and its parents are canonical, and the parent of a
  path is shorter.
\<close>

definition path_laws :: "file_system \<Rightarrow> bool" where
  "path_laws fs \<longleftrightarrow>
     (\<forall>p c. fs_canonical fs p = Some c \<longrightarrow> fs_canonical fs c = Some c \<and>
       (fs_parent_path fs c = [] \<or> fs_canonical fs (fs_parent_path fs c) = Some (fs_parent_path fs c))) \<and>
     (\<forall>p. fs_parent_path fs p = [] \<or> length (fs_parent_path fs p) < length p)"

lemma getFile_canonical:
  assumes "path_laws fs"
  shows "fs_canonical fs p = Some p \<Longrightarrow> length p < n \<Longrightarrow> getFile n sha1 fs p s \<noteq> None"
proof (induction n arbitrary: p s)
  case (Suc n)
  let ?q = "fs_parent_path fs p"
  have "getFile n sha1 fs ?q s \<noteq> None" if "?q \<noteq> []"
  proof (rule Suc.IH)
    show "fs_canonical fs ?q = Some ?q" using assms Suc.prems(1) that unfolding path_laws_def by blast
    have "length ?q < length p" using assms that unfolding path_laws_def by blast
    then show "length ?q < n" using Suc.prems(2) by simp
  qed
  then show ?case using Suc.prems(1) by (auto simp: Let_def split: option.splits)
qed simp

text \<open>
  \<open>getFile\<close>, which creates the entries of all parent directories, returns for every path, whether
  the file exists or not and whatever is in the cache.
\<close>

theorem getFile_returns:
  assumes "path_laws fs"
  shows "\<exists>k. \<forall>n \<ge> k. \<forall>s. getFile n sha1 fs path s \<noteq> None"
proof (induction "length path" arbitrary: path rule: less_induct)
  case less
  show ?case
  proof (cases "fs_canonical fs path")
    case (Some c)
    have c: "fs_canonical fs c = Some c" using assms Some unfolding path_laws_def by blast
    have "getFile n sha1 fs path s \<noteq> None" if n: "n \<ge> Suc (length c)" for n s
    proof -
      from getFile_canonical [OF assms c, of n] n have "getFile n sha1 fs c s \<noteq> None" by simp
      then show ?thesis using Some c by (cases n) simp_all
    qed
    then show ?thesis by blast
  next
    case None
    let ?q = "fs_parent_path fs path"
    show ?thesis
    proof (cases "?q = []")
      case True
      have "getFile n sha1 fs path s \<noteq> None" if "n \<ge> 1" for n s
        using that None True by (cases n) (auto simp: Let_def split: option.splits)
      then show ?thesis by blast
    next
      case False
      then have "length ?q < length path" using assms unfolding path_laws_def by blast
      from less [OF this] obtain k where k: "\<forall>n \<ge> k. \<forall>s. getFile n sha1 fs ?q s \<noteq> None" by blast
      have "getFile n sha1 fs path s \<noteq> None" if n: "n \<ge> Suc k" for n s
      proof -
        obtain m where m: "n = Suc m" "m \<ge> k" using n by (cases n) auto
        then have "getFile m sha1 fs ?q s \<noteq> None" using k by blast
        then show ?thesis using None m(1) by (auto simp: Let_def split: option.splits)
      qed
      then show ?thesis by blast
    qed
  qed
qed

lemma test_fs_laws: "path_laws test_fs"
  by (simp add: path_laws_def test_fs_def)

theorem getFile_returns_witness:
  "\<exists>k. \<forall>n \<ge> k. getFile n test_sha1 test_fs ''/nowhere'' test_entries \<noteq> None"
  using getFile_returns [OF test_fs_laws] by blast

section \<open>Detecting and removing changed files\<close>

lemma stored_text_id: "stored_text t = t \<longleftrightarrow> NUL \<notin> set t"
proof -
  have "CHR '' '' \<noteq> NUL" by code_simp
  then show ?thesis by (induction t) (auto simp: stored_text_def)
qed


definition nul_fs :: file_system where
  "nul_fs = test_fs\<lparr>fs_read := (\<lambda>p. Some [CHR ''a'', NUL])\<rparr>"

definition text_sha1 :: "string \<Rightarrow> 32 word list" where
  "text_sha1 t = [of_nat (length (filter (\<lambda>c. c = NUL) t))]"


definition changed_paths :: "(string \<times> incremental_status) list \<Rightarrow> string set" where
  "changed_paths items = fst ` {x \<in> set items. snd x \<noteq> ADDED}"

definition refers :: "source_file \<Rightarrow> string \<Rightarrow> bool" where
  "refers f h \<longleftrightarrow> object_id (sf_content f) = Some h"

lemma getFile_cached:
  assumes "sm_files s p = Some f" "fs_canonical fs p = None \<or> fs_canonical fs p = Some p"
  shows "getFile (Suc k) sha1 fs p s = Some (f, s)"
proof -
  have "s\<lparr>sm_files := (sm_files s)(p \<mapsto> f)\<rparr> = s" using assms(1) by (simp add: fun_upd_idem)
  then show ?thesis using assms by auto
qed

lemma kept_contents:
  "(A \<longleftrightarrow> B \<or> D) \<Longrightarrow> (E \<longleftrightarrow> F \<or> D) \<Longrightarrow> ((C \<and> (A \<or> \<not> F)) \<and> (B \<or> \<not> D)) = (C \<and> (B \<or> \<not> E))"
  by blast

text \<open>
  C19: the clean-up of an incremental parse removes from the database exactly the files that are not
  merely added, and exactly those contents that only removed files referred to; a content that is shared
  with a remaining file stays. It does not fail when the changed files are known and in the database.
\<close>

theorem incremental_cleanup:
  assumes "sm_inv s" "distinct (map fst items)"
    and "\<forall>p \<in> changed_paths items. (fs_canonical fs p = None \<or> fs_canonical fs p = Some p) \<and>
      (\<exists>f \<in> set (file_table s). sf_path f = p \<and> sm_files s p = Some f)"
  shows "\<exists>s'. incrementalCleanup (Suc k) sha1 fs items s = Some (Inr s') \<and> sm_inv s' \<and>
    file_table s' = filter (\<lambda>r. sf_path r \<notin> changed_paths items) (file_table s) \<and>
    set (content_table s') = {c \<in> set (content_table s). (\<exists>r \<in> set (file_table s'). refers r (fst c)) \<or>
      \<not> (\<exists>r \<in> set (file_table s). sf_path r \<in> changed_paths items \<and> refers r (fst c))}"
  using assms
proof (induction items arbitrary: s)
  case Nil
  then show ?case by (auto simp: changed_paths_def)
next
  case (Cons item items)
  obtain p st where item: "item = (p, st)" by (cases item)
  show ?case
  proof (cases "st = ADDED")
    case True
    then have "changed_paths (item # items) = changed_paths items" by (auto simp: changed_paths_def item)
    then show ?thesis using Cons item True by simp
  next
    case False
    then have ch: "changed_paths (item # items) = insert p (changed_paths items)"
      by (force simp: changed_paths_def item)
    have new: "p \<notin> changed_paths items" using Cons.prems(2) by (auto simp: changed_paths_def item)
    obtain f where f: "f \<in> set (file_table s)" "sf_path f = p" "sm_files s p = Some f"
      using Cons.prems(3) ch by auto
    have g: "getFile (Suc k) sha1 fs p s = Some (f, s)"
      using getFile_cached [OF f(3)] Cons.prems(3) ch by auto
    from removeFile_spec [OF Cons.prems(1) f(1)] obtain s1 where s1: "removeFile f s = Inr s1" "sm_inv s1"
      "file_table s1 = filter (\<lambda>r. sf_path r \<noteq> p) (file_table s)" "sm_files s1 = (sm_files s)(p := None)"
      "set (content_table s1) = {c \<in> set (content_table s). (\<exists>r \<in> set (file_table s1). refers r (fst c)) \<or> \<not> refers f (fst c)}"
      unfolding f(2) refers_def by auto
    have "\<forall>q \<in> changed_paths items. (fs_canonical fs q = None \<or> fs_canonical fs q = Some q) \<and>
      (\<exists>f \<in> set (file_table s1). sf_path f = q \<and> sm_files s1 q = Some f)"
      using Cons.prems(3) new ch s1(3,4) by fastforce
    from Cons.IH [OF s1(2) _ this] Cons.prems(2) obtain s2 where s2:
      "incrementalCleanup (Suc k) sha1 fs items s1 = Some (Inr s2)" "sm_inv s2"
      "file_table s2 = filter (\<lambda>r. sf_path r \<notin> changed_paths items) (file_table s1)"
      "set (content_table s2) = {c \<in> set (content_table s1). (\<exists>r \<in> set (file_table s2). refers r (fst c)) \<or>
        \<not> (\<exists>r \<in> set (file_table s1). sf_path r \<in> changed_paths items \<and> refers r (fst c))}" by auto
    have only: "r = f" if "r \<in> set (file_table s)" "sf_path r = p" for r
      using that f Cons.prems(1) by (auto simp: sm_inv_def row_ok_def distinct_map inj_on_def)
    have rows: "file_table s2 = filter (\<lambda>r. sf_path r \<notin> changed_paths (item # items)) (file_table s)"
      using s2(3) s1(3) ch by (auto intro: filter_cong)
    have "set (content_table s2) = {c \<in> set (content_table s). (\<exists>r \<in> set (file_table s2). refers r (fst c)) \<or>
      \<not> (\<exists>r \<in> set (file_table s). sf_path r \<in> changed_paths (item # items) \<and> refers r (fst c))}"
    proof -
      have a: "(\<exists>r \<in> set (file_table s1). refers r h) \<longleftrightarrow> (\<exists>r \<in> set (file_table s2). refers r h) \<or>
        (\<exists>r \<in> set (file_table s1). sf_path r \<in> changed_paths items \<and> refers r h)" for h
        using s2(3) by auto
      have e: "(\<exists>r \<in> set (file_table s). sf_path r \<in> changed_paths (item # items) \<and> refers r h) \<longleftrightarrow>
        refers f h \<or> (\<exists>r \<in> set (file_table s1). sf_path r \<in> changed_paths items \<and> refers r h)" for h
      proof -
        have "(\<exists>r \<in> set (file_table s). sf_path r = p \<and> refers r h) \<longleftrightarrow> refers f h" using f(1,2) only by blast
        moreover have "(\<exists>r \<in> set (file_table s). sf_path r \<in> changed_paths items \<and> refers r h) \<longleftrightarrow>
            (\<exists>r \<in> set (file_table s1). sf_path r \<in> changed_paths items \<and> refers r h)"
          unfolding s1(3) using new by auto
        ultimately show ?thesis unfolding ch by blast
      qed
      show ?thesis unfolding s2(4) s1(5) mem_Collect_eq
        by (rule Collect_cong) (rule kept_contents [OF a e])
    qed
    then show ?thesis using item False g s1(1) s2(1,2) rows by (intro exI [of _ s2]) simp
  qed
qed

definition test_stored :: "string \<Rightarrow> source_file" where
  "test_stored p = \<lparr>sf_id = fnvHash p, sf_path = p, sf_type = UNKNOWN_TYPE, sf_timestamp = 0, sf_parent = None,
     sf_filename = p, sf_content = By_Id ''h'', sf_parseStatus = PSNone\<rparr>"

definition shared_manager :: source_manager where
  "shared_manager = \<lparr>sm_files = [''a'' \<mapsto> test_stored ''a'', ''b'' \<mapsto> test_stored ''b''],
     persistedFiles = {fnvHash ''a'', fnvHash ''b''}, persistedContents = {''h''},
     file_table = [test_stored ''a'', test_stored ''b''], content_table = [(''h'', ''hi'')]\<rparr>"

lemma shared_manager_inv: "sm_inv shared_manager"
proof -
  have "fnvHash ''a'' \<noteq> fnvHash ''b''" by (simp add: fnvHash_def char_word_def)
  then show ?thesis
    by (auto simp: sm_inv_def shared_manager_def row_ok_def cached_ok_def test_stored_def split: if_splits)
qed

theorem incremental_cleanup_witness:
  "\<exists>s'. incrementalCleanup 1 test_sha1 test_fs [(''a'', MODIFIED)] shared_manager = Some (Inr s') \<and> sm_inv s' \<and>
     file_table s' = [test_stored ''b''] \<and> set (content_table s') = {(''h'', ''hi'')}"
proof -
  have c: "changed_paths [(''a'', MODIFIED)] = {''a''}" by (auto simp: changed_paths_def)
  have "\<exists>s'. incrementalCleanup (Suc 0) test_sha1 test_fs [(''a'', MODIFIED)] shared_manager = Some (Inr s') \<and> sm_inv s' \<and>
    file_table s' = filter (\<lambda>r. sf_path r \<notin> {''a''}) (file_table shared_manager) \<and>
    set (content_table s') = {c \<in> set (content_table shared_manager). (\<exists>r \<in> set (file_table s'). refers r (fst c)) \<or>
      \<not> (\<exists>r \<in> set (file_table shared_manager). sf_path r \<in> {''a''} \<and> refers r (fst c))}"
    using incremental_cleanup [OF shared_manager_inv, of "[(''a'', MODIFIED)]" test_fs 0 test_sha1]
    unfolding c by (simp add: shared_manager_def test_stored_def)
  then obtain s' where s': "incrementalCleanup (Suc 0) test_sha1 test_fs [(''a'', MODIFIED)] shared_manager = Some (Inr s')"
    "sm_inv s'" "file_table s' = filter (\<lambda>r. sf_path r \<notin> {''a''}) (file_table shared_manager)"
    "set (content_table s') = {c \<in> set (content_table shared_manager). (\<exists>r \<in> set (file_table s'). refers r (fst c)) \<or>
      \<not> (\<exists>r \<in> set (file_table shared_manager). sf_path r \<in> {''a''} \<and> refers r (fst c))}" by blast
  from s'(3) have f: "file_table s' = [test_stored ''b'']" by (simp add: shared_manager_def test_stored_def)
  moreover have "set (content_table s') = {(''h'', ''hi'')}"
    unfolding s'(4) f by (auto simp: shared_manager_def refers_def test_stored_def)
  ultimately show ?thesis using s'(1,2) by (intro exI [of _ s']) simp
qed

text \<open>Two digests that differ in where one word ends and the next begins have the same text.\<close>

lemma digest_text_ambiguous:
  "format_digest [0, 1, 0x23, 0, 0] = format_digest [0, 0x12, 3, 0, 0]"
proof -
  have h: "hex_digits 0 = ''0''" "hex_digits 1 = ''1''" "hex_digits 3 = ''3''" "hex_digits 0x23 = ''23''"
    "hex_digits 0x12 = ''12''" by code_simp+
  then show ?thesis by (simp add: format_digest_def h [simplified])
qed

end
