(* ===== verification/CppModel.thy ===== *)
theory CppModel
  imports CppString ParserSource
begin

text \<open>
  The data model of the C++ plugin, \<^verbatim>\<open>plugins/cpp/model/include/model\<close> and \<^verbatim>\<open>model/include/model/position.h\<close>: the
  rows of the tables that the parsers fill and the services read, the identifiers of syntax nodes and
  of edges between files, and the order of source ranges.
\<close>

section \<open>Positions and ranges\<close>

record position =
  line :: nat
  column :: nat

text \<open>\<open>Position::npos\<close>.\<close>

definition npos :: nat where "npos = SIZE_MAX"

definition position_less :: "position \<Rightarrow> position \<Rightarrow> bool" where
  "position_less lhs rhs \<longleftrightarrow> line lhs < line rhs \<or> (line lhs = line rhs \<and> column lhs < column rhs)"

record range =
  rg_start :: position
  rg_end :: position

definition range_less :: "range \<Rightarrow> range \<Rightarrow> bool" where
  "range_less lhs rhs =
     (if rg_start lhs = rg_start rhs then position_less (rg_end lhs) (rg_end rhs)
      else if rg_end lhs = rg_end rhs then position_less (rg_start rhs) (rg_start lhs)
      else position_less (rg_start rhs) (rg_start lhs) \<and> position_less (rg_end lhs) (rg_end rhs))"

section \<open>Syntax nodes\<close>

datatype symbol_type =
    Variable_Symbol | Function_Symbol | FunctionPtr_Symbol | Type_Symbol | Typedef_Symbol | Macro_Symbol
  | Enum_Symbol | EnumConstant_Symbol | Namespace_Symbol | NamespaceAlias_Symbol | StringLiteral_Symbol
  | File_Symbol | Other_Symbol

fun symbol_number :: "symbol_type \<Rightarrow> nat" where
  "symbol_number Variable_Symbol = 0"
| "symbol_number Function_Symbol = 1"
| "symbol_number FunctionPtr_Symbol = 2"
| "symbol_number Type_Symbol = 3"
| "symbol_number Typedef_Symbol = 4"
| "symbol_number Macro_Symbol = 5"
| "symbol_number Enum_Symbol = 6"
| "symbol_number EnumConstant_Symbol = 7"
| "symbol_number Namespace_Symbol = 8"
| "symbol_number NamespaceAlias_Symbol = 9"
| "symbol_number StringLiteral_Symbol = 10"
| "symbol_number File_Symbol = 500"
| "symbol_number Other_Symbol = 1000"

fun symbolTypeToString :: "symbol_type \<Rightarrow> string" where
  "symbolTypeToString Variable_Symbol = ''Variable''"
| "symbolTypeToString Function_Symbol = ''Function''"
| "symbolTypeToString FunctionPtr_Symbol = ''FunctionPtr''"
| "symbolTypeToString Type_Symbol = ''Type''"
| "symbolTypeToString Typedef_Symbol = ''Typedef''"
| "symbolTypeToString Macro_Symbol = ''Macro''"
| "symbolTypeToString Enum_Symbol = ''Enum''"
| "symbolTypeToString EnumConstant_Symbol = ''EnumConstant''"
| "symbolTypeToString Namespace_Symbol = ''Namespace''"
| "symbolTypeToString NamespaceAlias_Symbol = ''NamespaceAlias''"
| "symbolTypeToString StringLiteral_Symbol = ''StringLiteral''"
| "symbolTypeToString File_Symbol = ''File''"
| "symbolTypeToString Other_Symbol = ''Other''"

datatype ast_type =
    Statement_Node | TypeLocation_Node | Declaration_Node | Definition_Node | UnDefinition_Node | Usage_Node
  | Read_Node | Write_Node | VirtualCall_Node | ParameterTypeLoc_Node | ReturnTypeLoc_Node | FieldTypeLoc_Node
  | GlobalTypeLoc_Node | LocalTypeLoc_Node | TypedefTypeLoc_Node | InheritanceTypeLoc_Node | UsingLoc_Node
  | Other_Node

fun ast_number :: "ast_type \<Rightarrow> nat" where
  "ast_number Statement_Node = 0"
| "ast_number TypeLocation_Node = 1"
| "ast_number Declaration_Node = 2"
| "ast_number Definition_Node = 3"
| "ast_number UnDefinition_Node = 4"
| "ast_number Usage_Node = 5"
| "ast_number Read_Node = 6"
| "ast_number Write_Node = 7"
| "ast_number VirtualCall_Node = 8"
| "ast_number ParameterTypeLoc_Node = 9"
| "ast_number ReturnTypeLoc_Node = 10"
| "ast_number FieldTypeLoc_Node = 11"
| "ast_number GlobalTypeLoc_Node = 12"
| "ast_number LocalTypeLoc_Node = 13"
| "ast_number TypedefTypeLoc_Node = 14"
| "ast_number InheritanceTypeLoc_Node = 15"
| "ast_number UsingLoc_Node = 16"
| "ast_number Other_Node = 1000"

fun astTypeToString :: "ast_type \<Rightarrow> string" where
  "astTypeToString Statement_Node = ''Statement''"
| "astTypeToString TypeLocation_Node = ''TypeLocation''"
| "astTypeToString Declaration_Node = ''Declaration''"
| "astTypeToString Definition_Node = ''Definition''"
| "astTypeToString UnDefinition_Node = ''UnDefinition''"
| "astTypeToString Usage_Node = ''Usage''"
| "astTypeToString Read_Node = ''Read''"
| "astTypeToString Write_Node = ''Write''"
| "astTypeToString VirtualCall_Node = ''VirtualCall''"
| "astTypeToString ParameterTypeLoc_Node = ''ParameterTypeLoc''"
| "astTypeToString ReturnTypeLoc_Node = ''ReturnTypeLoc''"
| "astTypeToString FieldTypeLoc_Node = ''FieldTypeLoc''"
| "astTypeToString GlobalTypeLoc_Node = ''GlobalTypeLoc''"
| "astTypeToString LocalTypeLoc_Node = ''LocalTypeLoc''"
| "astTypeToString TypedefTypeLoc_Node = ''TypedefTypeLoc''"
| "astTypeToString InheritanceTypeLoc_Node = ''InheritanceTypeLoc''"
| "astTypeToString UsingLoc_Node = ''UsingLoc''"
| "astTypeToString Other_Node = ''Other''"

text \<open>The file of a location may be null.\<close>

record ast_node =
  an_id :: nat
  an_value :: string
  an_file :: "nat option"
  an_start :: position
  an_end :: position
  an_hash :: nat
  an_symbol :: symbol_type
  an_type :: ast_type
  an_visible :: bool

definition an_range :: "ast_node \<Rightarrow> range" where
  "an_range n = \<lparr>rg_start = an_start n, rg_end = an_end n\<rparr>"

definition identifier_text :: "ast_node \<Rightarrow> string" where
  "identifier_text n =
     an_value n @ '':'' @ decimal (an_hash n) @ '':'' @ decimal (symbol_number (an_symbol n)) @ '':'' @
     decimal (ast_number (an_type n)) @ '':'' @ decimal (if an_visible n then 1 else 0) @ '':'' @
     (case an_file n of
        Some f \<Rightarrow>
          decimal f @ '':'' @ decimal (line (an_start n)) @ '':'' @ decimal (column (an_start n)) @ '':'' @
          decimal (line (an_end n)) @ '':'' @ decimal (column (an_end n)) @ '':''
      | None \<Rightarrow> ''null'')"

definition createIdentifier :: "ast_node \<Rightarrow> nat" where
  "createIdentifier n = unat (fnvHash (identifier_text n))"

section \<open>Other rows\<close>

datatype visibility = Private | Protected | Public

fun visibilityToString :: "visibility \<Rightarrow> string" where
  "visibilityToString Private = ''private''"
| "visibilityToString Protected = ''protected''"
| "visibilityToString Public = ''public''"

datatype entity_tag =
    Constructor | Destructor | Virtual | Static_Tag | Implicit | Global_Tag | Constant_Tag
  | Template_Specialization | Template_Instantiation

fun tagToString :: "entity_tag \<Rightarrow> string" where
  "tagToString Constructor = ''constructor''"
| "tagToString Destructor = ''destructor''"
| "tagToString Virtual = ''virtual''"
| "tagToString Static_Tag = ''static''"
| "tagToString Implicit = ''implicit''"
| "tagToString Global_Tag = ''global''"
| "tagToString Constant_Tag = ''constant''"
| "tagToString _ = []"

datatype member_kind = Field | Method

record member_row =
  mb_typeHash :: nat
  mb_node :: nat
  mb_kind :: member_kind
  mb_visibility :: visibility

datatype relation_kind = Override | Alias | Assign | DeclContext

record relation_row =
  rl_lhs :: nat
  rl_rhs :: nat
  rl_kind :: relation_kind

record inheritance_row =
  ih_derived :: nat
  ih_base :: nat

record friendship_row =
  fs_target :: nat
  fs_theFriend :: nat

datatype edge_type = PROVIDE | IMPLEMENT | USE | DEPEND

fun typeToString :: "edge_type \<Rightarrow> string" where
  "typeToString PROVIDE = ''Provide''"
| "typeToString IMPLEMENT = ''Implement''"
| "typeToString USE = ''Use''"
| "typeToString DEPEND = ''Depend''"

record edge_row =
  ed_from :: nat
  ed_to :: nat
  ed_type :: edge_type

definition edge_text :: "edge_row \<Rightarrow> string" where
  "edge_text e = decimal (ed_from e) @ decimal (ed_to e) @ typeToString (ed_type e)"

definition edge_createIdentifier :: "edge_row \<Rightarrow> nat" where
  "edge_createIdentifier e = unat (fnvHash (edge_text e))"

record expansion_row =
  ex_astNodeId :: nat
  ex_expansion :: string

record doc_comment =
  dc_content :: string
  dc_contentHash :: nat
  dc_entityHash :: nat

text \<open>What the services can be asked for.\<close>

datatype reference_type =
    DEFINITION | DECLARATION | USAGE | THIS_CALLS | CALLS_OF_THIS | CALLEE | CALLER | VIRTUAL_CALL
  | FUNC_PTR_CALL | PARAMETER | LOCAL_VAR | RETURN_TYPE | OVERRIDE | OVERRIDDEN_BY | READ | WRITE | TYPE
  | ALIAS | INHERIT_FROM | INHERIT_BY | DATA_MEMBER | METHOD | FRIEND | UNDERLYING_TYPE | ENUM_CONSTANTS
  | EXPANSION | UNDEFINITION

datatype file_reference_type = INCLUDES | TYPES | FUNCTIONS | MACROS

datatype diagram_type =
    FUNCTION_CALL | DETAILED_CLASS | CLASS_OVERVIEW | CLASS_COLLABORATION | COMPONENT_USERS
  | EXTERNAL_DEPENDENCY | EXTERNAL_USERS | INCLUDE_DEPENDENCY | INTERFACE | SUBSYSTEM_DEPENDENCY

section \<open>Ranges\<close>

lemma position_less_irrefl [simp]: "\<not> position_less p p"
  by (simp add: position_less_def)

lemma position_less_trans: "position_less p q \<Longrightarrow> position_less q r \<Longrightarrow> position_less p r"
  by (auto simp: position_less_def)

lemma position_eqI: "line p = line q \<Longrightarrow> column p = column q \<Longrightarrow> p = (q :: position)"
  by simp

lemma position_less_linear: "position_less p q \<or> p = q \<or> position_less q p"
proof (cases "line p = line q")
  case True
  then show ?thesis using position_eqI [of p q] by (cases "column p" "column q" rule: linorder_cases) (simp_all add: position_less_def)
next
  case False
  then show ?thesis by (auto simp: position_less_def)
qed

text \<open>
  The comment in the source: one range is less than another if the other one completely contains it. The
  three cases are exactly proper inclusion.
\<close>

definition position_le :: "position \<Rightarrow> position \<Rightarrow> bool" where
  "position_le p q \<longleftrightarrow> p = q \<or> position_less p q"

lemma range_less_contained:
  "range_less r s \<longleftrightarrow> position_le (rg_start s) (rg_start r) \<and> position_le (rg_end r) (rg_end s) \<and> r \<noteq> s"
proof -
  have "r = s \<longleftrightarrow> rg_start r = rg_start s \<and> rg_end r = rg_end s" by auto
  then show ?thesis by (auto simp: range_less_def position_le_def)
qed

lemma position_le_trans: "position_le p q \<Longrightarrow> position_le q r \<Longrightarrow> position_le p r"
  by (auto simp: position_le_def dest: position_less_trans)

lemma position_le_antisym: "position_le p q \<Longrightarrow> position_le q p \<Longrightarrow> p = q"
  using position_less_trans by (fastforce simp: position_le_def)

lemma range_less_irrefl [simp]: "\<not> range_less r r"
  by (simp add: range_less_def)

lemma range_less_trans:
  assumes "range_less r s" "range_less s t"
  shows "range_less r t"
proof -
  have le: "position_le (rg_start t) (rg_start r)" "position_le (rg_end r) (rg_end t)"
    using assms position_le_trans by (auto simp: range_less_contained)
  have "r \<noteq> t"
  proof
    assume "r = t"
    then have "rg_start s = rg_start t" "rg_end s = rg_end t"
      using assms position_le_antisym by (auto simp: range_less_contained)
    then show False using assms(2) by (simp add: range_less_contained)
  qed
  with le show ?thesis by (simp add: range_less_contained)
qed

section \<open>Identifiers\<close>

lemma colon_no_digit: "CHR '':'' \<notin> set (decimal n)"
  by (rule decimal_no_separator) code_simp

lemma last_separator_eq:
  assumes "c \<notin> set b" "c \<notin> set b'"
  shows "a @ c # b = a' @ c # b' \<longleftrightarrow> a = a' \<and> b = b'"
proof -
  have "a @ c # b = a' @ c # b' \<longleftrightarrow> rev b @ c # rev a = rev b' @ c # rev a'"
    using rev_is_rev_conv [of "a @ c # b" "a' @ c # b'"] by simp
  also have "\<dots> \<longleftrightarrow> rev b = rev b' \<and> rev a = rev a'" by (rule separator_eq) (use assms in auto)
  finally show ?thesis by auto
qed

lemma symbol_number_inject [simp]: "symbol_number s = symbol_number t \<longleftrightarrow> s = t"
  by (cases s; cases t) simp_all

lemma ast_number_inject [simp]: "ast_number s = ast_number t \<longleftrightarrow> s = t"
  by (cases s; cases t) simp_all

text \<open>The text that is hashed for a syntax node determines everything but the range of a node without a file.\<close>

lemma identifier_text_inject:
  assumes "identifier_text m = identifier_text n"
  shows "an_value m = an_value n \<and> an_hash m = an_hash n \<and> an_symbol m = an_symbol n \<and> an_type m = an_type n \<and>
    an_visible m = an_visible n \<and> an_file m = an_file n \<and> (an_file n \<noteq> None \<longrightarrow> an_range m = an_range n)"
proof -
  note sep = last_separator_eq [where c = "CHR '':''"]
  have null: "CHR '':'' \<notin> set ''null''" by code_simp
  have last: "last ''null'' \<noteq> CHR '':''" by code_simp
  define P where "P n = an_value n @ CHR '':'' # decimal (an_hash n) @ CHR '':'' # decimal (symbol_number (an_symbol n)) @
     CHR '':'' # decimal (ast_number (an_type n)) @ CHR '':'' # decimal (if an_visible n then 1 else 0)" for n :: ast_node
  have P: "an_value m = an_value n \<and> an_hash m = an_hash n \<and> an_symbol m = an_symbol n \<and> an_type m = an_type n \<and>
      an_visible m = an_visible n" if "P m = P n"
  proof -
    have "(((an_value m @ CHR '':'' # decimal (an_hash m)) @ CHR '':'' # decimal (symbol_number (an_symbol m))) @
        CHR '':'' # decimal (ast_number (an_type m))) @ CHR '':'' # decimal (if an_visible m then 1 else 0) =
      (((an_value n @ CHR '':'' # decimal (an_hash n)) @ CHR '':'' # decimal (symbol_number (an_symbol n))) @
        CHR '':'' # decimal (ast_number (an_type n))) @ CHR '':'' # decimal (if an_visible n then 1 else 0)"
      using that by (simp add: P_def)
    then have "an_value m = an_value n" "an_hash m = an_hash n" "an_symbol m = an_symbol n" "an_type m = an_type n"
      "(if an_visible m then 1 else 0 :: nat) = (if an_visible n then 1 else 0)"
      by (simp_all only: sep colon_no_digit decimal_inject symbol_number_inject ast_number_inject not_False_eq_True)
    then show ?thesis by (simp split: if_splits)
  qed
  define L where "L n f = decimal f @ CHR '':'' # decimal (line (an_start n)) @ CHR '':'' # decimal (column (an_start n)) @
     CHR '':'' # decimal (line (an_end n)) @ CHR '':'' # decimal (column (an_end n))" for n :: ast_node and f
  have t: "identifier_text n = P n @ CHR '':'' # (case an_file n of Some f \<Rightarrow> L n f @ '':'' | None \<Rightarrow> ''null'')" for n
    by (simp add: identifier_text_def P_def L_def split: option.split)
  show ?thesis
  proof (cases "an_file m")
    case None
    have "an_file n = None"
    proof (cases "an_file n")
      case (Some f)
      then have "last (identifier_text n) = CHR '':''" "last (identifier_text m) = last ''null''"
        using None by (simp_all add: t)
      then show ?thesis using assms last by simp
    qed simp
    then show ?thesis using assms None P by (simp add: t sep [OF null null])
  next
    case (Some f)
    obtain g where g: "an_file n = Some g"
    proof (cases "an_file n")
      case None
      then have "last (identifier_text n) = last ''null''" "last (identifier_text m) = CHR '':''"
        using Some by (simp_all add: t)
      then show ?thesis using assms last by simp
    qed
    have "P m @ CHR '':'' # L m f = P n @ CHR '':'' # L n g" using assms Some g by (simp add: t)
    then have "((((P m @ CHR '':'' # decimal f) @ CHR '':'' # decimal (line (an_start m))) @ CHR '':'' #
        decimal (column (an_start m))) @ CHR '':'' # decimal (line (an_end m))) @ CHR '':'' # decimal (column (an_end m)) =
      ((((P n @ CHR '':'' # decimal g) @ CHR '':'' # decimal (line (an_start n))) @ CHR '':'' #
        decimal (column (an_start n))) @ CHR '':'' # decimal (line (an_end n))) @ CHR '':'' # decimal (column (an_end n))"
      by (simp add: L_def)
    then have "P m = P n" "f = g" "line (an_start m) = line (an_start n)" "column (an_start m) = column (an_start n)"
      "line (an_end m) = line (an_end n)" "column (an_end m) = column (an_end n)"
      by (simp_all only: sep colon_no_digit decimal_inject not_False_eq_True)
    then show ?thesis using P Some g by (simp add: an_range_def)
  qed
qed

text \<open>There is no separator between the two files of an edge: different edges have the same text.\<close>

lemma edge_text_ambiguous:
  "edge_text \<lparr>ed_from = 1, ed_to = 23, ed_type = USE\<rparr> = edge_text \<lparr>ed_from = 12, ed_to = 3, ed_type = USE\<rparr>"
  by code_simp

end
