(* ===== verification/CppMetrics.thy ===== *)
theory CppMetrics
  imports CppScope CppModel UtilThreadPool ParserSource Complex_Main
begin

text \<open>
  \<^verbatim>\<open>plugins/cpp_metrics/parser\<close>: the metrics of functions and classes that are computed from the
  database of the C++ parser, the distribution of the work over the threads of a pool, and the
  filters by path of \<^verbatim>\<open>util\<close>.

  A table of the database is the list of its rows and a query selects from it; the database itself
  (ODB, SQLite, PostgreSQL) is not modelled. \<open>query_one\<close> fails when it finds several rows, as ODB
  does. Values are the exact numbers where the code computes with \<open>double\<close>; None is NaN.
\<close>

section \<open>Filters by path\<close>

definition isRootedUnderAnyOf :: "string list \<Rightarrow> string \<Rightarrow> bool" where
  "isRootedUnderAnyOf paths path = list_ex (\<lambda>p. take (length p) path = p) paths"

text \<open>The operator LIKE.\<close>

fun sql_like :: "string \<Rightarrow> string \<Rightarrow> bool" where
  "sql_like [] s = (s = [])"
| "sql_like (p # ps) [] = (p = CHR ''%'' \<and> sql_like ps [])"
| "sql_like (p # ps) (c # s) =
     (if p = CHR ''%'' then sql_like ps (c # s) \<or> sql_like (p # ps) s
      else (p = CHR ''_'' \<or> p = c) \<and> sql_like ps s)"

definition getFilterPathsQuery :: "string list \<Rightarrow> fault + (string \<Rightarrow> bool)" where
  "getFilterPathsQuery paths =
     bindC (assertC (paths \<noteq> [])) (\<lambda>_. Inr (\<lambda>path. list_ex (\<lambda>p. sql_like (p @ ''%'') path) paths))"

section \<open>The database\<close>

datatype metric_type =
    PARAMETER_COUNT | MCCABE_FUNCTION | MCCABE_TYPE | BUMPY_ROAD | LACK_OF_COHESION | LACK_OF_COHESION_HS

record node_metric =
  nm_node :: nat
  nm_type :: metric_type
  nm_value :: "rat option"

record function_row =
  fr_node :: nat
  fr_params :: nat
  fr_counters :: cpp_function

record metrics_db =
  db_files :: "(nat \<times> string) list"
  db_nodes :: "ast_node list"
  db_members :: "member_row list"
  db_entities :: "(nat \<times> entity_tag list) list"
  db_functions :: "function_row list"
  db_records :: "(nat \<times> nat) list"       \<comment> \<open>entity hash and syntax node of a class\<close>
  db_fileMetrics :: "nat list"            \<comment> \<open>the file of each row of CppFileMetrics\<close>
  db_nodeMetrics :: "node_metric list"

definition query_one :: "('a \<Rightarrow> bool) \<Rightarrow> 'a list \<Rightarrow> fault + 'a option" where
  "query_one q rows =
     (case filter q rows of
        [] \<Rightarrow> Inr None
      | [r] \<Rightarrow> Inr (Some r)
      | _ \<Rightarrow> Inl Assertion_Failure)"

definition node_path :: "metrics_db \<Rightarrow> nat \<Rightarrow> string option" where
  "node_path db i =
     (case find (\<lambda>n. an_id n = i) (db_nodes db) of
        None \<Rightarrow> None
      | Some n \<Rightarrow> Option.bind (an_file n) (map_of (db_files db)))"

text \<open>The rows of a view whose path satisfies the filter.\<close>

definition view_rows :: "metrics_db \<Rightarrow> (string \<Rightarrow> bool) \<Rightarrow> ('a \<Rightarrow> nat) \<Rightarrow> 'a list \<Rightarrow> 'a list" where
  "view_rows db q node rows = filter (\<lambda>r. case node_path db (node r) of None \<Rightarrow> False | Some p \<Rightarrow> q p) rows"

section \<open>Work for the threads\<close>

text \<open>
  \<open>parallelCalcMetric\<close>: the packets that are enqueued, numbered from one; \<open>it\<close> is the rest of the
  tasks. Sizes are computed modulo the width of \<open>std::size_t\<close>.
\<close>

definition size_mult :: "nat \<Rightarrow> nat \<Rightarrow> nat" where
  "size_mult a b = (a * b) mod (SIZE_MAX + 1)"

function packets_from :: "nat \<Rightarrow> nat \<Rightarrow> nat \<Rightarrow> nat \<Rightarrow> 'a list \<Rightarrow> (nat \<times> 'a list) list" where
  "packets_from taskCount partitions i prev it =
     (if i < partitions then
        let i = i + 1;
            next = size_mult taskCount i div partitions;
            size = next - prev
        in (i, take size it) # packets_from taskCount partitions i next (drop size it)
      else [])"
  by pat_completeness auto

termination by (relation "measure (\<lambda>(_, p, i, _, _). p - i)") auto

declare packets_from.simps [simp del]

definition parallelCalcMetric :: "nat \<Rightarrow> 'a list \<Rightarrow> (nat \<times> 'a list) list" where
  "parallelCalcMetric partitions tasks =
     (let taskCount = length tasks;
          partitions = (if partitions > taskCount then taskCount else partitions)
      in packets_from taskCount partitions 0 0 tasks)"

text \<open>The rows a worker writes for its packet, each task by itself.\<close>

definition worker_rows :: "('a \<Rightarrow> node_metric list) \<Rightarrow> nat \<times> 'a list \<Rightarrow> node_metric list" where
  "worker_rows rows job = concat (map rows (snd job))"

section \<open>Metrics of functions\<close>

definition functionParameters :: "function_row \<Rightarrow> node_metric list" where
  "functionParameters param =
     [\<lparr>nm_node = fr_node param, nm_type = PARAMETER_COUNT, nm_value = Some (of_nat (fr_params param))\<rparr>]"

definition functionMcCabe :: "function_row \<Rightarrow> node_metric list" where
  "functionMcCabe param =
     [\<lparr>nm_node = fr_node param, nm_type = MCCABE_FUNCTION,
       nm_value = Some (of_nat (unat (mccabe (fr_counters param))))\<rparr>]"

definition functionBumpyRoad :: "function_row \<Rightarrow> node_metric list" where
  "functionBumpyRoad fn =
     (let dB = of_nat (unat (bumpiness (fr_counters fn)));
          dC = of_nat (unat (statementCount (fr_counters fn)));
          empty = (statementCount (fr_counters fn) = 0)
      in [\<lparr>nm_node = fr_node fn, nm_type = BUMPY_ROAD, nm_value = Some (if empty then 1 else dB / dC)\<rparr>])"

section \<open>Lack of cohesion\<close>

text \<open>The syntax nodes of the members of a class, of one kind.\<close>

definition member_nodes :: "metrics_db \<Rightarrow> member_kind \<Rightarrow> nat \<Rightarrow> ast_node list" where
  "member_nodes db k typeHash =
     List.map_filter (\<lambda>m. if mb_kind m = k \<and> mb_typeHash m = typeHash
       then find (\<lambda>n. an_id n = mb_node m) (db_nodes db) else None) (db_members db)"

text \<open>The nodes that use a variable within a method, as the query selects them.\<close>

definition used_in_method :: "metrics_db \<Rightarrow> ast_node \<Rightarrow> ast_node \<Rightarrow> bool" where
  "used_in_method db m n \<longleftrightarrow>
     (an_type n = Read_Node \<or> an_type n = Write_Node) \<and>
     node_path db (an_id n) = node_path db (an_id m) \<and>
     (line (an_start n) \<ge> line (an_start m) \<or>
       (line (an_start n) = line (an_start m) \<and> column (an_start n) \<ge> column (an_start m))) \<and>
     (line (an_end n) \<le> line (an_end m) \<or>
       (line (an_end n) = line (an_end m) \<and> column (an_end n) \<le> column (an_end m)))"

definition usedFields :: "metrics_db \<Rightarrow> nat set \<Rightarrow> ast_node \<Rightarrow> nat set" where
  "usedFields db fieldHashes m =
     set (filter (\<lambda>h. h \<in> fieldHashes) (map an_hash (filter (used_in_method db m) (db_nodes db))))"

definition cohesion_counts :: "metrics_db \<Rightarrow> nat \<Rightarrow> nat \<times> nat \<times> nat" where
  "cohesion_counts db typeHash =
     (let fieldHashes = set (map an_hash (member_nodes db Field typeHash));
          methods = filter (\<lambda>m. position_less (an_start m) (an_end m)) (member_nodes db Method typeHash)
      in (card fieldHashes, length methods, sum_list (map (\<lambda>m. card (usedFields db fieldHashes m)) methods)))"

definition lackOfCohesion :: "metrics_db \<Rightarrow> nat \<times> nat \<Rightarrow> node_metric list" where
  "lackOfCohesion db type =
     (let (fieldCount, methodCount, totalCohesion) = cohesion_counts db (fst type);
          dF = of_nat fieldCount; dM = of_nat methodCount; dC = of_nat totalCohesion;
          trivial = (fieldCount = 0 \<or> methodCount = 0);
          singular = (methodCount = 1)
      in
      [\<lparr>nm_node = snd type, nm_type = LACK_OF_COHESION,
        nm_value = Some (if trivial then 0 else 1 - dC / (dM * dF))\<rparr>,
       \<lparr>nm_node = snd type, nm_type = LACK_OF_COHESION_HS,
        nm_value = (if trivial then Some 0 else if singular then None
          else Some ((dM - dC / dF) / (dM - 1)))\<rparr>])"

section \<open>McCabe complexity of classes\<close>

text \<open>An \<open>unsigned int\<close> plus a \<open>double\<close>, stored as \<open>unsigned int\<close>: undefined when it does not fit.\<close>

definition add_double :: "nat \<Rightarrow> rat option \<Rightarrow> fault + nat" where
  "add_double u v =
     (case v of
        None \<Rightarrow> Inl Out_Of_Bounds
      | Some x \<Rightarrow>
          let y = of_nat u + x in
          if - 1 < y \<and> y < 2 ^ 32 then Inr (nat \<lfloor>y\<rfloor>) else Inl Out_Of_Bounds)"

definition has_tag :: "metrics_db \<Rightarrow> entity_tag \<Rightarrow> nat \<Rightarrow> fault + bool" where
  "has_tag db t i =
     bindC (query_one (\<lambda>e. fst e = i) (db_entities db)) (\<lambda>e.
     Inr (case e of None \<Rightarrow> False | Some (_, tags) \<Rightarrow> t \<in> set tags))"

definition add_method :: "metrics_db \<Rightarrow> member_row \<Rightarrow> nat \<Rightarrow> fault + nat" where
  "add_method db method mc =
     bindC (query_one (\<lambda>n. an_id n = mb_node method) (db_nodes db)) (\<lambda>methodAstNode.
     case methodAstNode of
       None \<Rightarrow> Inr mc
     | Some a \<Rightarrow>
         (case filter (\<lambda>n. an_hash n = an_hash a \<and> an_symbol n = Function_Symbol \<and> an_type n = Definition_Node)
             (db_nodes db) of
            [] \<Rightarrow> Inr mc
          | methodDef # _ \<Rightarrow>
              bindC (has_tag db Implicit (an_id methodDef)) (\<lambda>implicit.
              if implicit then Inr mc
              else
                bindC (query_one (\<lambda>m. nm_node m = an_id methodDef \<and> nm_type m = MCCABE_FUNCTION)
                  (db_nodeMetrics db)) (\<lambda>funcMetrics.
                case funcMetrics of
                  None \<Rightarrow> Inr mc
                | Some m \<Rightarrow> add_double mc (nm_value m)))))"

fun add_methods :: "metrics_db \<Rightarrow> member_row list \<Rightarrow> nat \<Rightarrow> fault + nat" where
  "add_methods db [] mc = Inr mc"
| "add_methods db (m # ms) mc = bindC (add_method db m mc) (\<lambda>mc. add_methods db ms mc)"

text \<open>The value of one class definition, None when it is skipped.\<close>

definition class_mccabe :: "metrics_db \<Rightarrow> string list \<Rightarrow> ast_node \<Rightarrow> fault + nat option" where
  "class_mccabe db inputPaths type =
     bindC (deref (an_file type)) (\<lambda>file.
     bindC (query_one (\<lambda>f. fst f = file) (db_files db)) (\<lambda>typeFile.
     case typeFile of
       None \<Rightarrow> Inr None
     | Some f \<Rightarrow>
         if \<not> isRootedUnderAnyOf inputPaths (snd f) then Inr None
         else
           bindC (has_tag db Template_Instantiation (an_id type)) (\<lambda>instantiated.
           if instantiated then Inr None
           else
             bindC (add_methods db
               (filter (\<lambda>m. mb_typeHash m = an_hash type \<and> mb_kind m = Method) (db_members db)) 0) (\<lambda>mc.
             Inr (Some mc)))))"

fun mcValues :: "metrics_db \<Rightarrow> string list \<Rightarrow> ast_node list \<Rightarrow> (nat \<times> nat) list \<Rightarrow> fault + (nat \<times> nat) list" where
  "mcValues db inputPaths [] vals = Inr vals"
| "mcValues db inputPaths (type # types) vals =
     bindC (class_mccabe db inputPaths type) (\<lambda>v.
     mcValues db inputPaths types
       (case v of None \<Rightarrow> vals | Some mc \<Rightarrow> insort_key fst (an_id type, mc) (filter (\<lambda>p. fst p \<noteq> an_id type) vals)))"

definition typeMcCabe :: "metrics_db \<Rightarrow> string list \<Rightarrow> fault + metrics_db" where
  "typeMcCabe db inputPaths =
     bindC (mcValues db inputPaths
       (filter (\<lambda>n. an_symbol n = Type_Symbol \<and> an_type n = Definition_Node) (db_nodes db)) []) (\<lambda>vals.
     Inr (db\<lparr>db_nodeMetrics := db_nodeMetrics db @
       map (\<lambda>v. \<lparr>nm_node = fst v, nm_type = MCCABE_TYPE, nm_value = Some (of_nat (snd v))\<rparr>) vals\<rparr>))"

section \<open>The parser\<close>

record metrics_parser =
  threadCount :: nat
  inputPaths :: "string list"
  fileIdCache :: "nat list"
  astNodeIdCache :: "(nat \<times> nat) list"

text \<open>The constructor; the paths are already canonical.\<close>

definition CppMetricsParser :: "nat \<Rightarrow> string list \<Rightarrow> metrics_db \<Rightarrow> metrics_parser" where
  "CppMetricsParser jobs input db =
     \<lparr>threadCount = jobs, inputPaths = input, fileIdCache = remdups (db_fileMetrics db),
      astNodeIdCache = fold (\<lambda>m cache.
        case find (\<lambda>n. an_id n = nm_node m) (db_nodes db) of
          None \<Rightarrow> cache
        | Some n \<Rightarrow>
            (case an_file n of
               None \<Rightarrow> cache
             | Some f \<Rightarrow> if an_id n \<in> set (map fst cache) then cache else cache @ [(an_id n, f)]))
        (db_nodeMetrics db) []\<rparr>"

definition changed :: "(string \<Rightarrow> incremental_status option) \<Rightarrow> string \<Rightarrow> bool" where
  "changed fileStatus path \<longleftrightarrow>
     fileStatus path = Some DELETED \<or> fileStatus path = Some MODIFIED \<or> fileStatus path = Some ACTION_CHANGED"

text \<open>
  The loop over \<open>_astNodeIdCache\<close>. Erasing the element the loop is at destroys the node that its
  iterator points to, and the loop then reads that node to go on.
\<close>

fun cleanup_nodes :: "(string \<Rightarrow> incremental_status option) \<Rightarrow> (nat \<times> nat) list \<Rightarrow> metrics_db \<Rightarrow> fault + metrics_db" where
  "cleanup_nodes fileStatus [] db = Inr db"
| "cleanup_nodes fileStatus (pair # rest) db =
     bindC (query_one (\<lambda>f. fst f = snd pair) (db_files db)) (\<lambda>file.
     case file of
       None \<Rightarrow> Inl Null_Deref
     | Some f \<Rightarrow>
         if changed fileStatus (snd f) then Inl Use_After_Free
         else cleanup_nodes fileStatus rest db)"

definition cleanupDatabase ::
    "(string \<Rightarrow> incremental_status option) \<Rightarrow> metrics_parser \<Rightarrow> metrics_db \<Rightarrow> fault + bool \<times> metrics_parser \<times> metrics_db" where
  "cleanupDatabase fileStatus p db =
     (if fileIdCache p = [] then Inr (True, p, db)
      else
        let gone = map fst (filter (\<lambda>f. fst f \<in> set (fileIdCache p) \<and> changed fileStatus (snd f)) (db_files db));
            db = db\<lparr>db_fileMetrics := filter (\<lambda>i. i \<notin> set gone) (db_fileMetrics db)\<rparr>;
            p = p\<lparr>fileIdCache := filter (\<lambda>i. i \<notin> set gone) (fileIdCache p)\<rparr>
        in bindC (cleanup_nodes fileStatus (astNodeIdCache p) db) (\<lambda>db. Inr (True, p, db)))"

text \<open>One metric with the synchronous queue: the packets are executed as they are enqueued.\<close>

definition run_metric :: "nat \<Rightarrow> 'a list \<Rightarrow> ('a \<Rightarrow> node_metric list) \<Rightarrow> metrics_db \<Rightarrow> metrics_db" where
  "run_metric partitions tasks rows db =
     db\<lparr>db_nodeMetrics := db_nodeMetrics db @ concat (map (worker_rows rows) (parallelCalcMetric partitions tasks))\<rparr>"

definition parse :: "metrics_parser \<Rightarrow> metrics_db \<Rightarrow> fault + metrics_db" where
  "parse p db =
     bindC (getFilterPathsQuery (inputPaths p)) (\<lambda>q.
     let funs = view_rows db q fr_node (db_functions db);
         db = run_metric (threadCount p * 5) funs functionParameters db;
         db = run_metric (threadCount p * 5) funs functionMcCabe db;
         db = run_metric (threadCount p * 5) funs functionBumpyRoad db
     in
     bindC (typeMcCabe db (inputPaths p)) (\<lambda>db.
     Inr (run_metric (threadCount p * 25) (view_rows db q snd (db_records db)) (lackOfCohesion db) db)))"

section \<open>The packets\<close>

lemma size_mult_small: "a * b \<le> SIZE_MAX \<Longrightarrow> size_mult a b = a * b"
  by (simp add: size_mult_def)

lemma packets_from_spec:
  assumes "length tasks * p \<le> SIZE_MAX" "p \<le> length tasks" "0 < p" "i \<le> p"
  shows "concat (map snd (packets_from (length tasks) p i (length tasks * i div p) (drop (length tasks * i div p) tasks)))
      = drop (length tasks * i div p) tasks \<and>
    length (packets_from (length tasks) p i (length tasks * i div p) (drop (length tasks * i div p) tasks)) = p - i \<and>
    (\<forall>job \<in> set (packets_from (length tasks) p i (length tasks * i div p) (drop (length tasks * i div p) tasks)).
      snd job \<noteq> [])"
  using assms(4)
proof (induction "p - i" arbitrary: i)
  case 0
  then have "i = p" by simp
  then show ?case using assms(3) by (simp add: packets_from.simps)
next
  case (Suc k)
  let ?n = "length tasks"
  have i: "i < p" using Suc by simp
  have "?n * (i + 1) \<le> ?n * p" using i by (intro mult_le_mono) auto
  then have m: "size_mult ?n (i + 1) = ?n * (i + 1)" using assms(1) by (intro size_mult_small) linarith
  have le: "?n * i div p \<le> ?n * (i + 1) div p" by (intro div_le_mono) simp
  have "?n * i div p + 1 = (?n * i + p) div p" using assms(3) by simp
  also have "\<dots> \<le> ?n * (i + 1) div p" using assms(2) by (intro div_le_mono) simp
  finally have lt: "?n * i div p < ?n * (i + 1) div p" by simp
  have "?n * (i + 1) div p \<le> ?n * p div p" using i by (intro div_le_mono mult_le_mono) auto
  then have up: "?n * (i + 1) div p \<le> ?n" using assms(3) by simp
  have step: "packets_from ?n p i (?n * i div p) (drop (?n * i div p) tasks) =
      (i + 1, take (?n * (i + 1) div p - ?n * i div p) (drop (?n * i div p) tasks)) #
      packets_from ?n p (i + 1) (?n * (i + 1) div p) (drop (?n * (i + 1) div p) tasks)"
    using i le m by (subst packets_from.simps) (simp add: Let_def)
  have "take a xs @ drop a xs = xs" for a and xs :: "'a list" by simp
  from this [of "?n * (i + 1) div p - ?n * i div p" "drop (?n * i div p) tasks"]
  have glue: "take (?n * (i + 1) div p - ?n * i div p) (drop (?n * i div p) tasks) @ drop (?n * (i + 1) div p) tasks
      = drop (?n * i div p) tasks"
    using le by simp
  have "take (?n * (i + 1) div p - ?n * i div p) (drop (?n * i div p) tasks) \<noteq> []"
    using lt up by simp
  then show ?case using Suc.hyps(1) [of "i + 1"] Suc.hyps(2) i step glue by (simp del: mult_Suc_right)
qed

lemma packets_spec:
  assumes "length tasks * partitions \<le> SIZE_MAX" "0 < partitions"
  shows "concat (map snd (parallelCalcMetric partitions tasks)) = tasks \<and>
    length (parallelCalcMetric partitions tasks) = min partitions (length tasks) \<and>
    (\<forall>job \<in> set (parallelCalcMetric partitions tasks). snd job \<noteq> [])"
proof (cases "tasks = []")
  case True
  then show ?thesis by (simp add: parallelCalcMetric_def packets_from.simps)
next
  case False
  define p where "p = (if partitions > length tasks then length tasks else partitions)"
  have "length tasks * p \<le> length tasks * partitions" by (simp add: p_def)
  then have "length tasks * p \<le> SIZE_MAX" using assms(1) by (rule order_trans)
  moreover have "p \<le> length tasks" "0 < p" using assms(2) False by (auto simp: p_def)
  ultimately have "length tasks * p \<le> SIZE_MAX" "p \<le> length tasks" "0 < p" by auto
  from packets_from_spec [OF this, of 0] show ?thesis
    by (simp add: parallelCalcMetric_def Let_def p_def [symmetric] min_def) (auto simp: p_def)
qed

text \<open>
  A metric is computed exactly once for every task: the packets that are enqueued divide the
  tasks without overlap, none is empty, there are as many as asked for or as tasks, and when the pool has
  been waited for, the rows written are those of all tasks, whatever the threads did in between.
\<close>

theorem parallel_metric_complete:
  assumes "reachable (pool_init (Suc k)) pool_step s" "pl_client s = Joined"
    and "pl_enqueued s = parallelCalcMetric partitions tasks"
    and "0 < partitions" "length tasks * partitions \<le> SIZE_MAX"
  shows "mset (concat (map (worker_rows rows) (pl_executed s))) = mset (concat (map rows tasks)) \<and>
    concat (map snd (parallelCalcMetric partitions tasks)) = tasks \<and>
    length (parallelCalcMetric partitions tasks) = min partitions (length tasks) \<and>
    (\<forall>job \<in> set (parallelCalcMetric partitions tasks). snd job \<noteq> [])"
proof -
  note p = packets_spec [OF assms(5,4)]
  have m: "mset (concat (map (worker_rows rows) jobs)) = sum_list (map (\<lambda>j. mset (worker_rows rows j)) jobs)" for jobs
    by (induction jobs) simp_all
  have "concat (map (worker_rows rows) jobs) = concat (map rows (concat (map snd jobs)))" for jobs
    by (induction jobs) (simp_all add: worker_rows_def)
  then have "concat (map (worker_rows rows) (pl_enqueued s)) = concat (map rows tasks)" using p assms(3) by simp
  moreover have "sum_list (map (\<lambda>j. mset (worker_rows rows j)) (pl_executed s)) =
      sum_list (map (\<lambda>j. mset (worker_rows rows j)) (pl_enqueued s))"
    by (rule pooled.effects_sum [OF assms(1,2)])
  ultimately show ?thesis using p m by metis
qed

definition test_row :: function_row where
  "test_row = \<lparr>fr_node = 3, fr_params = 2, fr_counters = \<lparr>astNodeId = True, mccabe = 1, bumpiness = 6, statementCount = 3\<rparr>\<rparr>"

theorem parallel_metric_complete_witness:
  "\<exists>s. reachable (pool_init (Suc 0)) pool_step s \<and> length (pl_executed s) = 1 \<and>
     mset (concat (map (worker_rows functionParameters) (pl_executed s))) = mset (functionParameters test_row)"
proof -
  have j: "parallelCalcMetric 5 [test_row] = [(1, [test_row])]"
  proof -
    have "size_mult 1 1 = 1" using size_mult_small [of 1 1] by (simp add: SIZE_MAX_def)
    then have "packets_from 1 1 0 0 [test_row] = (1, [test_row]) # packets_from 1 1 1 1 []"
      by (subst packets_from.simps) (simp add: Let_def)
    moreover have "packets_from 1 1 1 1 [] = []" by (subst packets_from.simps) simp
    ultimately show ?thesis by (simp add: parallelCalcMetric_def)
  qed
  obtain s :: "(nat \<times> function_row list) pool" where s:
    "reachable (pool_init (Suc 0)) pool_step s" "pl_client s = Joined"
    "pl_enqueued s = [(1, [test_row])]" "pl_executed s = [(1, [test_row])]"
    using one_job_run [of "(1 :: nat, [test_row])"] by blast
  then have "mset (concat (map (worker_rows functionParameters) (pl_executed s))) =
      mset (concat (map functionParameters [test_row]))"
    using parallel_metric_complete [OF s(1,2), of 5 "[test_row]" functionParameters] j by (simp add: SIZE_MAX_def)
  then show ?thesis using s by (intro exI [of _ s]) simp
qed

section \<open>Cohesion\<close>

lemma total_cohesion_le:
  "cohesion_counts db h = (f, m, c) \<Longrightarrow> c \<le> m * f"
proof -
  have "sum_list (map (\<lambda>x. card (usedFields db F x)) ms) \<le> length ms * card F" if "finite F" for F ms
  proof -
    have "card (usedFields db F x) \<le> card F" for x
      by (rule card_mono [OF that]) (auto simp: usedFields_def)
    then show ?thesis by (induction ms) (auto intro: add_mono)
  qed
  then show "cohesion_counts db h = (f, m, c) \<Longrightarrow> c \<le> m * f"
    by (auto simp: cohesion_counts_def Let_def)
qed

lemma hs_range:
  fixes f m c :: nat
  assumes "c \<le> m * f" "0 < f" "2 \<le> m"
  shows "0 \<le> (of_nat m - of_nat c / of_nat f) / (of_nat m - 1 :: rat)"
    "(of_nat m - of_nat c / of_nat f) / (of_nat m - 1 :: rat) \<le> 2"
proof -
  have "(of_nat c :: rat) \<le> of_nat m * of_nat f" using assms(1) by (metis of_nat_mono of_nat_mult)
  then have c: "(of_nat c / of_nat f :: rat) \<le> of_nat m" using assms(2) by (simp add: divide_le_eq)
  have m: "(0 :: rat) < of_nat m - 1" "(of_nat m :: rat) \<ge> 2" using assms(3) by simp_all
  show "0 \<le> (of_nat m - of_nat c / of_nat f) / (of_nat m - 1 :: rat)" using c m by simp
  have "of_nat m - of_nat c / of_nat f \<le> (of_nat m :: rat)" by simp
  also have "\<dots> \<le> 2 * (of_nat m - 1)" using m by simp
  finally show "(of_nat m - of_nat c / of_nat f) / (of_nat m - 1 :: rat) \<le> 2"
    using m(1) by (simp add: divide_le_eq)
qed

text \<open>
  The two cohesion values of a class are in the documented ranges: the standard one in [0, 1] and
  the Henderson-Sellers variant in [0, 2], or NaN, exactly for a class with fields and one method.
\<close>

theorem cohesion_range:
  "\<exists>a b f m c. cohesion_counts db (fst t) = (f, m, c) \<and>
    lackOfCohesion db t = [\<lparr>nm_node = snd t, nm_type = LACK_OF_COHESION, nm_value = Some a\<rparr>,
      \<lparr>nm_node = snd t, nm_type = LACK_OF_COHESION_HS, nm_value = b\<rparr>] \<and>
    0 \<le> a \<and> a \<le> 1 \<and> (b = None \<longleftrightarrow> f \<noteq> 0 \<and> m = 1) \<and> (b = None \<or> b = Some (the b) \<and> 0 \<le> the b \<and> the b \<le> 2)"
proof -
  obtain f m c where fmc: "cohesion_counts db (fst t) = (f, m, c)" by (cases "cohesion_counts db (fst t)")
  note le = total_cohesion_le [OF fmc]
  show ?thesis
  proof (cases "f = 0 \<or> m = 0")
    case True
    then show ?thesis using fmc by (auto simp: lackOfCohesion_def Let_def)
  next
    case False
    have "(of_nat c :: rat) \<le> of_nat m * of_nat f" using le by (metis of_nat_mono of_nat_mult)
    then have a: "0 \<le> (1 - of_nat c / (of_nat m * of_nat f) :: rat)" "(1 - of_nat c / (of_nat m * of_nat f) :: rat) \<le> 1"
      using False by (simp_all add: divide_le_eq)
    show ?thesis
    proof (cases "m = 1")
      case True
      then show ?thesis using fmc False a by (auto simp: lackOfCohesion_def Let_def)
    next
      case neq: False
      then have "2 \<le> m" using False by simp
      from hs_range [OF le _ this] show ?thesis using fmc False neq a
        by (simp add: lackOfCohesion_def Let_def)
    qed
  qed
qed

text \<open>The column tests of the query change nothing.\<close>

lemma used_in_method_lines:
  "used_in_method db m n \<longleftrightarrow> (an_type n = Read_Node \<or> an_type n = Write_Node) \<and>
     node_path db (an_id n) = node_path db (an_id m) \<and>
     line (an_start m) \<le> line (an_start n) \<and> line (an_end n) \<le> line (an_end m)"
  by (auto simp: used_in_method_def)

text \<open>
  Cohesion does not tell methods apart that are written on the same lines of a file: every field
  that one of them uses counts as used by each of them, because a use on the first or last line of a method
  is accepted whatever its column.
\<close>

theorem same_lines_same_fields:
  assumes "node_path db (an_id m) = node_path db (an_id m')"
    and "line (an_start m) = line (an_start m')" "line (an_end m) = line (an_end m')"
  shows "usedFields db F m = usedFields db F m'"
  using assms by (simp add: usedFields_def used_in_method_lines)

definition test_method :: "nat \<Rightarrow> nat \<Rightarrow> nat \<Rightarrow> ast_node" where
  "test_method i c1 c2 = \<lparr>an_id = i, an_value = ''f'', an_file = Some 1, an_start = \<lparr>line = 4, column = c1\<rparr>,
     an_end = \<lparr>line = 4, column = c2\<rparr>, an_hash = i, an_symbol = Function_Symbol, an_type = Definition_Node,
     an_visible = True\<rparr>"

definition test_db :: metrics_db where
  "test_db = \<lparr>db_files = [(1, ''/p/a.h'')],
     db_nodes = [test_method 10 3 20, test_method 11 30 50,
       (test_method 12 40 41)\<lparr>an_symbol := Other_Symbol, an_type := Read_Node, an_hash := 99\<rparr>],
     db_members = [], db_entities = [], db_functions = [], db_records = [], db_fileMetrics = [],
     db_nodeMetrics = []\<rparr>"

theorem same_lines_same_fields_witness:
  "usedFields test_db {99} (test_method 10 3 20) = {99} \<and>
   usedFields test_db {99} (test_method 10 3 20) = usedFields test_db {99} (test_method 11 30 50)"
proof -
  have "usedFields test_db {99} (test_method 10 3 20) = usedFields test_db {99} (test_method 11 30 50)"
    by (rule same_lines_same_fields) (simp_all add: node_path_def test_db_def test_method_def)
  moreover have "usedFields test_db {99} (test_method 10 3 20) = {99}"
    by (simp add: usedFields_def used_in_method_lines node_path_def test_db_def test_method_def)
  ultimately show ?thesis by simp
qed

section \<open>Filters\<close>

lemma like_all: "sql_like ''%'' s"
  by (induction s) simp_all

lemma like_prefix:
  "CHR ''%'' \<notin> set p \<Longrightarrow> CHR ''_'' \<notin> set p \<Longrightarrow> sql_like (p @ ''%'') s \<longleftrightarrow> take (length p) s = p"
proof (induction p arbitrary: s)
  case (Cons c p)
  then show ?case by (cases s) auto
qed (simp add: like_all)

text \<open>
  The two ways to restrict the work to the input directories agree: the LIKE query for functions
  and records selects the paths that \<open>isRootedUnderAnyOf\<close> accepts for classes, for input paths
  without the wildcards \<open>%\<close> and \<open>_\<close>.
\<close>

theorem path_filters_agree:
  assumes "\<forall>p \<in> set paths. CHR ''%'' \<notin> set p \<and> CHR ''_'' \<notin> set p"
    and "getFilterPathsQuery paths = Inr q"
  shows "q path \<longleftrightarrow> isRootedUnderAnyOf paths path"
proof -
  have "q = (\<lambda>path. list_ex (\<lambda>p. sql_like (p @ ''%'') path) paths)"
    using assms(2) by (simp add: getFilterPathsQuery_def bindC_eq_Inr)
  then show ?thesis using assms(1) like_prefix by (auto simp: isRootedUnderAnyOf_def list_ex_iff)
qed

theorem path_filters_agree_witness:
  "\<exists>q. getFilterPathsQuery [''/home/p'', ''/opt/q''] = Inr q \<and>
     (q ''/home/project2/x'' \<longleftrightarrow> isRootedUnderAnyOf [''/home/p'', ''/opt/q''] ''/home/project2/x'')"
proof -
  have q: "getFilterPathsQuery [''/home/p'', ''/opt/q''] =
      Inr (\<lambda>path. list_ex (\<lambda>p. sql_like (p @ ''%'') path) [''/home/p'', ''/opt/q''])"
    by (simp add: getFilterPathsQuery_def)
  from path_filters_agree [OF _ q, of "''/home/project2/x''"] show ?thesis
    by (intro exI [of _ "\<lambda>path. list_ex (\<lambda>p. sql_like (p @ ''%'') path) [''/home/p'', ''/opt/q'']"])
       (simp only: q, simp)
qed

text \<open>A directory is also taken for another one whose name it begins, or that differs where it has an underscore.\<close>

lemma filter_not_by_directory:
  "isRootedUnderAnyOf [''/p/a''] ''/p/ab/x''" "sql_like (''/p/a_b'' @ ''%'') ''/p/axb/y''"
  by (simp_all add: isRootedUnderAnyOf_def)

section \<open>Cleaning up\<close>

lemma run_metric_fileMetrics [simp]: "db_fileMetrics (run_metric n ts rows db) = db_fileMetrics db"
  by (simp add: run_metric_def)

lemma parse_fileMetrics: "parse p db = Inr db' \<Longrightarrow> db_fileMetrics db' = db_fileMetrics db"
  by (auto simp: parse_def typeMcCabe_def Let_def bindC_eq_Inr)

text \<open>
  No run of the parser writes a row of CppFileMetrics, and \<open>cleanupDatabase\<close> does nothing when
  there is none: an incremental parse never removes the metrics of changed or deleted files. (If there
  were such rows, the loop that removes the node metrics would read a destroyed element.)
\<close>

theorem cleanup_never_runs:
  assumes "db_fileMetrics db = []" "parse p db = Inr db'"
  shows "cleanupDatabase fileStatus (CppMetricsParser jobs input db') db' =
    Inr (True, CppMetricsParser jobs input db', db')"
  using assms parse_fileMetrics [OF assms(2)] by (simp add: cleanupDatabase_def CppMetricsParser_def)

definition test_parser :: metrics_parser where
  "test_parser = CppMetricsParser 1 [''/p''] test_db"

theorem cleanup_never_runs_witness:
  "\<exists>db'. parse test_parser test_db = Inr db' \<and>
     cleanupDatabase (\<lambda>_. Some DELETED) (CppMetricsParser 1 [''/p''] db') db' =
       Inr (True, CppMetricsParser 1 [''/p''] db', db')"
proof -
  have f: "db_fileMetrics test_db = []" by (simp add: test_db_def)
  have "\<exists>db'. parse test_parser test_db = Inr db'"
    by (simp add: parse_def getFilterPathsQuery_def test_parser_def CppMetricsParser_def typeMcCabe_def Let_def
        run_metric_def test_db_def test_method_def)
  with cleanup_never_runs [OF f] show ?thesis by blast
qed

lemma cleanup_node_faults:
  "(i, f) \<in> set cache \<Longrightarrow> filter (\<lambda>r. fst r = f) (db_files db) = [(f, path)] \<Longrightarrow> changed fileStatus path \<Longrightarrow>
    \<exists>e. cleanup_nodes fileStatus cache db = Inl e"
proof (induction cache)
  case (Cons pair cache)
  show ?case
  proof (cases "pair = (i, f)")
    case True
    then show ?thesis using Cons.prems by (simp add: query_one_def)
  next
    case False
    then obtain e where "cleanup_nodes fileStatus cache db = Inl e" using Cons by auto
    then show ?thesis
      by (cases "query_one (\<lambda>f. fst f = snd pair) (db_files db)") (auto split: option.splits)
  qed
qed simp

section \<open>Bumpiness of what the visitor recorded\<close>

text \<open>
  The bumpy road metric of a function that the visitor of the C++ parser has measured is at least
  one, and one if nothing was counted, as long as its bumpiness fits the 32 bits of the counter.
\<close>

theorem bumpy_road_at_least_one:
  assumes "fr_counters r = function_record isdef body cs"
    and "sum_list (concat (map (levels (Only [body] 0)) cs)) < 2 ^ 32"
  shows "\<exists>x. functionBumpyRoad r = [\<lparr>nm_node = fr_node r, nm_type = BUMPY_ROAD, nm_value = Some x\<rparr>] \<and> 1 \<le> x"
proof -
  define ls where "ls = concat (map (levels (Only [body] 0)) cs)"
  have "length ls \<le> sum_list ls" by (rule length_le_sum) (auto simp: ls_def intro: levels_positive)
  then have n: "length ls < 2 ^ 32" "length ls \<le> sum_list ls" "sum_list ls < 2 ^ 32"
    using assms(2) by (auto simp: ls_def)
  have c: "unat (bumpiness (fr_counters r)) = sum_list ls" "unat (statementCount (fr_counters r)) = length ls"
    using n by (simp_all add: assms(1) function_record_def Let_def ls_def [symmetric] unat_of_nat)
  then have "statementCount (fr_counters r) = 0 \<longleftrightarrow> length ls = 0" by (metis unat_0_iff)
  moreover have "1 \<le> (of_nat (sum_list ls) / of_nat (length ls) :: rat)" if "length ls \<noteq> 0"
    using n(2) that by (simp add: le_divide_eq)
  ultimately show ?thesis using c by (auto simp: functionBumpyRoad_def Let_def)
qed

theorem bumpy_road_at_least_one_witness:
  "\<exists>x. functionBumpyRoad test_row = [\<lparr>nm_node = 3, nm_type = BUMPY_ROAD, nm_value = Some x\<rparr>] \<and> 1 \<le> x"
proof -
  let ?cs = "[Statement 1 CompoundStmt [Statement 2 (IfStmt (Some 3) None) [Statement 3 CompoundStmt
    [Statement 4 DeclStmt [Statement 5 OtherStmt []], Statement 6 (WhileStmt None) []]]]]"
  have "sum_list (concat (map (levels (Only [Some 1] 0)) ?cs)) = 5" by simp
  moreover have "function_record True (Some 1) ?cs = \<lparr>astNodeId = True, mccabe = 3, bumpiness = 5, statementCount = 3\<rparr>"
    by (simp add: function_record_def)
  ultimately show ?thesis
    using bumpy_road_at_least_one [of "test_row\<lparr>fr_counters := function_record True (Some 1) ?cs\<rparr>" True "Some 1" ?cs]
    by (auto simp: test_row_def functionBumpyRoad_def)
qed

end
