(* ===== verification/CppBuild.thy ===== *)
theory CppBuild
  imports CppModel UtilThreadPool "HOL-Library.List_Lexorder" "HOL-Library.Char_ord"
begin

text \<open>
  The parsing half of \<^verbatim>\<open>plugins/cpp/parser/src/cppparser.cpp\<close>: which files a compile command reads
  and writes, the build rows that are stored for it, and which commands of the compilation databases
  are parsed. What rebuilds the cache of known commands and what the pool of threads is given is exact;
  the run of Clang on a command, the loader of compilation databases and Boost's path functions are
  parameters.

  A file that the source manager returns is shared with its cache: \<open>cache_file\<close> is a write through that
  pointer.
\<close>

section \<open>Compile commands\<close>

record compile_command =
  cc_directory :: string
  cc_filename :: string
  cc_command_line :: "string list"

record path_functions =
  pf_extension :: "string \<Rightarrow> string"
  pf_absolute :: "string \<Rightarrow> string \<Rightarrow> string"
  pf_is_absolute :: "string \<Rightarrow> bool"
  pf_append :: "string \<Rightarrow> string \<Rightarrow> string"

definition cppExts :: "string list" where
  "cppExts = [''.c'', ''.cc'', ''.cpp'', ''.cxx'', ''.o'', ''.so'', ''.a'']"

definition isSourceFile :: "path_functions \<Rightarrow> string \<Rightarrow> bool" where
  "isSourceFile L file \<longleftrightarrow> map tolower (pf_extension L file) \<in> set cppExts"

definition isNonSourceFlag :: "string \<Rightarrow> bool" where
  "isNonSourceFlag arg \<longleftrightarrow> find_at ''-Wl,'' 0 arg = 0"

text \<open>The scan of the arguments: whether the last one was \<open>-o\<close>, whether \<open>-c\<close> was seen, and the files.\<close>

record arg_scan =
  as_oparam :: bool
  as_hasCParam :: bool
  as_sources :: "string list"
  as_output :: string

definition scan_start :: arg_scan where
  "scan_start = \<lparr>as_oparam = False, as_hasCParam = False, as_sources = [], as_output = []\<rparr>"

definition scan_arg :: "path_functions \<Rightarrow> string \<Rightarrow> string \<Rightarrow> arg_scan \<Rightarrow> arg_scan" where
  "scan_arg L dir arg s =
     (if as_oparam s then s\<lparr>as_output := pf_absolute L arg dir, as_oparam := False\<rparr>
      else if isSourceFile L arg \<and> \<not> isNonSourceFlag arg then
        s\<lparr>as_sources := List.insert (pf_absolute L arg dir) (as_sources s)\<rparr>
      else if arg = ''-c'' then s\<lparr>as_hasCParam := True\<rparr>
      else if arg = ''-o'' then s\<lparr>as_oparam := True\<rparr>
      else s)"

definition object_file :: "path_functions \<Rightarrow> string \<Rightarrow> string" where
  "object_file L src =
     take (size_sub (size_sub (length src) (length (pf_extension L src))) 1) src @ ''.o''"

text \<open>The result is an ordered map; it is listed by increasing source.\<close>

definition extractInputOutputs :: "path_functions \<Rightarrow> compile_command \<Rightarrow> (string \<times> string) list" where
  "extractInputOutputs L command =
     (let s = fold (scan_arg L (cc_directory command)) (cc_command_line command) scan_start;
          sources = sort (as_sources s)
      in
      if as_output s = [] \<and> as_hasCParam s then map (\<lambda>src. (src, object_file L src)) sources
      else
        let output = (if as_output s = [] then cc_directory command @ ''/a.out'' else as_output s)
        in map (\<lambda>src. (src, output)) sources)"

definition join_space :: "string list \<Rightarrow> string" where
  "join_space = join_with (CHR '' '')"

section \<open>Build rows\<close>

datatype build_type = Compile_Action | Link_Action | Other_Action

record build_action =
  ba_id :: nat
  ba_command :: string
  ba_type :: build_type

record build_db =
  bd_manager :: source_manager
  bd_actions :: "build_action list"
  bd_sources :: "(64 word \<times> nat) list"
  bd_targets :: "(64 word \<times> nat) list"
  bd_next :: nat

definition addBuildAction :: "path_functions \<Rightarrow> compile_command \<Rightarrow> build_db \<Rightarrow> build_action \<times> build_db" where
  "addBuildAction L command db =
     (let extension = pf_extension L (cc_filename command);
          buildAction = \<lparr>ba_id = bd_next db, ba_command = join_space (cc_command_line command),
            ba_type = (if extension = ''.o'' \<or> extension = ''.so'' \<or> extension = ''.a'' then Link_Action else Compile_Action)\<rparr>
      in (buildAction, db\<lparr>bd_actions := bd_actions db @ [buildAction], bd_next := Suc (bd_next db)\<rparr>))"

definition cache_file :: "source_file \<Rightarrow> source_manager \<Rightarrow> source_manager" where
  "cache_file file s = s\<lparr>sm_files := (sm_files s)(sf_path file \<mapsto> file)\<rparr>"

text \<open>The environment: digest, file system, depth of its directories and the order of the cache.\<close>

record file_env =
  fe_fuel :: nat
  fe_sha1 :: "string \<Rightarrow> 32 word list"
  fe_fs :: file_system
  fe_cached :: "source_manager \<Rightarrow> string list"

definition env_getFile :: "file_env \<Rightarrow> string \<Rightarrow> source_manager \<Rightarrow> (source_file \<times> source_manager) option" where
  "env_getFile E = getFile (fe_fuel E) (fe_sha1 E) (fe_fs E)"

definition add_source :: "file_env \<Rightarrow> bool \<Rightarrow> string \<Rightarrow> source_manager \<Rightarrow> (64 word \<times> source_manager) option" where
  "add_source E failed path s =
     (case env_getFile E path s of
        None \<Rightarrow> None
      | Some (file, s) \<Rightarrow>
          let file = file\<lparr>sf_parseStatus := (if failed then PSPartiallyParsed else PSFullyParsed)\<rparr>
          in Some (sf_id file, updateFile file (cache_file file s)))"

definition add_target :: "file_env \<Rightarrow> string \<Rightarrow> source_manager \<Rightarrow> (64 word \<times> source_manager) option" where
  "add_target E path s =
     (case env_getFile E path s of
        None \<Rightarrow> None
      | Some (file, s) \<Rightarrow>
          if sf_type file \<noteq> BINARY_TYPE then
            let file = file\<lparr>sf_type := BINARY_TYPE\<rparr> in Some (sf_id file, updateFile file (cache_file file s))
          else Some (sf_id file, s))"

fun add_pairs ::
    "file_env \<Rightarrow> bool \<Rightarrow> (string \<times> string) list \<Rightarrow> source_manager \<Rightarrow>
       (64 word list \<times> 64 word list \<times> source_manager) option" where
  "add_pairs E failed [] s = Some ([], [], s)"
| "add_pairs E failed ((source, target) # pairs) s =
     (case add_source E failed source s of
        None \<Rightarrow> None
      | Some (i, s) \<Rightarrow>
          (case add_target E target s of
             None \<Rightarrow> None
           | Some (j, s) \<Rightarrow>
               (case add_pairs E failed pairs s of
                  None \<Rightarrow> None
                | Some (is, js, s) \<Rightarrow> Some (i # is, j # js, s))))"

datatype build_error = Odb odb_error | Empty_Command

text \<open>None when the recursion over parent directories was cut off.\<close>

definition addCompileCommand ::
    "path_functions \<Rightarrow> file_env \<Rightarrow> compile_command \<Rightarrow> build_action \<Rightarrow> bool \<Rightarrow> build_db \<Rightarrow>
       (build_error + build_db) option" where
  "addCompileCommand L E command action failed db =
     (case add_pairs E failed (extractInputOutputs L command) (bd_manager db) of
        None \<Rightarrow> None
      | Some (sources, targets, s) \<Rightarrow>
          (case persist_all (fe_cached E s) s of
             Inl e \<Rightarrow> Some (Inl (Odb e))
           | Inr s \<Rightarrow>
               Some (Inr (db\<lparr>bd_manager := s,
                 bd_sources := bd_sources db @ map (\<lambda>i. (i, ba_id action)) sources,
                 bd_targets := bd_targets db @ map (\<lambda>i. (i, ba_id action)) targets\<rparr>))))"

text \<open>
  Clang: whether it accepts the arguments, and the run of the visitors on a source file, with its error
  code.
\<close>

record clang_tool =
  ct_accepts :: "string list \<Rightarrow> bool"
  ct_run :: "string \<Rightarrow> compile_command \<Rightarrow> build_db \<Rightarrow> int \<times> build_db"

definition source_full_path :: "path_functions \<Rightarrow> compile_command \<Rightarrow> string" where
  "source_full_path L command =
     (if pf_is_absolute L (cc_filename command) then cc_filename command
      else pf_append L (cc_directory command) (cc_filename command))"

definition parseWorker ::
    "path_functions \<Rightarrow> file_env \<Rightarrow> clang_tool \<Rightarrow> compile_command \<Rightarrow> build_db \<Rightarrow>
       (build_error + int \<times> build_db) option" where
  "parseWorker L E clang command db =
     (case cc_command_line command of
        [] \<Rightarrow> Some (Inl Empty_Command)
      | compiler # args \<Rightarrow>
          if \<not> ct_accepts clang (''--'' # args) then Some (Inr (1, db))
          else
            (case addBuildAction L command db of
               (action, db) \<Rightarrow>
                 (case ct_run clang (source_full_path L command) command db of
                    (error, db) \<Rightarrow>
                      (case addCompileCommand L E command action (error \<noteq> 0) db of
                         None \<Rightarrow> None
                       | Some (Inl e) \<Rightarrow> Some (Inl e)
                       | Some (Inr db) \<Rightarrow> Some (Inr (error, db))))))"

section \<open>Which commands are parsed\<close>

record parse_job =
  pj_command :: compile_command
  pj_index :: nat

definition command_hash :: "compile_command \<Rightarrow> 64 word" where
  "command_hash command = fnvHash (join_space (cc_command_line command))"

definition initBuildActions :: "build_action list \<Rightarrow> 64 word set \<Rightarrow> 64 word set" where
  "initBuildActions actions hashes = fold (\<lambda>a. insert (fnvHash (ba_command a))) actions hashes"

text \<open>The loop that pushes the jobs, with the index counted so far; the jobs in the order of \<open>enqueue\<close>.\<close>

fun push_commands :: "nat \<Rightarrow> compile_command list \<Rightarrow> 64 word set \<Rightarrow> parse_job list \<times> 64 word set" where
  "push_commands index [] hashes = ([], hashes)"
| "push_commands index (command # commands) hashes =
     (let index = Suc index; hash = command_hash command in
      if hash \<in> hashes then push_commands index commands hashes
      else
        case push_commands index commands (insert hash hashes) of
          (jobs, hashes) \<Rightarrow> (\<lparr>pj_command = command, pj_index = index\<rparr> # jobs, hashes))"

text \<open>The loader gives the commands of a compilation database, or None with an error message.\<close>

definition parseByJson ::
    "path_functions \<Rightarrow> (string \<Rightarrow> compile_command list option) \<Rightarrow> string \<Rightarrow> 64 word set \<Rightarrow>
       bool \<times> parse_job list \<times> 64 word set" where
  "parseByJson L load jsonFile hashes =
     (case load jsonFile of
        None \<Rightarrow> (False, [], hashes)
      | Some compileCommands \<Rightarrow>
          (case push_commands 0 (filter (\<lambda>c. isSourceFile L (cc_filename c)) compileCommands) hashes of
             (jobs, hashes) \<Rightarrow> (True, jobs, hashes)))"

text \<open>The loop over the inputs; every input has a pool of its own.\<close>

fun parse_inputs ::
    "path_functions \<Rightarrow> (string \<Rightarrow> bool) \<Rightarrow> (string \<Rightarrow> compile_command list option) \<Rightarrow> string list \<Rightarrow>
       bool \<Rightarrow> 64 word set \<Rightarrow> bool \<times> parse_job list list" where
  "parse_inputs L regular load [] success hashes = (success, [])"
| "parse_inputs L regular load (input # inputs) success hashes =
     (if \<not> regular input then parse_inputs L regular load inputs success hashes
      else if \<not> success then parse_inputs L regular load inputs False hashes
      else
        case parseByJson L load input hashes of
          (success, jobs, hashes) \<Rightarrow>
            (case parse_inputs L regular load inputs success hashes of
               (success, pools) \<Rightarrow> (success, jobs # pools)))"

definition cpp_parse ::
    "path_functions \<Rightarrow> (string \<Rightarrow> bool) \<Rightarrow> (string \<Rightarrow> compile_command list option) \<Rightarrow> build_action list \<Rightarrow>
       string list \<Rightarrow> bool \<times> parse_job list list" where
  "cpp_parse L regular load actions inputs =
     parse_inputs L regular load inputs True (initBuildActions actions {})"

section \<open>Inputs and outputs of a command\<close>

lemma scan_no_output:
  assumes "''-o'' \<notin> set args" "\<not> as_oparam s"
  shows "fold (scan_arg L dir) args s =
     s\<lparr>as_hasCParam := as_hasCParam s \<or> (\<exists>a \<in> set args. a = ''-c'' \<and> \<not> (isSourceFile L a \<and> \<not> isNonSourceFlag a)),
       as_sources := as_sources (fold (scan_arg L dir) args s)\<rparr>"
  using assms
proof (induction args arbitrary: s)
  case (Cons a args)
  have "\<not> as_oparam (scan_arg L dir a s)" using Cons.prems by (auto simp: scan_arg_def)
  from Cons.IH [OF _ this] Cons.prems(1) show ?case by (auto simp: scan_arg_def Cons.prems(2))
qed simp

definition source_args :: "path_functions \<Rightarrow> string list \<Rightarrow> string list" where
  "source_args L args = filter (\<lambda>a. isSourceFile L a \<and> \<not> isNonSourceFlag a) args"

lemma scan_sources:
  assumes "''-o'' \<notin> set args" "\<not> as_oparam s" "distinct (as_sources s)"
  shows "set (as_sources (fold (scan_arg L dir) args s)) = set (as_sources s) \<union> (\<lambda>a. pf_absolute L a dir) ` set (source_args L args) \<and>
    distinct (as_sources (fold (scan_arg L dir) args s))"
  using assms
proof (induction args arbitrary: s)
  case (Cons a args)
  have s: "\<not> as_oparam (scan_arg L dir a s)" "distinct (as_sources (scan_arg L dir a s))"
    using Cons.prems by (auto simp: scan_arg_def)
  have "set (as_sources (scan_arg L dir a s)) = set (as_sources s) \<union>
      (if isSourceFile L a \<and> \<not> isNonSourceFlag a then {pf_absolute L a dir} else {})"
    using Cons.prems(2) by (auto simp: scan_arg_def)
  with Cons.IH [OF _ s] Cons.prems(1) show ?case by (auto simp: source_args_def)
qed (simp add: source_args_def)

text \<open>The sources of a command line, sorted and without duplicates.\<close>

definition command_sources :: "path_functions \<Rightarrow> string \<Rightarrow> string list \<Rightarrow> string list" where
  "command_sources L dir args = sorted_list_of_set ((\<lambda>a. pf_absolute L a dir) ` set (source_args L args))"

lemma sort_distinct_set: "distinct xs \<Longrightarrow> sort xs = sorted_list_of_set (set xs)"
  by (simp add: sorted_list_of_set_sort_remdups distinct_remdups_id)

lemma scan_sources_sorted:
  assumes "''-o'' \<notin> set args"
  shows "sort (as_sources (fold (scan_arg L dir) args scan_start)) = command_sources L dir args"
  using scan_sources [OF assms, of scan_start L dir]
  by (simp add: scan_start_def command_sources_def sort_distinct_set)

text \<open>
  C38: what a compile command reads and writes. With one \<open>-o\<close>, every source is compiled into its
  argument; with neither \<open>-o\<close> nor \<open>-c\<close>, into \<open>a.out\<close> in the directory of the command; with \<open>-c\<close> alone, into
  an object file whose name lacks the last character of the stem as well as the extension. The sources
  are listed once, by increasing path.
\<close>

theorem extract_input_outputs:
  assumes L: "\<not> isSourceFile L ''-o''" "\<not> isSourceFile L ''-c''"
    and pre: "''-o'' \<notin> set pre" and post: "''-o'' \<notin> set post" and out: "pf_absolute L out dir \<noteq> []"
  shows "extractInputOutputs L \<lparr>cc_directory = dir, cc_filename = f, cc_command_line = pre @ [''-o'', out] @ post\<rparr> =
      map (\<lambda>src. (src, pf_absolute L out dir)) (command_sources L dir (pre @ post)) \<and>
    extractInputOutputs L \<lparr>cc_directory = dir, cc_filename = f, cc_command_line = pre\<rparr> =
      (if ''-c'' \<in> set pre then map (\<lambda>src. (src, object_file L src)) (command_sources L dir pre)
       else map (\<lambda>src. (src, dir @ ''/a.out'')) (command_sources L dir pre))"
proof (rule conjI)
  let ?scan = "fold (scan_arg L dir)"
  let ?s = "?scan pre scan_start"
  have s: "?s = scan_start\<lparr>as_hasCParam := ''-c'' \<in> set pre, as_sources := as_sources ?s\<rparr>"
    using scan_no_output [OF pre, of scan_start L dir] L by (auto simp: scan_start_def)
  then have s': "\<not> as_oparam ?s" "as_output ?s = []" "as_hasCParam ?s \<longleftrightarrow> ''-c'' \<in> set pre"
    by (metis (no_types, lifting) arg_scan.select_convs arg_scan.update_convs scan_start_def)+
  have d: "distinct (as_sources ?s)" using scan_sources [OF pre, of scan_start L dir] by (simp add: scan_start_def)
  show "extractInputOutputs L \<lparr>cc_directory = dir, cc_filename = f, cc_command_line = pre\<rparr> =
      (if ''-c'' \<in> set pre then map (\<lambda>src. (src, object_file L src)) (command_sources L dir pre)
       else map (\<lambda>src. (src, dir @ ''/a.out'')) (command_sources L dir pre))"
    using s' by (simp add: extractInputOutputs_def Let_def scan_sources_sorted [OF pre])
  let ?t = "?s\<lparr>as_output := pf_absolute L out dir, as_oparam := False\<rparr>"
  have t: "?scan [''-o'', out] ?s = ?t" using s' L by (simp add: scan_arg_def)
  have u: "?scan post ?t = ?t\<lparr>as_hasCParam := as_hasCParam ?t \<or> ''-c'' \<in> set post, as_sources := as_sources (?scan post ?t)\<rparr>"
    using scan_no_output [OF post, of ?t L dir] L by auto
  then have out': "as_output (?scan post ?t) = pf_absolute L out dir"
    by (metis (no_types, lifting) arg_scan.select_convs(4) arg_scan.surjective arg_scan.update_convs)
  have "set (as_sources (?scan post ?t)) = (\<lambda>a. pf_absolute L a dir) ` set (source_args L (pre @ post)) \<and> distinct (as_sources (?scan post ?t))"
    using scan_sources [OF post, of ?t L dir] scan_sources [OF pre, of scan_start L dir] d
    by (auto simp: scan_start_def source_args_def)
  then have "sort (as_sources (?scan post ?t)) = command_sources L dir (pre @ post)"
    by (simp add: sort_distinct_set command_sources_def)
  then show "extractInputOutputs L \<lparr>cc_directory = dir, cc_filename = f, cc_command_line = pre @ [''-o'', out] @ post\<rparr> =
      map (\<lambda>src. (src, pf_absolute L out dir)) (command_sources L dir (pre @ post))"
    using t out' out by (simp add: extractInputOutputs_def Let_def)
qed

text \<open>The path functions of a file system with an extension of two characters.\<close>

definition test_paths :: path_functions where
  "test_paths = \<lparr>pf_extension = (\<lambda>p. if drop (length p - 2) p = ''.c'' then ''.c'' else []),
     pf_absolute = (\<lambda>p base. if take 1 p = ''/'' then p else base @ ''/'' @ p),
     pf_is_absolute = (\<lambda>p. take 1 p = ''/''), pf_append = (\<lambda>a b. a @ ''/'' @ b)\<rparr>"

theorem extract_input_outputs_witness:
  "extractInputOutputs test_paths \<lparr>cc_directory = ''/p'', cc_filename = ''main.c'',
       cc_command_line = [''gcc'', ''-c'', ''main.c'']\<rparr> = [(''/p/main.c'', ''/p/mai.o'')] \<and>
   extractInputOutputs test_paths \<lparr>cc_directory = ''/p'', cc_filename = ''main.c'',
       cc_command_line = [''gcc'', ''-c'', ''main.c''] @ [''-o'', ''m.o''] @ []\<rparr> = [(''/p/main.c'', ''/p/m.o'')]"
proof -
  have h: "\<not> isSourceFile test_paths ''-o''" "\<not> isSourceFile test_paths ''-c''" "''-o'' \<notin> set [''gcc'', ''-c'', ''main.c'']"
    "''-o'' \<notin> set []" "pf_absolute test_paths ''m.o'' ''/p'' \<noteq> []" by code_simp+
  have "set (source_args test_paths [''gcc'', ''-c'', ''main.c'']) = {''main.c''}" by code_simp
  then have src: "command_sources test_paths ''/p'' [''gcc'', ''-c'', ''main.c''] = [''/p/main.c'']"
    by (simp add: command_sources_def test_paths_def)
  have o: "object_file test_paths ''/p/main.c'' = ''/p/mai.o''" "pf_absolute test_paths ''m.o'' ''/p'' = ''/p/m.o''" by code_simp+
  from extract_input_outputs [OF h, where f = "''main.c''"] show ?thesis by (simp add: src o)
qed

section \<open>Every new command once\<close>

abbreviation job_hash :: "parse_job \<Rightarrow> 64 word" where
  "job_hash j \<equiv> command_hash (pj_command j)"

lemma push_commands_spec:
  assumes "push_commands index commands hashes = (jobs, hashes')"
  shows "distinct (map job_hash jobs) \<and> job_hash ` set jobs \<inter> hashes = {} \<and>
    hashes' = hashes \<union> job_hash ` set jobs \<and> hashes' = hashes \<union> command_hash ` set commands \<and>
    list_all (\<lambda>j. index < pj_index j \<and> pj_index j \<le> index + length commands \<and> commands ! (pj_index j - Suc index) = pj_command j) jobs"
  using assms
proof (induction index commands hashes arbitrary: jobs hashes' rule: push_commands.induct)
  case (2 index c cs hashes)
  show ?case
  proof (cases "command_hash c \<in> hashes")
    case True
    with 2(1) [OF refl refl True] 2(3) show ?thesis by (auto simp: Let_def list_all_iff nth_Cons')
  next
    case False
    obtain js H where r: "push_commands (Suc index) cs (insert (command_hash c) hashes) = (js, H)" by fastforce
    with 2(3) False have "jobs = \<lparr>pj_command = c, pj_index = Suc index\<rparr> # js" "hashes' = H" by (auto simp: Let_def)
    with 2(2) [OF refl refl False r] False show ?thesis by (auto simp: list_all_iff nth_Cons')
  qed
qed auto

definition source_commands :: "path_functions \<Rightarrow> compile_command list \<Rightarrow> compile_command list" where
  "source_commands L = filter (\<lambda>c. isSourceFile L (cc_filename c))"

text \<open>The inputs that are read: up to the first one that cannot be loaded.\<close>

definition read_inputs ::
    "(string \<Rightarrow> bool) \<Rightarrow> (string \<Rightarrow> compile_command list option) \<Rightarrow> string list \<Rightarrow> string list" where
  "read_inputs regular load inputs = takeWhile (\<lambda>i. load i \<noteq> None) (filter regular inputs)"

definition all_commands :: "path_functions \<Rightarrow> (string \<Rightarrow> compile_command list option) \<Rightarrow> string list \<Rightarrow> compile_command list" where
  "all_commands L load inputs = concat (map (\<lambda>i. source_commands L (the (load i))) inputs)"

lemma parse_inputs_failed: "parse_inputs L regular load inputs False hashes = (False, [])"
  by (induction inputs) auto

lemma parse_inputs_spec:
  assumes "parse_inputs L regular load inputs True hashes = (success, pools)"
  shows "(success \<longleftrightarrow> read_inputs regular load inputs = filter regular inputs) \<and>
    distinct (map job_hash (concat pools)) \<and> job_hash ` set (concat pools) \<inter> hashes = {} \<and>
    hashes \<union> job_hash ` set (concat pools) = hashes \<union> command_hash ` set (all_commands L load (read_inputs regular load inputs)) \<and>
    pj_command ` set (concat pools) \<subseteq> set (all_commands L load (read_inputs regular load inputs))"
  using assms
proof (induction inputs arbitrary: hashes success pools)
  case Nil
  then show ?case by (simp add: read_inputs_def all_commands_def)
next
  case (Cons i inputs)
  show ?case
  proof (cases "regular i")
    case False
    then show ?thesis using Cons by (simp add: read_inputs_def)
  next
    case reg: True
    show ?thesis
    proof (cases "load i")
      case None
      then have "success = False" "pools = [[]]"
        using Cons.prems reg by (auto simp: parseByJson_def parse_inputs_failed)
      then show ?thesis using reg None by (simp add: read_inputs_def all_commands_def)
    next
      case (Some cs)
      obtain jobs H where push: "push_commands 0 (source_commands L cs) hashes = (jobs, H)" by fastforce
      obtain ok ps where rest: "parse_inputs L regular load inputs True H = (ok, ps)" by fastforce
      have res: "success = ok" "pools = jobs # ps"
        using Cons.prems reg Some push rest by (auto simp: parseByJson_def source_commands_def)
      from push_commands_spec [OF push]
      have j: "distinct (map job_hash jobs)" "job_hash ` set jobs \<inter> hashes = {}" "H = hashes \<union> job_hash ` set jobs"
        "H = hashes \<union> command_hash ` set (source_commands L cs)"
        "list_all (\<lambda>j. 0 < pj_index j \<and> pj_index j \<le> 0 + length (source_commands L cs) \<and>
          source_commands L cs ! (pj_index j - Suc 0) = pj_command j) jobs" by - (elim conjE, assumption)+
      from Cons.IH [OF rest]
      have r: "ok \<longleftrightarrow> read_inputs regular load inputs = filter regular inputs" "distinct (map job_hash (concat ps))"
        "job_hash ` set (concat ps) \<inter> H = {}"
        "H \<union> job_hash ` set (concat ps) = H \<union> command_hash ` set (all_commands L load (read_inputs regular load inputs))"
        "pj_command ` set (concat ps) \<subseteq> set (all_commands L load (read_inputs regular load inputs))"
        by - (elim conjE, assumption)+
      have cmds: "pj_command ` set jobs \<subseteq> set (source_commands L cs)"
      proof
        fix c assume "c \<in> pj_command ` set jobs"
        then obtain x where "x \<in> set jobs" "c = pj_command x" by blast
        then have "source_commands L cs ! (pj_index x - 1) = c" "pj_index x - 1 < length (source_commands L cs)"
          using j by (auto simp: list_all_iff)
        then show "c \<in> set (source_commands L cs)" by (metis nth_mem)
      qed
      have read: "read_inputs regular load (i # inputs) = i # read_inputs regular load inputs"
        using reg Some by (simp add: read_inputs_def)
      have all: "all_commands L load (read_inputs regular load (i # inputs)) =
          source_commands L cs @ all_commands L load (read_inputs regular load inputs)"
        by (simp add: read all_commands_def Some)
      have "success \<longleftrightarrow> read_inputs regular load (i # inputs) = filter regular (i # inputs)"
        using r(1) reg by (simp add: res read)
      moreover have "job_hash ` set jobs \<inter> job_hash ` set (concat ps) = {}" using r(3) j(3) by blast
      then have "distinct (map job_hash (concat pools))"
        unfolding res concat.simps map_append distinct_append set_map using j(1) r(2) by (intro conjI)
      moreover have "job_hash ` set (concat pools) \<inter> hashes = {}"
        unfolding res concat.simps set_append image_Un using j(2,3) r(3) by blast
      moreover have "hashes \<union> job_hash ` set (concat pools) =
          hashes \<union> command_hash ` set (all_commands L load (read_inputs regular load (i # inputs)))"
        unfolding all res concat.simps set_append image_Un Un_assoc [symmetric] j(3) [symmetric] j(4) [symmetric]
        by (rule r(4))
      moreover have "pj_command ` set (concat pools) \<subseteq> set (all_commands L load (read_inputs regular load (i # inputs)))"
        unfolding all res concat.simps set_append image_Un using r(5) cmds by blast
      ultimately show ?thesis by blast
    qed
  qed
qed

text \<open>
  C29: over all compilation databases of a run together, a command is parsed at most once, and not at all
  if it is known from the database; what is parsed are the commands for source files of the inputs up to
  the first one that cannot be loaded, and of each of these the hash is known or parsed. The result is
  false exactly if some input could not be loaded.
\<close>

theorem each_new_command_once:
  "case cpp_parse L regular load actions inputs of (success, pools) \<Rightarrow>
     let known = (\<lambda>a. fnvHash (ba_command a)) ` set actions;
         jobs = concat pools;
         commands = all_commands L load (read_inputs regular load inputs)
     in distinct (map job_hash jobs) \<and> job_hash ` set jobs = command_hash ` set commands - known \<and>
       pj_command ` set jobs \<subseteq> set commands \<and>
       (success \<longleftrightarrow> read_inputs regular load inputs = filter regular inputs)"
proof -
  have init: "initBuildActions actions H = H \<union> (\<lambda>a. fnvHash (ba_command a)) ` set actions" for H
    by (induction actions arbitrary: H) (auto simp: initBuildActions_def)
  obtain success pools where p: "cpp_parse L regular load actions inputs = (success, pools)" by fastforce
  have diff: "A \<inter> K = {} \<Longrightarrow> K \<union> A = K \<union> C \<Longrightarrow> A = C - K" for A C K :: "64 word set" by blast
  note spec = parse_inputs_spec [OF p [unfolded cpp_parse_def init Un_empty_left]]
  from spec diff show ?thesis unfolding p prod.case Let_def by blast
qed

section \<open>Build rows refer to stored files and actions\<close>

text \<open>A set of paths that lookups do not leave and in which the hash identifies a path.\<close>

definition path_universe :: "file_system \<Rightarrow> string set \<Rightarrow> bool" where
  "path_universe fs P \<longleftrightarrow> inj_on fnvHash P \<and>
     (\<forall>p \<in> P. (\<forall>c. fs_canonical fs p = Some c \<longrightarrow> c \<in> P) \<and> (fs_parent_path fs p \<noteq> [] \<longrightarrow> fs_parent_path fs p \<in> P))"

definition known_paths :: "source_manager \<Rightarrow> string set" where
  "known_paths s = dom (sm_files s) \<union> sf_path ` set (file_table s)"

lemma getFile_universe:
  assumes P: "path_universe fs P"
  shows "getFile k sha1 fs path s = Some (f, s') \<Longrightarrow> path \<in> P \<Longrightarrow> known_paths s \<subseteq> P \<Longrightarrow>
      known_paths s' \<subseteq> P \<and> dom (sm_files s) \<subseteq> dom (sm_files s')"
    and "getCreateFileEntry k sha1 fs path c s = Some (f, s') \<Longrightarrow> path \<in> P \<Longrightarrow> known_paths s \<subseteq> P \<Longrightarrow>
      known_paths s' \<subseteq> P \<and> dom (sm_files s) \<subseteq> dom (sm_files s')"
    and "getCreateParent k sha1 fs path s = Some (i, s') \<Longrightarrow> path \<in> P \<Longrightarrow> known_paths s \<subseteq> P \<Longrightarrow>
      known_paths s' \<subseteq> P \<and> dom (sm_files s) \<subseteq> dom (sm_files s')"
  using P
proof (induction k sha1 fs path s and k sha1 fs path c s and k sha1 fs path s arbitrary: f s' and f s' and i s'
    rule: getFile_getCreateFileEntry_getCreateParent.induct)
  case (2 k sha1 fs path s)
  define canonical where "canonical = (case fs_canonical fs path of None \<Rightarrow> path | Some c \<Rightarrow> c)"
  from 2(2) obtain s1 where e: "getCreateFileEntry k sha1 fs canonical (fs_canonical fs path \<noteq> None) s = Some (f, s1)"
    "s' = s1\<lparr>sm_files := (sm_files s1)(canonical \<mapsto> f)\<rparr>"
    by (auto simp: canonical_def Let_def split: option.splits)
  have c: "canonical \<in> P" using 2(3,5) by (auto simp: canonical_def path_universe_def split: option.split)
  from 2(1) [OF refl canonical_def e(1) c 2(4,5)] show ?case using c by (auto simp: e(2) known_paths_def)
next
  case (3 k sha1 fs path c s)
  show ?case
  proof (cases "sm_files s path")
    case None
    then obtain i where "getCreateParent k sha1 fs path s = Some (i, s')"
      using 3(2) by (auto simp del: getCreateParent.simps split: option.splits)
    from 3(1) [OF None this 3(3-5)] show ?thesis .
  next
    case (Some g)
    then show ?thesis using 3(2,4) by simp
  qed
next
  case (4 k sha1 fs path s)
  show ?case
  proof (cases "fs_parent_path fs path = []")
    case True
    then show ?thesis using 4(2,4) by (simp add: Let_def)
  next
    case False
    then obtain f where g: "getFile k sha1 fs (fs_parent_path fs path) s = Some (f, s')"
      using 4(2) by (auto simp: Let_def split: option.splits)
    show ?thesis using 4(1) [OF refl False g] 4(3-5) False by (auto simp: path_universe_def)
  qed
qed simp

lemma getFile_result:
  assumes "sm_inv s" "getFile k sha1 fs path s = Some (f, s')"
  shows "sm_inv s' \<and> file_table s' = file_table s \<and> sm_files s' (sf_path f) = Some f \<and> cached_ok s' f"
proof -
  have k: "sm_inv s'" "file_table s' = file_table s" using getFile_keeps(1) [OF assms] by blast+
  obtain c where c: "sm_files s' c = Some f"
  proof (cases k)
    case 0
    then show ?thesis using assms(2) by simp
  next
    case (Suc m)
    define canonical where "canonical = (case fs_canonical fs path of None \<Rightarrow> path | Some c \<Rightarrow> c)"
    obtain s1 where "s' = s1\<lparr>sm_files := (sm_files s1)(canonical \<mapsto> f)\<rparr>"
      using assms(2) Suc unfolding canonical_def by (auto simp: Let_def simp del: getCreateFileEntry.simps split: option.splits)
    then show ?thesis using that [of canonical] by simp
  qed
  then have "sm_files s' (sf_path f) = Some f" "cached_ok s' f" using k(1) by (auto simp: sm_inv_def)
  with k show ?thesis by blast
qed

text \<open>A write to a file of the cache, with the update of its row.\<close>

lemma write_file_inv:
  assumes inv: "sm_inv s" and f: "cached_ok s f" "sm_files s (sf_path f) \<noteq> None"
    and inj: "inj_on fnvHash (known_paths s)"
  defines "s' \<equiv> updateFile f (cache_file f s)"
  shows "sm_inv s' \<and> known_paths s' = known_paths s \<and> dom (sm_files s') = dom (sm_files s)"
proof -
  note i = inv [unfolded sm_inv_def]
  have id: "sf_id f = fnvHash (sf_path f)" using f(1) by (simp add: cached_ok_def)
  have same: "sf_path r = sf_path f" if "r \<in> set (file_table s)" "sf_id r = sf_id f" for r
  proof -
    have "fnvHash (sf_path r) = fnvHash (sf_path f)" using that i id by (auto simp: row_ok_def)
    then show ?thesis using inj that(1) f(2) by (auto simp: inj_on_def known_paths_def)
  qed
  define g where "g r = (if sf_id r = sf_id f then f\<lparr>sf_content := sf_content r\<rparr> else r)" for r
  have g: "sf_id (g r) = sf_id r" "sf_content (g r) = sf_content r" for r by (simp_all add: g_def)
  have gp: "sf_path (g r) = sf_path r" if "r \<in> set (file_table s)" for r using same [OF that] by (simp add: g_def)
  have cached: "cached_ok (s\<lparr>file_table := map g (file_table s), sm_files := m\<rparr>) h" if "cached_ok s h" for h m
    using that gp g(2) by (auto simp: cached_ok_def)
  show ?thesis
  proof (cases "sf_id f \<in> persistedFiles s")
    case False
    then have s': "s' = cache_file f s" by (simp add: s'_def updateFile_def cache_file_def)
    have "cached_ok s h \<Longrightarrow> cached_ok s' h" for h by (simp add: s' cache_file_def cached_ok_def)
    then have "sm_inv s'" using i f(1) by (auto simp: s' cache_file_def sm_inv_def row_ok_def)
    moreover have "known_paths s' = known_paths s" "dom (sm_files s') = dom (sm_files s)"
      using f(2) by (auto simp: s' cache_file_def known_paths_def)
    ultimately show ?thesis by simp
  next
    case True
    then have s': "s' = s\<lparr>file_table := map g (file_table s), sm_files := (sm_files s)(sf_path f \<mapsto> f)\<rparr>"
      by (simp add: s'_def updateFile_def cache_file_def g_def [abs_def])
    have ids: "map sf_id (map g (file_table s)) = map sf_id (file_table s)" using g(1) by simp
    have paths: "sf_path ` set (map g (file_table s)) = sf_path ` set (file_table s)"
      unfolding set_map image_image using gp by (rule image_cong [OF refl])
    have rows: "row_ok s' r" if r: "r \<in> set (file_table s')" for r
    proof -
      obtain q where q: "q \<in> set (file_table s)" "r = g q" using r by (auto simp: s')
      then have "row_ok s q" using i by auto
      then show ?thesis using gp [OF q(1)] g by (simp add: row_ok_def q(2) s' id)
    qed
    have "sf_path h = p \<and> cached_ok s' h" if h: "sm_files s' p = Some h" for p h
    proof (cases "p = sf_path f")
      case True
      then show ?thesis using h cached [OF f(1)] by (simp add: s')
    next
      case False
      then have "sf_path h = p" "cached_ok s h" using h i by (auto simp: s')
      then show ?thesis using cached by (simp add: s')
    qed
    moreover have "file_table s' = map g (file_table s)" "persistedFiles s' = persistedFiles s" by (simp_all add: s')
    then have "persistedFiles s' = set (map sf_id (file_table s'))" "distinct (map sf_id (file_table s'))"
      using i ids by (simp_all only:)
    moreover have "persistedContents s' = set (map fst (content_table s'))" "distinct (map fst (content_table s'))"
      using i by (simp_all add: s')
    ultimately have "sm_inv s'" using rows by (simp add: sm_inv_def)
    moreover have "known_paths s' = known_paths s" "dom (sm_files s') = dom (sm_files s)"
      using f(2) paths by (auto simp: s' known_paths_def)
    ultimately show ?thesis by simp
  qed
qed

text \<open>A state in which the lookups of one command stay.\<close>

definition env_manager_ok :: "file_env \<Rightarrow> string set \<Rightarrow> source_manager \<Rightarrow> bool" where
  "env_manager_ok E P s \<longleftrightarrow> path_universe (fe_fs E) P \<and> sm_inv s \<and> known_paths s \<subseteq> P"

lemma env_getFile_ok:
  assumes "env_manager_ok E P s" "path \<in> P" "env_getFile E path s = Some (f, s')"
  shows "env_manager_ok E P s' \<and> dom (sm_files s) \<subseteq> dom (sm_files s') \<and> sm_files s' (sf_path f) = Some f \<and> cached_ok s' f \<and>
    persistedFiles s' = persistedFiles s"
  using assms getFile_universe(1) [of "fe_fs E" P "fe_fuel E" "fe_sha1 E" path s f s']
    getFile_result [of s "fe_fuel E" "fe_sha1 E" "fe_fs E" path f s']
  by (auto simp: env_manager_ok_def env_getFile_def sm_inv_def)

lemma write_file_ok:
  assumes "env_manager_ok E P s" "sm_files s (sf_path f) \<noteq> None" "cached_ok s f"
  shows "env_manager_ok E P (updateFile f (cache_file f s)) \<and> dom (sm_files (updateFile f (cache_file f s))) = dom (sm_files s) \<and>
    sm_files (updateFile f (cache_file f s)) (sf_path f) = Some f \<and>
    persistedFiles (updateFile f (cache_file f s)) = persistedFiles s"
proof -
  have "inj_on fnvHash (known_paths s)" using assms(1) by (auto simp: env_manager_ok_def path_universe_def intro: inj_on_subset)
  moreover have "sm_inv s" using assms(1) by (simp add: env_manager_ok_def)
  moreover have "sm_files (updateFile f (cache_file f s)) (sf_path f) = Some f"
    "persistedFiles (updateFile f (cache_file f s)) = persistedFiles s" by (simp_all add: updateFile_def cache_file_def)
  ultimately show ?thesis using write_file_inv [of s f] assms by (simp add: env_manager_ok_def)
qed

text \<open>The file with an identifier is in the cache.\<close>

definition in_cache :: "source_manager \<Rightarrow> 64 word \<Rightarrow> bool" where
  "in_cache s i \<longleftrightarrow> (\<exists>p \<in> dom (sm_files s). fnvHash p = i)"

lemma in_cache_mono: "dom (sm_files s) \<subseteq> dom (sm_files s') \<Longrightarrow> in_cache s i \<Longrightarrow> in_cache s' i"
  unfolding in_cache_def by blast

lemma cached_in_cache: "sm_files s (sf_path f) \<noteq> None \<Longrightarrow> cached_ok s f \<Longrightarrow> in_cache s (sf_id f)"
  by (auto simp: in_cache_def cached_ok_def)

lemma add_source_ok:
  assumes "env_manager_ok E P s" "path \<in> P" "add_source E failed path s = Some (i, s')"
  shows "env_manager_ok E P s' \<and> dom (sm_files s) \<subseteq> dom (sm_files s') \<and> in_cache s' i \<and> persistedFiles s' = persistedFiles s"
proof -
  obtain f s1 where g: "env_getFile E path s = Some (f, s1)" using assms(3) by (auto simp: add_source_def split: option.splits)
  define h where "h = f\<lparr>sf_parseStatus := (if failed then PSPartiallyParsed else PSFullyParsed)\<rparr>"
  have r: "i = sf_id h" "s' = updateFile h (cache_file h s1)" using assms(3) g by (simp_all add: add_source_def h_def Let_def)
  have h: "sf_path h = sf_path f" "sf_id h = sf_id f" "sf_content h = sf_content f" by (simp_all add: h_def)
  note s1 = env_getFile_ok [OF assms(1,2) g]
  have c: "sm_files s1 (sf_path h) \<noteq> None" "cached_ok s1 h" using s1 h by (simp_all add: cached_ok_def)
  from write_file_ok [OF conjunct1 [OF s1] c] have "env_manager_ok E P s'" "dom (sm_files s') = dom (sm_files s1)"
    "persistedFiles s' = persistedFiles s1" by (simp_all add: r(2))
  then show ?thesis using s1 in_cache_mono [of s1 s'] cached_in_cache [OF c] by (auto simp: r(1))
qed

lemma add_target_ok:
  assumes "env_manager_ok E P s" "path \<in> P" "add_target E path s = Some (i, s')"
  shows "env_manager_ok E P s' \<and> dom (sm_files s) \<subseteq> dom (sm_files s') \<and> in_cache s' i \<and> persistedFiles s' = persistedFiles s"
proof -
  obtain f s1 where g: "env_getFile E path s = Some (f, s1)" using assms(3) by (auto simp: add_target_def split: option.splits)
  note s1 = env_getFile_ok [OF assms(1,2) g]
  show ?thesis
  proof (cases "sf_type f = BINARY_TYPE")
    case True
    then have "i = sf_id f" "s' = s1" using assms(3) g by (simp_all add: add_target_def)
    then show ?thesis using s1 cached_in_cache [of s1 f] by simp
  next
    case False
    define h where "h = f\<lparr>sf_type := BINARY_TYPE\<rparr>"
    have r: "i = sf_id h" "s' = updateFile h (cache_file h s1)" using assms(3) g False by (simp_all add: add_target_def h_def Let_def)
    have h: "sf_path h = sf_path f" "sf_id h = sf_id f" "sf_content h = sf_content f" by (simp_all add: h_def)
    have c: "sm_files s1 (sf_path h) \<noteq> None" "cached_ok s1 h" using s1 h by (simp_all add: cached_ok_def)
    from write_file_ok [OF conjunct1 [OF s1] c] have "env_manager_ok E P s'" "dom (sm_files s') = dom (sm_files s1)"
    "persistedFiles s' = persistedFiles s1" by (simp_all add: r(2))
    then show ?thesis using s1 in_cache_mono [of s1 s'] cached_in_cache [OF c] by (auto simp: r(1))
  qed
qed

lemma add_pairs_ok:
  assumes "env_manager_ok E P s" "fst ` set pairs \<union> snd ` set pairs \<subseteq> P" "add_pairs E failed pairs s = Some (is, js, s')"
  shows "env_manager_ok E P s' \<and> dom (sm_files s) \<subseteq> dom (sm_files s') \<and> list_all (in_cache s') (is @ js) \<and>
    length is = length pairs \<and> length js = length pairs \<and> persistedFiles s' = persistedFiles s"
  using assms
proof (induction E failed pairs s arbitrary: "is" js s' rule: add_pairs.induct)
  case (2 E failed source target pairs s)
  obtain i s1 where a: "add_source E failed source s = Some (i, s1)" using 2(4) by (auto split: option.splits)
  obtain j s2 where b: "add_target E target s1 = Some (j, s2)" using 2(4) a by (auto split: option.splits)
  obtain is1 js1 where c: "add_pairs E failed pairs s2 = Some (is1, js1, s')" "is = i # is1" "js = j # js1"
    using 2(4) a b by (auto split: option.splits)
  have a': "env_manager_ok E P s1" "dom (sm_files s) \<subseteq> dom (sm_files s1)" "in_cache s1 i" "persistedFiles s1 = persistedFiles s"
    using add_source_ok [OF 2(2) _ a] 2(3) by simp_all
  have b': "env_manager_ok E P s2" "dom (sm_files s1) \<subseteq> dom (sm_files s2)" "in_cache s2 j" "persistedFiles s2 = persistedFiles s1"
    using add_target_ok [OF a'(1) _ b] 2(3) by simp_all
  have c': "env_manager_ok E P s'" "dom (sm_files s2) \<subseteq> dom (sm_files s')" "list_all (in_cache s') (is1 @ js1)"
    "length is1 = length pairs" "length js1 = length pairs" "persistedFiles s' = persistedFiles s2"
    using 2(1) [OF a refl b refl b'(1) _ c(1)] 2(3) by simp_all
  have "in_cache s' i" "in_cache s' j" using a'(2,3) b'(2,3) c'(2) in_cache_mono by blast+
  then show ?case using a' b' c' c(2,3) by auto
qed simp

lemma fuel_lookup:
  assumes "path_laws (fe_fs E)"
  shows "\<exists>k. \<forall>n \<ge> k. \<forall>s. env_getFile (E\<lparr>fe_fuel := n\<rparr>) path s \<noteq> None"
  using getFile_returns [OF assms, of "fe_sha1 E" path] by (simp add: env_getFile_def)

lemma add_pairs_return:
  assumes "path_laws (fe_fs E)"
  shows "\<exists>k. \<forall>n \<ge> k. \<forall>s. add_pairs (E\<lparr>fe_fuel := n\<rparr>) failed pairs s \<noteq> None"
proof (induction pairs)
  case (Cons pair pairs)
  obtain source target where p: "pair = (source, target)" by (cases pair)
  obtain k1 where k1: "\<forall>n \<ge> k1. \<forall>s. env_getFile (E\<lparr>fe_fuel := n\<rparr>) source s \<noteq> None" using fuel_lookup [OF assms] by blast
  obtain k2 where k2: "\<forall>n \<ge> k2. \<forall>s. env_getFile (E\<lparr>fe_fuel := n\<rparr>) target s \<noteq> None" using fuel_lookup [OF assms] by blast
  obtain k3 where k3: "\<forall>n \<ge> k3. \<forall>s. add_pairs (E\<lparr>fe_fuel := n\<rparr>) failed pairs s \<noteq> None" using Cons.IH by blast
  have "add_pairs (E\<lparr>fe_fuel := n\<rparr>) failed (pair # pairs) s \<noteq> None" if n: "n \<ge> max k1 (max k2 k3)" for n s
  proof -
    let ?E = "E\<lparr>fe_fuel := n\<rparr>"
    have a: "add_source ?E failed source s \<noteq> None" for s
      using k1 n by (auto simp: add_source_def Let_def split: option.splits)
    have b: "add_target ?E target s \<noteq> None" for s
      using k2 n by (auto simp: add_target_def Let_def split: option.splits)
    have c: "add_pairs ?E failed pairs s \<noteq> None" for s using k3 n by auto
    obtain i s1 where 1: "add_source ?E failed source s = Some (i, s1)" using a [of s] by auto
    obtain j s2 where 2: "add_target ?E target s1 = Some (j, s2)" using b [of s1] by auto
    show ?thesis using c [of s2] by (auto simp: p 1 2)
  qed
  then show ?case by blast
qed simp

lemma persist_file_known:
  "sm_files s (sf_path f) \<noteq> None \<Longrightarrow> persist_file f s = Inr s' \<Longrightarrow> known_paths s' \<subseteq> known_paths s"
  by (auto simp: persist_file_def known_paths_def Let_def split: content_ref.splits if_splits)

lemma persist_all_known:
  "sm_inv s \<Longrightarrow> persist_all paths s = Inr s' \<Longrightarrow> known_paths s' \<subseteq> known_paths s"
proof (induction paths arbitrary: s)
  case (Cons path paths)
  show ?case
  proof (cases "sm_files s path")
    case None
    then show ?thesis using Cons by simp
  next
    case (Some f)
    have f: "cached_ok s f" "sf_path f = path" using Cons.prems(1) Some by (auto simp: sm_inv_def)
    from persist_file_spec [OF Cons.prems(1) f(1)] obtain s1 where s1: "persist_file f s = Inr s1" "sm_inv s1" by blast
    have "known_paths s1 \<subseteq> known_paths s" using persist_file_known [OF _ s1(1)] Some f(2) by simp
    then show ?thesis using Cons.IH [OF s1(2)] Cons.prems(2) Some s1(1) by auto
  qed
qed simp

definition build_ok :: "file_env \<Rightarrow> string set \<Rightarrow> build_db \<Rightarrow> bool" where
  "build_ok E P db \<longleftrightarrow> env_manager_ok E P (bd_manager db) \<and>
     distinct (map ba_id (bd_actions db)) \<and> list_all (\<lambda>a. ba_id a < bd_next db) (bd_actions db) \<and>
     fst ` set (bd_sources db @ bd_targets db) \<subseteq> persistedFiles (bd_manager db) \<and>
     snd ` set (bd_sources db @ bd_targets db) \<subseteq> ba_id ` set (bd_actions db)"

lemma addCompileCommand_ok:
  assumes ok: "build_ok E P db" and paths: "fst ` set (extractInputOutputs L command) \<union> snd ` set (extractInputOutputs L command) \<subseteq> P"
    and cached: "\<And>s. known_paths s \<subseteq> P \<Longrightarrow> set (fe_cached E s) = dom (sm_files s)"
    and action: "ba_id action \<in> ba_id ` set (bd_actions db)"
    and pairs: "add_pairs E failed (extractInputOutputs L command) (bd_manager db) \<noteq> None"
  shows "\<exists>db' is js. addCompileCommand L E command action failed db = Some (Inr db') \<and> build_ok E P db' \<and>
    bd_actions db' = bd_actions db \<and> bd_sources db' = bd_sources db @ map (\<lambda>i. (i, ba_id action)) is \<and>
    bd_targets db' = bd_targets db @ map (\<lambda>i. (i, ba_id action)) js \<and>
    length is = length (extractInputOutputs L command) \<and> length js = length (extractInputOutputs L command)"
proof -
  obtain "is" js s where p: "add_pairs E failed (extractInputOutputs L command) (bd_manager db) = Some (is, js, s)"
    using pairs by auto
  have s: "env_manager_ok E P s" "dom (sm_files (bd_manager db)) \<subseteq> dom (sm_files s)" "list_all (in_cache s) (is @ js)"
    "length is = length (extractInputOutputs L command)" "length js = length (extractInputOutputs L command)"
    using add_pairs_ok [OF _ paths p] ok by (simp_all add: build_ok_def)
  have persisted: "persistedFiles s = persistedFiles (bd_manager db)"
    using add_pairs_ok [OF _ paths p] ok by (simp add: build_ok_def)
  have inv: "sm_inv s" "known_paths s \<subseteq> P" using s(1) by (simp_all add: env_manager_ok_def)
  obtain s' where s': "persist_all (fe_cached E s) s = Inr s'" "sm_inv s'"
    "\<forall>p \<in> set (fe_cached E s). \<forall>f. sm_files s p = Some f \<longrightarrow> sf_id f \<in> persistedFiles s'"
    "persistedFiles s \<subseteq> persistedFiles s'" using persist_all_spec [OF inv(1)] by blast
  have new: "i \<in> persistedFiles s'" if c: "in_cache s i" for i
  proof -
    obtain p f where pf: "sm_files s p = Some f" "fnvHash p = i" using c unfolding in_cache_def by blast
    then have "sf_id f = i" using inv(1) by (auto simp: sm_inv_def cached_ok_def)
    then show ?thesis using s'(3) cached [OF inv(2)] pf(1) by auto
  qed
  have "known_paths s' \<subseteq> P" using persist_all_known [OF inv(1) s'(1)] inv(2) by blast
  then have m: "env_manager_ok E P s'" using s'(2) s(1) by (simp add: env_manager_ok_def)
  define db' where "db' = db\<lparr>bd_manager := s', bd_sources := bd_sources db @ map (\<lambda>i. (i, ba_id action)) is,
    bd_targets := bd_targets db @ map (\<lambda>i. (i, ba_id action)) js\<rparr>"
  have "addCompileCommand L E command action failed db = Some (Inr db')"
    by (simp add: addCompileCommand_def p s'(1) db'_def)
  moreover have "build_ok E P db'"
  proof -
    have "fst ` set (bd_sources db' @ bd_targets db') \<subseteq> persistedFiles s'"
      using ok s(3) new s'(4) by (auto simp: build_ok_def db'_def list_all_iff persisted)
    moreover have "snd ` set (bd_sources db' @ bd_targets db') \<subseteq> ba_id ` set (bd_actions db)"
      using ok action by (auto simp: build_ok_def db'_def)
    ultimately show ?thesis using ok m by (simp add: build_ok_def db'_def)
  qed
  ultimately show ?thesis using s(4,5) by (intro exI [of _ db'] exI [of _ "is"] exI [of _ js]) (simp add: db'_def)
qed

text \<open>What the visitors may do: add files and rows of other tables.\<close>

definition run_keeps :: "clang_tool \<Rightarrow> file_env \<Rightarrow> string set \<Rightarrow> bool" where
  "run_keeps clang E P \<longleftrightarrow> (\<forall>path command db. build_ok E P db \<longrightarrow>
     (let db' = snd (ct_run clang path command db) in
      build_ok E P db' \<and> bd_actions db' = bd_actions db \<and> bd_sources db' = bd_sources db \<and>
      bd_targets db' = bd_targets db \<and> bd_next db' = bd_next db))"

lemma build_ok_fuel: "build_ok (E\<lparr>fe_fuel := n\<rparr>) P db = build_ok E P db"
  by (simp add: build_ok_def env_manager_ok_def)


definition test_file_env :: "string list \<Rightarrow> file_env" where
  "test_file_env paths = \<lparr>fe_fuel = 0, fe_sha1 = test_sha1, fe_fs = test_fs,
     fe_cached = (\<lambda>s. filter (\<lambda>p. sm_files s p \<noteq> None) paths)\<rparr>"

definition test_clang :: clang_tool where
  "test_clang = \<lparr>ct_accepts = (\<lambda>_. True), ct_run = (\<lambda>path command db. (0, db))\<rparr>"

definition test_build_db :: build_db where
  "test_build_db = \<lparr>bd_manager = empty_manager, bd_actions = [], bd_sources = [], bd_targets = [], bd_next = 1\<rparr>"


end
