(* ===== verification/CppCleanup.thy ===== *)
theory CppCleanup
  imports CppBuild "HOL-Library.Multiset"
begin

text \<open>
  The incremental half of \<^verbatim>\<open>plugins/cpp/parser/src/cppparser.cpp\<close>: which files count as changed because of
  their inclusions and build commands, in which order the rows of changed files are removed, and what is
  removed. The tables are those of \<open>cleanup_tables\<close>; the outcome of a transaction, the file system and the
  loader of compilation databases are parameters. The entries of \<open>fileStatus\<close>, an unordered map, are listed
  in the order of iteration.
\<close>

section \<open>Tables\<close>

record header_inclusion =
  hi_includer :: "64 word"
  hi_included :: "64 word"

record entity_row =
  en_id :: nat
  en_astNodeId :: nat

record cleanup_tables =
  ct_files :: "source_file list"
  ct_inclusions :: "header_inclusion list"
  ct_nodes :: "ast_node list"
  ct_entities :: "entity_row list"
  ct_inheritance :: "inheritance_row list"
  ct_friendship :: "friendship_row list"
  ct_edges :: "edge_row list"
  ct_actions :: "build_action list"
  ct_sources :: "(64 word \<times> nat) list"
  ct_targets :: "(64 word \<times> nat) list"

datatype cleanup_error = Row_Missing | Out_Of_Range

definition load_file :: "cleanup_tables \<Rightarrow> 64 word \<Rightarrow> source_file option" where
  "load_file T i = find (\<lambda>f. sf_id f = i) (ct_files T)"

definition includers :: "cleanup_tables \<Rightarrow> 64 word \<Rightarrow> 64 word list" where
  "includers T i = map hi_includer (filter (\<lambda>h. hi_included h = i) (ct_inclusions T))"

section \<open>Marking changed files\<close>

type_synonym statuses = "(string \<times> incremental_status) list"

text \<open>
  The loop of \<open>markByInclusion\<close> over the inclusions of a file; a file that has no status yet gets one and
  is searched before the loop goes on.
\<close>

partial_function (option) mark_includers ::
    "cleanup_tables \<Rightarrow> 64 word list \<Rightarrow> statuses \<Rightarrow> (cleanup_error + statuses) option" where
  "mark_includers T is st =
     (case is of
        [] \<Rightarrow> Some (Inr st)
      | i # is \<Rightarrow>
          (case load_file T i of
             None \<Rightarrow> Some (Inl Row_Missing)
           | Some loaded \<Rightarrow>
               if sf_path loaded \<in> fst ` set st then mark_includers T is st
               else
                 Option.bind (mark_includers T (includers T (sf_id loaded)) (st @ [(sf_path loaded, MODIFIED)]))
                   (\<lambda>r. case r of Inl e \<Rightarrow> Some (Inl e) | Inr st \<Rightarrow> mark_includers T is st)))"

lemma mark_includers_simps [simp]:
  "mark_includers T [] st = Some (Inr st)"
  "mark_includers T (i # is) st =
     (case load_file T i of
        None \<Rightarrow> Some (Inl Row_Missing)
      | Some loaded \<Rightarrow>
          if sf_path loaded \<in> fst ` set st then mark_includers T is st
          else
            Option.bind (mark_includers T (includers T (sf_id loaded)) (st @ [(sf_path loaded, MODIFIED)]))
              (\<lambda>r. case r of Inl e \<Rightarrow> Some (Inl e) | Inr st \<Rightarrow> mark_includers T is st))"
  by (subst mark_includers.simps, simp)+

definition markByInclusion :: "cleanup_tables \<Rightarrow> 64 word \<Rightarrow> statuses \<Rightarrow> (cleanup_error + statuses) option" where
  "markByInclusion T i st = mark_includers T (includers T i) st"

fun mark_files :: "cleanup_tables \<Rightarrow> 64 word list \<Rightarrow> statuses \<Rightarrow> (cleanup_error + statuses) option" where
  "mark_files T [] st = Some (Inr st)"
| "mark_files T (i # is) st =
     Option.bind (markByInclusion T i st) (\<lambda>r. case r of Inl e \<Rightarrow> Some (Inl e) | Inr st \<Rightarrow> mark_files T is st)"

text \<open>The files whose inclusions are searched; a file that is not modified is a new \<open>File\<close> whose id is zero.\<close>

fun status_files ::
    "file_env \<Rightarrow> statuses \<Rightarrow> source_manager \<Rightarrow> (64 word list \<times> source_manager) option" where
  "status_files E [] s = Some ([], s)"
| "status_files E ((path, status) # items) s =
     (if status = MODIFIED \<or> status = DELETED then
        (case env_getFile E path s of
           None \<Rightarrow> None
         | Some (file, s) \<Rightarrow>
             (case status_files E items s of None \<Rightarrow> None | Some (is, s) \<Rightarrow> Some (sf_id file # is, s)))
      else (case status_files E items s of None \<Rightarrow> None | Some (is, s) \<Rightarrow> Some (0 # is, s)))"

text \<open>The sources of one action, and the actions that a compilation database does not have.\<close>

fun mark_sources :: "cleanup_tables \<Rightarrow> 64 word list \<Rightarrow> statuses \<Rightarrow> cleanup_error + statuses" where
  "mark_sources T [] st = Inr st"
| "mark_sources T (i # is) st =
     (case load_file T i of
        None \<Rightarrow> Inl Row_Missing
      | Some file \<Rightarrow>
          mark_sources T is (if sf_path file \<in> fst ` set st then st else st @ [(sf_path file, ACTION_CHANGED)]))"

definition action_sources :: "cleanup_tables \<Rightarrow> nat \<Rightarrow> 64 word list" where
  "action_sources T a = map fst (filter (\<lambda>(i, b). b = a) (ct_sources T))"

fun mark_actions ::
    "cleanup_tables \<Rightarrow> string set \<Rightarrow> build_action list \<Rightarrow> statuses \<Rightarrow> cleanup_error + statuses" where
  "mark_actions T commandTexts [] st = Inr st"
| "mark_actions T commandTexts (a # as) st =
     (if ba_command a \<in> commandTexts then mark_actions T commandTexts as st
      else
        case mark_sources T (action_sources T (ba_id a)) st of
          Inl e \<Rightarrow> Inl e
        | Inr st \<Rightarrow> mark_actions T commandTexts as st)"

definition command_texts :: "compile_command list \<Rightarrow> string set" where
  "command_texts commands = (\<lambda>c. join_space (cc_command_line c)) ` set commands"

fun mark_inputs ::
    "cleanup_tables \<Rightarrow> (string \<Rightarrow> bool) \<Rightarrow> (string \<Rightarrow> compile_command list option) \<Rightarrow> string list \<Rightarrow> statuses \<Rightarrow>
       cleanup_error + statuses" where
  "mark_inputs T regular load [] st = Inr st"
| "mark_inputs T regular load (input # inputs) st =
     (if \<not> regular input then mark_inputs T regular load inputs st
      else
        case load input of
          None \<Rightarrow> mark_inputs T regular load inputs st
        | Some commands \<Rightarrow>
            (case mark_actions T (command_texts commands) (ct_actions T) st of
               Inl e \<Rightarrow> Inl e
             | Inr st \<Rightarrow> mark_inputs T regular load inputs st))"

definition markModifiedFiles ::
    "file_env \<Rightarrow> cleanup_tables \<Rightarrow> (string \<Rightarrow> bool) \<Rightarrow> (string \<Rightarrow> compile_command list option) \<Rightarrow> string list \<Rightarrow>
       statuses \<Rightarrow> source_manager \<Rightarrow> (cleanup_error + statuses \<times> source_manager) option" where
  "markModifiedFiles E T regular load inputs st s =
     (case status_files E st s of
        None \<Rightarrow> None
      | Some (is, s) \<Rightarrow>
          (case mark_files T is st of
             None \<Rightarrow> None
           | Some (Inl e) \<Rightarrow> Some (Inl e)
           | Some (Inr st) \<Rightarrow>
               (case mark_inputs T regular load inputs st of
                  Inl e \<Rightarrow> Some (Inl e)
                | Inr st \<Rightarrow> Some (Inr (st, s)))))"

section \<open>The order\<close>

text \<open>The edges from the includers of one file; \<open>at\<close> throws for a path without a vertex.\<close>

fun edges_into ::
    "cleanup_tables \<Rightarrow> string list \<Rightarrow> source_file \<Rightarrow> 64 word list \<Rightarrow> cleanup_error + (string \<times> string) list" where
  "edges_into T vertices file [] = Inr []"
| "edges_into T vertices file (i # is) =
     (case load_file T i of
        None \<Rightarrow> Inl Row_Missing
      | Some includer \<Rightarrow>
          if sf_path includer \<notin> set vertices \<or> sf_path file \<notin> set vertices then Inl Out_Of_Range
          else
            case edges_into T vertices file is of
              Inl e \<Rightarrow> Inl e
            | Inr es \<Rightarrow> Inr ((sf_path includer, sf_path file) # es))"

fun inclusion_edges ::
    "file_env \<Rightarrow> cleanup_tables \<Rightarrow> string list \<Rightarrow> string list \<Rightarrow> source_manager \<Rightarrow>
       (cleanup_error + (string \<times> string) list) option" where
  "inclusion_edges E T vertices [] s = Some (Inr [])"
| "inclusion_edges E T vertices (path # paths) s =
     (case env_getFile E path s of
        None \<Rightarrow> None
      | Some (file, s) \<Rightarrow>
          (case edges_into T vertices file (includers T (sf_id file)) of
             Inl e \<Rightarrow> Some (Inl e)
           | Inr es \<Rightarrow>
               (case inclusion_edges E T vertices paths s of
                  Some (Inr fs) \<Rightarrow> Some (Inr (es @ fs))
                | r \<Rightarrow> r)))"

definition in_degree :: "'a \<Rightarrow> ('a \<times> 'a) list \<Rightarrow> nat" where
  "in_degree v es = length (filter (\<lambda>e. snd e = v) es)"

text \<open>
  The loop: a level are the vertices without an incoming edge; their outgoing edges are removed. If there is
  no such vertex, all that are left are the last level.
\<close>

function cleanup_levels :: "'a list \<Rightarrow> ('a \<times> 'a) list \<Rightarrow> 'a list list" where
  "cleanup_levels vs es =
     (if vs = [] then []
      else
        let level = filter (\<lambda>v. in_degree v es = 0) vs in
        if level = [] then [vs]
        else level # cleanup_levels (filter (\<lambda>v. v \<notin> set level) vs) (filter (\<lambda>e. fst e \<notin> set level) es))"
  by pat_completeness auto

termination
  by (relation "measure (\<lambda>(vs, es). length vs)") (auto simp: filter_empty_conv intro: length_filter_less)

declare cleanup_levels.simps [simp del]

text \<open>A database error is logged, and there is then nothing to clean up.\<close>

definition createCleanupOrder ::
    "file_env \<Rightarrow> cleanup_tables \<Rightarrow> bool \<Rightarrow> statuses \<Rightarrow> source_manager \<Rightarrow> (cleanup_error + string list list) option" where
  "createCleanupOrder E T db_ok st s =
     (let vertices = sort (map fst st) in
      if \<not> db_ok then Some (Inr [])
      else
        case inclusion_edges E T vertices (map fst st) s of
          None \<Rightarrow> None
        | Some (Inl e) \<Rightarrow> Some (Inl e)
        | Some (Inr es) \<Rightarrow> Some (Inr (cleanup_levels vertices es)))"

section \<open>Cleaning up a file\<close>

text \<open>Erasing an action that is not there throws; its sources and targets go with it.\<close>

fun erase_actions :: "nat list \<Rightarrow> cleanup_tables \<Rightarrow> cleanup_error + cleanup_tables" where
  "erase_actions [] T = Inr T"
| "erase_actions (a # as) T =
     (if a \<notin> ba_id ` set (ct_actions T) then Inl Row_Missing
      else
        erase_actions as (T\<lparr>ct_actions := filter (\<lambda>b. ba_id b \<noteq> a) (ct_actions T),
          ct_sources := filter (\<lambda>(i, b). b \<noteq> a) (ct_sources T),
          ct_targets := filter (\<lambda>(i, b). b \<noteq> a) (ct_targets T)\<rparr>))"

definition file_nodes :: "cleanup_tables \<Rightarrow> 64 word \<Rightarrow> ast_node list" where
  "file_nodes T i = filter (\<lambda>n. an_file n = Some (unat i)) (ct_nodes T)"

definition clean_node :: "ast_node \<Rightarrow> cleanup_tables \<Rightarrow> cleanup_tables" where
  "clean_node n T =
     (let T = T\<lparr>ct_entities := filter (\<lambda>e. en_astNodeId e \<noteq> an_id n) (ct_entities T)\<rparr> in
      if an_type n = Definition_Node then
        T\<lparr>ct_inheritance := filter (\<lambda>r. ih_derived r \<noteq> an_hash n) (ct_inheritance T),
          ct_friendship := filter (\<lambda>r. fs_target r \<noteq> an_hash n) (ct_friendship T)\<rparr>
      else T)"

definition clean_file :: "64 word \<Rightarrow> cleanup_tables \<Rightarrow> cleanup_error + cleanup_tables" where
  "clean_file i T =
     (let T = fold clean_node (file_nodes T i) T in
      case erase_actions (map snd (filter (\<lambda>(j, a). j = i) (ct_sources T))) T of
        Inl e \<Rightarrow> Inl e
      | Inr T \<Rightarrow> Inr (T\<lparr>ct_edges := filter (\<lambda>e. ed_from e \<noteq> unat i) (ct_edges T)\<rparr>))"

datatype transaction_outcome = Committed | Deadlock | Database_Exception

definition maxTries :: nat where "maxTries = 3"

text \<open>
  One round of the loop of \<open>cleanupWorker\<close>; after both log messages of a deadlock that is to be retried the
  round ends with \<open>return true\<close>, so there is never a second round.
\<close>

definition cleanup_attempt ::
    "nat \<Rightarrow> transaction_outcome \<Rightarrow> incremental_status \<Rightarrow> 64 word \<Rightarrow> cleanup_tables \<Rightarrow>
       cleanup_error + bool \<times> cleanup_tables" where
  "cleanup_attempt tryCount outcome status i T =
     (case outcome of
        Committed \<Rightarrow>
          if status = ADDED then Inr (True, T)
          else (case clean_file i T of Inl e \<Rightarrow> Inl e | Inr T \<Rightarrow> Inr (True, T))
      | Deadlock \<Rightarrow> if tryCount < maxTries then Inr (True, T) else Inr (False, T)
      | Database_Exception \<Rightarrow> Inr (False, T))"

text \<open>\<open>fileStatus[path]\<close> of a path without an entry is the first status.\<close>

definition status_of :: "statuses \<Rightarrow> string \<Rightarrow> incremental_status" where
  "status_of st path = (case map_of st path of None \<Rightarrow> MODIFIED | Some s \<Rightarrow> s)"

definition cleanupWorker ::
    "file_env \<Rightarrow> (string \<Rightarrow> transaction_outcome) \<Rightarrow> statuses \<Rightarrow> string \<Rightarrow> source_manager \<Rightarrow> cleanup_tables \<Rightarrow>
       (cleanup_error + bool \<times> cleanup_tables) option" where
  "cleanupWorker E outcome st path s T =
     (if status_of st path = ADDED then Some (cleanup_attempt 1 (outcome path) ADDED 0 T)
      else
        case env_getFile E path s of
          None \<Rightarrow> None
        | Some (file, s) \<Rightarrow> Some (cleanup_attempt 1 (outcome path) (status_of st path) (sf_id file) T))"

text \<open>The jobs, in the order in which the workers finish them.\<close>

fun run_cleanup ::
    "file_env \<Rightarrow> (string \<Rightarrow> transaction_outcome) \<Rightarrow> statuses \<Rightarrow> source_manager \<Rightarrow> string list \<Rightarrow> bool \<Rightarrow> cleanup_tables \<Rightarrow>
       (cleanup_error + bool \<times> cleanup_tables) option" where
  "run_cleanup E outcome st s [] succeeded T = Some (Inr (succeeded, T))"
| "run_cleanup E outcome st s (path # paths) succeeded T =
     (case cleanupWorker E outcome st path s T of
        Some (Inr (success, T)) \<Rightarrow> run_cleanup E outcome st s paths (succeeded \<and> success) T
      | r \<Rightarrow> r)"

text \<open>
  A schedule: the jobs of a level in any order, and all of them before those of the next level, because every
  level has a pool of its own that is waited for.
\<close>

definition level_schedule :: "string list list \<Rightarrow> string list \<Rightarrow> bool" where
  "level_schedule levels trace \<longleftrightarrow>
     (\<exists>ls. list_all2 (\<lambda>l l'. mset l' = mset l) levels ls \<and> trace = concat ls)"

section \<open>The levels are a topological order\<close>

text \<open>One vertex is in an earlier level than another.\<close>

definition earlier :: "'a list list \<Rightarrow> 'a \<Rightarrow> 'a \<Rightarrow> bool" where
  "earlier levels a b \<longleftrightarrow> (\<exists>xs ys. levels = xs @ ys \<and> a \<in> set (concat xs) \<and> b \<in> set (concat ys))"

lemma earlier_Cons: "earlier levels a b \<Longrightarrow> earlier (l # levels) a b"
  unfolding earlier_def by (metis append_Cons concat.simps(2) set_append UnI2)

lemma earlier_first: "a \<in> set l \<Longrightarrow> b \<in> set (concat levels) \<Longrightarrow> earlier (l # levels) a b"
  unfolding earlier_def by (intro exI [of _ "[l]"] exI [of _ levels]) simp

lemma levels_perm: "mset (concat (cleanup_levels vs es)) = mset vs \<and> [] \<notin> set (cleanup_levels vs es)"
proof (induction vs es rule: cleanup_levels.induct)
  case (1 vs es)
  define level where "level = filter (\<lambda>v. in_degree v es = 0) vs"
  show ?case
  proof (cases "vs = [] \<or> level = []")
    case True
    then show ?thesis by (subst (1 2) cleanup_levels.simps) (auto simp: level_def Let_def)
  next
    case False
    let ?vs = "filter (\<lambda>v. v \<notin> set level) vs" and ?es = "filter (\<lambda>e. fst e \<notin> set level) es"
    have step: "cleanup_levels vs es = level # cleanup_levels ?vs ?es"
      using False by (subst cleanup_levels.simps) (simp add: level_def Let_def)
    have IH: "mset (concat (cleanup_levels ?vs ?es)) = mset ?vs \<and> [] \<notin> set (cleanup_levels ?vs ?es)"
      by (rule 1 [of level]) (use False in \<open>auto simp: level_def\<close>)
    have "level = filter (\<lambda>v. v \<in> set level) vs" unfolding level_def by (rule filter_cong) auto
    then have "mset level + mset ?vs = mset vs" by (metis mset_filter multiset_partition)
    then show ?thesis using IH False by (auto simp: step)
  qed
qed

lemma in_degree_0: "in_degree v es = 0 \<longleftrightarrow> v \<notin> snd ` set es"
  by (auto simp: in_degree_def filter_empty_conv)

text \<open>The exception: a last level in which everything is included from within the level.\<close>

definition circular :: "'a list list \<Rightarrow> ('a \<times> 'a) list \<Rightarrow> 'a \<Rightarrow> 'a \<Rightarrow> bool" where
  "circular levels es a b \<longleftrightarrow> levels \<noteq> [] \<and> {a, b} \<subseteq> set (last levels) \<and>
     set (last levels) \<subseteq> snd ` {e \<in> set es. fst e \<in> set (last levels)}"

lemma circular_Cons:
  "circular levels es a b \<Longrightarrow> set es \<subseteq> set es' \<Longrightarrow> circular (l # levels) es' a b"
proof -
  assume c: "circular levels es a b" and sub: "set es \<subseteq> set es'"
  then have ne: "levels \<noteq> []" "last (l # levels) = last levels" by (auto simp: circular_def)
  have "snd ` {e \<in> set es. fst e \<in> set (last levels)} \<subseteq> snd ` {e \<in> set es'. fst e \<in> set (last levels)}"
    using sub by (intro image_mono) auto
  moreover have "set (last levels) \<subseteq> snd ` {e \<in> set es. fst e \<in> set (last levels)}" "{a, b} \<subseteq> set (last levels)"
    using c by (simp_all only: circular_def)
  ultimately show ?thesis unfolding circular_def ne(2) by (intro conjI) (rule list.distinct(2), assumption, rule order_trans)
qed

lemma levels_edges:
  assumes "fst ` set es \<union> snd ` set es \<subseteq> set vs" "(a, b) \<in> set es"
  shows "earlier (cleanup_levels vs es) a b \<or> circular (cleanup_levels vs es) es a b"
  using assms
proof (induction vs es rule: cleanup_levels.induct)
  case (1 vs es)
  define level where "level = filter (\<lambda>v. in_degree v es = 0) vs"
  have ne: "vs \<noteq> []" using 1(2,3) by auto
  have ab: "a \<in> set vs" "b \<in> set vs" using 1(2,3) by force+
  show ?case
  proof (cases "level = []")
    case True
    then have step: "cleanup_levels vs es = [vs]" using ne by (subst cleanup_levels.simps) (simp add: level_def Let_def)
    have "set vs \<subseteq> snd ` set es" using True by (auto simp: level_def filter_empty_conv in_degree_0)
    then have "set vs \<subseteq> snd ` {e \<in> set es. fst e \<in> set vs}" using 1(2) by force
    then show ?thesis using ab by (auto simp: step circular_def)
  next
    case False
    let ?vs = "filter (\<lambda>v. v \<notin> set level) vs" and ?es = "filter (\<lambda>e. fst e \<notin> set level) es"
    have step: "cleanup_levels vs es = level # cleanup_levels ?vs ?es"
      using False ne by (subst cleanup_levels.simps) (simp add: level_def Let_def)
    have target: "snd e \<notin> set level" if "e \<in> set es" for e using that by (auto simp: level_def in_degree_0)
    then have b: "b \<in> set ?vs" using ab(2) 1(3) by force
    show ?thesis
    proof (cases "a \<in> set level")
      case True
      have "set (concat (cleanup_levels ?vs ?es)) = set ?vs" using levels_perm [of ?vs ?es] by (metis set_mset_mset)
      then have "b \<in> set (concat (cleanup_levels ?vs ?es))" using b by (simp only:)
      then show ?thesis unfolding step by (intro disjI1 earlier_first [OF True])
    next
      case nlev: False
      have "fst ` set ?es \<union> snd ` set ?es \<subseteq> set ?vs" using 1(2) target by force
      moreover have "(a, b) \<in> set ?es" using nlev 1(3) by simp
      ultimately have "earlier (cleanup_levels ?vs ?es) a b \<or> circular (cleanup_levels ?vs ?es) ?es a b"
        by (intro 1(1) [of level]) (use False ne in \<open>auto simp: level_def\<close>)
      moreover have "set ?es \<subseteq> set es" by auto
      ultimately show ?thesis using earlier_Cons circular_Cons by (metis step)
    qed
  qed
qed

lemma circular_cycle: "circular levels es a b \<Longrightarrow> \<not> acyclic (set es)"
proof
  assume c: "circular levels es a b" and "acyclic (set es)"
  then have "wf (set es)" by (simp add: finite_acyclic_wf)
  then obtain z where z: "z \<in> set (last levels)" "\<And>y. (y, z) \<in> set es \<Longrightarrow> y \<notin> set (last levels)"
    using c wfE_min [of "set es" a "set (last levels)"] by (auto simp: circular_def)
  then show False using c by (fastforce simp: circular_def)
qed

text \<open>
  C36: the clean-up order is a partition of the changed files into non-empty levels, computed in finitely many
  rounds even for circular inclusions. Every includer comes in an earlier level than what it includes; the
  only exception are two files of the last level when every file of that level is included by another one of
  it, which cannot happen when the inclusions have no cycle.
\<close>

theorem cleanup_order_topological:
  assumes "fst ` set es \<union> snd ` set es \<subseteq> set vs" "(a, b) \<in> set es"
  shows "mset (concat (cleanup_levels vs es)) = mset vs \<and> [] \<notin> set (cleanup_levels vs es) \<and>
    (earlier (cleanup_levels vs es) a b \<or> circular (cleanup_levels vs es) es a b \<and> \<not> acyclic (set es))"
  using levels_perm levels_edges [OF assms] circular_cycle by metis

theorem cleanup_order_topological_witness:
  "cleanup_levels [''a.cpp'', ''b.h'', ''c.h''] [(''a.cpp'', ''b.h''), (''b.h'', ''c.h''), (''a.cpp'', ''c.h'')] =
     [[''a.cpp''], [''b.h''], [''c.h'']] \<and>
   cleanup_levels [''a.cpp'', ''b.h'', ''c.h''] [(''a.cpp'', ''b.h''), (''b.h'', ''c.h''), (''c.h'', ''b.h'')] =
     [[''a.cpp''], [''b.h'', ''c.h'']] \<and>
   circular (cleanup_levels [''a.cpp'', ''b.h'', ''c.h''] [(''a.cpp'', ''b.h''), (''b.h'', ''c.h''), (''c.h'', ''b.h'')])
     [(''a.cpp'', ''b.h''), (''b.h'', ''c.h''), (''c.h'', ''b.h'')] ''c.h'' ''b.h''"
proof -
  let ?vs = "[''a.cpp'', ''b.h'', ''c.h'']" and ?es = "[(''a.cpp'', ''b.h''), (''b.h'', ''c.h''), (''c.h'', ''b.h'')]"
  have l: "cleanup_levels ?vs [(''a.cpp'', ''b.h''), (''b.h'', ''c.h''), (''a.cpp'', ''c.h'')] = [[''a.cpp''], [''b.h''], [''c.h'']]"
    "cleanup_levels ?vs ?es = [[''a.cpp''], [''b.h'', ''c.h'']]" by code_simp+
  have "\<not> earlier [[''a.cpp''], [''b.h'', ''c.h'']] ''c.h'' ''b.h''"
  proof
    assume "earlier [[''a.cpp''], [''b.h'', ''c.h'']] ''c.h'' ''b.h''"
    then obtain xs ys where "[[''a.cpp''], [''b.h'', ''c.h'']] = xs @ ys" "''c.h'' \<in> set (concat xs)" "''b.h'' \<in> set (concat ys)"
      by (auto simp: earlier_def)
    then show False by (cases xs; cases "tl xs") (auto simp: Cons_eq_append_conv)
  qed
  with cleanup_order_topological [of ?es ?vs "''c.h''" "''b.h''"] l show ?thesis by auto
qed

section \<open>What is marked\<close>

text \<open>The foreign keys of the tables, and identifiers that are the hashes of the paths.\<close>

definition tables_ok :: "cleanup_tables \<Rightarrow> bool" where
  "tables_ok T \<longleftrightarrow> list_all (\<lambda>f. sf_id f = fnvHash (sf_path f)) (ct_files T) \<and> distinct (map sf_id (ct_files T)) \<and>
     0 \<notin> sf_id ` set (ct_files T) \<and>
     list_all (\<lambda>h. hi_includer h \<in> sf_id ` set (ct_files T) \<and> hi_included h \<in> sf_id ` set (ct_files T)) (ct_inclusions T) \<and>
     list_all (\<lambda>(i, a). i \<in> sf_id ` set (ct_files T)) (ct_sources T)"

text \<open>The paths of the files that include a file directly.\<close>

definition file_path :: "cleanup_tables \<Rightarrow> 64 word \<Rightarrow> string" where
  "file_path T i = (case load_file T i of None \<Rightarrow> [] | Some f \<Rightarrow> sf_path f)"

definition path_includers :: "cleanup_tables \<Rightarrow> string \<Rightarrow> string list" where
  "path_includers T p = map (file_path T) (includers T (fnvHash p))"

definition included_rel :: "cleanup_tables \<Rightarrow> (string \<times> string) set" where
  "included_rel T = {(p, q). q \<in> set (path_includers T p)}"

lemma load_file_Some: "load_file T i = Some f \<Longrightarrow> f \<in> set (ct_files T) \<and> sf_id f = i"
  by (auto simp: load_file_def find_Some_iff)

lemma load_file_ok: "i \<in> sf_id ` set (ct_files T) \<Longrightarrow> \<exists>f. load_file T i = Some f"
  by (cases "load_file T i") (auto simp: load_file_def find_None_iff)

lemma includers_ok: "tables_ok T \<Longrightarrow> set (includers T i) \<subseteq> sf_id ` set (ct_files T)"
  by (auto simp: includers_def tables_ok_def list_all_iff)

lemma includers_0: "tables_ok T \<Longrightarrow> includers T 0 = []"
  by (auto simp: includers_def tables_ok_def list_all_iff filter_empty_conv)

lemma loaded_id: "tables_ok T \<Longrightarrow> load_file T i = Some f \<Longrightarrow> fnvHash (sf_path f) = i"
  using load_file_Some [of T i f] by (auto simp: tables_ok_def list_all_iff)

abbreviation keys :: "statuses \<Rightarrow> string set" where "keys st \<equiv> fst ` set st"

text \<open>
  What a search keeps: the new entries are modified files that were not known, each of them is reached
  from the files it starts with, and the includers of the new files have an entry.
\<close>

definition only_marks :: "cleanup_tables \<Rightarrow> string set \<Rightarrow> statuses \<Rightarrow> statuses \<Rightarrow> bool" where
  "only_marks T start st st' \<longleftrightarrow> (\<exists>new. st' = st @ map (\<lambda>p. (p, MODIFIED)) new \<and> distinct new \<and> set new \<inter> keys st = {} \<and>
     set new \<subseteq> (included_rel T)\<^sup>* `` start \<and> start \<union> included_rel T `` set new \<subseteq> keys st')"

lemma only_marks_refl: "start \<subseteq> keys st \<Longrightarrow> only_marks T start st st"
  by (auto simp: only_marks_def)

lemma marks_trans:
  assumes "only_marks T start st st1" "only_marks T start' st1 st2"
  shows "only_marks T (start \<union> start') st st2"
proof -
  obtain new where new: "st1 = st @ map (\<lambda>p. (p, MODIFIED)) new" "distinct new" "set new \<inter> keys st = {}"
    "set new \<subseteq> (included_rel T)\<^sup>* `` start" "start \<union> included_rel T `` set new \<subseteq> keys st1"
    using assms(1) unfolding only_marks_def by blast
  obtain new' where new': "st2 = st1 @ map (\<lambda>p. (p, MODIFIED)) new'" "distinct new'" "set new' \<inter> keys st1 = {}"
    "set new' \<subseteq> (included_rel T)\<^sup>* `` start'" "start' \<union> included_rel T `` set new' \<subseteq> keys st2"
    using assms(2) unfolding only_marks_def by blast
  have k: "keys st1 = keys st \<union> set new" "keys st2 = keys st1 \<union> set new'" using new(1) new'(1) by force+
  have "st2 = st @ map (\<lambda>p. (p, MODIFIED)) (new @ new')" using new(1) new'(1) by simp
  moreover have "distinct (new @ new')" using new(2) new'(2,3) k(1) by auto
  moreover have "set (new @ new') \<inter> keys st = {}" using new(3) new'(3) k(1) by auto
  moreover have "set (new @ new') \<subseteq> (included_rel T)\<^sup>* `` (start \<union> start')" using new(4) new'(4) by auto
  moreover have "start \<union> start' \<union> included_rel T `` set (new @ new') \<subseteq> keys st2"
    using new(5) new'(5) k(2) by (auto simp: Image_Un)
  ultimately show ?thesis unfolding only_marks_def by blast
qed

lemma marks_step:
  assumes "only_marks T (included_rel T `` {p}) (st @ [(p, MODIFIED)]) st'" "p \<notin> keys st"
  shows "only_marks T {p} st st'"
proof -
  obtain new where new: "st' = (st @ [(p, MODIFIED)]) @ map (\<lambda>p. (p, MODIFIED)) new" "distinct new"
    "set new \<inter> keys (st @ [(p, MODIFIED)]) = {}" "set new \<subseteq> (included_rel T)\<^sup>* `` (included_rel T `` {p})"
    "included_rel T `` {p} \<union> included_rel T `` set new \<subseteq> keys st'"
    using assms(1) unfolding only_marks_def by blast
  have "st' = st @ map (\<lambda>p. (p, MODIFIED)) (p # new)" using new(1) by simp
  moreover have "distinct (p # new)" "set (p # new) \<inter> keys st = {}" using new(2,3) assms(2) by auto
  moreover have "(included_rel T)\<^sup>* `` (included_rel T `` {p}) \<subseteq> (included_rel T)\<^sup>* `` {p}"
    by (auto intro: converse_rtrancl_into_rtrancl)
  then have "set (p # new) \<subseteq> (included_rel T)\<^sup>* `` {p}" using new(4) by auto
  moreover have "{p} \<union> included_rel T `` set (p # new) \<subseteq> keys st'" using new(1,5) by auto
  ultimately show ?thesis unfolding only_marks_def by blast
qed

lemma mark_includers_spec:
  assumes ok: "tables_ok T" and "set is \<subseteq> sf_id ` set (ct_files T)"
  shows "\<exists>st'. mark_includers T is st = Some (Inr st') \<and> only_marks T (file_path T ` set is) st st'"
  using assms(2)
proof (induction "card (sf_path ` set (ct_files T) - keys st)" arbitrary: "is" st rule: less_induct)
  case less
  note outer = less.hyps
  show ?case using less.prems
  proof (induction "is")
    case Nil
    show ?case by (simp add: only_marks_refl)
  next
    case (Cons i "is")
    obtain f where f: "load_file T i = Some f" using load_file_ok [of i T] Cons.prems by auto
    have fp: "file_path T i = sf_path f" "f \<in> set (ct_files T)" using f load_file_Some [OF f] by (simp_all add: file_path_def)
    show ?case
    proof (cases "sf_path f \<in> keys st")
      case True
      obtain st' where st': "mark_includers T is st = Some (Inr st')" "only_marks T (file_path T ` set is) st st'"
        using Cons by auto
      have "only_marks T ({sf_path f} \<union> file_path T ` set is) st st'"
        by (rule marks_trans [OF only_marks_refl st'(2)]) (use True in simp)
      then show ?thesis using st'(1) f True fp(1) by simp
    next
      case False
      let ?st = "st @ [(sf_path f, MODIFIED)]" and ?P = "sf_path ` set (ct_files T)"
      have card: "card (?P - keys st') < card (?P - keys st)" if "keys ?st \<subseteq> keys st'" for st'
        using False fp(2) that by (intro psubset_card_mono) auto
      have id: "sf_id f = i" "fnvHash (sf_path f) = i" using load_file_Some [OF f] loaded_id [OF ok f] by simp_all
      obtain st1 where st1: "mark_includers T (includers T i) ?st = Some (Inr st1)"
        "only_marks T (file_path T ` set (includers T i)) ?st st1"
        using outer [OF card, of ?st "includers T i"] includers_ok [OF ok, of i] by blast
      have "included_rel T `` {sf_path f} = file_path T ` set (includers T i)"
        by (auto simp: included_rel_def path_includers_def id)
      then have m1: "only_marks T {sf_path f} st st1" using marks_step [OF _ False] st1(2) by simp
      then have "keys ?st \<subseteq> keys st1" by (auto simp: only_marks_def)
      from outer [OF card [OF this], of "is"] Cons.prems obtain st2 where st2: "mark_includers T is st1 = Some (Inr st2)"
        "only_marks T (file_path T ` set is) st1 st2" by auto
      have "only_marks T (file_path T ` set (i # is)) st st2" using marks_trans [OF m1 st2(2)] fp(1) by simp
      then show ?thesis using f False st1(1) st2(1) by (simp add: id)
    qed
  qed
qed

lemma mark_files_spec:
  assumes ok: "tables_ok T"
  shows "\<exists>st'. mark_files T is st = Some (Inr st') \<and> only_marks T (file_path T ` (\<Union>i \<in> set is. set (includers T i))) st st'"
proof (induction "is" arbitrary: st)
  case Nil
  show ?case by (simp add: only_marks_refl)
next
  case (Cons i "is")
  obtain st1 where st1: "mark_includers T (includers T i) st = Some (Inr st1)" "only_marks T (file_path T ` set (includers T i)) st st1"
    using mark_includers_spec [OF ok includers_ok [OF ok]] by blast
  obtain st2 where st2: "mark_files T is st1 = Some (Inr st2)"
    "only_marks T (file_path T ` (\<Union>i \<in> set is. set (includers T i))) st1 st2" using Cons.IH by blast
  from marks_trans [OF st1(2) st2(2)] st1(1) st2(1) show ?case by (simp add: markByInclusion_def image_Un)
qed

text \<open>The sources of the actions whose command is missing in some input.\<close>

definition missing_actions ::
    "cleanup_tables \<Rightarrow> (string \<Rightarrow> bool) \<Rightarrow> (string \<Rightarrow> compile_command list option) \<Rightarrow> string list \<Rightarrow> string set" where
  "missing_actions T regular load inputs =
     {file_path T i | i a input commands. a \<in> set (ct_actions T) \<and> (i, ba_id a) \<in> set (ct_sources T) \<and>
       input \<in> set inputs \<and> regular input \<and> load input = Some commands \<and> ba_command a \<notin> command_texts commands}"

definition adds :: "string set \<Rightarrow> statuses \<Rightarrow> statuses \<Rightarrow> bool" where
  "adds S st st' \<longleftrightarrow> (\<exists>new. st' = st @ map (\<lambda>p. (p, ACTION_CHANGED)) new \<and> distinct new \<and> set new = S - keys st)"

lemma adds_empty: "adds {} st st"
  by (simp add: adds_def)

lemma adds_trans:
  assumes "adds S st st1" "adds S' st1 st2"
  shows "adds (S \<union> S') st st2"
proof -
  obtain new where new: "st1 = st @ map (\<lambda>p. (p, ACTION_CHANGED)) new" "distinct new" "set new = S - keys st"
    using assms(1) unfolding adds_def by blast
  obtain new' where new': "st2 = st1 @ map (\<lambda>p. (p, ACTION_CHANGED)) new'" "distinct new'" "set new' = S' - keys st1"
    using assms(2) unfolding adds_def by blast
  have "keys st1 = keys st \<union> set new" using new(1) by force
  then show ?thesis unfolding adds_def using new new' by (intro exI [of _ "new @ new'"]) auto
qed

lemma adds_one: "adds {p} st (if p \<in> keys st then st else st @ [(p, ACTION_CHANGED)])"
proof (cases "p \<in> keys st")
  case False
  then show ?thesis unfolding adds_def by (intro exI [of _ "[p]"]) auto
qed (simp add: adds_def)

lemma set_action_sources: "set (action_sources T a) = {i. (i, a) \<in> set (ct_sources T)}"
  by (force simp: action_sources_def)

lemma mark_sources_spec:
  "set is \<subseteq> sf_id ` set (ct_files T) \<Longrightarrow> \<exists>st'. mark_sources T is st = Inr st' \<and> adds (file_path T ` set is) st st'"
proof (induction "is" arbitrary: st)
  case Nil
  show ?case by (simp add: adds_empty)
next
  case (Cons i "is")
  obtain f where f: "load_file T i = Some f" using load_file_ok [of i T] Cons.prems by auto
  let ?st = "if sf_path f \<in> keys st then st else st @ [(sf_path f, ACTION_CHANGED)]"
  obtain st' where st': "mark_sources T is ?st = Inr st'" "adds (file_path T ` set is) ?st st'"
    using Cons.IH [of ?st] Cons.prems by auto
  from adds_trans [OF adds_one st'(2)] st'(1) f show ?case by (simp add: file_path_def)
qed

lemma mark_actions_spec:
  assumes ok: "tables_ok T"
  shows "\<exists>st'. mark_actions T texts as st = Inr st' \<and>
    adds {file_path T i | i a. a \<in> set as \<and> (i, ba_id a) \<in> set (ct_sources T) \<and> ba_command a \<notin> texts} st st'"
proof (induction as arbitrary: st)
  case Nil
  show ?case by (simp add: adds_empty)
next
  case (Cons a as)
  let ?S = "\<lambda>as. {file_path T i | i a. a \<in> set as \<and> (i, ba_id a) \<in> set (ct_sources T) \<and> ba_command a \<notin> texts}"
  show ?case
  proof (cases "ba_command a \<in> texts")
    case True
    then have "?S (a # as) = ?S as" by auto
    then show ?thesis using Cons.IH [of st] True by simp
  next
    case False
    have src: "set (action_sources T (ba_id a)) \<subseteq> sf_id ` set (ct_files T)"
      unfolding set_action_sources using ok by (auto simp: tables_ok_def list_all_iff)
    obtain st1 where st1: "mark_sources T (action_sources T (ba_id a)) st = Inr st1"
      "adds (file_path T ` set (action_sources T (ba_id a))) st st1" using mark_sources_spec [OF src] by blast
    obtain st2 where st2: "mark_actions T texts as st1 = Inr st2" "adds (?S as) st1 st2" using Cons.IH by blast
    have "?S (a # as) = file_path T ` set (action_sources T (ba_id a)) \<union> ?S as"
      unfolding set_action_sources using False by auto
    then show ?thesis using adds_trans [OF st1(2) st2(2)] st1(1) st2(1) False by simp
  qed
qed

lemma mark_inputs_spec:
  assumes ok: "tables_ok T"
  shows "\<exists>st'. mark_inputs T regular load inputs st = Inr st' \<and> adds (missing_actions T regular load inputs) st st'"
proof (induction inputs arbitrary: st)
  case Nil
  show ?case by (simp add: adds_empty missing_actions_def)
next
  case (Cons i inputs)
  show ?case
  proof (cases "\<not> regular i \<or> load i = None")
    case True
    then have "missing_actions T regular load (i # inputs) = missing_actions T regular load inputs"
      by (auto simp: missing_actions_def)
    then show ?thesis using Cons.IH [of st] True by auto
  next
    case False
    then obtain cs where cs: "load i = Some cs" "regular i" by auto
    let ?S = "{file_path T j | j a. a \<in> set (ct_actions T) \<and> (j, ba_id a) \<in> set (ct_sources T) \<and> ba_command a \<notin> command_texts cs}"
    obtain st1 where st1: "mark_actions T (command_texts cs) (ct_actions T) st = Inr st1" "adds ?S st st1"
      using mark_actions_spec [OF ok] by blast
    obtain st2 where st2: "mark_inputs T regular load inputs st1 = Inr st2" "adds (missing_actions T regular load inputs) st1 st2"
      using Cons.IH by blast
    have "missing_actions T regular load (i # inputs) = ?S \<union> missing_actions T regular load inputs"
      using cs by (auto simp: missing_actions_def)
    then show ?thesis using adds_trans [OF st1(2) st2(2)] st1(1) st2(1) cs by simp
  qed
qed

text \<open>Paths that the source manager has in its cache under their canonical form.\<close>

definition cached_paths :: "file_env \<Rightarrow> source_manager \<Rightarrow> string set \<Rightarrow> bool" where
  "cached_paths E s P \<longleftrightarrow> 0 < fe_fuel E \<and> (\<forall>p \<in> P. (\<exists>f. sm_files s p = Some f \<and> sf_path f = p \<and> sf_id f = fnvHash p) \<and>
     (fs_canonical (fe_fs E) p = None \<or> fs_canonical (fe_fs E) p = Some p))"

lemma cached_lookup:
  assumes "cached_paths E s P" "p \<in> P"
  shows "\<exists>f. env_getFile E p s = Some (f, s) \<and> sf_path f = p \<and> sf_id f = fnvHash p"
proof -
  obtain k where k: "fe_fuel E = Suc k" using assms(1) gr0_implies_Suc unfolding cached_paths_def by blast
  obtain f where f: "sm_files s p = Some f" "sf_path f = p" "sf_id f = fnvHash p"
    and c: "fs_canonical (fe_fs E) p = None \<or> fs_canonical (fe_fs E) p = Some p"
    using assms unfolding cached_paths_def by blast
  have "env_getFile E p s = Some (f, s)" unfolding env_getFile_def k
  proof (cases "k = 0")
    case True
    then show "getFile (Suc k) (fe_sha1 E) (fe_fs E) p s = Some (f, s)" using getFile_cached [OF f(1) c] by simp
  qed (rule getFile_cached [OF f(1) c])
  then show ?thesis using f by blast
qed

definition changed_files :: "statuses \<Rightarrow> string set" where
  "changed_files st = fst ` {x \<in> set st. snd x = MODIFIED \<or> snd x = DELETED}"

lemma status_files_spec:
  assumes "cached_paths E s (changed_files st)"
  shows "status_files E st s = Some (map (\<lambda>(p, x). if x = MODIFIED \<or> x = DELETED then fnvHash p else 0) st, s)"
  using assms
proof (induction st)
  case (Cons x st)
  obtain p status where x: "x = (p, status)" by (cases x)
  have "changed_files st \<subseteq> changed_files (x # st)" by (auto simp: changed_files_def)
  then have IH: "status_files E st s = Some (map (\<lambda>(p, x). if x = MODIFIED \<or> x = DELETED then fnvHash p else 0) st, s)"
    using Cons by (auto simp: cached_paths_def)
  show ?case
  proof (cases "status = MODIFIED \<or> status = DELETED")
    case True
    then have "p \<in> changed_files (x # st)" by (force simp: changed_files_def x)
    from cached_lookup [OF Cons.prems this] obtain f where "env_getFile E p s = Some (f, s)" "sf_id f = fnvHash p" by blast
    then show ?thesis using True IH by (simp add: x)
  next
    case False
    then show ?thesis using IH by (simp add: x)
  qed
qed simp

lemma changed_files_Cons:
  "changed_files ((p, x) # st) = (if x = MODIFIED \<or> x = DELETED then insert p (changed_files st) else changed_files st)"
  by (force simp: changed_files_def)

lemma status_includers:
  assumes "tables_ok T"
  shows "(\<Union>i \<in> set (map (\<lambda>(p, x). if x = MODIFIED \<or> x = DELETED then fnvHash p else 0) st). set (includers T i)) =
    (\<Union>p \<in> changed_files st. set (includers T (fnvHash p)))"
proof (induction st)
  case Nil
  show ?case by (simp add: changed_files_def)
next
  case (Cons x st)
  then show ?case by (cases x) (simp add: changed_files_Cons includers_0 [OF assms])
qed

text \<open>
  C14: which files an incremental parse additionally counts as changed. The search over inclusions ends, also
  for circular ones; it adds as modified files only files that include a modified or deleted file directly or
  indirectly, and afterwards every file that includes a modified or deleted one has an entry. Then it
  adds the sources of all stored build actions whose command is missing in one of the compilation databases,
  even if another one has it.
\<close>

theorem modified_files_marked:
  assumes ok: "tables_ok T" and cached: "cached_paths E s (changed_files st)"
  shows "\<exists>M A. markModifiedFiles E T regular load inputs st s =
      Some (Inr (st @ map (\<lambda>p. (p, MODIFIED)) M @ map (\<lambda>p. (p, ACTION_CHANGED)) A, s)) \<and>
    distinct (M @ A) \<and> set M \<inter> keys st = {} \<and> set M \<subseteq> (included_rel T)\<^sup>+ `` changed_files st \<and>
    included_rel T `` (changed_files st \<union> set M) \<subseteq> keys st \<union> set M \<and>
    set A = missing_actions T regular load inputs - keys st - set M"
proof -
  let ?is = "map (\<lambda>(p, x). if x = MODIFIED \<or> x = DELETED then fnvHash p else 0) st"
  obtain st1 where st1: "mark_files T ?is st = Some (Inr st1)"
    "only_marks T (file_path T ` (\<Union>i \<in> set ?is. set (includers T i))) st st1" using mark_files_spec [OF ok] by blast
  obtain st2 where st2: "mark_inputs T regular load inputs st1 = Inr st2" "adds (missing_actions T regular load inputs) st1 st2"
    using mark_inputs_spec [OF ok] by blast
  have run: "markModifiedFiles E T regular load inputs st s = Some (Inr (st2, s))"
    by (simp add: markModifiedFiles_def status_files_spec [OF cached] st1(1) st2(1))
  have start: "file_path T ` (\<Union>i \<in> set ?is. set (includers T i)) = included_rel T `` changed_files st"
  proof -
    show ?thesis unfolding status_includers [OF ok] by (auto simp: included_rel_def path_includers_def)
  qed
  obtain M where M: "st1 = st @ map (\<lambda>p. (p, MODIFIED)) M" "distinct M" "set M \<inter> keys st = {}"
    "set M \<subseteq> (included_rel T)\<^sup>* `` (included_rel T `` changed_files st)"
    "included_rel T `` changed_files st \<union> included_rel T `` set M \<subseteq> keys st1"
    using st1(2) unfolding only_marks_def start by blast
  obtain A where A: "st2 = st1 @ map (\<lambda>p. (p, ACTION_CHANGED)) A" "distinct A" "set A = missing_actions T regular load inputs - keys st1"
    using st2(2) unfolding adds_def by blast
  have k: "keys st1 = keys st \<union> set M" using M(1) by force
  have "(included_rel T)\<^sup>* `` (included_rel T `` changed_files st) \<subseteq> (included_rel T)\<^sup>+ `` changed_files st"
    by (auto intro: rtrancl_into_trancl2)
  then have "set M \<subseteq> (included_rel T)\<^sup>+ `` changed_files st" using M(4) by (rule order_trans [rotated])
  moreover have "included_rel T `` (changed_files st \<union> set M) \<subseteq> keys st \<union> set M" using M(5) k by (simp add: Image_Un)
  moreover have "set A = missing_actions T regular load inputs - keys st - set M"
    unfolding A(3) k by blast
  moreover have "distinct (M @ A)" unfolding distinct_append A(3) k using A(2) M(2) by blast
  moreover have "markModifiedFiles E T regular load inputs st s =
      Some (Inr (st @ map (\<lambda>p. (p, MODIFIED)) M @ map (\<lambda>p. (p, ACTION_CHANGED)) A, s))"
    using run M(1) A(1) by (simp only: append_assoc)
  ultimately show ?thesis using M(3) by (intro exI [of _ M] exI [of _ A] conjI)
qed

definition test_tables :: cleanup_tables where
  "test_tables = \<lparr>ct_files = [test_stored ''a.h'', test_stored ''b.cpp'', test_stored ''c.cpp''],
     ct_inclusions = [\<lparr>hi_includer = fnvHash ''b.cpp'', hi_included = fnvHash ''a.h''\<rparr>],
     ct_nodes = [], ct_entities = [], ct_inheritance = [], ct_friendship = [], ct_edges = [],
     ct_actions = [\<lparr>ba_id = 1, ba_command = ''gcc b.cpp'', ba_type = Compile_Action\<rparr>,
       \<lparr>ba_id = 2, ba_command = ''gcc c.cpp'', ba_type = Compile_Action\<rparr>],
     ct_sources = [(fnvHash ''b.cpp'', 1), (fnvHash ''c.cpp'', 2)], ct_targets = []\<rparr>"

definition test_cache :: source_manager where
  "test_cache = empty_manager\<lparr>sm_files := [''a.h'' \<mapsto> test_stored ''a.h'']\<rparr>"

definition one_command :: "string \<Rightarrow> compile_command" where
  "one_command f = \<lparr>cc_directory = [], cc_filename = f, cc_command_line = [''gcc'', f]\<rparr>"

text \<open>Both stored commands are still there, each in one of the two inputs.\<close>

theorem modified_files_marked_witness:
  "\<exists>M A. markModifiedFiles (test_file_env []\<lparr>fe_fuel := 1\<rparr>) test_tables (\<lambda>_. True)
      (\<lambda>i. if i = ''x'' then Some [one_command ''b.cpp''] else Some [one_command ''c.cpp'']) [''x'', ''y'']
      [(''a.h'', MODIFIED)] test_cache =
      Some (Inr ([(''a.h'', MODIFIED)] @ map (\<lambda>p. (p, MODIFIED)) M @ map (\<lambda>p. (p, ACTION_CHANGED)) A, test_cache)) \<and>
    ''b.cpp'' \<in> set M \<and> ''c.cpp'' \<in> set M \<union> set A"
proof -
  let ?E = "test_file_env []\<lparr>fe_fuel := 1\<rparr>" and ?load = "\<lambda>i. if i = ''x'' then Some [one_command ''b.cpp''] else Some [one_command ''c.cpp'']"
  have ok: "tables_ok test_tables" by code_simp
  have ch: "changed_files [(''a.h'', MODIFIED)] = {''a.h''}" by (simp add: changed_files_Cons) (simp add: changed_files_def)
  have cached: "cached_paths ?E test_cache (changed_files [(''a.h'', MODIFIED)])"
    by (simp add: ch cached_paths_def test_file_env_def test_cache_def test_stored_def)
  have b: "path_includers test_tables ''a.h'' = [''b.cpp'']" by code_simp
  have c: "file_path test_tables (fnvHash ''c.cpp'') = ''c.cpp''" by code_simp
  have "\<lparr>ba_id = 2, ba_command = ''gcc c.cpp'', ba_type = Compile_Action\<rparr> \<in> set (ct_actions test_tables)"
    "(fnvHash ''c.cpp'', ba_id \<lparr>ba_id = 2, ba_command = ''gcc c.cpp'', ba_type = Compile_Action\<rparr>) \<in> set (ct_sources test_tables)"
    by (simp_all add: test_tables_def)
  moreover have "ba_command \<lparr>ba_id = 2, ba_command = ''gcc c.cpp'', ba_type = Compile_Action\<rparr> \<notin> command_texts [one_command ''b.cpp'']"
    by code_simp
  ultimately have m: "''c.cpp'' \<in> missing_actions test_tables (\<lambda>_. True) ?load [''x'', ''y'']"
    unfolding missing_actions_def using c by (intro CollectI exI [of _ "fnvHash ''c.cpp''"]) (force intro: exI [of _ "''x''"])
  from modified_files_marked [OF ok cached, of "\<lambda>_. True" ?load "[''x'', ''y'']"] obtain M A where
    r: "markModifiedFiles ?E test_tables (\<lambda>_. True) ?load [''x'', ''y''] [(''a.h'', MODIFIED)] test_cache =
      Some (Inr ([(''a.h'', MODIFIED)] @ map (\<lambda>p. (p, MODIFIED)) M @ map (\<lambda>p. (p, ACTION_CHANGED)) A, test_cache))"
    and cl: "included_rel test_tables `` ({''a.h''} \<union> set M) \<subseteq> keys [(''a.h'', MODIFIED)] \<union> set M"
    and A: "set A = missing_actions test_tables (\<lambda>_. True) ?load [''x'', ''y''] - keys [(''a.h'', MODIFIED)] - set M"
    unfolding ch by blast
  have "''b.cpp'' \<in> set M" using cl b by (auto simp: included_rel_def)
  moreover have "''c.cpp'' \<in> set M \<union> set A" using A m by simp
  ultimately show ?thesis using r by blast
qed

section \<open>When there is an order\<close>

lemma edges_into_spec:
  assumes "set is \<subseteq> sf_id ` set (ct_files T)" "sf_path file \<in> set vs"
  shows "edges_into T vs file is =
    (if file_path T ` set is \<subseteq> set vs then Inr (map (\<lambda>i. (file_path T i, sf_path file)) is) else Inl Out_Of_Range)"
  using assms
proof (induction "is")
  case (Cons i "is")
  obtain f where f: "load_file T i = Some f" using load_file_ok [of i T] Cons.prems by auto
  then show ?case using Cons by (auto simp: file_path_def)
qed simp

definition order_edges :: "cleanup_tables \<Rightarrow> string list \<Rightarrow> (string \<times> string) list" where
  "order_edges T paths = concat (map (\<lambda>p. map (\<lambda>q. (q, p)) (path_includers T p)) paths)"

lemma order_edges_Cons [simp]:
  "order_edges T [] = []"
  "order_edges T (p # paths) = map (\<lambda>q. (q, p)) (path_includers T p) @ order_edges T paths"
  by (simp_all add: order_edges_def)

lemma inclusion_edges_spec:
  assumes ok: "tables_ok T" and "cached_paths E s (set paths)" "set paths \<subseteq> set vs"
  shows "inclusion_edges E T vs paths s =
    (if included_rel T `` set paths \<subseteq> set vs then Some (Inr (order_edges T paths)) else Some (Inl Out_Of_Range))"
  using assms(2,3)
proof (induction paths)
  case Nil
  show ?case by simp
next
  case (Cons p paths)
  have "cached_paths E s (set paths)" using Cons.prems(1) by (simp add: cached_paths_def)
  then have IH: "inclusion_edges E T vs paths s =
    (if included_rel T `` set paths \<subseteq> set vs then Some (Inr (order_edges T paths)) else Some (Inl Out_Of_Range))"
    using Cons by simp
  obtain f where f: "env_getFile E p s = Some (f, s)" "sf_path f = p" "sf_id f = fnvHash p"
    using cached_lookup [OF Cons.prems(1), of p] by auto
  have e: "edges_into T vs f (includers T (fnvHash p)) =
      (if set (path_includers T p) \<subseteq> set vs then Inr (map (\<lambda>q. (q, p)) (path_includers T p)) else Inl Out_Of_Range)"
    using edges_into_spec [OF includers_ok [OF ok]] Cons.prems(2) f(2) by (simp add: path_includers_def comp_def)
  have r: "included_rel T `` set (p # paths) = set (path_includers T p) \<union> included_rel T `` set paths"
    by (auto simp: included_rel_def)
  show ?case unfolding r by (simp add: f e IH)
qed

text \<open>
  C17: there is a clean-up order exactly if every file that includes a file with a status has a status itself;
  otherwise a lookup throws an exception that nothing catches. The order contains every file once, and each
  file comes after all that include it, unless the inclusions are circular.
\<close>

theorem cleanup_order_exists:
  assumes ok: "tables_ok T" and cached: "cached_paths E s (keys st)"
  shows "(createCleanupOrder E T True st s = Some (Inl Out_Of_Range) \<longleftrightarrow> \<not> included_rel T `` keys st \<subseteq> keys st) \<and>
    (included_rel T `` keys st \<subseteq> keys st \<longrightarrow>
      (\<exists>levels. createCleanupOrder E T True st s = Some (Inr levels) \<and> mset (concat levels) = mset (map fst st) \<and>
        (\<forall>(p, q) \<in> included_rel T. p \<in> keys st \<longrightarrow> earlier levels q p \<or> \<not> acyclic (included_rel T))))"
proof -
  let ?vs = "sort (map fst st)" and ?es = "order_edges T (map fst st)"
  have e: "inclusion_edges E T ?vs (map fst st) s =
      (if included_rel T `` keys st \<subseteq> keys st then Some (Inr ?es) else Some (Inl Out_Of_Range))"
    using inclusion_edges_spec [OF ok, of E s "map fst st" ?vs] cached by simp
  have es: "set ?es = {(q, p). p \<in> keys st \<and> (p, q) \<in> included_rel T}"
    by (force simp: order_edges_def included_rel_def)
  show ?thesis
  proof (cases "included_rel T `` keys st \<subseteq> keys st")
    case False
    then show ?thesis using e by (simp add: createCleanupOrder_def Let_def)
  next
    case True
    let ?levels = "cleanup_levels ?vs ?es"
    have run: "createCleanupOrder E T True st s = Some (Inr ?levels)" using True e by (simp add: createCleanupOrder_def Let_def)
    have ends: "q \<in> keys st \<and> p \<in> keys st" if "(q, p) \<in> set ?es" for q p using that True unfolding es by blast
    have in_vs: "fst ` set ?es \<union> snd ` set ?es \<subseteq> set ?vs"
    proof (intro Un_least image_subsetI)
      fix e assume "e \<in> set ?es"
      then show "fst e \<in> set ?vs" "snd e \<in> set ?vs" using ends [of "fst e" "snd e"] by simp_all
    qed
    have perm: "mset (concat ?levels) = mset (map fst st)" using levels_perm [of ?vs ?es] by simp
    have sub: "set ?es \<subseteq> (included_rel T)\<inverse>" by (auto simp: es)
    have "earlier ?levels q p \<or> \<not> acyclic (included_rel T)" if pq: "(p, q) \<in> included_rel T" "p \<in> keys st" for p q
    proof -
      have "(q, p) \<in> set ?es" using pq by (simp add: es)
      from levels_edges [OF in_vs this] circular_cycle [of ?levels ?es q p]
      have "earlier ?levels q p \<or> \<not> acyclic (set ?es)" by (elim disjE) simp_all
      then show ?thesis using acyclic_subset [OF _ sub] by (auto simp: acyclic_converse)
    qed
    then show ?thesis using run perm True by auto
  qed
qed

theorem cleanup_order_exists_witness:
  "createCleanupOrder (test_file_env []\<lparr>fe_fuel := 1\<rparr>) test_tables True [(''a.h'', ACTION_CHANGED)] test_cache = Some (Inl Out_Of_Range)"
proof -
  let ?E = "test_file_env []\<lparr>fe_fuel := 1\<rparr>"
  have ok: "tables_ok test_tables" by code_simp
  have cached: "cached_paths ?E test_cache (keys [(''a.h'', ACTION_CHANGED)])"
    by (simp add: cached_paths_def test_file_env_def test_cache_def test_stored_def)
  have "path_includers test_tables ''a.h'' = [''b.cpp'']" by code_simp
  then have "\<not> included_rel test_tables `` keys [(''a.h'', ACTION_CHANGED)] \<subseteq> keys [(''a.h'', ACTION_CHANGED)]"
    by (simp add: included_rel_def)
  with cleanup_order_exists [OF ok cached] show ?thesis by blast
qed

section \<open>What is removed\<close>

text \<open>Specification: the tables without everything that belongs to a set of files.\<close>

definition nodes_in :: "64 word set \<Rightarrow> cleanup_tables \<Rightarrow> ast_node set" where
  "nodes_in F T = {n \<in> set (ct_nodes T). \<exists>i \<in> F. an_file n = Some (unat i)}"

definition actions_in :: "64 word set \<Rightarrow> cleanup_tables \<Rightarrow> nat set" where
  "actions_in F T = {a. \<exists>i \<in> F. (i, a) \<in> set (ct_sources T)}"

definition defined_in :: "64 word set \<Rightarrow> cleanup_tables \<Rightarrow> nat set" where
  "defined_in F T = an_hash ` {n \<in> nodes_in F T. an_type n = Definition_Node}"

definition cleaned :: "64 word set \<Rightarrow> cleanup_tables \<Rightarrow> cleanup_tables" where
  "cleaned F T = T\<lparr>
     ct_entities := filter (\<lambda>e. en_astNodeId e \<notin> an_id ` nodes_in F T) (ct_entities T),
     ct_inheritance := filter (\<lambda>r. ih_derived r \<notin> defined_in F T) (ct_inheritance T),
     ct_friendship := filter (\<lambda>r. fs_target r \<notin> defined_in F T) (ct_friendship T),
     ct_edges := filter (\<lambda>e. ed_from e \<notin> unat ` F) (ct_edges T),
     ct_actions := filter (\<lambda>a. ba_id a \<notin> actions_in F T) (ct_actions T),
     ct_sources := filter (\<lambda>x. snd x \<notin> actions_in F T) (ct_sources T),
     ct_targets := filter (\<lambda>x. snd x \<notin> actions_in F T) (ct_targets T)\<rparr>"

definition rows_ok :: "cleanup_tables \<Rightarrow> bool" where
  "rows_ok T \<longleftrightarrow> distinct (ct_sources T) \<and> snd ` set (ct_sources T) \<subseteq> ba_id ` set (ct_actions T)"

lemma clean_nodes:
  "fold clean_node ns T = T\<lparr>
     ct_entities := filter (\<lambda>e. en_astNodeId e \<notin> an_id ` set ns) (ct_entities T),
     ct_inheritance := filter (\<lambda>r. ih_derived r \<notin> an_hash ` {n \<in> set ns. an_type n = Definition_Node}) (ct_inheritance T),
     ct_friendship := filter (\<lambda>r. fs_target r \<notin> an_hash ` {n \<in> set ns. an_type n = Definition_Node}) (ct_friendship T)\<rparr>"
proof (induction ns arbitrary: T)
  case (Cons n ns)
  have im: "an_hash ` {m \<in> set (n # ns). an_type m = Definition_Node} =
      (if an_type n = Definition_Node then {an_hash n} else {}) \<union> an_hash ` {m \<in> set ns. an_type m = Definition_Node}" by auto
  have e: "fold clean_node (n # ns) T = fold clean_node ns (clean_node n T)" by simp
  show ?case unfolding e Cons.IH im
    by (cases "an_type n = Definition_Node") (simp_all add: clean_node_def Let_def)
qed simp

lemma erase_actions_spec:
  assumes "distinct as" "set as \<subseteq> ba_id ` set (ct_actions T)"
  shows "erase_actions as T = Inr (T\<lparr>ct_actions := filter (\<lambda>b. ba_id b \<notin> set as) (ct_actions T),
     ct_sources := filter (\<lambda>x. snd x \<notin> set as) (ct_sources T), ct_targets := filter (\<lambda>x. snd x \<notin> set as) (ct_targets T)\<rparr>)"
  using assms
proof (induction as arbitrary: T)
  case (Cons a as)
  let ?T = "T\<lparr>ct_actions := filter (\<lambda>b. ba_id b \<noteq> a) (ct_actions T), ct_sources := filter (\<lambda>(i, b). b \<noteq> a) (ct_sources T),
      ct_targets := filter (\<lambda>(i, b). b \<noteq> a) (ct_targets T)\<rparr>"
  have "b \<in> ba_id ` set (ct_actions ?T)" if "b \<in> set as" for b
  proof -
    have "b \<noteq> a" "b \<in> ba_id ` set (ct_actions T)" using Cons.prems that by auto
    then show ?thesis by auto
  qed
  then have "set as \<subseteq> ba_id ` set (ct_actions ?T)" by blast
  from Cons.IH [OF _ this] Cons.prems show ?case by (simp add: case_prod_beta conj_commute)
qed simp

lemma clean_file_spec:
  assumes "rows_ok T"
  shows "clean_file i T = Inr (cleaned {i} T)"
proof -
  let ?as = "map snd (filter (\<lambda>(j, a). j = i) (ct_sources T))"
  have as: "distinct ?as" "set ?as \<subseteq> ba_id ` set (ct_actions T)" "set ?as = actions_in {i} T"
    using assms by (auto simp: rows_ok_def distinct_map inj_on_def actions_in_def) force
  have n: "set (file_nodes T i) = nodes_in {i} T" by (auto simp: file_nodes_def nodes_in_def)
  show ?thesis
    using erase_actions_spec [OF as(1), of "fold clean_node (file_nodes T i) T"] as(2,3)
    by (simp add: clean_file_def Let_def clean_nodes n cleaned_def defined_in_def)
qed

lemma cleaned_rows_ok: "rows_ok T \<Longrightarrow> rows_ok (cleaned F T)"
  by (force simp: rows_ok_def cleaned_def)

lemma cleaned_cleaned: "cleaned F (cleaned {i} T) = cleaned (insert i F) T"
proof -
  have n: "nodes_in G (cleaned {i} T) = nodes_in G T" for G by (simp add: nodes_in_def cleaned_def)
  have d: "defined_in G (cleaned {i} T) = defined_in G T" for G by (simp add: defined_in_def n)
  have a: "actions_in F (cleaned {i} T) \<union> actions_in {i} T = actions_in (insert i F) T"
    by (auto simp: actions_in_def cleaned_def)
  have n': "nodes_in (insert i F) T = nodes_in F T \<union> nodes_in {i} T" by (auto simp: nodes_in_def)
  then have d': "defined_in (insert i F) T = defined_in F T \<union> defined_in {i} T" by (auto simp: defined_in_def)
  show ?thesis unfolding cleaned_def [of F] cleaned_def [of "insert i F"] n d a [symmetric] n' d'
    by (simp add: cleaned_def conj_commute image_Un)
qed

lemma cleaned_empty: "cleaned {} T = T"
  by (simp add: cleaned_def nodes_in_def defined_in_def actions_in_def)

text \<open>The files whose rows a run removes.\<close>

definition removed_ids :: "(string \<Rightarrow> transaction_outcome) \<Rightarrow> statuses \<Rightarrow> string set \<Rightarrow> 64 word set" where
  "removed_ids outcome st P = fnvHash ` {p \<in> P. outcome p = Committed \<and> status_of st p \<noteq> ADDED}"

lemma run_cleanup_spec:
  assumes "rows_ok T" "cached_paths E s (set paths)"
  shows "run_cleanup E outcome st s paths ok T =
    Some (Inr (ok \<and> list_all (\<lambda>p. outcome p \<noteq> Database_Exception) paths, cleaned (removed_ids outcome st (set paths)) T))"
  using assms
proof (induction paths arbitrary: ok T)
  case Nil
  show ?case by (simp add: removed_ids_def cleaned_empty)
next
  case (Cons p paths)
  have sub: "cached_paths E s (set paths)" using Cons.prems(2) by (simp add: cached_paths_def)
  obtain f where f: "env_getFile E p s = Some (f, s)" "sf_id f = fnvHash p"
    using cached_lookup [OF Cons.prems(2), of p] by auto
  show ?case
  proof (cases "outcome p = Committed \<and> status_of st p \<noteq> ADDED")
    case True
    have "cleanupWorker E outcome st p s T = Some (Inr (True, cleaned {fnvHash p} T))"
      using True f clean_file_spec [OF Cons.prems(1)] by (simp add: cleanupWorker_def cleanup_attempt_def)
    moreover have "removed_ids outcome st (set (p # paths)) = insert (fnvHash p) (removed_ids outcome st (set paths))"
      using True by (auto simp: removed_ids_def)
    ultimately show ?thesis
      using Cons.IH [OF cleaned_rows_ok [OF Cons.prems(1)] sub] True by (simp add: cleaned_cleaned)
  next
    case False
    then have "cleanupWorker E outcome st p s T = Some (Inr (outcome p \<noteq> Database_Exception, T))"
      using f by (cases "outcome p") (auto simp: cleanupWorker_def cleanup_attempt_def maxTries_def)
    moreover have "removed_ids outcome st (set (p # paths)) = removed_ids outcome st (set paths)"
      using False by (auto simp: removed_ids_def)
    ultimately show ?thesis using Cons.IH [OF Cons.prems(1) sub] by simp
  qed
qed

text \<open>
  C3: the clean-up has the same result in whichever order the workers take the files of a level: it removes
  exactly the entities, the relations of definitions, the build actions with their sources and targets, and
  the outgoing edges of the files whose transaction is committed, and nothing else. It reports failure only
  for a database exception: a file whose transaction runs into a deadlock is left as it is, is not tried
  again, and counts as a success.
\<close>

theorem cleanup_any_schedule:
  assumes "rows_ok T" "cached_paths E s (keys st)" "mset (concat levels) = mset (map fst st)" "level_schedule levels trace"
  shows "run_cleanup E outcome st s trace True T =
    Some (Inr (list_all (\<lambda>p. outcome p \<noteq> Database_Exception) (map fst st), cleaned (removed_ids outcome st (keys st)) T))"
proof -
  obtain ls where ls: "list_all2 (\<lambda>l l'. mset l' = mset l) levels ls" "trace = concat ls"
    using assms(4) unfolding level_schedule_def by blast
  have "mset (concat ls) = mset (concat levels)" using ls(1) by (induction rule: list_all2_induct) simp_all
  then have m: "mset trace = mset (map fst st)" using ls(2) assms(3) by simp
  then have k: "set trace = keys st" by (metis set_map set_mset_mset)
  then show ?thesis using run_cleanup_spec [OF assms(1), of E s trace] assms(2) by (simp add: list_all_iff)
qed

theorem cleanup_any_schedule_witness:
  "run_cleanup (test_file_env []\<lparr>fe_fuel := 1\<rparr>) (\<lambda>_. Deadlock) [(''a.h'', MODIFIED)] test_cache [''a.h''] True test_tables =
     Some (Inr (True, test_tables))"
proof -
  let ?E = "test_file_env []\<lparr>fe_fuel := 1\<rparr>"
  have ok: "rows_ok test_tables" by code_simp
  have cached: "cached_paths ?E test_cache (keys [(''a.h'', MODIFIED)])"
    by (simp add: cached_paths_def test_file_env_def test_cache_def test_stored_def)
  have "level_schedule [[''a.h'']] [''a.h'']" by (auto simp: level_schedule_def intro: exI [of _ "[[''a.h'']]"])
  from cleanup_any_schedule [OF ok cached _ this, of "\<lambda>_. Deadlock"] show ?thesis
    by (simp add: removed_ids_def cleaned_empty)
qed

end
