(* ===== verification/CppSymbols.thy ===== *)
theory CppSymbols
  imports CppString
begin

text \<open>
  The pure helpers of the C++ parser: \<^verbatim>\<open>symbolhelper.cpp\<close> (types and signatures) and
  \<^verbatim>\<open>doccommentformatter.cpp\<close> (documentation comments to Markdown), under \<^verbatim>\<open>plugins/cpp/parser/src\<close>. Clang's
  types are a parameter: what the loops ask of them; its comment tree is a datatype.
\<close>

section \<open>Types\<close>

record 't clang_types =
  ty_is_typedef :: "'t \<Rightarrow> bool"
  ty_paren :: "'t \<Rightarrow> 't option"
  ty_array :: "'t \<Rightarrow> 't option"
  ty_pointee :: "'t \<Rightarrow> 't option"
  ty_is_pointer :: "'t \<Rightarrow> bool"
  ty_is_reference :: "'t \<Rightarrow> bool"
  ty_is_function :: "'t \<Rightarrow> bool"
  ty_is_function_pointer :: "'t \<Rightarrow> bool"
  ty_is_void_pointer :: "'t \<Rightarrow> bool"

text \<open>
  The inner type of a parenthesised type and the element type of an array; the outer option says whether the
  type is of that kind at all. A pointee may be null, and so may the type itself.
\<close>

partial_function (option) strip_type :: "'t clang_types \<Rightarrow> 't option \<Rightarrow> 't option option" where
  "strip_type C t =
     (case t of
        None \<Rightarrow> Some None
      | Some x \<Rightarrow>
          if ty_is_typedef C x then Some (Some x)
          else
            case ty_paren C x of
              Some inner \<Rightarrow> strip_type C (Some inner)
            | None \<Rightarrow>
                if ty_is_reference C x \<or> ty_is_pointer C x then strip_type C (ty_pointee C x)
                else
                  case ty_array C x of
                    Some element \<Rightarrow> strip_type C (Some element)
                  | None \<Rightarrow> Some (Some x))"

partial_function (option) isFunction :: "'t clang_types \<Rightarrow> 't option \<Rightarrow> bool option" where
  "isFunction C t =
     (case t of
        None \<Rightarrow> Some False
      | Some x \<Rightarrow>
          if ty_is_function C x \<or> ty_is_function_pointer C x \<or> ty_is_void_pointer C x then Some True
          else
            case ty_paren C x of
              Some inner \<Rightarrow> isFunction C (Some inner)
            | None \<Rightarrow>
                (case ty_array C x of
                   Some element \<Rightarrow> isFunction C (Some element)
                 | None \<Rightarrow>
                     if ty_is_pointer C x \<or> ty_is_reference C x then isFunction C (ty_pointee C x)
                     else Some False))"

section \<open>Signatures\<close>

definition removeSubstring :: "string \<Rightarrow> string \<Rightarrow> string" where
  "removeSubstring str what =
     (case strstr str what of None \<Rightarrow> str | Some pos \<Rightarrow> take pos str @ drop (pos + length what) str)"

definition type_text :: "string \<Rightarrow> string" where
  "type_text t = removeSubstring (removeSubstring t ''struct '') ''class ''"

datatype ref_qualifier = RQ_None | RQ_LValue | RQ_RValue

text \<open>What the signature is made of; the last group only for a method whose type is a function type.\<close>

record method_quals =
  mq_const :: bool
  mq_volatile :: bool
  mq_restrict :: bool
  mq_prototype :: "ref_qualifier option"

record function_decl =
  fd_special :: bool
  fd_returnType :: string
  fd_qualifiedName :: string
  fd_params :: "string list"
  fd_variadic :: bool
  fd_method :: "method_quals option"

fun params_text :: "string list \<Rightarrow> string" where
  "params_text [] = []"
| "params_text [p] = type_text p"
| "params_text (p # ps) = type_text p @ '', '' @ params_text ps"

definition quals_text :: "method_quals \<Rightarrow> string" where
  "quals_text q =
     (if mq_const q then '' const'' else []) @ (if mq_volatile q then '' volatile'' else []) @
     (if mq_restrict q then '' restrict'' else []) @
     (case mq_prototype q of Some RQ_LValue \<Rightarrow> '' &'' | Some RQ_RValue \<Rightarrow> '' &&'' | _ \<Rightarrow> [])"

definition getSignature :: "function_decl option \<Rightarrow> string" where
  "getSignature fn =
     (case fn of
        None \<Rightarrow> []
      | Some f \<Rightarrow>
          (if fd_special f then [] else type_text (fd_returnType f) @ '' '') @
          fd_qualifiedName f @ ''('' @ params_text (fd_params f) @
          (if fd_variadic f then '', ...'' else []) @ '')'' @
          (case fd_method f of None \<Rightarrow> [] | Some q \<Rightarrow> quals_text q))"

section \<open>Documentation comments\<close>

datatype render_kind = RenderNormal | RenderBold | RenderMonospaced | RenderEmphasized

datatype inline_comment =
    Text_Comment string
  | Inline_Command render_kind "string list"
  | HTML_Start_Tag string "(string \<times> string) list" bool
  | HTML_End_Tag string

record paragraph_comment =
  pc_inline :: "inline_comment list"
  pc_whitespace :: bool

datatype command_kind = Brief_Command | Headerfile_Command | Returns_Command | Throws_Command | Other_Command

datatype param_direction = In_Param | Out_Param | InOut_Param

text \<open>
  A parameter command has a name as written (None if it has none), the name of the parameter it documents if
  there is such a parameter, and says whether its direction is explicit. A verbatim line says whether its
  command declares something.
\<close>

datatype block_comment =
    No_Comment
  | Paragraph paragraph_comment
  | Block_Command command_kind paragraph_comment
  | Param_Command "string option" "string option" param_direction bool paragraph_comment
  | TParam_Command "string option" paragraph_comment
  | Verbatim_Block "string list"
  | Verbatim_Line string bool
  | Unexpected_Comment

definition ltrim :: "string \<Rightarrow> string" where
  "ltrim = dropWhile isspace"

fun visit_inline :: "inline_comment \<Rightarrow> string" where
  "visit_inline (Text_Comment t) = ltrim t @ '' ''"
| "visit_inline (Inline_Command kind args) =
     (case args of
        [] \<Rightarrow> []
      | arg0 # _ \<Rightarrow>
          if arg0 = [] then []
          else
            case kind of
              RenderNormal \<Rightarrow> concat (map (\<lambda>a. a @ '' '') args)
            | RenderBold \<Rightarrow> ''**'' @ arg0 @ ''**''
            | RenderMonospaced \<Rightarrow> ''`'' @ arg0 @ ''`''
            | RenderEmphasized \<Rightarrow> ''*'' @ arg0 @ ''*'')"
| "visit_inline (HTML_Start_Tag tag attrs selfClosing) =
     ''<'' @ tag @
     concat (map (\<lambda>(name, value). '' '' @ name @ (if value \<noteq> [] then ''='' @ [CHR 0x22] @ value @ [CHR 0x22] else [])) attrs) @
     (if \<not> selfClosing then ''>'' else ''/>'')"
| "visit_inline (HTML_End_Tag tag) = ''</'' @ tag @ ''>''"

text \<open>\<open>visitNonStandaloneParagraphComment\<close> and \<open>visitParagraphComment\<close>.\<close>

definition visit_children :: "paragraph_comment \<Rightarrow> string" where
  "visit_children p = concat (map visit_inline (pc_inline p))"

definition visit_paragraph :: "paragraph_comment \<Rightarrow> string" where
  "visit_paragraph p = (if pc_whitespace p then [] else visit_children p)"

fun join_lines :: "string list \<Rightarrow> string" where
  "join_lines [] = []"
| "join_lines [l] = l"
| "join_lines (l # ls) = l @ [LF] @ join_lines ls"

fun visit_block :: "block_comment \<Rightarrow> string" where
  "visit_block (Paragraph p) = visit_paragraph p"
| "visit_block (Block_Command kind p) =
     (if kind = Brief_Command \<or> kind = Returns_Command then visit_children p else visit_paragraph p)"
| "visit_block (Param_Command written valid direction explicit p) =
     (case direction of In_Param \<Rightarrow> ''- *in*: '' | Out_Param \<Rightarrow> ''- *out*: '' | InOut_Param \<Rightarrow> ''- *in,out*: '') @
     ''**'' @ (case valid of Some name \<Rightarrow> name | None \<Rightarrow> (case written of Some name \<Rightarrow> name | None \<Rightarrow> [])) @ ''** '' @
     visit_paragraph p @ [LF]"
| "visit_block (TParam_Command written p) =
     ''- **'' @ (case written of Some name \<Rightarrow> name | None \<Rightarrow> []) @ ''**: '' @ visit_children p @ [LF]"
| "visit_block (Verbatim_Block lines) =
     (if lines = [] then [] else ''```'' @ [LF] @ join_lines lines @ [LF] @ ''```'')"
| "visit_block (Verbatim_Line t declaration) = ''`'' @ t @ ''`''"
| "visit_block No_Comment = []"
| "visit_block Unexpected_Comment = []"

text \<open>
  The parts of a comment. The blocks are numbered, and a number stands for the pointer to a block; a first
  paragraph is also one of the other blocks.
\<close>

record comment_parts =
  cp_brief :: "block_comment option"
  cp_headerfile :: "block_comment option"
  cp_firstParagraph :: "(nat \<times> paragraph_comment) option"
  cp_returns :: "block_comment list"
  cp_params :: "block_comment list"
  cp_tParams :: "block_comment list"
  cp_exceptions :: "block_comment list"
  cp_miscBlocks :: "(nat \<times> block_comment) list"

definition no_parts :: comment_parts where
  "no_parts = \<lparr>cp_brief = None, cp_headerfile = None, cp_firstParagraph = None, cp_returns = [], cp_params = [],
     cp_tParams = [], cp_exceptions = [], cp_miscBlocks = []\<rparr>"

definition add_block_command :: "nat \<Rightarrow> command_kind \<Rightarrow> block_comment \<Rightarrow> comment_parts \<Rightarrow> comment_parts" where
  "add_block_command n kind c parts =
     (if cp_brief parts = None \<and> kind = Brief_Command then parts\<lparr>cp_brief := Some c\<rparr>
      else if cp_headerfile parts = None \<and> kind = Headerfile_Command then parts\<lparr>cp_headerfile := Some c\<rparr>
      else if kind = Returns_Command then parts\<lparr>cp_returns := cp_returns parts @ [c]\<rparr>
      else if kind = Throws_Command then parts\<lparr>cp_exceptions := cp_exceptions parts @ [c]\<rparr>
      else parts\<lparr>cp_miscBlocks := cp_miscBlocks parts @ [(n, c)]\<rparr>)"

fun add_part :: "nat \<times> block_comment \<Rightarrow> comment_parts \<Rightarrow> comment_parts" where
  "add_part (n, Paragraph p) parts =
     (if pc_whitespace p then parts
      else parts\<lparr>cp_firstParagraph := (if cp_firstParagraph parts = None then Some (n, p) else cp_firstParagraph parts),
             cp_miscBlocks := cp_miscBlocks parts @ [(n, Paragraph p)]\<rparr>)"
| "add_part (n, Block_Command kind p) parts = add_block_command n kind (Block_Command kind p) parts"
| "add_part (n, Param_Command written valid direction explicit p) parts =
     (if written = None then parts
      else if \<not> explicit \<and> pc_whitespace p then parts
      else parts\<lparr>cp_params := cp_params parts @ [Param_Command written valid direction explicit p]\<rparr>)"
| "add_part (n, TParam_Command written p) parts =
     (if written = None then parts
      else if pc_whitespace p then parts
      else parts\<lparr>cp_tParams := cp_tParams parts @ [TParam_Command written p]\<rparr>)"
| "add_part (n, Verbatim_Block lines) parts =
     parts\<lparr>cp_miscBlocks := cp_miscBlocks parts @ [(n, Verbatim_Block lines)]\<rparr>"
| "add_part (n, Verbatim_Line t declaration) parts =
     (if declaration then parts else parts\<lparr>cp_miscBlocks := cp_miscBlocks parts @ [(n, Verbatim_Line t declaration)]\<rparr>)"
| "add_part (n, No_Comment) parts = parts"
| "add_part (n, Unexpected_Comment) parts = parts"

definition FullCommentParts :: "block_comment list \<Rightarrow> comment_parts" where
  "FullCommentParts cs = fold add_part (enumerate 0 cs) no_parts"

definition visit_misc :: "nat option \<Rightarrow> (nat \<times> block_comment) list \<Rightarrow> string" where
  "visit_misc skip blocks =
     concat (map (\<lambda>(n, c). if skip = Some n then [] else visit_block c @ [LF, LF]) blocks)"

definition titled :: "string \<Rightarrow> block_comment list \<Rightarrow> string" where
  "titled title blocks =
     (if blocks = [] then [] else [LF] @ ''**'' @ title @ '':**'' @ [LF] @ concat (map visit_block blocks))"

text \<open>\<open>visitFullComment\<close>.\<close>

definition format_parts :: "comment_parts \<Rightarrow> string" where
  "format_parts parts =
     (case cp_headerfile parts of None \<Rightarrow> [] | Some c \<Rightarrow> visit_block c) @
     (case cp_brief parts of
        Some c \<Rightarrow> visit_block c @ visit_misc None (cp_miscBlocks parts)
      | None \<Rightarrow>
          (case cp_firstParagraph parts of
             None \<Rightarrow> visit_misc None (cp_miscBlocks parts)
           | Some (n, p) \<Rightarrow> visit_children p @ [LF, LF] @ visit_misc (Some n) (cp_miscBlocks parts))) @
     titled ''Template parameters'' (cp_tParams parts) @ titled ''Parameters'' (cp_params parts) @
     titled ''Return'' (cp_returns parts)"

definition format_comment :: "block_comment list \<Rightarrow> string" where
  "format_comment cs = format_parts (FullCommentParts cs)"

section \<open>The loops over types end\<close>

text \<open>Inner types are smaller: a type is a finite term.\<close>

definition types_finite :: "'t clang_types \<Rightarrow> ('t \<Rightarrow> nat) \<Rightarrow> bool" where
  "types_finite C size_of \<longleftrightarrow>
     (\<forall>x y. ty_paren C x = Some y \<or> ty_array C x = Some y \<or> ty_pointee C x = Some y \<longrightarrow> size_of y < size_of x)"

text \<open>Neither a pointer nor a reference, an array or a parenthesised type, unless a typedef hides it.\<close>

definition stripped :: "'t clang_types \<Rightarrow> 't \<Rightarrow> bool" where
  "stripped C x \<longleftrightarrow> ty_is_typedef C x \<or>
     (ty_paren C x = None \<and> \<not> ty_is_reference C x \<and> \<not> ty_is_pointer C x \<and> ty_array C x = None)"

lemma strip_type_stripped:
  assumes fin: "types_finite C size_of"
  shows "\<exists>r. strip_type C t = Some r \<and> (\<forall>x. r = Some x \<longrightarrow> stripped C x)"
proof (induction "case t of None \<Rightarrow> 0 | Some x \<Rightarrow> Suc (size_of x)" arbitrary: t rule: less_induct)
  case less
  show ?case
  proof (cases t)
    case None
    then show ?thesis by (simp add: strip_type.simps)
  next
    case (Some x)
    have step: "\<exists>r. strip_type C (Some y) = Some r \<and> (\<forall>x. r = Some x \<longrightarrow> stripped C x)"
      if "ty_paren C x = Some y \<or> ty_array C x = Some y \<or> ty_pointee C x = Some y" for y
      by (rule less) (use that fin in \<open>auto simp: types_finite_def Some\<close>)
    have none: "strip_type C None = Some None" by (simp add: strip_type.simps)
    show ?thesis
      using step none unfolding Some by (subst strip_type.simps) (auto simp: stripped_def split: option.split; cases "ty_pointee C x"; auto)
  qed
qed

lemma isFunction_returns:
  assumes fin: "types_finite C size_of"
  shows "isFunction C t \<noteq> None"
proof (induction "case t of None \<Rightarrow> 0 | Some x \<Rightarrow> Suc (size_of x)" arbitrary: t rule: less_induct)
  case less
  show ?case
  proof (cases t)
    case None
    then show ?thesis by (simp add: isFunction.simps)
  next
    case (Some x)
    have step: "isFunction C (Some y) \<noteq> None"
      if "ty_paren C x = Some y \<or> ty_array C x = Some y \<or> ty_pointee C x = Some y" for y
      by (rule less) (use that fin in \<open>auto simp: types_finite_def Some\<close>)
    have none: "isFunction C None \<noteq> None" by (simp add: isFunction.simps)
    show ?thesis
      using step none unfolding Some by (subst isFunction.simps) (auto split: option.split; cases "ty_pointee C x"; auto)
  qed
qed

text \<open>
  Stripping a type and asking whether it is a function end, because inner types are smaller; what is left
  after stripping is a typedef or is neither parenthesised nor a pointer, a reference or an array.
\<close>

theorem type_loops_end:
  assumes "types_finite C size_of"
  shows "(\<exists>r. strip_type C t = Some r \<and> (\<forall>x. r = Some x \<longrightarrow> stripped C x)) \<and> isFunction C t \<noteq> None"
  using strip_type_stripped [OF assms] isFunction_returns [OF assms] by blast

text \<open>Types that are numbers: a pointer to each number is its successor.\<close>

definition test_types :: "nat clang_types" where
  "test_types = \<lparr>ty_is_typedef = (\<lambda>_. False), ty_paren = (\<lambda>_. None), ty_array = (\<lambda>_. None),
     ty_pointee = (\<lambda>n. if n = 0 then None else Some (n - 1)), ty_is_pointer = (\<lambda>n. 0 < n), ty_is_reference = (\<lambda>_. False),
     ty_is_function = (\<lambda>_. False), ty_is_function_pointer = (\<lambda>_. False), ty_is_void_pointer = (\<lambda>n. n = 1)\<rparr>"

theorem type_loops_end_witness:
  "\<exists>x. strip_type test_types (Some 2) = Some (Some x) \<and> stripped test_types x \<and> isFunction test_types (Some 2) \<noteq> None"
proof -
  have "types_finite test_types id" by (auto simp: types_finite_def test_types_def)
  from type_loops_end [OF this, of "Some 2"] obtain r where r: "strip_type test_types (Some 2) = Some r"
    "\<forall>x. r = Some x \<longrightarrow> stripped test_types x" "isFunction test_types (Some 2) \<noteq> None" by blast
  have "strip_type test_types (Some 2) = Some (Some 0)"
    by (simp add: strip_type.simps test_types_def)
  then show ?thesis using r by auto
qed

section \<open>Signatures\<close>

text \<open>A parameter list that consists of an ellipsis only is printed with a comma before it.\<close>

lemma variadic_without_parameters:
  "fd_params f = [] \<Longrightarrow> fd_variadic f \<Longrightarrow> fd_special f \<Longrightarrow> fd_method f = None \<Longrightarrow>
     getSignature (Some f) = fd_qualifiedName f @ ''(, ...)''"
  by (simp add: getSignature_def)

text \<open>The elaborating keyword is also cut out of a name that ends with it.\<close>

lemma keyword_inside_name: "type_text ''myclass &'' = ''my&''"
  by code_simp

lemma keyword_removed_once: "type_text ''struct A (struct B)'' = ''A (struct B)''"
  by code_simp

section \<open>Parts of a comment\<close>

fun is_command :: "command_kind \<Rightarrow> block_comment \<Rightarrow> bool" where
  "is_command k (Block_Command kind p) = (kind = k)"
| "is_command k _ = False"

fun documented_param :: "block_comment \<Rightarrow> bool" where
  "documented_param (Param_Command written valid direction explicit p) = (written \<noteq> None \<and> (explicit \<or> \<not> pc_whitespace p))"
| "documented_param _ = False"

fun documented_tparam :: "block_comment \<Rightarrow> bool" where
  "documented_tparam (TParam_Command written p) = (written \<noteq> None \<and> \<not> pc_whitespace p)"
| "documented_tparam _ = False"

lemma add_part_params [simp]:
  "cp_params (add_part (n, c) parts) = cp_params parts @ (if documented_param c then [c] else [])"
  "cp_tParams (add_part (n, c) parts) = cp_tParams parts @ (if documented_tparam c then [c] else [])"
  "cp_returns (add_part (n, c) parts) = cp_returns parts @ (if is_command Returns_Command c then [c] else [])"
  "cp_exceptions (add_part (n, c) parts) = cp_exceptions parts @ (if is_command Throws_Command c then [c] else [])"
  "cp_brief (add_part (n, c) parts) = (if cp_brief parts = None \<and> is_command Brief_Command c then Some c else cp_brief parts)"
  "cp_headerfile (add_part (n, c) parts) =
     (if cp_headerfile parts = None \<and> is_command Headerfile_Command c then Some c else cp_headerfile parts)"
  by (cases c; auto simp: add_block_command_def)+

lemma fold_parts:
  "cp_params (fold add_part (enumerate n cs) parts) = cp_params parts @ filter documented_param cs"
  "cp_tParams (fold add_part (enumerate n cs) parts) = cp_tParams parts @ filter documented_tparam cs"
  "cp_returns (fold add_part (enumerate n cs) parts) = cp_returns parts @ filter (is_command Returns_Command) cs"
  "cp_exceptions (fold add_part (enumerate n cs) parts) = cp_exceptions parts @ filter (is_command Throws_Command) cs"
  "cp_brief (fold add_part (enumerate n cs) parts) =
     (if cp_brief parts = None then find (is_command Brief_Command) cs else cp_brief parts)"
  "cp_headerfile (fold add_part (enumerate n cs) parts) =
     (if cp_headerfile parts = None then find (is_command Headerfile_Command) cs else cp_headerfile parts)"
  by (induction cs arbitrary: n parts) auto

text \<open>The documentation of exceptions is collected, but no visitor prints it.\<close>

definition without_throws :: "block_comment list \<Rightarrow> block_comment list" where
  "without_throws cs = map (\<lambda>c. if is_command Throws_Command c then No_Comment else c) cs"

lemma add_part_exceptions: "add_part x (parts\<lparr>cp_exceptions := es\<rparr>) =
    (add_part x parts)\<lparr>cp_exceptions := es @ (if is_command Throws_Command (snd x) then [snd x] else [])\<rparr>"
  by (cases x; cases "snd x"; auto simp: add_block_command_def)

lemma fold_without_throws:
  "fold add_part (enumerate n (without_throws cs)) (parts\<lparr>cp_exceptions := es\<rparr>) =
     (fold add_part (enumerate n cs) parts)\<lparr>cp_exceptions := es\<rparr>"
proof (induction cs arbitrary: n parts)
  case (Cons c cs)
  show ?case
  proof (cases "is_command Throws_Command c")
    case True
    then obtain p where c: "c = Block_Command Throws_Command p" by (cases c) auto
    have "add_part (n, c) parts = parts\<lparr>cp_exceptions := cp_exceptions parts @ [c]\<rparr>" by (simp add: c add_block_command_def)
    then have "parts\<lparr>cp_exceptions := es\<rparr> = (add_part (n, c) parts)\<lparr>cp_exceptions := es\<rparr>" by simp
    then show ?thesis using Cons.IH [of "Suc n" "add_part (n, c) parts"] True by (simp add: without_throws_def)
  next
    case False
    then show ?thesis
      using Cons.IH [of "Suc n" "add_part (n, c) parts"] by (simp add: without_throws_def add_part_exceptions)
  qed
qed (simp add: without_throws_def)

text \<open>
  The Markdown text of a documentation comment. Exactly the parameters with a name that have a text or an
  explicit direction, the template parameters with a name and a text, and all descriptions of the return
  value are printed, each in its section and in the order of the source; the documentation of exceptions
  has no effect on the text.
\<close>

theorem comment_sections:
  "format_comment cs =
     format_parts ((FullCommentParts cs)\<lparr>cp_params := filter documented_param cs, cp_tParams := filter documented_tparam cs,
       cp_returns := filter (is_command Returns_Command) cs, cp_brief := find (is_command Brief_Command) cs,
       cp_headerfile := find (is_command Headerfile_Command) cs\<rparr>) \<and>
   format_comment (without_throws cs) = format_comment cs"
proof
  have "(FullCommentParts cs)\<lparr>cp_params := filter documented_param cs, cp_tParams := filter documented_tparam cs,
       cp_returns := filter (is_command Returns_Command) cs, cp_brief := find (is_command Brief_Command) cs,
       cp_headerfile := find (is_command Headerfile_Command) cs\<rparr> = FullCommentParts cs"
    by (simp add: FullCommentParts_def fold_parts no_parts_def)
  then show "format_comment cs =
     format_parts ((FullCommentParts cs)\<lparr>cp_params := filter documented_param cs, cp_tParams := filter documented_tparam cs,
       cp_returns := filter (is_command Returns_Command) cs, cp_brief := find (is_command Brief_Command) cs,
       cp_headerfile := find (is_command Headerfile_Command) cs\<rparr>)" by (simp only: format_comment_def)
  have "FullCommentParts (without_throws cs) = (FullCommentParts cs)\<lparr>cp_exceptions := []\<rparr>"
    using fold_without_throws [where n = 0 and cs = cs and parts = no_parts and es = "[]"] by (simp add: FullCommentParts_def no_parts_def)
  then show "format_comment (without_throws cs) = format_comment cs" by (simp add: format_comment_def format_parts_def split: option.split)
qed

end
