(* ===== verification/CppPreproc.thy ===== *)
theory CppPreproc
  imports CppCleanup CppSymbols
begin

text \<open>
  The callbacks of the C++ parser that do not walk the syntax tree, under \<^verbatim>\<open>plugins/cpp/parser/src\<close>:
  \<^verbatim>\<open>ppincludecallback.cpp\<close>, \<^verbatim>\<open>ppmacrocallback.cpp\<close>, \<^verbatim>\<open>relationcollector.cpp\<close>, \<^verbatim>\<open>entitycache.cpp\<close>,
  \<^verbatim>\<open>diagnosticmessagehandler.cpp\<close> and \<^verbatim>\<open>doccommentcollector.h\<close>. What Clang reports of a source location,
  a token or a declaration is the input; the tokens of a macro's expansion are given as Clang lexes them.
\<close>

section \<open>Source locations\<close>

text \<open>A location, its presumed position, the length of its token and its file (empty when unknown).\<close>

record source_loc =
  lc_valid :: bool
  lc_position :: position
  lc_tokenLength :: nat
  lc_file :: string

definition setPosition :: "source_loc \<Rightarrow> position \<Rightarrow> bool \<times> position" where
  "setPosition loc pos = (if \<not> lc_valid loc then (False, pos) else (True, lc_position loc))"

definition setRange :: "source_loc \<Rightarrow> source_loc \<Rightarrow> range \<Rightarrow> bool \<times> range" where
  "setRange start stop rg =
     (case setPosition start (rg_start rg) of
        (False, p) \<Rightarrow> (False, rg\<lparr>rg_start := p\<rparr>)
      | (True, p) \<Rightarrow>
          (case setPosition stop (rg_end rg) of
             (False, q) \<Rightarrow> (False, rg\<lparr>rg_start := p, rg_end := q\<rparr>)
           | (True, q) \<Rightarrow>
               (True, rg\<lparr>rg_start := p, rg_end := q\<lparr>column := column q + lc_tokenLength stop\<rparr>\<rparr>)))"

definition no_position :: position where "no_position = \<lparr>line = npos, column = npos\<rparr>"

definition no_range :: range where "no_range = \<lparr>rg_start = no_position, rg_end = no_position\<rparr>"

section \<open>The entity cache and the rows that are collected\<close>

type_synonym entity_cache = "nat \<Rightarrow> nat option"

text \<open>\<open>EntityCache::insert\<close>: true for a new identifier, and an old entry stays.\<close>

definition cache_insert :: "ast_node \<Rightarrow> entity_cache \<Rightarrow> bool \<times> entity_cache" where
  "cache_insert n cache =
     (if cache (an_id n) = None then (True, cache(an_id n \<mapsto> an_hash n)) else (False, cache))"

definition cache_at :: "nat \<Rightarrow> entity_cache \<Rightarrow> cleanup_error + nat" where
  "cache_at i cache = (case cache i of None \<Rightarrow> Inl Out_Of_Range | Some h \<Rightarrow> Inr h)"

definition cache_init :: "ast_node list \<Rightarrow> entity_cache" where
  "cache_init nodes = fold (\<lambda>n c. snd (cache_insert n c)) nodes Map.empty"

record macro_row =
  mr_astNodeId :: nat
  mr_entityHash :: nat
  mr_name :: string
  mr_qualifiedName :: string

record preproc =
  pp_manager :: source_manager
  pp_cache :: entity_cache
  pp_nodes :: "ast_node list"
  pp_incs :: "header_inclusion list"
  pp_macros :: "macro_row list"
  pp_expansions :: "expansion_row list"

text \<open>\<open>util::persistAll\<close>: an object whose identifier is in the table already is logged and skipped.\<close>

definition persistAll :: "('a \<Rightarrow> nat) \<Rightarrow> 'a list \<Rightarrow> 'a list \<Rightarrow> 'a list" where
  "persistAll key items table =
     fold (\<lambda>x t. if key x \<in> key ` set t then t else t @ [x]) items table"

definition with_identifier :: "ast_node \<Rightarrow> ast_node" where
  "with_identifier n = n\<lparr>an_id := createIdentifier n\<rparr>"

definition new_node :: "string \<Rightarrow> nat \<Rightarrow> symbol_type \<Rightarrow> ast_node" where
  "new_node value hash symbol = \<lparr>an_id = 0, an_value = value, an_file = None, an_start = no_position,
     an_end = no_position, an_hash = hash, an_symbol = symbol, an_type = Other_Node, an_visible = True\<rparr>"

definition set_location :: "range \<Rightarrow> source_file \<Rightarrow> ast_node \<Rightarrow> ast_node" where
  "set_location rg file n =
     n\<lparr>an_file := Some (unat (sf_id file)), an_start := rg_start rg, an_end := rg_end rg\<rparr>"

definition cppSourceType :: file_type where "cppSourceType = Other_Type ''CPP''"

text \<open>The node is collected if its identifier is new.\<close>

definition collect_node :: "ast_node \<Rightarrow> preproc \<Rightarrow> bool \<times> preproc" where
  "collect_node n s =
     (case cache_insert n (pp_cache s) of
        (True, cache) \<Rightarrow> (True, s\<lparr>pp_cache := cache, pp_nodes := pp_nodes s @ [n]\<rparr>)
      | (False, cache) \<Rightarrow> (False, s\<lparr>pp_cache := cache\<rparr>))"

section \<open>Include directives\<close>

record include_directive =
  ic_searchPath :: string
  ic_fileName :: string
  ic_includer :: string
  ic_begin :: source_loc
  ic_end :: source_loc

definition include_file :: "file_env \<Rightarrow> string \<Rightarrow> source_manager \<Rightarrow> (source_file \<times> source_manager) option" where
  "include_file E path s =
     (case env_getFile E path s of
        None \<Rightarrow> None
      | Some (file, s) \<Rightarrow>
          let file = file\<lparr>sf_parseStatus := PSFullyParsed\<rparr> in
          if sf_type file \<noteq> DIRECTORY_TYPE \<and> sf_type file \<noteq> cppSourceType then
            let file = file\<lparr>sf_type := cppSourceType\<rparr> in Some (file, updateFile file (cache_file file s))
          else Some (file, cache_file file s))"

definition createFileAstNode ::
    "file_env \<Rightarrow> source_file \<Rightarrow> source_loc \<Rightarrow> source_loc \<Rightarrow> source_manager \<Rightarrow> (ast_node \<times> source_manager) option" where
  "createFileAstNode E file from stop s =
     (let n = (new_node (sf_path file) (unat (fnvHash (decimal (unat (sf_id file))))) File_Symbol)\<lparr>an_type := Usage_Node\<rparr>;
          rg = snd (setRange from stop no_range)
      in
      case env_getFile E (lc_file from) s of
        None \<Rightarrow> None
      | Some (location, s) \<Rightarrow> Some (with_identifier (set_location rg location n), s))"

definition InclusionDirective :: "file_env \<Rightarrow> include_directive \<Rightarrow> preproc \<Rightarrow> preproc option" where
  "InclusionDirective E d s =
     (if ic_searchPath d = [] then Some s
      else
        case include_file E (ic_searchPath d @ ''/'' @ ic_fileName d) (pp_manager s) of
          None \<Rightarrow> None
        | Some (included, m) \<Rightarrow>
            (case include_file E (ic_includer d) m of
               None \<Rightarrow> None
             | Some (includer, m) \<Rightarrow>
                 (case createFileAstNode E included (ic_begin d) (ic_end d) m of
                    None \<Rightarrow> None
                  | Some (fileNode, m) \<Rightarrow>
                      let s = snd (collect_node fileNode (s\<lparr>pp_manager := m\<rparr>)) in
                      Some (s\<lparr>pp_incs := pp_incs s @ [\<lparr>hi_includer = sf_id includer, hi_included = sf_id included\<rparr>]\<rparr>))))"

section \<open>Macros\<close>

text \<open>The definition of a macro: its extent and its presumed file, line and column.\<close>

record macro_info =
  mi_start :: source_loc
  mi_end :: source_loc
  mi_presumed :: "(string \<times> nat \<times> nat) option"

text \<open>A name token of a macro; the last field says whether its location is in a file.\<close>

record macro_token =
  mt_name :: string
  mt_loc :: source_loc
  mt_last :: source_loc
  mt_isFileID :: bool

text \<open>A token of the expansion: an annotation has a name, any other token a spelling.\<close>

record expansion_token =
  xt_leadingSpace :: bool
  xt_annotation :: "string option"
  xt_spelling :: string

definition expansion_text :: "expansion_token list \<Rightarrow> string" where
  "expansion_text tokens =
     concat (map (\<lambda>t. (if xt_leadingSpace t then '' '' else []) @
       (case xt_annotation t of
          None \<Rightarrow> xt_spelling t
        | Some name \<Rightarrow> ''/*< FIXME: '' @ name @ '' token not expanded. >*/'')) tokens)"

definition isBuiltInMacro :: "macro_info \<Rightarrow> bool" where
  "isBuiltInMacro mi =
     (case mi_presumed mi of
        None \<Rightarrow> True
      | Some (fileName, _, _) \<Rightarrow> fileName = ''<built-in>'' \<or> fileName = ''<command line>'')"

definition macro_USR :: "file_env \<Rightarrow> macro_info \<Rightarrow> source_manager \<Rightarrow> (string \<times> source_manager) option" where
  "macro_USR E mi s =
     (case mi_presumed mi of
        None \<Rightarrow> Some ([], s)
      | Some (fileName, row, col) \<Rightarrow>
          let locStr = decimal row @ '':'' @ decimal col @ '':'' in
          if isBuiltInMacro mi then Some (locStr @ fileName, s)
          else
            case env_getFile E fileName s of
              None \<Rightarrow> None
            | Some (file, s) \<Rightarrow> Some (locStr @ decimal (unat (sf_id file)), s))"

definition createMacroAstNode ::
    "file_env \<Rightarrow> macro_token \<Rightarrow> macro_info \<Rightarrow> source_manager \<Rightarrow> (ast_node \<times> source_manager) option" where
  "createMacroAstNode E t mi s =
     (case macro_USR E mi s of
        None \<Rightarrow> None
      | Some (usr, s) \<Rightarrow> Some (new_node (mt_name t) (unat (fnvHash usr)) Macro_Symbol, s))"

definition addFileLoc ::
    "file_env \<Rightarrow> source_loc \<Rightarrow> source_loc \<Rightarrow> ast_node \<Rightarrow> source_manager \<Rightarrow> (ast_node \<times> source_manager) option" where
  "addFileLoc E start stop n s =
     (if \<not> lc_valid start \<or> \<not> lc_valid stop then Some (n, s)
      else
        let rg = snd (setRange start stop no_range) in
        case env_getFile E (lc_file start) s of
          None \<Rightarrow> None
        | Some (file, s) \<Rightarrow>
            if sf_type file \<noteq> DIRECTORY_TYPE \<and> sf_type file \<noteq> cppSourceType then
              let file = file\<lparr>sf_type := cppSourceType\<rparr>
              in Some (set_location rg file n, updateFile file (cache_file file s))
            else Some (set_location rg file n, s))"

text \<open>The node of a macro with a type and a location, and its identifier.\<close>

definition macro_node ::
    "file_env \<Rightarrow> macro_token \<Rightarrow> macro_info \<Rightarrow> ast_type \<Rightarrow> source_loc \<Rightarrow> source_loc \<Rightarrow> source_manager \<Rightarrow>
       (ast_node \<times> source_manager) option" where
  "macro_node E t mi type start stop s =
     (case createMacroAstNode E t mi s of
        None \<Rightarrow> None
      | Some (n, s) \<Rightarrow>
          (case addFileLoc E start stop (n\<lparr>an_type := type\<rparr>) s of
             None \<Rightarrow> None
           | Some (n, s) \<Rightarrow> Some (with_identifier n, s)))"

text \<open>\<open>_disabled\<close> is set while the expansion of a macro is lexed.\<close>

definition MacroExpands ::
    "file_env \<Rightarrow> bool \<Rightarrow> macro_token \<Rightarrow> macro_info option \<Rightarrow> expansion_token list \<Rightarrow> preproc \<Rightarrow> preproc option" where
  "MacroExpands E disabled t mi tokens s =
     (if disabled \<or> \<not> lc_valid (mt_loc t) \<or> \<not> mt_isFileID t then Some s
      else
        case mi of
          None \<Rightarrow> Some s
        | Some mi \<Rightarrow>
            (case macro_USR E mi (pp_manager s) of
               None \<Rightarrow> None
             | Some (usr, m) \<Rightarrow>
                 if usr = [] then Some (s\<lparr>pp_manager := m\<rparr>)
                 else
                   case macro_node E t mi Usage_Node (mt_loc t) (mt_last t) m of
                     None \<Rightarrow> None
                   | Some (n, m) \<Rightarrow>
                       (case collect_node n (s\<lparr>pp_manager := m\<rparr>) of
                          (new, s) \<Rightarrow>
                            if new then Some (s\<lparr>pp_expansions := pp_expansions s @
                              [\<lparr>ex_astNodeId = an_id n, ex_expansion = expansion_text tokens\<rparr>]\<rparr>)
                            else Some s)))"

definition MacroDefined :: "file_env \<Rightarrow> macro_token \<Rightarrow> macro_info option \<Rightarrow> preproc \<Rightarrow> preproc option" where
  "MacroDefined E t mi s =
     (case mi of
        None \<Rightarrow> Some s
      | Some mi \<Rightarrow>
          if isBuiltInMacro mi then Some s
          else
            case macro_USR E mi (pp_manager s) of
              None \<Rightarrow> None
            | Some (usr, m) \<Rightarrow>
                if usr = [] then Some (s\<lparr>pp_manager := m\<rparr>)
                else
                  case macro_node E t mi Definition_Node (mi_start mi) (mi_end mi) m of
                    None \<Rightarrow> None
                  | Some (n, m) \<Rightarrow>
                      (case collect_node n (s\<lparr>pp_manager := m\<rparr>) of
                         (new, s) \<Rightarrow>
                           if new then Some (s\<lparr>pp_macros := pp_macros s @
                             [\<lparr>mr_astNodeId = an_id n, mr_entityHash = an_hash n, mr_name = an_value n, mr_qualifiedName = an_value n\<rparr>]\<rparr>)
                           else Some s))"

definition MacroUndefined :: "file_env \<Rightarrow> macro_token \<Rightarrow> macro_info option \<Rightarrow> preproc \<Rightarrow> preproc option" where
  "MacroUndefined E t mi s =
     (case mi of
        None \<Rightarrow> Some s
      | Some mi \<Rightarrow>
          if isBuiltInMacro mi then Some s
          else
            case macro_USR E mi (pp_manager s) of
              None \<Rightarrow> None
            | Some (usr, m) \<Rightarrow>
                if usr = [] then Some (s\<lparr>pp_manager := m\<rparr>)
                else
                  case macro_node E t mi UnDefinition_Node (mt_loc t) (mt_last t) m of
                    None \<Rightarrow> None
                  | Some (n, m) \<Rightarrow> Some (snd (collect_node n (s\<lparr>pp_manager := m\<rparr>))))"

text \<open>What the preprocessor reports, and the callback for it.\<close>

datatype preproc_event =
    Included include_directive
  | Expanded bool macro_token "macro_info option" "expansion_token list"
  | Defined macro_token "macro_info option"
  | Undefined macro_token "macro_info option"

fun callback :: "file_env \<Rightarrow> preproc_event \<Rightarrow> preproc \<Rightarrow> preproc option" where
  "callback E (Included d) s = InclusionDirective E d s"
| "callback E (Expanded disabled t mi tokens) s = MacroExpands E disabled t mi tokens s"
| "callback E (Defined t mi) s = MacroDefined E t mi s"
| "callback E (Undefined t mi) s = MacroUndefined E t mi s"

fun callbacks :: "file_env \<Rightarrow> preproc_event list \<Rightarrow> preproc \<Rightarrow> preproc option" where
  "callbacks E [] s = Some s"
| "callbacks E (e # es) s = (case callback E e s of None \<Rightarrow> None | Some s \<Rightarrow> callbacks E es s)"

section \<open>Relations between files\<close>

record edge_attribute =
  ea_edge :: nat
  ea_key :: string
  ea_value :: string

definition attr_createIdentifier :: "edge_attribute \<Rightarrow> nat" where
  "attr_createIdentifier a = unat (fnvHash (decimal (ea_edge a) @ ea_key a @ ea_value a))"

record relations =
  re_manager :: source_manager
  re_edgeCache :: "nat set"
  re_attrCache :: "nat set"
  re_newEdges :: "edge_row list"
  re_newAttributes :: "edge_attribute list"

definition addEdge :: "nat \<Rightarrow> nat \<Rightarrow> edge_type \<Rightarrow> (string \<times> string) option \<Rightarrow> relations \<Rightarrow> relations" where
  "addEdge from to type attr s =
     (let edge = \<lparr>ed_from = from, ed_to = to, ed_type = type\<rparr>; id = edge_createIdentifier edge in
      if id \<in> re_edgeCache s then s
      else
        let s = s\<lparr>re_edgeCache := insert id (re_edgeCache s), re_newEdges := re_newEdges s @ [edge]\<rparr> in
        case attr of
          None \<Rightarrow> s
        | Some (key, value) \<Rightarrow>
            let a = \<lparr>ea_edge = id, ea_key = key, ea_value = value\<rparr>; i = attr_createIdentifier a in
            if i \<in> re_attrCache s then s
            else s\<lparr>re_attrCache := insert i (re_attrCache s), re_newAttributes := re_newAttributes s @ [a]\<rparr>)"

text \<open>The paths of the locations that a declaration or a call begins at.\<close>

definition relation_VisitFunctionDecl ::
    "file_env \<Rightarrow> bool \<Rightarrow> string \<Rightarrow> string option \<Rightarrow> string \<Rightarrow> relations \<Rightarrow> relations option" where
  "relation_VisitFunctionDecl E isDefinition declPath defPath name s =
     (if isDefinition then Some s
      else
        case env_getFile E declPath (re_manager s) of
          None \<Rightarrow> None
        | Some (declFile, m) \<Rightarrow>
            (case defPath of
               None \<Rightarrow> Some (s\<lparr>re_manager := m\<rparr>)
             | Some p \<Rightarrow>
                 (case env_getFile E p m of
                    None \<Rightarrow> None
                  | Some (defFile, m) \<Rightarrow>
                      let s = s\<lparr>re_manager := m\<rparr> in
                      if sf_id declFile \<noteq> sf_id defFile then
                        Some (addEdge (unat (sf_id defFile)) (unat (sf_id declFile)) PROVIDE (Some (''provide'', name)) s)
                      else Some s)))"

text \<open>\<open>VisitValueDecl\<close> and \<open>VisitCallExpr\<close>: the user, and what is used if there is a class or a callee.\<close>

definition visit_use :: "file_env \<Rightarrow> string \<Rightarrow> string option \<Rightarrow> relations \<Rightarrow> relations option" where
  "visit_use E userPath usedPath s =
     (case env_getFile E userPath (re_manager s) of
        None \<Rightarrow> None
      | Some (userFile, m) \<Rightarrow>
          (case usedPath of
             None \<Rightarrow> Some (s\<lparr>re_manager := m\<rparr>)
           | Some p \<Rightarrow>
               (case env_getFile E p m of
                  None \<Rightarrow> None
                | Some (usedFile, m) \<Rightarrow>
                    let s = s\<lparr>re_manager := m\<rparr> in
                    if sf_id userFile \<noteq> sf_id usedFile then
                      Some (addEdge (unat (sf_id userFile)) (unat (sf_id usedFile)) USE None s)
                    else Some s)))"

section \<open>Diagnostics and documentation\<close>

datatype diagnostic_level = Ignored_Level | Note_Level | Remark_Level | Warning_Level | Error_Level | Fatal_Level

datatype message_type = Unknown_Message | Error_Message | FatalError_Message | Warning_Message | Note_Message | CodingRule_Message

text \<open>A type that is None has not been written.\<close>

record build_log =
  bl_type :: "message_type option"
  bl_message :: string
  bl_range :: range
  bl_file :: "64 word option"

fun level_type :: "diagnostic_level \<Rightarrow> message_type option" where
  "level_type Note_Level = Some Note_Message"
| "level_type Warning_Level = Some Warning_Message"
| "level_type Error_Level = Some Error_Message"
| "level_type Fatal_Level = Some FatalError_Message"
| "level_type _ = None"

definition HandleDiagnostic ::
    "file_env \<Rightarrow> diagnostic_level \<Rightarrow> string \<Rightarrow> source_loc \<Rightarrow> bool \<Rightarrow> build_log list \<Rightarrow> source_manager \<Rightarrow>
       (build_log list \<times> source_manager) option" where
  "HandleDiagnostic E level message loc hasSourceManager messages s =
     (let log = \<lparr>bl_type = level_type level, bl_message = message, bl_range = no_range, bl_file = None\<rparr> in
      if lc_valid loc \<and> hasSourceManager then
        (case env_getFile E (lc_file loc) s of
           None \<Rightarrow> None
         | Some (file, s) \<Rightarrow>
             Some (messages @ [log\<lparr>bl_range := snd (setRange loc loc no_range), bl_file := Some (sf_id file)\<rparr>], s))
      else Some (messages @ [log], s))"

text \<open>
  \<open>VisitNamedDecl\<close>: the node of the declaration, if it has one, and the blocks of its comment. The comments
  are a map from the two hashes, and the first entry for a key stays.
\<close>

definition VisitNamedDecl ::
    "entity_cache \<Rightarrow> nat option \<Rightarrow> block_comment list option \<Rightarrow> ((nat \<times> nat) \<times> doc_comment) list \<Rightarrow>
       cleanup_error + ((nat \<times> nat) \<times> doc_comment) list" where
  "VisitNamedDecl cache node comment docs =
     (case node of
        None \<Rightarrow> Inr docs
      | Some i \<Rightarrow>
          (case comment of
             None \<Rightarrow> Inr docs
           | Some fc \<Rightarrow>
               let content = format_comment fc; contentHash = unat (fnvHash content) in
               case cache_at i cache of
                 Inl e \<Rightarrow> Inl e
               | Inr h \<Rightarrow>
                   if (h, contentHash) \<in> fst ` set docs then Inr docs
                   else Inr (docs @ [((h, contentHash), \<lparr>dc_content = content, dc_contentHash = contentHash, dc_entityHash = h\<rparr>)])))"

section \<open>The collected rows\<close>

text \<open>
  What every callback keeps: the cache holds the identifiers of the table and of the collected nodes, which
  are new and different, and the rows of macros and expansions refer to different collected nodes.
\<close>

definition preproc_inv :: "nat set \<Rightarrow> preproc \<Rightarrow> bool" where
  "preproc_inv known s \<longleftrightarrow>
     distinct (map an_id (pp_nodes s)) \<and> an_id ` set (pp_nodes s) \<inter> known = {} \<and>
     dom (pp_cache s) = known \<union> an_id ` set (pp_nodes s) \<and>
     distinct (map mr_astNodeId (pp_macros s)) \<and> mr_astNodeId ` set (pp_macros s) \<subseteq> an_id ` set (pp_nodes s) \<and>
     distinct (map ex_astNodeId (pp_expansions s)) \<and> ex_astNodeId ` set (pp_expansions s) \<subseteq> an_id ` set (pp_nodes s)"

lemma collect_node_cases:
  assumes "collect_node n s = (new, s')"
  obtains "new" "pp_cache s (an_id n) = None" "s' = s\<lparr>pp_cache := (pp_cache s)(an_id n \<mapsto> an_hash n), pp_nodes := pp_nodes s @ [n]\<rparr>"
  | "\<not> new" "s' = s"
  using assms by (cases "pp_cache s (an_id n) = None") (auto simp: collect_node_def cache_insert_def)

lemma collect_inv: "preproc_inv known s \<Longrightarrow> collect_node n s = (new, s') \<Longrightarrow> preproc_inv known s'"
  by (erule collect_node_cases) (auto simp: preproc_inv_def)

lemma collect_new:
  assumes "preproc_inv known s" "collect_node n s = (True, s')"
  shows "an_id n \<in> an_id ` set (pp_nodes s')" "an_id n \<notin> mr_astNodeId ` set (pp_macros s')"
    "an_id n \<notin> ex_astNodeId ` set (pp_expansions s')"
proof -
  have c: "pp_cache s (an_id n) = None" "s' = s\<lparr>pp_cache := (pp_cache s)(an_id n \<mapsto> an_hash n), pp_nodes := pp_nodes s @ [n]\<rparr>"
    using assms(2) by (auto elim: collect_node_cases)
  then have "an_id n \<notin> dom (pp_cache s)" by (simp add: domIff)
  then have out: "an_id n \<notin> an_id ` set (pp_nodes s)" using assms(1) by (simp add: preproc_inv_def)
  show "an_id n \<in> an_id ` set (pp_nodes s')" by (simp add: c(2))
  show "an_id n \<notin> mr_astNodeId ` set (pp_macros s')" "an_id n \<notin> ex_astNodeId ` set (pp_expansions s')"
    using out assms(1) unfolding preproc_inv_def by (auto simp: c(2))
qed

lemma manager_inv: "preproc_inv known (s\<lparr>pp_manager := m\<rparr>) = preproc_inv known s"
  by (simp add: preproc_inv_def)

lemma collect_incs: "collect_node n s = (new, s') \<Longrightarrow> pp_incs s' = pp_incs s"
  by (erule collect_node_cases) simp_all

definition is_inclusion :: "preproc_event \<Rightarrow> bool" where
  "is_inclusion e = (case e of Included d \<Rightarrow> ic_searchPath d \<noteq> [] | _ \<Rightarrow> False)"

lemma inclusion_inv:
  assumes "preproc_inv known s" "InclusionDirective E d s = Some s'"
  shows "preproc_inv known s' \<and> length (pp_incs s') = length (pp_incs s) + (if ic_searchPath d \<noteq> [] then 1 else 0)"
proof (cases "ic_searchPath d = []")
  case True
  then show ?thesis using assms by (simp add: InclusionDirective_def)
next
  case False
  then obtain m n i1 i2 where r: "s' = snd (collect_node n (s\<lparr>pp_manager := m\<rparr>))\<lparr>pp_incs :=
      pp_incs (snd (collect_node n (s\<lparr>pp_manager := m\<rparr>))) @ [\<lparr>hi_includer = i1, hi_included = i2\<rparr>]\<rparr>"
    using assms(2) by (auto simp: InclusionDirective_def Let_def split: option.splits)
  obtain new s1 where c: "collect_node n (s\<lparr>pp_manager := m\<rparr>) = (new, s1)" by fastforce
  have "preproc_inv known s1" using collect_inv [OF _ c] assms(1) by (simp add: manager_inv)
  then have "preproc_inv known s'" by (simp add: r c preproc_inv_def)
  then show ?thesis using collect_incs [OF c] False by (simp add: r c)
qed

lemma expands_inv:
  assumes inv: "preproc_inv known s" and run: "MacroExpands E disabled t mi tokens s = Some s'"
  shows "preproc_inv known s' \<and> pp_incs s' = pp_incs s"
proof (cases "\<exists>m. s' = s\<lparr>pp_manager := m\<rparr>")
  case True
  then show ?thesis using inv manager_inv by auto
next
  case False
  have "s = s\<lparr>pp_manager := pp_manager s\<rparr>" by simp
  then have neq: "s' \<noteq> s" using False by blast
  then obtain n m new s1 where c: "collect_node n (s\<lparr>pp_manager := m\<rparr>) = (new, s1)"
    "s' = (if new then s1\<lparr>pp_expansions := pp_expansions s1 @ [\<lparr>ex_astNodeId = an_id n, ex_expansion = expansion_text tokens\<rparr>]\<rparr> else s1)"
    using run False by (auto simp: MacroExpands_def split: if_splits option.splits prod.splits)
  have s1: "preproc_inv known s1" using collect_inv [OF _ c(1)] inv by (simp add: manager_inv)
  show ?thesis
  proof (cases new)
    case True
    with collect_new [of known "s\<lparr>pp_manager := m\<rparr>" n s1] c(1) inv
    have "an_id n \<in> an_id ` set (pp_nodes s1)" "an_id n \<notin> ex_astNodeId ` set (pp_expansions s1)" by (simp_all add: manager_inv)
    then have "preproc_inv known s'" using s1 True by (simp add: c(2) preproc_inv_def)
    then show ?thesis using collect_incs [OF c(1)] True by (simp add: c(2))
  next
    case False
    then show ?thesis using s1 collect_incs [OF c(1)] by (simp add: c(2))
  qed
qed

lemma defined_inv:
  assumes inv: "preproc_inv known s" and run: "MacroDefined E t mi s = Some s'"
  shows "preproc_inv known s' \<and> pp_incs s' = pp_incs s"
proof (cases "\<exists>m. s' = s\<lparr>pp_manager := m\<rparr>")
  case True
  then show ?thesis using inv manager_inv by auto
next
  case False
  have "s = s\<lparr>pp_manager := pp_manager s\<rparr>" by simp
  then have "s' \<noteq> s" using False by blast
  then obtain n m new s1 where c: "collect_node n (s\<lparr>pp_manager := m\<rparr>) = (new, s1)"
    "s' = (if new then s1\<lparr>pp_macros := pp_macros s1 @
      [\<lparr>mr_astNodeId = an_id n, mr_entityHash = an_hash n, mr_name = an_value n, mr_qualifiedName = an_value n\<rparr>]\<rparr> else s1)"
    using run False by (auto simp: MacroDefined_def split: if_splits option.splits prod.splits)
  have s1: "preproc_inv known s1" using collect_inv [OF _ c(1)] inv by (simp add: manager_inv)
  show ?thesis
  proof (cases new)
    case True
    with collect_new [of known "s\<lparr>pp_manager := m\<rparr>" n s1] c(1) inv
    have "an_id n \<in> an_id ` set (pp_nodes s1)" "an_id n \<notin> mr_astNodeId ` set (pp_macros s1)" by (simp_all add: manager_inv)
    then have "preproc_inv known s'" using s1 True by (simp add: c(2) preproc_inv_def)
    then show ?thesis using collect_incs [OF c(1)] True by (simp add: c(2))
  next
    case False
    then show ?thesis using s1 collect_incs [OF c(1)] by (simp add: c(2))
  qed
qed

lemma undefined_inv:
  assumes inv: "preproc_inv known s" and run: "MacroUndefined E t mi s = Some s'"
  shows "preproc_inv known s' \<and> pp_incs s' = pp_incs s"
proof (cases "\<exists>m. s' = s\<lparr>pp_manager := m\<rparr>")
  case True
  then show ?thesis using inv manager_inv by auto
next
  case False
  have "s = s\<lparr>pp_manager := pp_manager s\<rparr>" by simp
  then have "s' \<noteq> s" using False by blast
  then obtain n m where "s' = snd (collect_node n (s\<lparr>pp_manager := m\<rparr>))"
    using run False by (auto simp: MacroUndefined_def split: if_splits option.splits)
  then obtain new where c: "collect_node n (s\<lparr>pp_manager := m\<rparr>) = (new, s')" by (metis prod.collapse)
  show ?thesis using collect_inv [OF _ c] inv collect_incs [OF c] by (simp add: manager_inv)
qed

lemma callback_inv:
  assumes "preproc_inv known s" "callback E e s = Some s'"
  shows "preproc_inv known s' \<and> length (pp_incs s') = length (pp_incs s) + (if is_inclusion e then 1 else 0)"
  using assms inclusion_inv [of known s E _ s'] expands_inv [of known s E _ _ _ _ s'] defined_inv [of known s E _ _ s']
    undefined_inv [of known s E _ _ s'] by (cases e) (auto simp: is_inclusion_def)

lemma callbacks_inv:
  "preproc_inv known s \<Longrightarrow> callbacks E es s = Some s' \<Longrightarrow>
     preproc_inv known s' \<and> length (pp_incs s') = length (pp_incs s) + length (filter is_inclusion es)"
proof (induction es arbitrary: s)
  case (Cons e es)
  then obtain s1 where s1: "callback E e s = Some s1" "callbacks E es s1 = Some s'" by (auto split: option.splits)
  from callback_inv [OF Cons.prems(1) s1(1)] Cons.IH [OF _ s1(2)] show ?case by simp
qed simp

lemma persistAll_new:
  "distinct (map key items) \<Longrightarrow> key ` set items \<inter> key ` set table = {} \<Longrightarrow> persistAll key items table = table @ items"
proof (induction items arbitrary: table)
  case (Cons x items)
  have "persistAll key (x # items) table = persistAll key items (table @ [x])" using Cons.prems(2) by (auto simp: persistAll_def)
  also have "\<dots> = (table @ [x]) @ items" by (rule Cons.IH) (use Cons.prems in auto)
  finally show ?case by simp
qed (simp add: persistAll_def)

text \<open>The paths a callback looks up.\<close>

definition macro_paths :: "macro_info option \<Rightarrow> source_loc list \<Rightarrow> string list" where
  "macro_paths mi locs = (case mi of None \<Rightarrow> [] | Some mi \<Rightarrow>
     (case mi_presumed mi of None \<Rightarrow> [] | Some (f, _, _) \<Rightarrow> [f]) @ [lc_file (mi_start mi)]) @ map lc_file locs"

fun event_paths :: "preproc_event \<Rightarrow> string list" where
  "event_paths (Included d) = [ic_searchPath d @ ''/'' @ ic_fileName d, ic_includer d, lc_file (ic_begin d)]"
| "event_paths (Expanded disabled t mi tokens) = macro_paths mi [mt_loc t]"
| "event_paths (Defined t mi) = macro_paths mi [mt_loc t]"
| "event_paths (Undefined t mi) = macro_paths mi [mt_loc t]"

lemma include_file_returns: "(\<And>s. env_getFile E p s \<noteq> None) \<Longrightarrow> include_file E p s \<noteq> None"
  by (force simp: include_file_def Let_def split: option.splits)

lemma file_node_returns: "(\<And>s. env_getFile E (lc_file from) s \<noteq> None) \<Longrightarrow> createFileAstNode E f from stop s \<noteq> None"
  by (force simp: createFileAstNode_def Let_def split: option.splits)

lemma macro_USR_returns:
  assumes "\<And>p s. p \<in> set (macro_paths (Some mi) []) \<Longrightarrow> env_getFile E p s \<noteq> None"
  shows "macro_USR E mi s \<noteq> None"
proof (cases "mi_presumed mi")
  case None
  then show ?thesis by (simp add: macro_USR_def)
next
  case (Some x)
  then obtain f r c where x: "mi_presumed mi = Some (f, r, c)" by (cases x) auto
  then have "f \<in> set (macro_paths (Some mi) [])" by (simp add: macro_paths_def)
  then have "env_getFile E f s \<noteq> None" by (rule assms)
  then show ?thesis by (auto simp: macro_USR_def x Let_def)
qed

lemma macro_node_returns:
  assumes "macro_USR E mi s \<noteq> None" "\<And>s. env_getFile E (lc_file start) s \<noteq> None"
  shows "macro_node E t mi type start stop s \<noteq> None"
proof -
  have add: "addFileLoc E start stop n s \<noteq> None" for n s
    using assms(2) [of s] by (auto simp: addFileLoc_def Let_def)
  obtain usr s1 where u: "macro_USR E mi s = Some (usr, s1)" using assms(1) by auto
  obtain n s2 where "addFileLoc E start stop (new_node (mt_name t) (unat (fnvHash usr)) Macro_Symbol\<lparr>an_type := type\<rparr>) s1 = Some (n, s2)"
    using add by fastforce
  then show ?thesis by (simp add: macro_node_def createMacroAstNode_def u)
qed

lemma callback_returns:
  assumes look: "\<And>p s. p \<in> set (event_paths e) \<Longrightarrow> env_getFile E p s \<noteq> None"
  shows "callback E e s \<noteq> None"
proof (cases e)
  case (Included d)
  note l = look [unfolded Included]
  have i: "include_file E (ic_searchPath d @ ''/'' @ ic_fileName d) m \<noteq> None" "include_file E (ic_includer d) m \<noteq> None"
    "createFileAstNode E f (ic_begin d) (ic_end d) m \<noteq> None" for m f
    using l include_file_returns file_node_returns by simp_all
  obtain f1 m1 where 1: "include_file E (ic_searchPath d @ ''/'' @ ic_fileName d) (pp_manager s) = Some (f1, m1)"
    using i(1) [of "pp_manager s"] by auto
  obtain f2 m2 where 2: "include_file E (ic_includer d) m1 = Some (f2, m2)" using i(2) [of m1] by auto
  obtain n m3 where 3: "createFileAstNode E f1 (ic_begin d) (ic_end d) m2 = Some (n, m3)" using i(3) [of f1 m2] by auto
  show ?thesis unfolding Included callback.simps InclusionDirective_def 1 option.case prod.case 2 3 Let_def by simp
next
  case (Expanded disabled t mi tokens)
  show ?thesis
  proof (cases mi)
    case None
    then show ?thesis by (simp add: Expanded MacroExpands_def)
  next
    case (Some i)
    have u: "macro_USR E i s \<noteq> None" for s using macro_USR_returns look by (fastforce simp: Expanded Some macro_paths_def)
    have n: "macro_node E t i Usage_Node (mt_loc t) (mt_last t) s \<noteq> None" for s
      using macro_node_returns [OF u] look by (fastforce simp: Expanded Some macro_paths_def)
    obtain usr m where "macro_USR E i (pp_manager s) = Some (usr, m)" using u by fastforce
    moreover obtain x m' where "macro_node E t i Usage_Node (mt_loc t) (mt_last t) m = Some (x, m')" using n by fastforce
    ultimately show ?thesis by (auto simp: Expanded Some MacroExpands_def split: prod.split)
  qed
next
  case (Defined t mi)
  show ?thesis
  proof (cases mi)
    case None
    then show ?thesis by (simp add: Defined MacroDefined_def)
  next
    case (Some i)
    have u: "macro_USR E i s \<noteq> None" for s using macro_USR_returns look by (fastforce simp: Defined Some macro_paths_def)
    have n: "macro_node E t i Definition_Node (mi_start i) (mi_end i) s \<noteq> None" for s
      using macro_node_returns [OF u] look by (fastforce simp: Defined Some macro_paths_def)
    obtain usr m where "macro_USR E i (pp_manager s) = Some (usr, m)" using u by fastforce
    moreover obtain x m' where "macro_node E t i Definition_Node (mi_start i) (mi_end i) m = Some (x, m')" using n by fastforce
    ultimately show ?thesis by (auto simp: Defined Some MacroDefined_def split: prod.split)
  qed
next
  case (Undefined t mi)
  show ?thesis
  proof (cases mi)
    case None
    then show ?thesis by (simp add: Undefined MacroUndefined_def)
  next
    case (Some i)
    have u: "macro_USR E i s \<noteq> None" for s using macro_USR_returns look by (fastforce simp: Undefined Some macro_paths_def)
    have n: "macro_node E t i UnDefinition_Node (mt_loc t) (mt_last t) s \<noteq> None" for s
      using macro_node_returns [OF u] look by (fastforce simp: Undefined Some macro_paths_def)
    obtain usr m where "macro_USR E i (pp_manager s) = Some (usr, m)" using u by fastforce
    moreover obtain x m' where "macro_node E t i UnDefinition_Node (mt_loc t) (mt_last t) m = Some (x, m')" using n by fastforce
    ultimately show ?thesis by (auto simp: Undefined Some MacroUndefined_def)
  qed
qed

lemma lookups_return:
  assumes "path_laws (fe_fs E)"
  shows "\<exists>k. \<forall>n \<ge> k. \<forall>p \<in> set ps. \<forall>s. env_getFile (E\<lparr>fe_fuel := n\<rparr>) p s \<noteq> None"
proof (induction ps)
  case (Cons p ps)
  then obtain k1 where k1: "\<forall>n \<ge> k1. \<forall>p \<in> set ps. \<forall>s. env_getFile (E\<lparr>fe_fuel := n\<rparr>) p s \<noteq> None" by blast
  obtain k2 where k2: "\<forall>n \<ge> k2. \<forall>s. env_getFile (E\<lparr>fe_fuel := n\<rparr>) p s \<noteq> None" using fuel_lookup [OF assms] by blast
  show ?case using k1 k2 by (intro exI [of _ "max k1 k2"]) auto
qed simp

lemma callbacks_return:
  "(\<And>p s. p \<in> set (concat (map event_paths es)) \<Longrightarrow> env_getFile E p s \<noteq> None) \<Longrightarrow> callbacks E es s \<noteq> None"
proof (induction es arbitrary: s)
  case (Cons e es)
  have "callback E e s \<noteq> None" by (rule callback_returns) (use Cons.prems in simp)
  then obtain s1 where s1: "callback E e s = Some s1" by blast
  have "callbacks E es s1 \<noteq> None" by (rule Cons.IH) (use Cons.prems in simp)
  then show ?case by (simp add: s1)
qed simp


definition test_directive :: include_directive where
  "test_directive = \<lparr>ic_searchPath = ''/a'', ic_fileName = ''x'', ic_includer = ''/a/y'',
     ic_begin = \<lparr>lc_valid = True, lc_position = \<lparr>line = 1, column = 10\<rparr>, lc_tokenLength = 3, lc_file = ''/a/y''\<rparr>,
     ic_end = \<lparr>lc_valid = True, lc_position = \<lparr>line = 1, column = 10\<rparr>, lc_tokenLength = 3, lc_file = ''/a/y''\<rparr>\<rparr>"

definition test_preproc :: preproc where
  "test_preproc = \<lparr>pp_manager = empty_manager, pp_cache = Map.empty, pp_nodes = [], pp_incs = [], pp_macros = [], pp_expansions = []\<rparr>"


section \<open>Edges\<close>

text \<open>
  Whatever the attribute is, nothing happens for an edge that is known: a second function that the same pair
  of files provides gets no attribute.
\<close>

lemma second_attribute_lost:
  assumes "edge_createIdentifier \<lparr>ed_from = f, ed_to = t, ed_type = y\<rparr> \<in> re_edgeCache s"
  shows "addEdge f t y attr s = s"
  using assms by (simp add: addEdge_def Let_def)

lemma edge_is_known: "edge_createIdentifier \<lparr>ed_from = f, ed_to = t, ed_type = y\<rparr> \<in> re_edgeCache (addEdge f t y attr s)"
  by (auto simp: addEdge_def Let_def split: option.split)

lemma addEdge_twice: "addEdge f t y attr' (addEdge f t y attr s) = addEdge f t y attr s"
  by (rule second_attribute_lost [OF edge_is_known])

text \<open>Different edges whose identifiers have the same text are one edge.\<close>

lemma ambiguous_edge_lost: "addEdge 12 3 USE attr' (addEdge 1 23 USE attr s) = addEdge 1 23 USE attr s"
proof -
  have "edge_createIdentifier \<lparr>ed_from = 12, ed_to = 3, ed_type = USE\<rparr> = edge_createIdentifier \<lparr>ed_from = 1, ed_to = 23, ed_type = USE\<rparr>"
    unfolding edge_createIdentifier_def edge_text_ambiguous ..
  then show ?thesis using second_attribute_lost edge_is_known by metis
qed

text \<open>A range is changed although its end is not valid.\<close>

lemma range_half_set:
  "lc_valid start \<Longrightarrow> \<not> lc_valid stop \<Longrightarrow> setRange start stop rg = (False, rg\<lparr>rg_start := lc_position start\<rparr>)"
  by (simp add: setRange_def setPosition_def)

end
