(* ===== verification/LspTypes.thy ===== *)
theory LspTypes
  imports CppString
begin

text \<open>
  \<^verbatim>\<open>service/lsp/src/lsp_types.cpp\<close>: the structures of the Language Server Protocol and how they are
  read from and written to a property tree.

  A tree is Boost's \<open>ptree\<close>: a text and a list of named subtrees; the paths used here have one component.
  The stream operators of numbers and truth values are those of the standard library. How Boost prints an
  \<open>optional\<close> that holds a value is the parameter \<open>optional_text\<close>.
\<close>

section \<open>Property trees\<close>

datatype ptree = Tree (tree_data: string) (tree_children: "(string \<times> ptree) list")

text \<open>The exceptions a handler tells apart, with their message, and undefined behaviour.\<close>

datatype lsp_error = Ptree_Error string | Std_Exception string | Other_Exception | Crash fault

definition bindE :: "'e + 'a \<Rightarrow> ('a \<Rightarrow> 'e + 'b) \<Rightarrow> 'e + 'b" where
  "bindE m k = (case m of Inl e \<Rightarrow> Inl e | Inr x \<Rightarrow> k x)"

lemma bindE_simps [simp]: "bindE (Inl e) k = Inl e" "bindE (Inr x) k = k x"
  by (simp_all add: bindE_def)

definition get_child_optional :: "string \<Rightarrow> ptree \<Rightarrow> ptree option" where
  "get_child_optional k t = map_of (tree_children t) k"

definition get_child :: "string \<Rightarrow> ptree \<Rightarrow> lsp_error + ptree" where
  "get_child k t = (case get_child_optional k t of None \<Rightarrow> Inl (Ptree_Error (''No such node ('' @ k @ '')''))
     | Some c \<Rightarrow> Inr c)"

text \<open>The subtree becomes the first one of that name, or is added at the end.\<close>

fun replace_child :: "string \<Rightarrow> ptree \<Rightarrow> (string \<times> ptree) list \<Rightarrow> (string \<times> ptree) list" where
  "replace_child k c [] = [(k, c)]"
| "replace_child k c ((l, d) # cs) = (if l = k then (k, c) # cs else (l, d) # replace_child k c cs)"

definition put_child :: "string \<Rightarrow> ptree \<Rightarrow> ptree \<Rightarrow> ptree" where
  "put_child k c t = Tree (tree_data t) (replace_child k c (tree_children t))"

definition put_text :: "string \<Rightarrow> string \<Rightarrow> ptree \<Rightarrow> ptree" where
  "put_text k s t =
     put_child k (Tree s (case get_child_optional k t of None \<Rightarrow> [] | Some c \<Rightarrow> tree_children c)) t"

definition push_back :: "string \<times> ptree \<Rightarrow> ptree \<Rightarrow> ptree" where
  "push_back c t = Tree (tree_data t) (tree_children t @ [c])"

definition empty_tree :: ptree where
  "empty_tree = Tree [] []"

section \<open>Values as text\<close>

definition show_int :: "int \<Rightarrow> string" where
  "show_int i = (if i < 0 then CHR ''-'' # decimal (nat (- i)) else decimal (nat i))"

text \<open>\<open>stream >> i\<close> for an \<open>int\<close>, then white space up to the end.\<close>

definition read_int :: "string \<Rightarrow> int option" where
  "read_int s =
     (let t = dropWhile isspace s;
          negative = (take 1 t = ''-'');
          t = (if take 1 t = ''-'' \<or> take 1 t = ''+'' then drop 1 t else t);
          ds = takeWhile is_digit t;
          value = (if negative then - int (digits_value ds) else int (digits_value ds))
      in
      if ds = [] \<or> \<not> list_all isspace (dropWhile is_digit t) \<or> \<not> (- (2 ^ 31) \<le> value \<and> value < 2 ^ 31)
      then None else Some value)"

definition show_bool :: "bool \<Rightarrow> string" where
  "show_bool b = (if b then ''true'' else ''false'')"

definition read_bool :: "string \<Rightarrow> bool option" where
  "read_bool s =
     (let w = takeWhile (\<lambda>c. \<not> isspace c) (dropWhile isspace s);
          blank_end = list_all isspace (dropWhile (\<lambda>c. \<not> isspace c) (dropWhile isspace s))
      in
      if read_int s = Some 1 then Some True
      else if read_int s = Some 0 then Some False
      else if blank_end \<and> w = ''true'' then Some True
      else if blank_end \<and> w = ''false'' then Some False
      else None)"

definition get_string :: "string \<Rightarrow> ptree \<Rightarrow> lsp_error + string" where
  "get_string k t = bindE (get_child k t) (\<lambda>c. Inr (tree_data c))"

definition bad_data :: "lsp_error + 'a" where
  "bad_data = Inl (Ptree_Error ''conversion of data to type failed'')"

definition get_int :: "string \<Rightarrow> ptree \<Rightarrow> lsp_error + int" where
  "get_int k t =
     bindE (get_child k t) (\<lambda>c. case read_int (tree_data c) of None \<Rightarrow> bad_data | Some i \<Rightarrow> Inr i)"

definition get_bool :: "string \<Rightarrow> ptree \<Rightarrow> lsp_error + bool" where
  "get_bool k t =
     bindE (get_child k t) (\<lambda>c. case read_bool (tree_data c) of None \<Rightarrow> bad_data | Some b \<Rightarrow> Inr b)"

section \<open>The structures\<close>

record lsp_position =
  pos_line :: int
  pos_character :: int

record lsp_range =
  range_start :: lsp_position
  range_end :: lsp_position

record lsp_location =
  loc_uri :: string
  loc_range :: lsp_range

record text_document_identifier =
  doc_uri :: string

record text_document_position_params =
  tp_textDocument :: text_document_identifier
  tp_position :: lsp_position

record reference_context =
  includeDeclaration :: bool

record reference_params =
  rp_params :: text_document_position_params
  rp_context :: reference_context

record diagram_type_params =
  dt_textDocument :: text_document_identifier
  dt_position :: "lsp_position option"

record diagram_params =
  dp_params :: diagram_type_params
  dp_diagramType :: string

record completion_item =
  ci_label :: string
  ci_kind :: "int option"
  ci_detail :: "string option"
  ci_documentation :: "string option"
  ci_data :: "string option"

record completion_list =
  cl_isIncomplete :: bool
  cl_items :: "completion_item list"

datatype error_code =
    ParseError | InvalidRequest | MethodNotFound | InvalidParams | InternalError | ServerErrorStart
  | ServerErrorEnd | ServerNotInitialized | UnknownError | RequestCancelled

fun error_number :: "error_code \<Rightarrow> int" where
  "error_number ParseError = -32700"
| "error_number InvalidRequest = -32600"
| "error_number MethodNotFound = -32601"
| "error_number InvalidParams = -32602"
| "error_number InternalError = -32603"
| "error_number ServerErrorStart = -32099"
| "error_number ServerErrorEnd = -32000"
| "error_number ServerNotInitialized = -32002"
| "error_number UnknownError = -32001"
| "error_number RequestCancelled = -32800"

record response_error =
  err_code :: error_code
  err_message :: string

definition createNode :: "(ptree \<Rightarrow> ptree) \<Rightarrow> ptree" where
  "createNode writeNode = writeNode empty_tree"

definition ResponseError_writeNode :: "response_error \<Rightarrow> ptree \<Rightarrow> ptree" where
  "ResponseError_writeNode e node =
     put_text ''message'' (err_message e) (put_text ''code'' (show_int (error_number (err_code e))) node)"

definition TextDocumentIdentifier_readNode :: "ptree \<Rightarrow> lsp_error + text_document_identifier" where
  "TextDocumentIdentifier_readNode node = bindE (get_string ''uri'' node) (\<lambda>u. Inr \<lparr>doc_uri = u\<rparr>)"

definition TextDocumentIdentifier_writeNode :: "text_document_identifier \<Rightarrow> ptree \<Rightarrow> ptree" where
  "TextDocumentIdentifier_writeNode d node = put_text ''uri'' (doc_uri d) node"

definition Position_readNode :: "ptree \<Rightarrow> lsp_error + lsp_position" where
  "Position_readNode node =
     bindE (get_int ''line'' node) (\<lambda>l.
     bindE (get_int ''character'' node) (\<lambda>c. Inr \<lparr>pos_line = l, pos_character = c\<rparr>))"

definition Position_writeNode :: "lsp_position \<Rightarrow> ptree \<Rightarrow> ptree" where
  "Position_writeNode p node =
     put_text ''character'' (show_int (pos_character p)) (put_text ''line'' (show_int (pos_line p)) node)"

definition Range_readNode :: "ptree \<Rightarrow> lsp_error + lsp_range" where
  "Range_readNode node =
     bindE (bindE (get_child ''start'' node) Position_readNode) (\<lambda>s.
     bindE (bindE (get_child ''end'' node) Position_readNode) (\<lambda>e. Inr \<lparr>range_start = s, range_end = e\<rparr>))"

definition Range_writeNode :: "lsp_range \<Rightarrow> ptree \<Rightarrow> ptree" where
  "Range_writeNode r node =
     put_child ''end'' (createNode (Position_writeNode (range_end r)))
       (put_child ''start'' (createNode (Position_writeNode (range_start r))) node)"

definition Location_readNode :: "ptree \<Rightarrow> lsp_error + lsp_location" where
  "Location_readNode node =
     bindE (get_string ''uri'' node) (\<lambda>u.
     bindE (bindE (get_child ''range'' node) Range_readNode) (\<lambda>r. Inr \<lparr>loc_uri = u, loc_range = r\<rparr>))"

definition Location_writeNode :: "lsp_location \<Rightarrow> ptree \<Rightarrow> ptree" where
  "Location_writeNode l node =
     put_child ''range'' (createNode (Range_writeNode (loc_range l))) (put_text ''uri'' (loc_uri l) node)"

definition TextDocumentPositionParams_readNode :: "ptree \<Rightarrow> lsp_error + text_document_position_params" where
  "TextDocumentPositionParams_readNode node =
     bindE (bindE (get_child ''textDocument'' node) TextDocumentIdentifier_readNode) (\<lambda>d.
     bindE (bindE (get_child ''position'' node) Position_readNode) (\<lambda>p.
     Inr \<lparr>tp_textDocument = d, tp_position = p\<rparr>))"

definition TextDocumentPositionParams_writeNode :: "text_document_position_params \<Rightarrow> ptree \<Rightarrow> ptree" where
  "TextDocumentPositionParams_writeNode t node =
     put_child ''position'' (createNode (Position_writeNode (tp_position t)))
       (put_child ''textDocument'' (createNode (TextDocumentIdentifier_writeNode (tp_textDocument t))) node)"

definition ReferenceContext_readNode :: "ptree \<Rightarrow> lsp_error + reference_context" where
  "ReferenceContext_readNode node = bindE (get_bool ''includeDeclaration'' node) (\<lambda>b. Inr \<lparr>includeDeclaration = b\<rparr>)"

definition ReferenceContext_writeNode :: "reference_context \<Rightarrow> ptree \<Rightarrow> ptree" where
  "ReferenceContext_writeNode c node = put_text ''includeDeclaration'' (show_bool (includeDeclaration c)) node"

definition ReferenceParams_readNode :: "ptree \<Rightarrow> lsp_error + reference_params" where
  "ReferenceParams_readNode node =
     bindE (TextDocumentPositionParams_readNode node) (\<lambda>p.
     bindE (bindE (get_child ''context'' node) ReferenceContext_readNode) (\<lambda>c.
     Inr \<lparr>rp_params = p, rp_context = c\<rparr>))"

definition ReferenceParams_writeNode :: "reference_params \<Rightarrow> ptree \<Rightarrow> ptree" where
  "ReferenceParams_writeNode r node =
     put_child ''context'' (createNode (ReferenceContext_writeNode (rp_context r)))
       (TextDocumentPositionParams_writeNode (rp_params r) node)"

definition DiagramTypeParams_readNode :: "ptree \<Rightarrow> lsp_error + diagram_type_params" where
  "DiagramTypeParams_readNode node =
     bindE (bindE (get_child ''textDocument'' node) TextDocumentIdentifier_readNode) (\<lambda>d.
     case get_child_optional ''position'' node of
       None \<Rightarrow> Inr \<lparr>dt_textDocument = d, dt_position = None\<rparr>
     | Some item \<Rightarrow> bindE (Position_readNode item) (\<lambda>p. Inr \<lparr>dt_textDocument = d, dt_position = Some p\<rparr>))"

definition DiagramTypeParams_writeNode :: "diagram_type_params \<Rightarrow> ptree \<Rightarrow> ptree" where
  "DiagramTypeParams_writeNode d node =
     (let node = put_child ''textDocument'' (createNode (TextDocumentIdentifier_writeNode (dt_textDocument d))) node
      in case dt_position d of None \<Rightarrow> node | Some p \<Rightarrow> put_child ''position'' (createNode (Position_writeNode p)) node)"

definition DiagramParams_readNode :: "ptree \<Rightarrow> lsp_error + diagram_params" where
  "DiagramParams_readNode node =
     bindE (DiagramTypeParams_readNode node) (\<lambda>p.
     bindE (get_string ''diagramType'' node) (\<lambda>t. Inr \<lparr>dp_params = p, dp_diagramType = t\<rparr>))"

definition DiagramParams_writeNode :: "diagram_params \<Rightarrow> ptree \<Rightarrow> ptree" where
  "DiagramParams_writeNode d node =
     put_text ''diagramType'' (dp_diagramType d) (DiagramTypeParams_writeNode (dp_params d) node)"

text \<open>\<open>get_optional\<close> gives nothing when the text cannot be converted.\<close>

definition CompletionItem_readNode :: "ptree \<Rightarrow> lsp_error + completion_item" where
  "CompletionItem_readNode node =
     bindE (get_string ''label'' node) (\<lambda>l.
     let text = (\<lambda>k. map_option tree_data (get_child_optional k node)) in
     Inr \<lparr>ci_label = l, ci_kind = Option.bind (text ''kind'') read_int, ci_detail = text ''detail'',
       ci_documentation = text ''documentation'', ci_data = text ''data''\<rparr>)"

definition put_optional :: "(string \<Rightarrow> string) \<Rightarrow> string \<Rightarrow> string option \<Rightarrow> ptree \<Rightarrow> ptree" where
  "put_optional optional_text k v node = (case v of None \<Rightarrow> node | Some s \<Rightarrow> put_text k (optional_text s) node)"

definition CompletionItem_writeNode :: "(string \<Rightarrow> string) \<Rightarrow> completion_item \<Rightarrow> ptree \<Rightarrow> ptree" where
  "CompletionItem_writeNode optional_text i node =
     put_optional optional_text ''data'' (ci_data i)
       (put_optional optional_text ''documentation'' (ci_documentation i)
         (put_optional optional_text ''detail'' (ci_detail i)
           (put_optional optional_text ''kind'' (map_option show_int (ci_kind i))
             (put_text ''label'' (ci_label i) node))))"

definition CompletionList_writeNode :: "(string \<Rightarrow> string) \<Rightarrow> completion_list \<Rightarrow> ptree \<Rightarrow> ptree" where
  "CompletionList_writeNode optional_text l node =
     (let node = put_text ''isIncomplete'' (show_bool (cl_isIncomplete l)) node;
          itemsNode = fold (\<lambda>i t. push_back ([], createNode (CompletionItem_writeNode optional_text i)) t)
            (cl_items l) empty_tree
      in put_child ''items'' itemsNode node)"

section \<open>Reading what was written\<close>

lemma map_of_replace: "map_of (replace_child k c cs) l = (if l = k then Some c else map_of cs l)"
  by (induction k c cs rule: replace_child.induct) auto

lemma get_put_child [simp]:
  "get_child_optional l (put_child k c t) = (if l = k then Some c else get_child_optional l t)"
  by (simp add: get_child_optional_def put_child_def map_of_replace)

lemma get_empty [simp]: "get_child_optional k empty_tree = None"
  by (simp add: get_child_optional_def empty_tree_def)

lemma get_put_text:
  "get_child_optional l (put_text k s t) = (if l = k
     then Some (Tree s (case get_child_optional k t of None \<Rightarrow> [] | Some c \<Rightarrow> tree_children c)) else get_child_optional l t)"
  by (simp add: put_text_def)

lemma digit_not_special: "is_digit c \<Longrightarrow> c \<noteq> CHR ''-'' \<and> c \<noteq> CHR ''+'' \<and> \<not> isspace c"
proof -
  have "\<not> is_digit (CHR ''-'')" "\<not> is_digit (CHR ''+'')" by code_simp+
  moreover have "list_all (\<lambda>c. \<not> (is_digit c \<and> isspace c)) (map char_of [0 :: nat ..< 256])" by code_simp
  then have "\<not> (is_digit c \<and> isspace c)" for c
  proof -
    have "c = char_of (of_char c :: nat)" "(of_char c :: nat) < 256" by simp_all
    then have "c \<in> set (map char_of [0 :: nat ..< 256])" by (metis atLeastLessThan_iff image_eqI list.set_map set_upt zero_le)
    with \<open>list_all _ _\<close> show ?thesis by (auto simp: list_all_iff)
  qed
  ultimately show "is_digit c \<Longrightarrow> c \<noteq> CHR ''-'' \<and> c \<noteq> CHR ''+'' \<and> \<not> isspace c" by auto
qed

lemma read_show_int:
  assumes "- (2 ^ 31) \<le> i" "i < 2 ^ 31"
  shows "read_int (show_int i) = Some i"
proof -
  have d: "list_all is_digit (decimal n)" "decimal n \<noteq> []" for n using decimal_digits by auto
  have tw: "takeWhile is_digit (decimal n) = decimal n" "dropWhile is_digit (decimal n) = []" for n
    using d(1) [of n] by (auto simp: takeWhile_eq_all_conv dropWhile_eq_Nil_conv list_all_iff)
  have hd: "take 1 (decimal n) \<noteq> ''-'' \<and> take 1 (decimal n) \<noteq> ''+'' \<and> dropWhile isspace (decimal n) = decimal n" for n
    using d [of n] digit_not_special by (cases "decimal n") auto
  have m: "\<not> isspace (CHR ''-'')" by code_simp
  show ?thesis
  proof (cases "i < 0")
    case True
    then show ?thesis using assms m d(2)
      by (simp add: show_int_def read_int_def Let_def digits_value_decimal tw)
  next
    case False
    then show ?thesis using assms d(2) hd [of "nat i"]
      by (simp add: show_int_def read_int_def Let_def digits_value_decimal tw)
  qed
qed

lemma read_show_bool: "read_bool (show_bool b) = Some b"
proof -
  have "read_bool ''true'' = Some True" "read_bool ''false'' = Some False" by code_simp+
  then show ?thesis by (simp add: show_bool_def)
qed

definition fits_int :: "int \<Rightarrow> bool" where
  "fits_int i \<longleftrightarrow> - (2 ^ 31) \<le> i \<and> i < 2 ^ 31"

definition position_fits :: "lsp_position \<Rightarrow> bool" where
  "position_fits p \<longleftrightarrow> fits_int (pos_line p) \<and> fits_int (pos_character p)"

lemmas node_defs = createNode_def get_string_def get_int_def get_bool_def get_child_def get_put_text

lemma position_roundtrip:
  "position_fits p \<Longrightarrow> Position_readNode (Position_writeNode p node) = Inr p"
  by (simp add: Position_readNode_def Position_writeNode_def node_defs position_fits_def fits_int_def read_show_int)

lemma identifier_roundtrip:
  "TextDocumentIdentifier_readNode (TextDocumentIdentifier_writeNode d node) = Inr d"
  by (simp add: TextDocumentIdentifier_readNode_def TextDocumentIdentifier_writeNode_def node_defs)

lemma params_roundtrip:
  "position_fits (tp_position t) \<Longrightarrow>
     TextDocumentPositionParams_readNode (TextDocumentPositionParams_writeNode t node) = Inr t"
  by (simp add: TextDocumentPositionParams_readNode_def TextDocumentPositionParams_writeNode_def node_defs
      identifier_roundtrip position_roundtrip)

lemma range_roundtrip:
  "position_fits (range_start r) \<Longrightarrow> position_fits (range_end r) \<Longrightarrow> Range_readNode (Range_writeNode r node) = Inr r"
  by (simp add: Range_readNode_def Range_writeNode_def node_defs position_roundtrip)

lemma location_roundtrip:
  "position_fits (range_start (loc_range l)) \<Longrightarrow> position_fits (range_end (loc_range l)) \<Longrightarrow>
     Location_readNode (Location_writeNode l node) = Inr l"
  by (simp add: Location_readNode_def Location_writeNode_def node_defs range_roundtrip)

lemma reference_roundtrip:
  "position_fits (tp_position (rp_params r)) \<Longrightarrow> ReferenceParams_readNode (ReferenceParams_writeNode r node) = Inr r"
  by (simp add: ReferenceParams_readNode_def ReferenceParams_writeNode_def ReferenceContext_readNode_def
      ReferenceContext_writeNode_def TextDocumentPositionParams_readNode_def
      TextDocumentPositionParams_writeNode_def node_defs identifier_roundtrip position_roundtrip read_show_bool)

lemma diagram_roundtrip:
  "(\<And>p. dt_position (dp_params d) = Some p \<Longrightarrow> position_fits p) \<Longrightarrow>
     DiagramParams_readNode (createNode (DiagramParams_writeNode d)) = Inr d"
  by (cases "dt_position (dp_params d)")
     (simp_all add: DiagramParams_readNode_def DiagramParams_writeNode_def DiagramTypeParams_readNode_def
       DiagramTypeParams_writeNode_def node_defs identifier_roundtrip position_roundtrip)

text \<open>
  Every structure of the protocol that is both written and read is read back as it was written, for
  numbers that fit an \<open>int\<close>; a diagram request keeps whether it has a position.
\<close>

theorem lsp_types_roundtrip:
  assumes "position_fits (range_start (loc_range l))" "position_fits (range_end (loc_range l))"
    and "position_fits (tp_position (rp_params r))"
    and "\<forall>p. dt_position (dp_params d) = Some p \<longrightarrow> position_fits p"
  shows "Location_readNode (createNode (Location_writeNode l)) = Inr l \<and>
    ReferenceParams_readNode (createNode (ReferenceParams_writeNode r)) = Inr r \<and>
    TextDocumentPositionParams_readNode (createNode (TextDocumentPositionParams_writeNode (rp_params r))) = Inr (rp_params r) \<and>
    DiagramParams_readNode (createNode (DiagramParams_writeNode d)) = Inr d"
  using assms location_roundtrip [of l empty_tree] reference_roundtrip [of r empty_tree]
    params_roundtrip [of "rp_params r" empty_tree] diagram_roundtrip [of d]
  by (simp add: createNode_def)

theorem lsp_types_roundtrip_witness:
  "Location_readNode (createNode (Location_writeNode
     \<lparr>loc_uri = ''/p/a.cpp'', loc_range = \<lparr>range_start = \<lparr>pos_line = 3, pos_character = 1\<rparr>, range_end = \<lparr>pos_line = 4, pos_character = -1\<rparr>\<rparr>\<rparr>)) =
   Inr \<lparr>loc_uri = ''/p/a.cpp'', loc_range = \<lparr>range_start = \<lparr>pos_line = 3, pos_character = 1\<rparr>, range_end = \<lparr>pos_line = 4, pos_character = -1\<rparr>\<rparr>\<rparr>"
  using lsp_types_roundtrip [of "\<lparr>loc_uri = ''/p/a.cpp'', loc_range = \<lparr>range_start = \<lparr>pos_line = 3, pos_character = 1\<rparr>,
      range_end = \<lparr>pos_line = 4, pos_character = -1\<rparr>\<rparr>\<rparr>"
    "\<lparr>rp_params = \<lparr>tp_textDocument = \<lparr>doc_uri = []\<rparr>, tp_position = \<lparr>pos_line = 0, pos_character = 0\<rparr>\<rparr>,
      rp_context = \<lparr>includeDeclaration = True\<rparr>\<rparr>"
    "\<lparr>dp_params = \<lparr>dt_textDocument = \<lparr>doc_uri = []\<rparr>, dt_position = None\<rparr>, dp_diagramType = []\<rparr>"]
  by (simp add: position_fits_def fits_int_def)

text \<open>
  A completion item comes back with its label, but its other texts come back as Boost prints a
  present \<open>optional\<close>, because the optional itself and not its value is written; the kind survives any
  printing that only adds white space around a number.
\<close>

theorem completion_item_roundtrip:
  assumes "\<forall>k. ci_kind i = Some k \<longrightarrow> read_int (optional_text (show_int k)) = Some k"
  shows "CompletionItem_readNode (createNode (CompletionItem_writeNode optional_text i)) =
    Inr (i\<lparr>ci_detail := map_option optional_text (ci_detail i),
      ci_documentation := map_option optional_text (ci_documentation i),
      ci_data := map_option optional_text (ci_data i)\<rparr>)"
  using assms
  by (cases "ci_kind i"; cases "ci_detail i"; cases "ci_documentation i"; cases "ci_data i")
     (simp_all add: CompletionItem_readNode_def CompletionItem_writeNode_def put_optional_def node_defs Let_def)

theorem completion_item_roundtrip_witness:
  "CompletionItem_readNode (createNode (CompletionItem_writeNode (\<lambda>s. CHR '' '' # s)
     \<lparr>ci_label = ''f'', ci_kind = Some 3, ci_detail = Some ''int f()'', ci_documentation = None, ci_data = None\<rparr>)) =
   Inr \<lparr>ci_label = ''f'', ci_kind = Some 3, ci_detail = Some '' int f()'', ci_documentation = None, ci_data = None\<rparr>"
proof -
  have "read_int (CHR '' '' # show_int 3) = Some 3" by code_simp
  then show ?thesis
    using completion_item_roundtrip [of "\<lparr>ci_label = ''f'', ci_kind = Some 3, ci_detail = Some ''int f()'',
      ci_documentation = None, ci_data = None\<rparr>" "\<lambda>s. CHR '' '' # s"] by simp
qed

end
