(* ===== verification/LspService.thy ===== *)
theory LspService
  imports LspTypes
begin

text \<open>
  The request handler of the Language Server Protocol, \<^verbatim>\<open>webserver/include/webserver/lsphandler.h\<close>, and its
  base service \<^verbatim>\<open>service/lsp/src/lspservice.cpp\<close>.

  The virtual methods of a service are the record \<open>lsp_service\<close>; a method gets the response tree and the
  parameters and gives the new response tree or an exception. No method changes the response before it
  throws. The JSON reader and writer of Boost are parameters.
\<close>

section \<open>Methods\<close>

datatype LspMethod =
    Unknown_Method
  | Signature
  | Definition
  | Declaration
  | Implementation
  | References
  | DiagramTypes
  | Diagram
  | ModuleDiagram
  | Parameters
  | LocalVariables
  | Overridden
  | Overriders
  | Read
  | Write
  | Methods
  | Friends
  | EnumConstants
  | Expansion
  | Undefinition
  | ThisCalls
  | CallsOfThis
  | Callee
  | Caller
  | VirtualCall
  | FunctionPointerCall
  | Alias
  | Implements
  | DataMember
  | UnderlyingType

type_synonym lsp_handler = "ptree \<Rightarrow> ptree \<Rightarrow> lsp_error + ptree"

record lsp_service =
  getSignature :: lsp_handler
  getDefinition :: lsp_handler
  getDeclaration :: lsp_handler
  getImplementation :: lsp_handler
  getReferences :: lsp_handler
  getDiagramTypes :: lsp_handler
  getDiagram :: lsp_handler
  getModuleDiagram :: lsp_handler
  getParameters :: lsp_handler
  getLocalVariables :: lsp_handler
  getOverridden :: lsp_handler
  getOverrider :: lsp_handler
  getRead :: lsp_handler
  getWrite :: lsp_handler
  getMethods :: lsp_handler
  getFriends :: lsp_handler
  getEnumConstants :: lsp_handler
  getExpansion :: lsp_handler
  getUndefinition :: lsp_handler
  getThisCalls :: lsp_handler
  getCallsOfThis :: lsp_handler
  getCallee :: lsp_handler
  getCaller :: lsp_handler
  getVirtualCall :: lsp_handler
  getFunctionPointerCall :: lsp_handler
  getAlias :: lsp_handler
  getImplements :: lsp_handler
  getDataMember :: lsp_handler
  getUnderlyingType :: lsp_handler

definition methodMap :: "(string \<times> LspMethod) list" where
  "methodMap = [
     (''textDocument/signature'', Signature),
     (''textDocument/definition'', Definition),
     (''textDocument/declaration'', Declaration),
     (''textDocument/implementation'', Implementation),
     (''textDocument/references'', References),
     (''textDocument/diagramTypes'', DiagramTypes),
     (''textDocument/diagram'', Diagram),
     (''directory/diagram'', ModuleDiagram),
     (''textDocument/parameters'', Parameters),
     (''textDocument/localVariables'', LocalVariables),
     (''textDocument/overridden'', Overridden),
     (''textDocument/overriders'', Overriders),
     (''textDocument/read'', Read),
     (''textDocument/write'', Write),
     (''textDocument/methods'', Methods),
     (''textDocument/friends'', Friends),
     (''textDocument/enumConstants'', EnumConstants),
     (''textDocument/expansion'', Expansion),
     (''textDocument/undefinition'', Undefinition),
     (''textDocument/thisCalls'', ThisCalls),
     (''textDocument/callsOfThis'', CallsOfThis),
     (''textDocument/callee'', Callee),
     (''textDocument/caller'', Caller),
     (''textDocument/virtualCall'', VirtualCall),
     (''textDocument/functionPointerCall'', FunctionPointerCall),
     (''textDocument/alias'', Alias),
     (''textDocument/implements'', Implements),
     (''textDocument/dataMember'', DataMember),
     (''textDocument/underlyingType'', UnderlyingType)]"

definition parseMethod :: "string \<Rightarrow> LspMethod" where
  "parseMethod method = (case map_of methodMap method of None \<Rightarrow> Unknown_Method | Some m \<Rightarrow> m)"

section \<open>The base service\<close>

definition put_error :: "response_error \<Rightarrow> ptree \<Rightarrow> ptree" where
  "put_error e responseTree = put_child ''error'' (createNode (ResponseError_writeNode e)) responseTree"

definition getMethodNotFound :: "ptree \<Rightarrow> string \<Rightarrow> ptree" where
  "getMethodNotFound responseTree method =
     put_error \<lparr>err_code = MethodNotFound, err_message = ''Unsupported method: '' @ method\<rparr> responseTree"

definition getParseError :: "ptree \<Rightarrow> string \<Rightarrow> ptree" where
  "getParseError responseTree what =
     put_error \<lparr>err_code = ParseError, err_message = ''JSON RPC parsing error: '' @ what\<rparr> responseTree"

definition getInternalError :: "ptree \<Rightarrow> string \<Rightarrow> ptree" where
  "getInternalError responseTree what = put_error \<lparr>err_code = InternalError, err_message = what\<rparr> responseTree"

definition getUnknownError :: "ptree \<Rightarrow> ptree" where
  "getUnknownError responseTree = put_error \<lparr>err_code = UnknownError, err_message = []\<rparr> responseTree"

definition unsupported :: "string \<Rightarrow> lsp_handler" where
  "unsupported method responseTree params = Inr (getMethodNotFound responseTree method)"

definition LspServiceHandler :: lsp_service where
  "LspServiceHandler = \<lparr>
     getSignature = unsupported ''textDocument/signature'',
     getDefinition = unsupported ''textDocument/definition'',
     getDeclaration = unsupported ''textDocument/declaration'',
     getImplementation = unsupported ''textDocument/implementation'',
     getReferences = unsupported ''textDocument/references'',
     getDiagramTypes = unsupported ''textDocument/diagramTypes'',
     getDiagram = unsupported ''textDocument/diagram'',
     getModuleDiagram = unsupported ''directory/diagram'',
     getParameters = unsupported ''textDocument/parameters'',
     getLocalVariables = unsupported ''textDocument/localVariables'',
     getOverridden = unsupported ''textDocument/overridden'',
     getOverrider = unsupported ''textDocument/overriders'',
     getRead = unsupported ''textDocument/read'',
     getWrite = unsupported ''textDocument/write'',
     getMethods = unsupported ''textDocument/methods'',
     getFriends = unsupported ''textDocument/friends'',
     getEnumConstants = unsupported ''textDocument/enumConstants'',
     getExpansion = unsupported ''textDocument/expansion'',
     getUndefinition = unsupported ''textDocument/undefinition'',
     getThisCalls = unsupported ''textDocument/thisCalls'',
     getCallsOfThis = unsupported ''textDocument/callsOfThis'',
     getCallee = unsupported ''textDocument/callee'',
     getCaller = unsupported ''textDocument/caller'',
     getVirtualCall = unsupported ''textDocument/virtualCall'',
     getFunctionPointerCall = unsupported ''textDocument/functionPointerCall'',
     getAlias = unsupported ''textDocument/alias'',
     getImplements = unsupported ''textDocument/implements'',
     getDataMember = unsupported ''textDocument/dataMember'',
     getUnderlyingType = unsupported ''textDocument/underlyingType''\<rparr>"

section \<open>The request handler\<close>

text \<open>The switch of \<open>beginRequest\<close>.\<close>

fun dispatch :: "lsp_service \<Rightarrow> LspMethod \<Rightarrow> string \<Rightarrow> lsp_handler" where
  "dispatch srv Signature method responseTree params = getSignature srv responseTree params"
| "dispatch srv Definition method responseTree params = getDefinition srv responseTree params"
| "dispatch srv Declaration method responseTree params = getDeclaration srv responseTree params"
| "dispatch srv Implementation method responseTree params = getImplementation srv responseTree params"
| "dispatch srv References method responseTree params = getReferences srv responseTree params"
| "dispatch srv DiagramTypes method responseTree params = getDiagramTypes srv responseTree params"
| "dispatch srv Diagram method responseTree params = getDiagram srv responseTree params"
| "dispatch srv ModuleDiagram method responseTree params = getModuleDiagram srv responseTree params"
| "dispatch srv Parameters method responseTree params = getParameters srv responseTree params"
| "dispatch srv LocalVariables method responseTree params = getLocalVariables srv responseTree params"
| "dispatch srv Overridden method responseTree params = getOverridden srv responseTree params"
| "dispatch srv Overriders method responseTree params = getOverrider srv responseTree params"
| "dispatch srv Read method responseTree params = getRead srv responseTree params"
| "dispatch srv Write method responseTree params = getWrite srv responseTree params"
| "dispatch srv Methods method responseTree params = getMethods srv responseTree params"
| "dispatch srv Friends method responseTree params = getFriends srv responseTree params"
| "dispatch srv EnumConstants method responseTree params = getEnumConstants srv responseTree params"
| "dispatch srv Expansion method responseTree params = getExpansion srv responseTree params"
| "dispatch srv Undefinition method responseTree params = getUndefinition srv responseTree params"
| "dispatch srv ThisCalls method responseTree params = getThisCalls srv responseTree params"
| "dispatch srv CallsOfThis method responseTree params = getCallsOfThis srv responseTree params"
| "dispatch srv Callee method responseTree params = getCallee srv responseTree params"
| "dispatch srv Caller method responseTree params = getCaller srv responseTree params"
| "dispatch srv VirtualCall method responseTree params = getVirtualCall srv responseTree params"
| "dispatch srv FunctionPointerCall method responseTree params = getFunctionPointerCall srv responseTree params"
| "dispatch srv Alias method responseTree params = getAlias srv responseTree params"
| "dispatch srv Implements method responseTree params = getImplements srv responseTree params"
| "dispatch srv DataMember method responseTree params = getDataMember srv responseTree params"
| "dispatch srv UnderlyingType method responseTree params = getUnderlyingType srv responseTree params"
| "dispatch srv Unknown_Method method responseTree params = Inr (getMethodNotFound responseTree method)"

text \<open>The inner \<open>try\<close> block: the response tree as it is at the end, and the exception that ended it.\<close>

definition try_request ::
    "lsp_service \<Rightarrow> (string \<Rightarrow> lsp_error + ptree) \<Rightarrow> string \<Rightarrow> ptree \<Rightarrow> ptree \<times> lsp_error option" where
  "try_request srv read_json request responseTree =
     (case read_json request of
        Inl e \<Rightarrow> (responseTree, Some e)
      | Inr requestTree \<Rightarrow>
          (case get_string ''id'' requestTree of
             Inl e \<Rightarrow> (responseTree, Some e)
           | Inr requestId \<Rightarrow>
               let responseTree = put_text ''id'' requestId responseTree in
               (case get_string ''method'' requestTree of
                  Inl e \<Rightarrow> (responseTree, Some e)
                | Inr method \<Rightarrow>
                    (case get_child ''params'' requestTree of
                       Inl e \<Rightarrow> (responseTree, Some e)
                     | Inr params \<Rightarrow>
                         (case dispatch srv (parseMethod method) method responseTree params of
                            Inl e \<Rightarrow> (responseTree, Some e)
                          | Inr responseTree \<Rightarrow> (responseTree, None))))))"

text \<open>What is sent to the client.\<close>

datatype lsp_output = Send_Header string string | Send_Text string

definition send_response :: "string \<Rightarrow> lsp_output list" where
  "send_response response =
     [Send_Header ''Content-Type'' ''application/json'',
      Send_Header ''Content-Length'' (decimal (length response)),
      Send_Text [char_of (13 :: nat), char_of (10 :: nat)],
      Send_Text response]"

text \<open>The response tree that is written, unless the request ran into undefined behaviour.\<close>

definition response_tree ::
    "lsp_service \<Rightarrow> (string \<Rightarrow> lsp_error + ptree) \<Rightarrow> string \<Rightarrow> fault + ptree" where
  "response_tree srv read_json request =
     (case try_request srv read_json request (put_text ''jsonrpc'' ''2.0'' empty_tree) of
        (responseTree, None) \<Rightarrow> Inr responseTree
      | (responseTree, Some (Ptree_Error what)) \<Rightarrow> Inr (getParseError responseTree what)
      | (responseTree, Some (Std_Exception what)) \<Rightarrow> Inr (getInternalError responseTree what)
      | (responseTree, Some Other_Exception) \<Rightarrow> Inr (getUnknownError responseTree)
      | (responseTree, Some (Crash f)) \<Rightarrow> Inl f)"

definition beginRequest ::
    "lsp_service \<Rightarrow> (string \<Rightarrow> lsp_error + ptree) \<Rightarrow> (ptree \<Rightarrow> lsp_error + string) \<Rightarrow> string \<Rightarrow>
       fault + lsp_output list \<times> bool" where
  "beginRequest srv read_json write_json request =
     bindC (response_tree srv read_json request) (\<lambda>responseTree.
     case write_json responseTree of
       Inr response \<Rightarrow> Inr (send_response response, True)
     | Inl (Crash f) \<Rightarrow> Inl f
     | Inl e \<Rightarrow> Inr ([], True))"

section \<open>Responses\<close>

text \<open>A response tree: the version, perhaps the identifier, and at most one of result and error.\<close>

definition keys :: "ptree \<Rightarrow> string list" where
  "keys t = map fst (tree_children t)"

definition rpc_response :: "ptree \<Rightarrow> bool" where
  "rpc_response t \<longleftrightarrow> tree_data t = [] \<and> distinct (keys t) \<and>
     set (keys t) \<subseteq> {''jsonrpc'', ''id'', ''result'', ''error''} \<and>
     get_child_optional ''jsonrpc'' t = Some (Tree ''2.0'' []) \<and>
     \<not> (''result'' \<in> set (keys t) \<and> ''error'' \<in> set (keys t))"

lemma keys_put: "keys (put_child k c t) = (if k \<in> set (keys t) then keys t else keys t @ [k])"
proof -
  have "map fst (replace_child k c cs) = (if k \<in> fst ` set cs then map fst cs else map fst cs @ [k])" for cs
    by (induction k c cs rule: replace_child.induct) auto
  then show ?thesis by (simp add: keys_def put_child_def)
qed

lemma keys_put_text: "keys (put_text k s t) = (if k \<in> set (keys t) then keys t else keys t @ [k])"
  by (simp add: put_text_def keys_put)

lemma data_put [simp]: "tree_data (put_child k c t) = tree_data t" "tree_data (put_text k s t) = tree_data t"
  by (simp_all add: put_child_def put_text_def)

text \<open>The tree before a method is called: neither a result nor an error.\<close>

definition open_response :: "ptree \<Rightarrow> bool" where
  "open_response t \<longleftrightarrow> rpc_response t \<and> ''result'' \<notin> set (keys t) \<and> ''error'' \<notin> set (keys t)"

lemma put_result_shape:
  assumes "open_response t" "k = ''result'' \<or> k = ''error''"
  shows "rpc_response (put_child k c t)" "get_child_optional ''id'' (put_child k c t) = get_child_optional ''id'' t"
  using assms by (auto simp: open_response_def rpc_response_def keys_put)

text \<open>What a service promises: a method adds a result or an error to the response, or nothing.\<close>

locale lsp_methods =
  fixes srv :: lsp_service
  assumes method_answers: "dispatch srv m name t p = Inr t' \<Longrightarrow>
    t' = t \<or> (\<exists>c. t' = put_child ''result'' c t) \<or> (\<exists>c. t' = put_child ''error'' c t)"
begin

lemma answer_shape:
  assumes "open_response t" "dispatch srv m name t p = Inr t'"
  shows "rpc_response t' \<and> get_child_optional ''id'' t' = get_child_optional ''id'' t"
  using method_answers [OF assms(2)] put_result_shape [OF assms(1)] assms(1)
  by (auto simp: open_response_def)

lemma response_shape:
  assumes "response_tree srv read_json request = Inr t"
  shows "rpc_response t \<and> (\<forall>q i. read_json request = Inr q \<and> get_string ''id'' q = Inr i \<longrightarrow>
    get_child_optional ''id'' t = Some (Tree i []))"
proof -
  let ?t0 = "put_text ''jsonrpc'' ''2.0'' empty_tree"
  have t0: "open_response ?t0"
    by (simp add: open_response_def rpc_response_def keys_put_text get_put_text) (simp add: keys_def empty_tree_def)
  have t1: "open_response (put_text ''id'' i ?t0)" "get_child_optional ''id'' (put_text ''id'' i ?t0) = Some (Tree i [])" for i
    using t0 by (auto simp: open_response_def rpc_response_def keys_put_text get_put_text)
  obtain r e where re: "try_request srv read_json request ?t0 = (r, e)" by fastforce
  define ids where "ids r \<longleftrightarrow> (\<forall>q i. read_json request = Inr q \<and> get_string ''id'' q = Inr i \<longrightarrow>
      get_child_optional ''id'' r = Some (Tree i []))" for r
  have "(e = None \<longrightarrow> rpc_response r \<and> ids r) \<and> (e \<noteq> None \<longrightarrow> open_response r \<and> ids r)"
  proof (cases "read_json request")
    case (Inl x)
    then show ?thesis using re t0 by (auto simp: try_request_def ids_def)
  next
    case (Inr q)
    show ?thesis
    proof (cases "get_string ''id'' q")
      case (Inl x)
      then show ?thesis using re t0 Inr by (auto simp: try_request_def ids_def)
    next
      case id: (Inr i)
      have "(e = None \<longrightarrow> rpc_response r) \<and> (e \<noteq> None \<longrightarrow> open_response r) \<and>
          get_child_optional ''id'' r = Some (Tree i [])"
        using re Inr id t1 [of i] answer_shape [OF t1(1)]
        by (auto simp: try_request_def Let_def split: sum.splits)
      then show ?thesis using Inr id by (auto simp: ids_def)
    qed
  qed
  moreover have "ids (put_child ''error'' c r) \<longleftrightarrow> ids r" for c by (simp add: ids_def)
  ultimately have "rpc_response t \<and> ids t"
    using assms re put_result_shape(1) [of r "''error''"]
    by (auto simp: response_tree_def getParseError_def getInternalError_def getUnknownError_def put_error_def
        split: option.splits lsp_error.splits)
  then show ?thesis unfolding ids_def .
qed

end

lemma base_dispatch:
  "m \<noteq> Unknown_Method \<Longrightarrow> \<exists>s. dispatch LspServiceHandler m name t p = Inr (getMethodNotFound t s)"
  by (cases m) (auto simp: LspServiceHandler_def unsupported_def)

interpretation base_service: lsp_methods LspServiceHandler
proof unfold_locales
  fix m name t p t'
  assume "dispatch LspServiceHandler m name t p = Inr t'"
  then show "t' = t \<or> (\<exists>c. t' = put_child ''result'' c t) \<or> (\<exists>c. t' = put_child ''error'' c t)"
    using base_dispatch [of m name t p]
    by (cases "m = Unknown_Method") (auto simp: getMethodNotFound_def put_error_def)
qed

text \<open>
  The table of method names, the switch over the methods and the methods of the base service fit
  together: whatever method a client asks a service for that overrides nothing, the answer is an error that names
  the method it asked for.
\<close>

theorem base_service_names_method:
  "dispatch LspServiceHandler (parseMethod method) method t p =
    Inr (put_child ''error'' (createNode (ResponseError_writeNode
      \<lparr>err_code = MethodNotFound, err_message = ''Unsupported method: '' @ method\<rparr>)) t)"
proof (cases "map_of methodMap method")
  case None
  then show ?thesis by (simp add: parseMethod_def getMethodNotFound_def put_error_def)
next
  case (Some m)
  then have "(method, m) \<in> set methodMap" by (rule map_of_SomeD)
  then have "dispatch LspServiceHandler m method t p = Inr (getMethodNotFound t method)"
    unfolding methodMap_def by (auto simp: LspServiceHandler_def unsupported_def)
  then show ?thesis using Some by (simp add: parseMethod_def getMethodNotFound_def put_error_def)
qed

end
