(* ===== verification/CppLsp.thy ===== *)
theory CppLsp
  imports LspService CppModel
begin

text \<open>
  \<^verbatim>\<open>plugins/cpp_lsp/service/src/cpplspservice.cpp\<close>: the language server of the C++ plugin.

  What it asks of the C++ service, the project service and the database is the record \<open>cpp_backend\<close>. A graph
  is given by the neighbours of its nodes and by how it is drawn with the attributes \<open>id\<close> that the
  service sets. The loops that set them are given a bound on their rounds; None says that it was too small.
\<close>

section \<open>What the service uses\<close>

record ast_node_info =
  ai_id :: string
  ai_value :: string
  ai_file :: string
  ai_range :: lsp_range

record graph =
  gr_nodeCount :: nat
  gr_children :: "string \<Rightarrow> string list"
  gr_parents :: "string \<Rightarrow> string list"
  gr_svg :: "(string \<Rightarrow> string option) \<Rightarrow> string"

record cpp_backend =
  file_by_path :: "string \<Rightarrow> string option"                       \<comment> \<open>the identifier of the file as text\<close>
  getAstNodeInfoByPosition :: "string \<Rightarrow> lsp_position \<Rightarrow> lsp_error + ast_node_info"
  cpp_getReferences :: "string \<Rightarrow> reference_type \<Rightarrow> lsp_error + ast_node_info list"
  load_path :: "string \<Rightarrow> lsp_error + string"
  getFileDiagramTypes :: "string \<Rightarrow> lsp_error + string list"
  cpp_getDiagramTypes :: "string \<Rightarrow> lsp_error + string list"
  returnFileDiagram :: "string \<Rightarrow> diagram_type \<Rightarrow> lsp_error + graph"
  returnDiagram :: "string \<Rightarrow> diagram_type \<Rightarrow> lsp_error + graph"
  getFileInfo :: "string \<Rightarrow> lsp_error + string \<times> string"             \<comment> \<open>identifier and path\<close>

section \<open>References\<close>

fun map_E :: "('a \<Rightarrow> 'e + 'b) \<Rightarrow> 'a list \<Rightarrow> 'e + 'b list" where
  "map_E f [] = Inr []"
| "map_E f (x # xs) = bindE (f x) (\<lambda>y. bindE (map_E f xs) (\<lambda>ys. Inr (y # ys)))"

definition node_location :: "cpp_backend \<Rightarrow> ast_node_info \<Rightarrow> lsp_error + lsp_location" where
  "node_location b nodeInfo =
     bindE (load_path b (ai_file nodeInfo)) (\<lambda>path. Inr \<lparr>loc_uri = path, loc_range = ai_range nodeInfo\<rparr>)"

definition responseLocations ::
    "cpp_backend \<Rightarrow> text_document_position_params \<Rightarrow> reference_type \<Rightarrow> lsp_error + lsp_location list" where
  "responseLocations b params refType =
     (case file_by_path b (doc_uri (tp_textDocument params)) of
        None \<Rightarrow> Inr []
      | Some file \<Rightarrow>
          bindE (getAstNodeInfoByPosition b file (tp_position params)) (\<lambda>astNodeInfo.
          bindE (cpp_getReferences b (ai_id astNodeInfo) refType) (\<lambda>nodeInfos.
          map_E (node_location b) nodeInfos)))"

definition location_array :: "lsp_location list \<Rightarrow> ptree" where
  "location_array locations = fold (\<lambda>l t. push_back ([], createNode (Location_writeNode l)) t) locations empty_tree"

definition fillResponseTree :: "cpp_backend \<Rightarrow> reference_type \<Rightarrow> bool \<Rightarrow> lsp_handler" where
  "fillResponseTree b refType canBeSingle responseTree params =
     bindE (TextDocumentPositionParams_readNode params) (\<lambda>positionParams.
     bindE (responseLocations b positionParams refType) (\<lambda>locations.
     Inr (if canBeSingle \<and> length locations = 1
          then put_child ''result'' (createNode (Location_writeNode (locations ! 0))) responseTree
          else if length locations > 1 then put_child ''result'' (location_array locations) responseTree
          else responseTree)))"

definition cpp_getSignature :: "cpp_backend \<Rightarrow> lsp_handler" where
  "cpp_getSignature b responseTree params =
     bindE (TextDocumentPositionParams_readNode params) (\<lambda>positionParams.
     case file_by_path b (doc_uri (tp_textDocument positionParams)) of
       None \<Rightarrow> Inr responseTree
     | Some file \<Rightarrow>
         bindE (getAstNodeInfoByPosition b file (tp_position positionParams)) (\<lambda>astNodeInfo.
         Inr (put_text ''result'' (ai_value astNodeInfo) responseTree)))"

section \<open>Diagrams\<close>

definition fileDiagramTypes :: "cpp_backend \<Rightarrow> diagram_type_params \<Rightarrow> lsp_error + string list" where
  "fileDiagramTypes b params =
     (case file_by_path b (doc_uri (dt_textDocument params)) of
        None \<Rightarrow> Inr []
      | Some file \<Rightarrow> getFileDiagramTypes b file)"

definition nodeDiagramTypes :: "cpp_backend \<Rightarrow> diagram_type_params \<Rightarrow> lsp_position \<Rightarrow> lsp_error + string list" where
  "nodeDiagramTypes b params position =
     (case file_by_path b (doc_uri (dt_textDocument params)) of
        None \<Rightarrow> Inr []
      | Some file \<Rightarrow>
          bindE (getAstNodeInfoByPosition b file position) (\<lambda>astNodeInfo.
          cpp_getDiagramTypes b (ai_id astNodeInfo)))"

definition cpp_getDiagramTypes_handler :: "cpp_backend \<Rightarrow> lsp_handler" where
  "cpp_getDiagramTypes_handler b responseTree params =
     bindE (DiagramTypeParams_readNode params) (\<lambda>diagramTypeParams.
     bindE (case dt_position diagramTypeParams of
         None \<Rightarrow> fileDiagramTypes b diagramTypeParams
       | Some p \<Rightarrow> nodeDiagramTypes b diagramTypeParams p) (\<lambda>diagramTypesResult.
     Inr (put_child ''result''
       (fold (\<lambda>diagramType t. push_back ([], Tree diagramType []) t) diagramTypesResult empty_tree) responseTree)))"

text \<open>
  The loop of \<open>addLocationToIdInDiagram\<close> and \<open>addPathToIdInFileDiagram\<close>. A node that is popped from the
  stack is resolved to an identifier; \<open>label\<close> is computed when that is visited for the first time. The list
  \<open>unvisited\<close> has its top first, \<open>visited\<close> maps identifiers to true, or to false when they are pushed.
\<close>

definition push_new :: "string list \<Rightarrow> string list \<times> (string \<Rightarrow> bool option) \<Rightarrow> string list \<times> (string \<Rightarrow> bool option)" where
  "push_new ids sv = fold (\<lambda>i (unvisited, visited).
     if visited i = None then (i # unvisited, visited(i \<mapsto> False)) else (unvisited, visited)) ids sv"

fun annotate ::
    "nat \<Rightarrow> (string \<Rightarrow> lsp_error + string \<times> (lsp_error + string)) \<Rightarrow> graph \<Rightarrow> string list \<Rightarrow>
       (string \<Rightarrow> bool option) \<Rightarrow> (string \<Rightarrow> string option) \<Rightarrow> (lsp_error + (string \<Rightarrow> string option)) option" where
  "annotate fuel resolve g [] visited attrs = Some (Inr attrs)"
| "annotate 0 resolve g (current # unvisited) visited attrs = None"
| "annotate (Suc fuel) resolve g (current # unvisited) visited attrs =
     (case resolve current of
        Inl e \<Rightarrow> Some (Inl e)
      | Inr (i, label) \<Rightarrow>
          if visited i = Some True then annotate fuel resolve g unvisited visited attrs
          else
            let (unvisited, visited) = push_new (gr_parents g i)
                  (push_new (gr_children g i) (unvisited, visited(i \<mapsto> True)))
            in
            case label of
              Inl e \<Rightarrow> Some (Inl e)
            | Inr l \<Rightarrow> annotate fuel resolve g unvisited visited (attrs(i \<mapsto> l)))"

text \<open>\<open>nodes.front()\<close> of an empty vector is undefined.\<close>

definition resolve_location :: "cpp_backend \<Rightarrow> string \<Rightarrow> lsp_error + string \<times> (lsp_error + string)" where
  "resolve_location b current =
     bindE (cpp_getReferences b current DEFINITION) (\<lambda>nodes.
     case nodes of
       [] \<Rightarrow> Inl (Crash Out_Of_Bounds)
     | nodeInfo # _ \<Rightarrow>
         Inr (ai_id nodeInfo, bindE (load_path b (ai_file nodeInfo)) (\<lambda>path.
           Inr (path @ '';'' @ show_int (pos_line (range_start (ai_range nodeInfo))) @ '';'' @
             show_int (pos_character (range_start (ai_range nodeInfo)))))))"

definition addLocationToIdInDiagram ::
    "nat \<Rightarrow> cpp_backend \<Rightarrow> graph \<Rightarrow> string \<Rightarrow> (lsp_error + (string \<Rightarrow> string option)) option" where
  "addLocationToIdInDiagram fuel b g root = annotate fuel (resolve_location b) g [root] Map.empty Map.empty"

definition resolve_file :: "cpp_backend \<Rightarrow> string \<Rightarrow> lsp_error + string \<times> (lsp_error + string)" where
  "resolve_file b current = bindE (getFileInfo b current) (\<lambda>(i, path). Inr (i, Inr path))"

definition addPathToIdInFileDiagram ::
    "nat \<Rightarrow> cpp_backend \<Rightarrow> graph \<Rightarrow> string \<Rightarrow> (lsp_error + (string \<Rightarrow> string option)) option" where
  "addPathToIdInFileDiagram fuel b g root = annotate fuel (resolve_file b) g [root] Map.empty Map.empty"

text \<open>The drawing of a graph with its attributes, if the loop is done within its bound.\<close>

definition drawn :: "graph \<Rightarrow> (lsp_error + (string \<Rightarrow> string option)) option \<Rightarrow> (lsp_error + string) option" where
  "drawn g r = map_option (\<lambda>x. bindE x (\<lambda>attrs. Inr (gr_svg g attrs))) r"

definition file_diagram_names :: "(string \<times> diagram_type) list" where
  "file_diagram_names =
     [(''Internal architecture of this module'', SUBSYSTEM_DEPENDENCY),
      (''This module depends on'', EXTERNAL_DEPENDENCY),
      (''Users of this module'', EXTERNAL_USERS),
      (''Include Dependency'', INCLUDE_DEPENDENCY),
      (''Component Users'', COMPONENT_USERS),
      (''Interface Diagram'', INTERFACE)]"

definition fileDiagram :: "nat \<Rightarrow> cpp_backend \<Rightarrow> diagram_params \<Rightarrow> (lsp_error + string) option" where
  "fileDiagram fuel b params =
     (case file_by_path b (doc_uri (dt_textDocument (dp_params params))) of
        None \<Rightarrow> Some (Inr [])
      | Some file \<Rightarrow>
          (case map_of file_diagram_names (dp_diagramType params) of
             None \<Rightarrow> Some (Inr [])
           | Some d \<Rightarrow>
               (case returnFileDiagram b file d of
                  Inl e \<Rightarrow> Some (Inl e)
                | Inr g \<Rightarrow> if gr_nodeCount g \<noteq> 0 then drawn g (addPathToIdInFileDiagram fuel b g file) else Some (Inr []))))"

definition node_diagram_names :: "(string \<times> diagram_type) list" where
  "node_diagram_names =
     [(''Function call diagram'', FUNCTION_CALL), (''Detailed class diagram'', DETAILED_CLASS),
      (''Class collaboration diagram'', CLASS_COLLABORATION)]"

definition nodeDiagram :: "nat \<Rightarrow> cpp_backend \<Rightarrow> diagram_params \<Rightarrow> lsp_position \<Rightarrow> (lsp_error + string) option" where
  "nodeDiagram fuel b params position =
     (case file_by_path b (doc_uri (dt_textDocument (dp_params params))) of
        None \<Rightarrow> Some (Inr [])
      | Some file \<Rightarrow>
          (case getAstNodeInfoByPosition b file position of
             Inl e \<Rightarrow> Some (Inl e)
           | Inr astNodeInfo \<Rightarrow>
               (case map_of node_diagram_names (dp_diagramType params) of
                  None \<Rightarrow> Some (Inr [])
                | Some d \<Rightarrow>
                    (case returnDiagram b (ai_id astNodeInfo) d of
                       Inl e \<Rightarrow> Some (Inl e)
                     | Inr g \<Rightarrow>
                         if gr_nodeCount g \<noteq> 0
                         then drawn g (addLocationToIdInDiagram fuel b g (ai_id astNodeInfo)) else Some (Inr [])))))"

text \<open>A loop that is not done within the bound is a crash of the model.\<close>

definition cpp_getDiagram :: "nat \<Rightarrow> cpp_backend \<Rightarrow> lsp_handler" where
  "cpp_getDiagram fuel b responseTree params =
     bindE (DiagramParams_readNode params) (\<lambda>diagramParams.
     bindE (case (case dt_position (dp_params diagramParams) of
              None \<Rightarrow> fileDiagram fuel b diagramParams
            | Some p \<Rightarrow> nodeDiagram fuel b diagramParams p) of
         None \<Rightarrow> Inl (Crash Assertion_Failure)
       | Some r \<Rightarrow> r) (\<lambda>diagramResult.
     Inr (put_text ''result'' diagramResult responseTree)))"

section \<open>The service\<close>

definition CppLspServiceHandler :: "nat \<Rightarrow> cpp_backend \<Rightarrow> lsp_service" where
  "CppLspServiceHandler fuel b = \<lparr>
     getSignature = cpp_getSignature b,
     getDefinition = fillResponseTree b DEFINITION True,
     getDeclaration = fillResponseTree b DECLARATION True,
     getImplementation = fillResponseTree b INHERIT_BY True,
     getReferences = fillResponseTree b USAGE False,
     getDiagramTypes = cpp_getDiagramTypes_handler b,
     getDiagram = cpp_getDiagram fuel b,
     getModuleDiagram = cpp_getDiagram fuel b,
     getParameters = fillResponseTree b PARAMETER True,
     getLocalVariables = fillResponseTree b LOCAL_VAR True,
     getOverridden = fillResponseTree b OVERRIDE True,
     getOverrider = fillResponseTree b OVERRIDDEN_BY True,
     getRead = fillResponseTree b READ True,
     getWrite = fillResponseTree b WRITE True,
     getMethods = fillResponseTree b METHOD True,
     getFriends = fillResponseTree b FRIEND True,
     getEnumConstants = fillResponseTree b ENUM_CONSTANTS True,
     getExpansion = fillResponseTree b EXPANSION True,
     getUndefinition = fillResponseTree b UNDEFINITION True,
     getThisCalls = fillResponseTree b THIS_CALLS True,
     getCallsOfThis = fillResponseTree b CALLS_OF_THIS True,
     getCallee = fillResponseTree b CALLEE True,
     getCaller = fillResponseTree b CALLER True,
     getVirtualCall = fillResponseTree b VIRTUAL_CALL True,
     getFunctionPointerCall = fillResponseTree b FUNC_PTR_CALL True,
     getAlias = fillResponseTree b ALIAS True,
     getImplements = fillResponseTree b INHERIT_FROM True,
     getDataMember = fillResponseTree b DATA_MEMBER True,
     getUnderlyingType = fillResponseTree b UNDERLYING_TYPE True\<rparr>"

section \<open>Answers\<close>

lemma fill_answers:
  "fillResponseTree b r single t p = Inr t' \<Longrightarrow> t' = t \<or> (\<exists>c. t' = put_child ''result'' c t)"
  by (auto simp: fillResponseTree_def bindE_def split: sum.splits if_splits)

lemma other_answers:
  "cpp_getSignature b t p = Inr t' \<Longrightarrow> t' = t \<or> (\<exists>c. t' = put_child ''result'' c t)"
  "cpp_getDiagramTypes_handler b t p = Inr t' \<Longrightarrow> t' = t \<or> (\<exists>c. t' = put_child ''result'' c t)"
  "cpp_getDiagram fuel b t p = Inr t' \<Longrightarrow> t' = t \<or> (\<exists>c. t' = put_child ''result'' c t)"
  by (auto simp: cpp_getSignature_def cpp_getDiagramTypes_handler_def cpp_getDiagram_def put_text_def bindE_def
      split: sum.splits option.splits)

interpretation cpp_service: lsp_methods "CppLspServiceHandler fuel b"
proof unfold_locales
  fix m name t p t'
  assume d: "dispatch (CppLspServiceHandler fuel b) m name t p = Inr t'"
  show "t' = t \<or> (\<exists>c. t' = put_child ''result'' c t) \<or> (\<exists>c. t' = put_child ''error'' c t)"
  proof (cases "m = Unknown_Method")
    case True
    then show ?thesis using d by (auto simp: getMethodNotFound_def put_error_def)
  next
    case False
    then have "t' = t \<or> (\<exists>c. t' = put_child ''result'' c t)"
      using d by (cases m) (simp_all add: CppLspServiceHandler_def fill_answers other_answers)
    then show ?thesis by blast
  qed
qed


definition test_backend :: cpp_backend where
  "test_backend = \<lparr>file_by_path = (\<lambda>p. if p = ''/a.cpp'' then Some ''5'' else None),
     getAstNodeInfoByPosition = (\<lambda>_ p. Inr \<lparr>ai_id = ''9'', ai_value = ''f'', ai_file = ''5'',
       ai_range = \<lparr>range_start = p, range_end = p\<rparr>\<rparr>),
     cpp_getReferences = (\<lambda>i _. Inr [\<lparr>ai_id = i, ai_value = ''f'', ai_file = ''5'',
       ai_range = \<lparr>range_start = \<lparr>pos_line = 1, pos_character = 1\<rparr>, range_end = \<lparr>pos_line = 1, pos_character = 2\<rparr>\<rparr>\<rparr>]),
     load_path = (\<lambda>_. Inr ''/a.cpp''), getFileDiagramTypes = (\<lambda>_. Inr []), cpp_getDiagramTypes = (\<lambda>_. Inr []),
     returnFileDiagram = (\<lambda>_ _. Inl Other_Exception), returnDiagram = (\<lambda>_ _. Inl Other_Exception),
     getFileInfo = (\<lambda>i. Inr (i, ''/a.cpp''))\<rparr>"


text \<open>
  A symbol with exactly one usage is answered without a result when the references are asked for:
  the result should always be an array there, but the array is made for two and more locations only. For
  every other method, a single location is the result itself.
\<close>

theorem single_reference_dropped:
  assumes "TextDocumentPositionParams_readNode params = Inr pp" "responseLocations b pp USAGE = Inr [l]"
    and "responseLocations b pp DEFINITION = Inr [d]"
  shows "dispatch (CppLspServiceHandler fuel b) (parseMethod ''textDocument/references'') m t params = Inr t \<and>
    dispatch (CppLspServiceHandler fuel b) (parseMethod ''textDocument/definition'') m t params =
      Inr (put_child ''result'' (createNode (Location_writeNode d)) t)"
proof -
  have "parseMethod ''textDocument/references'' = References" "parseMethod ''textDocument/definition'' = Definition"
    by (simp_all add: parseMethod_def methodMap_def)
  then show ?thesis using assms by (simp add: CppLspServiceHandler_def fillResponseTree_def)
qed

theorem single_reference_dropped_witness:
  "\<forall>m t. \<exists>params. dispatch (CppLspServiceHandler 0 test_backend) (parseMethod ''textDocument/references'') m t params = Inr t"
proof (intro allI)
  fix m :: string and t :: ptree
  let ?pp = "\<lparr>tp_textDocument = \<lparr>doc_uri = ''/a.cpp''\<rparr>, tp_position = \<lparr>pos_line = 1, pos_character = 1\<rparr>\<rparr>"
  have r: "TextDocumentPositionParams_readNode (TextDocumentPositionParams_writeNode ?pp empty_tree) = Inr ?pp"
    by (rule params_roundtrip) (simp add: position_fits_def fits_int_def)
  have "responseLocations test_backend ?pp x = Inr [\<lparr>loc_uri = ''/a.cpp'',
      loc_range = \<lparr>range_start = \<lparr>pos_line = 1, pos_character = 1\<rparr>, range_end = \<lparr>pos_line = 1, pos_character = 2\<rparr>\<rparr>\<rparr>]" for x
    by (simp add: responseLocations_def test_backend_def node_location_def)
  from single_reference_dropped [OF r this this]
  show "\<exists>params. dispatch (CppLspServiceHandler 0 test_backend) (parseMethod ''textDocument/references'') m t params = Inr t"
    by blast
qed

section \<open>The diagrams are finished\<close>

lemma push_new_size:
  "finite U \<Longrightarrow> set ids \<subseteq> U \<Longrightarrow> push_new ids (st, vis) = (st', vis') \<Longrightarrow>
     length st' + card (U - dom vis') = length st + card (U - dom vis)"
proof (induction ids arbitrary: st vis)
  case (Cons i ids)
  show ?case
  proof (cases "vis i")
    case None
    then have "i \<in> U - dom vis" using Cons.prems(2) by auto
    moreover have "U - dom (vis(i \<mapsto> False)) = (U - dom vis) - {i}" by auto
    ultimately have "Suc (card (U - dom (vis(i \<mapsto> False)))) = card (U - dom vis)"
      using Cons.prems(1) by (metis card.remove finite_Diff)
    moreover have "push_new ids (i # st, vis(i \<mapsto> False)) = (st', vis')"
      using Cons.prems(3) None by (simp add: push_new_def)
    ultimately show ?thesis using Cons.IH Cons.prems(1,2) by fastforce
  next
    case (Some v)
    then have "push_new ids (st, vis) = (st', vis')" using Cons.prems(3) by (simp add: push_new_def)
    then show ?thesis using Cons by simp
  qed
qed (simp add: push_new_def)

lemma annotate_ends:
  assumes U: "finite U" "\<forall>i. set (gr_children g i) \<subseteq> U \<and> set (gr_parents g i) \<subseteq> U"
  shows "length st + card (U - dom vis) \<le> fuel \<Longrightarrow> annotate fuel resolve g st vis attrs \<noteq> None"
proof (induction fuel arbitrary: st vis attrs)
  case 0
  then show ?case by simp
next
  case (Suc fuel)
  show ?case
  proof (cases st)
    case Nil
    then show ?thesis by simp
  next
    case (Cons current rest)
    show ?thesis
    proof (cases "resolve current")
      case (Inl e)
      then show ?thesis using Cons by simp
    next
      case (Inr il)
      obtain i label where il: "il = (i, label)" by (cases il)
      show ?thesis
      proof (cases "vis i = Some True")
        case True
        then show ?thesis using Cons Inr il Suc by simp
      next
        case False
        obtain s1 v1 where p1: "push_new (gr_children g i) (rest, vis(i \<mapsto> True)) = (s1, v1)" by fastforce
        obtain s2 v2 where p2: "push_new (gr_parents g i) (s1, v1) = (s2, v2)" by fastforce
        have "length s1 + card (U - dom v1) = length rest + card (U - dom (vis(i \<mapsto> True)))"
          by (rule push_new_size [OF U(1) _ p1]) (use U(2) in blast)
        moreover have "length s2 + card (U - dom v2) = length s1 + card (U - dom v1)"
          by (rule push_new_size [OF U(1) _ p2]) (use U(2) in blast)
        moreover have "card (U - dom (vis(i \<mapsto> True))) \<le> card (U - dom vis)"
          by (rule card_mono) (use U(1) in auto)
        ultimately have "length s2 + card (U - dom v2) \<le> fuel" using Suc.prems Cons by simp
        then have "annotate fuel resolve g s2 v2 (attrs(i \<mapsto> l)) \<noteq> None" for l by (rule Suc.IH)
        then show ?thesis using Cons Inr il False p1 p2 by (cases label) simp_all
      qed
    qed
  qed
qed

text \<open>
  The loops that put a location or a path on every node of a diagram end, whatever the C++ service
  answers: on a graph with at most \<open>n\<close> neighbours in all, \<open>n + 1\<close> rounds are enough, because no node is pushed
  twice.
\<close>

theorem diagram_loop_ends:
  assumes "finite U" "\<forall>i. set (gr_children g i) \<subseteq> U \<and> set (gr_parents g i) \<subseteq> U" "card U + 1 \<le> fuel"
  shows "addLocationToIdInDiagram fuel b g root \<noteq> None \<and> addPathToIdInFileDiagram fuel b g root \<noteq> None"
  unfolding addLocationToIdInDiagram_def addPathToIdInFileDiagram_def
  using annotate_ends [OF assms(1,2), of "[root]" Map.empty fuel] assms(3) by simp

definition test_graph :: graph where
  "test_graph = \<lparr>gr_nodeCount = 2, gr_children = (\<lambda>i. if i = ''1'' then [''2''] else []),
     gr_parents = (\<lambda>i. if i = ''2'' then [''1''] else []), gr_svg = (\<lambda>attrs. case attrs ''2'' of None \<Rightarrow> [] | Some a \<Rightarrow> a)\<rparr>"

theorem diagram_loop_ends_witness:
  "addLocationToIdInDiagram 3 test_backend test_graph ''1'' \<noteq> None \<and>
   addPathToIdInFileDiagram 3 test_backend test_graph ''1'' \<noteq> None"
  by (rule diagram_loop_ends [of "{''1'', ''2''}"]) (auto simp: test_graph_def)

end
