(* ===== verification/Worklist.thy ===== *)
theory Worklist
  imports Main
begin

text \<open>
  Breadth-first search with a queue and the elements seen so far, as several services write it: an element
  is taken from the queue, and its successors that have not been seen are marked and queued. The
  element the search starts from is not marked, so the result is what can be reached in one or more
  steps.
\<close>

section \<open>The search\<close>

definition push_unseen :: "'a list \<Rightarrow> 'a list \<times> 'a list \<Rightarrow> 'a list \<times> 'a list" where
  "push_unseen ys qs =
     fold (\<lambda>y (q, seen). if y \<in> set seen then (q, seen) else (q @ [y], seen @ [y])) ys qs"

partial_function (option) worklist :: "('a \<Rightarrow> 'a list) \<Rightarrow> 'a list \<Rightarrow> 'a list \<Rightarrow> 'a list option" where
  "worklist succs q seen =
     (case q of
        [] \<Rightarrow> Some seen
      | x # q \<Rightarrow> (case push_unseen (succs x) (q, seen) of (q, seen) \<Rightarrow> worklist succs q seen))"

lemma worklist_simps [simp]:
  "worklist succs [] seen = Some seen"
  "worklist succs (x # q) seen =
     (case push_unseen (succs x) (q, seen) of (q, seen) \<Rightarrow> worklist succs q seen)"
  by (subst worklist.simps, simp)+

definition edges_of :: "('a \<Rightarrow> 'a list) \<Rightarrow> ('a \<times> 'a) set" where
  "edges_of succs = {(x, y). y \<in> set (succs x)}"

lemma edges_of_iff [simp]: "(x, y) \<in> edges_of succs \<longleftrightarrow> y \<in> set (succs x)"
  by (simp add: edges_of_def)

section \<open>One step\<close>

lemma push_unseen_append:
  assumes "push_unseen ys (q, seen) = (q', seen')"
  obtains new where "q' = q @ new" "seen' = seen @ new" "set new = set ys - set seen" "distinct new"
  using assms
proof (induction ys arbitrary: q seen thesis)
  case Nil
  then show ?case by (simp add: push_unseen_def)
next
  case (Cons y ys)
  show ?case
  proof (cases "y \<in> set seen")
    case True
    then have "push_unseen ys (q, seen) = (q', seen')" using Cons.prems(2) by (simp add: push_unseen_def)
    then obtain new where "q' = q @ new" "seen' = seen @ new" "set new = set ys - set seen" "distinct new"
      by (rule Cons.IH [rotated])
    then show ?thesis using Cons.prems(1) [of new] True by auto
  next
    case False
    then have "push_unseen ys (q @ [y], seen @ [y]) = (q', seen')" using Cons.prems(2) by (simp add: push_unseen_def)
    then obtain new where "q' = (q @ [y]) @ new" "seen' = (seen @ [y]) @ new"
      "set new = set ys - set (seen @ [y])" "distinct new" by (rule Cons.IH [rotated])
    then show ?thesis using Cons.prems(1) [of "y # new"] False by auto
  qed
qed

section \<open>The result\<close>

text \<open>
  What the loop keeps: the queue and the marks come from the start, the successors of everything that
  has left the queue are marked.
\<close>

definition search_inv :: "('a \<Rightarrow> 'a list) \<Rightarrow> 'a \<Rightarrow> 'a list \<Rightarrow> 'a list \<Rightarrow> bool" where
  "search_inv succs x q seen \<longleftrightarrow>
     distinct seen \<and> set seen \<subseteq> (edges_of succs)\<^sup>+ `` {x} \<and> set q \<subseteq> insert x (set seen) \<and>
     (\<forall>y \<in> insert x (set seen) - set q. set (succs y) \<subseteq> set seen)"

lemma search_inv_step:
  assumes inv: "search_inv succs x (y # q) seen" and push: "push_unseen (succs y) (q, seen) = (q', seen')"
  shows "search_inv succs x q' seen'"
proof -
  obtain new where new: "q' = q @ new" "seen' = seen @ new" "set new = set (succs y) - set seen" "distinct new"
    using push by (rule push_unseen_append)
  note inv' = inv [unfolded search_inv_def]
  have "y = x \<or> (x, y) \<in> (edges_of succs)\<^sup>+" using inv' by auto
  then have "set new \<subseteq> (edges_of succs)\<^sup>+ `` {x}"
    using new(3) by (auto simp flip: edges_of_iff intro: trancl_into_trancl)
  moreover have "\<forall>z \<in> insert x (set seen') - set q'. set (succs z) \<subseteq> set seen'"
  proof
    fix z assume z: "z \<in> insert x (set seen') - set q'"
    show "set (succs z) \<subseteq> set seen'"
    proof (cases "z = y")
      case True
      then show ?thesis using new by auto
    next
      case False
      then have "z \<in> insert x (set seen) - set (y # q)" using z new by auto
      then show ?thesis using inv' new(2) by fastforce
    qed
  qed
  ultimately show ?thesis using inv' new by (auto simp: search_inv_def)
qed

lemma closed_trancl: "(x, y) \<in> E\<^sup>+ \<Longrightarrow> (\<And>z. (x, z) \<in> E \<Longrightarrow> z \<in> S) \<Longrightarrow> (\<And>u v. u \<in> S \<Longrightarrow> (u, v) \<in> E \<Longrightarrow> v \<in> S) \<Longrightarrow> y \<in> S"
  by (induction rule: trancl_induct) auto

lemma worklist_inv:
  assumes "finite ((edges_of succs)\<^sup>+ `` {x})" "search_inv succs x q seen"
  shows "\<exists>r. worklist succs q seen = Some r \<and> distinct r \<and> set r = (edges_of succs)\<^sup>+ `` {x}"
  using assms(2)
proof (induction "card ((edges_of succs)\<^sup>+ `` {x} - set seen) + length q" arbitrary: q seen rule: less_induct)
  case less
  let ?R = "(edges_of succs)\<^sup>+ `` {x}"
  show ?case
  proof (cases q)
    case Nil
    note inv = less.prems [unfolded search_inv_def Nil]
    have "y \<in> set seen" if "(x, y) \<in> (edges_of succs)\<^sup>+" for y
      by (rule closed_trancl [OF that]) (use inv in auto)
    then have "set seen = ?R" using inv by auto
    then show ?thesis using Nil inv by auto
  next
    case (Cons y q1)
    obtain q' seen' where push: "push_unseen (succs y) (q1, seen) = (q', seen')" by fastforce
    then obtain new where new: "q' = q1 @ new" "seen' = seen @ new" "set new = set (succs y) - set seen" "distinct new"
      by (rule push_unseen_append)
    have inv': "search_inv succs x q' seen'" using search_inv_step less.prems push Cons by metis
    have "set new \<subseteq> ?R - set seen" using inv' new by (auto simp: search_inv_def)
    moreover have "?R - set seen' = (?R - set seen) - set new" using new(2) by auto
    ultimately have "card (?R - set seen') = card (?R - set seen) - length new"
      "length new \<le> card (?R - set seen)"
      using assms(1) new(4) distinct_card [of new] card_mono [of "?R - set seen" "set new"]
      by (simp_all add: card_Diff_subset)
    then have "card (?R - set seen') + length q' < card (?R - set seen) + length q"
      using new(1) Cons by simp
    from less.hyps [OF this inv'] show ?thesis using Cons push by simp
  qed
qed

theorem worklist_closure:
  assumes "finite ((edges_of succs)\<^sup>+ `` {x})"
  shows "\<exists>r. worklist succs [x] [] = Some r \<and> distinct r \<and> set r = (edges_of succs)\<^sup>+ `` {x}"
  by (rule worklist_inv [OF assms]) (simp add: search_inv_def)

text \<open>Without an infinite set of successors there is nothing infinite to reach.\<close>

lemma finite_closure:
  assumes "finite U" "\<And>x. set (succs x) \<subseteq> U"
  shows "finite ((edges_of succs)\<^sup>+ `` {x})"
proof (rule finite_subset [OF _ assms(1)])
  show "(edges_of succs)\<^sup>+ `` {x} \<subseteq> U"
  proof (rule subsetI)
    fix y assume "y \<in> (edges_of succs)\<^sup>+ `` {x}"
    then have "(x, y) \<in> (edges_of succs)\<^sup>+" by simp
    then show "y \<in> U" by (cases rule: tranclE) (use assms(2) in auto)
  qed
qed

section \<open>Induction over a search that ends\<close>

lemma worklist_induct [consumes 1]:
  assumes "worklist succs q seen = Some r"
    and base: "\<And>seen. P [] seen seen"
    and step: "\<And>x q seen q' seen' r. push_unseen (succs x) (q, seen) = (q', seen') \<Longrightarrow> worklist succs q' seen' = Some r \<Longrightarrow> P q' seen' r \<Longrightarrow> P (x # q) seen r"
  shows "P q seen r"
proof -
  have "f = succs \<longrightarrow> worklist f q seen = Some r \<and> P q seen r" if "worklist f q seen = Some r" for f q seen r
    using that
  proof (rule worklist.raw_induct [where P = "\<lambda>f q seen r. f = succs \<longrightarrow> worklist f q seen = Some r \<and> P q seen r", rotated])
    fix w f q seen r
    assume IH: "\<And>f q seen r. w f q seen = Some r \<Longrightarrow> f = succs \<longrightarrow> worklist f q seen = Some r \<and> P q seen r"
      and body: "(case q of [] \<Rightarrow> Some seen | x # q \<Rightarrow> (case push_unseen (f x) (q, seen) of (q, seen) \<Rightarrow> w f q seen)) = Some r"
    show "f = succs \<longrightarrow> worklist f q seen = Some r \<and> P q seen r"
    proof
      assume f: "f = succs"
      show "worklist f q seen = Some r \<and> P q seen r"
      proof (cases q)
        case Nil
        then show ?thesis using body base by simp
      next
        case (Cons x q')
        obtain q1 seen1 where push: "push_unseen (succs x) (q', seen) = (q1, seen1)" by fastforce
        then have "w f q1 seen1 = Some r" using body Cons f by simp
        from IH [OF this] show ?thesis using push step [OF push] Cons f by simp
      qed
    qed
  qed
  then show ?thesis using assms(1) by blast
qed
lemma worklist_seen: "worklist succs q seen = Some r \<Longrightarrow> set seen \<subseteq> set r"
proof (induction rule: worklist_induct)
  case (2 x q seen q' seen' r)
  from 2(1) have "set seen \<subseteq> set seen'" by (rule push_unseen_append) simp
  with 2(3) show ?case by blast
qed simp

end
