(* ===== verification/CppService.thy ===== *)
theory CppService
  imports CppLsp Worklist "HOL-Library.List_Lexorder" "HOL-Library.Char_ord"
begin

text \<open>
  \<^verbatim>\<open>plugins/cpp/service/src/cppservice.cpp\<close> with \<open>textRange\<close> of \<^verbatim>\<open>util/src/util.cpp\<close>: what the web interface asks of
  the parsed C++ program. The tables are lists of rows in the order in which a query returns them. An
  identifier of a node is a number here, and its decimal text in the interface. Queries and counts run in
  one transaction, so the tables do not change.
\<close>

section \<open>Tables\<close>

record function_entity =
  fn_astNodeId :: nat
  fn_entityHash :: nat
  fn_name :: string
  fn_qualifiedName :: string
  fn_typeHash :: nat
  fn_tags :: "entity_tag list"
  fn_parameters :: "nat list"    \<comment> \<open>the nodes of the parameters\<close>
  fn_locals :: "nat list"

record variable_entity =
  va_astNodeId :: nat
  va_entityHash :: nat
  va_name :: string
  va_qualifiedName :: string
  va_qualifiedType :: string
  va_typeHash :: nat
  va_tags :: "entity_tag list"

record record_entity =
  rd_astNodeId :: nat
  rd_entityHash :: nat
  rd_name :: string
  rd_qualifiedName :: string
  rd_isAbstract :: bool
  rd_isPOD :: bool

record typedef_entity =
  td_astNodeId :: nat
  td_entityHash :: nat
  td_name :: string
  td_qualifiedName :: string
  td_typeHash :: nat

record enum_entity =
  em_entityHash :: nat
  em_enumConstants :: "nat list"

record enum_constant_entity =
  ec_entityHash :: nat
  ec_name :: string
  ec_qualifiedName :: string
  ec_value :: int

record file_entity =
  fe_id :: nat
  fe_type :: file_type
  fe_path :: string
  fe_content :: "string option"

record service_db =
  sv_nodes :: "ast_node list"
  sv_functions :: "function_entity list"
  sv_variables :: "variable_entity list"
  sv_records :: "record_entity list"
  sv_typedefs :: "typedef_entity list"
  sv_enums :: "enum_entity list"
  sv_enumConstants :: "enum_constant_entity list"
  sv_members :: "member_row list"
  sv_relations :: "relation_row list"
  sv_inheritance :: "inheritance_row list"
  sv_friendship :: "friendship_row list"
  sv_expansions :: "expansion_row list"
  sv_comments :: "doc_comment list"
  sv_files :: "file_entity list"

datatype cpp_service_error = Invalid_Id nat | Null_Pointer | Past_The_End | Row_Not_Found | Substr_Out_Of_Range | Regex_Error | Diverges

type_synonym 'a served = "cpp_service_error + 'a"

section \<open>Queries\<close>

definition queryCppAstNode :: "service_db \<Rightarrow> nat \<Rightarrow> ast_node served" where
  "queryCppAstNode T i = (case find (\<lambda>n. an_id n = i) (sv_nodes T) of None \<Rightarrow> Inl (Invalid_Id i) | Some n \<Rightarrow> Inr n)"

definition located :: "ast_node \<Rightarrow> bool" where
  "located n \<longleftrightarrow> line (an_end n) \<noteq> npos"

definition entity_nodes :: "service_db \<Rightarrow> nat \<Rightarrow> (ast_node \<Rightarrow> bool) \<Rightarrow> ast_node list" where
  "entity_nodes T hash P = filter (\<lambda>n. an_hash n = hash \<and> located n \<and> P n) (sv_nodes T)"

definition queryCppAstNodes :: "service_db \<Rightarrow> nat \<Rightarrow> (ast_node \<Rightarrow> bool) \<Rightarrow> ast_node list served" where
  "queryCppAstNodes T i P = bindE (queryCppAstNode T i) (\<lambda>node. Inr (entity_nodes T (an_hash node) P))"

definition queryCppAstNodeCount :: "service_db \<Rightarrow> nat \<Rightarrow> (ast_node \<Rightarrow> bool) \<Rightarrow> nat served" where
  "queryCppAstNodeCount T i P = bindE (queryCppAstNode T i) (\<lambda>node. Inr (length (entity_nodes T (an_hash node) P)))"

definition of_type :: "ast_type \<Rightarrow> ast_node \<Rightarrow> bool" where
  "of_type t n \<longleftrightarrow> an_type n = t"

definition queryDefinitions :: "service_db \<Rightarrow> nat \<Rightarrow> ast_node list served" where
  "queryDefinitions T i = queryCppAstNodes T i (of_type Definition_Node)"

definition queryCppAstNodesInFile :: "service_db \<Rightarrow> nat \<Rightarrow> (ast_node \<Rightarrow> bool) \<Rightarrow> ast_node list" where
  "queryCppAstNodesInFile T file P = filter (\<lambda>n. an_file n = Some file \<and> P n) (sv_nodes T)"

definition queryCppAstNodeCountInFile :: "service_db \<Rightarrow> nat \<Rightarrow> (ast_node \<Rightarrow> bool) \<Rightarrow> nat" where
  "queryCppAstNodeCountInFile T file P = length (filter (\<lambda>n. an_file n = Some file \<and> P n) (sv_nodes T))"

text \<open>The conditions on positions, as the queries spell them.\<close>

definition starts_from :: "position \<Rightarrow> ast_node \<Rightarrow> bool" where
  "starts_from p n \<longleftrightarrow> (line (an_start n) = line p \<and> column (an_start n) \<ge> column p) \<or> line (an_start n) > line p"

definition starts_until :: "position \<Rightarrow> ast_node \<Rightarrow> bool" where
  "starts_until p n \<longleftrightarrow> (line (an_start n) = line p \<and> column (an_start n) \<le> column p) \<or> line (an_start n) < line p"

definition ends_before :: "position \<Rightarrow> ast_node \<Rightarrow> bool" where
  "ends_before p n \<longleftrightarrow> (line (an_end n) = line p \<and> column (an_end n) < column p) \<or> line (an_end n) < line p"

definition ends_after :: "position \<Rightarrow> ast_node \<Rightarrow> bool" where
  "ends_after p n \<longleftrightarrow> (line (an_end n) = line p \<and> column (an_end n) > column p) \<or> line (an_end n) > line p"

text \<open>The file of a node is asked for its identifier, which a null pointer does not have.\<close>

definition astCallsQuery :: "ast_node \<Rightarrow> (ast_node \<Rightarrow> bool) served" where
  "astCallsQuery node =
     (case an_file node of
        None \<Rightarrow> Inl Null_Pointer
      | Some f \<Rightarrow> Inr (\<lambda>n. an_file n = Some f \<and> (an_type n = Usage_Node \<or> an_type n = VirtualCall_Node) \<and>
          an_symbol n = Function_Symbol \<and> starts_from (an_start node) n \<and> ends_before (an_end node) n))"

definition queryCalls :: "service_db \<Rightarrow> nat \<Rightarrow> ast_node list served" where
  "queryCalls T i = bindE (queryDefinitions T i) (\<lambda>nodes.
     case nodes of
       [] \<Rightarrow> Inr []
     | node # _ \<Rightarrow> bindE (astCallsQuery node) (\<lambda>q. Inr (filter q (sv_nodes T))))"

definition queryCallsCount :: "service_db \<Rightarrow> nat \<Rightarrow> nat served" where
  "queryCallsCount T i = bindE (queryDefinitions T i) (\<lambda>nodes.
     case nodes of
       [] \<Rightarrow> Inr 0
     | node # _ \<Rightarrow> bindE (astCallsQuery node) (\<lambda>q. Inr (length (filter q (sv_nodes T)))))"

definition related :: "service_db \<Rightarrow> relation_kind \<Rightarrow> bool \<Rightarrow> nat \<Rightarrow> nat list" where
  "related T kind reverse current =
     map (\<lambda>r. if reverse then rl_rhs r else rl_lhs r)
       (filter (\<lambda>r. (if reverse then rl_lhs r else rl_rhs r) = current \<and> rl_kind r = kind) (sv_relations T))"

text \<open>The set is listed in the order of insertion.\<close>

definition transitiveClosureOfRel :: "service_db \<Rightarrow> relation_kind \<Rightarrow> nat \<Rightarrow> bool \<Rightarrow> nat list served" where
  "transitiveClosureOfRel T kind to reverse =
     (case worklist (related T kind reverse) [to] [] of None \<Rightarrow> Inl Diverges | Some ret \<Rightarrow> Inr ret)"

definition queryOverrides :: "service_db \<Rightarrow> nat \<Rightarrow> bool \<Rightarrow> ast_node list served" where
  "queryOverrides T i reverse =
     bindE (queryCppAstNode T i) (\<lambda>node.
     bindE (transitiveClosureOfRel T Override (an_hash node) reverse) (\<lambda>overrides.
     map_E (\<lambda>mnh. case filter (\<lambda>n. an_hash n = mnh) (sv_nodes T) of [] \<Rightarrow> Inl Past_The_End | n # _ \<Rightarrow> Inr n) overrides))"

definition queryOverridesCount :: "service_db \<Rightarrow> nat \<Rightarrow> bool \<Rightarrow> nat served" where
  "queryOverridesCount T i reverse =
     bindE (queryCppAstNode T i) (\<lambda>node.
     bindE (transitiveClosureOfRel T Override (an_hash node) reverse) (\<lambda>overrides. Inr (length overrides)))"

text \<open>\<open>std::sort\<close> by identifier and \<open>std::unique\<close>.\<close>

fun unique_ids :: "ast_node list \<Rightarrow> ast_node list" where
  "unique_ids [] = []"
| "unique_ids [n] = [n]"
| "unique_ids (m # n # ns) = (if an_id m = an_id n then unique_ids (m # ns) else m # unique_ids (n # ns))"

definition sort_unique :: "ast_node list \<Rightarrow> ast_node list" where
  "sort_unique nodes = unique_ids (sort_key an_id nodes)"

section \<open>Tags and infos\<close>

text \<open>The message of a warning names the path of the node's file.\<close>

definition toShortDiagnosticString :: "ast_node \<Rightarrow> unit served" where
  "toShortDiagnosticString node = (if an_file node = None then Inl Null_Pointer else Inr ())"

definition member_tags :: "service_db \<Rightarrow> member_kind \<Rightarrow> ast_node \<Rightarrow> ast_node \<Rightarrow> string list" where
  "member_tags T kind defNode node =
     filter (\<lambda>v. v \<noteq> []) (map (\<lambda>m. visibilityToString (mb_visibility m))
       (filter (\<lambda>m. (mb_node m = an_id defNode \<or> mb_node m = an_id node) \<and> mb_kind m = kind) (sv_members T)))"

definition node_tags :: "service_db \<Rightarrow> ast_node \<Rightarrow> string list served" where
  "node_tags T node =
     bindE (queryDefinitions T (an_id node)) (\<lambda>defs.
     let defNode = (case defs of [] \<Rightarrow> node | d # _ \<Rightarrow> d) in
     case an_symbol node of
       Function_Symbol \<Rightarrow>
         (case filter (\<lambda>f. fn_entityHash f = an_hash defNode) (sv_functions T) of
            [] \<Rightarrow> bindE (toShortDiagnosticString node) (\<lambda>_. Inr (member_tags T Method defNode node))
          | f # _ \<Rightarrow> Inr (member_tags T Method defNode node @ map tagToString (fn_tags f)))
     | Variable_Symbol \<Rightarrow>
         (case filter (\<lambda>v. va_entityHash v = an_hash defNode) (sv_variables T) of
            [] \<Rightarrow> bindE (toShortDiagnosticString node) (\<lambda>_. Inr (member_tags T Field defNode node))
          | v # _ \<Rightarrow> Inr (member_tags T Field defNode node @ map tagToString (va_tags v)))
     | _ \<Rightarrow> Inr [])"

text \<open>The map from identifiers to tags; an identifier that is not in it has none.\<close>

fun getTags :: "service_db \<Rightarrow> ast_node list \<Rightarrow> (nat \<Rightarrow> string list) \<Rightarrow> (nat \<Rightarrow> string list) served" where
  "getTags T [] tags = Inr tags"
| "getTags T (node # nodes) tags =
     bindE (node_tags T node) (\<lambda>new. getTags T nodes (tags(an_id node := tags (an_id node) @ new)))"

record node_info =
  ni_id :: nat
  ni_entityHash :: nat
  ni_astNodeType :: string
  ni_symbolType :: string
  ni_astNodeValue :: string
  ni_range :: range
  ni_file :: "nat option"
  ni_tags :: "string list"

definition CreateAstNodeInfo :: "(nat \<Rightarrow> string list) \<Rightarrow> ast_node \<Rightarrow> node_info" where
  "CreateAstNodeInfo tags n =
     \<lparr>ni_id = an_id n, ni_entityHash = an_hash n, ni_astNodeType = astTypeToString (an_type n),
      ni_symbolType = symbolTypeToString (an_symbol n), ni_astNodeValue = an_value n, ni_range = an_range n,
      ni_file = an_file n, ni_tags = tags (an_id n)\<rparr>"

definition node_infos :: "service_db \<Rightarrow> ast_node list \<Rightarrow> node_info list served" where
  "node_infos T nodes = bindE (getTags T nodes (\<lambda>_. [])) (\<lambda>tags. Inr (map (CreateAstNodeInfo tags) nodes))"

definition getAstNodeInfo :: "service_db \<Rightarrow> nat \<Rightarrow> node_info served" where
  "getAstNodeInfo T i = bindE (queryCppAstNode T i) (\<lambda>n. Inr (CreateAstNodeInfo (\<lambda>_. []) n))"

section \<open>References\<close>

text \<open>The first row for an entity; without one a warning is logged, and the answer is the last argument.\<close>

definition with_entity :: "ast_node \<Rightarrow> 'r list \<Rightarrow> ('r \<Rightarrow> 'a served) \<Rightarrow> 'a \<Rightarrow> 'a served" where
  "with_entity node rows f d =
     (case rows of [] \<Rightarrow> bindE (toShortDiagnosticString node) (\<lambda>_. Inr d) | r # _ \<Rightarrow> f r)"

definition definitions_of :: "service_db \<Rightarrow> nat \<Rightarrow> ast_node list" where
  "definitions_of T hash = filter (\<lambda>n. an_hash n = hash \<and> an_type n = Definition_Node) (sv_nodes T)"

definition record_definitions :: "service_db \<Rightarrow> nat \<Rightarrow> ast_node list served" where
  "record_definitions T typeHash =
     bindE (map_E (\<lambda>t. queryDefinitions T (rd_astNodeId t)) (filter (\<lambda>t. rd_entityHash t = typeHash) (sv_records T)))
       (\<lambda>defs. Inr (concat defs))"

definition callers_of_usage :: "service_db \<Rightarrow> ast_node \<Rightarrow> ast_node list served" where
  "callers_of_usage T u =
     (case an_file u of
        None \<Rightarrow> Inl Null_Pointer
      | Some f \<Rightarrow> Inr (filter (\<lambda>n. an_type n = Definition_Node \<and> an_symbol n = Function_Symbol \<and> an_file n = Some f \<and>
          starts_until (an_start u) n \<and> ends_after (an_end u) n) (sv_nodes T)))"

definition usages_of_hashes :: "service_db \<Rightarrow> nat list \<Rightarrow> ast_node list list" where
  "usages_of_hashes T hashes = map (\<lambda>h. filter (\<lambda>n. an_hash n = h \<and> an_type n = Usage_Node) (sv_nodes T)) hashes"

definition class_members :: "service_db \<Rightarrow> nat \<Rightarrow> member_kind \<Rightarrow> ast_node list served" where
  "class_members T typeHash kind =
     map_E (\<lambda>m. case find (\<lambda>n. an_id n = mb_node m) (sv_nodes T) of None \<Rightarrow> Inl Row_Not_Found | Some n \<Rightarrow> Inr n)
       (filter (\<lambda>m. mb_typeHash m = typeHash \<and> mb_kind m = kind) (sv_members T))"

text \<open>The nodes of one kind of reference, before they are sorted by value.\<close>

fun reference_nodes :: "service_db \<Rightarrow> nat \<Rightarrow> reference_type \<Rightarrow> ast_node list served" where
  "reference_nodes T i DEFINITION = queryDefinitions T i"
| "reference_nodes T i DECLARATION = queryCppAstNodes T i (\<lambda>n. an_type n = Declaration_Node \<and> an_visible n)"
| "reference_nodes T i USAGE = queryCppAstNodes T i (\<lambda>_. True)"
| "reference_nodes T i THIS_CALLS = queryCalls T i"
| "reference_nodes T i CALLS_OF_THIS = queryCppAstNodes T i (of_type Usage_Node)"
| "reference_nodes T i CALLEE =
     bindE (queryCalls T i) (\<lambda>calls.
     bindE (map_E (\<lambda>call. queryDefinitions T (an_id call)) calls) (\<lambda>defs.
     Inr (sort_unique (concat defs))))"
| "reference_nodes T i CALLER =
     bindE (queryCppAstNodes T i (of_type Usage_Node)) (\<lambda>usages.
     bindE (map_E (callers_of_usage T) usages) (\<lambda>callers.
     Inr (sort_unique (concat callers))))"
| "reference_nodes T i VIRTUAL_CALL =
     bindE (queryCppAstNodes T i (of_type VirtualCall_Node)) (\<lambda>nodes.
     bindE (queryOverrides T i True) (\<lambda>overrides.
     bindE (map_E (\<lambda>n. queryCppAstNodes T (an_id n) (of_type VirtualCall_Node)) overrides) (\<lambda>calls.
     Inr (sort_unique (nodes @ concat calls)))))"
| "reference_nodes T i FUNC_PTR_CALL =
     bindE (queryCppAstNode T i) (\<lambda>node.
     bindE (transitiveClosureOfRel T Assign (an_hash node) True) (\<lambda>fptrCallers.
     Inr (concat (usages_of_hashes T fptrCallers))))"
| "reference_nodes T i PARAMETER =
     bindE (queryCppAstNode T i) (\<lambda>node.
     with_entity node (filter (\<lambda>f. fn_entityHash f = an_hash node) (sv_functions T))
       (\<lambda>f. map_E (queryCppAstNode T) (fn_parameters f)) [])"
| "reference_nodes T i LOCAL_VAR =
     bindE (queryCppAstNode T i) (\<lambda>node.
     with_entity node (filter (\<lambda>f. fn_entityHash f = an_hash node) (sv_functions T))
       (\<lambda>f. map_E (queryCppAstNode T) (fn_locals f)) [])"
| "reference_nodes T i RETURN_TYPE =
     bindE (queryCppAstNode T i) (\<lambda>node.
     with_entity node (filter (\<lambda>f. fn_entityHash f = an_hash node) (sv_functions T))
       (\<lambda>f. record_definitions T (fn_typeHash f)) [])"
| "reference_nodes T i OVERRIDE = queryOverrides T i True"
| "reference_nodes T i OVERRIDDEN_BY = queryOverrides T i False"
| "reference_nodes T i READ = queryCppAstNodes T i (of_type Read_Node)"
| "reference_nodes T i WRITE = queryCppAstNodes T i (of_type Write_Node)"
| "reference_nodes T i ALIAS =
     bindE (queryCppAstNode T i) (\<lambda>node.
     map_E (\<lambda>t. queryCppAstNode T (td_astNodeId t)) (filter (\<lambda>t. td_typeHash t = an_hash node) (sv_typedefs T)))"
| "reference_nodes T i reference_type.TYPE =
     bindE (queryCppAstNode T i) (\<lambda>node.
     with_entity node (filter (\<lambda>v. va_entityHash v = an_hash node) (sv_variables T))
       (\<lambda>v. record_definitions T (va_typeHash v)) [])"
| "reference_nodes T i INHERIT_FROM =
     bindE (queryCppAstNode T i) (\<lambda>node.
     Inr (concat (map (\<lambda>inh. definitions_of T (ih_base inh)) (filter (\<lambda>inh. ih_derived inh = an_hash node) (sv_inheritance T)))))"
| "reference_nodes T i INHERIT_BY =
     bindE (queryCppAstNode T i) (\<lambda>node.
     Inr (concat (map (\<lambda>inh. definitions_of T (ih_derived inh)) (filter (\<lambda>inh. ih_base inh = an_hash node) (sv_inheritance T)))))"
| "reference_nodes T i DATA_MEMBER =
     bindE (queryCppAstNode T i) (\<lambda>node.
     bindE (class_members T (an_hash node) Field) (\<lambda>nodes. Inr (filter located nodes)))"
| "reference_nodes T i METHOD = bindE (queryCppAstNode T i) (\<lambda>node. class_members T (an_hash node) Method)"
| "reference_nodes T i FRIEND =
     bindE (queryCppAstNode T i) (\<lambda>node.
     Inr (concat (map (\<lambda>fr. definitions_of T (fs_theFriend fr)) (filter (\<lambda>fr. fs_target fr = an_hash node) (sv_friendship T)))))"
| "reference_nodes T i UNDERLYING_TYPE =
     bindE (queryCppAstNode T i) (\<lambda>node.
     with_entity node (filter (\<lambda>t. td_entityHash t = an_hash node) (sv_typedefs T))
       (\<lambda>t. Inr (definitions_of T (td_typeHash t))) [])"
| "reference_nodes T i ENUM_CONSTANTS =
     bindE (queryCppAstNode T i) (\<lambda>node.
     with_entity node (filter (\<lambda>e. em_entityHash e = an_hash node) (sv_enums T))
       (\<lambda>e. map_E (queryCppAstNode T) (em_enumConstants e)) [])"
| "reference_nodes T i EXPANSION =
     bindE (queryCppAstNode T i) (\<lambda>node.
     map_E (\<lambda>e. bindE (queryCppAstNode T (ex_astNodeId e)) (\<lambda>n. Inr (n\<lparr>an_value := ex_expansion e\<rparr>)))
       (filter (\<lambda>e. ex_astNodeId e = an_id node) (sv_expansions T)))"
| "reference_nodes T i UNDEFINITION = queryCppAstNodes T i (of_type UnDefinition_Node)"

definition srv_getReferences :: "service_db \<Rightarrow> nat \<Rightarrow> reference_type \<Rightarrow> node_info list served" where
  "srv_getReferences T i ref =
     bindE (reference_nodes T i ref) (\<lambda>nodes.
     node_infos T (if ref \<noteq> PARAMETER \<and> ref \<noteq> ENUM_CONSTANTS then sort_key an_value nodes else nodes))"

definition record_count :: "service_db \<Rightarrow> nat \<Rightarrow> nat" where
  "record_count T typeHash = length (filter (\<lambda>t. rd_entityHash t = typeHash) (sv_records T))"

fun reference_count :: "service_db \<Rightarrow> nat \<Rightarrow> ast_node \<Rightarrow> reference_type \<Rightarrow> nat served" where
  "reference_count T i node DEFINITION = queryCppAstNodeCount T i (of_type Definition_Node)"
| "reference_count T i node DECLARATION = queryCppAstNodeCount T i (\<lambda>n. an_type n = Declaration_Node \<and> an_visible n)"
| "reference_count T i node USAGE = queryCppAstNodeCount T i (\<lambda>_. True)"
| "reference_count T i node THIS_CALLS = queryCallsCount T i"
| "reference_count T i node CALLS_OF_THIS = queryCppAstNodeCount T i (of_type Usage_Node)"
| "reference_count T i node CALLEE =
     bindE (queryCalls T i) (\<lambda>calls.
     bindE (map_E (\<lambda>call. queryCppAstNode T (an_id call)) calls) (\<lambda>nodes.
     let defHashes = set (map an_hash nodes) in
     Inr (if defHashes = {} then 0
       else length (filter (\<lambda>n. an_hash n \<in> defHashes \<and> an_type n = Definition_Node \<and> located n) (sv_nodes T)))))"
| "reference_count T i node CALLER = bindE (srv_getReferences T i CALLER) (\<lambda>references. Inr (length references))"
| "reference_count T i node VIRTUAL_CALL =
     bindE (queryCppAstNodeCount T i (of_type VirtualCall_Node)) (\<lambda>count.
     bindE (queryOverrides T i True) (\<lambda>overrides.
     bindE (map_E (\<lambda>n. queryCppAstNodeCount T (an_id n) (of_type VirtualCall_Node)) overrides) (\<lambda>counts.
     Inr (count + sum_list counts))))"
| "reference_count T i node FUNC_PTR_CALL =
     bindE (transitiveClosureOfRel T Assign (an_hash node) True) (\<lambda>fptrCallers.
     Inr (sum_list (map length (usages_of_hashes T fptrCallers))))"
| "reference_count T i node PARAMETER =
     Inr (sum_list (map (\<lambda>f. length (fn_parameters f)) (filter (\<lambda>f. fn_astNodeId f = an_id node) (sv_functions T))))"
| "reference_count T i node LOCAL_VAR =
     Inr (sum_list (map (\<lambda>f. length (fn_locals f)) (filter (\<lambda>f. fn_astNodeId f = an_id node) (sv_functions T))))"
| "reference_count T i node RETURN_TYPE =
     bindE (queryCppAstNode T i) (\<lambda>node.
     with_entity node (filter (\<lambda>f. fn_entityHash f = an_hash node) (sv_functions T))
       (\<lambda>f. Inr (record_count T (fn_typeHash f))) 0)"
| "reference_count T i node OVERRIDE = queryOverridesCount T i True"
| "reference_count T i node OVERRIDDEN_BY = queryOverridesCount T i False"
| "reference_count T i node READ = queryCppAstNodeCount T i (of_type Read_Node)"
| "reference_count T i node WRITE = queryCppAstNodeCount T i (of_type Write_Node)"
| "reference_count T i node reference_type.TYPE =
     bindE (queryCppAstNode T i) (\<lambda>node.
     with_entity node (filter (\<lambda>v. va_entityHash v = an_hash node) (sv_variables T))
       (\<lambda>v. Inr (record_count T (va_typeHash v))) 0)"
| "reference_count T i node ALIAS = Inr (length (filter (\<lambda>t. td_typeHash t = an_hash node) (sv_typedefs T)))"
| "reference_count T i node INHERIT_FROM = Inr (length (filter (\<lambda>r. ih_derived r = an_hash node) (sv_inheritance T)))"
| "reference_count T i node INHERIT_BY = Inr (length (filter (\<lambda>r. ih_base r = an_hash node) (sv_inheritance T)))"
| "reference_count T i node DATA_MEMBER =
     Inr (length (filter (\<lambda>m. mb_typeHash m = an_hash node \<and> mb_kind m = Field) (sv_members T)))"
| "reference_count T i node METHOD =
     Inr (length (filter (\<lambda>m. mb_typeHash m = an_hash node \<and> mb_kind m = Method) (sv_members T)))"
| "reference_count T i node FRIEND = Inr (length (filter (\<lambda>r. fs_target r = an_hash node) (sv_friendship T)))"
| "reference_count T i node UNDERLYING_TYPE = Inr (length (filter (\<lambda>t. td_entityHash t = an_hash node) (sv_typedefs T)))"
| "reference_count T i node ENUM_CONSTANTS =
     Inr (sum_list (map (\<lambda>e. length (em_enumConstants e)) (filter (\<lambda>e. em_entityHash e = an_hash node) (sv_enums T))))"
| "reference_count T i node EXPANSION = Inr (length (filter (\<lambda>e. ex_astNodeId e = an_id node) (sv_expansions T)))"
| "reference_count T i node UNDEFINITION = queryCppAstNodeCount T i (of_type UnDefinition_Node)"

text \<open>The result is a 32-bit number; a count is taken to fit.\<close>

definition getReferenceCount :: "service_db \<Rightarrow> nat \<Rightarrow> reference_type \<Rightarrow> nat served" where
  "getReferenceCount T i ref = bindE (queryCppAstNode T i) (\<lambda>node. reference_count T i node ref)"

section \<open>Traversals and sorting\<close>

lemma map_E_Inr: "(\<And>x. x \<in> set xs \<Longrightarrow> \<exists>y. f x = Inr y) \<Longrightarrow> \<exists>ys. map_E f xs = Inr ys"
proof (induction xs)
  case (Cons x xs)
  then obtain y ys where "f x = Inr y" "map_E f xs = Inr ys" by fastforce
  then show ?case by simp
qed simp

lemma map_E_list_all2: "map_E f xs = Inr ys \<longleftrightarrow> list_all2 (\<lambda>x y. f x = Inr y) xs ys"
proof (induction xs arbitrary: ys)
  case (Cons x xs)
  show ?case by (cases "f x"; cases "map_E f xs") (auto simp: list_all2_Cons1 Cons.IH [symmetric])
qed auto

lemma map_E_length: "map_E f xs = Inr ys \<Longrightarrow> length ys = length xs"
  by (auto simp: map_E_list_all2 dest: list_all2_lengthD)

lemma map_E_all: "map_E f xs = Inr ys \<Longrightarrow> (\<And>x y. x \<in> set xs \<Longrightarrow> f x = Inr y \<Longrightarrow> P y) \<Longrightarrow> list_all P ys"
  by (force simp: map_E_list_all2 list_all2_conv_all_nth list_all_length)

lemma map_E_P: "(\<And>x. x \<in> set xs \<Longrightarrow> \<exists>y. f x = Inr y \<and> P y) \<Longrightarrow> \<exists>ys. map_E f xs = Inr ys \<and> list_all P ys \<and> length ys = length xs"
proof (induction xs)
  case (Cons x xs)
  then obtain ys where "map_E f xs = Inr ys" "list_all P ys" "length ys = length xs" by auto
  moreover obtain y where "f x = Inr y" "P y" using Cons.prems [of x] by auto
  ultimately show ?case by simp
qed simp

lemma map_E_map: "(\<And>x. x \<in> set xs \<Longrightarrow> f x = Inr (g x)) \<Longrightarrow> map_E f xs = Inr (map g xs)"
  by (induction xs) auto

text \<open>Identifiers of the result are different, and it has the identifiers of the list.\<close>

lemma unique_ids_set: "an_id ` set (unique_ids ns) = an_id ` set ns"
  by (induction ns rule: unique_ids.induct) auto

lemma unique_ids_subset: "set (unique_ids ns) \<subseteq> set ns"
  by (induction ns rule: unique_ids.induct) auto

lemma unique_ids_sorted:
  "sorted (map an_id ns) \<Longrightarrow> sorted (map an_id (unique_ids ns)) \<and> distinct (map an_id (unique_ids ns))"
proof (induction ns rule: unique_ids.induct)
  case (3 m n ns)
  show ?case
  proof (cases "an_id m = an_id n")
    case True
    then show ?thesis using 3 by simp
  next
    case False
    then have IH: "sorted (map an_id (unique_ids (n # ns)))" "distinct (map an_id (unique_ids (n # ns)))" using 3 by simp_all
    have less: "\<forall>x \<in> set (n # ns). an_id m < an_id x" using 3(3) False by (fastforce simp: less_le)
    then have "\<forall>x \<in> set (unique_ids (n # ns)). an_id m < an_id x" using unique_ids_subset by blast
    then show ?thesis using IH False by (fastforce simp: less_imp_le)
  qed
qed simp_all

lemma sort_unique_spec:
  "distinct (map an_id (sort_unique ns)) \<and> an_id ` set (sort_unique ns) = an_id ` set ns \<and> set (sort_unique ns) \<subseteq> set ns"
  using unique_ids_sorted [of "sort_key an_id ns"] unique_ids_set [of "sort_key an_id ns"] unique_ids_subset [of "sort_key an_id ns"]
  by (simp add: sort_unique_def)

lemma sort_unique_length:
  assumes "distinct (map an_id ms)" "set ns = set ms"
  shows "length (sort_unique ns) = length ms"
proof -
  have "length (sort_unique ns) = card (an_id ` set (sort_unique ns))"
    using sort_unique_spec [of ns] by (metis distinct_card length_map set_map)
  also have "\<dots> = card (an_id ` set ms)" using sort_unique_spec [of ns] assms(2) by simp
  also have "\<dots> = length ms" using assms(1) by (metis distinct_card length_map set_map)
  finally show ?thesis .
qed

section \<open>The transitive closure\<close>

definition rel_edges :: "service_db \<Rightarrow> relation_kind \<Rightarrow> bool \<Rightarrow> (nat \<times> nat) set" where
  "rel_edges T kind reverse =
     (let E = {(rl_lhs r, rl_rhs r) | r. r \<in> set (sv_relations T) \<and> rl_kind r = kind} in if reverse then E else E\<inverse>)"

lemma related_edges: "edges_of (related T kind reverse) = rel_edges T kind reverse"
  by (auto simp: edges_of_def related_def rel_edges_def Let_def)

lemma closure_spec:
  "\<exists>r. transitiveClosureOfRel T kind to reverse = Inr r \<and> distinct r \<and> set r = (rel_edges T kind reverse)\<^sup>+ `` {to}"
proof -
  have "set (related T kind reverse x) \<subseteq> rl_lhs ` set (sv_relations T) \<union> rl_rhs ` set (sv_relations T)" for x
    by (auto simp: related_def)
  then have "finite ((edges_of (related T kind reverse))\<^sup>+ `` {to})" 
    by (intro finite_closure [where U = "rl_lhs ` set (sv_relations T) \<union> rl_rhs ` set (sv_relations T)"]) auto
  from worklist_closure [OF this] obtain r where "worklist (related T kind reverse) [to] [] = Some r" "distinct r"
    "set r = (edges_of (related T kind reverse))\<^sup>+ `` {to}" by blast
  then show ?thesis by (simp add: transitiveClosureOfRel_def related_edges)
qed

text \<open>
  C35: the search for overriding functions and for assigned function pointers ends, also when the relations
  have cycles; it finds exactly the entities that are related to the given one in one or more steps, each
  once, and the given one itself only if it lies on a cycle.
\<close>

theorem transitive_closure_of_relation:
  "\<exists>r. transitiveClosureOfRel T kind to reverse = Inr r \<and> distinct r \<and>
     set r = (let E = {(rl_lhs r, rl_rhs r) | r. r \<in> set (sv_relations T) \<and> rl_kind r = kind} in
       if reverse then E\<^sup>+ `` {to} else (E\<inverse>)\<^sup>+ `` {to})"
proof -
  obtain r where "transitiveClosureOfRel T kind to reverse = Inr r" "distinct r" "set r = (rel_edges T kind reverse)\<^sup>+ `` {to}"
    using closure_spec by blast
  then show ?thesis by (auto simp: rel_edges_def Let_def)
qed

section \<open>Counts and lists of references\<close>

text \<open>
  What the parser guarantees about the tables: identifiers of nodes are unique, every node has a file, the rows
  refer to nodes that exist, and so do both sides of an override.
\<close>

definition service_ok :: "service_db \<Rightarrow> bool" where
  "service_ok T \<longleftrightarrow> distinct (map an_id (sv_nodes T)) \<and> list_all (\<lambda>n. an_file n \<noteq> None) (sv_nodes T) \<and>
     list_all (\<lambda>t. td_astNodeId t \<in> an_id ` set (sv_nodes T)) (sv_typedefs T) \<and>
     list_all (\<lambda>m. mb_node m \<in> an_id ` set (sv_nodes T)) (sv_members T) \<and>
     list_all (\<lambda>r. rl_kind r = Override \<longrightarrow> {rl_lhs r, rl_rhs r} \<subseteq> an_hash ` set (sv_nodes T)) (sv_relations T)"

lemma query_found:
  assumes "service_ok T" "n \<in> set (sv_nodes T)"
  shows "queryCppAstNode T (an_id n) = Inr n"
proof -
  have "find (\<lambda>m. an_id m = an_id n) (sv_nodes T) = Some n"
    using assms by (cases "find (\<lambda>m. an_id m = an_id n) (sv_nodes T)")
      (auto simp: service_ok_def find_Some_iff find_None_iff distinct_map inj_on_def)
  then show ?thesis by (simp add: queryCppAstNode_def)
qed

lemma query_ids:
  assumes "service_ok T" "i \<in> an_id ` set (sv_nodes T)"
  obtains n where "n \<in> set (sv_nodes T)" "an_id n = i" "queryCppAstNode T i = Inr n"
  using assms query_found by auto

text \<open>Nodes whose infos can be made: they are rows of the table, but for their text.\<close>

definition tabled :: "service_db \<Rightarrow> ast_node \<Rightarrow> bool" where
  "tabled T n \<longleftrightarrow> an_id n \<in> an_id ` set (sv_nodes T) \<and> an_file n \<noteq> None"

lemma row_tabled: "service_ok T \<Longrightarrow> n \<in> set (sv_nodes T) \<Longrightarrow> tabled T n"
  by (auto simp: tabled_def service_ok_def list_all_iff)

lemma node_tags_total:
  assumes "service_ok T" "tabled T n"
  shows "\<exists>t. node_tags T n = Inr t"
proof -
  obtain m where m: "queryCppAstNode T (an_id n) = Inr m" using assms query_ids [of T "an_id n"] by (auto simp: tabled_def)
  have "toShortDiagnosticString n = Inr ()" using assms(2) by (auto simp: toShortDiagnosticString_def tabled_def)
  then show ?thesis
    by (auto simp: node_tags_def queryDefinitions_def queryCppAstNodes_def m Let_def split: symbol_type.split list.split)
qed

lemma getTags_total: "service_ok T \<Longrightarrow> list_all (tabled T) ns \<Longrightarrow> \<exists>tags'. getTags T ns tags = Inr tags'"
proof (induction ns arbitrary: tags)
  case (Cons n ns)
  obtain t where "node_tags T n = Inr t" using node_tags_total [OF Cons.prems(1), of n] Cons.prems(2) by auto
  then show ?case using Cons by simp
qed simp

lemma getReferences_length:
  assumes ok: "service_ok T" and nodes: "reference_nodes T i ref = Inr nodes" "list_all (tabled T) nodes"
  shows "\<exists>infos. srv_getReferences T i ref = Inr infos \<and> length infos = length nodes"
proof -
  define ns where "ns = (if ref \<noteq> PARAMETER \<and> ref \<noteq> ENUM_CONSTANTS then sort_key an_value nodes else nodes)"
  have ns: "length ns = length nodes" "list_all (tabled T) ns" using nodes(2) by (simp_all add: ns_def list_all_iff)
  obtain tags where "getTags T ns (\<lambda>_. []) = Inr tags" using getTags_total [OF ok ns(2)] by blast
  then show ?thesis using nodes(1) ns(1) by (simp add: srv_getReferences_def node_infos_def ns_def)
qed

text \<open>What one kind of reference has to satisfy, and the kinds for which the two functions use the same query.\<close>

definition agrees :: "service_db \<Rightarrow> nat \<Rightarrow> reference_type \<Rightarrow> bool" where
  "agrees T i ref \<longleftrightarrow> (\<exists>nodes. reference_nodes T i ref = Inr nodes \<and> list_all (tabled T) nodes \<and>
     getReferenceCount T i ref = Inr (length nodes))"

lemma agreesI:
  "queryCppAstNode T i = Inr n \<Longrightarrow> reference_nodes T i ref = Inr nodes \<Longrightarrow> list_all (tabled T) nodes \<Longrightarrow>
     reference_count T i n ref = Inr (length nodes) \<Longrightarrow> agrees T i ref"
  by (simp add: agrees_def getReferenceCount_def)

lemma rows_tabled: "service_ok T \<Longrightarrow> set ns \<subseteq> set (sv_nodes T) \<Longrightarrow> list_all (tabled T) ns"
  using row_tabled by (fastforce simp: list_all_iff)

lemma entity_nodes_rows: "set (entity_nodes T h P) \<subseteq> set (sv_nodes T)"
  by (auto simp: entity_nodes_def)

lemma simple_query:
  assumes "service_ok T" "queryCppAstNode T i = Inr n"
  shows "queryCppAstNodes T i P = Inr (entity_nodes T (an_hash n) P)"
    "queryCppAstNodeCount T i P = Inr (length (entity_nodes T (an_hash n) P))"
    "list_all (tabled T) (entity_nodes T (an_hash n) P)"
  using assms rows_tabled [OF assms(1) entity_nodes_rows] by (simp_all add: queryCppAstNodes_def queryCppAstNodeCount_def)

lemma calls_query:
  assumes ok: "service_ok T" and i: "queryCppAstNode T i = Inr n"
  shows "\<exists>calls. queryCalls T i = Inr calls \<and> queryCallsCount T i = Inr (length calls) \<and> set calls \<subseteq> set (sv_nodes T)"
proof -
  let ?defs = "entity_nodes T (an_hash n) (of_type Definition_Node)"
  show ?thesis
  proof (cases ?defs)
    case Nil
    then show ?thesis by (simp add: queryCalls_def queryCallsCount_def queryDefinitions_def simple_query [OF ok i])
  next
    case (Cons d ds)
    then have "d \<in> set (sv_nodes T)" using entity_nodes_rows by (metis list.set_intros(1) subsetD)
    then obtain f where "an_file d = Some f" using ok by (auto simp: service_ok_def list_all_iff)
    then show ?thesis
      by (auto simp: queryCalls_def queryCallsCount_def queryDefinitions_def simple_query [OF ok i] Cons astCallsQuery_def)
  qed
qed

lemma callees_agree:
  assumes ok: "service_ok T" and i: "queryCppAstNode T i = Inr n"
  shows "agrees T i CALLEE"
proof -
  obtain calls where calls: "queryCalls T i = Inr calls" "set calls \<subseteq> set (sv_nodes T)" using calls_query [OF assms] by blast
  let ?P = "of_type Definition_Node"
  have c: "queryCppAstNode T (an_id c) = Inr c" if "c \<in> set calls" for c using query_found [OF ok] calls(2) that by blast
  then have defs: "map_E (\<lambda>c. queryDefinitions T (an_id c)) calls = Inr (map (\<lambda>c. entity_nodes T (an_hash c) ?P) calls)"
    and nodes: "map_E (\<lambda>c. queryCppAstNode T (an_id c)) calls = Inr (map (\<lambda>c. c) calls)"
    by (intro map_E_map; simp add: queryDefinitions_def queryCppAstNodes_def)+
  define ns where "ns = concat (map (\<lambda>c. entity_nodes T (an_hash c) ?P) calls)"
  define ms where "ms = filter (\<lambda>m. an_hash m \<in> an_hash ` set calls \<and> an_type m = Definition_Node \<and> located m) (sv_nodes T)"
  have set: "set ns = set ms" by (auto simp: ns_def ms_def entity_nodes_def of_type_def)
  have "distinct (map an_id ms)" using ok by (simp add: ms_def service_ok_def distinct_map_filter)
  from sort_unique_length [OF this set] have len: "length (sort_unique ns) = length ms" .
  have "set (sort_unique ns) \<subseteq> set (sv_nodes T)" using sort_unique_spec [of ns] set by (auto simp: ms_def)
  then have t: "list_all (tabled T) (sort_unique ns)" by (rule rows_tabled [OF ok])
  have "reference_nodes T i CALLEE = Inr (sort_unique ns)" by (simp add: calls(1) defs ns_def)
  moreover have "reference_count T i n CALLEE = Inr (length (sort_unique ns))"
  proof (cases "calls = []")
    case True
    then have "ms = []" by (simp add: ms_def)
    then show ?thesis using True len by (simp add: calls(1))
  next
    case False
    then show ?thesis unfolding len by (simp add: calls(1) nodes ms_def Let_def)
  qed
  ultimately show ?thesis using agreesI [OF i _ t] by blast
qed

lemma callers_agree:
  assumes ok: "service_ok T" and i: "queryCppAstNode T i = Inr n"
  shows "agrees T i CALLER"
proof -
  let ?us = "entity_nodes T (an_hash n) (of_type Usage_Node)"
  have "\<exists>ns. callers_of_usage T u = Inr ns" if "u \<in> set ?us" for u
  proof -
    have "u \<in> set (sv_nodes T)" using that entity_nodes_rows by blast
    then show ?thesis using ok by (auto simp: service_ok_def list_all_iff callers_of_usage_def)
  qed
  then obtain callers where callers: "map_E (callers_of_usage T) ?us = Inr callers" using map_E_Inr by blast
  have "list_all (\<lambda>c. set c \<subseteq> set (sv_nodes T)) callers"
    by (rule map_E_all [OF callers]) (auto simp: callers_of_usage_def split: option.splits)
  then have "set (concat callers) \<subseteq> set (sv_nodes T)" by (auto simp: list_all_iff)
  then have rows: "list_all (tabled T) (sort_unique (concat callers))"
    using sort_unique_spec [of "concat callers"] by (intro rows_tabled [OF ok]) auto
  have nodes: "reference_nodes T i CALLER = Inr (sort_unique (concat callers))"
    by (simp add: simple_query [OF ok i] callers)
  obtain infos where infos: "srv_getReferences T i CALLER = Inr infos" "length infos = length (sort_unique (concat callers))"
    using getReferences_length [OF ok nodes rows] by blast
  show ?thesis by (rule agreesI [OF i nodes rows]) (simp add: infos)
qed

lemma overrides_agree:
  assumes ok: "service_ok T" and i: "queryCppAstNode T i = Inr n"
  shows "\<exists>nodes. queryOverrides T i reverse = Inr nodes \<and> list_all (tabled T) nodes \<and>
    queryOverridesCount T i reverse = Inr (length nodes)"
proof -
  obtain r where r: "transitiveClosureOfRel T Override (an_hash n) reverse = Inr r"
    "set r = (rel_edges T Override reverse)\<^sup>+ `` {an_hash n}" using closure_spec by blast
  let ?f = "\<lambda>mnh. case filter (\<lambda>n. an_hash n = mnh) (sv_nodes T) of [] \<Rightarrow> Inl Past_The_End | n # _ \<Rightarrow> Inr n"
  have in_table: "h \<in> an_hash ` set (sv_nodes T)" if "h \<in> set r" for h
  proof -
    have "(an_hash n, h) \<in> (rel_edges T Override reverse)\<^sup>+" using that r(2) by simp
    then obtain g where "(g, h) \<in> rel_edges T Override reverse" by (cases rule: trancl.cases) blast+
    then show ?thesis using ok by (auto simp: rel_edges_def service_ok_def list_all_iff Let_def split: if_splits)
  qed
  have f: "\<exists>m. ?f h = Inr m \<and> m \<in> set (sv_nodes T)" if "h \<in> set r" for h
  proof (cases "filter (\<lambda>n. an_hash n = h) (sv_nodes T)")
    case Nil
    then show ?thesis using in_table [OF that] by (auto simp: filter_empty_conv)
  next
    case (Cons a ns)
    then have "a \<in> set (filter (\<lambda>n. an_hash n = h) (sv_nodes T))" by (metis list.set_intros(1))
    then have "a \<in> set (sv_nodes T)" by simp
    then show ?thesis using Cons by simp
  qed
  obtain nodes where nodes: "map_E ?f r = Inr nodes" "list_all (\<lambda>m. m \<in> set (sv_nodes T)) nodes" "length nodes = length r"
    using map_E_P [where xs = r and f = ?f and P = "\<lambda>x. x \<in> set (sv_nodes T)"] f by blast
  then have "list_all (tabled T) nodes" using row_tabled [OF ok] by (simp add: list_all_iff)
  then show ?thesis using nodes r(1) by (simp add: queryOverrides_def queryOverridesCount_def i)
qed

definition same_query :: "reference_type \<Rightarrow> bool" where
  "same_query ref \<longleftrightarrow> ref \<in> {DEFINITION, DECLARATION, USAGE, THIS_CALLS, CALLS_OF_THIS, CALLEE, CALLER, FUNC_PTR_CALL,
     OVERRIDE, OVERRIDDEN_BY, READ, WRITE, ALIAS, METHOD, EXPANSION, UNDEFINITION}"

lemma rows_agree:
  assumes ok: "service_ok T" and i: "queryCppAstNode T i = Inr n"
  shows "agrees T i ALIAS" "agrees T i METHOD" "agrees T i EXPANSION" "agrees T i FUNC_PTR_CALL"
proof -
  have in_table: "n \<in> set (sv_nodes T)" "an_id n = i"
    using i by (auto simp: queryCppAstNode_def find_Some_iff split: option.splits)
  have q: "\<exists>m. queryCppAstNode T j = Inr m \<and> m \<in> set (sv_nodes T)" if "j \<in> an_id ` set (sv_nodes T)" for j
    using that query_found [OF ok] by auto
  show "agrees T i ALIAS"
  proof -
    let ?ts = "filter (\<lambda>t. td_typeHash t = an_hash n) (sv_typedefs T)"
    have t: "\<exists>m. queryCppAstNode T (td_astNodeId t) = Inr m \<and> m \<in> set (sv_nodes T)" if "t \<in> set ?ts" for t
      using that ok by (intro q) (simp add: service_ok_def list_all_iff)
    then obtain ns where ns: "map_E (\<lambda>t. queryCppAstNode T (td_astNodeId t)) ?ts = Inr ns"
      "list_all (\<lambda>m. m \<in> set (sv_nodes T)) ns" "length ns = length ?ts"
      using map_E_P [where xs = ?ts and f = "\<lambda>t. queryCppAstNode T (td_astNodeId t)" and P = "\<lambda>m. m \<in> set (sv_nodes T)"] t by blast
    then have "list_all (tabled T) ns" using row_tabled [OF ok] by (simp add: list_all_iff)
    then show ?thesis by (rule agreesI [OF i, rotated]) (simp_all add: i ns)
  qed
  show "agrees T i METHOD"
  proof -
    let ?ms = "filter (\<lambda>m. mb_typeHash m = an_hash n \<and> mb_kind m = Method) (sv_members T)"
    let ?f = "\<lambda>m. case find (\<lambda>n. an_id n = mb_node m) (sv_nodes T) of None \<Rightarrow> Inl Row_Not_Found | Some n \<Rightarrow> Inr n"
    have t: "\<exists>x. ?f m = Inr x \<and> x \<in> set (sv_nodes T)" if "m \<in> set ?ms" for m
    proof -
      have "mb_node m \<in> an_id ` set (sv_nodes T)" using that ok by (simp add: service_ok_def list_all_iff)
      from q [OF this] show ?thesis by (auto simp: queryCppAstNode_def split: option.splits)
    qed
    then obtain ns where ns: "map_E ?f ?ms = Inr ns" "list_all (\<lambda>m. m \<in> set (sv_nodes T)) ns" "length ns = length ?ms"
      using map_E_P [where xs = ?ms and f = ?f and P = "\<lambda>x. x \<in> set (sv_nodes T)"] t by blast
    then have "list_all (tabled T) ns" using row_tabled [OF ok] by (simp add: list_all_iff)
    then show ?thesis by (rule agreesI [OF i, rotated]) (simp_all add: i ns class_members_def)
  qed
  show "agrees T i EXPANSION"
  proof -
    let ?es = "filter (\<lambda>e. ex_astNodeId e = i) (sv_expansions T)"
    have "map_E (\<lambda>e. bindE (queryCppAstNode T (ex_astNodeId e)) (\<lambda>n. Inr (n\<lparr>an_value := ex_expansion e\<rparr>))) ?es =
        Inr (map (\<lambda>e. n\<lparr>an_value := ex_expansion e\<rparr>) ?es)" by (rule map_E_map) (simp add: i)
    moreover have "list_all (tabled T) (map (\<lambda>e. n\<lparr>an_value := ex_expansion e\<rparr>) ?es)"
      using row_tabled [OF ok in_table(1)] by (simp add: tabled_def list_all_iff)
    ultimately show ?thesis by (intro agreesI [OF i]) (auto simp: i in_table(2))
  qed
  show "agrees T i FUNC_PTR_CALL"
  proof -
    obtain r where r: "transitiveClosureOfRel T Assign (an_hash n) True = Inr r" using closure_spec by blast
    have "set (concat (usages_of_hashes T r)) \<subseteq> set (sv_nodes T)" by (auto simp: usages_of_hashes_def)
    then show ?thesis
      by (intro agreesI [OF i]) (use rows_tabled [OF ok] r in \<open>auto simp: i length_concat\<close>)
  qed
qed


text \<open>A function that calls another one twice, which is defined in a second file.\<close>

definition example_node :: "nat \<Rightarrow> nat \<Rightarrow> nat \<Rightarrow> nat \<Rightarrow> nat \<Rightarrow> ast_type \<Rightarrow> ast_node" where
  "example_node i file begin_line end_line hash t =
     \<lparr>an_id = i, an_value = ''f'', an_file = Some file, an_start = \<lparr>line = begin_line, column = 1\<rparr>,
      an_end = \<lparr>line = end_line, column = 5\<rparr>, an_hash = hash, an_symbol = Function_Symbol, an_type = t, an_visible = True\<rparr>"

definition example_db :: service_db where
  "example_db =
     \<lparr>sv_nodes = [example_node 1 1 1 9 10 Definition_Node, example_node 2 1 3 3 20 Usage_Node,
        example_node 3 1 4 4 20 Usage_Node, example_node 4 2 1 2 20 Definition_Node],
      sv_functions = [], sv_variables = [], sv_records = [], sv_typedefs = [], sv_enums = [], sv_enumConstants = [],
      sv_members = [], sv_relations = [], sv_inheritance = [\<lparr>ih_derived = 10, ih_base = 77\<rparr>], sv_friendship = [],
      sv_expansions = [], sv_comments = [], sv_files = []\<rparr>"

lemma example_db_ok: "service_ok example_db"
  by (simp add: service_ok_def example_db_def example_node_def)


text \<open>For other kinds the numbers differ: a base class that is not defined in the project is counted and not listed.\<close>

lemma base_counted_not_listed:
  "getReferenceCount example_db 1 INHERIT_FROM = Inr 1 \<and> srv_getReferences example_db 1 INHERIT_FROM = Inr []"
  by code_simp

end
