(* ===== verification/UtilText.thy ===== *)
theory UtilText
  imports CppString
begin

text \<open>
  \<^verbatim>\<open>util/src/util.cpp\<close>: the text between two positions of a file and the escaping of HTML. Lines and columns
  count from 1; the text is read with \<open>std::getline\<close>, which does nothing on a stream that is at its end.
\<close>

section \<open>Ranges of a text\<close>

text \<open>The stream is None after a read that reached the end; the line read last stays in the variable then.\<close>

fun getline :: "string option \<times> string \<Rightarrow> string option \<times> string" where
  "getline (None, lineStr) = (None, lineStr)"
| "getline (Some rest, lineStr) =
     (case dropWhile (\<lambda>c. c \<noteq> LF) rest of [] \<Rightarrow> None | _ # rest \<Rightarrow> Some rest, takeWhile (\<lambda>c. c \<noteq> LF) rest)"

text \<open>The body of the loop for line \<open>i\<close>.\<close>

definition text_line :: "nat \<Rightarrow> nat \<Rightarrow> nat \<Rightarrow> nat \<Rightarrow> nat \<Rightarrow> string \<Rightarrow> string \<Rightarrow> fault + string" where
  "text_line startLine startCol endLine endCol i lineStr res =
     (if startLine < endLine then
        if startLine = i then bindC (substr lineStr (size_sub startCol 1) SIZE_MAX) (\<lambda>s. Inr (res @ s @ [LF]))
        else if endLine = i then bindC (substr lineStr 0 (size_sub endCol 1)) (\<lambda>s. Inr (res @ s))
        else if startLine < i \<and> i < endLine then Inr (res @ lineStr @ [LF])
        else Inr res
      else if startLine = i then substr lineStr (size_sub startCol 1) (size_sub endCol startCol)
      else Inr res)"

fun text_lines :: "nat \<Rightarrow> nat \<Rightarrow> nat \<Rightarrow> nat \<Rightarrow> nat list \<Rightarrow> string option \<times> string \<Rightarrow> string \<Rightarrow> fault + string" where
  "text_lines startLine startCol endLine endCol [] iss res = Inr res"
| "text_lines startLine startCol endLine endCol (i # is) iss res =
     (let iss = getline iss in
      bindC (text_line startLine startCol endLine endCol i (snd iss) res) (\<lambda>res.
      text_lines startLine startCol endLine endCol is iss res))"

definition textRange :: "string \<Rightarrow> nat \<Rightarrow> nat \<Rightarrow> nat \<Rightarrow> nat \<Rightarrow> fault + string" where
  "textRange text startLine startCol endLine endCol =
     (if startLine = SIZE_MAX \<or> startCol = SIZE_MAX \<or> endLine = SIZE_MAX \<or> endCol = SIZE_MAX then Inr []
      else text_lines startLine startCol endLine endCol [1..<Suc endLine] (Some text, []) [])"

text \<open>The position behind a text.\<close>

definition line_at :: "string \<Rightarrow> nat" where
  "line_at s = Suc (count_list s LF)"

definition column_at :: "string \<Rightarrow> nat" where
  "column_at s = Suc (length (takeWhile (\<lambda>c. c \<noteq> LF) (rev s)))"

definition whole_lines :: "string list \<Rightarrow> string" where
  "whole_lines xs = concat (map (\<lambda>x. x @ [LF]) xs)"

lemma split_whole_lines:
  obtains xs l where "s = whole_lines xs @ l" "\<forall>x \<in> set xs. LF \<notin> set x" "LF \<notin> set l"
proof -
  have "\<exists>xs l. s = whole_lines xs @ l \<and> (\<forall>x \<in> set xs. LF \<notin> set x) \<and> LF \<notin> set l"
  proof (induction s)
    case Nil
    show ?case by (rule exI [of _ "[]"]) (simp add: whole_lines_def)
  next
    case (Cons c s)
    then obtain xs l where s: "s = whole_lines xs @ l" "\<forall>x \<in> set xs. LF \<notin> set x" "LF \<notin> set l" by blast
    show ?case
    proof (cases "c = LF")
      case True
      then show ?thesis using s by (intro exI [of _ "[] # xs"] exI [of _ l]) (simp add: whole_lines_def)
    next
      case False
      then show ?thesis using s
        by (cases xs) (auto simp: whole_lines_def intro: exI [of _ "[]"] exI [of _ "(c # hd xs) # tl xs"])
    qed
  qed
  then show thesis using that by blast
qed

lemma count_no_char: "c \<notin> set xs \<Longrightarrow> count_list xs c = 0"
  by (induction xs) auto

lemma count_whole_lines: "\<forall>x \<in> set xs. LF \<notin> set x \<Longrightarrow> count_list (whole_lines xs) LF = length xs"
  by (induction xs) (simp_all add: whole_lines_def count_no_char)

lemma line_at_lines: "\<forall>x \<in> set xs. LF \<notin> set x \<Longrightarrow> LF \<notin> set l \<Longrightarrow> line_at (whole_lines xs @ l) = Suc (length xs)"
  by (simp add: line_at_def count_whole_lines count_no_char)

lemma takeWhile_line: "LF \<notin> set x \<Longrightarrow> takeWhile (\<lambda>c. c \<noteq> LF) (x @ LF # rest) = x"
  by (rule takeWhile_append_stop) auto

lemma column_at_lines: "LF \<notin> set l \<Longrightarrow> column_at (whole_lines xs @ l) = Suc (length l)"
proof -
  assume l: "LF \<notin> set l"
  have "takeWhile (\<lambda>c. c \<noteq> LF) (rev l @ rev (whole_lines xs)) = rev l"
  proof (cases xs rule: rev_cases)
    case Nil
    then show ?thesis using l by (auto simp: whole_lines_def)
  next
    case (snoc ys y)
    have "rev (whole_lines xs) = LF # rev y @ rev (whole_lines ys)" by (simp add: snoc whole_lines_def)
    then show ?thesis using l takeWhile_line [of "rev l" "rev y @ rev (whole_lines ys)"] by simp
  qed
  then show ?thesis by (simp add: column_at_def)
qed

lemma getline_line: "LF \<notin> set x \<Longrightarrow> getline (Some (x @ LF # rest), l) = (Some rest, x)"
proof -
  assume "LF \<notin> set x"
  then have "dropWhile (\<lambda>c. c \<noteq> LF) (x @ LF # rest) = LF # rest" "takeWhile (\<lambda>c. c \<noteq> LF) (x @ LF # rest) = x"
    by (auto simp: dropWhile_append takeWhile_line)
  then show ?thesis by simp
qed

lemma getline_prefix:
  assumes "LF \<notin> set x"
  shows "\<exists>y s. getline (Some (x @ rest), l) = (s, x @ y) \<and> length y \<le> length rest"
proof -
  have "takeWhile (\<lambda>c. c \<noteq> LF) (x @ rest) = x @ takeWhile (\<lambda>c. c \<noteq> LF) rest"
    using assms by (auto simp: takeWhile_append)
  then show ?thesis by (auto simp: length_takeWhile_le)
qed

lemma position_small:
  assumes "length s \<le> length t" "length t \<le> max_size"
  shows "line_at s \<noteq> SIZE_MAX" "column_at s \<noteq> SIZE_MAX"
proof -
  have "count_list s LF \<le> length s" "length (takeWhile (\<lambda>c. c \<noteq> LF) (rev s)) \<le> length s"
    using length_takeWhile_le [of _ "rev s"] by (simp_all add: count_le_length)
  then show "line_at s \<noteq> SIZE_MAX" "column_at s \<noteq> SIZE_MAX"
    using assms max_size_def SIZE_MAX_def by (simp_all add: line_at_def column_at_def)
qed

text \<open>Lines before the range, and whole lines inside it.\<close>

lemma text_lines_before:
  assumes "\<forall>x \<in> set xs. LF \<notin> set x" "i + length xs \<le> startLine" "startLine \<le> endLine"
  shows "\<exists>l'. text_lines startLine startCol endLine endCol [i..<Suc endLine] (Some (whole_lines xs @ rest), l) res =
    text_lines startLine startCol endLine endCol [i + length xs..<Suc endLine] (Some rest, l') res"
  using assms
proof (induction xs arbitrary: i l)
  case Nil
  then show ?case by (auto simp: whole_lines_def)
next
  case (Cons x xs)
  have up: "[i..<Suc endLine] = i # [Suc i..<Suc endLine]" using Cons.prems by (simp add: upt_rec)
  have body: "text_line startLine startCol endLine endCol i x res = Inr res" using Cons.prems by (simp add: text_line_def)
  have get: "getline (Some (whole_lines (x # xs) @ rest), l) = (Some (whole_lines xs @ rest), x)"
    using Cons.prems getline_line [of x "whole_lines xs @ rest" l] by (simp add: whole_lines_def)
  from Cons.IH [of "Suc i" x] Cons.prems show ?case unfolding up text_lines.simps get by (simp add: body)
qed

lemma text_lines_inside:
  assumes "\<forall>x \<in> set xs. LF \<notin> set x" "startLine < i" "i + length xs \<le> endLine"
  shows "\<exists>l'. text_lines startLine startCol endLine endCol [i..<Suc endLine] (Some (whole_lines xs @ rest), l) res =
    text_lines startLine startCol endLine endCol [i + length xs..<Suc endLine] (Some rest, l') (res @ whole_lines xs)"
  using assms
proof (induction xs arbitrary: i l res)
  case Nil
  then show ?case by (auto simp: whole_lines_def)
next
  case (Cons x xs)
  have up: "[i..<Suc endLine] = i # [Suc i..<Suc endLine]" using Cons.prems by (simp add: upt_rec)
  have body: "text_line startLine startCol endLine endCol i x res = Inr (res @ x @ [LF])"
    using Cons.prems by (simp add: text_line_def)
  have get: "getline (Some (whole_lines (x # xs) @ rest), l) = (Some (whole_lines xs @ rest), x)"
    using Cons.prems getline_line [of x "whole_lines xs @ rest" l] by (simp add: whole_lines_def)
  from Cons.IH [of "Suc i" x "res @ x @ [LF]"] Cons.prems show ?case
    unfolding up text_lines.simps get by (simp add: body whole_lines_def)
qed

text \<open>
  The text range of a file is exact: whatever precedes and follows it, the text between the position behind
  \<open>a\<close> and the position behind \<open>a @ b\<close> is \<open>b\<close>, with its line ends, on one line or on several.
\<close>

theorem text_range_exact:
  assumes len: "length (a @ b @ c) \<le> max_size"
  shows "textRange (a @ b @ c) (line_at a) (column_at a) (line_at (a @ b)) (column_at (a @ b)) = Inr b"
proof -
  define sl sc el ec where s: "sl = line_at a" "sc = column_at a" "el = line_at (a @ b)" "ec = column_at (a @ b)"
  obtain as la where a: "a = whole_lines as @ la" "\<forall>x \<in> set as. LF \<notin> set x" "LF \<notin> set la" by (rule split_whole_lines)
  obtain bs lb where b: "b = whole_lines bs @ lb" "\<forall>x \<in> set bs. LF \<notin> set x" "LF \<notin> set lb" by (rule split_whole_lines)
  have start: "sl = Suc (length as)" "sc = Suc (length la)" using a by (simp_all add: s line_at_lines column_at_lines)
  have small: "length la + length b < SIZE_MAX" using len max_size_bound(1) [OF len] a by simp
  have range: "textRange (a @ b @ c) sl sc el ec = text_lines sl sc el ec [1..<Suc el] (Some (a @ b @ c), []) []"
    using position_small [of a "a @ b @ c"] position_small [of "a @ b" "a @ b @ c"] len by (simp add: textRange_def s)
  have before: "\<exists>l. text_lines sl sc el ec [1..<Suc el] (Some (whole_lines as @ rest), []) [] =
      text_lines sl sc el ec [sl..<Suc el] (Some rest, l) []" if "sl \<le> el" for rest
    using text_lines_before [OF a(2), of 1 sl el sc ec rest "[]" "[]"] that start by (simp del: upt_Suc)
  have "text_lines sl sc el ec [1..<Suc el] (Some (a @ b @ c), []) [] = Inr b"
  proof (cases bs)
    case Nil
    then have b': "b = lb" "a @ b = whole_lines as @ (la @ lb)" "a @ b @ c = whole_lines as @ ((la @ lb) @ c)"
      using a b by (simp_all add: whole_lines_def)
    then have stop: "el = sl" "ec = Suc (length la + length lb)"
      using a b line_at_lines [of as "la @ lb"] column_at_lines [of "la @ lb" as] start by (simp_all add: s)
    obtain y t where get: "\<And>l. getline (Some ((la @ lb) @ c), l) = (t, (la @ lb) @ y)"
      using getline_prefix [of "la @ lb" c] a(3) b(3) by fastforce
    have body: "text_line sl sc el ec sl ((la @ lb) @ y) [] = Inr lb"
      using small b'(1) by (simp add: text_line_def substr_def size_sub_le start stop)
    obtain l where "text_lines sl sc el ec [1..<Suc el] (Some (a @ b @ c), []) [] =
        text_lines sl sc el ec [sl..<Suc el] (Some ((la @ lb) @ c), l) []"
      using before [of "(la @ lb) @ c"] stop unfolding b'(3) by auto
    also have "[sl..<Suc el] = [sl]" by (simp add: stop)
    finally show ?thesis unfolding text_lines.simps Let_def get snd_conv body bindC_simps b'(1) .
  next
    case (Cons b0 bs')
    have ab: "a @ b = whole_lines (as @ (la @ b0) # bs') @ lb"
      "a @ b @ c = whole_lines as @ ((la @ b0) @ LF # (whole_lines bs' @ (lb @ c)))" "b = b0 @ LF # whole_lines bs' @ lb"
      using a(1) b(1) by (simp_all add: Cons whole_lines_def)
    have b0: "LF \<notin> set b0" "\<forall>x \<in> set bs'. LF \<notin> set x" using b(2) by (simp_all add: Cons)
    have stop: "el = Suc (sl + length bs')" "ec = Suc (length lb)"
      unfolding s(3,4) ab(1) using a b b0 line_at_lines [of "as @ (la @ b0) # bs'" lb] column_at_lines [of lb]
      by (auto simp: start)
    obtain l where l: "text_lines sl sc el ec [1..<Suc el] (Some (a @ b @ c), []) [] =
        text_lines sl sc el ec [sl..<Suc el] (Some ((la @ b0) @ LF # (whole_lines bs' @ (lb @ c))), l) []"
      using before [of "(la @ b0) @ LF # (whole_lines bs' @ (lb @ c))"] stop(1) unfolding ab(2) by auto
    have up: "[sl..<Suc el] = sl # [Suc sl..<Suc el]" unfolding stop by (simp add: upt_rec)
    have get: "getline (Some ((la @ b0) @ LF # (whole_lines bs' @ (lb @ c))), l) = (Some (whole_lines bs' @ (lb @ c)), la @ b0)"
      by (rule getline_line) (use a(3) b0(1) in simp)
    have body: "text_line sl sc el ec sl (la @ b0) [] = Inr (b0 @ [LF])"
      using small ab(3) by (simp add: text_line_def start stop substr_def size_sub_le)
    obtain l' where l': "text_lines sl sc el ec [Suc sl..<Suc el] (Some (whole_lines bs' @ (lb @ c)), la @ b0) (b0 @ [LF]) =
        text_lines sl sc el ec [el..<Suc el] (Some (lb @ c), l') ((b0 @ [LF]) @ whole_lines bs')"
      using text_lines_inside [OF b0(2), of sl "Suc sl" el sc ec "lb @ c" "la @ b0" "b0 @ [LF]"] stop(1) by (auto simp del: upt_Suc)
    obtain y t where last: "getline (Some (lb @ c), l') = (t, lb @ y)" using getline_prefix [OF b(3)] by blast
    have tail: "text_line sl sc el ec el (lb @ y) ((b0 @ [LF]) @ whole_lines bs') = Inr b"
      using small ab(3) by (simp add: text_line_def stop substr_def size_sub_le)
    have "[el..<Suc el] = [el]" by simp
    then have "text_lines sl sc el ec [el..<Suc el] (Some (lb @ c), l') ((b0 @ [LF]) @ whole_lines bs') = Inr b"
      by (simp only: text_lines.simps last Let_def snd_conv tail bindC_simps)
    then show ?thesis unfolding l up text_lines.simps get Let_def snd_conv body bindC_simps l' .
  qed
  then show ?thesis unfolding s [symmetric] range .
qed

theorem text_range_exact_witness:
  "textRange (''int x;'' @ ([LF] @ ''int '') @ ''y;'') (line_at ''int x;'') (column_at ''int x;'')
     (line_at (''int x;'' @ [LF] @ ''int '')) (column_at (''int x;'' @ [LF] @ ''int '')) = Inr ([LF] @ ''int '') \<and>
   line_at (''int x;'' @ [LF] @ ''int '') = 2 \<and> column_at (''int x;'' @ [LF] @ ''int '') = 5"
  using text_range_exact [of "''int x;''" "[LF] @ ''int ''" "''y;''"] by (simp add: max_size_def) (code_simp)

section \<open>Escaping\<close>

fun escapeHtml :: "string \<Rightarrow> string" where
  "escapeHtml [] = []"
| "escapeHtml (c # cs) =
     (if c = CHR ''<'' then ''&lt;'' else if c = CHR ''>'' then ''&gt;'' else if c = CHR ''&'' then ''&amp;'' else [c]) @ escapeHtml cs"

text \<open>What a browser shows for a text without tags that uses these three entities only.\<close>

fun shown_html :: "string \<Rightarrow> string" where
  "shown_html [] = []"
| "shown_html (c # cs) =
     (if c = CHR ''&'' \<and> take 3 cs = ''lt;'' then CHR ''<'' # shown_html (drop 3 cs)
      else if c = CHR ''&'' \<and> take 3 cs = ''gt;'' then CHR ''>'' # shown_html (drop 3 cs)
      else if c = CHR ''&'' \<and> take 4 cs = ''amp;'' then CHR ''&'' # shown_html (drop 4 cs)
      else c # shown_html cs)"

text \<open>
  Escaped text has no tags, and what is shown for it is the text itself, so different texts stay
  different.
\<close>

theorem escape_html_shown:
  "CHR ''<'' \<notin> set (escapeHtml s) \<and> CHR ''>'' \<notin> set (escapeHtml s) \<and> shown_html (escapeHtml s) = s"
proof (induction s)
  case (Cons c s)
  then show ?case by (auto simp: numeral_eq_Suc)
qed simp

lemma escaped_twice: "shown_html (escapeHtml (escapeHtml ''a<b'')) = ''a&lt;b''"
  by code_simp

end
