(* ===== verification/CppServiceInfo.thy ===== *)
theory CppServiceInfo
  imports CppService UtilText
begin

text \<open>
  The rest of \<^verbatim>\<open>plugins/cpp/service/src/cppservice.cpp\<close>: what the web interface shows for a place in a file, the
  properties, the source text and the documentation of a node, the references and the highlighting of a
  file, and which references and diagrams it offers.
\<close>

section \<open>The node at a position\<close>

definition covers :: "position \<Rightarrow> ast_node \<Rightarrow> bool" where
  "covers p n \<longleftrightarrow> starts_until p n \<and> ends_after p n"

definition nodes_at :: "service_db \<Rightarrow> nat \<Rightarrow> position \<Rightarrow> ast_node list" where
  "nodes_at T f p = filter (\<lambda>n. an_file n = Some f \<and> covers p n) (sv_nodes T)"

fun innermost :: "ast_node list \<Rightarrow> range \<Rightarrow> ast_node \<Rightarrow> ast_node" where
  "innermost [] minRange minNode = minNode"
| "innermost (node # nodes) minRange minNode =
     (if an_symbol node = Macro_Symbol then node
      else if an_visible node \<and> range_less (an_range node) minRange then innermost nodes (an_range node) node
      else innermost nodes minRange minNode)"

definition whole_range :: range where
  "whole_range = \<lparr>rg_start = \<lparr>line = 0, column = 0\<rparr>, rg_end = \<lparr>line = npos, column = npos\<rparr>\<rparr>"

text \<open>A node that is not initialised has the identifier 0 and an arbitrary hash.\<close>

definition default_node :: "nat \<Rightarrow> ast_node" where
  "default_node uninit =
     \<lparr>an_id = 0, an_value = [], an_file = None, an_start = \<lparr>line = npos, column = npos\<rparr>,
      an_end = \<lparr>line = npos, column = npos\<rparr>, an_hash = uninit, an_symbol = Other_Symbol, an_type = Other_Node, an_visible = True\<rparr>"

definition srv_getAstNodeInfoByPosition :: "nat \<Rightarrow> service_db \<Rightarrow> nat \<Rightarrow> position \<Rightarrow> node_info served" where
  "srv_getAstNodeInfoByPosition uninit T f p =
     (let min = innermost (nodes_at T f p) whole_range (default_node uninit) in
      bindE (getTags T [min] (\<lambda>_. [])) (\<lambda>tags. Inr (CreateAstNodeInfo tags min)))"

section \<open>Properties, text and documentation of a node\<close>

definition decimal_int :: "int \<Rightarrow> string" where
  "decimal_int v = (if v < 0 then CHR ''-'' # decimal (nat (- v)) else decimal (nat v))"

text \<open>\<open>substr(find_last_of(':') + 1)\<close>; the position behind \<open>npos\<close> is 0.\<close>

definition after_colon :: "string \<Rightarrow> string" where
  "after_colon s = (case strrchr s (CHR '':'') of None \<Rightarrow> s | Some i \<Rightarrow> drop (Suc i) s)"

definition srv_getProperties :: "service_db \<Rightarrow> nat \<Rightarrow> (string \<Rightarrow> string option) served" where
  "srv_getProperties T i =
     bindE (queryCppAstNode T i) (\<lambda>node.
     case an_symbol node of
       Variable_Symbol \<Rightarrow>
         with_entity node (filter (\<lambda>v. va_entityHash v = an_hash node) (sv_variables T))
           (\<lambda>v. Inr [''Name'' \<mapsto> va_name v, ''Qualified name'' \<mapsto> va_qualifiedName v, ''Type'' \<mapsto> va_qualifiedType v]) Map.empty
     | Function_Symbol \<Rightarrow>
         with_entity node (filter (\<lambda>f. fn_entityHash f = an_hash node) (sv_functions T))
           (\<lambda>f. Inr [''Name'' \<mapsto> after_colon (fn_qualifiedName f), ''Qualified name'' \<mapsto> fn_qualifiedName f,
              ''Signature'' \<mapsto> fn_name f]) Map.empty
     | Type_Symbol \<Rightarrow>
         with_entity node (filter (\<lambda>t. rd_entityHash t = an_hash node) (sv_records T))
           (\<lambda>t. Inr ((\<lambda>p. if p = ''Abstract type'' \<and> rd_isAbstract t \<or> p = ''POD type'' \<and> rd_isPOD t then Some ''true'' else None)
              (''Name'' \<mapsto> rd_name t, ''Qualified name'' \<mapsto> rd_qualifiedName t))) Map.empty
     | Typedef_Symbol \<Rightarrow>
         with_entity node (filter (\<lambda>t. td_entityHash t = an_hash node) (sv_typedefs T))
           (\<lambda>t. Inr [''Name'' \<mapsto> td_name t, ''Qualified name'' \<mapsto> td_qualifiedName t]) Map.empty
     | EnumConstant_Symbol \<Rightarrow>
         with_entity node (filter (\<lambda>c. ec_entityHash c = an_hash node) (sv_enumConstants T))
           (\<lambda>c. Inr [''Name'' \<mapsto> ec_name c, ''Qualified name'' \<mapsto> ec_qualifiedName c, ''Value'' \<mapsto> decimal_int (ec_value c)]) Map.empty
     | _ \<Rightarrow> Inr Map.empty)"

definition find_file :: "service_db \<Rightarrow> nat \<Rightarrow> file_entity option" where
  "find_file T f = find (\<lambda>r. fe_id r = f) (sv_files T)"

definition srv_getSourceText :: "service_db \<Rightarrow> nat \<Rightarrow> string served" where
  "srv_getSourceText T i =
     bindE (queryCppAstNode T i) (\<lambda>n.
     case an_file n of
       None \<Rightarrow> Inr []
     | Some f \<Rightarrow>
         (case find_file T f of
            None \<Rightarrow> Inl Row_Not_Found
          | Some file \<Rightarrow>
              (case fe_content file of
                 None \<Rightarrow> Inl Null_Pointer
               | Some text \<Rightarrow>
                   (case textRange text (line (an_start n)) (column (an_start n)) (line (an_end n)) (column (an_end n)) of
                      Inl _ \<Rightarrow> Inl Substr_Out_Of_Range
                    | Inr s \<Rightarrow> Inr s))))"

definition toupper :: "char \<Rightarrow> char" where
  "toupper c = (if CHR ''a'' \<le> c \<and> c \<le> CHR ''z'' then char_of ((of_char c :: nat) - 32) else c)"

text \<open>The first character of an empty tag is the terminator of the string.\<close>

definition tag_html :: "string \<Rightarrow> string" where
  "tag_html tag =
     (if tag \<in> {''public'', ''private'', ''protected''} then
        ''<span class=\"icon-visibility icon-'' @ tag @ ''\"></span>''
      else
        ''<span class=\"tag tag-'' @ tag @ ''\" title=\"'' @ tag @ ''\">'' @
          [toupper (case tag of [] \<Rightarrow> NUL | c # _ \<Rightarrow> c)] @ ''</span>'')"

definition comment_of :: "service_db \<Rightarrow> nat \<Rightarrow> string option" where
  "comment_of T hash = map_option dc_content (find (\<lambda>c. dc_entityHash c = hash) (sv_comments T))"

definition method_html :: "service_db \<Rightarrow> node_info \<Rightarrow> string served" where
  "method_html T m =
     bindE (srv_getProperties T (ni_id m)) (\<lambda>properties.
     Inr (''<div class=\"group\"><div class=\"signature\">'' @ concat (map tag_html (ni_tags m)) @
       (case properties ''Signature'' of None \<Rightarrow> ni_astNodeValue m | Some signature \<Rightarrow> signature) @ ''</div>'' @
       (case comment_of T (ni_entityHash m) of None \<Rightarrow> [] | Some doc \<Rightarrow> doc) @ ''</div>''))"

definition srv_getDocumentation :: "service_db \<Rightarrow> nat \<Rightarrow> string served" where
  "srv_getDocumentation T i =
     bindE (queryCppAstNode T i) (\<lambda>node.
     let doc = (case comment_of T (an_hash node) of None \<Rightarrow> [] | Some doc \<Rightarrow> ''<div class=\"main-doc\">'' @ doc @ ''</div>'') in
     if an_symbol node = Type_Symbol then
       bindE (srv_getReferences T i METHOD) (\<lambda>methods.
       bindE (map_E (method_html T) methods) (\<lambda>htmls. Inr (doc @ concat htmls)))
     else Inr doc)"

section \<open>What is offered\<close>

definition srv_getFileTypes :: "string list" where
  "srv_getFileTypes = [''CPP'', ''Dir'']"

fun symbol_references :: "symbol_type \<Rightarrow> (string \<times> reference_type) list" where
  "symbol_references Function_Symbol =
     [(''This calls'', THIS_CALLS), (''Callee'', CALLEE), (''Caller'', CALLER), (''Virtual call'', VIRTUAL_CALL),
      (''Function pointer call'', FUNC_PTR_CALL), (''Parameters'', PARAMETER), (''Local variables'', LOCAL_VAR),
      (''Overrides'', OVERRIDE), (''Overridden by'', OVERRIDDEN_BY), (''Return type'', RETURN_TYPE)]"
| "symbol_references Variable_Symbol = [(''Reads'', READ), (''Writes'', WRITE), (''Type'', reference_type.TYPE)]"
| "symbol_references Type_Symbol =
     [(''Aliases'', ALIAS), (''Inherits from'', INHERIT_FROM), (''Inherited by'', INHERIT_BY), (''Data member'', DATA_MEMBER),
      (''Method'', METHOD), (''Friends'', FRIEND), (''Usage'', USAGE)]"
| "symbol_references Typedef_Symbol = [(''Underlying type'', UNDERLYING_TYPE)]"
| "symbol_references Enum_Symbol = [(''Enum constants'', ENUM_CONSTANTS)]"
| "symbol_references Macro_Symbol = [(''Expansions'', EXPANSION), (''Undefinitions'', UNDEFINITION)]"
| "symbol_references _ = []"

definition getReferenceTypes :: "service_db \<Rightarrow> nat \<Rightarrow> (string \<Rightarrow> reference_type option) served" where
  "getReferenceTypes T i =
     bindE (queryCppAstNode T i) (\<lambda>node.
     Inr ([''Definition'' \<mapsto> DEFINITION, ''Declaration'' \<mapsto> DECLARATION, ''Usage'' \<mapsto> USAGE] ++
       map_of (symbol_references (an_symbol node))))"

fun symbol_diagrams :: "symbol_type \<Rightarrow> (string \<times> diagram_type) list" where
  "symbol_diagrams Function_Symbol = [(''Function call diagram'', FUNCTION_CALL)]"
| "symbol_diagrams Type_Symbol =
     [(''Detailed class diagram'', DETAILED_CLASS), (''Class collaboration diagram'', CLASS_COLLABORATION)]"
| "symbol_diagrams _ = []"

definition srv_getDiagramTypes :: "service_db \<Rightarrow> nat \<Rightarrow> (string \<times> diagram_type) list served" where
  "srv_getDiagramTypes T i = bindE (queryCppAstNode T i) (\<lambda>node. Inr (symbol_diagrams (an_symbol node)))"

definition srv_getFileDiagramTypes :: "service_db \<Rightarrow> nat \<Rightarrow> (string \<times> diagram_type) list" where
  "srv_getFileDiagramTypes T f =
     (case find_file T f of
        None \<Rightarrow> []
      | Some file \<Rightarrow>
          if fe_type file = DIRECTORY_TYPE then
            [(''Internal architecture of this module'', SUBSYSTEM_DEPENDENCY), (''This module depends on'', EXTERNAL_DEPENDENCY),
             (''Users of this module'', EXTERNAL_USERS)]
          else if fe_type file = Other_Type ''CPP'' then
            [(''Include Dependency'', INCLUDE_DEPENDENCY), (''Component Users'', COMPONENT_USERS), (''Interface Diagram'', INTERFACE)]
          else [])"

section \<open>References of a file\<close>

definition getFileReferenceTypes :: "(string \<times> file_reference_type) list" where
  "getFileReferenceTypes = [(''Types'', TYPES), (''Functions'', FUNCTIONS), (''Includes'', INCLUDES), (''Macros'', MACROS)]"

fun file_query :: "file_reference_type \<Rightarrow> ast_node \<Rightarrow> bool" where
  "file_query TYPES n \<longleftrightarrow> an_symbol n = Type_Symbol \<and> an_type n = Definition_Node"
| "file_query FUNCTIONS n \<longleftrightarrow> an_symbol n = Function_Symbol \<and> (an_type n = Definition_Node \<or> an_type n = Declaration_Node)"
| "file_query INCLUDES n \<longleftrightarrow> an_symbol n = File_Symbol"
| "file_query MACROS n \<longleftrightarrow> an_symbol n = Macro_Symbol \<and> an_type n = Definition_Node"

definition getFileReferences :: "service_db \<Rightarrow> nat \<Rightarrow> file_reference_type \<Rightarrow> node_info list served" where
  "getFileReferences T f ref = node_infos T (sort_key an_value (queryCppAstNodesInFile T f (file_query ref)))"

definition getFileReferenceCount :: "service_db \<Rightarrow> nat \<Rightarrow> file_reference_type \<Rightarrow> nat" where
  "getFileReferenceCount T f ref = queryCppAstNodeCountInFile T f (file_query ref)"

section \<open>The innermost node\<close>

lemma covers_position: "covers p n \<longleftrightarrow> position_le (an_start n) p \<and> position_less p (an_end n)"
  using position_eqI [of "an_start n" p]
  by (cases "column (an_start n) = column p")
    (auto simp: covers_def starts_until_def ends_after_def position_le_def position_less_def)

lemma innermost_macro: "find (\<lambda>n. an_symbol n = Macro_Symbol) ns = Some m \<Longrightarrow> innermost ns r d = m"
  by (induction ns arbitrary: r d) (auto split: if_splits)

text \<open>What the loop returns without a macro: the start node, or a visible node that no other one is strictly inside of.\<close>

definition least_range :: "ast_node list \<Rightarrow> range \<Rightarrow> ast_node \<Rightarrow> bool" where
  "least_range ns r m \<longleftrightarrow> m \<in> set ns \<and> an_visible m \<and> range_less (an_range m) r \<and>
     (\<forall>n \<in> set ns. an_visible n \<longrightarrow> \<not> range_less (an_range n) (an_range m))"

lemma innermost_least:
  assumes "\<forall>n \<in> set ns. an_symbol n \<noteq> Macro_Symbol"
  shows "(\<forall>n \<in> set ns. an_visible n \<longrightarrow> \<not> range_less (an_range n) r) \<and> innermost ns r d = d \<or>
    least_range ns r (innermost ns r d)"
  using assms
proof (induction ns arbitrary: r d)
  case (Cons n ns)
  show ?case
  proof (cases "an_visible n \<and> range_less (an_range n) r")
    case True
    have step: "innermost (n # ns) r d = innermost ns (an_range n) n" using True Cons.prems by simp
    consider "\<forall>m \<in> set ns. an_visible m \<longrightarrow> \<not> range_less (an_range m) (an_range n)" "innermost ns (an_range n) n = n"
      | "least_range ns (an_range n) (innermost ns (an_range n) n)" using Cons.IH [of "an_range n" n] Cons.prems by auto
    then show ?thesis
    proof cases
      case 1
      then show ?thesis using True unfolding step by (simp add: least_range_def)
    next
      case 2
      then show ?thesis using True range_less_trans range_less_irrefl unfolding step by (simp add: least_range_def) blast
    qed
  next
    case False
    then have step: "innermost (n # ns) r d = innermost ns r d" using Cons.prems by auto
    have IH: "(\<forall>n \<in> set ns. an_visible n \<longrightarrow> \<not> range_less (an_range n) r) \<and> innermost ns r d = d \<or>
        least_range ns r (innermost ns r d)" using Cons by simp
    show ?thesis using IH False range_less_trans unfolding step by (simp add: least_range_def) blast
  qed
qed simp

text \<open>Positions count from 1, and no position is beyond \<open>npos\<close>.\<close>

definition positions_ok :: "service_db \<Rightarrow> bool" where
  "positions_ok T \<longleftrightarrow> list_all (\<lambda>n. line (an_start n) \<noteq> 0 \<and> line (an_end n) \<le> npos \<and> column (an_end n) \<le> npos) (sv_nodes T)"

lemma in_whole_range: "positions_ok T \<Longrightarrow> n \<in> set (sv_nodes T) \<Longrightarrow> range_less (an_range n) whole_range"
  using position_eqI [of "an_end n" "\<lparr>line = npos, column = npos\<rparr>"]
  by (auto simp: positions_ok_def list_all_iff range_less_contained whole_range_def position_le_def position_less_def an_range_def
      le_less)

lemma info_of_row:
  assumes "service_ok T" "n \<in> set (sv_nodes T)"
  shows "\<exists>info. bindE (getTags T [n] (\<lambda>_. [])) (\<lambda>tags. Inr (CreateAstNodeInfo tags n)) = Inr info \<and> ni_id info = an_id n"
proof -
  obtain tags where "getTags T [n] (\<lambda>_. []) = Inr tags"
    using getTags_total [OF assms(1), of "[n]" "\<lambda>_. []"] row_tabled [OF assms] by (auto simp del: getTags.simps)
  then show ?thesis by (simp add: CreateAstNodeInfo_def del: getTags.simps)
qed


text \<open>A class in a file, with a method inside it, and a macro in front of both.\<close>

definition at_position :: "nat \<Rightarrow> nat \<Rightarrow> position" where
  "at_position l c = \<lparr>line = l, column = c\<rparr>"

definition info_node :: "nat \<Rightarrow> position \<Rightarrow> position \<Rightarrow> nat \<Rightarrow> symbol_type \<Rightarrow> ast_node" where
  "info_node i from_pos to_pos hash symbol =
     \<lparr>an_id = i, an_value = ''run'', an_file = Some 1, an_start = from_pos, an_end = to_pos, an_hash = hash,
      an_symbol = symbol, an_type = Definition_Node, an_visible = True\<rparr>"

definition info_db :: service_db where
  "info_db = example_db\<lparr>
     sv_nodes := [info_node 1 (at_position 2 1) (at_position 3 2) 10 Type_Symbol, info_node 2 (at_position 2 3) (at_position 2 6) 20 Function_Symbol,
       info_node 3 (at_position 1 1) (at_position 1 4) 30 Macro_Symbol],
     sv_inheritance := [],
     sv_members := [\<lparr>mb_typeHash = 10, mb_node = 2, mb_kind = Method, mb_visibility = Public\<rparr>],
     sv_comments := [\<lparr>dc_content = ''Runs.'', dc_contentHash = 0, dc_entityHash = 20\<rparr>],
     sv_files := [\<lparr>fe_id = 1, fe_type = Other_Type ''CPP'', fe_path = ''/a.h'', fe_content = Some (''M()'' @ [LF] @ ''{ run'' @ [LF] @ '' }'')\<rparr>]\<rparr>"

lemma info_db_ok: "service_ok info_db" "positions_ok info_db"
  by (simp_all add: service_ok_def positions_ok_def info_db_def info_node_def at_position_def example_db_def npos_def SIZE_MAX_def)


section \<open>Source text\<close>

text \<open>
  C30: the source text of a node is the part of the file between its positions: if the content of the file is
  \<open>a @ b @ c\<close> and the node starts behind \<open>a\<close> and ends behind \<open>a @ b\<close>, the text is \<open>b\<close>.
\<close>

theorem node_source_text:
  assumes node: "queryCppAstNode T i = Inr n" "an_file n = Some f" "find_file T f = Some file"
    and content: "fe_content file = Some (a @ b @ c)" "length (a @ b @ c) \<le> max_size"
    and position: "an_start n = \<lparr>line = line_at a, column = column_at a\<rparr>" "an_end n = \<lparr>line = line_at (a @ b), column = column_at (a @ b)\<rparr>"
  shows "srv_getSourceText T i = Inr b"
  using text_range_exact [OF content(2)] by (simp add: srv_getSourceText_def node content(1) position del: append_assoc)

theorem node_source_text_witness:
  "srv_getSourceText info_db 1 = Inr (''{ run'' @ [LF] @ '' '')"
proof -
  let ?a = "''M()'' @ [LF]" and ?b = "''{ run'' @ [LF] @ '' ''" and ?c = "''}''"
  obtain n where n: "queryCppAstNode info_db 1 = Inr n" "an_file n = Some 1"
    "an_start n = \<lparr>line = line_at ?a, column = column_at ?a\<rparr>"
    "an_end n = \<lparr>line = line_at (?a @ ?b), column = column_at (?a @ ?b)\<rparr>"
  proof
    show "queryCppAstNode info_db 1 = Inr (info_node 1 (at_position 2 1) (at_position 3 2) 10 Type_Symbol)"
      by (simp add: queryCppAstNode_def info_db_def info_node_def)
    show "an_file (info_node 1 (at_position 2 1) (at_position 3 2) 10 Type_Symbol) = Some 1" by (simp add: info_node_def)
    show "an_start (info_node 1 (at_position 2 1) (at_position 3 2) 10 Type_Symbol) = \<lparr>line = line_at ?a, column = column_at ?a\<rparr>" by code_simp
    show "an_end (info_node 1 (at_position 2 1) (at_position 3 2) 10 Type_Symbol) = \<lparr>line = line_at (?a @ ?b), column = column_at (?a @ ?b)\<rparr>" by code_simp
  qed
  obtain r where r: "find_file info_db 1 = Some r" "fe_content r = Some (?a @ ?b @ ?c)"
    by (auto simp: find_file_def info_db_def)
  have len: "length (?a @ ?b @ ?c) \<le> max_size" by (simp add: max_size_def)
  show ?thesis by (rule node_source_text [OF n(1,2) r len n(3,4)])
qed

section \<open>Documentation and file references\<close>

lemma with_entity_total: "an_file node \<noteq> None \<Longrightarrow> (\<And>r. \<exists>x. f r = Inr x) \<Longrightarrow> \<exists>x. with_entity node rows f d = Inr x"
  by (cases rows) (auto simp: with_entity_def toShortDiagnosticString_def)

lemma srv_getProperties_total:
  assumes "service_ok T" "i \<in> an_id ` set (sv_nodes T)"
  shows "\<exists>p. srv_getProperties T i = Inr p"
proof -
  obtain n where n: "n \<in> set (sv_nodes T)" "queryCppAstNode T i = Inr n" using query_ids [OF assms] by metis
  then have "an_file n \<noteq> None" using row_tabled [OF assms(1)] by (simp add: tabled_def)
  then show ?thesis by (cases "an_symbol n") (auto simp: srv_getProperties_def n(2) intro!: with_entity_total)
qed

lemma node_infos_ids:
  assumes "node_infos T ns = Inr infos"
  shows "map ni_id infos = map an_id ns"
proof -
  obtain tags where "infos = map (CreateAstNodeInfo tags) ns" using assms by (auto simp: node_infos_def bindE_def split: sum.splits)
  then show ?thesis by (simp add: CreateAstNodeInfo_def comp_def)
qed

lemma node_infos_total: "service_ok T \<Longrightarrow> list_all (tabled T) ns \<Longrightarrow> \<exists>infos. node_infos T ns = Inr infos"
  using getTags_total [of T ns "\<lambda>_. []"] by (auto simp: node_infos_def)

theorem documentation_total:
  assumes ok: "service_ok T" and i: "i \<in> an_id ` set (sv_nodes T)"
  shows "\<exists>d. srv_getDocumentation T i = Inr d"
proof -
  obtain n where n: "n \<in> set (sv_nodes T)" "queryCppAstNode T i = Inr n" using query_ids [OF ok i] by metis
  obtain nodes where nodes: "reference_nodes T i METHOD = Inr nodes" "list_all (tabled T) nodes"
    using rows_agree(2) [OF ok n(2)] by (auto simp: agrees_def)
  let ?ns = "sort_key an_value nodes"
  have tabled: "list_all (tabled T) ?ns" using nodes(2) by (simp add: list_all_iff)
  from node_infos_total [OF ok this] obtain infos where infos: "node_infos T ?ns = Inr infos" by blast
  have "\<exists>h. method_html T m = Inr h" if "m \<in> set infos" for m
  proof -
    have "ni_id m \<in> set (map an_id ?ns)" using that node_infos_ids [OF infos] by (metis image_eqI list.set_map)
    then have "ni_id m \<in> an_id ` set (sv_nodes T)" using tabled by (auto simp: list_all_iff tabled_def)
    from srv_getProperties_total [OF ok this] show ?thesis by (auto simp: method_html_def)
  qed
  then obtain htmls where "map_E (method_html T) infos = Inr htmls" using map_E_Inr [of infos "method_html T"] by blast
  then show ?thesis using nodes(1) infos by (simp add: srv_getDocumentation_def n(2) Let_def srv_getReferences_def)
qed

theorem file_references_counted:
  assumes "service_ok T"
  shows "\<exists>infos. getFileReferences T f ref = Inr infos \<and> length infos = getFileReferenceCount T f ref"
proof -
  let ?ns = "sort_key an_value (queryCppAstNodesInFile T f (file_query ref))"
  have "list_all (tabled T) ?ns" using row_tabled [OF assms] by (simp add: list_all_iff queryCppAstNodesInFile_def)
  from node_infos_total [OF assms this] obtain infos where infos: "node_infos T ?ns = Inr infos" by blast
  have "length infos = length ?ns" using node_infos_ids [OF infos] by (metis length_map)
  then show ?thesis using infos
    by (simp add: getFileReferences_def getFileReferenceCount_def queryCppAstNodesInFile_def queryCppAstNodeCountInFile_def)
qed

text \<open>A tag without a name gives a terminator in the page.\<close>

lemma empty_tag_html: "NUL \<in> set (tag_html (tagToString Template_Instantiation))"
  by code_simp

section \<open>Syntax highlighting\<close>

record syntax_highlight =
  hl_line :: nat
  hl_startColumn :: nat
  hl_endColumn :: nat
  hl_className :: string

definition special_char :: "char \<Rightarrow> bool" where
  "special_char c \<longleftrightarrow> c \<in> set ''-[]{}()*+?.,^$|#'' \<or> isspace c"

definition word_regex :: "string \<Rightarrow> string" where
  "word_regex astValue =
     BACKSLASH # ''b'' @ concat (map (\<lambda>c. if special_char c then [BACKSLASH, c] else [c]) astValue) @ BACKSLASH # ''b''"

definition file_lines :: "string \<Rightarrow> string list" where
  "file_lines text = (let ls = split_on LF text in if last ls = [] then butlast ls else ls)"

definition class_name :: "ast_node \<Rightarrow> string" where
  "class_name n =
     (let symbolClass = ''cm-'' @ symbolTypeToString (an_symbol n)
      in symbolClass @ '' '' @ symbolClass @ ''-'' @ astTypeToString (an_type n))"

text \<open>
  A regular expression library gives the positions of the successive matches in a line, or throws for a malformed
  expression.
\<close>

definition highlight_line ::
    "(string \<Rightarrow> (string \<Rightarrow> nat list) option) \<Rightarrow> ast_node \<Rightarrow> string list \<Rightarrow> nat \<Rightarrow> syntax_highlight list served" where
  "highlight_line regex n content i =
     (case regex (word_regex (an_value n)) of
        None \<Rightarrow> Inl Regex_Error
      | Some matches \<Rightarrow> Inr (map (\<lambda>p. \<lparr>hl_line = i + 1, hl_startColumn = p + 1, hl_endColumn = p + 1 + length (an_value n),
          hl_className = class_name n\<rparr>) (matches (content ! i))))"

definition highlight_node ::
    "(string \<Rightarrow> (string \<Rightarrow> nat list) option) \<Rightarrow> string list \<Rightarrow> ast_node \<Rightarrow> syntax_highlight list served" where
  "highlight_node regex content n =
     (if an_value n = [] then Inr []
      else bindE (map_E (highlight_line regex n content)
          [size_sub (line (an_start n)) 1..<min (line (an_end n)) (length content)]) (\<lambda>hss. Inr (concat hss)))"

definition getSyntaxHighlight ::
    "(string \<Rightarrow> (string \<Rightarrow> nat list) option) \<Rightarrow> service_db \<Rightarrow> nat \<Rightarrow> nat \<Rightarrow> nat \<Rightarrow> syntax_highlight list served" where
  "getSyntaxHighlight regex T f startLine endLine =
     (case find_file T f of
        None \<Rightarrow> Inr []
      | Some r \<Rightarrow>
          (case fe_content r of
             None \<Rightarrow> Inr []
           | Some text \<Rightarrow>
               bindE (map_E (highlight_node regex (file_lines text))
                 (filter (\<lambda>n. an_file n = Some f \<and> line (an_start n) \<ge> startLine \<and> line (an_end n) < endLine \<and>
                    line (an_end n) \<noteq> npos \<and> an_visible n) (sv_nodes T))) (\<lambda>hss. Inr (concat hss))))"

lemma whole_lines_split:
  assumes "i < length (file_lines s)"
  shows "\<exists>rest. s = whole_lines (take i (file_lines s)) @ file_lines s ! i @ rest"
proof -
  have general: "\<exists>rest. join_with LF xs = whole_lines (take i xs) @ xs ! i @ rest" if "i < length xs" for xs i
    using that
  proof (induction xs arbitrary: i)
    case (Cons x xs)
    show ?case
    proof (cases i)
      case 0
      then show ?thesis by (cases xs) (simp_all add: whole_lines_def)
    next
      case (Suc j)
      then have xs: "xs \<noteq> []" "j < length xs" using Cons.prems by auto
      from Cons.IH [OF xs(2)] show ?thesis by (auto simp: Suc join_with_Cons [OF xs(1)] whole_lines_def)
    qed
  qed simp
  have i: "i < length (split_on LF s)" "file_lines s ! i = split_on LF s ! i" "take i (file_lines s) = take i (split_on LF s)"
    using assms by (auto simp: file_lines_def Let_def nth_butlast take_butlast split: if_splits)
  from general [OF i(1)] show ?thesis by (simp add: i)
qed

lemma highlighted_text:
  assumes i: "i < length (file_lines s)" and p: "take (length v) (drop p (file_lines s ! i)) = v" and len: "length s \<le> max_size"
    and v: "v \<noteq> []"
  shows "textRange s (i + 1) (p + 1) (i + 1) (p + 1 + length v) = Inr v"
proof -
  let ?l = "file_lines s ! i"
  obtain rest where s: "s = whole_lines (take i (file_lines s)) @ ?l @ rest" using whole_lines_split [OF i] by blast
  have lines: "\<forall>x \<in> set (file_lines s). LF \<notin> set x"
    using split_on_parts [of _ LF s] in_set_butlastD by (fastforce simp: file_lines_def Let_def split: if_splits)
  then have no: "LF \<notin> set ?l" "\<forall>x \<in> set (take i (file_lines s)). LF \<notin> set x" using i by (auto dest: in_set_takeD)
  have short: "p < length ?l" using p v by (cases "p < length ?l") auto
  have l: "?l = take p ?l @ v @ drop (p + length v) ?l" using p by (metis append_take_drop_id drop_drop add.commute)
  let ?a = "whole_lines (take i (file_lines s)) @ take p ?l"
  have at: "?a @ v @ (drop (p + length v) ?l @ rest) = s" using s l by (metis append.assoc)
  have a: "line_at ?a = i + 1" "column_at ?a = p + 1"
    using no i short line_at_lines [OF no(2), of "take p ?l"] column_at_lines [of "take p ?l"] by (auto dest: in_set_takeD)
  have "LF \<notin> set (take p ?l @ v)" using no(1) l by (metis Un_iff set_append)
  then have b: "line_at (?a @ v) = i + 1" "column_at (?a @ v) = p + 1 + length v"
    using i short line_at_lines [OF no(2), of "take p ?l @ v"] column_at_lines [of "take p ?l @ v" "take i (file_lines s)"] by auto
  from text_range_exact [of ?a v "drop (p + length v) ?l @ rest"] show ?thesis unfolding at a b using len by simp
qed


text \<open>An instance: the occurrences of a word between word boundaries.\<close>

definition word_char :: "char \<Rightarrow> bool" where
  "word_char c \<longleftrightarrow> c = CHR ''_'' \<or> CHR ''0'' \<le> c \<and> c \<le> CHR ''9'' \<or> CHR ''a'' \<le> tolower c \<and> tolower c \<le> CHR ''z''"

definition boundary :: "string \<Rightarrow> nat \<Rightarrow> bool" where
  "boundary l p \<longleftrightarrow> (p > 0 \<and> word_char (l ! (p - 1))) \<noteq> (p < length l \<and> word_char (l ! p))"

definition whole_words :: "string \<Rightarrow> (string \<Rightarrow> nat list) option" where
  "whole_words regex =
     (let v = filter (\<lambda>c. c \<noteq> BACKSLASH) (take (length regex - 4) (drop 2 regex)) in
      Some (\<lambda>l. filter (\<lambda>p. take (length v) (drop p l) = v \<and> boundary l p \<and> boundary l (p + length v)) [0..<length l]))"

lemma whole_words_value:
  assumes "BACKSLASH \<notin> set v"
  shows "filter (\<lambda>c. c \<noteq> BACKSLASH) (take (length (word_regex v) - 4) (drop 2 (word_regex v))) = v"
proof -
  have "filter (\<lambda>c. c \<noteq> BACKSLASH) (concat (map (\<lambda>c. if special_char c then [BACKSLASH, c] else [c]) v)) = v"
    using assms by (induction v) auto
  then show ?thesis by (simp add: word_regex_def)
qed


text \<open>A name that ends in an operator has no boundary behind it, so it is not highlighted.\<close>

lemma operator_not_highlighted:
  "case whole_words (word_regex ''operator+'') of None \<Rightarrow> False | Some g \<Rightarrow> g ''x.operator+(y)'' = []"
  by code_simp

end
