(* ===== verification/ProjectService.thy ===== *)
theory ProjectService
  imports CppPreproc CppMetrics CppService "HOL-Library.AList" "HOL-Library.Product_Lexorder" "HOL-Library.List_Lexorder" "HOL-Library.Char_ord"
begin

text \<open>
  \<^verbatim>\<open>service/project/src/projectservice.cpp\<close>: the service for the files of a project. It reads the tables that the
  parser wrote (theory \<open>ParserSource\<close>); a file is named by the decimal text of its identifier. Rows come in the
  order of the table, and \<open>std::sort\<close> is taken to be stable. Undefined behaviour is the error \<open>Undefined\<close>.
\<close>

section \<open>Tables and errors\<close>

text \<open>A row of the table File, with the column that the search plugin sets.\<close>

record file_row = source_file +
  fr_inSearchIndex :: bool

record statistics =
  st_group :: string
  st_key :: string
  st_value :: int

record project_db =
  pd_files :: "file_row list"
  pd_contents :: "(string \<times> string) list"
  pd_logs :: "build_log list"
  pd_statistics :: "statistics list"

datatype project_error =
  Invalid_File string | Invalid_Input string | Not_Persistent | Not_In_Transaction | Invalid_Argument | Number_Range |
  Unreadable_Json | Undefined

type_synonym 'a answered = "project_error + 'a"

text \<open>\<open>std::stoull\<close>: leading blanks, a sign and digits; what follows them is ignored, a negative number wraps.\<close>

definition stoull :: "string \<Rightarrow> nat answered" where
  "stoull s =
     (let s = dropWhile isspace s;
          negative = (take 1 s = ''-'');
          digits = takeWhile is_digit (if take 1 s = ''-'' \<or> take 1 s = ''+'' then drop 1 s else s);
          n = digits_value digits
      in
      if digits = [] then Inl Invalid_Argument
      else if n \<ge> 2 ^ 64 then Inl Number_Range
      else Inr (if negative then (2 ^ 64 - n) mod 2 ^ 64 else n))"

lemma stoull_decimal [simp]: "stoull (decimal (unat (i :: 64 word))) = Inr (unat i)"
proof -
  have digits: "decimal (unat i) \<noteq> []" "list_all is_digit (decimal (unat i))" using decimal_digits by auto
  then obtain c cs where c: "decimal (unat i) = c # cs" by (cases "decimal (unat i)") auto
  have "unat i < 2 ^ 64" using unsigned_less [of i] by simp
  moreover have "\<not> isspace c" "c \<noteq> CHR ''-''" "c \<noteq> CHR ''+''" using digits(2) digit_not_special [of c] unfolding c by auto
  moreover have "takeWhile is_digit (c # cs) = c # cs" using digits(2) unfolding c by (simp add: list_all_iff takeWhile_eq_all_conv)
  ultimately show ?thesis using digits_value_decimal [of "unat i"] unfolding c by (simp add: stoull_def Let_def)
qed

section \<open>Information about a file\<close>

datatype file_parse_status = Nothing | OnlyInSearchIndex | PartiallyParsed | FullyParsed

record core_file_info =
  fi_id :: string
  fi_name :: string
  fi_type :: file_type
  fi_path :: string
  fi_parent :: string
  fi_hasChildren :: bool
  fi_isDirectory :: bool
  fi_parseStatus :: file_parse_status

text \<open>\<open>hasChildren\<close> is set for files only, to false, which is the initial value for directories as well.\<close>

definition makeFileInfo :: "file_row \<Rightarrow> core_file_info" where
  "makeFileInfo f =
     (let status = (case sf_parseStatus f of
            PSNone \<Rightarrow> Nothing | PSPartiallyParsed \<Rightarrow> PartiallyParsed | PSFullyParsed \<Rightarrow> FullyParsed) in
      \<lparr>fi_id = decimal (unat (sf_id f)), fi_name = sf_filename f, fi_type = sf_type f, fi_path = sf_path f,
       fi_parent = (case sf_parent f of None \<Rightarrow> [] | Some p \<Rightarrow> decimal (unat p)),
       fi_hasChildren = False, fi_isDirectory = (sf_type f = DIRECTORY_TYPE),
       fi_parseStatus = (if status = Nothing \<and> fr_inSearchIndex f then OnlyInSearchIndex else status)\<rparr>)"

definition fileInfoOrder :: "core_file_info \<Rightarrow> core_file_info \<Rightarrow> bool" where
  "fileInfoOrder left right =
     (if fi_isDirectory left = fi_isDirectory right then fi_name left < fi_name right else fi_isDirectory left)"

definition file_key :: "core_file_info \<Rightarrow> bool \<times> string" where
  "file_key f = (\<not> fi_isDirectory f, fi_name f)"

lemma file_key_order: "fileInfoOrder f g \<longleftrightarrow> file_key f < file_key g"
  by (auto simp: fileInfoOrder_def file_key_def less_prod_def)

definition file_at :: "project_db \<Rightarrow> nat \<Rightarrow> file_row option" where
  "file_at T i = find (\<lambda>f. unat (sf_id f) = i) (pd_files T)"

definition getFileInfo :: "project_db \<Rightarrow> string \<Rightarrow> core_file_info answered" where
  "getFileInfo T fileId =
     bindE (stoull fileId) (\<lambda>i. case file_at T i of None \<Rightarrow> Inl (Invalid_File fileId) | Some f \<Rightarrow> Inr (makeFileInfo f))"

definition getFileInfoByPath :: "project_db \<Rightarrow> string \<Rightarrow> core_file_info answered" where
  "getFileInfoByPath T path =
     (case filter (\<lambda>f. sf_path f = path) (pd_files T) of
        [] \<Rightarrow> Inl (Invalid_Input (''Invalid path: '' @ path))
      | f # fs \<Rightarrow> Inr (makeFileInfo f))"

text \<open>A content that is not in the table cannot be loaded.\<close>

definition getFileContent :: "project_db \<Rightarrow> string \<Rightarrow> string answered" where
  "getFileContent T fileId =
     bindE (stoull fileId) (\<lambda>i.
     case file_at T i of
       None \<Rightarrow> Inl (Invalid_File fileId)
     | Some f \<Rightarrow>
         (case object_id (sf_content f) of
            None \<Rightarrow> Inr []
          | Some h \<Rightarrow> (case map_of (pd_contents T) h of None \<Rightarrow> Inl Not_Persistent | Some t \<Rightarrow> Inr t)))"

text \<open>
  \<open>getParent\<close> loads outside a transaction, which ODB refuses; the first argument says whether the caller has one.
  A row that is missing is an exception of ODB already, and the identifier of a null parent is undefined.
\<close>

definition getParent :: "bool \<Rightarrow> project_db \<Rightarrow> string \<Rightarrow> core_file_info answered" where
  "getParent transaction T fileId =
     bindE (stoull fileId) (\<lambda>i.
     if \<not> transaction then Inl Not_In_Transaction
     else
       case file_at T i of
         None \<Rightarrow> Inl Not_Persistent
       | Some f \<Rightarrow> (case sf_parent f of None \<Rightarrow> Inl Undefined | Some p \<Rightarrow> getFileInfo T (decimal (unat p))))"

definition getRootFiles :: "project_db \<Rightarrow> core_file_info list" where
  "getRootFiles T = sort_key file_key (map makeFileInfo (filter (\<lambda>f. sf_parent f = None) (pd_files T)))"

definition child_rows :: "project_db \<Rightarrow> nat \<Rightarrow> file_row list" where
  "child_rows T i = filter (\<lambda>f. case sf_parent f of None \<Rightarrow> False | Some p \<Rightarrow> unat p = i) (pd_files T)"

definition getChildFiles :: "project_db \<Rightarrow> string \<Rightarrow> core_file_info list answered" where
  "getChildFiles T fileId = bindE (stoull fileId) (\<lambda>i. Inr (sort_key file_key (map makeFileInfo (child_rows T i))))"

section \<open>Subtrees\<close>

text \<open>The loop of \<open>getSubtree\<close>; None if it never ends.\<close>

partial_function (option) subtree :: "project_db \<Rightarrow> core_file_info list \<Rightarrow> core_file_info list answered option" where
  "subtree T childFiles =
     (case childFiles of
        [] \<Rightarrow> Some (Inr [])
      | f # fs \<Rightarrow>
          Option.bind
            (if fi_isDirectory f then
               (case getChildFiles T (fi_id f) of Inl e \<Rightarrow> Some (Inl e) | Inr cs \<Rightarrow> subtree T cs)
             else Some (Inr []))
            (\<lambda>below. case below of
               Inl e \<Rightarrow> Some (Inl e)
             | Inr below \<Rightarrow>
                 Option.bind (subtree T fs) (\<lambda>rest.
                 Some (bindE rest (\<lambda>rest. Inr (f # below @ rest))))))"

definition getSubtree :: "project_db \<Rightarrow> string \<Rightarrow> core_file_info list answered option" where
  "getSubtree T fileId = (case getChildFiles T fileId of Inl e \<Rightarrow> Some (Inl e) | Inr cs \<Rightarrow> subtree T cs)"

section \<open>The way to a file\<close>

text \<open>
  The elements of \<open>sub\<close> are destroyed before the identifier of one of them is read; \<open>destroyed\<close> is what is read then.
\<close>

fun open_tree :: "(string \<Rightarrow> string answered) \<Rightarrow> project_db \<Rightarrow> string list \<Rightarrow> core_file_info list \<Rightarrow> core_file_info list answered" where
  "open_tree destroyed T [] sub = Inr []"
| "open_tree destroyed T (filename # pathParts) sub =
     (case find (\<lambda>child. fi_name child = filename) sub of
        None \<Rightarrow> open_tree destroyed T pathParts sub
      | Some child \<Rightarrow>
          bindE (destroyed (fi_id child)) (\<lambda>i.
          bindE (getChildFiles T i) (\<lambda>sub.
          bindE (open_tree destroyed T pathParts sub) (\<lambda>more. Inr (sub @ more)))))"

definition getOpenTreeTillFile :: "(string \<Rightarrow> string answered) \<Rightarrow> project_db \<Rightarrow> string \<Rightarrow> core_file_info list answered" where
  "getOpenTreeTillFile destroyed T fileId =
     bindE (getFileInfo T fileId) (\<lambda>fInfo.
     bindE (open_tree destroyed T (strtok (fi_path fInfo) ''/'') (getRootFiles T)) (\<lambda>more. Inr (getRootFiles T @ more)))"

text \<open>The paths before each slash.\<close>

function path_prefixes :: "string \<Rightarrow> nat \<Rightarrow> string list" where
  "path_prefixes path pos =
     (case strchr (drop pos path) (CHR ''/'') of
        None \<Rightarrow> []
      | Some i \<Rightarrow> (if pos + i = 0 then ''/'' else take (pos + i) path) # path_prefixes path (pos + i + 1))"
  by pat_completeness auto
termination
  by (relation "measure (\<lambda>(path, pos). length path - pos)") (auto dest: strchr_SomeD)

declare path_prefixes.simps [simp del]

definition getPathTillFile :: "project_db \<Rightarrow> string \<Rightarrow> core_file_info list answered" where
  "getPathTillFile T fileId =
     bindE (getFileInfo T fileId) (\<lambda>fileInfo.
     bindE (map_E (getFileInfoByPath T) (path_prefixes (fi_path fileInfo) 0)) (\<lambda>above. Inr (above @ [fileInfo])))"

section \<open>Logs, search, statistics\<close>

record log_info =
  li_message :: string
  li_messageType :: message_type
  li_range :: range

text \<open>A number outside the enumeration leaves the type as it was initialised.\<close>

definition log_message_type :: "message_type option \<Rightarrow> message_type" where
  "log_message_type t = (case t of None \<Rightarrow> Unknown_Message | Some t \<Rightarrow> t)"

definition getBuildLog :: "project_db \<Rightarrow> string \<Rightarrow> log_info list answered" where
  "getBuildLog T fileId =
     bindE (stoull fileId) (\<lambda>i.
     Inr (map (\<lambda>l. \<lparr>li_message = bl_message l, li_messageType = log_message_type (bl_type l), li_range = bl_range l\<rparr>)
       (filter (\<lambda>l. case bl_file l of None \<Rightarrow> False | Some f \<Rightarrow> unat f = i) (pd_logs T))))"

text \<open>The comparison is the one of the database that ignores the case; the last character of an empty text is undefined.\<close>

definition sql_ilike :: "string \<Rightarrow> string \<Rightarrow> bool" where
  "sql_ilike p s = sql_like (map tolower p) (map tolower s)"

definition searchFile :: "project_db \<Rightarrow> string \<Rightarrow> bool \<Rightarrow> core_file_info list answered" where
  "searchFile T text onlyFile =
     (if text = [] then Inl Undefined
      else
        let text = (if List.last text = CHR ''/'' then butlast text else text);
            pattern = ''%'' @ text @ ''%''
        in
        Inr (map makeFileInfo
          (if onlyFile then filter (\<lambda>f. sf_type f \<noteq> DIRECTORY_TYPE \<and> sql_ilike pattern (sf_filename f)) (pd_files T)
           else filter (\<lambda>f. sql_ilike pattern (sf_path f)) (pd_files T))))"

text \<open>The sums are 32-bit integers, whose overflow is undefined.\<close>

fun add_statistics :: "statistics list \<Rightarrow> (string \<times> int) list \<Rightarrow> (string \<times> int) list answered" where
  "add_statistics [] summary = Inr summary"
| "add_statistics (stat # stats) summary =
     (let v = (case map_of summary (st_key stat) of None \<Rightarrow> 0 | Some v \<Rightarrow> v) + st_value stat in
      if v < - (2 ^ 31) \<or> 2 ^ 31 \<le> v then Inl Undefined
      else add_statistics stats (AList.update (st_key stat) v summary))"

definition getStatistics :: "project_db \<Rightarrow> statistics list answered" where
  "getStatistics T =
     (let stats = sort_key st_group (pd_statistics T) in
      bindE (add_statistics stats []) (\<lambda>summary.
      Inr (stats @ map (\<lambda>(k, v). \<lparr>st_group = ''Summary'', st_key = k, st_value = v\<rparr>) (sort_key fst summary))))"

definition getFileTypes :: "project_db \<Rightarrow> file_type list" where
  "getFileTypes T = remdups (map sf_type (pd_files T))"

text \<open>The labels of the project file, which is None if it cannot be read; later labels replace earlier ones.\<close>

definition getLabels :: "(string \<Rightarrow> (string \<times> string) list option) \<Rightarrow> string \<Rightarrow> (string \<rightharpoonup> string) answered" where
  "getLabels read_labels datadir =
     (case read_labels (datadir @ ''/project_info.json'') of
        None \<Rightarrow> Inl Unreadable_Json
      | Some labels \<Rightarrow> Inr (map_of (rev labels)))"

section \<open>The files below a directory\<close>

text \<open>From a file to its parent, by identifiers; and the same step for directories only.\<close>

definition parent_of :: "project_db \<Rightarrow> (nat \<times> nat) set" where
  "parent_of T = {(unat (sf_id f), unat p) | f p. f \<in> set (pd_files T) \<and> sf_parent f = Some p}"

definition directory_parent :: "project_db \<Rightarrow> (nat \<times> nat) set" where
  "directory_parent T = {(unat (sf_id f), unat p) | f p. f \<in> set (pd_files T) \<and> sf_parent f = Some p \<and> sf_type f = DIRECTORY_TYPE}"

text \<open>What is below \<open>i\<close>: its children, and those of the directories below it.\<close>

definition below :: "project_db \<Rightarrow> nat \<Rightarrow> nat set" where
  "below T i = {c. \<exists>p. (c, p) \<in> parent_of T \<and> (p, i) \<in> (directory_parent T)\<^sup>*}"

definition project_ok :: "project_db \<Rightarrow> bool" where
  "project_ok T \<longleftrightarrow> distinct (map sf_id (pd_files T))"

lemma find_distinct_key: "distinct (map k xs) \<Longrightarrow> x \<in> set xs \<Longrightarrow> find (\<lambda>y. k y = k x) xs = Some x"
  by (induction xs) (auto simp: rev_image_eqI)

lemma file_at_row: "project_ok T \<Longrightarrow> f \<in> set (pd_files T) \<Longrightarrow> file_at T (unat (sf_id f)) = Some f"
  using find_distinct_key [of sf_id "pd_files T" f] by (simp add: project_ok_def file_at_def word_unat_eq_iff)

lemma row_unique: "project_ok T \<Longrightarrow> f \<in> set (pd_files T) \<Longrightarrow> g \<in> set (pd_files T) \<Longrightarrow> unat (sf_id f) = unat (sf_id g) \<Longrightarrow> f = g"
  by (metis file_at_row option.inject)

lemma parent_single_valued:
  assumes "project_ok T"
  shows "single_valued (parent_of T)"
proof (rule single_valuedI)
  fix c p q
  assume "(c, p) \<in> parent_of T" "(c, q) \<in> parent_of T"
  then obtain f g where "f \<in> set (pd_files T)" "g \<in> set (pd_files T)" "c = unat (sf_id f)" "c = unat (sf_id g)"
    "\<exists>i. sf_parent f = Some i \<and> p = unat i" "\<exists>i. sf_parent g = Some i \<and> q = unat i"
    unfolding parent_of_def by blast
  then show "p = q" using row_unique [OF assms, of f g] by auto
qed

lemma directory_parent_sub: "directory_parent T \<subseteq> parent_of T"
  by (auto simp: directory_parent_def parent_of_def)

lemma finite_parent_of: "finite (parent_of T)"
proof -
  have "parent_of T \<subseteq> (\<lambda>f. (unat (sf_id f), case sf_parent f of None \<Rightarrow> 0 | Some p \<Rightarrow> unat p)) ` set (pd_files T)"
    by (force simp: parent_of_def)
  then show ?thesis by (rule finite_subset) simp
qed

lemma child_rows_parent: "f \<in> set (child_rows T i) \<longleftrightarrow> f \<in> set (pd_files T) \<and> (\<exists>p. sf_parent f = Some p \<and> unat p = i)"
  by (auto simp: child_rows_def split: option.splits)

lemma below_step:
  assumes "project_ok T"
  shows "below T i = (\<Union>f \<in> set (child_rows T i). insert (unat (sf_id f)) (if sf_type f = DIRECTORY_TYPE then below T (unat (sf_id f)) else {}))"
    (is "_ = ?R")
proof
  show "below T i \<subseteq> ?R"
  proof
    fix c
    assume "c \<in> below T i"
    then obtain p where c: "(c, p) \<in> parent_of T" "(p, i) \<in> (directory_parent T)\<^sup>*" by (auto simp: below_def)
    from c(2) show "c \<in> ?R"
    proof (cases rule: rtranclE)
      case base
      then show ?thesis using c(1) by (fastforce simp: parent_of_def child_rows_parent)
    next
      case (step q)
      then obtain f where f: "f \<in> set (child_rows T i)" "sf_type f = DIRECTORY_TYPE" "q = unat (sf_id f)"
        by (auto simp: directory_parent_def child_rows_parent)
      have "c \<in> below T q" using c(1) step(1) by (auto simp: below_def)
      then show ?thesis using f by auto
    qed
  qed
  show "?R \<subseteq> below T i"
    by (fastforce simp: below_def child_rows_parent parent_of_def directory_parent_def split: if_splits
      intro: rtrancl_into_rtrancl)
qed

lemma below_ancestor: "c \<in> below T i \<Longrightarrow> (c, i) \<in> (parent_of T)\<^sup>+"
  using rtrancl_mono [OF directory_parent_sub] by (fastforce simp: below_def intro: rtrancl_into_trancl2)

text \<open>What two different children of a directory have below them is disjoint.\<close>

lemma siblings_disjoint:
  assumes ok: "project_ok T" and acyclic: "acyclic (parent_of T)"
    and ab: "(a, i) \<in> parent_of T" "(b, i) \<in> parent_of T" "a \<noteq> b"
    and c: "c = a \<or> c \<in> below T a" "c = b \<or> c \<in> below T b"
  shows False
proof -
  have "(c, a) \<in> (parent_of T)\<^sup>*" "(c, b) \<in> (parent_of T)\<^sup>*" using c below_ancestor [of c T] by (auto intro: trancl_into_rtrancl)
  then have "(a, b) \<in> (parent_of T)\<^sup>* \<or> (b, a) \<in> (parent_of T)\<^sup>*"
    using single_valued_confluent [OF parent_single_valued [OF ok]] by blast
  moreover have False if "(x, y) \<in> (parent_of T)\<^sup>*" "x \<noteq> y" "(x, i) \<in> parent_of T" "(y, i) \<in> parent_of T" for x y
  proof -
    from that(1,2) obtain z where z: "(x, z) \<in> parent_of T" "(z, y) \<in> (parent_of T)\<^sup>*" by (meson converse_rtranclE)
    then have "z = i" using that(3) parent_single_valued [OF ok] by (auto dest: single_valuedD)
    then have "(i, i) \<in> (parent_of T)\<^sup>+" using z(2) that(4) by (meson rtrancl_into_trancl1)
    then show False using acyclic by (simp add: acyclic_def)
  qed
  ultimately show False using ab by blast
qed

lemma subtree_simps:
  "subtree T [] = Some (Inr [])"
  "\<not> fi_isDirectory f \<Longrightarrow> subtree T fs = Some (Inr rest) \<Longrightarrow> subtree T (f # fs) = Some (Inr (f # rest))"
  "fi_isDirectory f \<Longrightarrow> getChildFiles T (fi_id f) = Inr cs \<Longrightarrow> subtree T cs = Some (Inr r) \<Longrightarrow> subtree T fs = Some (Inr rest) \<Longrightarrow>
     subtree T (f # fs) = Some (Inr (f # r @ rest))"
  by (rule trans [OF subtree.simps], simp)+

lemma children_sorted:
  "getChildFiles T (decimal (unat (i :: 64 word))) = Inr (sort_key file_key (map makeFileInfo (child_rows T (unat i))))"
  by (simp add: getChildFiles_def)

lemma sort_key_map: "sort_key k (map g xs) = map g (sort_key (k \<circ> g) xs)"
proof -
  have "insort_key k (g x) (map g ys) = map g (insort_key (k \<circ> g) x ys)" for x ys by (induction ys) auto
  then show ?thesis by (induction xs) auto
qed

lemma info_fields [simp]:
  "fi_id (makeFileInfo f) = decimal (unat (sf_id f))" "fi_path (makeFileInfo f) = sf_path f"
  "fi_isDirectory (makeFileInfo f) \<longleftrightarrow> sf_type f = DIRECTORY_TYPE" "fi_name (makeFileInfo f) = sf_filename f"
  by (simp_all add: makeFileInfo_def Let_def)

definition row_below :: "project_db \<Rightarrow> file_row \<Rightarrow> nat set" where
  "row_below T f = insert (unat (sf_id f)) (if sf_type f = DIRECTORY_TYPE then below T (unat (sf_id f)) else {})"

definition lists_exactly :: "core_file_info list \<Rightarrow> nat set \<Rightarrow> bool" where
  "lists_exactly r S \<longleftrightarrow> distinct (map fi_id r) \<and> fi_id ` set r = decimal ` S"

lemma lists_exactly_Cons:
  assumes "lists_exactly r A" "lists_exactly s B" "x \<notin> A" "x \<notin> B" "A \<inter> B = {}" "fi_id f = decimal x"
  shows "lists_exactly (f # r @ s) (insert x (A \<union> B))"
proof -
  have inj: "inj decimal" by (simp add: inj_def)
  have "decimal ` A \<inter> decimal ` B = {}" using assms(5) image_Int [OF inj, of A B] by simp
  moreover have "decimal x \<notin> decimal ` A" "decimal x \<notin> decimal ` B" using assms(3,4) by auto
  ultimately show ?thesis using assms(1,2,6) by (simp add: lists_exactly_def image_Un)
qed

lemma subtree_rows:
  assumes ok: "project_ok T" and acyclic: "acyclic (parent_of T)"
    and IH: "\<And>f. f \<in> set (child_rows T i) \<Longrightarrow> sf_type f = DIRECTORY_TYPE \<Longrightarrow>
      \<exists>cs r. getChildFiles T (fi_id (makeFileInfo f)) = Inr cs \<and> subtree T cs = Some (Inr r) \<and> lists_exactly r (below T (unat (sf_id f)))"
    and rows: "set fs \<subseteq> set (child_rows T i)" "distinct fs"
  shows "\<exists>r. subtree T (map makeFileInfo fs) = Some (Inr r) \<and> lists_exactly r (\<Union>f \<in> set fs. row_below T f)"
  using rows
proof (induction fs)
  case Nil
  show ?case by (simp add: subtree_simps lists_exactly_def)
next
  case (Cons f fs)
  then obtain s where s: "subtree T (map makeFileInfo fs) = Some (Inr s)" "lists_exactly s (\<Union>f \<in> set fs. row_below T f)" by auto
  have f: "f \<in> set (child_rows T i)" using Cons.prems by simp
  let ?x = "unat (sf_id f)"
  have parent: "(unat (sf_id g), i) \<in> parent_of T" if "g \<in> set (child_rows T i)" for g
    using that by (auto simp: child_rows_parent parent_of_def)
  have disjoint: False if "g \<in> set fs" "c \<in> row_below T f" "c \<in> row_below T g" for g c
  proof (rule siblings_disjoint [OF ok acyclic parent [OF f] parent, of g c])
    show g: "g \<in> set (child_rows T i)" using that(1) Cons.prems by auto
    have "f \<noteq> g" using that(1) Cons.prems by auto
    then show "?x \<noteq> unat (sf_id g)" using row_unique [OF ok, of f g] f g by (auto simp: child_rows_parent)
  qed (use that in \<open>auto simp: row_below_def split: if_splits\<close>)
  have disj: "row_below T f \<inter> (\<Union>f \<in> set fs. row_below T f) = {}" using disjoint by blast
  have irrefl: "?x \<notin> below T ?x" using below_ancestor acyclic by (auto simp: acyclic_def)
  show ?case
  proof (cases "sf_type f = DIRECTORY_TYPE")
    case True
    with IH f obtain cs r where r: "getChildFiles T (fi_id (makeFileInfo f)) = Inr cs" "subtree T cs = Some (Inr r)"
      "lists_exactly r (below T ?x)" by blast
    have "lists_exactly (makeFileInfo f # r @ s) (insert ?x (below T ?x \<union> (\<Union>f \<in> set fs. row_below T f)))"
      by (rule lists_exactly_Cons [OF r(3) s(2) irrefl]) (use disj True in \<open>simp_all add: row_below_def [of T f]\<close>)
    then show ?thesis using subtree_simps(3) [OF _ r(1,2) s(1)] True by (simp add: row_below_def)
  next
    case False
    have "lists_exactly (makeFileInfo f # [] @ s) (insert ?x ({} \<union> (\<Union>f \<in> set fs. row_below T f)))"
      by (rule lists_exactly_Cons [OF _ s(2)]) (use disj False in \<open>simp_all add: row_below_def [of T f] lists_exactly_def\<close>)
    then show ?thesis using subtree_simps(2) [OF _ s(1)] False by (simp add: row_below_def)
  qed
qed

lemma subtree_spec:
  assumes ok: "project_ok T" and acyclic: "acyclic (parent_of T)"
  shows "\<exists>cs r. getChildFiles T (decimal (unat i)) = Inr cs \<and> subtree T cs = Some (Inr r) \<and> lists_exactly r (below T (unat (i :: 64 word)))"
proof -
  have "wf (parent_of T)" by (rule finite_acyclic_wf [OF finite_parent_of acyclic])
  then show ?thesis
  proof (induction "unat i" arbitrary: i rule: wf_induct_rule)
    case less
    let ?fs = "sort_key (file_key \<circ> makeFileInfo) (child_rows T (unat i))"
    have "distinct (pd_files T)" using ok by (simp add: project_ok_def distinct_map)
    then have fs: "set ?fs \<subseteq> set (child_rows T (unat i))" "distinct ?fs" by (simp_all add: child_rows_def)
    have "\<exists>r. subtree T (map makeFileInfo ?fs) = Some (Inr r) \<and> lists_exactly r (\<Union>f \<in> set ?fs. row_below T f)"
    proof (rule subtree_rows [OF ok acyclic _ fs])
      fix f
      assume "f \<in> set (child_rows T (unat i))"
      then have "(unat (sf_id f), unat i) \<in> parent_of T" by (auto simp: child_rows_parent parent_of_def)
      from less [OF this] show "\<exists>cs r. getChildFiles T (fi_id (makeFileInfo f)) = Inr cs \<and> subtree T cs = Some (Inr r) \<and>
          lists_exactly r (below T (unat (sf_id f)))" by simp
    qed
    then show ?case using below_step [OF ok, of "unat i"] by (simp add: children_sorted sort_key_map row_below_def)
  qed
qed

text \<open>
  C11: the subtree of a file ends if no file is its own ancestor, and lists every file below it exactly once:
  its children, the children of the directories among them, and so on.
\<close>

theorem subtree_complete:
  assumes "project_ok T" "acyclic (parent_of T)"
  shows "\<exists>r. getSubtree T (decimal (unat (i :: 64 word))) = Some (Inr r) \<and> distinct (map fi_id r) \<and>
    fi_id ` set r = decimal ` below T (unat i)"
  using subtree_spec [OF assms, of i] by (auto simp: getSubtree_def lists_exactly_def)

section \<open>The way to a file\<close>

definition abs_path :: "string list \<Rightarrow> string" where
  "abs_path parts = concat (map (\<lambda>p. CHR ''/'' # p) parts)"

text \<open>The paths of the directories above a file, the root first.\<close>

definition ancestor_paths :: "string list \<Rightarrow> string list" where
  "ancestor_paths parts = map (\<lambda>k. if k = 0 then ''/'' else abs_path (take k parts)) [0..<length parts]"

lemma strchr_skip: "c \<notin> set p \<Longrightarrow> strchr (p @ s) c = map_option (\<lambda>i. length p + i) (strchr s c)"
  by (cases "strchr s c"; induction p) auto

lemma path_prefixes_skip:
  assumes "CHR ''/'' \<notin> set p"
  shows "path_prefixes (pre @ p @ s) (length pre) = path_prefixes (pre @ p @ s) (length (pre @ p))"
  by (subst (1 2) path_prefixes.simps) (simp add: strchr_skip [OF assms] add.assoc split: option.splits)

lemma path_prefixes_parts:
  assumes "list_all (\<lambda>p. CHR ''/'' \<notin> set p) parts"
  shows "path_prefixes (pre @ abs_path parts) (length pre) =
    map (\<lambda>k. if length pre = 0 \<and> k = 0 then ''/'' else pre @ abs_path (take k parts)) [0..<length parts]"
  using assms
proof (induction parts arbitrary: pre)
  case Nil
  show ?case by (subst path_prefixes.simps) (simp add: abs_path_def)
next
  case (Cons p parts)
  let ?path = "pre @ CHR ''/'' # p @ abs_path parts"
  have path: "pre @ abs_path (p # parts) = ?path" by (simp add: abs_path_def)
  have p: "CHR ''/'' \<notin> set p" using Cons.prems by simp
  have "path_prefixes ?path (length pre) = (if length pre = 0 then ''/'' else pre) # path_prefixes ?path (length pre + 1)"
    by (subst path_prefixes.simps) simp
  also have "path_prefixes ?path (length pre + 1) = path_prefixes ((pre @ CHR ''/'' # p) @ abs_path parts) (length (pre @ CHR ''/'' # p))"
    using path_prefixes_skip [OF p, of "pre @ ''/''" "abs_path parts"] by simp
  also have "\<dots> = map (\<lambda>k. pre @ abs_path (take (Suc k) (p # parts))) [0..<length parts]"
    using Cons.IH [of "pre @ CHR ''/'' # p"] Cons.prems by (simp add: abs_path_def)
  finally show ?case unfolding path
    by (simp add: upt_conv_Cons map_Suc_upt [symmetric] abs_path_def del: upt_Suc)
qed

lemma path_prefixes_ancestors:
  "list_all (\<lambda>p. CHR ''/'' \<notin> set p) parts \<Longrightarrow> path_prefixes (abs_path parts) 0 = ancestor_paths parts"
  using path_prefixes_parts [of parts "[]"] by (simp add: ancestor_paths_def)

lemma info_by_path:
  "p \<notin> sf_path ` set (pd_files T) \<Longrightarrow> getFileInfoByPath T p = Inl (Invalid_Input (''Invalid path: '' @ p))"
  "p \<in> sf_path ` set (pd_files T) \<Longrightarrow> \<exists>f. getFileInfoByPath T p = Inr f \<and> fi_path f = p"
proof -
  assume "p \<notin> sf_path ` set (pd_files T)"
  then have "filter (\<lambda>f. sf_path f = p) (pd_files T) = []" by (auto simp: filter_empty_conv)
  then show "getFileInfoByPath T p = Inl (Invalid_Input (''Invalid path: '' @ p))" by (simp add: getFileInfoByPath_def)
next
  assume "p \<in> sf_path ` set (pd_files T)"
  then obtain f fs where f: "filter (\<lambda>f. sf_path f = p) (pd_files T) = f # fs"
    by (cases "filter (\<lambda>f. sf_path f = p) (pd_files T)") (auto simp: filter_empty_conv)
  then have "f \<in> set (filter (\<lambda>f. sf_path f = p) (pd_files T))" by (simp only: f) simp
  then have "sf_path f = p" by simp
  with f show "\<exists>f. getFileInfoByPath T p = Inr f \<and> fi_path f = p" by (simp add: getFileInfoByPath_def)
qed

lemma infos_by_path:
  "case find (\<lambda>p. p \<notin> sf_path ` set (pd_files T)) ps of
     None \<Rightarrow> \<exists>r. map_E (getFileInfoByPath T) ps = Inr r \<and> map fi_path r = ps
   | Some p \<Rightarrow> map_E (getFileInfoByPath T) ps = Inl (Invalid_Input (''Invalid path: '' @ p))"
proof (induction ps)
  case (Cons p ps)
  then show ?case using info_by_path [of p T] by (fastforce split: option.splits)
qed simp

lemma core_info_of_row: "project_ok T \<Longrightarrow> f \<in> set (pd_files T) \<Longrightarrow> getFileInfo T (decimal (unat (sf_id f))) = Inr (makeFileInfo f)"
  by (simp add: getFileInfo_def file_at_row)

text \<open>
  C27: the way to a file lists the directories above it from the root on, and the file; if one of them is not
  in the database, the first that is missing is reported.
\<close>

theorem path_till_file:
  assumes "project_ok T" "f \<in> set (pd_files T)" "sf_path f = abs_path parts" "list_all (\<lambda>p. CHR ''/'' \<notin> set p) parts"
  shows "case find (\<lambda>p. p \<notin> sf_path ` set (pd_files T)) (ancestor_paths parts) of
      None \<Rightarrow> \<exists>r. getPathTillFile T (decimal (unat (sf_id f))) = Inr (r @ [makeFileInfo f]) \<and> map fi_path r = ancestor_paths parts
    | Some p \<Rightarrow> getPathTillFile T (decimal (unat (sf_id f))) = Inl (Invalid_Input (''Invalid path: '' @ p))"
  using infos_by_path [of T "ancestor_paths parts"] assms
  by (auto simp: getPathTillFile_def core_info_of_row path_prefixes_ancestors split: option.splits)

text \<open>The root itself is listed twice.\<close>

lemma root_listed_twice:
  assumes "project_ok T" "f \<in> set (pd_files T)" "sf_path f = ''/''"
  shows "\<exists>g. getPathTillFile T (decimal (unat (sf_id f))) = Inr [g, makeFileInfo f] \<and> fi_path g = ''/''"
proof -
  have "path_prefixes ''/'' 0 = [''/'']" by (subst path_prefixes.simps) (simp add: path_prefixes.simps)
  moreover have "''/'' \<in> sf_path ` set (pd_files T)" using assms(2,3) by (metis image_eqI)
  ultimately show ?thesis using info_by_path(2) [of "''/''" T] assms by (auto simp: getPathTillFile_def core_info_of_row)
qed

text \<open>
  The name of the root directory is a slash, which is never a part of a path, so the tree is never opened below
  the root files.
\<close>

theorem open_tree_at_root:
  assumes ok: "project_ok T" and f: "f \<in> set (pd_files T)"
    and roots: "list_all (\<lambda>r. sf_parent r = None \<longrightarrow> CHR ''/'' \<in> set (sf_filename r)) (pd_files T)"
  shows "getOpenTreeTillFile destroyed T (decimal (unat (sf_id f))) = Inr (getRootFiles T)"
proof -
  have "open_tree destroyed T parts (getRootFiles T) = Inr []" if "\<forall>p \<in> set parts. CHR ''/'' \<notin> set p" for parts
    using that
  proof (induction parts)
    case (Cons p parts)
    have "find (\<lambda>child. fi_name child = p) (getRootFiles T) = None"
      using Cons.prems roots by (auto simp: find_None_iff getRootFiles_def list_all_iff)
    then show ?case using Cons by simp
  qed simp
  moreover have "\<forall>p \<in> set (strtok (sf_path f) ''/''). CHR ''/'' \<notin> set p" using strtok_token by fastforce
  ultimately show ?thesis using ok f by (simp add: getOpenTreeTillFile_def core_info_of_row)
qed

section \<open>Search\<close>

lemma like_percent: "sql_like (CHR ''%'' # q) s \<longleftrightarrow> (\<exists>i. sql_like q (drop i s))"
proof (induction s)
  case (Cons c s)
  have "(\<exists>i. sql_like q (drop i (c # s))) \<longleftrightarrow> sql_like q (c # s) \<or> (\<exists>i. sql_like q (drop i s))"
    by (metis drop0 drop_Suc_Cons not0_implies_Suc)
  then show ?case using Cons by simp
qed simp

lemma like_contains:
  assumes "CHR ''%'' \<notin> set t" "CHR ''_'' \<notin> set t"
  shows "sql_like (''%'' @ t @ ''%'') s \<longleftrightarrow> sublist t s"
proof -
  have "sql_like (''%'' @ t @ ''%'') s \<longleftrightarrow> (\<exists>i. take (length t) (drop i s) = t)"
    using like_prefix [OF assms] by (simp add: like_percent)
  also have "\<dots> \<longleftrightarrow> sublist t s"
  proof
    assume "\<exists>i. take (length t) (drop i s) = t"
    then obtain i where "take (length t) (drop i s) = t" by blast
    then have "s = take i s @ t @ drop (length t) (drop i s)" by (metis append_take_drop_id)
    then show "sublist t s" unfolding sublist_def by blast
  next
    assume "sublist t s"
    then obtain a b where "s = a @ t @ b" unfolding sublist_def by blast
    then show "\<exists>i. take (length t) (drop i s) = t" by (intro exI [of _ "length a"]) simp
  qed
  finally show ?thesis .
qed

lemma tolower_keeps:
  assumes "(of_char d :: nat) < 97" "\<not> isupper d"
  shows "tolower c = d \<longleftrightarrow> c = d"
proof (cases "isupper c")
  case True
  then have "(of_char (tolower c) :: nat) = of_char c + 32" "65 \<le> (of_char c :: nat)" by (simp_all add: tolower_def isupper_def)
  then show ?thesis using assms True by auto
qed (simp add: tolower_def)


section \<open>Statistics\<close>

definition key_total :: "string \<Rightarrow> statistics list \<Rightarrow> int" where
  "key_total k stats = (\<Sum>s \<leftarrow> stats. if st_key s = k then st_value s else 0)"

definition small_statistics :: "statistics list \<Rightarrow> bool" where
  "small_statistics stats \<longleftrightarrow> (\<Sum>s \<leftarrow> stats. \<bar>st_value s\<bar>) < 2 ^ 31"

lemma add_statistics_spec:
  assumes "\<forall>k. \<bar>case map_of summary k of None \<Rightarrow> 0 | Some v \<Rightarrow> v\<bar> + (\<Sum>s \<leftarrow> stats. \<bar>st_value s\<bar>) < 2 ^ 31" "distinct (map fst summary)"
  shows "\<exists>r. add_statistics stats summary = Inr r \<and> distinct (map fst r) \<and> fst ` set r = fst ` set summary \<union> st_key ` set stats \<and>
    (\<forall>k v. (k, v) \<in> set r \<longrightarrow> v = (case map_of summary k of None \<Rightarrow> 0 | Some v \<Rightarrow> v) + key_total k stats)"
  using assms
proof (induction stats arbitrary: summary)
  case Nil
  then show ?case by (auto simp: key_total_def)
next
  case (Cons s stats)
  let ?val = "\<lambda>summary k. (case map_of summary k of None \<Rightarrow> 0 | Some v \<Rightarrow> v) :: int"
  let ?v = "?val summary (st_key s) + st_value s"
  let ?up = "AList.update (st_key s) ?v summary"
  have val: "?val ?up k = (if k = st_key s then ?v else ?val summary k)" for k by (simp add: update_conv)
  have bound: "\<bar>?val ?up k\<bar> + (\<Sum>s \<leftarrow> stats. \<bar>st_value s\<bar>) < 2 ^ 31" for k
    unfolding val using Cons.prems(1) [rule_format, of k] by (auto split: if_splits)
  have "0 \<le> (\<Sum>s \<leftarrow> stats. \<bar>st_value s\<bar>)" by (rule sum_list_nonneg) auto
  then have range: "\<not> (?v < - (2 ^ 31) \<or> 2 ^ 31 \<le> ?v)" using bound [of "st_key s"] unfolding val by auto
  have "distinct (map fst ?up)" using Cons.prems(2) by (rule distinct_update)
  with Cons.IH bound obtain r where r: "add_statistics stats ?up = Inr r" "distinct (map fst r)"
    "fst ` set r = fst ` set ?up \<union> st_key ` set stats" "\<forall>k v. (k, v) \<in> set r \<longrightarrow> v = ?val ?up k + key_total k stats" by blast
  have "fst ` set ?up = insert (st_key s) (fst ` set summary)" using dom_update [of "st_key s" ?v summary]
    by (simp add: dom_map_of_conv_image_fst)
  moreover have "?val ?up k + key_total k stats = ?val summary k + key_total k (s # stats)" for k
    unfolding val by (simp add: key_total_def)
  ultimately show ?case using r range by (simp add: Let_def)
qed

text \<open>
  The statistics end with one entry for each key, whose value is the sum over the groups, as long as the sums
  are in the range of the type.
\<close>

theorem statistics_summary:
  assumes "small_statistics (pd_statistics T)"
  shows "\<exists>summary. getStatistics T = Inr (sort_key st_group (pd_statistics T) @ summary) \<and>
    sorted (map st_key summary) \<and> distinct (map st_key summary) \<and> st_key ` set summary = st_key ` set (pd_statistics T) \<and>
    list_all (\<lambda>s. st_group s = ''Summary'' \<and> st_value s = key_total (st_key s) (pd_statistics T)) summary"
proof -
  let ?stats = "sort_key st_group (pd_statistics T)"
  have total: "sum_list (map f ?stats) = sum_list (map f (pd_statistics T))" for f :: "statistics \<Rightarrow> int"
    by (metis mset_map mset_sort sum_mset_sum_list)
  have "\<forall>k. \<bar>case map_of [] k of None \<Rightarrow> 0 | Some v \<Rightarrow> v\<bar> + (\<Sum>s \<leftarrow> ?stats. \<bar>st_value s\<bar>) < 2 ^ 31"
    using assms total by (simp add: small_statistics_def)
  from add_statistics_spec [OF this] obtain r where r0: "add_statistics ?stats [] = Inr r" "distinct (map fst r)"
    "fst ` set r = st_key ` set ?stats" "\<forall>k v. (k, v) \<in> set r \<longrightarrow> v = 0 + key_total k ?stats"
    by fastforce
  have "key_total k ?stats = key_total k (pd_statistics T)" for k using total by (simp add: key_total_def)
  with r0 have r: "add_statistics ?stats [] = Inr r" "distinct (map fst r)"
    "fst ` set r = st_key ` set (pd_statistics T)" "\<forall>k v. (k, v) \<in> set r \<longrightarrow> v = key_total k (pd_statistics T)"
    by simp_all
  let ?summary = "map (\<lambda>(k, v). \<lparr>st_group = ''Summary'', st_key = k, st_value = v\<rparr>) (sort_key fst r)"
  have keys: "map st_key ?summary = map fst (sort_key fst r)" by (auto simp: case_prod_beta)
  have "distinct (map fst (sort_key fst r))" using r(2) by (metis distinct_map mset_eq_imp_distinct_iff mset_map mset_sort)
  moreover have "st_key ` set ?summary = st_key ` set (pd_statistics T)"
    using arg_cong [OF keys, of set] r(3) by (simp del: map_map)
  moreover have "list_all (\<lambda>s. st_group s = ''Summary'' \<and> st_value s = key_total (st_key s) (pd_statistics T)) ?summary"
    using r(4) by (auto simp: list_all_iff)
  moreover have "getStatistics T = Inr (?stats @ ?summary)" using r(1) by (simp add: getStatistics_def)
  moreover have "sorted (map st_key ?summary)" unfolding keys by (rule sorted_sort_key)
  ultimately show ?thesis by (intro exI [of _ ?summary]) (simp only: keys simp_thms)
qed

section \<open>What the parser stored\<close>

definition project_of :: "source_manager \<Rightarrow> (source_file \<Rightarrow> bool) \<Rightarrow> build_log list \<Rightarrow> statistics list \<Rightarrow> project_db" where
  "project_of s indexed logs stats =
     \<lparr>pd_files = map (\<lambda>f. source_file.extend f (file_row.fields (indexed f))) (file_table s),
      pd_contents = content_table s, pd_logs = logs, pd_statistics = stats\<rparr>"

lemma extended_row [simp]:
  "sf_id (source_file.extend f (file_row.fields b)) = sf_id f" "sf_path (source_file.extend f (file_row.fields b)) = sf_path f"
  "sf_content (source_file.extend f (file_row.fields b)) = sf_content f"
  "sf_filename (source_file.extend f (file_row.fields b)) = sf_filename f"
  by (simp_all add: source_file.defs file_row.defs)

lemma project_of_ok: "sm_inv s \<Longrightarrow> project_ok (project_of s indexed logs stats)"
  by (simp add: project_ok_def project_of_def sm_inv_def comp_def)


section \<open>A project\<close>

definition example_row :: "64 word \<Rightarrow> string \<Rightarrow> string \<Rightarrow> file_type \<Rightarrow> 64 word option \<Rightarrow> file_row" where
  "example_row i path name type parent =
     \<lparr>sf_id = i, sf_path = path, sf_type = type, sf_timestamp = 0, sf_parent = parent, sf_filename = name,
      sf_content = No_Content, sf_parseStatus = PSFullyParsed, fr_inSearchIndex = False\<rparr>"

definition example_project :: project_db where
  "example_project =
     \<lparr>pd_files = [example_row 1 ''/'' ''/'' DIRECTORY_TYPE None, example_row 2 ''/p'' ''p'' DIRECTORY_TYPE (Some 1),
        example_row 3 ''/p/a.cpp'' ''a.cpp'' (Other_Type ''CPP'') (Some 2), example_row 4 ''/p/sub'' ''sub'' DIRECTORY_TYPE (Some 2),
        example_row 5 ''/p/sub/b.h'' ''b.h'' (Other_Type ''CPP'') (Some 4)],
      pd_contents = [], pd_logs = [],
      pd_statistics = [\<lparr>st_group = ''g'', st_key = ''k'', st_value = 2\<rparr>, \<lparr>st_group = ''f'', st_key = ''k'', st_value = 3\<rparr>]\<rparr>"

lemma example_project_ok: "project_ok example_project"
  by (simp add: project_ok_def example_project_def example_row_def)

definition parent_pairs :: "file_row list \<Rightarrow> (nat \<times> nat) list" where
  "parent_pairs fs = concat (map (\<lambda>f. case sf_parent f of None \<Rightarrow> [] | Some p \<Rightarrow> [(unat (sf_id f), unat p)]) fs)"

lemma parent_of_pairs:
  "parent_of T = set (parent_pairs (pd_files T))"
  "directory_parent T = set (parent_pairs (filter (\<lambda>f. sf_type f = DIRECTORY_TYPE) (pd_files T)))"
  by (auto simp: parent_of_def directory_parent_def parent_pairs_def split: option.splits) metis+

lemma example_parents: "parent_of example_project = {(2, 1), (3, 2), (4, 2), (5, 4)}"
  unfolding parent_of_pairs by (simp add: parent_pairs_def example_project_def example_row_def)

lemma example_acyclic: "acyclic (parent_of example_project)"
  by (rule acyclicI_order [where f = id]) (auto simp: example_parents)

lemma distinct_single:
  assumes "distinct xs" "set xs = {x}"
  shows "xs = [x]"
proof (cases xs)
  case (Cons y ys)
  then have "y = x" "set ys \<subseteq> {x}" "x \<notin> set ys" using assms by auto
  then have "set ys = {}" by (metis empty_iff subset_singletonD insertI1)
  with Cons \<open>y = x\<close> show ?thesis by simp
qed (use assms in simp)

theorem subtree_complete_witness:
  "\<exists>r. getSubtree example_project (decimal (unat (1 :: 64 word))) = Some (Inr r) \<and> distinct (map fi_id r) \<and>
     fi_id ` set r = decimal ` below example_project 1 \<and> decimal 5 \<in> fi_id ` set r"
proof -
  have dir: "(4, 2) \<in> directory_parent example_project" "(2, 1) \<in> directory_parent example_project"
    unfolding parent_of_pairs by (simp_all add: parent_pairs_def example_project_def example_row_def)
  have "(4, 1) \<in> (directory_parent example_project)\<^sup>*" using dir by (meson rtrancl.simps)
  then have "5 \<in> below example_project 1" by (auto simp: below_def example_parents)
  then show ?thesis using subtree_complete [OF example_project_ok example_acyclic, of 1] by auto
qed

theorem path_till_file_witness:
  "\<exists>r. getPathTillFile example_project (decimal (unat (5 :: 64 word))) =
      Inr (r @ [makeFileInfo (example_row 5 ''/p/sub/b.h'' ''b.h'' (Other_Type ''CPP'') (Some 4))]) \<and>
     map fi_path r = [''/'', ''/p'', ''/p/sub'']"
proof -
  let ?f = "example_row 5 ''/p/sub/b.h'' ''b.h'' (Other_Type ''CPP'') (Some 4)"
  have f: "?f \<in> set (pd_files example_project)" by (simp add: example_project_def)
  have p: "sf_path ?f = abs_path [''p'', ''sub'', ''b.h'']" "list_all (\<lambda>p. CHR ''/'' \<notin> set p) [''p'', ''sub'', ''b.h'']"
    by (simp_all add: example_row_def abs_path_def)
  have a: "ancestor_paths [''p'', ''sub'', ''b.h''] = [''/'', ''/p'', ''/p/sub'']" by code_simp
  have n: "find (\<lambda>p. p \<notin> sf_path ` set (pd_files example_project)) [''/'', ''/p'', ''/p/sub''] = None"
    by (simp add: example_project_def example_row_def)
  have i: "sf_id ?f = 5" by (simp add: example_row_def)
  show ?thesis using path_till_file [OF example_project_ok f p] unfolding a n i by simp
qed


theorem open_tree_at_root_witness:
  "getOpenTreeTillFile (\<lambda>i. Inl Undefined) example_project (decimal (unat (5 :: 64 word))) = Inr (getRootFiles example_project) \<and>
   map fi_path (getRootFiles example_project) = [''/'']"
proof
  let ?f = "example_row 5 ''/p/sub/b.h'' ''b.h'' (Other_Type ''CPP'') (Some 4)"
  have "sf_id ?f = 5" by (simp add: example_row_def)
  then show "getOpenTreeTillFile (\<lambda>i. Inl Undefined) example_project (decimal (unat (5 :: 64 word))) = Inr (getRootFiles example_project)"
    using open_tree_at_root [OF example_project_ok, of ?f "\<lambda>i. Inl Undefined"] by (simp add: example_project_def example_row_def)
  show "map fi_path (getRootFiles example_project) = [''/'']"
    by (simp add: getRootFiles_def example_project_def example_row_def)
qed

theorem statistics_summary_witness:
  "\<exists>summary. getStatistics example_project = Inr (sort_key st_group (pd_statistics example_project) @ summary) \<and>
     map st_key summary = [''k''] \<and> key_total ''k'' (pd_statistics example_project) = 5"
proof -
  have small: "small_statistics (pd_statistics example_project)" by (simp add: small_statistics_def example_project_def)
  obtain summary where s: "getStatistics example_project = Inr (sort_key st_group (pd_statistics example_project) @ summary)"
    "distinct (map st_key summary)" "st_key ` set summary = {''k''}"
    using statistics_summary [OF small] by (auto simp: example_project_def)
  then have "set (map st_key summary) = {''k''}" by simp
  then have k: "map st_key summary = [''k'']" by (rule distinct_single [OF s(2)])
  have total: "key_total ''k'' (pd_statistics example_project) = 5" by (simp add: key_total_def example_project_def)
  show ?thesis by (intro exI [of _ summary] conjI s(1) k total)
qed


end
