(* ===== verification/UtilGraph.thy ===== *)
theory UtilGraph
  imports CppString Worklist
begin

text \<open>
  \<^verbatim>\<open>util/src/graph.cpp\<close>, \<^verbatim>\<open>util/include/util/graph.h\<close> and \<^verbatim>\<open>util/src/legendbuilder.cpp\<close>: graphs that are drawn. The graph itself is
  kept by the cgraph library of Graphviz, whose functions are the record \<open>cgraph\<close> and whose documented behaviour is
  \<open>cgraph_laws\<close>; the class adds the identifiers. None stands for the use of a null pointer, which the library
  returns for a node, an edge or a subgraph that does not exist.
\<close>

section \<open>The graph library\<close>

record 'g cgraph =
  ag_has_node :: "'g \<Rightarrow> string \<Rightarrow> bool"
  ag_has_edge :: "'g \<Rightarrow> string \<Rightarrow> string \<Rightarrow> bool"
  ag_node :: "string option \<Rightarrow> string \<Rightarrow> 'g \<Rightarrow> 'g"              \<comment> \<open>create in a subgraph or in the graph\<close>
  ag_edge :: "string \<Rightarrow> string \<Rightarrow> string \<Rightarrow> 'g \<Rightarrow> 'g"             \<comment> \<open>tail, head and name\<close>
  ag_subg :: "string \<Rightarrow> 'g \<Rightarrow> 'g"
  ag_delnode :: "string \<Rightarrow> 'g \<Rightarrow> 'g"
  ag_set_graph :: "string \<Rightarrow> string \<Rightarrow> 'g \<Rightarrow> 'g"
  ag_set_node :: "string \<Rightarrow> string \<Rightarrow> string \<Rightarrow> bool \<Rightarrow> 'g \<Rightarrow> 'g"   \<comment> \<open>node, key, value, whether it is HTML\<close>
  ag_set_edge :: "string \<Rightarrow> string \<Rightarrow> string \<Rightarrow> bool \<Rightarrow> 'g \<Rightarrow> 'g"
  ag_set_subg :: "string \<Rightarrow> string \<Rightarrow> string \<Rightarrow> bool \<Rightarrow> 'g \<Rightarrow> 'g"
  ag_get_node :: "string \<Rightarrow> string \<Rightarrow> 'g \<Rightarrow> string option"
  ag_get_edge :: "string \<Rightarrow> string \<Rightarrow> 'g \<Rightarrow> string option"
  ag_out :: "string \<Rightarrow> 'g \<Rightarrow> string list"                     \<comment> \<open>heads of the outgoing edges\<close>
  ag_in :: "string \<Rightarrow> 'g \<Rightarrow> string list"
  ag_nnodes :: "'g \<Rightarrow> nat"
  ag_empty :: 'g

definition cgraph_laws :: "'g cgraph \<Rightarrow> bool" where
  "cgraph_laws C \<longleftrightarrow>
     (\<forall>i. \<not> ag_has_node C (ag_empty C) i) \<and>
     (\<forall>sub i g j. ag_has_node C (ag_node C sub i g) j \<longleftrightarrow> j = i \<or> ag_has_node C g j) \<and>
     (\<forall>sub i g a b. ag_has_edge C (ag_node C sub i g) a b \<longleftrightarrow> ag_has_edge C g a b) \<and>
     (\<forall>f t e g j. ag_has_node C (ag_edge C f t e g) j \<longleftrightarrow> ag_has_node C g j) \<and>
     (\<forall>f t e g a b. ag_has_edge C (ag_edge C f t e g) a b \<longleftrightarrow> a = f \<and> b = t \<or> ag_has_edge C g a b) \<and>
     (\<forall>s g j. ag_has_node C (ag_subg C s g) j \<longleftrightarrow> ag_has_node C g j) \<and>
     (\<forall>s g a b. ag_has_edge C (ag_subg C s g) a b \<longleftrightarrow> ag_has_edge C g a b) \<and>
     (\<forall>i g j. ag_has_node C (ag_delnode C i g) j \<longleftrightarrow> j \<noteq> i \<and> ag_has_node C g j) \<and>
     (\<forall>i g a b. ag_has_edge C (ag_delnode C i g) a b \<longleftrightarrow> a \<noteq> i \<and> b \<noteq> i \<and> ag_has_edge C g a b) \<and>
     (\<forall>k v g j. ag_has_node C (ag_set_graph C k v g) j \<longleftrightarrow> ag_has_node C g j) \<and>
     (\<forall>k v g a b. ag_has_edge C (ag_set_graph C k v g) a b \<longleftrightarrow> ag_has_edge C g a b) \<and>
     (\<forall>i k v h g j. ag_has_node C (ag_set_node C i k v h g) j \<longleftrightarrow> ag_has_node C g j) \<and>
     (\<forall>i k v h g a b. ag_has_edge C (ag_set_node C i k v h g) a b \<longleftrightarrow> ag_has_edge C g a b) \<and>
     (\<forall>e k v h g j. ag_has_node C (ag_set_edge C e k v h g) j \<longleftrightarrow> ag_has_node C g j) \<and>
     (\<forall>e k v h g a b. ag_has_edge C (ag_set_edge C e k v h g) a b \<longleftrightarrow> ag_has_edge C g a b) \<and>
     (\<forall>s k v h g j. ag_has_node C (ag_set_subg C s k v h g) j \<longleftrightarrow> ag_has_node C g j) \<and>
     (\<forall>s k v h g a b. ag_has_edge C (ag_set_subg C s k v h g) a b \<longleftrightarrow> ag_has_edge C g a b)"

section \<open>Identifiers\<close>

text \<open>The loop over the leading letters \<open>z\<close>, and the increment behind them.\<close>

fun next_id :: "string \<Rightarrow> string" where
  "next_id [] = ''a''"
| "next_id (c # cs) = (if c = CHR ''z'' then CHR ''a'' # next_id cs else char_of ((of_char c :: nat) + 1) # cs)"

partial_function (option) generateId :: "string list \<Rightarrow> string \<Rightarrow> string option" where
  "generateId ids currentId =
     (let currentId = next_id currentId in if currentId \<in> set ids then generateId ids currentId else Some currentId)"

lemma generateId_step:
  "next_id i \<in> set ids \<Longrightarrow> generateId ids i = generateId ids (next_id i)"
  "next_id i \<notin> set ids \<Longrightarrow> generateId ids i = Some (next_id i)"
  by (rule trans [OF generateId.simps], simp add: Let_def)+

text \<open>Identifiers are numbers in bijective base 26, with the least digit first.\<close>

definition letter :: "char \<Rightarrow> nat" where
  "letter c = of_char c - 96"

definition lower_case :: "string \<Rightarrow> bool" where
  "lower_case s \<longleftrightarrow> list_all (\<lambda>c. 97 \<le> (of_char c :: nat) \<and> (of_char c :: nat) \<le> 122) s"

fun id_value :: "string \<Rightarrow> nat" where
  "id_value [] = 0"
| "id_value (c # cs) = letter c + 26 * id_value cs"

lemma next_id_value: "lower_case s \<Longrightarrow> lower_case (next_id s) \<and> id_value (next_id s) = id_value s + 1"
proof (induction s)
  case Nil
  show ?case by (simp add: lower_case_def letter_def)
next
  case (Cons c s)
  then have c: "97 \<le> (of_char c :: nat)" "(of_char c :: nat) \<le> 122" and s: "lower_case s" by (simp_all add: lower_case_def)
  show ?case
  proof (cases "c = CHR ''z''")
    case True
    then show ?thesis using Cons.IH [OF s] by (simp add: lower_case_def letter_def)
  next
    case False
    have z: "(of_char (CHR ''z'') :: nat) = 122" by simp
    have "(of_char c :: nat) \<noteq> 122" using False unfolding z [symmetric] of_char_eq_iff .
    with c s show ?thesis using False by (simp add: lower_case_def letter_def)
  qed
qed

text \<open>
  A generated identifier is new, and different from all that were generated before, because identifiers
  count upwards; the search for one ends whatever identifiers are in use.
\<close>

theorem generated_id_fresh:
  assumes "lower_case currentId"
  shows "\<exists>i. generateId ids currentId = Some i \<and> i \<notin> set ids \<and> lower_case i \<and> id_value currentId < id_value i"
  using assms
proof (induction "card {j \<in> set ids. id_value currentId < id_value j}" arbitrary: currentId rule: less_induct)
  case less
  let ?n = "next_id currentId"
  have n: "lower_case ?n" "id_value ?n = id_value currentId + 1" using next_id_value [OF less.prems] by auto
  show ?case
  proof (cases "?n \<in> set ids")
    case True
    then have next_in: "?n \<in> {j \<in> set ids. id_value currentId < id_value j}" using n by simp
    have sub: "{j \<in> set ids. id_value ?n < id_value j} \<subseteq> {j \<in> set ids. id_value currentId < id_value j}"
      by (rule subsetI) (simp add: n(2))
    have "?n \<notin> {j \<in> set ids. id_value ?n < id_value j}" by simp
    with next_in sub have "{j \<in> set ids. id_value ?n < id_value j} \<subset> {j \<in> set ids. id_value currentId < id_value j}"
      by blast
    then have "card {j \<in> set ids. id_value ?n < id_value j} < card {j \<in> set ids. id_value currentId < id_value j}"
      by (intro psubset_card_mono) simp_all
    from less.hyps [OF this n(1)] obtain i where "generateId ids ?n = Some i" "i \<notin> set ids" "lower_case i" "id_value ?n < id_value i"
      by blast
    then show ?thesis using n(2) generateId_step(1) [OF True] by auto
  next
    case False
    then show ?thesis using n generateId_step(2) [OF False] by auto
  qed
qed

theorem generated_id_fresh_witness:
  "(\<exists>i. generateId [''bz'', ''aa''] ''zy'' = Some i \<and> i \<notin> set [''bz'', ''aa''] \<and> lower_case i \<and> id_value ''zy'' < id_value i) \<and>
   generateId [''aa'', ''5''] ''z'' = Some ''ba''"
proof
  show "\<exists>i. generateId [''bz'', ''aa''] ''zy'' = Some i \<and> i \<notin> set [''bz'', ''aa''] \<and> lower_case i \<and> id_value ''zy'' < id_value i"
    by (rule generated_id_fresh) code_simp
  show "generateId [''aa'', ''5''] ''z'' = Some ''ba''"
  proof -
    have n: "next_id ''z'' = ''aa''" "next_id ''aa'' = ''ba''" by code_simp+
    show ?thesis using generateId_step(1) [of "''z''" "[''aa'', ''5'']"] generateId_step(2) [of "''aa''" "[''aa'', ''5'']"] unfolding n by simp
  qed
qed

section \<open>The class\<close>

record 'g ugraph =
  ug_ids :: "string list"
  ug_currentId :: string
  ug_edgeMap :: "string list"      \<comment> \<open>the keys\<close>
  ug_subgMap :: "string list"
  ug_graph :: 'g

definition new_graph :: "'g cgraph \<Rightarrow> 'g ugraph" where
  "new_graph C =
     \<lparr>ug_ids = [], ug_currentId = [], ug_edgeMap = [], ug_subgMap = [],
      ug_graph = ag_set_graph C ''fontsize'' ''11'' (ag_empty C)\<rparr>"

definition setAttribute :: "'g cgraph \<Rightarrow> string \<Rightarrow> string \<Rightarrow> 'g ugraph \<Rightarrow> 'g ugraph" where
  "setAttribute C key val G = G\<lparr>ug_graph := ag_set_graph C key val (ug_graph G)\<rparr>"

definition setNodeAttribute :: "'g cgraph \<Rightarrow> string \<Rightarrow> string \<Rightarrow> string \<Rightarrow> bool \<Rightarrow> 'g ugraph \<Rightarrow> 'g ugraph option" where
  "setNodeAttribute C node key val html G =
     (if ag_has_node C (ug_graph G) node then Some (G\<lparr>ug_graph := ag_set_node C node key val html (ug_graph G)\<rparr>) else None)"

definition setEdgeAttribute :: "'g cgraph \<Rightarrow> string \<Rightarrow> string \<Rightarrow> string \<Rightarrow> bool \<Rightarrow> 'g ugraph \<Rightarrow> 'g ugraph option" where
  "setEdgeAttribute C edge key val html G =
     (if edge \<in> set (ug_edgeMap G) then Some (G\<lparr>ug_graph := ag_set_edge C edge key val html (ug_graph G)\<rparr>) else None)"

definition setSubgraphAttribute :: "'g cgraph \<Rightarrow> string \<Rightarrow> string \<Rightarrow> string \<Rightarrow> bool \<Rightarrow> 'g ugraph \<Rightarrow> 'g ugraph option" where
  "setSubgraphAttribute C sub key val html G =
     (if sub \<in> set (ug_subgMap G) then Some (G\<lparr>ug_graph := ag_set_subg C sub key val html (ug_graph G)\<rparr>) else None)"

definition fresh_id :: "'g ugraph \<Rightarrow> (string \<times> 'g ugraph) option" where
  "fresh_id G = (case generateId (ug_ids G) (ug_currentId G) of None \<Rightarrow> None | Some i \<Rightarrow> Some (i, G\<lparr>ug_currentId := i\<rparr>))"

text \<open>The attributes are set on the node that was asked for, also when its identifier was generated.\<close>

definition getOrCreateNode :: "'g cgraph \<Rightarrow> string \<Rightarrow> string \<Rightarrow> 'g ugraph \<Rightarrow> (string \<times> 'g ugraph) option" where
  "getOrCreateNode C node sub G =
     Option.bind (if node = [] then fresh_id G else Some (node, G)) (\<lambda>(i, G).
     let G = G\<lparr>ug_ids := List.insert i (ug_ids G)\<rparr> in
     if sub \<noteq> [] \<and> sub \<notin> set (ug_subgMap G) then None
     else
       Option.bind (setNodeAttribute C node ''fontsize'' ''11'' False
         (G\<lparr>ug_graph := ag_node C (if sub = [] then None else Some sub) i (ug_graph G)\<rparr>)) (\<lambda>G.
       Option.bind (setNodeAttribute C node ''id'' i False G) (\<lambda>G. Some (i, G))))"

definition createGraphNode :: "'g cgraph \<Rightarrow> string \<Rightarrow> 'g ugraph \<Rightarrow> (string \<times> 'g ugraph) option" where
  "createGraphNode C sub G = Option.bind (fresh_id G) (\<lambda>(i, G). getOrCreateNode C i sub G)"

definition createEdge :: "'g cgraph \<Rightarrow> string \<Rightarrow> string \<Rightarrow> 'g ugraph \<Rightarrow> (string \<times> 'g ugraph) option" where
  "createEdge C from_node to_node G =
     Option.bind (fresh_id G) (\<lambda>(i, G).
     if \<not> ag_has_node C (ug_graph G) from_node \<or> \<not> ag_has_node C (ug_graph G) to_node then None
     else
       Option.bind (setEdgeAttribute C i ''fontsize'' ''11'' False
         (G\<lparr>ug_graph := ag_edge C from_node to_node i (ug_graph G), ug_edgeMap := List.insert i (ug_edgeMap G)\<rparr>)) (\<lambda>G.
       Option.bind (setEdgeAttribute C i ''id'' i False G) (\<lambda>G. Some (i, G))))"

definition getOrCreateSubgraph :: "'g cgraph \<Rightarrow> string \<Rightarrow> 'g ugraph \<Rightarrow> (string \<times> 'g ugraph) option" where
  "getOrCreateSubgraph C sub G =
     Option.bind (if sub = [] then fresh_id G else Some (sub, G)) (\<lambda>(i, G).
     Some (i, G\<lparr>ug_ids := List.insert i (ug_ids G), ug_subgMap := List.insert i (ug_subgMap G),
       ug_graph := ag_subg C i (ug_graph G)\<rparr>))"

definition hasNode :: "'g cgraph \<Rightarrow> string \<Rightarrow> 'g ugraph \<Rightarrow> bool" where
  "hasNode C node G = ag_has_node C (ug_graph G) node"

definition hasEdge :: "'g cgraph \<Rightarrow> string \<Rightarrow> string \<Rightarrow> 'g ugraph \<Rightarrow> bool option" where
  "hasEdge C from_node to_node G =
     (if \<not> ag_has_node C (ug_graph G) from_node \<or> \<not> ag_has_node C (ug_graph G) to_node then None
      else Some (ag_has_edge C (ug_graph G) from_node to_node))"

definition delNode :: "'g cgraph \<Rightarrow> string \<Rightarrow> 'g ugraph \<Rightarrow> 'g ugraph option" where
  "delNode C node G =
     (if ag_has_node C (ug_graph G) node
      then Some (G\<lparr>ug_graph := ag_delnode C node (ug_graph G), ug_ids := removeAll node (ug_ids G)\<rparr>) else None)"

definition getEdgeAttribute :: "'g cgraph \<Rightarrow> string \<Rightarrow> string \<Rightarrow> 'g ugraph \<Rightarrow> string option" where
  "getEdgeAttribute C edge key G =
     (if edge \<in> set (ug_edgeMap G) then Some (case ag_get_edge C edge key (ug_graph G) of None \<Rightarrow> [] | Some v \<Rightarrow> v) else None)"

definition getChildren :: "'g cgraph \<Rightarrow> string \<Rightarrow> 'g ugraph \<Rightarrow> string list" where
  "getChildren C node G = (if ag_has_node C (ug_graph G) node then ag_out C node (ug_graph G) else [])"

definition getParents :: "'g cgraph \<Rightarrow> string \<Rightarrow> 'g ugraph \<Rightarrow> string list" where
  "getParents C node G = (if ag_has_node C (ug_graph G) node then ag_in C node (ug_graph G) else [])"

type_synonym decoration = "(string \<times> string) list"

fun decorateNode :: "'g cgraph \<Rightarrow> string \<Rightarrow> decoration \<Rightarrow> bool \<Rightarrow> 'g ugraph \<Rightarrow> 'g ugraph option" where
  "decorateNode C node [] html G = Some G"
| "decorateNode C node ((key, val) # attrs) html G =
     Option.bind (setNodeAttribute C node key val html G) (decorateNode C node attrs html)"

fun decorateEdge :: "'g cgraph \<Rightarrow> string \<Rightarrow> decoration \<Rightarrow> bool \<Rightarrow> 'g ugraph \<Rightarrow> 'g ugraph option" where
  "decorateEdge C edge [] html G = Some G"
| "decorateEdge C edge ((key, val) # attrs) html G =
     Option.bind (setEdgeAttribute C edge key val html G) (decorateEdge C edge attrs html)"

section \<open>Building a graph by breadth-first search\<close>

text \<open>
  The children of a node: one that was not visited is queued and decorated, and every one gets an edge. A null
  pointer is the error \<open>null\<close>.
\<close>

fun bfs_children ::
    "'e \<Rightarrow> 'g cgraph \<Rightarrow> decoration \<Rightarrow> decoration \<Rightarrow> string \<Rightarrow> string list \<Rightarrow> string list \<times> string list \<times> 'g ugraph \<Rightarrow>
       'e + string list \<times> string list \<times> 'g ugraph" where
  "bfs_children null C nodeDecoration edgeDecoration current [] S = Inr S"
| "bfs_children null C nodeDecoration edgeDecoration current (to_node # tos) (q, visited, G) =
     (let new = to_node \<notin> set visited in
      case Option.bind (if new then decorateNode C to_node nodeDecoration False G else Some G) (\<lambda>G.
          Option.bind (createEdge C current to_node G) (\<lambda>(edge, G). decorateEdge C edge edgeDecoration False G)) of
        None \<Rightarrow> Inl null
      | Some G \<Rightarrow> bfs_children null C nodeDecoration edgeDecoration current tos
          (if new then q @ [to_node] else q, if new then visited @ [to_node] else visited, G))"

text \<open>The counter is incremented for every node that is taken from the queue.\<close>

partial_function (option) bfs_loop ::
    "'e \<Rightarrow> 'g cgraph \<Rightarrow> (string \<Rightarrow> 'g ugraph \<Rightarrow> 'e + string list \<times> 'g ugraph) \<Rightarrow> decoration \<Rightarrow> decoration \<Rightarrow> int \<Rightarrow> int \<Rightarrow>
       string list \<Rightarrow> string list \<Rightarrow> 'g ugraph \<Rightarrow> ('e + string list \<times> 'g ugraph) option" where
  "bfs_loop null C relations nodeDecoration edgeDecoration maxLevel level q visited G =
     (case q of
        [] \<Rightarrow> Some (Inr (visited, G))
      | current # q \<Rightarrow>
          (case relations current G of
             Inl e \<Rightarrow> Some (Inl e)
           | Inr (tos, G) \<Rightarrow>
               (case bfs_children null C nodeDecoration edgeDecoration current tos (q, visited, G) of
                  Inl e \<Rightarrow> Some (Inl e)
                | Inr (q, visited, G) \<Rightarrow>
                    if maxLevel \<noteq> -1 \<and> level + 1 = maxLevel then Some (Inr (visited, G))
                    else bfs_loop null C relations nodeDecoration edgeDecoration maxLevel (level + 1) q visited G)))"

definition bfsBuild ::
    "'e \<Rightarrow> 'g cgraph \<Rightarrow> string \<Rightarrow> (string \<Rightarrow> 'g ugraph \<Rightarrow> 'e + string list \<times> 'g ugraph) \<Rightarrow> decoration \<Rightarrow> decoration \<Rightarrow> int \<Rightarrow>
       'g ugraph \<Rightarrow> ('e + string list \<times> 'g ugraph) option" where
  "bfsBuild null C startNode relations nodeDecoration edgeDecoration maxLevel G =
     (if maxLevel < -1 then Some (Inr ([], G))
      else bfs_loop null C relations nodeDecoration edgeDecoration maxLevel 0 [startNode] [] G)"

section \<open>What the operations add\<close>

definition node_set :: "'g cgraph \<Rightarrow> 'g ugraph \<Rightarrow> string set" where
  "node_set C G = {i. ag_has_node C (ug_graph G) i}"

definition edge_set :: "'g cgraph \<Rightarrow> 'g ugraph \<Rightarrow> (string \<times> string) set" where
  "edge_set C G = {(a, b). ag_has_edge C (ug_graph G) a b}"

definition grown :: "'g cgraph \<Rightarrow> string set \<Rightarrow> (string \<times> string) set \<Rightarrow> 'g ugraph \<Rightarrow> 'g ugraph \<Rightarrow> bool" where
  "grown C N E G G' \<longleftrightarrow> node_set C G' = node_set C G \<union> N \<and> edge_set C G' = edge_set C G \<union> E \<and>
     lower_case (ug_currentId G') \<and> set (ug_subgMap G) \<subseteq> set (ug_subgMap G') \<and> set (ug_edgeMap G) \<subseteq> set (ug_edgeMap G')"

definition valid_ids :: "'g ugraph \<Rightarrow> bool" where
  "valid_ids G \<longleftrightarrow> lower_case (ug_currentId G)"

lemma grown_refl: "valid_ids G \<Longrightarrow> grown C {} {} G G"
  by (simp add: grown_def valid_ids_def)

lemma grown_valid: "grown C N E G G' \<Longrightarrow> valid_ids G'"
  by (simp add: grown_def valid_ids_def)

lemma grown_nodes: "grown C N E G G' \<Longrightarrow> node_set C G' = node_set C G \<union> N"
  by (simp add: grown_def)

lemma grown_edges: "grown C N E G G' \<Longrightarrow> edge_set C G' = edge_set C G \<union> E"
  by (simp add: grown_def)

lemma grown_trans: "grown C N E G G' \<Longrightarrow> grown C N' E' G' G'' \<Longrightarrow> grown C (N \<union> N') (E \<union> E') G G''"
  by (auto simp: grown_def)

lemma grown_trans': "grown C N E G G' \<Longrightarrow> grown C N' E' G' G'' \<Longrightarrow> N \<union> N' = N'' \<Longrightarrow> E \<union> E' = E'' \<Longrightarrow> grown C N'' E'' G G''"
  using grown_trans by metis

lemma cgraph_simps:
  assumes "cgraph_laws C"
  shows "ag_has_node C (ag_node C sub i g) j \<longleftrightarrow> j = i \<or> ag_has_node C g j"
    "ag_has_edge C (ag_node C sub i g) a b \<longleftrightarrow> ag_has_edge C g a b"
    "ag_has_node C (ag_edge C f t e g) j \<longleftrightarrow> ag_has_node C g j"
    "ag_has_edge C (ag_edge C f t e g) a b \<longleftrightarrow> a = f \<and> b = t \<or> ag_has_edge C g a b"
    "ag_has_node C (ag_subg C s g) j \<longleftrightarrow> ag_has_node C g j"
    "ag_has_edge C (ag_subg C s g) a b \<longleftrightarrow> ag_has_edge C g a b"
    "ag_has_node C (ag_delnode C i g) j \<longleftrightarrow> j \<noteq> i \<and> ag_has_node C g j"
    "ag_has_edge C (ag_delnode C i g) a b \<longleftrightarrow> a \<noteq> i \<and> b \<noteq> i \<and> ag_has_edge C g a b"
    "ag_has_node C (ag_set_graph C k v g) j \<longleftrightarrow> ag_has_node C g j"
    "ag_has_edge C (ag_set_graph C k v g) a b \<longleftrightarrow> ag_has_edge C g a b"
    "ag_has_node C (ag_set_node C i k v h g) j \<longleftrightarrow> ag_has_node C g j"
    "ag_has_edge C (ag_set_node C i k v h g) a b \<longleftrightarrow> ag_has_edge C g a b"
    "ag_has_node C (ag_set_edge C e k v h g) j \<longleftrightarrow> ag_has_node C g j"
    "ag_has_edge C (ag_set_edge C e k v h g) a b \<longleftrightarrow> ag_has_edge C g a b"
    "ag_has_node C (ag_set_subg C s k v h g) j \<longleftrightarrow> ag_has_node C g j"
    "ag_has_edge C (ag_set_subg C s k v h g) a b \<longleftrightarrow> ag_has_edge C g a b"
  using assms by (simp_all add: cgraph_laws_def)

lemmas grown_simps = grown_def node_set_def edge_set_def valid_ids_def set_eq_iff

lemma setAttribute_grown: "cgraph_laws C \<Longrightarrow> valid_ids G \<Longrightarrow> grown C {} {} G (setAttribute C k v G)"
  by (simp add: setAttribute_def grown_simps cgraph_simps)

lemma setNodeAttribute_grown:
  "cgraph_laws C \<Longrightarrow> valid_ids G \<Longrightarrow> i \<in> node_set C G \<Longrightarrow> \<exists>G'. setNodeAttribute C i k v h G = Some G' \<and> grown C {} {} G G'"
  by (simp add: setNodeAttribute_def grown_simps cgraph_simps)

lemma setEdgeAttribute_grown:
  "cgraph_laws C \<Longrightarrow> valid_ids G \<Longrightarrow> e \<in> set (ug_edgeMap G) \<Longrightarrow> \<exists>G'. setEdgeAttribute C e k v h G = Some G' \<and> grown C {} {} G G'"
  by (simp add: setEdgeAttribute_def grown_simps cgraph_simps)

lemma setSubgraphAttribute_grown:
  "cgraph_laws C \<Longrightarrow> valid_ids G \<Longrightarrow> s \<in> set (ug_subgMap G) \<Longrightarrow> \<exists>G'. setSubgraphAttribute C s k v h G = Some G' \<and> grown C {} {} G G'"
  by (simp add: setSubgraphAttribute_def grown_simps cgraph_simps)

lemma decorateNode_grown:
  assumes "cgraph_laws C" "valid_ids G" "i \<in> node_set C G"
  shows "\<exists>G'. decorateNode C i attrs h G = Some G' \<and> grown C {} {} G G'"
  using assms(2,3)
proof (induction attrs arbitrary: G)
  case (Cons a attrs)
  obtain k v where a: "a = (k, v)" by (cases a)
  obtain G1 where G1: "setNodeAttribute C i k v h G = Some G1" "grown C {} {} G G1"
    using setNodeAttribute_grown [OF assms(1) Cons.prems] by blast
  have "i \<in> node_set C G1" using grown_nodes [OF G1(2)] Cons.prems(2) by simp
  from Cons.IH [OF grown_valid [OF G1(2)] this] obtain G2 where "decorateNode C i attrs h G1 = Some G2" "grown C {} {} G1 G2" by blast
  then show ?case using G1(1) grown_trans [OF G1(2)] by (auto simp: a)
qed (simp add: grown_refl)

lemma decorateEdge_grown:
  assumes "cgraph_laws C" "valid_ids G" "e \<in> set (ug_edgeMap G)"
  shows "\<exists>G'. decorateEdge C e attrs h G = Some G' \<and> grown C {} {} G G'"
  using assms(2,3)
proof (induction attrs arbitrary: G)
  case (Cons a attrs)
  obtain k v where a: "a = (k, v)" by (cases a)
  obtain G1 where G1: "setEdgeAttribute C e k v h G = Some G1" "grown C {} {} G G1"
    using setEdgeAttribute_grown [OF assms(1) Cons.prems] by blast
  have "e \<in> set (ug_edgeMap G1)" using G1(2) Cons.prems(2) by (auto simp: grown_def)
  from Cons.IH [OF grown_valid [OF G1(2)] this] obtain G2 where "decorateEdge C e attrs h G1 = Some G2" "grown C {} {} G1 G2" by blast
  then show ?case using G1(1) grown_trans [OF G1(2)] by (auto simp: a)
qed (simp add: grown_refl)

lemma fresh_id_grown: "valid_ids G \<Longrightarrow> \<exists>i G'. fresh_id G = Some (i, G') \<and> grown C {} {} G G' \<and> i \<noteq> []"
  using generated_id_fresh [of "ug_currentId G" "ug_ids G"] by (auto simp: fresh_id_def grown_simps)

lemma getOrCreateNode_grown:
  assumes "cgraph_laws C" "valid_ids G" "i \<noteq> []" "sub = [] \<or> sub \<in> set (ug_subgMap G)"
  shows "\<exists>G'. getOrCreateNode C i sub G = Some (i, G') \<and> grown C {i} {} G G'"
proof -
  let ?G1 = "(G\<lparr>ug_ids := List.insert i (ug_ids G)\<rparr>)\<lparr>ug_graph := ag_node C (if sub = [] then None else Some sub) i (ug_graph G)\<rparr>"
  have G1: "grown C {i} {} G ?G1" "i \<in> node_set C ?G1"
    using assms(1,2) by (auto simp: grown_simps cgraph_simps)
  obtain G2 where G2: "setNodeAttribute C i ''fontsize'' ''11'' False ?G1 = Some G2" "grown C {} {} ?G1 G2"
    using setNodeAttribute_grown [OF assms(1) grown_valid [OF G1(1)] G1(2)] by blast
  have "i \<in> node_set C G2" using grown_nodes [OF G2(2)] G1(2) by simp
  then obtain G3 where G3: "setNodeAttribute C i ''id'' i False G2 = Some G3" "grown C {} {} G2 G3"
    using setNodeAttribute_grown [OF assms(1) grown_valid [OF G2(2)]] by blast
  have sub: "\<not> (sub \<noteq> [] \<and> sub \<notin> set (ug_subgMap G))" using assms(4) by blast
  have "getOrCreateNode C i sub G = Some (i, G3)"
    using G2(1) G3(1) assms(3) sub by (simp add: getOrCreateNode_def Let_def)
  then show ?thesis using grown_trans [OF grown_trans [OF G1(1) G2(2)] G3(2)] by auto
qed

lemma createEdge_grown:
  assumes "cgraph_laws C" "valid_ids G" "a \<in> node_set C G" "b \<in> node_set C G"
  shows "\<exists>e G'. createEdge C a b G = Some (e, G') \<and> grown C {} {(a, b)} G G' \<and> e \<in> set (ug_edgeMap G')"
proof -
  obtain e G1 where G1: "fresh_id G = Some (e, G1)" "grown C {} {} G G1" using fresh_id_grown [OF assms(2)] by blast
  have nodes: "ag_has_node C (ug_graph G1) a" "ag_has_node C (ug_graph G1) b"
    using grown_nodes [OF G1(2)] assms(3,4) by (auto simp: node_set_def)
  let ?G2 = "G1\<lparr>ug_graph := ag_edge C a b e (ug_graph G1), ug_edgeMap := List.insert e (ug_edgeMap G1)\<rparr>"
  have G2: "grown C {} {(a, b)} G1 ?G2" "e \<in> set (ug_edgeMap ?G2)"
    using grown_valid [OF G1(2)] assms(1) by (auto simp: grown_simps cgraph_simps)
  obtain G3 where G3: "setEdgeAttribute C e ''fontsize'' ''11'' False ?G2 = Some G3" "grown C {} {} ?G2 G3"
    using setEdgeAttribute_grown [OF assms(1) grown_valid [OF G2(1)] G2(2)] by blast
  have e3: "e \<in> set (ug_edgeMap G3)" using G3(2) G2(2) by (auto simp: grown_def)
  then obtain G4 where G4: "setEdgeAttribute C e ''id'' e False G3 = Some G4" "grown C {} {} G3 G4"
    using setEdgeAttribute_grown [OF assms(1) grown_valid [OF G3(2)]] by blast
  have "createEdge C a b G = Some (e, G4)" using G1(1) G3(1) G4(1) nodes by (simp add: createEdge_def)
  moreover have "e \<in> set (ug_edgeMap G4)" using G4(2) e3 by (auto simp: grown_def)
  moreover have "grown C {} {(a, b)} G G4"
    using grown_trans [OF grown_trans [OF grown_trans [OF G1(2) G2(1)] G3(2)] G4(2)] by simp
  ultimately show ?thesis by blast
qed

section \<open>What the search builds\<close>

lemma bfs_children_grown:
  assumes C: "cgraph_laws C" and "valid_ids G" "current \<in> node_set C G" "set tos \<subseteq> node_set C G"
  shows "\<exists>G'. bfs_children null C nd ed current tos (q, visited, G) =
      Inr (fst (push_unseen tos (q, visited)), snd (push_unseen tos (q, visited)), G') \<and> grown C {} ({current} \<times> set tos) G G'"
  using assms(2-4)
proof (induction tos arbitrary: q visited G)
  case Nil
  then show ?case by (simp add: push_unseen_def grown_refl)
next
  case (Cons t tos)
  define new where "new = (t \<notin> set visited)"
  obtain G1 where G1: "(if new then decorateNode C t nd False G else Some G) = Some G1" "grown C {} {} G G1"
  proof (cases new)
    case True
    then show ?thesis using that decorateNode_grown [OF C Cons.prems(1), of t nd False] Cons.prems(3) by auto
  next
    case False
    then show ?thesis using that grown_refl [OF Cons.prems(1)] by auto
  qed
  have n1: "node_set C G1 = node_set C G" using grown_nodes [OF G1(2)] by simp
  obtain e G2 where G2: "createEdge C current t G1 = Some (e, G2)" "grown C {} {(current, t)} G1 G2" "e \<in> set (ug_edgeMap G2)"
    using createEdge_grown [OF C grown_valid [OF G1(2)], of current t] Cons.prems n1 by auto
  obtain G3 where G3: "decorateEdge C e ed False G2 = Some G3" "grown C {} {} G2 G3"
    using decorateEdge_grown [OF C grown_valid [OF G2(2)] G2(3)] by blast
  have n3: "node_set C G3 = node_set C G" using grown_nodes [OF G2(2)] grown_nodes [OF G3(2)] n1 by simp
  let ?q = "if new then q @ [t] else q" and ?v = "if new then visited @ [t] else visited"
  obtain G4 where G4: "bfs_children null C nd ed current tos (?q, ?v, G3) =
      Inr (fst (push_unseen tos (?q, ?v)), snd (push_unseen tos (?q, ?v)), G4)" "grown C {} ({current} \<times> set tos) G3 G4"
    using Cons.IH [OF grown_valid [OF G3(2)], of ?q ?v] Cons.prems n3 by auto
  have push: "push_unseen (t # tos) (q, visited) = push_unseen tos (?q, ?v)" by (simp add: push_unseen_def new_def)
  have "bfs_children null C nd ed current (t # tos) (q, visited, G) = bfs_children null C nd ed current tos (?q, ?v, G3)"
    using G1(1) G2(1) G3(1) by (simp add: Let_def new_def)
  moreover have "grown C {} ({current} \<times> set (t # tos)) G G4"
    by (rule grown_trans' [OF grown_trans [OF grown_trans [OF G1(2) G2(2)] G3(2)] G4(2)]) auto
  ultimately show ?case using G4(1) unfolding push by (intro exI [of _ G4]) simp
qed

text \<open>
  On the nodes of \<open>D\<close>, a relation adds the nodes it returns to the graph, no edges, and always returns the same
  ones, which are in \<open>D\<close> as well.
\<close>

definition relation_adds ::
    "'g cgraph \<Rightarrow> string set \<Rightarrow> (string \<Rightarrow> string list) \<Rightarrow> (string \<Rightarrow> 'g ugraph \<Rightarrow> 'e + string list \<times> 'g ugraph) \<Rightarrow> bool" where
  "relation_adds C D succs relations \<longleftrightarrow> (\<forall>current \<in> D. set (succs current) \<subseteq> D \<and>
     (\<forall>G. valid_ids G \<longrightarrow> current \<in> node_set C G \<longrightarrow>
       (\<exists>G'. relations current G = Inr (succs current, G') \<and> grown C (set (succs current)) {} G G')))"

lemma relation_adds_closed: "relation_adds C D succs relations \<Longrightarrow> i \<in> D \<Longrightarrow> set (succs i) \<subseteq> D"
  unfolding relation_adds_def by blast

lemma bfs_loop_unfold:
  "bfs_loop null C relations nd ed maxLevel level [] visited G = Some (Inr (visited, G))"
  "bfs_loop null C relations nd ed maxLevel level (current # q) visited G =
     (case relations current G of
        Inl e \<Rightarrow> Some (Inl e)
      | Inr (tos, G) \<Rightarrow>
          (case bfs_children null C nd ed current tos (q, visited, G) of
             Inl e \<Rightarrow> Some (Inl e)
           | Inr (q, visited, G) \<Rightarrow>
               if maxLevel \<noteq> -1 \<and> level + 1 = maxLevel then Some (Inr (visited, G))
               else bfs_loop null C relations nd ed maxLevel (level + 1) q visited G))"
  by (subst bfs_loop.simps, simp)+

lemma bfs_step:
  assumes C: "cgraph_laws C" and rel: "relation_adds C D succs relations" and G: "valid_ids G" "current \<in> node_set C G" "current \<in> D"
  shows "\<exists>G'. grown C (set (succs current)) ({current} \<times> set (succs current)) G G' \<and>
    bfs_loop null C relations nd ed maxLevel level (current # q) visited G =
      (if maxLevel \<noteq> -1 \<and> level + 1 = maxLevel then Some (Inr (snd (push_unseen (succs current) (q, visited)), G'))
       else bfs_loop null C relations nd ed maxLevel (level + 1)
         (fst (push_unseen (succs current) (q, visited))) (snd (push_unseen (succs current) (q, visited))) G')"
proof -
  obtain G1 where G1: "relations current G = Inr (succs current, G1)" "grown C (set (succs current)) {} G G1"
    using rel G unfolding relation_adds_def by blast
  have "current \<in> node_set C G1" "set (succs current) \<subseteq> node_set C G1" using grown_nodes [OF G1(2)] G(2) by auto
  from bfs_children_grown [OF C grown_valid [OF G1(2)] this, of null nd ed q visited] obtain G2 where
    G2: "bfs_children null C nd ed current (succs current) (q, visited, G1) =
      Inr (fst (push_unseen (succs current) (q, visited)), snd (push_unseen (succs current) (q, visited)), G2)"
      "grown C {} ({current} \<times> set (succs current)) G1 G2" by blast
  then show ?thesis using G1(1) grown_trans [OF G1(2) G2(2)] by (auto simp: bfs_loop_unfold)
qed

definition edges_from :: "(string \<Rightarrow> string list) \<Rightarrow> string set \<Rightarrow> (string \<times> string) set" where
  "edges_from succs X = {(a, b). a \<in> X \<and> b \<in> set (succs a)}"

lemma bfs_loop_unbounded:
  assumes C: "cgraph_laws C" and rel: "relation_adds C D succs relations"
    and w: "worklist succs q visited = Some r"
  shows "\<forall>level G. valid_ids G \<longrightarrow> set q \<subseteq> node_set C G \<longrightarrow> set q \<subseteq> D \<longrightarrow>
    (\<exists>G'. bfs_loop null C relations nd ed (-1) level q visited G = Some (Inr (r, G')) \<and>
      grown C (\<Union>a \<in> set q \<union> (set r - set visited). set (succs a)) (edges_from succs (set q \<union> (set r - set visited))) G G')"
  using w
proof (induction rule: worklist_induct)
  case (1 visited)
  then show ?case by (simp add: bfs_loop_unfold grown_refl edges_from_def)
next
  case (2 x q visited q1 v1 r)
  obtain new where new: "q1 = q @ new" "v1 = visited @ new" "set new = set (succs x) - set visited"
    using 2(1) by (rule push_unseen_append)
  have seen: "set v1 \<subseteq> set r" by (rule worklist_seen [OF 2(2)])
  show ?case
  proof (intro allI impI)
    fix level G
    assume G: "valid_ids G" "set (x # q) \<subseteq> node_set C G" and D: "set (x # q) \<subseteq> D"
    obtain G1 where G1: "grown C (set (succs x)) ({x} \<times> set (succs x)) G G1"
      "bfs_loop null C relations nd ed (-1) level (x # q) visited G = bfs_loop null C relations nd ed (-1) (level + 1) q1 v1 G1"
      using bfs_step [OF C rel G(1), of x null nd ed "-1" level q visited] G(2) D 2(1) by auto
    have "set q1 \<subseteq> node_set C G1" using grown_nodes [OF G1(1)] G(2) new by auto
    moreover have "set q1 \<subseteq> D" using relation_adds_closed [OF rel, of x] D new by auto
    ultimately obtain G2 where G2: "bfs_loop null C relations nd ed (-1) (level + 1) q1 v1 G1 = Some (Inr (r, G2))"
      "grown C (\<Union>a \<in> set q1 \<union> (set r - set v1). set (succs a)) (edges_from succs (set q1 \<union> (set r - set v1))) G1 G2"
      using 2(3) grown_valid [OF G1(1)] by blast
    have X: "set (x # q) \<union> (set r - set visited) = insert x (set q1 \<union> (set r - set v1))" using new seen by auto
    have "grown C (\<Union>a \<in> set (x # q) \<union> (set r - set visited). set (succs a))
        (edges_from succs (set (x # q) \<union> (set r - set visited))) G G2"
      unfolding X by (rule grown_trans' [OF G1(1) G2(2)]) (auto simp: edges_from_def)
    then show "\<exists>G'. bfs_loop null C relations nd ed (-1) level (x # q) visited G = Some (Inr (r, G')) \<and>
        grown C (\<Union>a \<in> set (x # q) \<union> (set r - set visited). set (succs a)) (edges_from succs (set (x # q) \<union> (set r - set visited))) G G'"
      using G1(2) G2(1) by auto
  qed
qed

lemma bfs_build_all:
  assumes laws: "cgraph_laws C" and rel: "relation_adds C D succs relations"
    and start: "valid_ids G" "startNode \<in> node_set C G" "startNode \<in> D"
    and fin: "finite ((edges_of succs)\<^sup>+ `` {startNode})"
  shows "\<exists>r G'. bfsBuild null C startNode relations nd ed (-1) G = Some (Inr (r, G')) \<and>
    distinct r \<and> set r = (edges_of succs)\<^sup>+ `` {startNode} \<and> set r \<subseteq> D \<and>
    grown C (set r) (edges_from succs (insert startNode (set r))) G G'"
proof -
  obtain r where r: "worklist succs [startNode] [] = Some r" "distinct r" "set r = (edges_of succs)\<^sup>+ `` {startNode}"
    using worklist_closure [OF fin] by blast
  obtain G' where G': "bfs_loop null C relations nd ed (-1) 0 [startNode] [] G = Some (Inr (r, G'))"
    "grown C (\<Union>a \<in> insert startNode (set r). set (succs a)) (edges_from succs (insert startNode (set r))) G G'"
    using bfs_loop_unbounded [OF laws rel r(1), of null nd ed] start by auto
  have "(\<Union>a \<in> insert startNode (set r). set (succs a)) = set r"
  proof
    show "(\<Union>a \<in> insert startNode (set r). set (succs a)) \<subseteq> set r" unfolding r(3) by (auto simp flip: edges_of_iff)
    show "set r \<subseteq> (\<Union>a \<in> insert startNode (set r). set (succs a))" unfolding r(3)
      by (auto simp flip: edges_of_iff elim: tranclE)
  qed
  moreover have "y \<in> D" if "(startNode, y) \<in> (edges_of succs)\<^sup>+" for y
    using that by (induction rule: trancl_induct) (use relation_adds_closed [OF rel] start(3) in auto)
  ultimately show ?thesis using G' r by (auto simp: bfsBuild_def)
qed

text \<open>
  C12: the search without a bound ends if only finitely many nodes can be reached, and never uses a null pointer.
  It returns exactly the nodes that are reached in one or more steps, adds exactly them, and adds an edge for
  each relation of the start node or of one of them.
\<close>

theorem bfs_build_reachable:
  assumes "cgraph_laws C" "relation_adds C D succs relations"
    and "valid_ids G" "startNode \<in> node_set C G" "startNode \<in> D"
    and "finite ((edges_of succs)\<^sup>+ `` {startNode})"
  shows "\<exists>r G'. bfsBuild null C startNode relations nodeDecoration edgeDecoration (-1) G = Some (Inr (r, G')) \<and>
    distinct r \<and> set r = (edges_of succs)\<^sup>+ `` {startNode} \<and>
    node_set C G' = node_set C G \<union> set r \<and>
    edge_set C G' = edge_set C G \<union> {(a, b). a \<in> insert startNode (set r) \<and> b \<in> set (succs a)}"
proof -
  obtain r G' where "bfsBuild null C startNode relations nodeDecoration edgeDecoration (-1) G = Some (Inr (r, G'))"
    "distinct r" "set r = (edges_of succs)\<^sup>+ `` {startNode}" "grown C (set r) (edges_from succs (insert startNode (set r))) G G'"
    using bfs_build_all [OF assms, of null nodeDecoration edgeDecoration] by blast
  then show ?thesis by (auto simp: grown_def edges_from_def)
qed

text \<open>
  With a bound \<open>n\<close> the search always ends, and only \<open>n\<close> nodes get their edges, in whatever distance they are: the
  bound does not count the levels of the search.
\<close>

lemma bfs_loop_bounded:
  assumes C: "cgraph_laws C" and rel: "relation_adds C D succs relations"
  shows "valid_ids G \<Longrightarrow> set q \<subseteq> node_set C G \<Longrightarrow> set q \<subseteq> D \<Longrightarrow> level + int (Suc n) = maxLevel \<Longrightarrow> 0 \<le> level \<Longrightarrow>
    \<exists>r G' X. bfs_loop null C relations nd ed maxLevel level q visited G = Some (Inr (r, G')) \<and> finite X \<and> card X \<le> Suc n \<and>
      X \<subseteq> set q \<union> set r \<and> set visited \<subseteq> set r \<and> grown C (\<Union>a \<in> X. set (succs a)) (edges_from succs X) G G'"
proof (induction n arbitrary: level q visited G)
  case 0
  show ?case
  proof (cases q)
    case Nil
    then show ?thesis using grown_refl [OF 0(1)] by (intro exI [of _ visited] exI [of _ G] exI [of _ "{}"]) (simp add: bfs_loop_unfold edges_from_def)
  next
    case (Cons x q')
    obtain q1 v1 where push: "push_unseen (succs x) (q', visited) = (q1, v1)" by fastforce
    then have v1: "set visited \<subseteq> set v1" by (rule push_unseen_append) simp
    obtain G1 where G1: "grown C (set (succs x)) ({x} \<times> set (succs x)) G G1"
      "bfs_loop null C relations nd ed maxLevel level q visited G = Some (Inr (v1, G1))"
      using bfs_step [OF C rel 0(1), of x null nd ed maxLevel level q' visited] 0 Cons push by auto
    have "{x} \<times> set (succs x) = edges_from succs {x}" by (auto simp: edges_from_def)
    then show ?thesis using G1 v1 Cons by (intro exI [of _ v1] exI [of _ G1] exI [of _ "{x}"]) auto
  qed
next
  case (Suc n)
  show ?case
  proof (cases q)
    case Nil
    then show ?thesis using grown_refl [OF Suc(2)] by (intro exI [of _ visited] exI [of _ G] exI [of _ "{}"]) (simp add: bfs_loop_unfold edges_from_def)
  next
    case (Cons x q')
    obtain q1 v1 where push: "push_unseen (succs x) (q', visited) = (q1, v1)" by fastforce
    then obtain new where new: "q1 = q' @ new" "v1 = visited @ new" "set new = set (succs x) - set visited" by (rule push_unseen_append)
    obtain G1 where G1: "grown C (set (succs x)) ({x} \<times> set (succs x)) G G1"
      "bfs_loop null C relations nd ed maxLevel level q visited G = bfs_loop null C relations nd ed maxLevel (level + 1) q1 v1 G1"
      using bfs_step [OF C rel Suc(2), of x null nd ed maxLevel level q' visited] Suc Cons push by auto
    have q1: "set q1 \<subseteq> node_set C G1" using grown_nodes [OF G1(1)] Suc(3) Cons new by auto
    have D: "set q1 \<subseteq> D" using relation_adds_closed [OF rel, of x] Suc.prems(3) Cons new by auto
    have "level + 1 + int (Suc n) = maxLevel" "0 \<le> level + 1" using Suc.prems by auto
    from Suc.IH [OF grown_valid [OF G1(1)] q1 D this, of v1] obtain r G2 X where
      IH: "bfs_loop null C relations nd ed maxLevel (level + 1) q1 v1 G1 = Some (Inr (r, G2))" "finite X" "card X \<le> Suc n"
        "X \<subseteq> set q1 \<union> set r" "set v1 \<subseteq> set r" "grown C (\<Union>a \<in> X. set (succs a)) (edges_from succs X) G1 G2" by blast
    have "card (insert x X) \<le> Suc (Suc n)" using IH(3) card_insert_le_m1 [of "Suc (Suc n)" X x] by simp
    moreover have "grown C (\<Union>a \<in> insert x X. set (succs a)) (edges_from succs (insert x X)) G G2"
      by (rule grown_trans' [OF G1(1) IH(6)]) (auto simp: edges_from_def)
    ultimately show ?thesis using G1(2) IH new Cons
      by (intro exI [of _ r] exI [of _ G2] exI [of _ "insert x X"]) auto
  qed
qed

theorem bfs_level_counts_nodes:
  assumes laws: "cgraph_laws C" and rel: "relation_adds C D succs relations"
    and start: "valid_ids G" "startNode \<in> node_set C G" "startNode \<in> D" and n: "0 < n"
  shows "\<exists>r G' X. bfsBuild null C startNode relations nodeDecoration edgeDecoration (int n) G = Some (Inr (r, G')) \<and>
    finite X \<and> card X \<le> n \<and> X \<subseteq> insert startNode (set r) \<and>
    node_set C G' = node_set C G \<union> (\<Union>a \<in> X. set (succs a)) \<and>
    edge_set C G' = edge_set C G \<union> {(a, b). a \<in> X \<and> b \<in> set (succs a)}"
proof -
  obtain m where m: "n = Suc m" using n gr0_conv_Suc by blast
  have "0 + int (Suc m) = int n" "(0 :: int) \<le> 0" by (simp_all add: m)
  from bfs_loop_bounded [OF laws rel start(1) _ _ this, of "[startNode]" null nodeDecoration edgeDecoration "[]"] start(2,3)
  obtain r G' X where "bfs_loop null C relations nodeDecoration edgeDecoration (int n) 0 [startNode] [] G = Some (Inr (r, G'))"
    "finite X" "card X \<le> Suc m" "X \<subseteq> {startNode} \<union> set r" "grown C (\<Union>a \<in> X. set (succs a)) (edges_from succs X) G G'" by auto
  then show ?thesis using m grown_nodes grown_edges by (fastforce simp: bfsBuild_def edges_from_def)
qed

text \<open>One level: the start node gets its edges.\<close>

lemma bfs_one_level:
  assumes laws: "cgraph_laws C" and rel: "relation_adds C D succs relations"
    and start: "valid_ids G" "startNode \<in> node_set C G" "startNode \<in> D"
  shows "\<exists>r G'. bfsBuild null C startNode relations nd ed 1 G = Some (Inr (r, G')) \<and> set r = set (succs startNode) \<and>
    grown C (set (succs startNode)) ({startNode} \<times> set (succs startNode)) G G'"
proof -
  obtain q1 v1 where push: "push_unseen (succs startNode) ([], []) = (q1, v1)" by fastforce
  then have v1: "set v1 = set (succs startNode)" by (rule push_unseen_append) simp
  show ?thesis using bfs_step [OF laws rel start, of null nd ed 1 0 "[]" "[]"] push v1 by (auto simp: bfsBuild_def)
qed

section \<open>An instance of the library\<close>

record lgraph =
  lg_nodes :: "string list"
  lg_edges :: "(string \<times> string \<times> string) list"
  lg_attrs :: "(string \<times> string \<times> string) list"

definition list_cgraph :: "lgraph cgraph" where
  "list_cgraph =
     \<lparr>ag_has_node = (\<lambda>g i. i \<in> set (lg_nodes g)),
      ag_has_edge = (\<lambda>g a b. list_ex (\<lambda>(f, t, e). f = a \<and> t = b) (lg_edges g)),
      ag_node = (\<lambda>sub i g. g\<lparr>lg_nodes := List.insert i (lg_nodes g)\<rparr>),
      ag_edge = (\<lambda>f t e g. g\<lparr>lg_edges := lg_edges g @ [(f, t, e)]\<rparr>),
      ag_subg = (\<lambda>s g. g),
      ag_delnode = (\<lambda>i g. g\<lparr>lg_nodes := removeAll i (lg_nodes g), lg_edges := filter (\<lambda>(f, t, e). f \<noteq> i \<and> t \<noteq> i) (lg_edges g)\<rparr>),
      ag_set_graph = (\<lambda>k v g. g),
      ag_set_node = (\<lambda>i k v h g. g\<lparr>lg_attrs := (i, k, v) # lg_attrs g\<rparr>),
      ag_set_edge = (\<lambda>i k v h g. g\<lparr>lg_attrs := (i, k, v) # lg_attrs g\<rparr>),
      ag_set_subg = (\<lambda>s k v h g. g),
      ag_get_node = (\<lambda>i k g. map_of (map (\<lambda>(i, k, v). ((i, k), v)) (lg_attrs g)) (i, k)),
      ag_get_edge = (\<lambda>i k g. map_of (map (\<lambda>(i, k, v). ((i, k), v)) (lg_attrs g)) (i, k)),
      ag_out = (\<lambda>i g. map (\<lambda>(f, t, e). t) (filter (\<lambda>(f, t, e). f = i) (lg_edges g))),
      ag_in = (\<lambda>i g. map (\<lambda>(f, t, e). f) (filter (\<lambda>(f, t, e). t = i) (lg_edges g))),
      ag_nnodes = (\<lambda>g. length (lg_nodes g)),
      ag_empty = \<lparr>lg_nodes = [], lg_edges = [], lg_attrs = []\<rparr>\<rparr>"

lemma list_cgraph_laws: "cgraph_laws list_cgraph"
  by (auto simp: cgraph_laws_def list_cgraph_def list_ex_iff)

text \<open>A relation with a cycle.\<close>

definition test_succs :: "string \<Rightarrow> string list" where
  "test_succs i = (if i = ''1'' then [''2'', ''3''] else if i = ''2'' then [''4''] else if i = ''4'' then [''1''] else [])"

definition test_relation :: "string \<Rightarrow> lgraph ugraph \<Rightarrow> unit + string list \<times> lgraph ugraph" where
  "test_relation current G =
     Inr (test_succs current, G\<lparr>ug_graph := fold (ag_node list_cgraph None) (test_succs current) (ug_graph G)\<rparr>)"

definition test_ugraph :: "lgraph ugraph" where
  "test_ugraph = (new_graph list_cgraph)\<lparr>ug_graph := ag_node list_cgraph None ''1'' (ag_empty list_cgraph)\<rparr>"

lemma fold_nodes:
  "ag_has_node list_cgraph (fold (ag_node list_cgraph None) is g) j \<longleftrightarrow> j \<in> set is \<or> ag_has_node list_cgraph g j"
  "ag_has_edge list_cgraph (fold (ag_node list_cgraph None) is g) a b \<longleftrightarrow> ag_has_edge list_cgraph g a b"
  by (induction "is" arbitrary: g) (auto simp: cgraph_simps [OF list_cgraph_laws])

lemma test_relation_adds: "relation_adds list_cgraph UNIV test_succs test_relation"
  by (auto simp: relation_adds_def test_relation_def grown_simps fold_nodes)

lemma test_ugraph_start: "valid_ids test_ugraph" "''1'' \<in> node_set list_cgraph test_ugraph"
  by (simp_all add: test_ugraph_def new_graph_def valid_ids_def lower_case_def node_set_def list_cgraph_def)

theorem bfs_build_reachable_witness:
  "\<exists>r G'. bfsBuild () list_cgraph ''1'' test_relation [] [(''label'', ''subdir'')] (-1) test_ugraph = Some (Inr (r, G')) \<and>
     distinct r \<and> set r = (edges_of test_succs)\<^sup>+ `` {''1''} \<and> ''4'' \<in> set r \<and> ''1'' \<in> set r \<and>
     node_set list_cgraph G' = node_set list_cgraph test_ugraph \<union> set r \<and>
     edge_set list_cgraph G' = edge_set list_cgraph test_ugraph \<union> {(a, b). a \<in> insert ''1'' (set r) \<and> b \<in> set (test_succs a)}"
proof -
  have fin: "finite ((edges_of test_succs)\<^sup>+ `` {''1''})"
    by (rule finite_closure [of "{''1'', ''2'', ''3'', ''4''}"]) (auto simp: test_succs_def)
  have e: "(''1'', ''2'') \<in> (edges_of test_succs)\<^sup>+" by (intro r_into_trancl) (simp add: test_succs_def)
  also have "(''2'', ''4'') \<in> (edges_of test_succs)\<^sup>+" by (intro r_into_trancl) (simp add: test_succs_def)
  finally have "(''1'', ''4'') \<in> (edges_of test_succs)\<^sup>+" .
  moreover from this have "(''1'', ''1'') \<in> (edges_of test_succs)\<^sup>+" by (rule trancl_into_trancl) (simp add: test_succs_def)
  ultimately show ?thesis
    using bfs_build_reachable [OF list_cgraph_laws test_relation_adds test_ugraph_start UNIV_I fin, of "()" "[]" "[(''label'', ''subdir'')]"] by auto
qed

text \<open>With two levels the second child of the start node is not searched.\<close>

lemma second_child_not_searched:
  "\<exists>r G'. bfsBuild () list_cgraph ''1'' (\<lambda>i G. test_relation i G) [] [] 1 test_ugraph = Some (Inr (r, G')) \<and> set r = {''2'', ''3''}"
proof -
  have "set (test_succs ''1'') = {''2'', ''3''}" by (simp add: test_succs_def)
  then show ?thesis using bfs_one_level [OF list_cgraph_laws test_relation_adds test_ugraph_start UNIV_I, of "()" "[]" "[]"] by auto
qed

section \<open>Rules for sequences of operations\<close>

text \<open>What is known of a graph: its nodes and edges, some subgraphs and some keys of the map of edges.\<close>

definition gstate :: "'g cgraph \<Rightarrow> string set \<Rightarrow> (string \<times> string) set \<Rightarrow> string set \<Rightarrow> string set \<Rightarrow> 'g ugraph \<Rightarrow> bool" where
  "gstate C V E S M G \<longleftrightarrow> cgraph_laws C \<and> valid_ids G \<and> node_set C G = V \<and> edge_set C G = E \<and>
     S \<subseteq> set (ug_subgMap G) \<and> M \<subseteq> set (ug_edgeMap G)"

definition wpG :: "'a option \<Rightarrow> ('a \<Rightarrow> bool) \<Rightarrow> bool" where
  "wpG m Q \<longleftrightarrow> (\<exists>x. m = Some x \<and> Q x)"

named_theorems graph_rules

lemma wpG_Some [graph_rules]: "Q x \<Longrightarrow> wpG (Some x) Q"
  by (simp add: wpG_def)

lemma wpG_bind [graph_rules]: "wpG m (\<lambda>x. wpG (k x) Q) \<Longrightarrow> wpG (Option.bind m k) Q"
  by (auto simp: wpG_def)

lemma wpG_mono: "wpG m P \<Longrightarrow> (\<And>x. P x \<Longrightarrow> Q x) \<Longrightarrow> wpG m Q"
  by (auto simp: wpG_def)

lemma gstate_grown: "gstate C V E S M G \<Longrightarrow> grown C N D G G' \<Longrightarrow> gstate C (V \<union> N) (E \<union> D) S M G'"
  by (auto simp: gstate_def grown_def valid_ids_def)

lemma gstate_new: "cgraph_laws C \<Longrightarrow> \<forall>a b. \<not> ag_has_edge C (ag_empty C) a b \<Longrightarrow> gstate C {} {} {} {} (new_graph C)"
  by (simp add: gstate_def new_graph_def valid_ids_def lower_case_def node_set_def edge_set_def cgraph_simps) (simp add: cgraph_laws_def)

lemma wpG_setNodeAttribute [graph_rules]:
  "gstate C V E S M G \<Longrightarrow> i \<in> V \<Longrightarrow> (\<And>G'. gstate C V E S M G' \<Longrightarrow> Q G') \<Longrightarrow> wpG (setNodeAttribute C i k v h G) Q"
  using setNodeAttribute_grown [of C G i k v h] gstate_grown [of C V E S M G "{}" "{}"] by (fastforce simp: gstate_def wpG_def)

lemma wpG_setEdgeAttribute [graph_rules]:
  "gstate C V E S M G \<Longrightarrow> e \<in> M \<Longrightarrow> (\<And>G'. gstate C V E S M G' \<Longrightarrow> Q G') \<Longrightarrow> wpG (setEdgeAttribute C e k v h G) Q"
  using setEdgeAttribute_grown [of C G e k v h] gstate_grown [of C V E S M G "{}" "{}"] by (fastforce simp: gstate_def wpG_def)

lemma wpG_setSubgraphAttribute [graph_rules]:
  "gstate C V E S M G \<Longrightarrow> s \<in> S \<Longrightarrow> (\<And>G'. gstate C V E S M G' \<Longrightarrow> Q G') \<Longrightarrow> wpG (setSubgraphAttribute C s k v h G) Q"
  using setSubgraphAttribute_grown [of C G s k v h] gstate_grown [of C V E S M G "{}" "{}"] by (fastforce simp: gstate_def wpG_def)

lemma wpG_decorateNode [graph_rules]:
  "gstate C V E S M G \<Longrightarrow> i \<in> V \<Longrightarrow> (\<And>G'. gstate C V E S M G' \<Longrightarrow> Q G') \<Longrightarrow> wpG (decorateNode C i attrs h G) Q"
  using decorateNode_grown [of C G i attrs h] gstate_grown [of C V E S M G "{}" "{}"] by (fastforce simp: gstate_def wpG_def)

lemma wpG_decorateEdge [graph_rules]:
  "gstate C V E S M G \<Longrightarrow> e \<in> M \<Longrightarrow> (\<And>G'. gstate C V E S M G' \<Longrightarrow> Q G') \<Longrightarrow> wpG (decorateEdge C e attrs h G) Q"
  using decorateEdge_grown [of C G e attrs h] gstate_grown [of C V E S M G "{}" "{}"] by (fastforce simp: gstate_def wpG_def)

lemma wpG_fresh_id:
  "gstate C V E S M G \<Longrightarrow> (\<And>i G'. i \<noteq> [] \<Longrightarrow> gstate C V E S M G' \<Longrightarrow> Q (i, G')) \<Longrightarrow> wpG (fresh_id G) Q"
  using fresh_id_grown [of G C] gstate_grown [of C V E S M G "{}" "{}"] by (fastforce simp: gstate_def wpG_def)

lemma wpG_getOrCreateNode [graph_rules]:
  assumes "gstate C V E S M G" "i \<noteq> []" "sub = [] \<or> sub \<in> S" "\<And>G'. gstate C (insert i V) E S M G' \<Longrightarrow> Q (i, G')"
  shows "wpG (getOrCreateNode C i sub G) Q"
proof -
  have "sub = [] \<or> sub \<in> set (ug_subgMap G)" using assms(1,3) by (auto simp: gstate_def)
  then obtain G' where G': "getOrCreateNode C i sub G = Some (i, G')" "grown C {i} {} G G'"
    using getOrCreateNode_grown [of C G i sub] assms(1,2) by (auto simp: gstate_def)
  then show ?thesis using assms(4) gstate_grown [OF assms(1) G'(2)] by (simp add: wpG_def)
qed

lemma wpG_createGraphNode [graph_rules]:
  assumes "gstate C V E S M G" "sub = [] \<or> sub \<in> S" "\<And>i G'. gstate C (insert i V) E S M G' \<Longrightarrow> Q (i, G')"
  shows "wpG (createGraphNode C sub G) Q"
  unfolding createGraphNode_def
  by (rule wpG_bind, rule wpG_fresh_id [OF assms(1)], simp, rule wpG_getOrCreateNode) (use assms in auto)

lemma wpG_createEdge [graph_rules]:
  assumes "gstate C V E S M G" "a \<in> V" "b \<in> V" "\<And>e G'. gstate C V (insert (a, b) E) S (insert e M) G' \<Longrightarrow> Q (e, G')"
  shows "wpG (createEdge C a b G) Q"
proof -
  obtain e G' where G': "createEdge C a b G = Some (e, G')" "grown C {} {(a, b)} G G'" "e \<in> set (ug_edgeMap G')"
    using createEdge_grown [of C G a b] assms(1-3) by (auto simp: gstate_def)
  have "gstate C V (insert (a, b) E) S (insert e M) G'" using gstate_grown [OF assms(1) G'(2)] G'(3) by (simp add: gstate_def)
  then show ?thesis using assms(4) G'(1) by (simp add: wpG_def)
qed

lemma wpG_getOrCreateSubgraph [graph_rules]:
  assumes "gstate C V E S M G" "s \<noteq> []" "\<And>G'. gstate C V E (insert s S) M G' \<Longrightarrow> Q (s, G')"
  shows "wpG (getOrCreateSubgraph C s G) Q"
proof -
  have "gstate C V E (insert s S) M (G\<lparr>ug_ids := List.insert s (ug_ids G), ug_subgMap := List.insert s (ug_subgMap G),
      ug_graph := ag_subg C s (ug_graph G)\<rparr>)"
    using assms(1) by (auto simp: gstate_def valid_ids_def node_set_def edge_set_def cgraph_simps)
  then show ?thesis using assms(2,3) by (simp add: wpG_def getOrCreateSubgraph_def)
qed

lemma wpG_hasEdge [graph_rules]:
  "gstate C V E S M G \<Longrightarrow> a \<in> V \<Longrightarrow> b \<in> V \<Longrightarrow> Q ((a, b) \<in> E) \<Longrightarrow> wpG (hasEdge C a b G) Q"
  by (auto simp: gstate_def wpG_def hasEdge_def node_set_def edge_set_def)

lemma wpG_getEdgeAttribute [graph_rules]:
  "gstate C V E S M G \<Longrightarrow> e \<in> M \<Longrightarrow> (\<And>v. Q v) \<Longrightarrow> wpG (getEdgeAttribute C e k G) Q"
  by (auto simp: gstate_def wpG_def getEdgeAttribute_def)

lemma wpG_delNode [graph_rules]:
  assumes "gstate C V E S M G" "i \<in> V" "\<And>G'. gstate C (V - {i}) {(a, b) \<in> E. a \<noteq> i \<and> b \<noteq> i} S M G' \<Longrightarrow> Q G'"
  shows "wpG (delNode C i G) Q"
proof -
  have "gstate C (V - {i}) {(a, b) \<in> E. a \<noteq> i \<and> b \<noteq> i} S M
      (G\<lparr>ug_graph := ag_delnode C i (ug_graph G), ug_ids := removeAll i (ug_ids G)\<rparr>)"
    using assms(1) by (auto simp: gstate_def valid_ids_def node_set_def edge_set_def cgraph_simps)
  then show ?thesis using assms by (auto simp: wpG_def delNode_def gstate_def node_set_def)
qed

end
