(* ===== verification/UtilLegend.thy ===== *)
theory UtilLegend
  imports UtilGraph
begin

text \<open>
  \<^verbatim>\<open>util/src/legendbuilder.cpp\<close>: the legend of a diagram, a graph with one row for each kind of node and edge. None is
  the use of a null pointer, as in theory \<open>UtilGraph\<close>.
\<close>

section \<open>Building a legend\<close>

record 'g legend =
  lb_root :: string
  lb_graph :: "'g ugraph"

definition new_legend :: "'g cgraph \<Rightarrow> string \<Rightarrow> 'g legend option" where
  "new_legend C title =
     (let G = setAttribute C ''nodesep'' ''0.25'' (setAttribute C ''rankdir'' ''LR'' (new_graph C)) in
      Option.bind (createGraphNode C [] G) (\<lambda>(root, G).
      Option.bind (setNodeAttribute C root ''label'' [] False G) (\<lambda>G.
      Option.bind (setNodeAttribute C root ''shape'' ''none'' False G) (\<lambda>G.
      Option.bind (setNodeAttribute C root ''width'' ''0.1'' False G) (\<lambda>G.
      Some \<lparr>lb_root = root, lb_graph = setAttribute C ''label'' title G\<rparr>)))))"

definition registerSubgraph :: "'g cgraph \<Rightarrow> string \<Rightarrow> string \<Rightarrow> 'g ugraph \<Rightarrow> (string \<times> 'g ugraph) option" where
  "registerSubgraph C root sub G =
     Option.bind (createGraphNode C sub G) (\<lambda>(first, G).
     Option.bind (createEdge C root first G) (\<lambda>(invis, G).
     Option.bind (setEdgeAttribute C invis ''style'' ''invis'' False G) (\<lambda>G.
     Option.bind (setNodeAttribute C first ''label'' [] False G) (\<lambda>G.
     Option.bind (setNodeAttribute C first ''shape'' ''none'' False G) (\<lambda>G.
     Option.bind (setNodeAttribute C first ''width'' ''0.01'' False G) (\<lambda>G.
     Some (first, G)))))))"

definition legend_addNode :: "'g cgraph \<Rightarrow> string \<Rightarrow> decoration \<Rightarrow> bool \<Rightarrow> 'g legend \<Rightarrow> 'g legend option" where
  "legend_addNode C label attrs html L =
     Option.bind (getOrCreateSubgraph C label (lb_graph L)) (\<lambda>(sub, G).
     Option.bind (registerSubgraph C (lb_root L) sub G) (\<lambda>(ref1, G).
     Option.bind (setSubgraphAttribute C sub ''rankdir'' ''LR'' False G) (\<lambda>G.
     Option.bind (createGraphNode C sub G) (\<lambda>(node, G).
     Option.bind (setNodeAttribute C node ''label'' [] False G) (\<lambda>G.
     Option.bind (createEdge C ref1 node G) (\<lambda>(edge, G).
     Option.bind (setEdgeAttribute C edge ''style'' ''invis'' False G) (\<lambda>G.
     Option.bind (createGraphNode C sub G) (\<lambda>(desc, G).
     Option.bind (setNodeAttribute C desc ''shape'' ''none'' False G) (\<lambda>G.
     Option.bind (setNodeAttribute C desc ''label'' label False G) (\<lambda>G.
     Option.bind (createEdge C node desc G) (\<lambda>(invis, G).
     Option.bind (setEdgeAttribute C invis ''style'' ''invis'' False G) (\<lambda>G.
     Option.bind (decorateNode C node attrs html G) (\<lambda>G.
     Some (L\<lparr>lb_graph := G\<rparr>))))))))))))))"

definition legend_addEdge :: "'g cgraph \<Rightarrow> string \<Rightarrow> decoration \<Rightarrow> bool \<Rightarrow> 'g legend \<Rightarrow> 'g legend option" where
  "legend_addEdge C label attrs html L =
     Option.bind (getOrCreateSubgraph C label (lb_graph L)) (\<lambda>(sub, G).
     Option.bind (setSubgraphAttribute C sub ''rankdir'' ''LR'' False G) (\<lambda>G.
     Option.bind (registerSubgraph C (lb_root L) sub G) (\<lambda>(ref1, G).
     Option.bind (createGraphNode C sub G) (\<lambda>(ref2, G).
     Option.bind (setNodeAttribute C ref2 ''label'' [] False G) (\<lambda>G.
     Option.bind (setNodeAttribute C ref2 ''shape'' ''none'' False G) (\<lambda>G.
     Option.bind (setNodeAttribute C ref2 ''width'' ''0.01'' False G) (\<lambda>G.
     Option.bind (createEdge C ref1 ref2 G) (\<lambda>(edge, G).
     Option.bind (createGraphNode C sub G) (\<lambda>(desc, G).
     Option.bind (setNodeAttribute C desc ''shape'' ''none'' False G) (\<lambda>G.
     Option.bind (setNodeAttribute C desc ''label'' label False G) (\<lambda>G.
     Option.bind (createEdge C ref2 desc G) (\<lambda>(invis, G).
     Option.bind (setEdgeAttribute C invis ''style'' ''invis'' False G) (\<lambda>G.
     Option.bind (decorateEdge C edge attrs html G) (\<lambda>G.
     Some (L\<lparr>lb_graph := G\<rparr>)))))))))))))))"

text \<open>The node the caller can hook on, the subgraph and the legend.\<close>

definition legend_addSubgraph :: "'g cgraph \<Rightarrow> string \<Rightarrow> 'g legend \<Rightarrow> (string \<times> string \<times> 'g legend) option" where
  "legend_addSubgraph C label L =
     Option.bind (getOrCreateSubgraph C label (lb_graph L)) (\<lambda>(sub, G).
     Option.bind (setSubgraphAttribute C sub ''rankdir'' ''LR'' False G) (\<lambda>G.
     Option.bind (registerSubgraph C (lb_root L) sub G) (\<lambda>(hook, G).
     Some (hook, sub, L\<lparr>lb_graph := G\<rparr>))))"

definition setNodeStyle :: "'g cgraph \<Rightarrow> string \<Rightarrow> decoration \<Rightarrow> bool \<Rightarrow> 'g legend \<Rightarrow> 'g legend option" where
  "setNodeStyle C node attrs html L = map_option (\<lambda>G. L\<lparr>lb_graph := G\<rparr>) (decorateNode C node attrs html (lb_graph L))"

definition setEdgeStyle :: "'g cgraph \<Rightarrow> string \<Rightarrow> decoration \<Rightarrow> bool \<Rightarrow> 'g legend \<Rightarrow> 'g legend option" where
  "setEdgeStyle C edge attrs html L = map_option (\<lambda>G. L\<lparr>lb_graph := G\<rparr>) (decorateEdge C edge attrs html (lb_graph L))"

text \<open>The rows of a legend, in the order in which they are added.\<close>

datatype legend_row = Node_Row string decoration bool | Edge_Row string decoration bool

fun add_row :: "'g cgraph \<Rightarrow> legend_row \<Rightarrow> 'g legend \<Rightarrow> 'g legend option" where
  "add_row C (Node_Row label attrs html) L = legend_addNode C label attrs html L"
| "add_row C (Edge_Row label attrs html) L = legend_addEdge C label attrs html L"

fun row_label :: "legend_row \<Rightarrow> string" where
  "row_label (Node_Row label attrs html) = label"
| "row_label (Edge_Row label attrs html) = label"

fun add_rows :: "'g cgraph \<Rightarrow> legend_row list \<Rightarrow> 'g legend \<Rightarrow> 'g legend option" where
  "add_rows C [] L = Some L"
| "add_rows C (r # rs) L = Option.bind (add_row C r L) (add_rows C rs)"

section \<open>Every row is drawn\<close>

definition legend_ok :: "'g cgraph \<Rightarrow> string set \<Rightarrow> 'g legend \<Rightarrow> bool" where
  "legend_ok C labels L \<longleftrightarrow> (\<exists>V E S M. gstate C V E S M (lb_graph L) \<and> lb_root L \<in> V \<and> labels \<subseteq> S)"

lemma wpG_pair [graph_rules]: "wpG (k i G) Q \<Longrightarrow> wpG (case_prod k (i, G)) Q"
  by simp

lemma wpG_registerSubgraph [graph_rules]:
  assumes "gstate C V E S M G" "root \<in> V" "sub = [] \<or> sub \<in> S"
    and "\<And>i e G'. gstate C (insert i V) (insert (root, i) E) S (insert e M) G' \<Longrightarrow> Q (i, G')"
  shows "wpG (registerSubgraph C root sub G) Q"
  unfolding registerSubgraph_def
  by (rule graph_rules assms(1,3) | assumption | simp add: assms(2) | rule assms(4))+

lemma gstate_setAttribute: "gstate C V E S M G \<Longrightarrow> gstate C V E S M (setAttribute C k v G)"
  by (auto simp: gstate_def setAttribute_def valid_ids_def node_set_def edge_set_def cgraph_simps)

lemma wpG_add_row:
  assumes L: "gstate C V E S M (lb_graph L)" "lb_root L \<in> V" and label: "row_label r \<noteq> []"
    and Q: "\<And>V' E' M' G. gstate C V' E' (insert (row_label r) S) M' G \<Longrightarrow> lb_root L \<in> V' \<Longrightarrow> Q (L\<lparr>lb_graph := G\<rparr>)"
  shows "wpG (add_row C r L) Q"
proof (cases r)
  case (Node_Row l attrs html)
  then have l: "l \<noteq> []" using label by simp
  show ?thesis unfolding Node_Row add_row.simps legend_addNode_def
    by (rule graph_rules L(1) | assumption | simp add: L(2) l | (erule Q [unfolded Node_Row row_label.simps]; simp add: L(2)))+
next
  case (Edge_Row l attrs html)
  then have l: "l \<noteq> []" using label by simp
  show ?thesis unfolding Edge_Row add_row.simps legend_addEdge_def
    by (rule graph_rules L(1) | assumption | simp add: L(2) l | (erule Q [unfolded Edge_Row row_label.simps]; simp add: L(2)))+
qed

lemma new_legend_ok:
  assumes "cgraph_laws C" "\<forall>a b. \<not> ag_has_edge C (ag_empty C) a b"
  shows "\<exists>L. new_legend C title = Some L \<and> legend_ok C {} L"
proof -
  have "gstate C {} {} {} {} (setAttribute C ''nodesep'' ''0.25'' (setAttribute C ''rankdir'' ''LR'' (new_graph C)))"
    by (intro gstate_setAttribute gstate_new assms)
  then have "wpG (new_legend C title) (legend_ok C {})"
    unfolding new_legend_def Let_def legend_ok_def
    by - (assumption | rule graph_rules exI conjI gstate_setAttribute | simp)+
  then show ?thesis by (simp add: wpG_def)
qed

text \<open>
  Every legend is built: no row uses a null pointer, whatever the attributes are, and each label has its subgraph.
\<close>

theorem legend_built:
  assumes laws: "cgraph_laws C" "\<forall>a b. \<not> ag_has_edge C (ag_empty C) a b" and labels: "list_all (\<lambda>r. row_label r \<noteq> []) rows"
  shows "\<exists>L. Option.bind (new_legend C title) (add_rows C rows) = Some L \<and> row_label ` set rows \<subseteq> set (ug_subgMap (lb_graph L))"
proof -
  have rows: "\<exists>L'. add_rows C rows L = Some L' \<and> legend_ok C (row_label ` set rows \<union> S) L'" if "legend_ok C S L" for S L
    using that labels
  proof (induction rows arbitrary: S L)
    case (Cons r rows)
    from Cons.prems(1) obtain V E S' M where L: "gstate C V E S' M (lb_graph L)" "lb_root L \<in> V" "S \<subseteq> S'" by (auto simp: legend_ok_def)
    have "wpG (add_row C r L) (legend_ok C (insert (row_label r) S))"
      by (rule wpG_add_row [OF L(1,2)]) (use Cons.prems(2) L(3) in \<open>auto simp: legend_ok_def\<close>)
    then obtain L1 where L1: "add_row C r L = Some L1" "legend_ok C (insert (row_label r) S) L1" by (auto simp: wpG_def)
    have "list_all (\<lambda>r. row_label r \<noteq> []) rows" using Cons.prems(2) by simp
    from Cons.IH [OF L1(2) this] L1(1) show ?case by simp
  qed simp
  obtain L where L: "new_legend C title = Some L" "legend_ok C {} L" using new_legend_ok [OF laws] by blast
  from rows [OF L(2)] obtain L' where "add_rows C rows L = Some L'" "legend_ok C (row_label ` set rows) L'" by auto
  then show ?thesis using L(1) by (auto simp: legend_ok_def gstate_def)
qed

theorem legend_built_witness:
  "\<exists>L. Option.bind (new_legend list_cgraph ''Legend'') (add_rows list_cgraph
       [Node_Row ''class'' [(''shape'', ''box'')] False, Edge_Row ''uses'' [(''label'', ''uses'')] False]) = Some L \<and>
     {''class'', ''uses''} \<subseteq> set (ug_subgMap (lb_graph L))"
  using legend_built [OF list_cgraph_laws, of "[Node_Row ''class'' [(''shape'', ''box'')] False, Edge_Row ''uses'' [(''label'', ''uses'')] False]" "''Legend''"]
  by (simp add: list_cgraph_def)

end
