(* ===== verification/CppFileDiagram.thy ===== *)
theory CppFileDiagram
  imports ProjectService UtilLegend CppCleanup
begin

text \<open>
  \<^verbatim>\<open>plugins/cpp/service/src/filediagram.cpp\<close>: diagrams of files and directories, on the graphs of theory \<open>UtilGraph\<close> and the
  service of theory \<open>ProjectService\<close>. A node is the decimal identifier of its file. None is a search that never
  ends; a null pointer of the graph library is the error \<open>Undefined\<close>. The extension of a path comes from Boost
  and is a parameter.
\<close>

section \<open>Decorations\<close>

definition centerNodeDecoration :: decoration where
  "centerNodeDecoration = [(''style'', ''filled''), (''fillcolor'', ''gold'')]"

definition sourceFileNodeDecoration :: decoration where
  "sourceFileNodeDecoration = [(''shape'', ''box''), (''style'', ''filled''), (''fillcolor'', ''#116db6''), (''fontcolor'', ''white'')]"

definition headerFileNodeDecoration :: decoration where
  "headerFileNodeDecoration = [(''style'', ''filled''), (''fillcolor'', ''#ef4756''), (''fontcolor'', ''white'')]"

definition binaryFileNodeDecoration :: decoration where
  "binaryFileNodeDecoration = [(''shape'', ''box3d''), (''style'', ''filled''), (''fillcolor'', ''#f18a21''), (''fontcolor'', ''white'')]"

definition objectFileNodeDecoration :: decoration where
  "objectFileNodeDecoration = [(''shape'', ''folder''), (''style'', ''filled''), (''fillcolor'', ''#6fc59e''), (''fontcolor'', ''white'')]"

definition directoryNodeDecoration :: decoration where
  "directoryNodeDecoration = [(''shape'', ''folder'')]"

definition usagesEdgeDecoration :: decoration where "usagesEdgeDecoration = [(''label'', ''uses'')]"

definition revUsagesEdgeDecoration :: decoration where "revUsagesEdgeDecoration = [(''label'', ''used by'')]"

definition providesEdgeDecoration :: decoration where
  "providesEdgeDecoration = [(''label'', ''provides''), (''color'', ''red'')]"

definition revProvidesEdgeDecoration :: decoration where
  "revProvidesEdgeDecoration = [(''label'', ''provided by''), (''color'', ''red'')]"

definition containsEdgeDecoration :: decoration where
  "containsEdgeDecoration = [(''label'', ''contains''), (''color'', ''blue'')]"

definition revContainsEdgeDecoration :: decoration where
  "revContainsEdgeDecoration = [(''label'', ''contained by''), (''color'', ''blue'')]"

definition subdirEdgeDecoration :: decoration where
  "subdirEdgeDecoration = [(''label'', ''subdir''), (''color'', ''green'')]"

definition implementsEdgeDecoration :: decoration where
  "implementsEdgeDecoration = [(''label'', ''implements''), (''color'', ''red'')]"

definition revImplementsEdgeDecoration :: decoration where
  "revImplementsEdgeDecoration = [(''label'', ''implemented by''), (''color'', ''red'')]"

definition dependsEdgeDecoration :: decoration where
  "dependsEdgeDecoration = [(''label'', ''depends on''), (''color'', ''blue'')]"

definition revDependsEdgeDecoration :: decoration where
  "revDependsEdgeDecoration = [(''label'', ''dependent on''), (''color'', ''blue'')]"

section \<open>Labels\<close>

text \<open>\<open>std::string::rfind\<close> of a character at or before a position.\<close>

definition str_rfind :: "char \<Rightarrow> nat \<Rightarrow> string \<Rightarrow> nat" where
  "str_rfind c pos s = (case strrchr (take (pos + 1) s) c of None \<Rightarrow> SIZE_MAX | Some i \<Rightarrow> i)"

text \<open>The loop, where \<open>n\<close> is the value that is tested; \<open>p - 1\<close> wraps around at 0.\<close>

fun last_parts :: "nat \<Rightarrow> string \<Rightarrow> nat \<Rightarrow> nat" where
  "last_parts 0 path p = p"
| "last_parts (Suc n) path p =
     (if size_sub p 1 < length path then last_parts n path (str_rfind (CHR ''/'') (size_sub p 1) path) else p)"

definition getLastNParts :: "string \<Rightarrow> nat \<Rightarrow> string" where
  "getLastNParts path n =
     (if path = [] \<or> n = 0 then []
      else
        let p = last_parts (n - 1) path (str_rfind (CHR ''/'') SIZE_MAX path) in
        if 0 < p \<and> p < length path then ''...'' @ drop p path else path)"

definition file_decoration :: "(string \<Rightarrow> string) \<Rightarrow> core_file_info \<Rightarrow> decoration" where
  "file_decoration extension fileInfo =
     (if fi_type fileInfo = DIRECTORY_TYPE then directoryNodeDecoration
      else if fi_type fileInfo = BINARY_TYPE then binaryFileNodeDecoration
      else if fi_type fileInfo = Other_Type ''CPP'' then
        let ext = map tolower (extension (fi_path fileInfo)) in
        if ext \<in> {''.cpp'', ''.cxx'', ''.cc'', ''.c''} then sourceFileNodeDecoration
        else if ext \<in> {''.hpp'', ''.hxx'', ''.hh'', ''.h''} then headerFileNodeDecoration
        else if ext \<in> {''.o'', ''.so'', ''.dll''} then objectFileNodeDecoration
        else []
      else [])"

definition pointer :: "'a option \<Rightarrow> 'a answered" where
  "pointer p = (case p of None \<Rightarrow> Inl Undefined | Some x \<Rightarrow> Inr x)"

definition file_addNode :: "'g cgraph \<Rightarrow> (string \<Rightarrow> string) \<Rightarrow> core_file_info \<Rightarrow> 'g ugraph \<Rightarrow> (string \<times> 'g ugraph) answered" where
  "file_addNode C extension fileInfo G =
     pointer
       (Option.bind (getOrCreateNode C (fi_id fileInfo) [] G) (\<lambda>(node, G).
        Option.bind (setNodeAttribute C node ''label'' (getLastNParts (fi_path fileInfo) 3) False G) (\<lambda>G.
        Option.bind (decorateNode C node (file_decoration extension fileInfo) False G) (\<lambda>G.
        Some (node, G)))))"

section \<open>Relations of files\<close>

text \<open>The tables: files, edges between files, sources and targets of build actions (file and action), inclusions.\<close>

record diagram_db =
  dg_project :: project_db
  dg_edges :: "edge_row list"
  dg_sources :: "(64 word \<times> nat) list"
  dg_targets :: "(64 word \<times> nat) list"
  dg_inclusions :: "header_inclusion list"

fun add_files ::
    "'g cgraph \<Rightarrow> (string \<Rightarrow> string) \<Rightarrow> diagram_db \<Rightarrow> string list \<Rightarrow> 'g ugraph \<Rightarrow> (string list \<times> 'g ugraph) answered" where
  "add_files C extension D [] G = Inr ([], G)"
| "add_files C extension D (fileId # fileIds) G =
     bindE (getFileInfo (dg_project D) fileId) (\<lambda>fileInfo.
     bindE (file_addNode C extension fileInfo G) (\<lambda>(node, G).
     bindE (add_files C extension D fileIds G) (\<lambda>(nodes, G). Inr (node # nodes, G))))"

definition edge_file_ids :: "edge_type \<Rightarrow> diagram_db \<Rightarrow> string \<Rightarrow> bool \<Rightarrow> string list answered" where
  "edge_file_ids type D node reverse =
     bindE (stoull node) (\<lambda>i.
     Inr (map (\<lambda>edge. decimal (if reverse then ed_from edge else ed_to edge))
       (filter (\<lambda>edge. (if reverse then ed_to edge else ed_from edge) = i \<and> ed_type edge = type) (dg_edges D))))"

definition getProvidedFileIds :: "diagram_db \<Rightarrow> string \<Rightarrow> bool \<Rightarrow> string list answered" where
  "getProvidedFileIds = edge_file_ids PROVIDE"

definition getUsedFileIds :: "diagram_db \<Rightarrow> string \<Rightarrow> bool \<Rightarrow> string list answered" where
  "getUsedFileIds = edge_file_ids USE"

definition include_ids :: "diagram_db \<Rightarrow> string \<Rightarrow> bool \<Rightarrow> string list answered" where
  "include_ids D node reverse =
     bindE (stoull node) (\<lambda>i.
     Inr (map (\<lambda>r. decimal (unat (if reverse then hi_includer r else hi_included r)))
       (filter (\<lambda>r. unat (if reverse then hi_included r else hi_includer r) = i) (dg_inclusions D))))"

definition subdir_ids :: "diagram_db \<Rightarrow> string \<Rightarrow> string list answered" where
  "subdir_ids D node =
     bindE (stoull node) (\<lambda>i.
     Inr (map (\<lambda>f. decimal (unat (sf_id f))) (filter (\<lambda>f. sf_type f = DIRECTORY_TYPE) (child_rows (dg_project D) i))))"

text \<open>The directory of a file that must be there, and of each file with an identifier.\<close>

definition parent_id :: "file_row \<Rightarrow> string answered" where
  "parent_id f = (case sf_parent f of None \<Rightarrow> Inl Undefined | Some p \<Rightarrow> Inr (decimal (unat p)))"

definition loaded_parent :: "diagram_db \<Rightarrow> string \<Rightarrow> string list answered" where
  "loaded_parent D fileId =
     bindE (stoull fileId) (\<lambda>i.
     case file_at (dg_project D) i of None \<Rightarrow> Inl Not_Persistent | Some f \<Rightarrow> bindE (parent_id f) (\<lambda>p. Inr [p]))"

definition queried_parents :: "diagram_db \<Rightarrow> string \<Rightarrow> string list answered" where
  "queried_parents D fileId =
     bindE (stoull fileId) (\<lambda>i. map_E parent_id (filter (\<lambda>f. unat (sf_id f) = i) (pd_files (dg_project D))))"

text \<open>
  The directories that the files of a directory are related to; \<open>ids\<close> is the relation on files and \<open>parents\<close>
  how the directory of a related file is found. The result is sorted and has no duplicates, so the order of the
  hash set in between does not matter.
\<close>

definition directory_ids ::
    "(diagram_db \<Rightarrow> string \<Rightarrow> bool \<Rightarrow> string list answered) \<Rightarrow> (diagram_db \<Rightarrow> string \<Rightarrow> string list answered) \<Rightarrow>
       diagram_db \<Rightarrow> string \<Rightarrow> bool \<Rightarrow> string list answered" where
  "directory_ids ids parents D node reverse =
     bindE (stoull node) (\<lambda>i.
     bindE (map_E (\<lambda>file. ids D (decimal (unat (sf_id file))) reverse)
       (filter (\<lambda>f. sf_type f \<noteq> DIRECTORY_TYPE) (child_rows (dg_project D) i))) (\<lambda>files.
     bindE (map_E (parents D) (remdups (concat files))) (\<lambda>dirs.
     Inr (filter (\<lambda>n. n \<noteq> node) (remdups_adj (sort (concat dirs)))))))"

definition implemented_ids :: "diagram_db \<Rightarrow> string \<Rightarrow> bool \<Rightarrow> string list answered" where
  "implemented_ids = directory_ids getProvidedFileIds loaded_parent"

definition depend_ids :: "diagram_db \<Rightarrow> string \<Rightarrow> bool \<Rightarrow> string list answered" where
  "depend_ids = directory_ids getUsedFileIds queried_parents"

text \<open>The files on the other side of the actions of a file.\<close>

definition joined :: "(64 word \<times> nat) list \<Rightarrow> (64 word \<times> nat) list \<Rightarrow> nat \<Rightarrow> nat list" where
  "joined xs ys i =
     concat (map (\<lambda>x. map (\<lambda>y. unat (fst y)) (filter (\<lambda>y. snd y = snd x) ys)) (filter (\<lambda>x. unat (fst x) = i) xs))"

definition contains_ids :: "diagram_db \<Rightarrow> string \<Rightarrow> string list answered" where
  "contains_ids D node =
     bindE (stoull node) (\<lambda>i. Inr (map decimal (joined (dg_targets D) (dg_sources D) i)))"

text \<open>A target is listed once, at its first occurrence.\<close>

definition rev_contains_ids :: "diagram_db \<Rightarrow> string \<Rightarrow> string list answered" where
  "rev_contains_ids D node =
     bindE (stoull node) (\<lambda>i. Inr (map decimal (rev (remdups (rev (joined (dg_sources D) (dg_targets D) i))))))"

text \<open>A relation adds the files it finds to the graph.\<close>

definition file_relation ::
    "'g cgraph \<Rightarrow> (string \<Rightarrow> string) \<Rightarrow> diagram_db \<Rightarrow> (string \<Rightarrow> string list answered) \<Rightarrow> string \<Rightarrow> 'g ugraph \<Rightarrow>
       (string list \<times> 'g ugraph) answered" where
  "file_relation C extension D ids node G = bindE (ids node) (\<lambda>fileIds. add_files C extension D fileIds G)"

definition getIncludedFiles where
  "getIncludedFiles C extension D reverse = file_relation C extension D (\<lambda>node. include_ids D node reverse)"

definition getSubDirs where
  "getSubDirs C extension D = file_relation C extension D (subdir_ids D)"

definition getImplementedFiles where
  "getImplementedFiles C extension D reverse = file_relation C extension D (\<lambda>node. implemented_ids D node reverse)"

definition getDependFiles where
  "getDependFiles C extension D reverse = file_relation C extension D (\<lambda>node. depend_ids D node reverse)"

definition getProvidedFiles where
  "getProvidedFiles C extension D reverse = file_relation C extension D (\<lambda>node. getProvidedFileIds D node reverse)"

definition getUsedFiles where
  "getUsedFiles C extension D reverse = file_relation C extension D (\<lambda>node. getUsedFileIds D node reverse)"

definition getContains where
  "getContains C extension D = file_relation C extension D (contains_ids D)"

definition getRevContains where
  "getRevContains C extension D = file_relation C extension D (rev_contains_ids D)"

section \<open>The diagrams\<close>

text \<open>A computation may not end, fail, or give a value.\<close>

definition bindD :: "'a answered option \<Rightarrow> ('a \<Rightarrow> 'b answered option) \<Rightarrow> 'b answered option" where
  "bindD m k = (case m of None \<Rightarrow> None | Some (Inl e) \<Rightarrow> Some (Inl e) | Some (Inr x) \<Rightarrow> k x)"

fun for_each :: "('a \<Rightarrow> 'g \<Rightarrow> 'g answered option) \<Rightarrow> 'a list \<Rightarrow> 'g \<Rightarrow> 'g answered option" where
  "for_each f [] G = Some (Inr G)"
| "for_each f (x # xs) G = bindD (f x G) (for_each f xs)"

definition search ::
    "'g cgraph \<Rightarrow> string \<Rightarrow> (string \<Rightarrow> 'g ugraph \<Rightarrow> (string list \<times> 'g ugraph) answered) \<Rightarrow> decoration \<Rightarrow> int \<Rightarrow>
       'g ugraph \<Rightarrow> (string list \<times> 'g ugraph) answered option" where
  "search C start relations edgeDecoration level G = bfsBuild Undefined C start relations [] edgeDecoration level G"

definition center_node ::
    "'g cgraph \<Rightarrow> (string \<Rightarrow> string) \<Rightarrow> diagram_db \<Rightarrow> bool \<Rightarrow> string \<Rightarrow> 'g ugraph \<Rightarrow> (string \<times> 'g ugraph) answered" where
  "center_node C extension D decorated fileId G =
     bindE (getFileInfo (dg_project D) fileId) (\<lambda>fileInfo.
     bindE (file_addNode C extension fileInfo G) (\<lambda>(currentNode, G).
     if decorated then
       bindE (pointer (decorateNode C currentNode centerNodeDecoration False G)) (\<lambda>G. Inr (currentNode, G))
     else Inr (currentNode, G)))"

definition draw_edge :: "'g cgraph \<Rightarrow> string \<Rightarrow> string \<Rightarrow> decoration \<Rightarrow> 'g ugraph \<Rightarrow> 'g ugraph answered" where
  "draw_edge C a b attrs G =
     pointer (Option.bind (createEdge C a b G) (\<lambda>(edge, G). decorateEdge C edge attrs False G))"

text \<open>The searches of one diagram from the same node, with their relations, decorations and bounds.\<close>

definition searches ::
    "'g cgraph \<Rightarrow> string \<Rightarrow> ((string \<Rightarrow> 'g ugraph \<Rightarrow> (string list \<times> 'g ugraph) answered) \<times> decoration \<times> int) list \<Rightarrow>
       'g ugraph \<Rightarrow> 'g ugraph answered option" where
  "searches C start steps =
     for_each (\<lambda>(relations, attrs, level) G. bindD (search C start relations attrs level G) (\<lambda>(r, G). Some (Inr G))) steps"

text \<open>A set of nodes is iterated in the order of the identifiers.\<close>

definition getComponentUsersDiagram ::
    "'g cgraph \<Rightarrow> (string \<Rightarrow> string) \<Rightarrow> diagram_db \<Rightarrow> string \<Rightarrow> 'g ugraph \<Rightarrow> 'g ugraph answered option" where
  "getComponentUsersDiagram C extension D fileId G =
     bindD (Some (center_node C extension D True fileId G)) (\<lambda>(currentNode, G).
     bindD (search C currentNode (getProvidedFiles C extension D False) providesEdgeDecoration 1 G) (\<lambda>(provides, G).
     bindD (for_each (\<lambda>provide (usedHeaders, G).
         bindD (search C provide (getUsedFiles C extension D True) revUsagesEdgeDecoration (-1) G) (\<lambda>(revusages, G).
         Some (Inr (usedHeaders @ revusages, G)))) (sort provides) (provides, G)) (\<lambda>(usedHeaders, G).
     for_each (\<lambda>source G.
         bindD (search C source (getRevContains C extension D) revContainsEdgeDecoration (-1) G) (\<lambda>(r, G). Some (Inr G)))
       (sort (remdups usedHeaders)) G)))"

definition getIncludeDependencyDiagram ::
    "'g cgraph \<Rightarrow> (string \<Rightarrow> string) \<Rightarrow> diagram_db \<Rightarrow> string \<Rightarrow> 'g ugraph \<Rightarrow> 'g ugraph answered option" where
  "getIncludeDependencyDiagram C extension D fileId G =
     bindD (Some (center_node C extension D False fileId G)) (\<lambda>(currentNode, G).
     searches C currentNode
       [(getUsedFiles C extension D False, usagesEdgeDecoration, 3), (getUsedFiles C extension D True, revUsagesEdgeDecoration, 3),
        (getProvidedFiles C extension D False, usagesEdgeDecoration, 3), (getProvidedFiles C extension D True, revUsagesEdgeDecoration, 3)] G)"

text \<open>The directory and those below it.\<close>

definition subdirs_of ::
    "'g cgraph \<Rightarrow> (string \<Rightarrow> string) \<Rightarrow> diagram_db \<Rightarrow> string \<Rightarrow> 'g ugraph \<Rightarrow> (string list \<times> string \<times> 'g ugraph) answered option" where
  "subdirs_of C extension D fileId G =
     bindD (Some (center_node C extension D True fileId G)) (\<lambda>(currentNode, G).
     bindD (search C currentNode (getSubDirs C extension D) subdirEdgeDecoration (-1) G) (\<lambda>(subdirs, G).
     Some (Inr (subdirs, currentNode, G))))"

text \<open>One related directory: it gets an edge or, in the other case, may be deleted again.\<close>

fun draw_related ::
    "'g cgraph \<Rightarrow> bool \<Rightarrow> string list \<Rightarrow> string \<Rightarrow> decoration \<Rightarrow> string list \<Rightarrow> 'g ugraph \<Rightarrow> 'g ugraph answered" where
  "draw_related C inner subdirs subdir attrs [] G = Inr G"
| "draw_related C inner subdirs subdir attrs (node # nodes) G =
     bindE
       (if inner then
          (if node \<in> set subdirs then draw_edge C subdir node attrs G else pointer (delNode C node G))
        else
          (if node \<notin> set subdirs then draw_edge C subdir node attrs G else Inr G))
       (draw_related C inner subdirs subdir attrs nodes)"

text \<open>The relations of one directory to the directories inside, or outside, of the subtree.\<close>

definition draw_directory ::
    "'g cgraph \<Rightarrow> (string \<Rightarrow> string) \<Rightarrow> diagram_db \<Rightarrow> bool \<Rightarrow> string list \<Rightarrow> string \<Rightarrow> 'g ugraph \<Rightarrow> 'g ugraph answered" where
  "draw_directory C extension D inner subdirs subdir G =
     bindE (getImplementedFiles C extension D False subdir G) (\<lambda>(impls, G).
     bindE (draw_related C inner subdirs subdir implementsEdgeDecoration impls G) (\<lambda>G.
     bindE (getDependFiles C extension D False subdir G) (\<lambda>(deps, G).
     draw_related C inner subdirs subdir dependsEdgeDecoration deps G)))"

definition getExternalDependencyDiagram ::
    "'g cgraph \<Rightarrow> (string \<Rightarrow> string) \<Rightarrow> diagram_db \<Rightarrow> string \<Rightarrow> 'g ugraph \<Rightarrow> 'g ugraph answered option" where
  "getExternalDependencyDiagram C extension D fileId G =
     bindD (subdirs_of C extension D fileId G) (\<lambda>(subdirs, currentNode, G).
     let subdirs = sort (List.insert currentNode subdirs) in
     for_each (\<lambda>subdir G. Some (draw_directory C extension D False subdirs subdir G)) subdirs G)"

definition getSubsystemDependencyDiagram ::
    "'g cgraph \<Rightarrow> (string \<Rightarrow> string) \<Rightarrow> diagram_db \<Rightarrow> string \<Rightarrow> 'g ugraph \<Rightarrow> 'g ugraph answered option" where
  "getSubsystemDependencyDiagram C extension D fileId G =
     bindD (subdirs_of C extension D fileId G) (\<lambda>(subdirs, currentNode, G).
     let subdirs = sort (List.insert currentNode subdirs) in
     for_each (\<lambda>subdir G. Some (draw_directory C extension D True subdirs subdir G)) subdirs G)"

text \<open>Here the directory itself is not inserted into the set.\<close>

definition getExternalUsersDiagram ::
    "'g cgraph \<Rightarrow> (string \<Rightarrow> string) \<Rightarrow> diagram_db \<Rightarrow> string \<Rightarrow> 'g ugraph \<Rightarrow> 'g ugraph answered option" where
  "getExternalUsersDiagram C extension D fileId G =
     bindD (subdirs_of C extension D fileId G) (\<lambda>(subdirs, currentNode, G).
     for_each (\<lambda>subdir.
       searches C subdir
         [(getImplementedFiles C extension D True, revImplementsEdgeDecoration, -1),
          (getDependFiles C extension D True, revDependsEdgeDecoration, -1)]) (sort subdirs) G)"

definition getInterfaceDiagram ::
    "'g cgraph \<Rightarrow> (string \<Rightarrow> string) \<Rightarrow> diagram_db \<Rightarrow> string \<Rightarrow> 'g ugraph \<Rightarrow> 'g ugraph answered option" where
  "getInterfaceDiagram C extension D fileId G =
     bindD (Some (center_node C extension D False fileId G)) (\<lambda>(currentNode, G).
     searches C currentNode
       [(getProvidedFiles C extension D False, providesEdgeDecoration, 1), (getContains C extension D, containsEdgeDecoration, 1),
        (getUsedFiles C extension D False, usagesEdgeDecoration, 1), (getProvidedFiles C extension D True, revProvidesEdgeDecoration, 1),
        (getRevContains C extension D, revContainsEdgeDecoration, 1), (getUsedFiles C extension D True, revUsagesEdgeDecoration, 1)] G)"

section \<open>Legends\<close>

definition file_rows :: "legend_row list" where
  "file_rows =
     [Node_Row ''center file'' centerNodeDecoration False, Node_Row ''directory'' directoryNodeDecoration False,
      Node_Row ''binary file'' binaryFileNodeDecoration False, Node_Row ''source file'' sourceFileNodeDecoration False,
      Node_Row ''header file'' headerFileNodeDecoration False, Node_Row ''object file'' objectFileNodeDecoration False]"

definition file_legend :: "'g cgraph \<Rightarrow> string \<Rightarrow> (string \<times> decoration) list \<Rightarrow> 'g legend option" where
  "file_legend C title edges =
     Option.bind (new_legend C title) (add_rows C (file_rows @ map (\<lambda>(label, attrs). Edge_Row label attrs False) edges))"

definition getComponentUsersDiagramLegend :: "'g cgraph \<Rightarrow> 'g legend option" where
  "getComponentUsersDiagramLegend C = file_legend C ''Component Users Diagram''
     [(''provides'', providesEdgeDecoration), (''used by files'', revUsagesEdgeDecoration), (''contained by'', revContainsEdgeDecoration)]"

definition getIncludeDependencyDiagramLegend :: "'g cgraph \<Rightarrow> 'g legend option" where
  "getIncludeDependencyDiagramLegend C = file_legend C ''Include Dependency Diagram''
     [(''uses'', usagesEdgeDecoration), (''used by files'', revUsagesEdgeDecoration)]"

definition getExternalDependencyDiagramLegend :: "'g cgraph \<Rightarrow> 'g legend option" where
  "getExternalDependencyDiagramLegend C = file_legend C ''External Dependency Diagram''
     [(''sub directory'', subdirEdgeDecoration), (''implements'', implementsEdgeDecoration), (''depends on'', dependsEdgeDecoration)]"

definition getExternalUsersDiagramLegend :: "'g cgraph \<Rightarrow> 'g legend option" where
  "getExternalUsersDiagramLegend C = file_legend C ''External Users Diagram''
     [(''sub directory'', subdirEdgeDecoration), (''implemented by'', revImplementsEdgeDecoration), (''dependent on'', revDependsEdgeDecoration)]"

definition getInterfaceDiagramLegend :: "'g cgraph \<Rightarrow> 'g legend option" where
  "getInterfaceDiagramLegend C = file_legend C ''Interface Diagram''
     [(''provides'', providesEdgeDecoration), (''contains'', containsEdgeDecoration), (''uses'', usagesEdgeDecoration),
      (''provided by'', revProvidesEdgeDecoration), (''contained by'', revContainsEdgeDecoration), (''used by'', revUsagesEdgeDecoration)]"

definition getSubsystemDependencyDiagramLegend :: "'g cgraph \<Rightarrow> 'g legend option" where
  "getSubsystemDependencyDiagramLegend C = file_legend C ''Subsystem Dependency Diagram''
     [(''sub directory'', subdirEdgeDecoration), (''implements'', implementsEdgeDecoration), (''depends on'', dependsEdgeDecoration)]"

section \<open>The relations are those of the tables\<close>

definition files_of :: "diagram_db \<Rightarrow> nat set" where
  "files_of D = (\<lambda>f. unat (sf_id f)) ` set (pd_files (dg_project D))"

definition node_of :: "nat \<Rightarrow> string" where
  "node_of = decimal"

text \<open>Every identifier in the tables is that of a file, and the files of edges have a directory.\<close>

definition diagram_ok :: "diagram_db \<Rightarrow> bool" where
  "diagram_ok D \<longleftrightarrow> project_ok (dg_project D) \<and> snd ` parent_of (dg_project D) \<subseteq> files_of D \<and>
     (\<forall>e \<in> set (dg_edges D). {ed_from e, ed_to e} \<subseteq> fst ` parent_of (dg_project D)) \<and>
     (\<forall>p \<in> set (dg_sources D) \<union> set (dg_targets D). unat (fst p) \<in> files_of D)"

text \<open>Two directories are related if a file in one is related to a file in the other.\<close>

definition file_edges :: "edge_type \<Rightarrow> diagram_db \<Rightarrow> (nat \<times> nat) set" where
  "file_edges type D = {(ed_from e, ed_to e) | e. e \<in> set (dg_edges D) \<and> ed_type e = type}"

definition directory_relation :: "diagram_db \<Rightarrow> (nat \<times> nat) set \<Rightarrow> (nat \<times> nat) set" where
  "directory_relation D R = {(a, b). a \<noteq> b \<and> (\<exists>f g. (f, g) \<in> R \<and> (g, b) \<in> parent_of (dg_project D) \<and>
     (f, a) \<in> parent_of (dg_project D) - directory_parent (dg_project D))}"

definition related_by :: "(nat \<times> nat) set \<Rightarrow> nat \<Rightarrow> nat set" where
  "related_by R i = {j. (i, j) \<in> R}"

lemma node_of_inject [simp]: "node_of i = node_of j \<longleftrightarrow> i = j"
  by (simp add: node_of_def)

lemma node_of_image [simp]: "node_of i \<in> node_of ` A \<longleftrightarrow> i \<in> A"
  by auto

lemma files_of_row:
  assumes "diagram_ok D" "i \<in> files_of D"
  obtains f where "f \<in> set (pd_files (dg_project D))" "i = unat (sf_id f)" "file_at (dg_project D) i = Some f"
    "stoull (node_of i) = Inr i" "getFileInfo (dg_project D) (node_of i) = Inr (makeFileInfo f)" "fi_id (makeFileInfo f) = node_of i"
proof -
  from assms(2) obtain f where f: "f \<in> set (pd_files (dg_project D))" "i = unat (sf_id f)" by (auto simp: files_of_def)
  moreover have "project_ok (dg_project D)" using assms(1) by (simp add: diagram_ok_def)
  ultimately show thesis using that [OF f] file_at_row [of "dg_project D" f] core_info_of_row [of "dg_project D" f] by (simp add: node_of_def)
qed

lemma parent_file: "(i, p) \<in> parent_of (dg_project D) \<Longrightarrow> i \<in> files_of D"
  by (auto simp: parent_of_def files_of_def)

text \<open>What a relation on identifiers computes, where it is defined.\<close>

definition computes :: "diagram_db \<Rightarrow> (string \<Rightarrow> string list answered) \<Rightarrow> (nat \<times> nat) set \<Rightarrow> bool" where
  "computes D ids R \<longleftrightarrow> (\<forall>i \<in> files_of D. \<exists>js. ids (node_of i) = Inr js \<and> set js = node_of ` related_by R i) \<and> R `` files_of D \<subseteq> files_of D"

lemma computesI:
  assumes "diagram_ok D" "R \<subseteq> UNIV \<times> files_of D"
    and "\<And>i. stoull (node_of i) = Inr i \<Longrightarrow> ids (node_of i) = Inr (map node_of (js i)) \<and> set (js i) = related_by R i"
  shows "computes D ids R"
  using assms(2,3) unfolding computes_def by (auto elim!: files_of_row [OF assms(1)])

lemma edge_ids_compute:
  assumes "diagram_ok D"
  shows "computes D (\<lambda>i. edge_file_ids type D i False) (file_edges type D)"
    "computes D (\<lambda>i. edge_file_ids type D i True) ((file_edges type D)\<inverse>)"
proof -
  have "fst ` parent_of (dg_project D) \<subseteq> files_of D" using parent_file by force
  then have "{ed_from e, ed_to e} \<subseteq> files_of D" if "e \<in> set (dg_edges D)" for e
    using assms that unfolding diagram_ok_def by blast
  then have "file_edges type D \<subseteq> files_of D \<times> files_of D" by (auto simp: file_edges_def)
  then have sub: "file_edges type D \<subseteq> UNIV \<times> files_of D" "(file_edges type D)\<inverse> \<subseteq> UNIV \<times> files_of D" by auto
  show "computes D (\<lambda>i. edge_file_ids type D i False) (file_edges type D)"
    by (rule computesI [OF assms sub(1), where js = "\<lambda>i. map ed_to (filter (\<lambda>e. ed_from e = i \<and> ed_type e = type) (dg_edges D))"],
      rule conjI, simp add: edge_file_ids_def node_of_def) (auto simp: related_by_def file_edges_def)
  show "computes D (\<lambda>i. edge_file_ids type D i True) ((file_edges type D)\<inverse>)"
    by (rule computesI [OF assms sub(2), where js = "\<lambda>i. map ed_from (filter (\<lambda>e. ed_to e = i \<and> ed_type e = type) (dg_edges D))"],
      rule conjI, simp add: edge_file_ids_def node_of_def) (auto simp: related_by_def file_edges_def)
qed

lemma subdir_ids_compute:
  assumes "diagram_ok D"
  shows "computes D (subdir_ids D) ((directory_parent (dg_project D))\<inverse>)"
proof (rule computesI [OF assms])
  show "(directory_parent (dg_project D))\<inverse> \<subseteq> UNIV \<times> files_of D" by (auto simp: directory_parent_def files_of_def)
  fix i
  let ?js = "\<lambda>i. map (\<lambda>f. unat (sf_id f)) (filter (\<lambda>f. sf_type f = DIRECTORY_TYPE) (child_rows (dg_project D) i))"
  assume "stoull (node_of i) = Inr i"
  then show "subdir_ids D (node_of i) = Inr (map node_of (?js i)) \<and> set (?js i) = related_by ((directory_parent (dg_project D))\<inverse>) i"
    by (auto simp: subdir_ids_def related_by_def directory_parent_def child_rows_parent node_of_def)
qed

definition contains_edges :: "diagram_db \<Rightarrow> (nat \<times> nat) set" where
  "contains_edges D = {(i, j). \<exists>t \<in> set (dg_targets D). \<exists>s \<in> set (dg_sources D). snd s = snd t \<and> unat (fst t) = i \<and> unat (fst s) = j}"

lemma set_joined: "j \<in> set (joined xs ys i) \<longleftrightarrow> (\<exists>x \<in> set xs. \<exists>y \<in> set ys. snd y = snd x \<and> unat (fst x) = i \<and> unat (fst y) = j)"
proof -
  have "set (joined xs ys i) = (\<Union>x \<in> {x \<in> set xs. unat (fst x) = i}. (\<lambda>y. unat (fst y)) ` {y \<in> set ys. snd y = snd x})"
    by (simp add: joined_def)
  then show ?thesis by (simp only:) blast
qed

lemma joined_contains:
  "set (joined (dg_targets D) (dg_sources D) i) = related_by (contains_edges D) i"
  "set (joined (dg_sources D) (dg_targets D) i) = related_by ((contains_edges D)\<inverse>) i"
proof -
  show "set (joined (dg_targets D) (dg_sources D) i) = related_by (contains_edges D) i"
    unfolding related_by_def contains_edges_def set_eq_iff set_joined by blast
  show "set (joined (dg_sources D) (dg_targets D) i) = related_by ((contains_edges D)\<inverse>) i"
    unfolding related_by_def contains_edges_def set_eq_iff set_joined converse_iff mem_Collect_eq prod.case by metis
qed

lemma contains_ids_compute:
  assumes "diagram_ok D"
  shows "computes D (contains_ids D) (contains_edges D)" "computes D (rev_contains_ids D) ((contains_edges D)\<inverse>)"
proof -
  have ids: "unat (fst p) \<in> files_of D" if "p \<in> set (dg_sources D) \<union> set (dg_targets D)" for p
    using assms that unfolding diagram_ok_def by blast
  have "contains_edges D \<subseteq> files_of D \<times> files_of D"
    using ids by (force simp: contains_edges_def)
  then have sub: "contains_edges D \<subseteq> UNIV \<times> files_of D" "(contains_edges D)\<inverse> \<subseteq> UNIV \<times> files_of D" by auto
  show "computes D (contains_ids D) (contains_edges D)"
    by (rule computesI [OF assms sub(1), where js = "joined (dg_targets D) (dg_sources D)"], rule conjI,
      simp add: contains_ids_def node_of_def) (simp add: joined_contains)
  show "computes D (rev_contains_ids D) ((contains_edges D)\<inverse>)"
    by (rule computesI [OF assms sub(2), where js = "\<lambda>i. rev (remdups (rev (joined (dg_sources D) (dg_targets D) i)))"], rule conjI,
      simp add: rev_contains_ids_def node_of_def) (simp add: joined_contains)
qed

definition answer :: "'a list answered \<Rightarrow> 'a list" where
  "answer m = (case m of Inl e \<Rightarrow> [] | Inr xs \<Rightarrow> xs)"

lemma computesD:
  assumes "computes D ids R" "i \<in> files_of D"
  shows "ids (node_of i) = Inr (answer (ids (node_of i)))" "set (answer (ids (node_of i))) = node_of ` related_by R i"
    "related_by R i \<subseteq> files_of D"
  using assms by (auto simp: computes_def answer_def related_by_def)

lemma plain_children:
  assumes "diagram_ok D"
  shows "(\<lambda>f. unat (sf_id f)) ` {f \<in> set (child_rows (dg_project D) i). sf_type f \<noteq> DIRECTORY_TYPE} =
    {f. (f, i) \<in> parent_of (dg_project D) - directory_parent (dg_project D)}" (is "?L = ?R")
proof -
  have ok: "project_ok (dg_project D)" using assms by (simp add: diagram_ok_def)
  show ?thesis
  proof (intro set_eqI iffI)
    fix x
    assume "x \<in> ?L"
    then obtain f p where f: "f \<in> set (pd_files (dg_project D))" "sf_parent f = Some p" "unat p = i" "sf_type f \<noteq> DIRECTORY_TYPE" "x = unat (sf_id f)"
      by (auto simp: child_rows_parent)
    have "(x, i) \<notin> directory_parent (dg_project D)"
    proof
      assume "(x, i) \<in> directory_parent (dg_project D)"
      then obtain g where g: "g \<in> set (pd_files (dg_project D))" "unat (sf_id g) = x" "sf_type g = DIRECTORY_TYPE"
        by (auto simp: directory_parent_def)
      have "f = g" by (rule row_unique [OF ok f(1) g(1)]) (simp only: f(5) g(2))
      then show False using f(4) g(3) by simp
    qed
    then show "x \<in> ?R" using f by (auto simp: parent_of_def)
  next
    fix x
    assume "x \<in> ?R"
    then obtain f p where f: "f \<in> set (pd_files (dg_project D))" "sf_parent f = Some p" "unat p = i" "x = unat (sf_id f)"
      "(x, i) \<notin> directory_parent (dg_project D)" by (auto simp: parent_of_def)
    then have "sf_type f \<noteq> DIRECTORY_TYPE" by (auto simp: directory_parent_def)
    then show "x \<in> ?L" using f by (auto simp: child_rows_parent)
  qed
qed

lemma map_E_set: "map_E f xs = Inr ys \<Longrightarrow> y \<in> set ys \<longleftrightarrow> (\<exists>x \<in> set xs. f x = Inr y)"
  unfolding map_E_list_all2 by (induction rule: list_all2_induct) auto

lemma directory_ids_compute:
  assumes ok: "diagram_ok D" and ids: "computes D (\<lambda>i. ids D i reverse) R" and snd: "snd ` R \<subseteq> fst ` parent_of (dg_project D)"
    and parents: "\<And>j p. (j, p) \<in> parent_of (dg_project D) \<Longrightarrow> parents D (node_of j) = Inr [node_of p]"
  shows "computes D (\<lambda>i. directory_ids ids parents D i reverse) (directory_relation D R)"
proof -
  let ?P = "parent_of (dg_project D)"
  have "\<exists>js. directory_ids ids parents D (node_of i) reverse = Inr js \<and> set js = node_of ` related_by (directory_relation D R) i"
    if i: "i \<in> files_of D" for i
  proof -
    let ?fs = "filter (\<lambda>f. sf_type f \<noteq> DIRECTORY_TYPE) (child_rows (dg_project D) i)"
    let ?files = "map (\<lambda>f. answer (ids D (node_of (unat (sf_id f))) reverse)) ?fs"
    let ?js = "remdups (concat ?files)"
    have stoull: "stoull (node_of i) = Inr i" by (rule files_of_row [OF ok i])
    have in_files: "unat (sf_id f) \<in> files_of D" if "f \<in> set ?fs" for f using that by (auto simp: child_rows_parent files_of_def)
    have files: "map_E (\<lambda>f. ids D (decimal (unat (sf_id f))) reverse) ?fs = Inr ?files"
      by (rule map_E_map) (use computesD(1) [OF ids in_files] in \<open>simp add: node_of_def\<close>)
    have "set ?js = (\<Union>f \<in> (\<lambda>f. unat (sf_id f)) ` set ?fs. node_of ` related_by R f)"
      using computesD(2) [OF ids in_files] by simp
    also have "(\<lambda>f. unat (sf_id f)) ` set ?fs = {f. (f, i) \<in> ?P - directory_parent (dg_project D)}"
      using plain_children [OF ok, of i] by simp
    finally have js: "set ?js = (\<Union>f \<in> {f. (f, i) \<in> ?P - directory_parent (dg_project D)}. node_of ` related_by R f)" .
    have parent: "\<exists>j p. x = node_of j \<and> (j, p) \<in> ?P \<and> parents D x = Inr [node_of p]" if x: "x \<in> set ?js" for x
    proof -
      from x obtain f j where "(f, j) \<in> R" "x = node_of j" unfolding js by (auto simp: related_by_def)
      moreover from this obtain p where "(j, p) \<in> ?P" using snd by force
      ultimately show ?thesis using parents by blast
    qed
    then obtain dirs where dirs: "map_E (parents D) ?js = Inr dirs" using map_E_Inr [of ?js "parents D"] by blast
    have "set (concat dirs) = {node_of p | j p. node_of j \<in> set ?js \<and> (j, p) \<in> ?P}"
    proof (intro set_eqI iffI)
      fix x
      assume "x \<in> set (concat dirs)"
      then obtain ys where ys: "ys \<in> set dirs" "x \<in> set ys" by auto
      then obtain y where y: "y \<in> set ?js" "parents D y = Inr ys" "x \<in> set ys" using map_E_set [OF dirs, of ys] by blast
      from parent [OF y(1)] obtain j p where j: "y = node_of j" "(j, p) \<in> ?P" "parents D y = Inr [node_of p]" by blast
      then have "x = node_of p" using y(2,3) by auto
      then show "x \<in> {node_of p | j p. node_of j \<in> set ?js \<and> (j, p) \<in> ?P}" using y(1) j(1,2) by blast
    next
      fix x
      assume "x \<in> {node_of p | j p. node_of j \<in> set ?js \<and> (j, p) \<in> ?P}"
      then obtain j p where "x = node_of p" "node_of j \<in> set ?js" "(j, p) \<in> ?P" by blast
      moreover from this have "[node_of p] \<in> set dirs" using map_E_set [OF dirs, of "[node_of p]"] parents by blast
      ultimately show "x \<in> set (concat dirs)" by force
    qed
    also have "\<dots> = node_of ` {p. \<exists>f j. (f, i) \<in> ?P - directory_parent (dg_project D) \<and> (f, j) \<in> R \<and> (j, p) \<in> ?P}"
      unfolding js by (auto simp: related_by_def)
    finally have "set (concat dirs) - {node_of i} = node_of ` related_by (directory_relation D R) i"
      by (auto simp: related_by_def directory_relation_def)
    moreover have "directory_ids ids parents D (node_of i) reverse = Inr (filter (\<lambda>n. n \<noteq> node_of i) (remdups_adj (sort (concat dirs))))"
      by (simp add: directory_ids_def files dirs stoull)
    ultimately show ?thesis by auto
  qed
  moreover have "snd ` ?P \<subseteq> files_of D" using ok by (simp add: diagram_ok_def)
  then have "directory_relation D R `` files_of D \<subseteq> files_of D" by (force simp: directory_relation_def)
  ultimately show ?thesis by (simp add: computes_def)
qed

lemma directory_ids_computed:
  assumes ok: "diagram_ok D"
  shows "computes D (\<lambda>i. implemented_ids D i False) (directory_relation D (file_edges PROVIDE D))"
    "computes D (\<lambda>i. implemented_ids D i True) (directory_relation D ((file_edges PROVIDE D)\<inverse>))"
    "computes D (\<lambda>i. depend_ids D i False) (directory_relation D (file_edges USE D))"
    "computes D (\<lambda>i. depend_ids D i True) (directory_relation D ((file_edges USE D)\<inverse>))"
proof -
  have ends: "{ed_from e, ed_to e} \<subseteq> fst ` parent_of (dg_project D)" if "e \<in> set (dg_edges D)" for e
    using ok that unfolding diagram_ok_def by blast
  have snd: "snd ` file_edges type D \<subseteq> fst ` parent_of (dg_project D)" "snd ` ((file_edges type D)\<inverse>) \<subseteq> fst ` parent_of (dg_project D)" for type
    using ends by (auto simp: file_edges_def)
  have row: "\<exists>f q. file_at (dg_project D) j = Some f \<and> stoull (node_of j) = Inr j \<and> sf_parent f = Some q \<and> unat q = p \<and>
      filter (\<lambda>f. unat (sf_id f) = j) (pd_files (dg_project D)) = [f]" if "(j, p) \<in> parent_of (dg_project D)" for j p
  proof -
    from that obtain f q where f: "f \<in> set (pd_files (dg_project D))" "j = unat (sf_id f)" "sf_parent f = Some q" "unat q = p"
      by (auto simp: parent_of_def)
    have pok: "project_ok (dg_project D)" using ok by (simp add: diagram_ok_def)
    have "filter (\<lambda>g. unat (sf_id g) = j) (pd_files (dg_project D)) = [f]"
    proof (rule distinct_single)
      show "distinct (filter (\<lambda>g. unat (sf_id g) = j) (pd_files (dg_project D)))"
        using pok by (simp add: project_ok_def distinct_map)
      have "g = f" if "g \<in> set (pd_files (dg_project D))" "unat (sf_id g) = j" for g
        by (rule row_unique [OF pok that(1) f(1)]) (simp only: that(2) f(2))
      then show "set (filter (\<lambda>g. unat (sf_id g) = j) (pd_files (dg_project D))) = {f}" using f(1,2) by auto
    qed
    then show ?thesis using f file_at_row [OF pok f(1)] by (auto simp: node_of_def)
  qed
  have parents: "loaded_parent D (node_of j) = Inr [node_of p]" "queried_parents D (node_of j) = Inr [node_of p]"
    if "(j, p) \<in> parent_of (dg_project D)" for j p
    using row [OF that] by (auto simp: loaded_parent_def queried_parents_def parent_id_def node_of_def)
  show "computes D (\<lambda>i. implemented_ids D i False) (directory_relation D (file_edges PROVIDE D))"
    "computes D (\<lambda>i. implemented_ids D i True) (directory_relation D ((file_edges PROVIDE D)\<inverse>))"
    "computes D (\<lambda>i. depend_ids D i False) (directory_relation D (file_edges USE D))"
    "computes D (\<lambda>i. depend_ids D i True) (directory_relation D ((file_edges USE D)\<inverse>))"
    unfolding implemented_ids_def depend_ids_def getProvidedFileIds_def getUsedFileIds_def
    by (rule directory_ids_compute [OF ok, where ids = "edge_file_ids PROVIDE" and parents = loaded_parent]
          directory_ids_compute [OF ok, where ids = "edge_file_ids USE" and parents = queried_parents],
        rule edge_ids_compute [OF ok], rule snd, erule parents)+
qed

section \<open>What is has_graph\<close>

lemma pointer_wp: "wpG m (\<lambda>x. \<exists>y. pointer (k x) = Inr y \<and> Q y) \<Longrightarrow> \<exists>y. pointer (Option.bind m k) = Inr y \<and> Q y"
  by (auto simp: wpG_def)

lemma pointer_Some: "wpG m Q \<Longrightarrow> \<exists>y. pointer m = Inr y \<and> Q y"
  by (auto simp: wpG_def pointer_def)

lemma file_addNode_grown:
  assumes C: "cgraph_laws C" and G: "valid_ids G" and i: "fi_id info \<noteq> []"
  shows "\<exists>G'. file_addNode C extension info G = Inr (fi_id info, G') \<and> grown C {fi_id info} {} G G'"
proof -
  obtain G1 where G1: "getOrCreateNode C (fi_id info) [] G = Some (fi_id info, G1)" "grown C {fi_id info} {} G G1"
    using getOrCreateNode_grown [OF C G i, of "[]"] by blast
  have n1: "fi_id info \<in> node_set C G1" using grown_nodes [OF G1(2)] by simp
  obtain G2 where G2: "setNodeAttribute C (fi_id info) ''label'' (getLastNParts (fi_path info) 3) False G1 = Some G2" "grown C {} {} G1 G2"
    using setNodeAttribute_grown [OF C grown_valid [OF G1(2)] n1] by blast
  have n2: "fi_id info \<in> node_set C G2" using grown_nodes [OF G2(2)] n1 by simp
  obtain G3 where G3: "decorateNode C (fi_id info) (file_decoration extension info) False G2 = Some G3" "grown C {} {} G2 G3"
    using decorateNode_grown [OF C grown_valid [OF G2(2)] n2] by blast
  show ?thesis using G1(1) G2(1) G3(1) grown_trans [OF grown_trans [OF G1(2) G2(2)] G3(2)]
    by (auto simp: file_addNode_def pointer_def)
qed

lemma decimal_not_Nil [simp]: "decimal n \<noteq> []"
  using decimal_digits by blast

lemma add_files_grown:
  assumes ok: "diagram_ok D" and C: "cgraph_laws C" and "valid_ids G" "set fs \<subseteq> node_of ` files_of D"
  shows "\<exists>G'. add_files C extension D fs G = Inr (fs, G') \<and> grown C (set fs) {} G G'"
  using assms(3,4)
proof (induction fs arbitrary: G)
  case Nil
  then show ?case by (simp add: grown_refl)
next
  case (Cons x fs)
  then obtain i where i: "i \<in> files_of D" "x = node_of i" by auto
  then obtain f where f: "getFileInfo (dg_project D) x = Inr (makeFileInfo f)" "fi_id (makeFileInfo f) = x"
    by (metis files_of_row [OF ok])
  have "fi_id (makeFileInfo f) \<noteq> []" by simp
  from file_addNode_grown [OF C Cons.prems(1) this, of extension] obtain G1 where
    G1: "file_addNode C extension (makeFileInfo f) G = Inr (x, G1)" "grown C {x} {} G G1" unfolding f(2) by blast
  obtain G2 where G2: "add_files C extension D fs G1 = Inr (fs, G2)" "grown C (set fs) {} G1 G2"
    using Cons.IH [OF grown_valid [OF G1(2)]] Cons.prems(2) by auto
  show ?case using f(1) G1(1) G2(1) grown_trans [OF G1(2) G2(2)] by auto
qed

text \<open>The nodes that a relation adds.\<close>

lemma file_relation_adds:
  assumes ok: "diagram_ok D" and C: "cgraph_laws C" and ids: "computes D ids R"
  shows "relation_adds C (node_of ` files_of D) (\<lambda>i. answer (ids i)) (file_relation C extension D ids)"
  unfolding relation_adds_def
proof (intro ballI conjI allI impI)
  fix node
  assume "node \<in> node_of ` files_of D"
  then obtain i where i: "i \<in> files_of D" "node = node_of i" by blast
  show sub: "set (answer (ids node)) \<subseteq> node_of ` files_of D" using computesD(2,3) [OF ids i(1)] i(2) by auto
  obtain js where js: "ids node = Inr js" using ids i by (auto simp: computes_def)
  fix G :: "'a ugraph"
  assume "valid_ids G"
  from add_files_grown [OF ok C this sub, of extension]
  show "\<exists>G'. file_relation C extension D ids node G = Inr (answer (ids node), G') \<and> grown C (set (answer (ids node))) {} G G'"
    by (auto simp: file_relation_def js answer_def)
qed

definition node_edges :: "(nat \<times> nat) set \<Rightarrow> (string \<times> string) set" where
  "node_edges S = map_prod node_of node_of ` S"

lemma node_edges_iff: "(a, b) \<in> node_edges S \<longleftrightarrow> (\<exists>i j. a = node_of i \<and> b = node_of j \<and> (i, j) \<in> S)"
  by (auto simp: node_edges_def)

lemma search_closure:
  assumes ids: "computes D ids R" and i: "i \<in> files_of D"
  shows "(edges_of (\<lambda>i. answer (ids i)))\<^sup>+ `` {node_of i} = node_of ` (R\<^sup>+ `` {i})" "R\<^sup>+ `` {i} \<subseteq> files_of D"
proof -
  let ?E = "edges_of (\<lambda>i. answer (ids i))"
  have succ: "(node_of a, y) \<in> ?E \<longleftrightarrow> (\<exists>b. y = node_of b \<and> (a, b) \<in> R)" if "a \<in> files_of D" for a y
    using computesD(2) [OF ids that] by (auto simp: related_by_def)
  have closed: "b \<in> files_of D" if "a \<in> files_of D" "(a, b) \<in> R" for a b
    using computesD(3) [OF ids that(1)] that(2) by (auto simp: related_by_def)
  have forth: "\<exists>b. y = node_of b \<and> (i, b) \<in> R\<^sup>+ \<and> b \<in> files_of D" if "(node_of i, y) \<in> ?E\<^sup>+" for y
    using that
  proof (induction rule: trancl_induct)
    case (base y)
    then show ?case using succ [OF i] closed [OF i] by (blast intro: r_into_trancl)
  next
    case (step y z)
    then obtain a where a: "y = node_of a" "(i, a) \<in> R\<^sup>+" "a \<in> files_of D" by blast
    moreover from this obtain b where "z = node_of b" "(a, b) \<in> R" using step.hyps(2) succ [of a z] by auto
    ultimately show ?case using closed by (blast intro: trancl_into_trancl)
  qed
  have only: "(node_of i, node_of b) \<in> ?E\<^sup>+ \<and> b \<in> files_of D" if "(i, b) \<in> R\<^sup>+" for b
    using that
  proof (induction rule: trancl_induct)
    case (base b)
    then show ?case using succ [OF i] closed [OF i] by (blast intro: r_into_trancl)
  next
    case (step a b)
    then have "(node_of a, node_of b) \<in> ?E" "b \<in> files_of D" using succ [of a "node_of b"] closed by blast+
    then show ?case using step.IH by (blast intro: trancl_into_trancl)
  qed
  show "?E\<^sup>+ `` {node_of i} = node_of ` (R\<^sup>+ `` {i})" using forth only by blast
  show "R\<^sup>+ `` {i} \<subseteq> files_of D" using only by blast
qed

lemma search_all:
  assumes ok: "diagram_ok D" and C: "cgraph_laws C" and ids: "computes D ids R" and i: "i \<in> files_of D"
    and G: "valid_ids G" "node_of i \<in> node_set C G"
  shows "\<exists>r G'. search C (node_of i) (file_relation C extension D ids) attrs (-1) G = Some (Inr (r, G')) \<and> distinct r \<and>
    set r = node_of ` (R\<^sup>+ `` {i}) \<and> grown C (set r) (node_edges {(a, b) \<in> R. (i, a) \<in> R\<^sup>*}) G G'"
proof -
  let ?succs = "\<lambda>i. answer (ids i)"
  have "finite ((edges_of ?succs)\<^sup>+ `` {node_of i})" unfolding search_closure(1) [OF ids i]
    using search_closure(2) [OF ids i] by (intro finite_imageI) (auto intro: finite_subset simp: files_of_def)
  with bfs_build_all [OF C file_relation_adds [OF ok C ids, of extension] G] i obtain r G' where
    r: "search C (node_of i) (file_relation C extension D ids) attrs (-1) G = Some (Inr (r, G'))" "distinct r"
      "set r = node_of ` (R\<^sup>+ `` {i})" "grown C (set r) (edges_from ?succs (insert (node_of i) (set r))) G G'"
    unfolding search_def search_closure(1) [OF ids i] by blast
  have "insert (node_of i) (set r) = node_of ` {a. (i, a) \<in> R\<^sup>*}" unfolding r(3) by (auto simp: rtrancl_eq_or_trancl)
  moreover have "{a. (i, a) \<in> R\<^sup>*} \<subseteq> files_of D" using search_closure(2) [OF ids i] i by (auto simp: rtrancl_eq_or_trancl)
  ultimately have "edges_from ?succs (insert (node_of i) (set r)) = node_edges {(a, b) \<in> R. (i, a) \<in> R\<^sup>*}"
    using computesD(2) [OF ids] by (fastforce simp: edges_from_def node_edges_iff related_by_def)
  then show ?thesis using r by auto
qed

lemma search_one:
  assumes ok: "diagram_ok D" and C: "cgraph_laws C" and ids: "computes D ids R" and i: "i \<in> files_of D"
    and G: "valid_ids G" "node_of i \<in> node_set C G"
  shows "\<exists>r G'. search C (node_of i) (file_relation C extension D ids) attrs 1 G = Some (Inr (r, G')) \<and>
    set r = node_of ` related_by R i \<and> grown C (set r) (node_edges ({i} \<times> related_by R i)) G G'"
proof -
  have "{node_of i} \<times> node_of ` related_by R i = node_edges ({i} \<times> related_by R i)" by (auto simp: node_edges_iff)
  then show ?thesis
    using bfs_one_level [OF C file_relation_adds [OF ok C ids, of extension] G, of Undefined "[]" attrs] i computesD(2) [OF ids i]
    by (auto simp: search_def)
qed

definition has_graph :: "'g cgraph \<Rightarrow> string set \<Rightarrow> (string \<times> string) set \<Rightarrow> 'g ugraph \<Rightarrow> bool" where
  "has_graph C V E G \<longleftrightarrow> gstate C V E {} {} G"

lemma has_graph_iff: "has_graph C V E G \<longleftrightarrow> cgraph_laws C \<and> valid_ids G \<and> node_set C G = V \<and> edge_set C G = E"
  by (simp add: has_graph_def gstate_def)

lemma has_graph_grown: "has_graph C V E G \<Longrightarrow> grown C N F G G' \<Longrightarrow> has_graph C (V \<union> N) (E \<union> F) G'"
  unfolding has_graph_def by (rule gstate_grown)

lemma draw_edge_drawn:
  assumes "has_graph C V E G" "a \<in> V" "b \<in> V"
  shows "\<exists>G'. draw_edge C a b attrs G = Inr G' \<and> has_graph C V (insert (a, b) E) G'"
proof -
  have "wpG (Option.bind (createEdge C a b G) (\<lambda>(edge, G). decorateEdge C edge attrs False G)) (has_graph C V (insert (a, b) E))"
    by (rule graph_rules assms(2,3) assms(1) [unfolded has_graph_def] | assumption | simp)+ (auto simp: has_graph_def gstate_def)
  then show ?thesis unfolding draw_edge_def by (rule pointer_Some)
qed

text \<open>Of the directories found, those inside the subtree get an edge and the others are deleted again.\<close>

lemma draw_related_inside:
  assumes "has_graph C (W \<union> set nodes) E G" "E \<subseteq> W \<times> W" "set subdirs = W" "d \<in> W" "distinct nodes"
  shows "\<exists>G'. draw_related C True subdirs d attrs nodes G = Inr G' \<and> has_graph C W (E \<union> {d} \<times> (set nodes \<inter> W)) G'"
  using assms(1,2,5)
proof (induction nodes arbitrary: E G)
  case (Cons n nodes)
  show ?case
  proof (cases "n \<in> W")
    case True
    then obtain G1 where G1: "draw_edge C d n attrs G = Inr G1" "has_graph C (W \<union> set (n # nodes)) (insert (d, n) E) G1"
      using draw_edge_drawn [OF Cons.prems(1), of d n attrs] assms(4) by auto
    have "W \<union> set (n # nodes) = W \<union> set nodes" using True by auto
    moreover have "insert (d, n) E \<subseteq> W \<times> W" using Cons.prems(2) True assms(4) by simp
    ultimately obtain G2 where G2: "draw_related C True subdirs d attrs nodes G1 = Inr G2"
      "has_graph C W (insert (d, n) E \<union> {d} \<times> (set nodes \<inter> W)) G2" using Cons.IH [of "insert (d, n) E" G1] G1(2) Cons.prems(3) by auto
    have "insert (d, n) E \<union> {d} \<times> (set nodes \<inter> W) = E \<union> {d} \<times> (set (n # nodes) \<inter> W)" using True by auto
    then show ?thesis using G1(1) G2 True assms(3) by simp
  next
    case False
    have "wpG (delNode C n G) (has_graph C (W \<union> set (n # nodes) - {n}) {(a, b) \<in> E. a \<noteq> n \<and> b \<noteq> n})"
      unfolding has_graph_def by (rule wpG_delNode [OF Cons.prems(1) [unfolded has_graph_def]]) auto
    then obtain G1 where G1: "pointer (delNode C n G) = Inr G1"
      "has_graph C (W \<union> set (n # nodes) - {n}) {(a, b) \<in> E. a \<noteq> n \<and> b \<noteq> n} G1" using pointer_Some by blast
    have "W \<union> set (n # nodes) - {n} = W \<union> set nodes" "{(a, b) \<in> E. a \<noteq> n \<and> b \<noteq> n} = E"
      using False Cons.prems(2,3) by auto
    with Cons.IH [of E G1] G1(2) Cons.prems(2,3) obtain G2 where
      "draw_related C True subdirs d attrs nodes G1 = Inr G2" "has_graph C W (E \<union> {d} \<times> (set nodes \<inter> W)) G2" by auto
    then show ?thesis using G1(1) False assms(3) by auto
  qed
qed auto

lemma draw_related_outside:
  assumes "has_graph C V E G" "set nodes \<subseteq> V" "d \<in> V"
  shows "\<exists>G'. draw_related C False subdirs d attrs nodes G = Inr G' \<and> has_graph C V (E \<union> {d} \<times> (set nodes - set subdirs)) G'"
  using assms(1,2)
proof (induction nodes arbitrary: E G)
  case (Cons n nodes)
  show ?case
  proof (cases "n \<in> set subdirs")
    case True
    then show ?thesis using Cons by auto
  next
    case False
    then obtain G1 where G1: "draw_edge C d n attrs G = Inr G1" "has_graph C V (insert (d, n) E) G1"
      using draw_edge_drawn [OF Cons.prems(1), of d n attrs] Cons.prems(2) assms(3) by auto
    then obtain G2 where G2: "draw_related C False subdirs d attrs nodes G1 = Inr G2"
      "has_graph C V (insert (d, n) E \<union> {d} \<times> (set nodes - set subdirs)) G2" using Cons.IH [of "insert (d, n) E" G1] Cons.prems(2) by auto
    have "insert (d, n) E \<union> {d} \<times> (set nodes - set subdirs) = E \<union> {d} \<times> (set (n # nodes) - set subdirs)" using False by auto
    then show ?thesis using G1(1) G2 False by simp
  qed
qed auto

lemma remdups_adj_sorted: "sorted xs \<Longrightarrow> distinct (remdups_adj xs)"
  by (induction xs rule: remdups_adj.induct) (auto simp: less_le)

lemma directory_ids_distinct: "distinct (answer (directory_ids ids parents D node reverse))"
  by (auto simp: directory_ids_def answer_def bindE_def remdups_adj_sorted split: sum.splits)

lemma for_each_inv:
  assumes "\<And>A x G. x \<in> set xs \<Longrightarrow> I A G \<Longrightarrow> \<exists>G'. f x G = Some (Inr G') \<and> I (insert x A) G'" "I A G"
  shows "\<exists>G'. for_each f xs G = Some (Inr G') \<and> I (A \<union> set xs) G'"
  using assms
proof (induction xs arbitrary: A G)
  case (Cons x xs)
  from Cons.prems obtain G1 where G1: "f x G = Some (Inr G1)" "I (insert x A) G1" by fastforce
  from Cons.IH [OF Cons.prems(1) G1(2)] obtain G2 where "for_each f xs G1 = Some (Inr G2)" "I (insert x A \<union> set xs) G2" by auto
  then show ?case using G1(1) by (simp add: bindD_def)
qed auto

text \<open>The directories of the subtree of \<open>i\<close>.\<close>

definition subtree_dirs :: "diagram_db \<Rightarrow> nat \<Rightarrow> nat set" where
  "subtree_dirs D i = {a. (a, i) \<in> (directory_parent (dg_project D))\<^sup>*}"

definition subdir_edges :: "diagram_db \<Rightarrow> nat \<Rightarrow> (nat \<times> nat) set" where
  "subdir_edges D i = {(a, b). (b, a) \<in> directory_parent (dg_project D) \<and> a \<in> subtree_dirs D i}"

text \<open>From a directory to those whose files it provides or uses.\<close>

definition module_edges :: "diagram_db \<Rightarrow> (nat \<times> nat) set" where
  "module_edges D = directory_relation D (file_edges PROVIDE D) \<union> directory_relation D (file_edges USE D)"

lemma center_node_drawn:
  assumes ok: "diagram_ok D" and i: "i \<in> files_of D" and G: "has_graph C V E G"
  shows "\<exists>G'. center_node C extension D b (node_of i) G = Inr (node_of i, G') \<and> has_graph C (insert (node_of i) V) E G'"
proof -
  have C: "cgraph_laws C" "valid_ids G" using G by (simp_all add: has_graph_iff)
  obtain f where f: "getFileInfo (dg_project D) (node_of i) = Inr (makeFileInfo f)" "fi_id (makeFileInfo f) = node_of i"
    by (rule files_of_row [OF ok i])
  have "fi_id (makeFileInfo f) \<noteq> []" by simp
  from file_addNode_grown [OF C this, of extension] obtain G1 where
    G1: "file_addNode C extension (makeFileInfo f) G = Inr (node_of i, G1)" "grown C {node_of i} {} G G1" unfolding f(2) by blast
  have d1: "has_graph C (insert (node_of i) V) E G1" using has_graph_grown [OF G G1(2)] by simp
  have "node_of i \<in> node_set C G1" using d1 by (simp add: has_graph_iff)
  from decorateNode_grown [OF C(1) grown_valid [OF G1(2)] this, of centerNodeDecoration False] obtain G2 where
    G2: "decorateNode C (node_of i) centerNodeDecoration False G1 = Some G2" "grown C {} {} G1 G2" by blast
  have d2: "has_graph C (insert (node_of i) V) E G2" using has_graph_grown [OF d1 G2(2)] by simp
  show ?thesis using f(1) G1(1) G2(1) d1 d2 by (cases b) (simp_all add: center_node_def pointer_def)
qed

lemma subtree_dirs_files:
  assumes "diagram_ok D" "i \<in> files_of D"
  shows "subtree_dirs D i \<subseteq> files_of D" "subtree_dirs D i = insert i (((directory_parent (dg_project D))\<inverse>)\<^sup>+ `` {i})"
proof -
  show eq: "subtree_dirs D i = insert i (((directory_parent (dg_project D))\<inverse>)\<^sup>+ `` {i})"
    by (auto simp: subtree_dirs_def rtrancl_eq_or_trancl trancl_converse)
  show "subtree_dirs D i \<subseteq> files_of D"
    using search_closure(2) [OF subdir_ids_compute [OF assms(1)] assms(2)] assms(2) unfolding eq by blast
qed

lemma subdirs_of_drawn:
  assumes ok: "diagram_ok D" and i: "i \<in> files_of D" and G: "has_graph C {} {} G"
  shows "\<exists>subdirs G'. subdirs_of C extension D (node_of i) G = Some (Inr (subdirs, node_of i, G')) \<and>
    insert (node_of i) (set subdirs) = node_of ` subtree_dirs D i \<and>
    set subdirs = node_of ` (((directory_parent (dg_project D))\<inverse>)\<^sup>+ `` {i}) \<and> distinct subdirs \<and>
    has_graph C (node_of ` subtree_dirs D i) (node_edges (subdir_edges D i)) G'"
proof -
  let ?R = "(directory_parent (dg_project D))\<inverse>"
  have C: "cgraph_laws C" using G by (simp add: has_graph_iff)
  obtain G1 where G1: "center_node C extension D True (node_of i) G = Inr (node_of i, G1)" "has_graph C {node_of i} {} G1"
    using center_node_drawn [OF ok i G, of extension True] by auto
  have "valid_ids G1" "node_of i \<in> node_set C G1" using G1(2) by (simp_all add: has_graph_iff)
  from search_all [OF ok C subdir_ids_compute [OF ok] i this, of extension subdirEdgeDecoration] obtain r G2 where
    G2: "search C (node_of i) (getSubDirs C extension D) subdirEdgeDecoration (-1) G1 = Some (Inr (r, G2))" "distinct r"
      "set r = node_of ` (?R\<^sup>+ `` {i})" "grown C (set r) (node_edges {(a, b) \<in> ?R. (i, a) \<in> ?R\<^sup>*}) G1 G2"
    unfolding getSubDirs_def by blast
  have nodes: "insert (node_of i) (set r) = node_of ` subtree_dirs D i" using G2(3) subtree_dirs_files(2) [OF ok i] by simp
  have edges: "{(a, b) \<in> ?R. (i, a) \<in> ?R\<^sup>*} = subdir_edges D i"
    by (auto simp: subdir_edges_def subtree_dirs_def rtrancl_converse)
  have "has_graph C (node_of ` subtree_dirs D i) (node_edges (subdir_edges D i)) G2"
    using has_graph_grown [OF G1(2) G2(4)] unfolding edges nodes [symmetric] by simp
  then show ?thesis using G1(1) G2(1,2,3) nodes by (auto simp: subdirs_of_def bindD_def)
qed

lemma relation_drawn:
  assumes ok: "diagram_ok D" and ids: "computes D ids R" and a: "a \<in> files_of D" and G: "has_graph C V E G" "node_of a \<in> V"
  shows "\<exists>G'. file_relation C extension D ids (node_of a) G = Inr (answer (ids (node_of a)), G') \<and>
    has_graph C (V \<union> node_of ` related_by R a) E G'"
proof -
  have C: "cgraph_laws C" "valid_ids G" "node_of a \<in> node_set C G" using G by (simp_all add: has_graph_iff)
  obtain G' where "file_relation C extension D ids (node_of a) G = Inr (answer (ids (node_of a)), G')"
    "grown C (set (answer (ids (node_of a)))) {} G G'"
    using file_relation_adds [OF ok C(1) ids, of extension] a C(2,3) unfolding relation_adds_def by blast
  then show ?thesis using has_graph_grown [OF G(1)] computesD(2) [OF ids a] by fastforce
qed

lemma implemented_distinct: "distinct (answer (implemented_ids D node reverse))" "distinct (answer (depend_ids D node reverse))"
  by (simp_all add: implemented_ids_def depend_ids_def directory_ids_distinct)

lemma draw_directory_inside:
  assumes ok: "diagram_ok D" and G: "has_graph C W E G" "E \<subseteq> W \<times> W" "set subdirs = W" and a: "a \<in> files_of D" "node_of a \<in> W"
  shows "\<exists>G'. draw_directory C extension D True subdirs (node_of a) G = Inr G' \<and>
    has_graph C W (E \<union> {node_of a} \<times> (node_of ` related_by (module_edges D) a \<inter> W)) G'"
proof -
  note I = directory_ids_computed(1) [OF ok] and U = directory_ids_computed(3) [OF ok]
  let ?I = "answer (implemented_ids D (node_of a) False)" and ?U = "answer (depend_ids D (node_of a) False)"
  obtain G1 where G1: "getImplementedFiles C extension D False (node_of a) G = Inr (?I, G1)" "has_graph C (W \<union> set ?I) E G1"
    using relation_drawn [OF ok I a(1) G(1) a(2), of extension] computesD(2) [OF I a(1)] by (auto simp: getImplementedFiles_def)
  obtain G2 where G2: "draw_related C True subdirs (node_of a) implementsEdgeDecoration ?I G1 = Inr G2"
    "has_graph C W (E \<union> {node_of a} \<times> (set ?I \<inter> W)) G2"
    using draw_related_inside [OF G1(2) G(2,3) a(2) implemented_distinct(1), of implementsEdgeDecoration] by blast
  obtain G3 where G3: "getDependFiles C extension D False (node_of a) G2 = Inr (?U, G3)"
    "has_graph C (W \<union> set ?U) (E \<union> {node_of a} \<times> (set ?I \<inter> W)) G3"
    using relation_drawn [OF ok U a(1) G2(2) a(2), of extension] computesD(2) [OF U a(1)] by (auto simp: getDependFiles_def)
  have "E \<union> {node_of a} \<times> (set ?I \<inter> W) \<subseteq> W \<times> W" using G(2) a(2) by auto
  from draw_related_inside [OF G3(2) this G(3) a(2) implemented_distinct(2), of dependsEdgeDecoration] obtain G4 where
    G4: "draw_related C True subdirs (node_of a) dependsEdgeDecoration ?U G3 = Inr G4"
      "has_graph C W (E \<union> {node_of a} \<times> (set ?I \<inter> W) \<union> {node_of a} \<times> (set ?U \<inter> W)) G4" by blast
  have "set ?I \<union> set ?U = node_of ` related_by (module_edges D) a"
    unfolding computesD(2) [OF I a(1)] computesD(2) [OF U a(1)] by (auto simp: related_by_def module_edges_def)
  then have "E \<union> {node_of a} \<times> (set ?I \<inter> W) \<union> {node_of a} \<times> (set ?U \<inter> W) =
      E \<union> {node_of a} \<times> (node_of ` related_by (module_edges D) a \<inter> W)" by blast
  then show ?thesis using G1(1) G2(1) G3(1) G4 by (simp add: draw_directory_def)
qed

lemma draw_directory_outside:
  assumes ok: "diagram_ok D" and G: "has_graph C V E G" and a: "a \<in> files_of D" "node_of a \<in> V"
  shows "\<exists>G'. draw_directory C extension D False subdirs (node_of a) G = Inr G' \<and>
    has_graph C (V \<union> node_of ` related_by (module_edges D) a) (E \<union> {node_of a} \<times> (node_of ` related_by (module_edges D) a - set subdirs)) G'"
proof -
  note I = directory_ids_computed(1) [OF ok] and U = directory_ids_computed(3) [OF ok]
  let ?I = "answer (implemented_ids D (node_of a) False)" and ?U = "answer (depend_ids D (node_of a) False)"
  let ?E1 = "E \<union> {node_of a} \<times> (set ?I - set subdirs)"
  obtain G1 where G1: "getImplementedFiles C extension D False (node_of a) G = Inr (?I, G1)" "has_graph C (V \<union> set ?I) E G1"
    using relation_drawn [OF ok I a(1) G a(2), of extension] computesD(2) [OF I a(1)] by (auto simp: getImplementedFiles_def)
  obtain G2 where G2: "draw_related C False subdirs (node_of a) implementsEdgeDecoration ?I G1 = Inr G2" "has_graph C (V \<union> set ?I) ?E1 G2"
    using draw_related_outside [OF G1(2), of ?I "node_of a" subdirs] a(2) by blast
  obtain G3 where G3: "getDependFiles C extension D False (node_of a) G2 = Inr (?U, G3)" "has_graph C (V \<union> set ?I \<union> set ?U) ?E1 G3"
    using relation_drawn [OF ok U a(1) G2(2), of extension] a(2) computesD(2) [OF U a(1)] by (auto simp: getDependFiles_def)
  obtain G4 where G4: "draw_related C False subdirs (node_of a) dependsEdgeDecoration ?U G3 = Inr G4"
    "has_graph C (V \<union> set ?I \<union> set ?U) (?E1 \<union> {node_of a} \<times> (set ?U - set subdirs)) G4"
    using draw_related_outside [OF G3(2), of ?U "node_of a" subdirs] a(2) by blast
  have "set ?I \<union> set ?U = node_of ` related_by (module_edges D) a"
    unfolding computesD(2) [OF I a(1)] computesD(2) [OF U a(1)] by (auto simp: related_by_def module_edges_def)
  then have "V \<union> set ?I \<union> set ?U = V \<union> node_of ` related_by (module_edges D) a"
    "?E1 \<union> {node_of a} \<times> (set ?U - set subdirs) = E \<union> {node_of a} \<times> (node_of ` related_by (module_edges D) a - set subdirs)" by blast+
  then show ?thesis using G1(1) G2(1) G3(1) G4 by (simp add: draw_directory_def)
qed

lemma new_graph_drawn: "cgraph_laws C \<Longrightarrow> \<forall>a b. \<not> ag_has_edge C (ag_empty C) a b \<Longrightarrow> has_graph C {} {} (new_graph C)"
  unfolding has_graph_def by (rule gstate_new)

text \<open>All directories of the subtree, for the relations inside and for those that leave it.\<close>

lemma draw_directories_inside:
  assumes ok: "diagram_ok D" and S: "S \<subseteq> files_of D" "set subdirs = node_of ` S"
    and G: "has_graph C (node_of ` S) (node_edges E) G" "E \<subseteq> S \<times> S"
  shows "\<exists>G'. for_each (\<lambda>subdir G. Some (draw_directory C extension D True subdirs subdir G)) subdirs G = Some (Inr G') \<and>
    has_graph C (node_of ` S) (node_edges (E \<union> module_edges D \<inter> S \<times> S)) G'"
proof -
  let ?W = "node_of ` S" and ?E = "node_edges E"
  let ?T = "\<lambda>x. {x} \<times> {y \<in> ?W. (x, y) \<in> node_edges (module_edges D)}"
  define I where "I A G \<longleftrightarrow> has_graph C ?W (?E \<union> (\<Union>x \<in> A. ?T x)) G \<and> A \<subseteq> ?W" for A G
  have step: "\<exists>G'. Some (draw_directory C extension D True subdirs x G) = Some (Inr G') \<and> I (insert x A) G'"
    if x: "x \<in> set subdirs" and I: "I A G" for A x G
  proof -
    from x obtain a where a: "a \<in> files_of D" "x = node_of a" "x \<in> ?W" using S by blast
    have T: "{node_of a} \<times> (node_of ` related_by (module_edges D) a \<inter> ?W) = ?T x"
      by (auto simp: a(2) related_by_def node_edges_iff)
    have g: "has_graph C ?W (?E \<union> (\<Union>x \<in> A. ?T x)) G" "A \<subseteq> ?W" using I by (simp_all add: I_def)
    have "?E \<subseteq> ?W \<times> ?W" using G(2) by (auto simp: node_edges_def)
    then have "?E \<union> (\<Union>x \<in> A. ?T x) \<subseteq> ?W \<times> ?W" using g(2) by blast
    from draw_directory_inside [OF ok g(1) this S(2) a(1), of extension] a(2,3) obtain G' where
      G': "draw_directory C extension D True subdirs x G = Inr G'" "has_graph C ?W (?E \<union> (\<Union>x \<in> A. ?T x) \<union> ?T x) G'" unfolding T by auto
    have eq: "?E \<union> (\<Union>x \<in> A. ?T x) \<union> ?T x = ?E \<union> (\<Union>x \<in> insert x A. ?T x)" by blast
    show ?thesis using G' g(2) a(3) unfolding eq I_def by blast
  qed
  have start: "I {} G" using G(1) by (simp add: I_def)
  have "\<exists>G'. for_each (\<lambda>subdir G. Some (draw_directory C extension D True subdirs subdir G)) subdirs G = Some (Inr G') \<and>
      I ({} \<union> set subdirs) G'" by (rule for_each_inv [OF step start])
  moreover have "?E \<union> (\<Union>x \<in> ?W. ?T x) = node_edges (E \<union> module_edges D \<inter> S \<times> S)" by (auto simp: node_edges_iff)
  ultimately show ?thesis unfolding I_def S(2) by auto
qed

lemma draw_directories_outside:
  assumes ok: "diagram_ok D" and S: "S \<subseteq> files_of D" "set subdirs = node_of ` S"
    and G: "has_graph C (node_of ` S) (node_edges E) G"
  shows "\<exists>G'. for_each (\<lambda>subdir G. Some (draw_directory C extension D False subdirs subdir G)) subdirs G = Some (Inr G') \<and>
    has_graph C (node_of ` (S \<union> module_edges D `` S)) (node_edges (E \<union> module_edges D \<inter> S \<times> - S)) G'"
proof -
  let ?W = "node_of ` S" and ?E = "node_edges E"
  let ?N = "\<lambda>x. {y. (x, y) \<in> node_edges (module_edges D)}"
  define I where "I A G \<longleftrightarrow> has_graph C (?W \<union> (\<Union>x \<in> A. ?N x)) (?E \<union> (\<Union>x \<in> A. {x} \<times> (?N x - ?W))) G" for A G
  have step: "\<exists>G'. Some (draw_directory C extension D False subdirs x G) = Some (Inr G') \<and> I (insert x A) G'"
    if x: "x \<in> set subdirs" and I: "I A G" for A x G
  proof -
    from x obtain a where a: "a \<in> files_of D" "x = node_of a" "x \<in> ?W" using S by blast
    have N: "node_of ` related_by (module_edges D) a = ?N x" by (auto simp: a(2) related_by_def node_edges_iff)
    from draw_directory_outside [OF ok I [unfolded I_def] a(1), of extension subdirs] a(2,3) obtain G' where
      G': "draw_directory C extension D False subdirs x G = Inr G'"
        "has_graph C (?W \<union> (\<Union>x \<in> A. ?N x) \<union> ?N x) (?E \<union> (\<Union>x \<in> A. {x} \<times> (?N x - ?W)) \<union> {x} \<times> (?N x - ?W)) G'"
      unfolding N S(2) by auto
    have eq: "?W \<union> (\<Union>x \<in> A. ?N x) \<union> ?N x = ?W \<union> (\<Union>x \<in> insert x A. ?N x)"
      "?E \<union> (\<Union>x \<in> A. {x} \<times> (?N x - ?W)) \<union> {x} \<times> (?N x - ?W) = ?E \<union> (\<Union>x \<in> insert x A. {x} \<times> (?N x - ?W))" by blast+
    show ?thesis using G' unfolding eq I_def by blast
  qed
  have start: "I {} G" using G by (simp add: I_def)
  have "\<exists>G'. for_each (\<lambda>subdir G. Some (draw_directory C extension D False subdirs subdir G)) subdirs G = Some (Inr G') \<and>
      I ({} \<union> set subdirs) G'" by (rule for_each_inv [OF step start])
  moreover have "?W \<union> (\<Union>x \<in> ?W. ?N x) = node_of ` (S \<union> module_edges D `` S)" by (auto simp: node_edges_iff)
  moreover have "?E \<union> (\<Union>x \<in> ?W. {x} \<times> (?N x - ?W)) = node_edges (E \<union> module_edges D \<inter> S \<times> - S)" by (auto simp: node_edges_iff)
  ultimately show ?thesis unfolding I_def S(2) by auto
qed

lemma subdir_edges_inside: "subdir_edges D i \<subseteq> subtree_dirs D i \<times> subtree_dirs D i"
  by (auto simp: subdir_edges_def subtree_dirs_def intro: converse_rtrancl_into_rtrancl)

text \<open>
  C8: the dependencies of a subsystem: the diagram shows exactly the directories of the subtree, with an edge to each
  subdirectory and to each directory of the subtree that has a file which a file of the directory provides or uses.
\<close>

theorem subsystem_diagram:
  assumes laws: "cgraph_laws C" "\<forall>a b. \<not> ag_has_edge C (ag_empty C) a b" and ok: "diagram_ok D" and i: "i \<in> files_of D"
  shows "\<exists>G. getSubsystemDependencyDiagram C extension D (node_of i) (new_graph C) = Some (Inr G) \<and>
    node_set C G = node_of ` subtree_dirs D i \<and>
    edge_set C G = node_edges (subdir_edges D i \<union> module_edges D \<inter> subtree_dirs D i \<times> subtree_dirs D i)"
proof -
  obtain subdirs G1 where G1: "subdirs_of C extension D (node_of i) (new_graph C) = Some (Inr (subdirs, node_of i, G1))"
    "insert (node_of i) (set subdirs) = node_of ` subtree_dirs D i"
    "has_graph C (node_of ` subtree_dirs D i) (node_edges (subdir_edges D i)) G1"
    using subdirs_of_drawn [OF ok i new_graph_drawn [OF laws], of extension] by blast
  then have "set (sort (List.insert (node_of i) subdirs)) = node_of ` subtree_dirs D i" by simp
  from draw_directories_inside [OF ok subtree_dirs_files(1) [OF ok i] this G1(3) subdir_edges_inside, of extension]
  show ?thesis using G1(1) by (auto simp: getSubsystemDependencyDiagram_def bindD_def Let_def has_graph_iff)
qed


text \<open>What one search finds, and the edges it draws: the neighbours with the bound 1, everything reachable without a bound.\<close>

definition found :: "int \<Rightarrow> (nat \<times> nat) set \<Rightarrow> nat \<Rightarrow> nat set" where
  "found level R i = (if level = 1 then R `` {i} else R\<^sup>+ `` {i})"

definition found_edges :: "int \<Rightarrow> (nat \<times> nat) set \<Rightarrow> nat \<Rightarrow> (nat \<times> nat) set" where
  "found_edges level R i = (if level = 1 then {i} \<times> R `` {i} else {(a, b) \<in> R. (i, a) \<in> R\<^sup>*})"

lemma search_drawn:
  assumes ok: "diagram_ok D" and ids: "computes D ids R" and i: "i \<in> files_of D" and G: "has_graph C V E G" "node_of i \<in> V"
    and level: "level = 1 \<or> level = -1"
  shows "\<exists>r G'. search C (node_of i) (file_relation C extension D ids) attrs level G = Some (Inr (r, G')) \<and>
    set r = node_of ` found level R i \<and> has_graph C (V \<union> node_of ` found level R i) (E \<union> node_edges (found_edges level R i)) G'"
proof -
  have C: "cgraph_laws C" "valid_ids G" "node_of i \<in> node_set C G" using G by (simp_all add: has_graph_iff)
  have R: "related_by R i = R `` {i}" by (auto simp: related_by_def)
  obtain r G' where "search C (node_of i) (file_relation C extension D ids) attrs level G = Some (Inr (r, G'))"
    "set r = node_of ` found level R i" "grown C (set r) (node_edges (found_edges level R i)) G G'"
    using search_one [OF ok C(1) ids i C(2,3), of extension attrs] search_all [OF ok C(1) ids i C(2,3), of extension attrs] level
    unfolding R by (cases "level = 1") (auto simp: found_def found_edges_def)
  then show ?thesis using has_graph_grown [OF G(1)] by auto
qed

lemma searches_drawn:
  assumes ok: "diagram_ok D" and i: "i \<in> files_of D" and "has_graph C V E G" "node_of i \<in> V" and level: "level = 1 \<or> level = -1"
    and "list_all (\<lambda>(ids, R, attrs). computes D ids R) steps"
  shows "\<exists>G'. searches C (node_of i) (map (\<lambda>(ids, R, attrs). (file_relation C extension D ids, attrs, level)) steps) G = Some (Inr G') \<and>
    has_graph C (V \<union> node_of ` (\<Union>(ids, R, attrs) \<in> set steps. found level R i))
      (E \<union> node_edges (\<Union>(ids, R, attrs) \<in> set steps. found_edges level R i)) G'"
  using assms(3,4,6)
proof (induction steps arbitrary: V E G)
  case Nil
  then show ?case by (simp add: searches_def node_edges_def)
next
  case (Cons s steps)
  obtain ids R attrs where s: "s = (ids, R, attrs)" by (cases s)
  obtain r G1 where G1: "search C (node_of i) (file_relation C extension D ids) attrs level G = Some (Inr (r, G1))"
    "has_graph C (V \<union> node_of ` found level R i) (E \<union> node_edges (found_edges level R i)) G1"
    using search_drawn [OF ok _ i Cons.prems(1,2) level, of ids R extension attrs] Cons.prems(3) s by auto
  obtain G2 where G2: "searches C (node_of i) (map (\<lambda>(ids, R, attrs). (file_relation C extension D ids, attrs, level)) steps) G1 = Some (Inr G2)"
    "has_graph C (V \<union> node_of ` found level R i \<union> node_of ` (\<Union>(ids, R, attrs) \<in> set steps. found level R i))
      (E \<union> node_edges (found_edges level R i) \<union> node_edges (\<Union>(ids, R, attrs) \<in> set steps. found_edges level R i)) G2"
    using Cons.IH [OF G1(2)] Cons.prems(2,3) by auto
  then show ?case using G1(1) s by (auto simp: searches_def bindD_def node_edges_def image_Un Un_assoc)
qed

definition interface_relation :: "diagram_db \<Rightarrow> (nat \<times> nat) set" where
  "interface_relation D = file_edges PROVIDE D \<union> contains_edges D \<union> file_edges USE D"

text \<open>
  C26: the interface of a file: the diagram shows the file and exactly the files that it provides, contains or uses, or
  that provide, contain or use it, each with an edge from the file.
\<close>

theorem interface_diagram:
  assumes laws: "cgraph_laws C" "\<forall>a b. \<not> ag_has_edge C (ag_empty C) a b" and ok: "diagram_ok D" and i: "i \<in> files_of D"
  shows "\<exists>G. getInterfaceDiagram C extension D (node_of i) (new_graph C) = Some (Inr G) \<and>
    node_set C G = node_of ` insert i ((interface_relation D \<union> (interface_relation D)\<inverse>) `` {i}) \<and>
    edge_set C G = node_edges ({i} \<times> (interface_relation D \<union> (interface_relation D)\<inverse>) `` {i})"
proof -
  let ?R = "interface_relation D"
  let ?P = "file_edges PROVIDE D" and ?U = "file_edges USE D" and ?K = "contains_edges D"
  let ?steps = "[(\<lambda>node. getProvidedFileIds D node False, ?P, providesEdgeDecoration), (contains_ids D, ?K, containsEdgeDecoration),
    (\<lambda>node. getUsedFileIds D node False, ?U, usagesEdgeDecoration), (\<lambda>node. getProvidedFileIds D node True, ?P\<inverse>, revProvidesEdgeDecoration),
    (rev_contains_ids D, ?K\<inverse>, revContainsEdgeDecoration), (\<lambda>node. getUsedFileIds D node True, ?U\<inverse>, revUsagesEdgeDecoration)]"
  obtain G1 where G1: "center_node C extension D False (node_of i) (new_graph C) = Inr (node_of i, G1)" "has_graph C {node_of i} {} G1"
    using center_node_drawn [OF ok i new_graph_drawn [OF laws], of extension False] by auto
  have "list_all (\<lambda>(ids, R, attrs). computes D ids R) ?steps"
    using edge_ids_compute [OF ok] contains_ids_compute [OF ok] by (simp add: getProvidedFileIds_def getUsedFileIds_def)
  from searches_drawn [OF ok i G1(2) _ _ this, of 1 extension] obtain G where
    G: "searches C (node_of i) (map (\<lambda>(ids, R, attrs). (file_relation C extension D ids, attrs, 1)) ?steps) G1 = Some (Inr G)"
      "has_graph C ({node_of i} \<union> node_of ` (\<Union>(ids, R, attrs) \<in> set ?steps. found 1 R i))
        ({} \<union> node_edges (\<Union>(ids, R, attrs) \<in> set ?steps. found_edges 1 R i)) G" by auto
  have "(\<Union>(ids, R, attrs) \<in> set ?steps. found 1 R i) = (?R \<union> ?R\<inverse>) `` {i}"
    "(\<Union>(ids, R, attrs) \<in> set ?steps. found_edges 1 R i) = {i} \<times> (?R \<union> ?R\<inverse>) `` {i}"
    by (auto simp: found_def found_edges_def interface_relation_def)
  then have "has_graph C (node_of ` insert i ((?R \<union> ?R\<inverse>) `` {i})) (node_edges ({i} \<times> (?R \<union> ?R\<inverse>) `` {i})) G" using G(2) by simp
  then show ?thesis using G1(1) G(1) by (auto simp: getInterfaceDiagram_def bindD_def has_graph_iff getProvidedFiles_def getContains_def
      getUsedFiles_def getRevContains_def)
qed

text \<open>
  The users of a module: everything that reaches a directory strictly below the module. The files of the module's own
  directory are left out, so for a module without subdirectories the diagram shows the module alone.
\<close>

definition strict_subdirs :: "diagram_db \<Rightarrow> nat \<Rightarrow> nat set" where
  "strict_subdirs D i = ((directory_parent (dg_project D))\<inverse>)\<^sup>+ `` {i}"

theorem external_users_diagram:
  assumes laws: "cgraph_laws C" "\<forall>a b. \<not> ag_has_edge C (ag_empty C) a b" and ok: "diagram_ok D" and i: "i \<in> files_of D"
  shows "\<exists>G. getExternalUsersDiagram C extension D (node_of i) (new_graph C) = Some (Inr G) \<and>
    node_set C G = node_of ` (subtree_dirs D i \<union>
      (\<Union>d \<in> strict_subdirs D i. (directory_relation D ((file_edges PROVIDE D)\<inverse>))\<^sup>+ `` {d} \<union> (directory_relation D ((file_edges USE D)\<inverse>))\<^sup>+ `` {d}))"
proof -
  let ?I = "directory_relation D ((file_edges PROVIDE D)\<inverse>)" and ?U = "directory_relation D ((file_edges USE D)\<inverse>)"
  let ?steps = "[(\<lambda>node. implemented_ids D node True, ?I, revImplementsEdgeDecoration), (\<lambda>node. depend_ids D node True, ?U, revDependsEdgeDecoration)]"
  let ?S = "subtree_dirs D i" and ?N = "\<lambda>d. ?I\<^sup>+ `` {d} \<union> ?U\<^sup>+ `` {d}"
  obtain subdirs G1 where G1: "subdirs_of C extension D (node_of i) (new_graph C) = Some (Inr (subdirs, node_of i, G1))"
    "set subdirs = node_of ` strict_subdirs D i" "has_graph C (node_of ` ?S) (node_edges (subdir_edges D i)) G1"
    using subdirs_of_drawn [OF ok i new_graph_drawn [OF laws], of extension] unfolding strict_subdirs_def by blast
  have sub: "strict_subdirs D i \<subseteq> ?S" using subtree_dirs_files(2) [OF ok i] by (auto simp: strict_subdirs_def)
  have computed: "list_all (\<lambda>(ids, R, attrs). computes D ids R) ?steps" using directory_ids_computed [OF ok] by simp
  let ?f = "\<lambda>subdir. searches C subdir
      [(getImplementedFiles C extension D True, revImplementsEdgeDecoration, -1), (getDependFiles C extension D True, revDependsEdgeDecoration, -1)]"
  define J where "J A G \<longleftrightarrow> (\<exists>E. has_graph C (node_of ` (?S \<union> (\<Union>d \<in> {d. node_of d \<in> A}. ?N d))) E G)" for A G
  have step: "\<exists>G'. ?f x G = Some (Inr G') \<and> J (insert x A) G'" if x: "x \<in> set (sort subdirs)" and J: "J A G" for A x G
  proof -
    from x obtain d where d: "d \<in> ?S" "x = node_of d" using G1(2) sub by auto
    then have d': "d \<in> files_of D" using subtree_dirs_files(1) [OF ok i] by blast
    obtain E where E: "has_graph C (node_of ` (?S \<union> (\<Union>d \<in> {d. node_of d \<in> A}. ?N d))) E G" using J by (auto simp: J_def)
    from searches_drawn [OF ok d' E _ _ computed, of "-1" extension] d(1) obtain E' G' where
      G': "?f x G = Some (Inr G')" "has_graph C (node_of ` (?S \<union> (\<Union>d \<in> {d. node_of d \<in> A}. ?N d)) \<union> node_of ` ?N d) E' G'"
      by (auto simp: d(2) getImplementedFiles_def getDependFiles_def found_def)
    have eq: "node_of ` (?S \<union> (\<Union>d \<in> {d. node_of d \<in> A}. ?N d)) \<union> node_of ` ?N d = node_of ` (?S \<union> (\<Union>d \<in> {d. node_of d \<in> insert x A}. ?N d))"
      unfolding d(2) by auto
    show ?thesis using G' unfolding J_def eq by blast
  qed
  have start: "J {} G1" using G1(3) by (auto simp: J_def)
  have "\<exists>G'. for_each ?f (sort subdirs) G1 = Some (Inr G') \<and> J ({} \<union> set (sort subdirs)) G'" by (rule for_each_inv [OF step start])
  moreover have "{d. node_of d \<in> {} \<union> set (sort subdirs)} = strict_subdirs D i" using G1(2) by auto
  ultimately obtain G E where G: "for_each ?f (sort subdirs) G1 = Some (Inr G)"
    "has_graph C (node_of ` (?S \<union> (\<Union>d \<in> strict_subdirs D i. ?N d))) E G" unfolding J_def by auto
  then show ?thesis using G1(1) by (auto simp: getExternalUsersDiagram_def bindD_def has_graph_iff)
qed

text \<open>
  The users of a component: from the files that the file provides the search follows all their users, and from all of
  these the build targets that contain them.
\<close>

definition provided_and_users :: "diagram_db \<Rightarrow> nat \<Rightarrow> nat set" where
  "provided_and_users D i = file_edges PROVIDE D `` {i} \<union> (\<Union>p \<in> file_edges PROVIDE D `` {i}. ((file_edges USE D)\<inverse>)\<^sup>+ `` {p})"

theorem component_users_diagram:
  assumes laws: "cgraph_laws C" "\<forall>a b. \<not> ag_has_edge C (ag_empty C) a b" and ok: "diagram_ok D" and i: "i \<in> files_of D"
  shows "\<exists>G. getComponentUsersDiagram C extension D (node_of i) (new_graph C) = Some (Inr G) \<and>
    node_set C G = node_of ` ({i} \<union> provided_and_users D i \<union> (\<Union>h \<in> provided_and_users D i. ((contains_edges D)\<inverse>)\<^sup>+ `` {h}))"
proof -
  let ?P = "file_edges PROVIDE D `` {i}" and ?U = "(file_edges USE D)\<inverse>" and ?K = "(contains_edges D)\<inverse>"
  let ?H = "\<lambda>A. ?P \<union> (\<Union>p \<in> {p. node_of p \<in> A}. ?U\<^sup>+ `` {p})"
  have P: "computes D (\<lambda>node. getProvidedFileIds D node False) (file_edges PROVIDE D)" and U: "computes D (\<lambda>node. getUsedFileIds D node True) ?U"
    using edge_ids_compute [OF ok] by (simp_all add: getProvidedFileIds_def getUsedFileIds_def)
  have Pfiles: "?P \<subseteq> files_of D" using computesD(3) [OF P i] by (auto simp: related_by_def)
  obtain G1 where G1: "center_node C extension D True (node_of i) (new_graph C) = Inr (node_of i, G1)" "has_graph C {node_of i} {} G1"
    using center_node_drawn [OF ok i new_graph_drawn [OF laws], of extension True] by auto
  obtain provides G2 where G2: "search C (node_of i) (getProvidedFiles C extension D False) providesEdgeDecoration 1 G1 = Some (Inr (provides, G2))"
    "set provides = node_of ` ?P" "\<exists>E. has_graph C (node_of ` ({i} \<union> ?P)) E G2"
    using search_drawn [OF ok P i G1(2), of 1 extension providesEdgeDecoration] by (auto simp: getProvidedFiles_def found_def)
  let ?f = "\<lambda>provide (usedHeaders, G). bindD (search C provide (getUsedFiles C extension D True) revUsagesEdgeDecoration (-1) G)
      (\<lambda>(revusages, G). Some (Inr (usedHeaders @ revusages, G)))"
  define J where "J A s \<longleftrightarrow> set (fst s) = node_of ` ?H A \<and> (\<exists>E. has_graph C (node_of ` ({i} \<union> ?H A)) E (snd s))" for A s
  have step: "\<exists>s'. ?f x s = Some (Inr s') \<and> J (insert x A) s'" if x: "x \<in> set (sort provides)" and J: "J A s" for A x s
  proof -
    obtain used G where s: "s = (used, G)" by (cases s)
    from x obtain p where p: "p \<in> ?P" "x = node_of p" "p \<in> files_of D" using G2(2) Pfiles by auto
    obtain E where E: "has_graph C (node_of ` ({i} \<union> ?H A)) E G" "set used = node_of ` ?H A" using J by (auto simp: J_def s)
    from search_drawn [OF ok U p(3) E(1), of "-1" extension revUsagesEdgeDecoration] p(1) obtain r E' G' where
      r: "search C x (getUsedFiles C extension D True) revUsagesEdgeDecoration (-1) G = Some (Inr (r, G'))" "set r = node_of ` (?U\<^sup>+ `` {p})"
        "has_graph C (node_of ` ({i} \<union> ?H A) \<union> node_of ` (?U\<^sup>+ `` {p})) E' G'" by (auto simp: getUsedFiles_def p(2) found_def)
    have eq: "?H (insert x A) = ?H A \<union> ?U\<^sup>+ `` {p}" unfolding p(2) by auto
    have "J (insert x A) (used @ r, G')" using r(2,3) E(2) unfolding J_def eq by (auto simp: image_Un Un_assoc)
    then show ?thesis using r(1) by (auto simp: s bindD_def)
  qed
  have start: "J {} (provides, G2)" using G2(2,3) by (simp add: J_def)
  have "\<exists>s'. for_each ?f (sort provides) (provides, G2) = Some (Inr s') \<and> J ({} \<union> set (sort provides)) s'" by (rule for_each_inv [OF step start])
  moreover have "?H ({} \<union> set (sort provides)) = provided_and_users D i" using G2(2) by (auto simp: provided_and_users_def)
  ultimately obtain used G3 where G3: "for_each ?f (sort provides) (provides, G2) = Some (Inr (used, G3))"
    "set used = node_of ` provided_and_users D i" "\<exists>E. has_graph C (node_of ` ({i} \<union> provided_and_users D i)) E G3" unfolding J_def by auto
  have users: "provided_and_users D i \<subseteq> files_of D"
    using Pfiles search_closure(2) [OF U] by (auto simp: provided_and_users_def)
  let ?g = "\<lambda>source G. bindD (search C source (getRevContains C extension D) revContainsEdgeDecoration (-1) G) (\<lambda>(r, G). Some (Inr G))"
  let ?V = "\<lambda>A. {i} \<union> provided_and_users D i \<union> (\<Union>h \<in> {h. node_of h \<in> A}. ?K\<^sup>+ `` {h})"
  define L where "L A G \<longleftrightarrow> (\<exists>E. has_graph C (node_of ` ?V A) E G)" for A G
  have step2: "\<exists>G'. ?g x G = Some (Inr G') \<and> L (insert x A) G'" if x: "x \<in> set (sort (remdups used))" and L: "L A G" for A x G
  proof -
    from x obtain h where h: "h \<in> provided_and_users D i" "x = node_of h" "h \<in> files_of D" using G3(2) users by auto
    obtain E where E: "has_graph C (node_of ` ?V A) E G" using L by (auto simp: L_def)
    from search_drawn [OF ok contains_ids_compute(2) [OF ok] h(3) E, of "-1" extension revContainsEdgeDecoration] h(1) obtain r E' G' where
      r: "search C x (getRevContains C extension D) revContainsEdgeDecoration (-1) G = Some (Inr (r, G'))"
        "has_graph C (node_of ` ?V A \<union> node_of ` (?K\<^sup>+ `` {h})) E' G'" by (auto simp: getRevContains_def h(2) found_def)
    have eq: "node_of ` ?V A \<union> node_of ` (?K\<^sup>+ `` {h}) = node_of ` ?V (insert x A)" unfolding h(2) by auto
    show ?thesis using r unfolding L_def eq by (auto simp: bindD_def)
  qed
  have start2: "L {} G3" using G3(3) by (simp add: L_def)
  have "\<exists>G'. for_each ?g (sort (remdups used)) G3 = Some (Inr G') \<and> L ({} \<union> set (sort (remdups used))) G'"
    by (rule for_each_inv [OF step2 start2])
  moreover have "{h. node_of h \<in> {} \<union> set (sort (remdups used))} = provided_and_users D i" using G3(2) by auto
  ultimately show ?thesis using G1(1) G2(1) G3(1)
    by (auto simp: getComponentUsersDiagram_def bindD_def L_def has_graph_iff)
qed

section \<open>Labels\<close>

definition part_start :: "string list \<Rightarrow> nat \<Rightarrow> nat" where
  "part_start parts k = length (abs_path (take k parts))"

lemma abs_path_simps [simp]:
  "abs_path [] = []" "abs_path (p # ps) = CHR ''/'' # p @ abs_path ps" "abs_path (ps @ qs) = abs_path ps @ abs_path qs"
  by (simp_all add: abs_path_def)

lemma take_part_start: "take (part_start parts k) (abs_path parts) = abs_path (take k parts)"
  by (metis abs_path_simps(3) append_eq_conv_conj append_take_drop_id part_start_def)

lemma rfind_part:
  assumes "list_all (\<lambda>p. CHR ''/'' \<notin> set p) parts" "k < length parts"
  shows "strrchr (abs_path (take (Suc k) parts)) (CHR ''/'') = Some (part_start parts k)"
proof -
  have "CHR ''/'' \<notin> set (parts ! k)" using assms by (simp add: list_all_length)
  then show ?thesis using assms(2) by (simp add: take_Suc_conv_app_nth strrchr_last part_start_def)
qed

lemma part_start_bounds:
  "part_start parts 0 = 0" "k < length parts \<Longrightarrow> part_start parts k < part_start parts (Suc k)"
  "k < length parts \<Longrightarrow> part_start parts k < length (abs_path parts)"
proof -
  show "part_start parts 0 = 0" by (simp add: part_start_def)
  show "part_start parts k < part_start parts (Suc k)" if "k < length parts"
    using that by (simp add: part_start_def take_Suc_conv_app_nth)
  show "part_start parts k < length (abs_path parts)" if "k < length parts"
  proof -
    have "abs_path parts = abs_path (take k parts) @ abs_path (drop k parts)" by (metis abs_path_simps(3) append_take_drop_id)
    moreover have "abs_path (drop k parts) \<noteq> []" using that by (cases "drop k parts") auto
    ultimately show ?thesis by (simp add: part_start_def)
  qed
qed

lemma last_parts_start:
  assumes parts: "list_all (\<lambda>p. CHR ''/'' \<notin> set p) parts" and size: "length (abs_path parts) < SIZE_MAX"
  shows "k < length parts \<Longrightarrow> last_parts n (abs_path parts) (part_start parts k) = part_start parts (k - n)"
proof (induction n arbitrary: k)
  case (Suc n)
  show ?case
  proof (cases k)
    case 0
    then show ?thesis using size by (simp add: part_start_bounds size_sub_def)
  next
    case (Suc j)
    have pos: "0 < part_start parts k" using part_start_bounds(2) [of j parts] Suc.prems Suc by simp
    have small: "part_start parts k < length (abs_path parts)" using part_start_bounds(3) Suc.prems by blast
    have less: "part_start parts k - 1 < length (abs_path parts)" using pos small by linarith
    have sub: "size_sub (part_start parts k) 1 = part_start parts k - 1" using pos small size by (simp add: size_sub_le)
    have "str_rfind (CHR ''/'') (part_start parts k - 1) (abs_path parts) = part_start parts j"
      using rfind_part [OF parts, of j] Suc.prems Suc pos by (simp add: str_rfind_def take_part_start)
    then show ?thesis using Suc.IH [of j] Suc.prems sub less Suc by simp
  qed
qed simp

text \<open>
  The label of a file shows the last \<open>n\<close> parts of its path, with dots in front if there are more.
\<close>

theorem last_n_parts:
  assumes parts: "list_all (\<lambda>p. CHR ''/'' \<notin> set p) parts" "parts \<noteq> []" and size: "length (abs_path parts) < SIZE_MAX" and n: "0 < n"
  shows "getLastNParts (abs_path parts) n =
    (if length parts \<le> n then abs_path parts else ''...'' @ abs_path (drop (length parts - n) parts))"
proof -
  obtain m where m: "length parts = Suc m" using parts(2) by (cases parts) auto
  obtain k where k: "n = Suc k" using n gr0_conv_Suc by blast
  have "str_rfind (CHR ''/'') SIZE_MAX (abs_path parts) = part_start parts m"
    using rfind_part [OF parts(1), of m] size m by (simp add: str_rfind_def)
  then have p: "last_parts (n - 1) (abs_path parts) (str_rfind (CHR ''/'') SIZE_MAX (abs_path parts)) = part_start parts (m - k)"
    using last_parts_start [OF parts(1) size, of m k] m k by simp
  have nonempty: "abs_path parts \<noteq> []" using parts(2) by (cases parts) auto
  have drop: "drop (part_start parts j) (abs_path parts) = abs_path (drop j parts)" for j
    by (metis abs_path_simps(3) append_eq_conv_conj append_take_drop_id part_start_def)
  show ?thesis
  proof (cases "length parts \<le> n")
    case True
    then have "m - k = 0" using m k by simp
    then show ?thesis using True p nonempty n by (simp add: getLastNParts_def part_start_bounds)
  next
    case False
    then have j: "m - k = length parts - n" "length parts - n = Suc (length parts - n - 1)" using m k by simp_all
    obtain q where q: "length parts - n = Suc q" "q < length parts" using j(2) m by simp
    then have "0 < part_start parts (length parts - n)" using part_start_bounds(2) [OF q(2)] by simp
    moreover have "part_start parts (length parts - n) < length (abs_path parts)" using part_start_bounds(3) [of "length parts - n" parts] n m by simp
    ultimately show ?thesis using False p nonempty n j(1) drop by (simp add: getLastNParts_def Let_def)
  qed
qed

section \<open>Examples\<close>

text \<open>A file below \<open>/p/sub\<close> uses one in \<open>/p\<close>.\<close>

definition example_diagram :: diagram_db where
  "example_diagram = \<lparr>dg_project = example_project, dg_edges = [\<lparr>ed_from = 5, ed_to = 3, ed_type = USE\<rparr>],
     dg_sources = [(3, 0)], dg_targets = [(5, 0)], dg_inclusions = []\<rparr>"

definition example_extension :: "string \<Rightarrow> string" where
  "example_extension path = (case strrchr path (CHR ''.'') of None \<Rightarrow> [] | Some i \<Rightarrow> drop i path)"

lemma example_diagram_ok: "diagram_ok example_diagram"
  unfolding diagram_ok_def example_diagram_def files_of_def
  by (simp add: example_project_ok example_parents) (simp add: example_project_def example_row_def)

lemma example_files: "files_of example_diagram = {1, 2, 3, 4, 5}"
  by (simp add: files_of_def example_diagram_def example_project_def example_row_def)

lemma example_laws: "cgraph_laws list_cgraph" "\<forall>a b. \<not> ag_has_edge list_cgraph (ag_empty list_cgraph) a b"
  by (rule list_cgraph_laws) (simp add: list_cgraph_def)

lemma example_directories: "directory_parent example_project = {(2, 1), (4, 2)}"
  unfolding parent_of_pairs by (simp add: parent_pairs_def example_project_def example_row_def)

lemma example_module_edges: "module_edges example_diagram = {(4, 2)}"
  by (auto simp: module_edges_def directory_relation_def file_edges_def example_diagram_def example_parents example_directories)

theorem subsystem_diagram_witness:
  "\<exists>G. getSubsystemDependencyDiagram list_cgraph example_extension example_diagram (node_of 2) (new_graph list_cgraph) = Some (Inr G) \<and>
     (node_of 4, node_of 2) \<in> edge_set list_cgraph G"
proof -
  have "(4, 2) \<in> directory_parent example_project" by (simp add: example_directories)
  then have "{2, 4} \<subseteq> subtree_dirs example_diagram 2" by (simp add: subtree_dirs_def example_diagram_def r_into_rtrancl)
  then have "(4, 2) \<in> module_edges example_diagram \<inter> subtree_dirs example_diagram 2 \<times> subtree_dirs example_diagram 2"
    by (simp add: example_module_edges)
  then show ?thesis using subsystem_diagram [OF example_laws example_diagram_ok, of 2 example_extension] by (auto simp: example_files node_edges_iff)
qed


theorem interface_diagram_witness:
  "\<exists>G. getInterfaceDiagram list_cgraph example_extension example_diagram (node_of 3) (new_graph list_cgraph) = Some (Inr G) \<and>
     edge_set list_cgraph G = {(node_of 3, node_of 5)}"
proof -
  have "interface_relation example_diagram = {(5, 3)}"
    by (auto simp: interface_relation_def file_edges_def contains_edges_def example_diagram_def)
  then have "{3 :: nat} \<times> (interface_relation example_diagram \<union> (interface_relation example_diagram)\<inverse>) `` {3} = {(3, 5)}" by auto
  then show ?thesis using interface_diagram [OF example_laws example_diagram_ok, of 3 example_extension]
    by (simp add: example_files) (force simp: node_edges_def)
qed

theorem external_users_diagram_witness:
  "\<exists>G. getExternalUsersDiagram list_cgraph example_extension example_diagram (node_of 4) (new_graph list_cgraph) = Some (Inr G)"
  using external_users_diagram [OF example_laws example_diagram_ok, of 4 example_extension] by (auto simp: example_files)

theorem component_users_diagram_witness:
  "\<exists>G. getComponentUsersDiagram list_cgraph example_extension example_diagram (node_of 3) (new_graph list_cgraph) = Some (Inr G)"
  using component_users_diagram [OF example_laws example_diagram_ok, of 3 example_extension] by (auto simp: example_files)

theorem last_n_parts_witness:
  "getLastNParts (abs_path [''a'', ''b'', ''c'', ''d'']) 3 = ''.../b/c/d'' \<and> getLastNParts (abs_path [''a'', ''b'']) 3 = ''/a/b''"
  using last_n_parts [of "[''a'', ''b'', ''c'', ''d'']" 3] last_n_parts [of "[''a'', ''b'']" 3] by (simp add: SIZE_MAX_def)

end
