(* ===== verification/CppDiagram.thy ===== *)
theory CppDiagram
  imports CppServiceInfo CppFileDiagram
begin

text \<open>
  \<^verbatim>\<open>plugins/cpp/service/src/diagram.cpp\<close>: the diagrams of functions and classes, drawn from the references of theory
  \<open>CppService\<close> with the graphs of theory \<open>UtilGraph\<close>, and the functions of \<^verbatim>\<open>cppservice.cpp\<close> that choose a diagram. The
  identifier of a symbol is a number here and its decimal text in the graph. An error is one of the service, one of the
  project service, or the use of a null pointer of the graph library.
\<close>

datatype diagram_error = From_Service cpp_service_error | From_Project project_error | Null_Graph

type_synonym 'a drawing_of = "diagram_error + 'a"

text \<open>The object keeps the subgraphs it has made; the graph is passed to it.\<close>

record 'g drawing =
  dr_subgraphs :: "string \<rightharpoonup> string"
  dr_graph :: "'g ugraph"

definition from_service :: "'a served \<Rightarrow> 'a drawing_of" where
  "from_service m = (case m of Inl e \<Rightarrow> Inl (From_Service e) | Inr x \<Rightarrow> Inr x)"

definition from_project :: "'a answered \<Rightarrow> 'a drawing_of" where
  "from_project m = (case m of Inl e \<Rightarrow> Inl (From_Project e) | Inr x \<Rightarrow> Inr x)"

definition on_graph :: "('g ugraph \<Rightarrow> 'g ugraph option) \<Rightarrow> 'g drawing \<Rightarrow> 'g drawing drawing_of" where
  "on_graph f S = (case f (dr_graph S) of None \<Rightarrow> Inl Null_Graph | Some G \<Rightarrow> Inr (S\<lparr>dr_graph := G\<rparr>))"

definition with_graph :: "('g ugraph \<Rightarrow> ('a \<times> 'g ugraph) option) \<Rightarrow> 'g drawing \<Rightarrow> ('a \<times> 'g drawing) drawing_of" where
  "with_graph f S = (case f (dr_graph S) of None \<Rightarrow> Inl Null_Graph | Some (x, G) \<Rightarrow> Inr (x, S\<lparr>dr_graph := G\<rparr>))"

section \<open>Decorations\<close>

definition centerFunctionDecoration :: decoration where
  "centerFunctionDecoration = [(''style'', ''filled''), (''fillcolor'', ''gold'')]"

definition calleeNodeDecoration :: decoration where
  "calleeNodeDecoration = [(''style'', ''filled''), (''fillcolor'', ''lightblue'')]"

definition callerNodeDecoration :: decoration where
  "callerNodeDecoration = [(''style'', ''filled''), (''fillcolor'', ''coral'')]"

definition virtualNodeDecoration :: decoration where
  "virtualNodeDecoration = [(''shape'', ''diamond''), (''style'', ''filled''), (''fillcolor'', ''cyan'')]"

definition calleeEdgeDecoration :: decoration where "calleeEdgeDecoration = [(''color'', ''blue'')]"

definition callerEdgeDecoration :: decoration where "callerEdgeDecoration = [(''color'', ''red'')]"

definition centerClassNodeDecoration :: decoration where
  "centerClassNodeDecoration = [(''style'', ''filled''), (''fillcolor'', ''gold''), (''shape'', ''box'')]"

definition classNodeDecoration :: decoration where "classNodeDecoration = [(''shape'', ''box'')]"

definition usedClassEdgeDecoration :: decoration where
  "usedClassEdgeDecoration = [(''style'', ''dashed''), (''color'', ''mediumpurple'')]"

definition inheritClassEdgeDecoration :: decoration where "inheritClassEdgeDecoration = [(''arrowhead'', ''empty'')]"

section \<open>Nodes\<close>

text \<open>A node without a file has an empty file identifier.\<close>

definition range_file :: "node_info \<Rightarrow> string" where
  "range_file info = (case ni_file info of None \<Rightarrow> [] | Some f \<Rightarrow> decimal f)"

text \<open>The subgraph of a file. It is searched by the identifier of the file and stored under its path.\<close>

definition addSubgraph :: "'g cgraph \<Rightarrow> project_db \<Rightarrow> string \<Rightarrow> 'g drawing \<Rightarrow> (string \<times> 'g drawing) drawing_of" where
  "addSubgraph C P fileId S =
     (case dr_subgraphs S fileId of
        Some subgraph \<Rightarrow> Inr (subgraph, S)
      | None \<Rightarrow>
          bindE (from_project (getFileInfo P fileId)) (\<lambda>fileInfo.
          bindE (with_graph (getOrCreateSubgraph C (''cluster_'' @ fi_path fileInfo)) S) (\<lambda>(subgraph, S).
          bindE (on_graph (setSubgraphAttribute C subgraph ''id'' (fi_id fileInfo) False) S) (\<lambda>S.
          bindE (on_graph (setSubgraphAttribute C subgraph ''label'' (fi_path fileInfo) False) S) (\<lambda>S.
          Inr (subgraph, S\<lparr>dr_subgraphs := [fi_path fileInfo \<mapsto> subgraph] ++ dr_subgraphs S\<rparr>))))))"

definition symbol_addNode :: "'g cgraph \<Rightarrow> project_db \<Rightarrow> node_info \<Rightarrow> 'g drawing \<Rightarrow> (string \<times> 'g drawing) drawing_of" where
  "symbol_addNode C P info S =
     bindE (addSubgraph C P (range_file info) S) (\<lambda>(subgraph, S).
     bindE (with_graph (getOrCreateNode C (decimal (ni_id info)) subgraph) S) (\<lambda>(node, S).
     bindE (on_graph (setNodeAttribute C node ''label'' (ni_astNodeValue info) False) S) (\<lambda>S. Inr (node, S))))"

definition symbol_edge :: "'g cgraph \<Rightarrow> string \<Rightarrow> string \<Rightarrow> decoration \<Rightarrow> 'g drawing \<Rightarrow> (string \<times> 'g drawing) drawing_of" where
  "symbol_edge C a b attrs S =
     bindE (with_graph (createEdge C a b) S) (\<lambda>(edge, S).
     bindE (on_graph (decorateEdge C edge attrs False) S) (\<lambda>S. Inr (edge, S)))"

definition decorate_symbol :: "'g cgraph \<Rightarrow> string \<Rightarrow> decoration \<Rightarrow> 'g drawing \<Rightarrow> 'g drawing drawing_of" where
  "decorate_symbol C node attrs = on_graph (decorateNode C node attrs False)"

section \<open>Calls\<close>

text \<open>The loop over the called functions and, with \<open>forward\<close> false, over the calling ones.\<close>

fun draw_calls ::
    "'g cgraph \<Rightarrow> project_db \<Rightarrow> bool \<Rightarrow> decoration \<Rightarrow> decoration \<Rightarrow> string \<Rightarrow> node_info list \<Rightarrow> (nat \<rightharpoonup> string) \<Rightarrow> 'g drawing \<Rightarrow>
       ((nat \<rightharpoonup> string) \<times> 'g drawing) drawing_of" where
  "draw_calls C P forward nodeDecoration edgeDecoration centerNode [] visitedNodes S = Inr (visitedNodes, S)"
| "draw_calls C P forward nodeDecoration edgeDecoration centerNode (node # nodes) visitedNodes S =
     bindE
       (case visitedNodes (ni_id node) of
          Some n \<Rightarrow> Inr (n, visitedNodes, S)
        | None \<Rightarrow>
            bindE (symbol_addNode C P node S) (\<lambda>(n, S).
            bindE (decorate_symbol C n nodeDecoration S) (\<lambda>S. Inr (n, visitedNodes(ni_id node \<mapsto> n), S))))
       (\<lambda>(n, visitedNodes, S).
     let a = (if forward then centerNode else n); b = (if forward then n else centerNode) in
     case hasEdge C a b (dr_graph S) of
       None \<Rightarrow> Inl Null_Graph
     | Some True \<Rightarrow> draw_calls C P forward nodeDecoration edgeDecoration centerNode nodes visitedNodes S
     | Some False \<Rightarrow>
         bindE (symbol_edge C a b edgeDecoration S) (\<lambda>(edge, S).
         draw_calls C P forward nodeDecoration edgeDecoration centerNode nodes visitedNodes S))"

definition references_of :: "service_db \<Rightarrow> nat \<Rightarrow> reference_type \<Rightarrow> node_info list drawing_of" where
  "references_of T i ref = from_service (srv_getReferences T i ref)"

definition getFunctionCallDiagram ::
    "'g cgraph \<Rightarrow> service_db \<Rightarrow> project_db \<Rightarrow> nat \<Rightarrow> 'g drawing \<Rightarrow> 'g drawing drawing_of" where
  "getFunctionCallDiagram C T P nodeId S =
     (let S = S\<lparr>dr_graph := setAttribute C ''rankdir'' ''LR'' (dr_graph S)\<rparr> in
     bindE (references_of T nodeId DEFINITION) (\<lambda>nodes.
     case nodes of
       [] \<Rightarrow> Inr S
     | nodeInfo # _ \<Rightarrow>
         bindE (symbol_addNode C P nodeInfo S) (\<lambda>(centerNode, S).
         bindE (decorate_symbol C centerNode centerFunctionDecoration S) (\<lambda>S.
         bindE (references_of T nodeId CALLEE) (\<lambda>nodes.
         bindE (draw_calls C P True calleeNodeDecoration calleeEdgeDecoration centerNode nodes [nodeId \<mapsto> centerNode] S)
           (\<lambda>(visitedNodes, S).
         bindE (references_of T nodeId CALLER) (\<lambda>nodes.
         bindE (draw_calls C P False callerNodeDecoration callerEdgeDecoration centerNode nodes visitedNodes S)
           (\<lambda>(visitedNodes, S). Inr (S\<lparr>dr_subgraphs := Map.empty\<rparr>)))))))))"

section \<open>Classes and their collaboration\<close>

text \<open>The base classes, or the derived ones with \<open>forward\<close> false.\<close>

fun draw_inheritance ::
    "'g cgraph \<Rightarrow> project_db \<Rightarrow> bool \<Rightarrow> string \<Rightarrow> node_info list \<Rightarrow> (nat \<rightharpoonup> string) \<Rightarrow> 'g drawing \<Rightarrow>
       ((nat \<rightharpoonup> string) \<times> 'g drawing) drawing_of" where
  "draw_inheritance C P forward centerNode [] visitedNodes S = Inr (visitedNodes, S)"
| "draw_inheritance C P forward centerNode (node # nodes) visitedNodes S =
     bindE (symbol_addNode C P node S) (\<lambda>(inheritNode, S).
     bindE (on_graph (setNodeAttribute C inheritNode ''label'' (ni_astNodeValue node) True) S) (\<lambda>S.
     bindE (decorate_symbol C inheritNode classNodeDecoration S) (\<lambda>S.
     bindE (symbol_edge C (if forward then centerNode else inheritNode) (if forward then inheritNode else centerNode)
       inheritClassEdgeDecoration S) (\<lambda>(edge, S).
     draw_inheritance C P forward centerNode nodes (visitedNodes(ni_id node \<mapsto> inheritNode)) S))))"

text \<open>An edge is drawn once, with the names of all the members that need it.\<close>

definition draw_use ::
    "'g cgraph \<Rightarrow> string \<Rightarrow> string \<Rightarrow> string \<Rightarrow> (string \<times> string \<rightharpoonup> string) \<Rightarrow> 'g drawing \<Rightarrow>
       ((string \<times> string \<rightharpoonup> string) \<times> 'g drawing) drawing_of" where
  "draw_use C relatedNode typeNode label visitedEdges S =
     (case visitedEdges (relatedNode, typeNode) of
        None \<Rightarrow>
          bindE (symbol_edge C relatedNode typeNode usedClassEdgeDecoration S) (\<lambda>(edge, S).
          bindE (on_graph (setEdgeAttribute C edge ''label'' label False) S) (\<lambda>S.
          Inr (visitedEdges((relatedNode, typeNode) \<mapsto> edge), S)))
      | Some edge \<Rightarrow>
          (case getEdgeAttribute C edge ''label'' (dr_graph S) of
             None \<Rightarrow> Inl Null_Graph
           | Some oldLabel \<Rightarrow>
               bindE (on_graph (setEdgeAttribute C edge ''label'' (oldLabel @ '', '' @ label) False) S) (\<lambda>S.
               Inr (visitedEdges, S))))"

text \<open>The type of one data member.\<close>

definition draw_member ::
    "'g cgraph \<Rightarrow> project_db \<Rightarrow> nat \<Rightarrow> node_info \<Rightarrow> node_info list \<Rightarrow>
       (nat \<rightharpoonup> string) \<times> (string \<times> string \<rightharpoonup> string) \<times> 'g drawing \<Rightarrow>
       ((nat \<rightharpoonup> string) \<times> (string \<times> string \<rightharpoonup> string) \<times> 'g drawing) drawing_of" where
  "draw_member C P relatedId member types = (\<lambda>(visitedNodes, visitedEdges, S).
     case types of
       [] \<Rightarrow> Inr (visitedNodes, visitedEdges, S)
     | typeInfo # _ \<Rightarrow>
         bindE
           (case visitedNodes (ni_id typeInfo) of
              Some n \<Rightarrow> Inr (n, visitedNodes, S)
            | None \<Rightarrow>
                bindE (symbol_addNode C P typeInfo S) (\<lambda>(n, S).
                bindE (decorate_symbol C n classNodeDecoration S) (\<lambda>S. Inr (n, visitedNodes(ni_id typeInfo \<mapsto> n), S))))
           (\<lambda>(typeNode, visitedNodes, S).
         let relatedNode = (case visitedNodes relatedId of None \<Rightarrow> [] | Some n \<Rightarrow> n) in
         bindE (draw_use C relatedNode typeNode (ni_astNodeValue member) visitedEdges S) (\<lambda>(visitedEdges, S).
         Inr (visitedNodes, visitedEdges, S))))"

fun draw_members ::
    "'g cgraph \<Rightarrow> service_db \<Rightarrow> project_db \<Rightarrow> nat \<Rightarrow> node_info list \<Rightarrow>
       (nat \<rightharpoonup> string) \<times> (string \<times> string \<rightharpoonup> string) \<times> 'g drawing \<Rightarrow>
       ((nat \<rightharpoonup> string) \<times> (string \<times> string \<rightharpoonup> string) \<times> 'g drawing) drawing_of" where
  "draw_members C T P relatedId [] D = Inr D"
| "draw_members C T P relatedId (member # members) D =
     bindE (references_of T (ni_id member) reference_type.TYPE) (\<lambda>types.
     bindE (draw_member C P relatedId member types D) (draw_members C T P relatedId members))"

fun draw_collaboration ::
    "'g cgraph \<Rightarrow> service_db \<Rightarrow> project_db \<Rightarrow> node_info list \<Rightarrow>
       (nat \<rightharpoonup> string) \<times> (string \<times> string \<rightharpoonup> string) \<times> 'g drawing \<Rightarrow>
       ((nat \<rightharpoonup> string) \<times> (string \<times> string \<rightharpoonup> string) \<times> 'g drawing) drawing_of" where
  "draw_collaboration C T P [] D = Inr D"
| "draw_collaboration C T P (relatedNode # relatedNodes) D =
     bindE (references_of T (ni_id relatedNode) DATA_MEMBER) (\<lambda>dataMembers.
     bindE (draw_members C T P (ni_id relatedNode) dataMembers D) (draw_collaboration C T P relatedNodes))"

definition getClassCollaborationDiagram ::
    "'g cgraph \<Rightarrow> service_db \<Rightarrow> project_db \<Rightarrow> nat \<Rightarrow> 'g drawing \<Rightarrow> 'g drawing drawing_of" where
  "getClassCollaborationDiagram C T P nodeId S =
     (let S = S\<lparr>dr_graph := setAttribute C ''rankdir'' ''BT'' (dr_graph S)\<rparr> in
     bindE (references_of T nodeId DEFINITION) (\<lambda>nodes.
     case nodes of
       [] \<Rightarrow> Inr S
     | nodeInfo # _ \<Rightarrow>
         bindE (symbol_addNode C P nodeInfo S) (\<lambda>(centerNode, S).
         bindE (decorate_symbol C centerNode centerClassNodeDecoration S) (\<lambda>S.
         bindE (references_of T (ni_id nodeInfo) INHERIT_FROM) (\<lambda>bases.
         bindE (draw_inheritance C P True centerNode bases [ni_id nodeInfo \<mapsto> centerNode] S) (\<lambda>(visitedNodes, S).
         bindE (references_of T (ni_id nodeInfo) INHERIT_BY) (\<lambda>derived.
         bindE (draw_inheritance C P False centerNode derived visitedNodes S) (\<lambda>(visitedNodes, S).
         bindE (draw_collaboration C T P (nodeInfo # bases @ derived) (visitedNodes, Map.empty, S))
           (\<lambda>(visitedNodes, visitedEdges, S). Inr S)))))))))"

section \<open>Classes in detail\<close>

definition graphHtmlTag :: "string \<Rightarrow> string \<Rightarrow> string \<Rightarrow> string" where
  "graphHtmlTag tag content attr = ''<'' @ tag @ '' '' @ attr @ ''>'' @ content @ ''</'' @ tag @ ''>''"

text \<open>An attribute with its value in quotes.\<close>

definition html_attr :: "string \<Rightarrow> string \<Rightarrow> string" where
  "html_attr name val = name @ ''='' @ [CHR 0x27] @ val @ [CHR 0x27]"

definition visibilityToHtml :: "node_info \<Rightarrow> string" where
  "visibilityToHtml node =
     (if ''public'' \<in> set (ni_tags node) then graphHtmlTag ''font'' ''+'' (html_attr ''color'' ''green'')
      else if ''private'' \<in> set (ni_tags node) then graphHtmlTag ''font'' ''-'' (html_attr ''color'' ''red'')
      else if ''protected'' \<in> set (ni_tags node) then graphHtmlTag ''font'' ''#'' (html_attr ''color'' ''blue'')
      else [])"

definition memberContentToHtml :: "node_info \<Rightarrow> string \<Rightarrow> string" where
  "memberContentToHtml node content =
     (let static = ''static'' \<in> set (ni_tags node); virtual = ''virtual'' \<in> set (ni_tags node) in
      (if static then ''<b>'' else []) @ (if virtual then ''<i>'' else []) @ escapeHtml content @
      (if virtual then ''</i>'' else []) @ (if static then ''</b>'' else []))"

definition getProperty :: "service_db \<Rightarrow> nat \<Rightarrow> string \<Rightarrow> string drawing_of" where
  "getProperty T nodeId property =
     bindE (from_service (srv_getProperties T nodeId)) (\<lambda>properties.
     Inr (case properties property of None \<Rightarrow> [] | Some v \<Rightarrow> v))"

definition label_row :: "string \<Rightarrow> string \<Rightarrow> string \<Rightarrow> string" where
  "label_row visibility content attr =
     graphHtmlTag ''tr'' (graphHtmlTag ''td'' visibility attr @ graphHtmlTag ''td'' content attr) []"

definition colAttr :: string where
  "colAttr = html_attr ''border'' ''0'' @ '' '' @ html_attr ''align'' ''left''"

text \<open>The last data member has a line below it.\<close>

fun data_rows :: "service_db \<Rightarrow> node_info list \<Rightarrow> string drawing_of" where
  "data_rows T [] = Inr []"
| "data_rows T (node # nodes) =
     bindE (getProperty T (ni_id node) ''Type'') (\<lambda>type.
     let content = memberContentToHtml node (escapeHtml (ni_astNodeValue node @ '' : '' @ type));
         attr = (if nodes = [] then html_attr ''border'' ''1'' @ '' '' @ html_attr ''align'' ''left'' @ '' '' @ html_attr ''SIDES'' ''B''
           else colAttr)
     in bindE (data_rows T nodes) (\<lambda>rows. Inr (label_row (visibilityToHtml node) content attr @ rows)))"

definition method_rows :: "node_info list \<Rightarrow> string" where
  "method_rows nodes =
     concat (map (\<lambda>node. label_row (visibilityToHtml node) (memberContentToHtml node (escapeHtml (ni_astNodeValue node))) colAttr)
       (filter (\<lambda>node. ni_astNodeValue node \<noteq> []) nodes))"

definition getDetailedClassNodeLabel :: "service_db \<Rightarrow> node_info \<Rightarrow> string drawing_of" where
  "getDetailedClassNodeLabel T nodeInfo =
     bindE (references_of T (ni_id nodeInfo) DATA_MEMBER) (\<lambda>members.
     bindE (data_rows T members) (\<lambda>rows.
     bindE (references_of T (ni_id nodeInfo) METHOD) (\<lambda>methods.
     Inr (''<table '' @ html_attr ''border'' ''1'' @ '' '' @ html_attr ''cellspacing'' ''0'' @ ''>'' @
       graphHtmlTag ''tr'' (graphHtmlTag ''td''
         (graphHtmlTag ''font'' (escapeHtml (ni_astNodeValue nodeInfo)) (html_attr ''color'' ''white''))
         (html_attr ''colspan'' ''2'' @ '' '' @ html_attr ''SIDES'' ''B'' @ '' '' @ html_attr ''bgcolor'' ''#316ECF'' @ '' '' @
          html_attr ''align'' ''center'')) [] @
       rows @ method_rows methods @ ''</table>''))))"

definition detailed_node :: "'g cgraph \<Rightarrow> service_db \<Rightarrow> project_db \<Rightarrow> node_info \<Rightarrow> 'g drawing \<Rightarrow> (string \<times> 'g drawing) drawing_of" where
  "detailed_node C T P node S =
     bindE (symbol_addNode C P node S) (\<lambda>(n, S).
     bindE (getDetailedClassNodeLabel T node) (\<lambda>label.
     bindE (on_graph (setNodeAttribute C n ''label'' label True) S) (\<lambda>S.
     bindE (on_graph (setNodeAttribute C n ''shape'' ''none'' False) S) (\<lambda>S. Inr (n, S)))))"

fun draw_detailed ::
    "'g cgraph \<Rightarrow> service_db \<Rightarrow> project_db \<Rightarrow> bool \<Rightarrow> string \<Rightarrow> node_info list \<Rightarrow> 'g drawing \<Rightarrow> 'g drawing drawing_of" where
  "draw_detailed C T P forward currentNode [] S = Inr S"
| "draw_detailed C T P forward currentNode (node # nodes) S =
     bindE (detailed_node C T P node S) (\<lambda>(inheritNode, S).
     bindE (symbol_edge C (if forward then currentNode else inheritNode) (if forward then inheritNode else currentNode)
       inheritClassEdgeDecoration S) (\<lambda>(edge, S).
     draw_detailed C T P forward currentNode nodes S))"

definition getDetailedClassDiagram ::
    "'g cgraph \<Rightarrow> service_db \<Rightarrow> project_db \<Rightarrow> nat \<Rightarrow> 'g drawing \<Rightarrow> 'g drawing drawing_of" where
  "getDetailedClassDiagram C T P nodeId S =
     (let S = S\<lparr>dr_graph := setAttribute C ''rankdir'' ''BT'' (dr_graph S)\<rparr> in
     bindE (references_of T nodeId DEFINITION) (\<lambda>nodes.
     case nodes of
       [] \<Rightarrow> Inr S
     | nodeInfo # _ \<Rightarrow>
         bindE (detailed_node C T P nodeInfo S) (\<lambda>(currentNode, S).
         bindE (references_of T (ni_id nodeInfo) INHERIT_FROM) (\<lambda>bases.
         bindE (draw_detailed C T P True currentNode bases S) (\<lambda>S.
         bindE (references_of T (ni_id nodeInfo) INHERIT_BY) (\<lambda>derived.
         draw_detailed C T P False currentNode derived S))))))"

section \<open>Legends and the choice of a diagram\<close>

definition getDetailedClassLegend :: "'g cgraph \<Rightarrow> 'g legend option" where
  "getDetailedClassLegend C = Option.bind (new_legend C ''Detailed Class Diagram'') (add_rows C
     [Node_Row ''class'' classNodeDecoration False,
      Node_Row ''public data member'' [(''shape'', ''none''), (''label'', graphHtmlTag ''font'' ''+'' (html_attr ''color'' ''green''))] True,
      Node_Row ''private data member'' [(''shape'', ''none''), (''label'', graphHtmlTag ''font'' ''-'' (html_attr ''color'' ''red''))] True,
      Node_Row ''protected data member'' [(''shape'', ''none''), (''label'', graphHtmlTag ''font'' ''#'' (html_attr ''color'' ''blue''))] True,
      Node_Row ''static method or data member'' [(''shape'', ''none''), (''label'', ''<b>static</b>'')] True,
      Node_Row ''virtual method'' [(''shape'', ''none''), (''label'', ''<i>virtual</i>'')] True,
      Edge_Row ''inheritance'' inheritClassEdgeDecoration False])"

definition getFunctionCallLegend :: "'g cgraph \<Rightarrow> 'g legend option" where
  "getFunctionCallLegend C = Option.bind (new_legend C ''Function Call Diagram'') (add_rows C
     [Node_Row ''center function'' centerFunctionDecoration False, Node_Row ''called function'' calleeNodeDecoration False,
      Node_Row ''caller function'' callerNodeDecoration False, Node_Row ''virtual function'' virtualNodeDecoration False,
      Edge_Row ''called'' calleeEdgeDecoration False, Edge_Row ''caller'' callerEdgeDecoration False])"

definition getClassCollaborationLegend :: "'g cgraph \<Rightarrow> 'g legend option" where
  "getClassCollaborationLegend C = Option.bind (new_legend C ''Class Collaboration Diagram'') (add_rows C
     [Node_Row ''center class'' centerClassNodeDecoration False, Node_Row ''class'' classNodeDecoration False,
      Edge_Row ''contained or used class'' usedClassEdgeDecoration False, Edge_Row ''inheritance'' inheritClassEdgeDecoration False])"

definition new_drawing :: "'g cgraph \<Rightarrow> 'g drawing" where
  "new_drawing C = \<lparr>dr_subgraphs = Map.empty, dr_graph = new_graph C\<rparr>"

fun returnDiagram :: "'g cgraph \<Rightarrow> service_db \<Rightarrow> project_db \<Rightarrow> nat \<Rightarrow> diagram_type \<Rightarrow> 'g drawing drawing_of" where
  "returnDiagram C T P nodeId FUNCTION_CALL = getFunctionCallDiagram C T P nodeId (new_drawing C)"
| "returnDiagram C T P nodeId DETAILED_CLASS = getDetailedClassDiagram C T P nodeId (new_drawing C)"
| "returnDiagram C T P nodeId CLASS_COLLABORATION = getClassCollaborationDiagram C T P nodeId (new_drawing C)"
| "returnDiagram C T P nodeId _ = Inr (new_drawing C)"

fun getDiagramLegend :: "'g cgraph \<Rightarrow> diagram_type \<Rightarrow> 'g legend option option" where
  "getDiagramLegend C FUNCTION_CALL = Some (getFunctionCallLegend C)"
| "getDiagramLegend C CLASS_COLLABORATION = Some (getClassCollaborationLegend C)"
| "getDiagramLegend C DETAILED_CLASS = Some (getDetailedClassLegend C)"
| "getDiagramLegend C _ = None"

fun returnFileDiagram ::
    "'g cgraph \<Rightarrow> (string \<Rightarrow> string) \<Rightarrow> diagram_db \<Rightarrow> string \<Rightarrow> diagram_type \<Rightarrow> 'g ugraph \<Rightarrow> 'g ugraph answered option" where
  "returnFileDiagram C extension D fileId COMPONENT_USERS G = getComponentUsersDiagram C extension D fileId G"
| "returnFileDiagram C extension D fileId EXTERNAL_DEPENDENCY G = getExternalDependencyDiagram C extension D fileId G"
| "returnFileDiagram C extension D fileId EXTERNAL_USERS G = getExternalUsersDiagram C extension D fileId G"
| "returnFileDiagram C extension D fileId INCLUDE_DEPENDENCY G = getIncludeDependencyDiagram C extension D fileId G"
| "returnFileDiagram C extension D fileId INTERFACE G = getInterfaceDiagram C extension D fileId G"
| "returnFileDiagram C extension D fileId SUBSYSTEM_DEPENDENCY G = getSubsystemDependencyDiagram C extension D fileId G"
| "returnFileDiagram C extension D fileId _ G = Some (Inr G)"

definition ranked_file_diagram ::
    "'g cgraph \<Rightarrow> (string \<Rightarrow> string) \<Rightarrow> diagram_db \<Rightarrow> string \<Rightarrow> diagram_type \<Rightarrow> 'g ugraph answered option" where
  "ranked_file_diagram C extension D fileId type =
     returnFileDiagram C extension D fileId type (setAttribute C ''rankdir'' ''LR'' (new_graph C))"

text \<open>The picture of a graph; one without nodes leaves the answer as it is.\<close>

definition drawn_output :: "'g cgraph \<Rightarrow> ('g \<Rightarrow> string) \<Rightarrow> 'g ugraph \<Rightarrow> string \<Rightarrow> string" where
  "drawn_output C svg G result = (if ag_nnodes C (ug_graph G) \<noteq> 0 then svg (ug_graph G) else result)"

definition getDiagram ::
    "'g cgraph \<Rightarrow> ('g \<Rightarrow> string) \<Rightarrow> service_db \<Rightarrow> project_db \<Rightarrow> nat \<Rightarrow> diagram_type \<Rightarrow> string \<Rightarrow> string drawing_of" where
  "getDiagram C svg T P nodeId type result =
     bindE (returnDiagram C T P nodeId type) (\<lambda>S. Inr (drawn_output C svg (dr_graph S) result))"

definition getFileDiagram ::
    "'g cgraph \<Rightarrow> ('g \<Rightarrow> string) \<Rightarrow> (string \<Rightarrow> string) \<Rightarrow> diagram_db \<Rightarrow> string \<Rightarrow> diagram_type \<Rightarrow> string \<Rightarrow> string answered option" where
  "getFileDiagram C svg extension D fileId type result =
     bindD (ranked_file_diagram C extension D fileId type) (\<lambda>G. Some (Inr (drawn_output C svg G result)))"

fun getFileDiagramLegend :: "'g cgraph \<Rightarrow> diagram_type \<Rightarrow> 'g legend option option" where
  "getFileDiagramLegend C COMPONENT_USERS = Some (getComponentUsersDiagramLegend C)"
| "getFileDiagramLegend C EXTERNAL_DEPENDENCY = Some (getExternalDependencyDiagramLegend C)"
| "getFileDiagramLegend C EXTERNAL_USERS = Some (getExternalUsersDiagramLegend C)"
| "getFileDiagramLegend C INCLUDE_DEPENDENCY = Some (getIncludeDependencyDiagramLegend C)"
| "getFileDiagramLegend C INTERFACE = Some (getInterfaceDiagramLegend C)"
| "getFileDiagramLegend C SUBSYSTEM_DEPENDENCY = Some (getSubsystemDependencyDiagramLegend C)"
| "getFileDiagramLegend C _ = None"

section \<open>Rules for drawings\<close>

text \<open>What is known of a drawing: nodes, edges and some keys of edges; the cached subgraphs are in the graph.\<close>

definition dstate :: "'g cgraph \<Rightarrow> string set \<Rightarrow> (string \<times> string) set \<Rightarrow> string set \<Rightarrow> 'g drawing \<Rightarrow> bool" where
  "dstate C V E M S \<longleftrightarrow> (\<exists>Sub. gstate C V E Sub M (dr_graph S) \<and> ran (dr_subgraphs S) \<subseteq> Sub)"

definition wpD :: "'a drawing_of \<Rightarrow> ('a \<Rightarrow> bool) \<Rightarrow> bool" where
  "wpD m Q \<longleftrightarrow> (\<exists>x. m = Inr x \<and> Q x)"

named_theorems drawing_rules

lemma wpD_Inr [drawing_rules]: "Q x \<Longrightarrow> wpD (Inr x) Q"
  by (simp add: wpD_def)

lemma wpD_bind [drawing_rules]: "wpD m (\<lambda>x. wpD (k x) Q) \<Longrightarrow> wpD (bindE m k) Q"
  by (auto simp: wpD_def)

lemma bindE_drawn: "bindE m k = Inr y \<longleftrightarrow> (\<exists>x. m = Inr x \<and> k x = Inr y)"
  by (cases m) simp_all

lemma wpD_pair [drawing_rules]: "wpD (k x y) Q \<Longrightarrow> wpD (case_prod k (x, y)) Q"
  by simp

lemma wpD_mono: "wpD m P \<Longrightarrow> (\<And>x. P x \<Longrightarrow> Q x) \<Longrightarrow> wpD m Q"
  by (auto simp: wpD_def)

lemma wpD_on_graph: "wpG (f (dr_graph S)) (\<lambda>G. Q (S\<lparr>dr_graph := G\<rparr>)) \<Longrightarrow> wpD (on_graph f S) Q"
  by (auto simp: wpD_def wpG_def on_graph_def)

lemma wpD_with_graph: "wpG (f (dr_graph S)) (\<lambda>(x, G). Q (x, S\<lparr>dr_graph := G\<rparr>)) \<Longrightarrow> wpD (with_graph f S) Q"
  by (auto simp: wpD_def wpG_def with_graph_def)

lemma wpD_setNodeAttribute [drawing_rules]:
  assumes "dstate C V E M S" "i \<in> V" "\<And>S'. dstate C V E M S' \<Longrightarrow> Q S'"
  shows "wpD (on_graph (setNodeAttribute C i k v h) S) Q"
proof -
  obtain Sub where Sub: "gstate C V E Sub M (dr_graph S)" "ran (dr_subgraphs S) \<subseteq> Sub" using assms(1) by (auto simp: dstate_def)
  show ?thesis by (rule wpD_on_graph, rule wpG_setNodeAttribute [OF Sub(1) assms(2)], rule assms(3)) (use Sub(2) in \<open>auto simp: dstate_def\<close>)
qed

lemma wpD_decorate_symbol [drawing_rules]:
  assumes "dstate C V E M S" "i \<in> V" "\<And>S'. dstate C V E M S' \<Longrightarrow> Q S'"
  shows "wpD (decorate_symbol C i attrs S) Q"
proof -
  obtain Sub where Sub: "gstate C V E Sub M (dr_graph S)" "ran (dr_subgraphs S) \<subseteq> Sub" using assms(1) by (auto simp: dstate_def)
  show ?thesis unfolding decorate_symbol_def
    by (rule wpD_on_graph, rule wpG_decorateNode [OF Sub(1) assms(2)], rule assms(3)) (use Sub(2) in \<open>auto simp: dstate_def\<close>)
qed

lemma wpD_setEdgeAttribute [drawing_rules]:
  assumes "dstate C V E M S" "e \<in> M" "\<And>S'. dstate C V E M S' \<Longrightarrow> Q S'"
  shows "wpD (on_graph (setEdgeAttribute C e k v h) S) Q"
proof -
  obtain Sub where Sub: "gstate C V E Sub M (dr_graph S)" "ran (dr_subgraphs S) \<subseteq> Sub" using assms(1) by (auto simp: dstate_def)
  show ?thesis by (rule wpD_on_graph, rule wpG_setEdgeAttribute [OF Sub(1) assms(2)], rule assms(3)) (use Sub(2) in \<open>auto simp: dstate_def\<close>)
qed

lemma wpD_symbol_edge [drawing_rules]:
  assumes "dstate C V E M S" "a \<in> V" "b \<in> V" "\<And>e S'. dstate C V (insert (a, b) E) (insert e M) S' \<Longrightarrow> Q (e, S')"
  shows "wpD (symbol_edge C a b attrs S) Q"
proof -
  obtain Sub where Sub: "gstate C V E Sub M (dr_graph S)" "ran (dr_subgraphs S) \<subseteq> Sub" using assms(1) by (auto simp: dstate_def)
  have new: "wpD (with_graph (createEdge C a b) S) (\<lambda>(e, S'). dstate C V (insert (a, b) E) (insert e M) S')"
  proof (rule wpD_with_graph, rule wpG_createEdge [OF Sub(1) assms(2,3)])
    fix e G'
    assume "gstate C V (insert (a, b) E) Sub (insert e M) G'"
    then show "case (e, G') of (x, G) \<Rightarrow> case (x, S\<lparr>dr_graph := G\<rparr>) of (e, S') \<Rightarrow> dstate C V (insert (a, b) E) (insert e M) S'"
      using Sub(2) by (auto simp: dstate_def)
  qed
  have attr: "wpD (on_graph (decorateEdge C e attrs False) S1) (\<lambda>S'. Q (e, S'))" if S1: "dstate C V (insert (a, b) E) (insert e M) S1" for e S1
  proof -
    obtain Sub' where S': "gstate C V (insert (a, b) E) Sub' (insert e M) (dr_graph S1)" "ran (dr_subgraphs S1) \<subseteq> Sub'"
      using S1 by (auto simp: dstate_def)
    show ?thesis
      by (rule wpD_on_graph, rule wpG_decorateEdge [OF S'(1)], simp, rule assms(4)) (use S'(2) in \<open>auto simp: dstate_def\<close>)
  qed
  show ?thesis unfolding symbol_edge_def
    by (rule wpD_bind, rule wpD_mono [OF new]) (auto intro!: wpD_bind wpD_mono [OF attr] wpD_Inr)
qed

definition file_known :: "project_db \<Rightarrow> node_info \<Rightarrow> bool" where
  "file_known P info \<longleftrightarrow> \<not> isl (getFileInfo P (range_file info))"

lemma wpD_addSubgraph:
  assumes S: "dstate C V E M S" and f: "\<not> isl (getFileInfo P fileId)"
    and Q: "\<And>Sub sub S'. gstate C V E Sub M (dr_graph S') \<Longrightarrow> ran (dr_subgraphs S') \<subseteq> Sub \<Longrightarrow> sub \<in> Sub \<Longrightarrow> Q (sub, S')"
  shows "wpD (addSubgraph C P fileId S) Q"
proof -
  obtain Sub where Sub: "gstate C V E Sub M (dr_graph S)" "ran (dr_subgraphs S) \<subseteq> Sub" using S by (auto simp: dstate_def)
  show ?thesis
  proof (cases "dr_subgraphs S fileId")
    case (Some sub)
    then have "sub \<in> Sub" using Sub(2) by (auto simp: ran_def)
    then show ?thesis using Q [OF Sub] Some by (simp add: addSubgraph_def wpD_def)
  next
    case None
    obtain info where info: "getFileInfo P fileId = Inr info" using f by (cases "getFileInfo P fileId") auto
    let ?s = "''cluster_'' @ fi_path info"
    obtain G1 where G1: "getOrCreateSubgraph C ?s (dr_graph S) = Some (?s, G1)" "gstate C V E (insert ?s Sub) M G1"
      using wpG_getOrCreateSubgraph [OF Sub(1), of ?s "\<lambda>(s, G). s = ?s \<and> gstate C V E (insert ?s Sub) M G"] by (auto simp: wpG_def)
    obtain G2 where G2: "setSubgraphAttribute C ?s ''id'' (fi_id info) False G1 = Some G2" "gstate C V E (insert ?s Sub) M G2"
      using wpG_setSubgraphAttribute [OF G1(2), of ?s "gstate C V E (insert ?s Sub) M" "''id''" "fi_id info" False] by (auto simp: wpG_def)
    obtain G3 where G3: "setSubgraphAttribute C ?s ''label'' (fi_path info) False G2 = Some G3" "gstate C V E (insert ?s Sub) M G3"
      using wpG_setSubgraphAttribute [OF G2(2), of ?s "gstate C V E (insert ?s Sub) M" "''label''" "fi_path info" False] by (auto simp: wpG_def)
    let ?S = "S\<lparr>dr_graph := G3, dr_subgraphs := [fi_path info \<mapsto> ?s] ++ dr_subgraphs S\<rparr>"
    have "addSubgraph C P fileId S = Inr (?s, ?S)"
      using None info G1(1) G2(1) G3(1) by (simp add: addSubgraph_def from_project_def with_graph_def on_graph_def)
    moreover have "ran (dr_subgraphs ?S) \<subseteq> insert ?s Sub" using Sub(2) by (auto simp: ran_def map_add_def split: option.splits if_splits)
    ultimately show ?thesis using Q [of "insert ?s Sub" ?S ?s] G3(2) by (simp add: wpD_def)
  qed
qed

lemma wpD_symbol_addNode [drawing_rules]:
  assumes S: "dstate C V E M S" and f: "file_known P info"
    and Q: "\<And>S'. dstate C (insert (decimal (ni_id info)) V) E M S' \<Longrightarrow> Q (decimal (ni_id info), S')"
  shows "wpD (symbol_addNode C P info S) Q"
proof -
  let ?n = "decimal (ni_id info)"
  have node: "wpD (with_graph (getOrCreateNode C ?n sub) S1) (\<lambda>(n, S2). n = ?n \<and> dstate C (insert ?n V) E M S2)"
    if "gstate C V E Sub M (dr_graph S1)" "ran (dr_subgraphs S1) \<subseteq> Sub" "sub \<in> Sub" for Sub sub S1
  proof (rule wpD_with_graph, rule wpG_getOrCreateNode [OF that(1)])
    fix G'
    assume "gstate C (insert ?n V) E Sub M G'"
    then show "case (?n, G') of (x, G) \<Rightarrow> case (x, S1\<lparr>dr_graph := G\<rparr>) of (n, S2) \<Rightarrow> n = ?n \<and> dstate C (insert ?n V) E M S2"
      using that(2) by (auto simp: dstate_def)
  qed (use that(3) in auto)
  show ?thesis unfolding symbol_addNode_def
    by (rule wpD_bind, rule wpD_addSubgraph [OF S f [unfolded file_known_def]], rule wpD_pair, rule wpD_bind,
      rule wpD_mono [OF node], assumption+) (auto intro!: wpD_bind wpD_setNodeAttribute wpD_Inr Q)
qed

section \<open>What the diagrams show\<close>

text \<open>
  The node of a function in a diagram of calls: the queried identifier stands for the definition in the centre.
\<close>

definition call_node :: "nat \<Rightarrow> nat \<Rightarrow> nat \<Rightarrow> string" where
  "call_node i d j = decimal (if j = i then d else j)"

definition calls_seen :: "nat \<Rightarrow> nat \<Rightarrow> string set \<Rightarrow> (nat \<rightharpoonup> string) \<Rightarrow> bool" where
  "calls_seen i d V visited \<longleftrightarrow> visited i = Some (decimal d) \<and> (\<forall>j n. visited j = Some n \<longrightarrow> n = call_node i d j \<and> n \<in> V)"

definition call_edges :: "bool \<Rightarrow> string \<Rightarrow> string set \<Rightarrow> (string \<times> string) set" where
  "call_edges forward center N = (if forward then {center} \<times> N else N \<times> {center})"

lemma draw_calls_drawn:
  assumes "dstate C V E M S" "decimal d \<in> V" "calls_seen i d V visited" "list_all (file_known P) nodes"
  defines "N \<equiv> call_node i d ` ni_id ` set nodes"
  shows "wpD (draw_calls C P forward nodeDeco edgeDeco (decimal d) nodes visited S)
    (\<lambda>(visited', S'). calls_seen i d (V \<union> N) visited' \<and>
      (\<exists>M'. dstate C (V \<union> N) (E \<union> call_edges forward (decimal d) N) M' S'))"
  using assms(1-4) unfolding N_def
proof (induction nodes arbitrary: V E M S visited)
  case Nil
  then show ?case by (auto simp: wpD_def call_edges_def)
next
  case (Cons node nodes)
  let ?c = "decimal d" and ?j = "ni_id node"
  let ?n = "call_node i d ?j"
  let ?e = "(if forward then ?c else ?n, if forward then ?n else ?c)"
  define first where "first = (case visited ?j of
          Some n \<Rightarrow> Inr (n, visited, S)
        | None \<Rightarrow> bindE (symbol_addNode C P node S) (\<lambda>(n, S). bindE (decorate_symbol C n nodeDeco S) (\<lambda>S. Inr (n, visited(?j \<mapsto> n), S))))"
  have known: "file_known P node" "list_all (file_known P) nodes" using Cons.prems(4) by simp_all
  have "wpD first (\<lambda>(n, visited', S'). n = ?n \<and> calls_seen i d (insert ?n V) visited' \<and> dstate C (insert ?n V) E M S')"
  proof (cases "visited ?j")
    case (Some n)
    then have n: "n = ?n" "?n \<in> V" using Cons.prems(3) by (auto simp: calls_seen_def)
    then have "insert ?n V = V" by blast
    then show ?thesis using Some n Cons.prems(1,3) by (simp add: first_def wpD_def)
  next
    case None
    then have "?j \<noteq> i" using Cons.prems(3) by (auto simp: calls_seen_def)
    then have n: "?n = decimal ?j" by (simp add: call_node_def)
    have seen: "calls_seen i d (insert ?n V) (visited(?j \<mapsto> ?n))" using Cons.prems(3) \<open>?j \<noteq> i\<close> by (auto simp: calls_seen_def)
    show ?thesis unfolding first_def None option.case n
      by (rule drawing_rules Cons.prems(1) known(1) insertI1 | assumption | simp add: seen [unfolded n])+
  qed
  then obtain visited1 S1 where S1: "first = Inr (?n, visited1, S1)" "calls_seen i d (insert ?n V) visited1" "dstate C (insert ?n V) E M S1"
    by (auto simp: wpD_def)
  have c: "?c \<in> insert ?n V" using Cons.prems(2) by simp
  have ends: "fst ?e \<in> insert ?n V" "snd ?e \<in> insert ?n V" using c by auto
  obtain Sub where "gstate C (insert ?n V) E Sub M (dr_graph S1)" using S1(3) by (auto simp: dstate_def)
  from wpG_hasEdge [OF this ends, of "\<lambda>b. b = (?e \<in> E)"] have has: "hasEdge C (fst ?e) (snd ?e) (dr_graph S1) = Some (?e \<in> E)"
    by (auto simp: wpG_def)
  obtain S2 M2 where S2: "(if ?e \<in> E then Inr S1 else bindE (symbol_edge C (fst ?e) (snd ?e) edgeDeco S1) (\<lambda>(e, S). Inr S)) = Inr S2"
    "dstate C (insert ?n V) (insert ?e E) M2 S2"
  proof (cases "?e \<in> E")
    case True
    then have "insert ?e E = E" by blast
    then show ?thesis using that [of S1 M] True S1(3) by simp
  next
    case False
    have "wpD (symbol_edge C (fst ?e) (snd ?e) edgeDeco S1) (\<lambda>(e, S). \<exists>M. dstate C (insert ?n V) (insert ?e E) M S)"
      by (rule wpD_symbol_edge [OF S1(3) ends]) auto
    then show ?thesis using that False by (auto simp: wpD_def)
  qed
  have eqs: "insert ?n V \<union> call_node i d ` ni_id ` set nodes = V \<union> call_node i d ` ni_id ` set (node # nodes)"
    "insert ?e E \<union> call_edges forward ?c (call_node i d ` ni_id ` set nodes) = E \<union> call_edges forward ?c (call_node i d ` ni_id ` set (node # nodes))"
    by (auto simp: call_edges_def)
  have "draw_calls C P forward nodeDeco edgeDeco ?c (node # nodes) visited S = draw_calls C P forward nodeDeco edgeDeco ?c nodes visited1 S2"
  proof -
    have "draw_calls C P forward nodeDeco edgeDeco ?c (node # nodes) visited S =
        (if ?e \<in> E then draw_calls C P forward nodeDeco edgeDeco ?c nodes visited1 S1
         else bindE (symbol_edge C (fst ?e) (snd ?e) edgeDeco S1) (\<lambda>(e, S). draw_calls C P forward nodeDeco edgeDeco ?c nodes visited1 S))"
      using has unfolding draw_calls.simps(2) first_def [symmetric] S1(1) by (simp add: Let_def)
    also have "\<dots> = draw_calls C P forward nodeDeco edgeDeco ?c nodes visited1 S2"
      using S2(1) by (cases "?e \<in> E"; cases "symbol_edge C (fst ?e) (snd ?e) edgeDeco S1") auto
    finally show ?thesis .
  qed
  then show ?case using Cons.IH [OF S2(2) c S1(2) known(2)] unfolding eqs by simp
qed

lemma new_drawing_state:
  assumes "cgraph_laws C" "\<forall>a b. \<not> ag_has_edge C (ag_empty C) a b"
  shows "dstate C {} {} {} ((new_drawing C)\<lparr>dr_graph := setAttribute C k v (dr_graph (new_drawing C))\<rparr>)"
  using gstate_setAttribute [OF gstate_new [OF assms], of k v] by (auto simp: dstate_def new_drawing_def)

lemma dstate_sets: "dstate C V E M S \<Longrightarrow> node_set C (dr_graph S) = V \<and> edge_set C (dr_graph S) = E"
  by (auto simp: dstate_def gstate_def)


text \<open>The references that are listed, and whether they can be.\<close>

definition refs_ok :: "service_db \<Rightarrow> nat \<Rightarrow> reference_type \<Rightarrow> bool" where
  "refs_ok T i ref \<longleftrightarrow> \<not> isl (srv_getReferences T i ref)"

definition refs :: "service_db \<Rightarrow> nat \<Rightarrow> reference_type \<Rightarrow> node_info list" where
  "refs T i ref = (case srv_getReferences T i ref of Inl e \<Rightarrow> [] | Inr infos \<Rightarrow> infos)"

lemma references_of_refs: "refs_ok T i ref \<Longrightarrow> references_of T i ref = Inr (refs T i ref)"
  by (cases "srv_getReferences T i ref") (simp_all add: refs_ok_def refs_def references_of_def from_service_def)

text \<open>The types of the data members of a class: of each member the first one.\<close>

definition member_types :: "service_db \<Rightarrow> node_info list \<Rightarrow> nat set" where
  "member_types T members = (\<Union>m \<in> set members. ni_id ` set (take 1 (refs T (ni_id m) reference_type.TYPE)))"

definition used_types :: "service_db \<Rightarrow> nat \<Rightarrow> nat set" where
  "used_types T r = member_types T (refs T r DATA_MEMBER)"

definition member_ok :: "service_db \<Rightarrow> project_db \<Rightarrow> node_info \<Rightarrow> bool" where
  "member_ok T P m \<longleftrightarrow> refs_ok T (ni_id m) reference_type.TYPE \<and> list_all (file_known P) (take 1 (refs T (ni_id m) reference_type.TYPE))"

definition class_ok :: "service_db \<Rightarrow> project_db \<Rightarrow> node_info \<Rightarrow> bool" where
  "class_ok T P r \<longleftrightarrow> refs_ok T (ni_id r) DATA_MEMBER \<and> list_all (member_ok T P) (refs T (ni_id r) DATA_MEMBER)"

definition seen :: "string set \<Rightarrow> (nat \<rightharpoonup> string) \<Rightarrow> bool" where
  "seen V visited \<longleftrightarrow> (\<forall>j n. visited j = Some n \<longrightarrow> n = decimal j \<and> n \<in> V)"

lemma seen_insert: "seen V visited \<Longrightarrow> seen (insert (decimal j) V) (visited(j \<mapsto> decimal j))"
  by (auto simp: seen_def)

lemma draw_inheritance_drawn:
  assumes "dstate C V E M S" "center \<in> V" "seen V visited" "list_all (file_known P) nodes"
  shows "wpD (draw_inheritance C P forward center nodes visited S)
    (\<lambda>(visited', S'). seen (V \<union> decimal ` ni_id ` set nodes) visited' \<and> dom visited' = dom visited \<union> ni_id ` set nodes \<and>
      (\<exists>M'. dstate C (V \<union> decimal ` ni_id ` set nodes) (E \<union> call_edges forward center (decimal ` ni_id ` set nodes)) M' S'))"
  using assms
proof (induction nodes arbitrary: V E M S visited)
  case Nil
  then show ?case by (auto simp: wpD_def call_edges_def)
next
  case (Cons node nodes)
  let ?j = "ni_id node"
  let ?n = "decimal ?j"
  let ?e = "(if forward then center else ?n, if forward then ?n else center)"
  have known: "file_known P node" "list_all (file_known P) nodes" using Cons.prems(4) by simp_all
  have c: "center \<in> insert ?n V" using Cons.prems(2) by simp
  have IH: "wpD (draw_inheritance C P forward center nodes (visited(?j \<mapsto> ?n)) S')
      (\<lambda>(visited', S'). seen (V \<union> decimal ` ni_id ` set (node # nodes)) visited' \<and> dom visited' = dom visited \<union> ni_id ` set (node # nodes) \<and>
        (\<exists>M'. dstate C (V \<union> decimal ` ni_id ` set (node # nodes)) (E \<union> call_edges forward center (decimal ` ni_id ` set (node # nodes))) M' S'))"
    if "dstate C (insert ?n V) (insert ?e E) M' S'" for M' S'
  proof -
    have eqs: "insert ?n V \<union> decimal ` ni_id ` set nodes = V \<union> decimal ` ni_id ` set (node # nodes)"
      "insert ?e E \<union> call_edges forward center (decimal ` ni_id ` set nodes) = E \<union> call_edges forward center (decimal ` ni_id ` set (node # nodes))"
      "dom (visited(?j \<mapsto> ?n)) \<union> ni_id ` set nodes = dom visited \<union> ni_id ` set (node # nodes)"
      by (auto simp: call_edges_def)
    show ?thesis using Cons.IH [OF that c seen_insert [OF Cons.prems(3)] known(2)] unfolding eqs .
  qed
  have ends: "(if forward then center else ?n) \<in> insert ?n V" "(if forward then ?n else center) \<in> insert ?n V" using c by auto
  show ?case unfolding draw_inheritance.simps
    by (rule drawing_rules Cons.prems(1) known(1) ends insertI1 | assumption | erule IH)+
qed

text \<open>The maps of the loop over related classes: known nodes, and edges that have been drawn.\<close>

definition collaboration ::
    "'g cgraph \<Rightarrow> string set \<Rightarrow> (string \<times> string) set \<Rightarrow> nat set \<Rightarrow> (nat \<rightharpoonup> string) \<times> (string \<times> string \<rightharpoonup> string) \<times> 'g drawing \<Rightarrow> bool" where
  "collaboration C V E A D \<longleftrightarrow> (case D of (visitedNodes, visitedEdges, S) \<Rightarrow>
     seen V visitedNodes \<and> A \<subseteq> dom visitedNodes \<and>
     (\<exists>M. dstate C V E M S \<and> (\<forall>p e. visitedEdges p = Some e \<longrightarrow> p \<in> E \<and> e \<in> M)))"

lemma draw_use_drawn:
  assumes D: "collaboration C V E A (visitedNodes, visitedEdges, S)" and ab: "a \<in> V" "b \<in> V"
  shows "wpD (draw_use C a b label visitedEdges S) (\<lambda>(visitedEdges', S'). collaboration C V (insert (a, b) E) A (visitedNodes, visitedEdges', S'))"
proof -
  obtain M where M: "dstate C V E M S" "\<forall>p e. visitedEdges p = Some e \<longrightarrow> p \<in> E \<and> e \<in> M"
    and seen: "seen V visitedNodes" "A \<subseteq> dom visitedNodes" using D by (auto simp: collaboration_def)
  show ?thesis
  proof (cases "visitedEdges (a, b)")
    case None
    have post: "collaboration C V (insert (a, b) E) A (visitedNodes, visitedEdges((a, b) \<mapsto> e), S')"
      if "dstate C V (insert (a, b) E) (insert e M) S'" for e S'
      using that M(2) seen by (fastforce simp: collaboration_def)
    show ?thesis unfolding draw_use_def None option.case
      by (rule drawing_rules M(1) ab insertI1 | assumption | simp add: post)+
  next
    case (Some e)
    then have e: "e \<in> M" "insert (a, b) E = E" using M(2) by blast+
    obtain Sub where "gstate C V E Sub M (dr_graph S)" using M(1) by (auto simp: dstate_def)
    from wpG_getEdgeAttribute [OF this e(1), of "\<lambda>_. True" "''label''"] obtain old where
      old: "getEdgeAttribute C e ''label'' (dr_graph S) = Some old" by (auto simp: wpG_def)
    have post: "collaboration C V E A (visitedNodes, visitedEdges, S')" if "dstate C V E M S'" for S'
      using that M(2) seen by (auto simp: collaboration_def)
    show ?thesis unfolding draw_use_def Some option.case old e(2)
      by (rule drawing_rules M(1) e(1) | assumption | simp add: post)+
  qed
qed

lemma draw_member_drawn:
  assumes D: "collaboration C V E A D" and r: "r \<in> A" and known: "list_all (file_known P) (take 1 types)"
  shows "wpD (draw_member C P r member types D)
    (collaboration C (V \<union> decimal ` ni_id ` set (take 1 types)) (E \<union> {decimal r} \<times> decimal ` ni_id ` set (take 1 types)) A)"
proof (cases types)
  case Nil
  then show ?thesis using D by (cases D) (simp add: draw_member_def wpD_def)
next
  case (Cons t ts)
  obtain vn ve S where D': "D = (vn, ve, S)" by (cases D)
  let ?n = "decimal (ni_id t)"
  obtain M where M: "dstate C V E M S" "\<forall>p e. ve p = Some e \<longrightarrow> p \<in> E \<and> e \<in> M" and seen: "seen V vn" "A \<subseteq> dom vn"
    using D by (auto simp: collaboration_def D')
  have t: "file_known P t" using known Cons by simp
  define first where "first = (case vn (ni_id t) of Some n \<Rightarrow> Inr (n, vn, S)
    | None \<Rightarrow> bindE (symbol_addNode C P t S) (\<lambda>(n, S). bindE (decorate_symbol C n classNodeDecoration S) (\<lambda>S. Inr (n, vn(ni_id t \<mapsto> n), S))))"
  have "wpD first (\<lambda>(n, vn', S'). n = ?n \<and> collaboration C (insert ?n V) E A (vn', ve, S'))"
  proof (cases "vn (ni_id t)")
    case (Some n)
    then have "n = ?n" "insert ?n V = V" using seen by (auto simp: seen_def)
    then show ?thesis using Some D by (simp add: first_def wpD_def D')
  next
    case None
    have post: "collaboration C (insert ?n V) E A (vn(ni_id t \<mapsto> ?n), ve, S')" if "dstate C (insert ?n V) E M S'" for S'
      using that M(2) seen seen_insert [OF seen(1)] by (auto simp: collaboration_def)
    show ?thesis unfolding first_def None option.case
      by (rule drawing_rules M(1) t insertI1 | assumption | simp add: post)+
  qed
  then obtain vn1 S1 where S1: "first = Inr (?n, vn1, S1)" "collaboration C (insert ?n V) E A (vn1, ve, S1)" by (auto simp: wpD_def)
  then obtain m where m: "vn1 r = Some m" using r by (auto simp: collaboration_def)
  then have "m = decimal r" "m \<in> insert ?n V" using S1(2) by (auto simp: collaboration_def seen_def)
  with m have r': "vn1 r = Some (decimal r)" "decimal r \<in> insert ?n V" by simp_all
  from draw_use_drawn [OF S1(2) r'(2) insertI1, of "ni_astNodeValue member"] obtain ve2 S2 where
    S2: "draw_use C (decimal r) ?n (ni_astNodeValue member) ve S1 = Inr (ve2, S2)"
      "collaboration C (insert ?n V) (insert (decimal r, ?n) E) A (vn1, ve2, S2)" by (auto simp: wpD_def)
  have "draw_member C P r member types D = Inr (vn1, ve2, S2)"
    using S1(1) S2(1) r'(1) unfolding draw_member_def Cons D' by (simp add: first_def [symmetric] Let_def)
  then show ?thesis using S2(2) by (simp add: wpD_def Cons)
qed

lemma draw_members_drawn:
  assumes "collaboration C V E A D" "r \<in> A" "list_all (member_ok T P) members"
  shows "wpD (draw_members C T P r members D)
    (collaboration C (V \<union> decimal ` member_types T members) (E \<union> {decimal r} \<times> decimal ` member_types T members) A)"
  using assms
proof (induction members arbitrary: V E D)
  case Nil
  then show ?case by (simp add: wpD_def member_types_def)
next
  case (Cons m members)
  let ?ts = "refs T (ni_id m) reference_type.TYPE" and ?N = "decimal ` member_types T (m # members)"
  have m: "refs_ok T (ni_id m) reference_type.TYPE" "list_all (file_known P) (take 1 ?ts)" "list_all (member_ok T P) members"
    using Cons.prems(3) unfolding list.pred_inject member_ok_def [of T P m] by blast+
  from draw_member_drawn [OF Cons.prems(1,2) m(2), of m] obtain D1 where
    D1: "draw_member C P r m ?ts D = Inr D1"
      "collaboration C (V \<union> decimal ` ni_id ` set (take 1 ?ts)) (E \<union> {decimal r} \<times> decimal ` ni_id ` set (take 1 ?ts)) A D1"
    by (auto simp: wpD_def)
  have "member_types T (m # members) = ni_id ` set (take 1 ?ts) \<union> member_types T members" by (simp add: member_types_def)
  then have N: "?N = decimal ` ni_id ` set (take 1 ?ts) \<union> decimal ` member_types T members" by (simp only: image_Un)
  have eqs: "V \<union> decimal ` ni_id ` set (take 1 ?ts) \<union> decimal ` member_types T members = V \<union> ?N"
    "E \<union> {decimal r} \<times> decimal ` ni_id ` set (take 1 ?ts) \<union> {decimal r} \<times> decimal ` member_types T members = E \<union> {decimal r} \<times> ?N"
    unfolding N by blast+
  show ?case using Cons.IH [OF D1(2) Cons.prems(2) m(3)] D1(1) m(1) unfolding eqs by (simp add: references_of_refs)
qed

lemma draw_collaboration_drawn:
  assumes "collaboration C V E A D" "ni_id ` set rs \<subseteq> A" "list_all (class_ok T P) rs"
  shows "wpD (draw_collaboration C T P rs D)
    (collaboration C (V \<union> (\<Union>r \<in> ni_id ` set rs. decimal ` used_types T r)) (E \<union> (\<Union>r \<in> ni_id ` set rs. {decimal r} \<times> decimal ` used_types T r)) A)"
  using assms
proof (induction rs arbitrary: V E D)
  case Nil
  then show ?case by (simp add: wpD_def)
next
  case (Cons r rs)
  let ?U = "decimal ` used_types T (ni_id r)"
  have r: "refs_ok T (ni_id r) DATA_MEMBER" "list_all (member_ok T P) (refs T (ni_id r) DATA_MEMBER)" "ni_id r \<in> A" "ni_id ` set rs \<subseteq> A"
    "list_all (class_ok T P) rs" using Cons.prems(2,3) unfolding list.pred_inject class_ok_def [of T P r] by auto
  from draw_members_drawn [OF Cons.prems(1) r(3,2)] obtain D1 where
    D1: "draw_members C T P (ni_id r) (refs T (ni_id r) DATA_MEMBER) D = Inr D1"
      "collaboration C (V \<union> ?U) (E \<union> {decimal (ni_id r)} \<times> ?U) A D1" by (auto simp: wpD_def used_types_def)
  have eqs: "V \<union> ?U \<union> (\<Union>r \<in> ni_id ` set rs. decimal ` used_types T r) = V \<union> (\<Union>r \<in> ni_id ` set (r # rs). decimal ` used_types T r)"
    "E \<union> {decimal (ni_id r)} \<times> ?U \<union> (\<Union>r \<in> ni_id ` set rs. {decimal r} \<times> decimal ` used_types T r) =
     E \<union> (\<Union>r \<in> ni_id ` set (r # rs). {decimal r} \<times> decimal ` used_types T r)" by auto
  show ?case using Cons.IH [OF D1(2) r(4,5)] D1(1) r(1) unfolding eqs by (simp add: references_of_refs)
qed


lemma draw_detailed_drawn:
  assumes "dstate C V E M S" "center \<in> V" "list_all (\<lambda>n. file_known P n \<and> \<not> isl (getDetailedClassNodeLabel T n)) nodes"
  shows "wpD (draw_detailed C T P forward center nodes S)
    (\<lambda>S'. \<exists>M'. dstate C (V \<union> decimal ` ni_id ` set nodes) (E \<union> call_edges forward center (decimal ` ni_id ` set nodes)) M' S')"
  using assms
proof (induction nodes arbitrary: V E M S)
  case Nil
  then show ?case by (auto simp: wpD_def call_edges_def)
next
  case (Cons node nodes)
  let ?n = "decimal (ni_id node)"
  let ?e = "(if forward then center else ?n, if forward then ?n else center)"
  have known: "file_known P node" and rest: "list_all (\<lambda>n. file_known P n \<and> \<not> isl (getDetailedClassNodeLabel T n)) nodes"
    using Cons.prems(3) by simp_all
  obtain label where label: "getDetailedClassNodeLabel T node = Inr label"
    using Cons.prems(3) by (cases "getDetailedClassNodeLabel T node") auto
  have c: "center \<in> insert ?n V" using Cons.prems(2) by simp
  have ends: "(if forward then center else ?n) \<in> insert ?n V" "(if forward then ?n else center) \<in> insert ?n V" using c by auto
  have eqs: "insert ?n V \<union> decimal ` ni_id ` set nodes = V \<union> decimal ` ni_id ` set (node # nodes)"
    "insert ?e E \<union> call_edges forward center (decimal ` ni_id ` set nodes) = E \<union> call_edges forward center (decimal ` ni_id ` set (node # nodes))"
    by (auto simp: call_edges_def)
  have IH: "wpD (draw_detailed C T P forward center nodes S')
      (\<lambda>S'. \<exists>M'. dstate C (V \<union> decimal ` ni_id ` set (node # nodes)) (E \<union> call_edges forward center (decimal ` ni_id ` set (node # nodes))) M' S')"
    if "dstate C (insert ?n V) (insert ?e E) M' S'" for M' S' using Cons.IH [OF that c rest] unfolding eqs .
  show ?case unfolding draw_detailed.simps detailed_node_def label
    by (rule drawing_rules Cons.prems(1) known ends insertI1 | assumption | erule IH)+
qed

text \<open>The detailed diagram shows the class with its base and derived classes, if the label of each can be made.\<close>

theorem detailed_class_diagram:
  assumes laws: "cgraph_laws C" "\<forall>a b. \<not> ag_has_edge C (ag_empty C) a b"
    and d: "srv_getReferences T i DEFINITION = Inr (d # ds)"
    and bases: "srv_getReferences T (ni_id d) INHERIT_FROM = Inr bases" and derived: "srv_getReferences T (ni_id d) INHERIT_BY = Inr derived"
    and ok: "list_all (\<lambda>n. file_known P n \<and> \<not> isl (getDetailedClassNodeLabel T n)) (d # bases @ derived)"
  shows "\<exists>S. returnDiagram C T P i DETAILED_CLASS = Inr S \<and>
    node_set C (dr_graph S) = decimal ` ni_id ` set (d # bases @ derived) \<and>
    edge_set C (dr_graph S) = {decimal (ni_id d)} \<times> decimal ` ni_id ` set bases \<union> decimal ` ni_id ` set derived \<times> {decimal (ni_id d)}"
proof -
  let ?c = "decimal (ni_id d)"
  let ?S = "(new_drawing C)\<lparr>dr_graph := setAttribute C ''rankdir'' ''BT'' (dr_graph (new_drawing C))\<rparr>"
  obtain label where label: "getDetailedClassNodeLabel T d = Inr label" using ok by (cases "getDetailedClassNodeLabel T d") auto
  have "wpD (detailed_node C T P d ?S) (\<lambda>(n, S). n = ?c \<and> dstate C {?c} {} {} S)"
    unfolding detailed_node_def label
    by (rule drawing_rules new_drawing_state laws insertI1 | assumption | use ok in simp)+
  then obtain S1 where S1: "detailed_node C T P d ?S = Inr (?c, S1)" "dstate C {?c} {} {} S1" by (auto simp: wpD_def)
  from draw_detailed_drawn [OF S1(2), of ?c P T bases True] ok obtain S2 M2 where
    S2: "draw_detailed C T P True ?c bases S1 = Inr S2"
      "dstate C ({?c} \<union> decimal ` ni_id ` set bases) (call_edges True ?c (decimal ` ni_id ` set bases)) M2 S2" by (auto simp: wpD_def)
  from draw_detailed_drawn [OF S2(2), of ?c P T derived False] ok obtain S3 M3 where
    S3: "draw_detailed C T P False ?c derived S2 = Inr S3"
      "dstate C ({?c} \<union> decimal ` ni_id ` set bases \<union> decimal ` ni_id ` set derived)
        (call_edges True ?c (decimal ` ni_id ` set bases) \<union> call_edges False ?c (decimal ` ni_id ` set derived)) M3 S3" by (auto simp: wpD_def)
  have "returnDiagram C T P i DETAILED_CLASS = Inr S3" using S1(1) S2(1) S3(1) d bases derived
    by (simp add: getDetailedClassDiagram_def references_of_def from_service_def Let_def)
  then show ?thesis using dstate_sets [OF S3(2)] by (auto simp: call_edges_def image_Un)
qed

text \<open>Markup in the name of a member is escaped twice, so the reader sees the entity and not the character.\<close>

lemma member_escaped_twice:
  "shown_html (memberContentToHtml node (escapeHtml ''vector<int>'')) \<noteq> ''vector<int>''" if "ni_tags node = []"
proof -
  have "shown_html (escapeHtml (escapeHtml ''vector<int>'')) \<noteq> ''vector<int>''" by code_simp
  then show ?thesis using that by (simp add: memberContentToHtml_def Let_def)
qed

section \<open>Examples\<close>

lemma example_call_references:
  "(case srv_getReferences example_db 1 DEFINITION of Inr [d] \<Rightarrow> ni_id d = 1 \<and> file_known example_project d | _ \<Rightarrow> False)"
  "(case srv_getReferences example_db 1 CALLEE of Inr [d] \<Rightarrow> ni_id d = 4 \<and> file_known example_project d | _ \<Rightarrow> False)"
  "srv_getReferences example_db 1 CALLER = Inr []"
  by code_simp+


text \<open>A class with a base class that is also the type of its field.\<close>

definition class_node :: "nat \<Rightarrow> nat \<Rightarrow> nat \<Rightarrow> symbol_type \<Rightarrow> ast_node" where
  "class_node i f hash symbol =
     \<lparr>an_id = i, an_value = ''c'', an_file = Some f, an_start = at_position 1 1, an_end = at_position 2 1, an_hash = hash,
      an_symbol = symbol, an_type = Definition_Node, an_visible = True\<rparr>"

definition class_db :: service_db where
  "class_db = example_db\<lparr>
     sv_nodes := [class_node 1 3 10 Type_Symbol, class_node 2 5 20 Type_Symbol, class_node 3 3 30 Variable_Symbol],
     sv_inheritance := [\<lparr>ih_derived = 10, ih_base = 20\<rparr>],
     sv_members := [\<lparr>mb_typeHash = 10, mb_node = 3, mb_kind = Field, mb_visibility = Public\<rparr>],
     sv_variables := [\<lparr>va_astNodeId = 3, va_entityHash = 30, va_name = ''c'', va_qualifiedName = ''c'', va_qualifiedType = ''B'',
       va_typeHash = 20, va_tags = []\<rparr>],
     sv_records := [\<lparr>rd_astNodeId = 2, rd_entityHash = 20, rd_name = ''B'', rd_qualifiedName = ''B'', rd_isAbstract = False, rd_isPOD = False\<rparr>]\<rparr>"

lemma example_class_references:
  "(case srv_getReferences class_db 1 DEFINITION of Inr [d] \<Rightarrow> ni_id d = 1 \<and> file_known example_project d \<and> class_ok class_db example_project d | _ \<Rightarrow> False)"
  "(case srv_getReferences class_db 1 INHERIT_FROM of Inr [d] \<Rightarrow> ni_id d = 2 \<and> file_known example_project d \<and> class_ok class_db example_project d | _ \<Rightarrow> False)"
  "srv_getReferences class_db 1 INHERIT_BY = Inr []"
  "used_types class_db 1 = {2}" "used_types class_db 2 = {}"
  by code_simp+


end
