(* ===== verification/Spec2Isabelle.thy ===== *)
theory Spec2Isabelle
  imports LoggerLog WebServer ParserMain ParserWalk CppMetrics CppPreproc CppDiagram
begin

text \<open>
  A model of CodeCompass and of the build logger it is shipped with. The program has four parts that are
  modelled: the logger that is preloaded into a build and writes a compilation database; the parser
  program, which walks a project, keeps a database of files and calls parser plugins; the web server,
  which authenticates users and hands requests to plugins; and the language server, one of them. Each
  theory names the source files it models, and its definitions carry the names of the functions there.

  \<^bold>\<open>Shared.\<close> \<open>CPrelude\<close>: faults of C and C++ code as values of a sum (\<open>fault\<close>, \<open>bindC\<close>, \<open>assertC\<close>),
  C strings, runs of a step relation (\<open>reachable\<close>, with a rule for invariants) and lemmas about lists
  that several theories use. \<open>CppString\<close>: the operations of \<open>std::string\<close>, with positions modulo the width
  of \<open>size_t\<close>.

  \<^bold>\<open>Logger\<close> (\<^verbatim>\<open>src/logger/src\<close>). \<open>LoggerStrings\<close>, \<open>LoggerPath\<close> and \<open>LoggerVector\<close> model \<^verbatim>\<open>ldlogger-util.c\<close>: strings with
  their buffers, \<open>makePathAbsRec\<close> and path resolution, and vectors with their allocation failures and
  the ownership of their elements. \<open>LoggerAction\<close> and \<open>LoggerTool\<close> model \<^verbatim>\<open>ldlogger-tool.c\<close>, \<open>LoggerGcc\<close> and
  \<open>LoggerJavac\<close> the two argument parsers. \<open>LoggerJson\<close> and \<open>LoggerLog\<close> model \<^verbatim>\<open>ldlogger-logger.c\<close>: the text of the log, and
  the lock, the entry point \<open>logExec\<close> and several processes that log at once; the exec hooks are in
  \<open>LoggerLog\<close> as well. \<open>LoggerResolve\<close> bounds the resolution of paths. The parsers refine specifications on plain
  lists, the log refines the list of its entries, and the theorem of this theory puts the parts together.

  \<^bold>\<open>Web server\<close> (\<^verbatim>\<open>src/webserver\<close>). \<open>WebAuth\<close> models the authentication with its two backends, \<open>WebSession\<close> the
  session table and its cookies, \<open>WebServer\<close> the request handler and the interleaving of the threads that run
  it. The lemmas show what a login gives, what a logout takes, and that no interleaving serves a
  protected address without a login that is still valid.

  \<^bold>\<open>Parser program\<close> (\<^verbatim>\<open>src/parser\<close>, \<^verbatim>\<open>src/util\<close>). \<open>UtilThreadPool\<close> models both thread pools as transition systems whose
  workers interleave at every access to shared state; the contract that is common to them is the locale
  \<open>job_pool\<close>, interpreted for both. \<open>UtilDb\<close>: connection strings, the pool of open databases, the passes
  over SQL files. \<open>ParserSource\<close>: the source manager with its caches and tables, hashes, the detection of
  changed files and the clean-up of an incremental parse. \<open>ParserMain\<close>: the loading of plugins and the
  workflow of \<^verbatim>\<open>parser.cpp\<close> as the list of what it does. \<open>ParserWalk\<close>: the recursive walk over directories
  and the metrics and search parsers that use it; \<open>MetricsLoc\<close>: the counting of lines.

  \<^bold>\<open>C++ plugin, parser\<close> (\<^verbatim>\<open>src/plugins/cpp/parser\<close>). \<open>CppModel\<close> holds the entities of the database and their identifiers.
  \<open>CppBuild\<close> models how \<^verbatim>\<open>cppparser.cpp\<close> reads compile commands and stores build actions, with the job queue of \<open>parseByJson\<close>;
  \<open>CppCleanup\<close> the incremental part of the same file: which files count as changed, the levels in which they are
  cleaned up, and the deletion of their rows by the workers of a pool. \<open>CppSymbols\<close> models \<^verbatim>\<open>symbolhelper.cpp\<close> and \<^verbatim>\<open>doccommentformatter.cpp\<close>,
  \<open>CppPreproc\<close> the callbacks of the preprocessor, the entity cache, the edges between files and the diagnostics.
  \<open>CppScope\<close> models the statement scopes of \<^verbatim>\<open>nestedscope.cpp\<close> and the counters of the syntax tree visitor,
  and shows that they compute a contract on the tree; \<open>CppMetrics\<close> takes the recorded functions from there,
  models every metric of \<^verbatim>\<open>cppmetricsparser.cpp\<close> on tables, and the division of the work over the
  threads of \<open>UtilThreadPool\<close>, whose facts it uses through the interpretation \<open>pooled\<close>.

  \<^bold>\<open>C++ plugin, service\<close> (\<^verbatim>\<open>src/plugins/cpp/service\<close>). \<open>CppService\<close> models the queries of \<^verbatim>\<open>cppservice.cpp\<close> on tables: nodes, tags,
  references and their counts; \<open>CppServiceInfo\<close> the rest of that file: the node at a position, properties, source
  texts, documentation and syntax highlighting. The search along relations is the \<open>worklist\<close> of theory \<open>Worklist\<close>, which is shown
  to compute a transitive closure. \<open>CppFileDiagram\<close> models \<^verbatim>\<open>filediagram.cpp\<close>: the relations of files and directories, the
  six diagrams and their legends; \<open>CppDiagram\<close> those of functions and classes in \<^verbatim>\<open>diagram.cpp\<close>, and the choice between all of
  them. The lemmas state the nodes and edges of each diagram in terms of the tables.

  \<^bold>\<open>Project service and graphs\<close> (\<^verbatim>\<open>src/service/project\<close>, \<^verbatim>\<open>src/util\<close>). \<open>ProjectService\<close> models every query of \<^verbatim>\<open>projectservice.cpp\<close>
  on the tables that the source manager of \<open>ParserSource\<close> fills. \<open>UtilGraph\<close> models \<^verbatim>\<open>graph.cpp\<close> and the breadth-first search of
  \<^verbatim>\<open>graph.h\<close> over an abstract graph library with its laws, and \<open>UtilLegend\<close> the builder of legends on top of it. \<open>UtilText\<close>: text
  ranges and escaping.

  \<^bold>\<open>Language server.\<close> \<open>LspTypes\<close> models the structures of the protocol over property trees, \<open>LspService\<close> the request
  handler of the web server and the base service, \<open>CppLsp\<close> the service of the C++ plugin. The locale
  \<open>lsp_methods\<close> states what the handler needs of a service to answer with well-formed responses; it is
  interpreted for the base service and for the C++ service.

  \<^bold>\<open>Bounds.\<close> Lengths and positions are natural numbers that are taken modulo \<open>SIZE_MAX + 1\<close> where the code computes
  with them; counters of the visitor and hashes are machine words. Recursions that need not end have a fuel
  argument or are partial functions: \<open>makePathAbsRec\<close> (ends for paths below PATH_MAX, see \<open>LoggerResolve\<close>), \<open>getFile\<close> of the
  source manager (some fuel is always enough: \<open>getFile_returns\<close>), the comment loops of \<open>MetricsLoc\<close> (the texts
  on which they do not end are characterised), the diagram loops of \<open>CppLsp\<close> (one round more than there are
  neighbours is enough), the breadth-first search of \<open>UtilGraph\<close> (ends when finitely many nodes are reachable) and the
  subtree of \<open>ProjectService\<close> (ends when no file is its own ancestor).

  \<^bold>\<open>Parameters.\<close> System calls and the file system, compilers run by the logger, dynamic libraries, LDAP, Clang, Boost (paths,
  JSON text, SHA-1), libmagic, Graphviz, ODB and the database servers. Theorems about them take what they
  answer as arguments, with the laws they need as named hypotheses.

  \<^bold>\<open>Not modelled.\<close> The database layer behind the tables; the Clang visitor beyond what it counts, which
  only copies what Clang says; the Thrift services of Git,
  search, metrics and workspaces, which are glue around libraries and database queries; the Java plugin and the web user
  interface, which are written in other languages; \<^verbatim>\<open>mongoose.c\<close>, which is third-party code; command line
  options, logging of messages, and the start-up of the server.
\<close>

section \<open>A compilation is logged\<close>

text \<open>The entries a GCC-like command adds to the log.\<close>

definition gcc_log_entries :: "os \<Rightarrow> string \<Rightarrow> string list \<Rightarrow> string list \<Rightarrow> log_entry list" where
  "gcc_log_entries os wd argv ws =
     map (\<lambda>src. \<lparr>le_directory = wd, le_command = words_text ws, le_file = src\<rparr>)
       (removeAll (gcc_output os LoggerGcc.Normal argv (noobj os))
         (insert_all [] (gcc_sources os LoggerGcc.Normal argv)))"

lemma gcc_arguments_nonempty: "gcc_arguments (w # ws) dirs pos = Inr l \<Longrightarrow> l \<noteq> []"
  by (auto simp: gcc_arguments_def split: if_splits)

lemma collect_gcc:
  assumes ok: "gcc_input_ok os k prog (tool_name prog) argv"
    and gcc: "matchToProgramList (os_alloc os) environ ''CC_LOGGER_GCC_LIKE'' (tool_name prog)"
    and ws: "gcc_arguments (tool_name prog # gcc_words os LoggerGcc.Normal argv)
        (gcc_default_dirs os (turnLogging False environ) prog)
        (gcc_inc_pos os LoggerGcc.Normal argv 1 1) = Inr ws"
    and acts: "vec_tight acts" "vec_list acts = []"
  obtains a acts' where
    "loggerCollectActionsByProgName os environ prog (a0 # argv) acts =
       Inr (1, acts', turnLogging True (turnLogging False environ))"
    "vec_ok acts'" "vec_list acts' = [a]" "gcc_action_spec os argv ws a"
proof -
  have lim: "length (vec_list acts) < VEC_LIMIT" using acts(2) by (simp add: VEC_LIMIT_def)
  from gcc_collect_lemma [OF ok acts(1) lim refl, of "turnLogging False environ" a0] ws
  obtain acts' a where a: "loggerGccParserCollectActions os (turnLogging False environ) prog
        (tool_name prog) (a0 # argv) acts = Inr (1, acts')"
      "vec_ok acts'" "vec_list acts' = [a]" "gcc_action_spec os argv ws a"
    using acts(2) by auto
  show thesis
    by (rule that [OF _ a(2-4)]) (simp add: loggerCollectActionsByProgName_def Let_def gcc a(1))
qed

lemma gcc_entries:
  assumes "gcc_action_spec os argv ws a" "os_alloc os (command_size ws)"
  shows "action_entries (os_alloc os) wd a = gcc_log_entries os wd argv ws"
  using assms by (simp add: gcc_action_spec_def action_entries_def gcc_log_entries_def Let_def)

text \<open>
  C1: end to end, when a GCC-like compiler is executed under the logger, every system call on the
  log succeeds and the input fits its buffers, \<open>logExec\<close> returns 0 and the log has grown by one
  entry for each distinct source, with the working directory and the command as the parser
  specification gives them; the entries that were there before are kept.
\<close>

theorem compilation_is_logged:
  assumes ok: "gcc_input_ok os k prog (tool_name prog) argv"
    and gcc: "matchToProgramList (os_alloc os) (lg_environ s) ''CC_LOGGER_GCC_LIKE'' (tool_name prog)"
    and ws: "gcc_arguments (tool_name prog # gcc_words os LoggerGcc.Normal argv)
        (gcc_default_dirs os (turnLogging False (lg_environ s)) prog)
        (gcc_inc_pos os LoggerGcc.Normal argv 1 1) = Inr ws"
    and fit: "length (words_text ws) < command_size ws"
    and wd: "loggerMakePathAbs os PATH_MAX ''.'' True = Inr (Some wd)"
    and env: "getenv (lg_environ s) ''CC_LOGGER_FILE'' = Some logfile"
    and path: "loggerMakePathAbs os PATH_MAX logfile False = Inr (Some p)" "length p + 5 < PATH_MAX"
    and io: "\<And>f. io_open_lock io f" "\<And>f. io_flock io f" "io_open_log io logfile" "io_fdopen io"
    and log: "lg_content s = [] \<and> es = [] \<or> lg_content s = render es"
  shows "\<exists>t. logExec os io (prog # a0 # argv) s = Inr (0, t) \<and>
    lg_content t = render (es @ gcc_log_entries os wd argv ws) \<and>
    lg_trace t = lg_trace s @ [Locked (p @ LOCK_SUFFIX), Log_Opened, Log_Written (lg_content t),
      Log_Closed, Unlocked (p @ LOCK_SUFFIX)]"
proof -
  let ?acts = "snd (loggerVectorInitAdv (os_alloc os) 10 True) :: action vec"
  have mem: "\<And>n. os_alloc os n" using ok by (simp add: gcc_input_ok_def)
  have init: "vec_tight ?acts" "vec_list ?acts = []"
    using loggerVectorInit_granted [of "os_alloc os" ?acts, OF mem] by (simp_all add: loggerVectorInit_def)
  obtain a acts where a: "loggerCollectActionsByProgName os (lg_environ s) prog (a0 # argv) ?acts =
        Inr (1, acts, turnLogging True (turnLogging False (lg_environ s)))"
      "vec_ok acts" "vec_list acts = [a]" "gcc_action_spec os argv ws a"
    using collect_gcc [OF ok gcc ws init] by blast
  have "loggable a"
    using a(4) fit gcc_arguments_nonempty [OF ws] by (simp add: gcc_action_spec_def loggable_def Let_def)
  with a have acts: "\<forall>a \<in> set (vec_list acts). loggable a" by simp
  have l: "is_log (lg_content s) es" using log by (simp add: is_log_def)
  obtain f where f: "writeActions (os_alloc os) (lg_content s) wd acts = Inr f"
      "is_log f (es @ new_entries (os_alloc os) wd acts)" "f \<noteq> []"
    using writeActions_log [OF l a(2) acts, of "os_alloc os" wd] a(3) by auto
  have "new_entries (os_alloc os) wd acts = gcc_log_entries os wd argv ws"
    using a(3) gcc_entries [OF a(4) mem] by (simp add: new_entries_def)
  with f(2,3) have content: "f = render (es @ gcc_log_entries os wd argv ws)" by (simp add: is_log_def)
  have "logExec os io (prog # a0 # argv) s =
      Inr (0, s\<lparr>lg_content := f, lg_environ := turnLogging True (turnLogging False (lg_environ s)),
        lg_trace := lg_trace s @ [Locked (p @ LOCK_SUFFIX), Log_Opened, Log_Written f,
          Log_Closed, Unlocked (p @ LOCK_SUFFIX)]\<rparr>)"
    using a(1) f(1) wd env path io mem
    by (simp add: logExec_def aquireLock_def logProgramArgs_def freeLock_def emit_def strcat_buf_def
        strcpy_buf_def LOCK_SUFFIX_def)
  with content show ?thesis by simp
qed

theorem compilation_is_logged_witness:
  "\<exists>t io. logExec example_os io [''/usr/bin/gcc'', ''gcc'', ''a.c''] \<lparr>lg_content = [],
      lg_environ = [''CC_LOGGER_GCC_LIKE=gcc'', ''CC_LOGGER_FILE=/w/log''], lg_trace = []\<rparr> = Inr (0, t) \<and>
     lg_content t = render [\<lparr>le_directory = ''/w'', le_command = ''gcc -I/usr/include /w/a.c'', le_file = ''/w/a.c''\<rparr>]"
proof -
  let ?env = "[''CC_LOGGER_GCC_LIKE=gcc'', ''CC_LOGGER_FILE=/w/log'']"
  let ?s = "\<lparr>lg_content = [], lg_environ = ?env, lg_trace = []\<rparr> :: logger"
  let ?io = "\<lparr>io_open_lock = (\<lambda>_. True), io_flock = (\<lambda>_. True), io_open_log = (\<lambda>_. True), io_fdopen = True\<rparr> :: logio"
  let ?ws = "[''gcc'', ''-I/usr/include'', ''/w/a.c'']"
  have tool: "tool_name ''/usr/bin/gcc'' = ''gcc''" by code_simp
  have ok: "gcc_input_ok example_os 0 ''/usr/bin/gcc'' (tool_name ''/usr/bin/gcc'') [''a.c'']"
    unfolding tool by (rule example_input_ok; code_simp)
  have gcc: "matchToProgramList (os_alloc example_os) (lg_environ ?s) ''CC_LOGGER_GCC_LIKE'' (tool_name ''/usr/bin/gcc'')"
    by code_simp
  have ws: "gcc_arguments (tool_name ''/usr/bin/gcc'' # gcc_words example_os LoggerGcc.Normal [''a.c''])
        (gcc_default_dirs example_os (turnLogging False (lg_environ ?s)) ''/usr/bin/gcc'')
        (gcc_inc_pos example_os LoggerGcc.Normal [''a.c''] 1 1) = Inr ?ws" by code_simp
  have fit: "length (words_text ?ws) < command_size ?ws" by code_simp
  have wd: "loggerMakePathAbs example_os PATH_MAX ''.'' True = Inr (Some ''/w'')" by code_simp
  have env: "getenv (lg_environ ?s) ''CC_LOGGER_FILE'' = Some ''/w/log''" by code_simp
  have path: "loggerMakePathAbs example_os PATH_MAX ''/w/log'' False = Inr (Some ''/w/log'')"
    "length ''/w/log'' + 5 < PATH_MAX" by code_simp+
  have entries: "gcc_log_entries example_os ''/w'' [''a.c''] ?ws =
      [\<lparr>le_directory = ''/w'', le_command = ''gcc -I/usr/include /w/a.c'', le_file = ''/w/a.c''\<rparr>]" by code_simp
  have "lg_content ?s = [] \<and> [] = ([] :: log_entry list) \<or> lg_content ?s = render []" by simp
  from compilation_is_logged [OF ok gcc ws fit wd env path, of ?io "[]" "''gcc''", OF _ _ _ _ this]
  show ?thesis unfolding entries by auto
qed

end
